(* ===== verification/Prelude.thy ===== *)
theory Prelude
  imports "HOL-Library.Word"
begin

text \<open>
  What every component shares: the widths of the C integers, programs that pass a state and may
  stop without returning (\<open>fatal\<close>, \<open>packet_disconnect\<close>, \<open>lua_error\<close>), the composition of such
  programs with the rules that carry invariants through it, the round-trip interface \<open>codec\<close>
  that the encoders and decoders of the development interpret, and a few list facts.
\<close>

section \<open>C integers\<close>

type_synonym u8 = "8 word"
type_synonym u32 = "32 word"
type_synonym u64 = "64 word"

section \<open>Programs with state and early exit\<close>

text \<open>
  A C function that works on a state \<open>'s\<close>, may not return (exit value \<open>'e\<close>) or returns an
  \<open>'a\<close>. The state reached is kept in both cases: what was sent or logged before an exit stays
  visible.
\<close>

type_synonym ('s, 'e, 'a) prog = "'s \<Rightarrow> ('e + 'a) \<times> 's"

definition ret :: "'a \<Rightarrow> ('s, 'e, 'a) prog" where
  "ret a = (\<lambda>s. (Inr a, s))"

definition stop :: "'e \<Rightarrow> ('s, 'e, 'a) prog" where
  "stop e = (\<lambda>s. (Inl e, s))"

definition andThen ::
  "('s, 'e, 'a) prog \<Rightarrow> ('a \<Rightarrow> ('s, 'e, 'b) prog) \<Rightarrow> ('s, 'e, 'b) prog" where
  "andThen m f = (\<lambda>s. case m s of (Inl e, t) \<Rightarrow> (Inl e, t) | (Inr a, t) \<Rightarrow> f a t)"

definition thenDo :: "('s, 'e, 'a) prog \<Rightarrow> ('s, 'e, 'b) prog \<Rightarrow> ('s, 'e, 'b) prog" where
  "thenDo m n = andThen m (\<lambda>_. n)"

definition gets :: "('s \<Rightarrow> 'a) \<Rightarrow> ('s, 'e, 'a) prog" where
  "gets f = (\<lambda>s. (Inr (f s), s))"

definition modify :: "('s \<Rightarrow> 's) \<Rightarrow> ('s, 'e, unit) prog" where
  "modify f = (\<lambda>s. (Inr (), f s))"

definition when_p :: "bool \<Rightarrow> ('s, 'e, unit) prog \<Rightarrow> ('s, 'e, unit) prog" where
  "when_p b m = (if b then m else ret ())"

text \<open>
  Facts about running programs collect in \<open>prog_simps\<close>; they evaluate a program on a state.
\<close>

named_theorems prog_simps

lemma ret_run [prog_simps]: "ret a s = (Inr a, s)"
  by (simp add: ret_def)

lemma stop_run [prog_simps]: "stop e s = (Inl e, s)"
  by (simp add: stop_def)

lemma gets_run [prog_simps]: "gets f s = (Inr (f s), s)"
  by (simp add: gets_def)

lemma modify_run [prog_simps]: "modify f s = (Inr (), f s)"
  by (simp add: modify_def)

lemma andThen_run [prog_simps]:
  "andThen m f s = (case m s of (Inl e, t) \<Rightarrow> (Inl e, t) | (Inr a, t) \<Rightarrow> f a t)"
  by (simp add: andThen_def)

lemma thenDo_run [prog_simps]:
  "thenDo m n s = (case m s of (Inl e, t) \<Rightarrow> (Inl e, t) | (Inr a, t) \<Rightarrow> n t)"
  by (simp add: thenDo_def andThen_def)

lemma when_p_run [prog_simps]: "when_p b m s = (if b then m s else (Inr (), s))"
  by (simp add: when_p_def ret_def)

lemma andThen_ret: "andThen (ret a) f = f a"
  by (simp add: andThen_def ret_def)

lemma andThen_assoc: "andThen (andThen m f) g = andThen m (\<lambda>a. andThen (f a) g)"
  by (rule ext) (simp add: andThen_def split: prod.splits sum.splits)

lemma andThen_Inr:
  "(andThen m f s = (Inr b, u)) = (\<exists>a t. m s = (Inr a, t) \<and> f a t = (Inr b, u))"
  by (auto simp: andThen_def split: prod.splits sum.splits)

lemma andThen_Inl:
  "(andThen m f s = (Inl e, u)) =
     (m s = (Inl e, u) \<or> (\<exists>a t. m s = (Inr a, t) \<and> f a t = (Inl e, u)))"
  by (auto simp: andThen_def split: prod.splits sum.splits)

lemma thenDo_Inr:
  "(thenDo m n s = (Inr b, u)) = (\<exists>a t. m s = (Inr a, t) \<and> n t = (Inr b, u))"
  by (simp add: thenDo_def andThen_Inr)

lemma thenDo_Inl:
  "(thenDo m n s = (Inl e, u)) =
     (m s = (Inl e, u) \<or> (\<exists>a t. m s = (Inr a, t) \<and> n t = (Inl e, u)))"
  by (simp add: thenDo_def andThen_Inl)

section \<open>Triples\<close>

text \<open>
  \<open>triple P m Q R\<close>: from a state with \<open>P\<close>, a normal return of \<open>m\<close> satisfies \<open>Q\<close> and an exit
  satisfies \<open>R\<close>. Both are total statements about the one run there is.
\<close>

definition triple ::
  "('s \<Rightarrow> bool) \<Rightarrow> ('s, 'e, 'a) prog \<Rightarrow> ('a \<Rightarrow> 's \<Rightarrow> bool) \<Rightarrow> ('e \<Rightarrow> 's \<Rightarrow> bool) \<Rightarrow> bool" where
  "triple P m Q R \<longleftrightarrow>
     (\<forall>s. P s \<longrightarrow> (case m s of (Inl e, t) \<Rightarrow> R e t | (Inr a, t) \<Rightarrow> Q a t))"

named_theorems triple_rules

lemma tripleI:
  assumes "\<And>s e t. P s \<Longrightarrow> m s = (Inl e, t) \<Longrightarrow> R e t"
    and "\<And>s a t. P s \<Longrightarrow> m s = (Inr a, t) \<Longrightarrow> Q a t"
  shows "triple P m Q R"
  using assms by (auto simp: triple_def split: prod.splits sum.splits)

lemma tripleD_Inr: "triple P m Q R \<Longrightarrow> P s \<Longrightarrow> m s = (Inr a, t) \<Longrightarrow> Q a t"
  by (auto simp: triple_def)

lemma tripleD_Inl: "triple P m Q R \<Longrightarrow> P s \<Longrightarrow> m s = (Inl e, t) \<Longrightarrow> R e t"
  by (auto simp: triple_def)

lemma triple_ret: "(\<And>s. P s \<Longrightarrow> Q a s) \<Longrightarrow> triple P (ret a) Q R"
  by (simp add: triple_def ret_def)

lemma triple_stop: "(\<And>s. P s \<Longrightarrow> R e s) \<Longrightarrow> triple P (stop e) Q R"
  by (simp add: triple_def stop_def)

lemma triple_gets: "(\<And>s. P s \<Longrightarrow> Q (f s) s) \<Longrightarrow> triple P (gets f) Q R"
  by (simp add: triple_def gets_def)

lemma triple_modify: "(\<And>s. P s \<Longrightarrow> Q () (f s)) \<Longrightarrow> triple P (modify f) Q R"
  by (simp add: triple_def modify_def)

lemma triple_andThen:
  "triple P m M R \<Longrightarrow> (\<And>a. triple (M a) (f a) Q R) \<Longrightarrow> triple P (andThen m f) Q R"
  by (fastforce simp: triple_def andThen_def split: prod.splits sum.splits)

lemma triple_thenDo:
  "triple P m (\<lambda>_. M) R \<Longrightarrow> triple M n Q R \<Longrightarrow> triple P (thenDo m n) Q R"
  unfolding thenDo_def by (rule triple_andThen)

lemma triple_weaken:
  assumes "triple P' m Q' R'" and "\<And>s. P s \<Longrightarrow> P' s"
    and "\<And>a s. Q' a s \<Longrightarrow> Q a s" and "\<And>e s. R' e s \<Longrightarrow> R e s"
  shows "triple P m Q R"
  using assms by (fastforce simp: triple_def split: prod.splits sum.splits)

section \<open>Invariants of programs\<close>

text \<open>
  A predicate that holds before a program holds after it, however the program ends. The rules
  are syntax directed, so that \<open>auto intro!: keeps_rules\<close> walks through a whole function.
\<close>

definition keeps :: "('s \<Rightarrow> bool) \<Rightarrow> ('s, 'e, 'a) prog \<Rightarrow> bool" where
  "keeps I m \<longleftrightarrow> triple I m (\<lambda>_. I) (\<lambda>_. I)"

named_theorems keeps_rules

lemma keeps_iff: "keeps I m \<longleftrightarrow> (\<forall>s. I s \<longrightarrow> I (snd (m s)))"
  unfolding keeps_def triple_def
  by (simp add: case_prod_beta split: sum.split)

lemma keepsD: "keeps I m \<Longrightarrow> I s \<Longrightarrow> m s = (r, t) \<Longrightarrow> I t"
  by (force simp: keeps_iff)

lemma keepsI: "(\<And>s. I s \<Longrightarrow> I (snd (m s))) \<Longrightarrow> keeps I m"
  by (simp add: keeps_iff)

lemma keeps_ret [keeps_rules]: "keeps I (ret a)"
  by (simp add: keeps_iff ret_def)

lemma keeps_stop [keeps_rules]: "keeps I (stop e)"
  by (simp add: keeps_iff stop_def)

lemma keeps_gets [keeps_rules]: "keeps I (gets f)"
  by (simp add: keeps_iff gets_def)

lemma keeps_modify [keeps_rules]: "(\<And>s. I s \<Longrightarrow> I (f s)) \<Longrightarrow> keeps I (modify f)"
  by (simp add: keeps_iff modify_def)

lemma keeps_andThen [keeps_rules]:
  "keeps I m \<Longrightarrow> (\<And>a. keeps I (f a)) \<Longrightarrow> keeps I (andThen m f)"
  unfolding keeps_def by (rule triple_andThen)

lemma keeps_thenDo [keeps_rules]: "keeps I m \<Longrightarrow> keeps I n \<Longrightarrow> keeps I (thenDo m n)"
  unfolding thenDo_def by (rule keeps_andThen)

lemma keeps_when [keeps_rules]: "(b \<Longrightarrow> keeps I m) \<Longrightarrow> keeps I (when_p b m)"
  by (simp add: when_p_def keeps_ret)

lemma keeps_if [keeps_rules]:
  "(b \<Longrightarrow> keeps I m) \<Longrightarrow> (\<not> b \<Longrightarrow> keeps I n) \<Longrightarrow> keeps I (if b then m else n)"
  by simp

lemma keeps_option [keeps_rules]:
  "(x = None \<Longrightarrow> keeps I m) \<Longrightarrow> (\<And>a. x = Some a \<Longrightarrow> keeps I (f a)) \<Longrightarrow>
   keeps I (case x of None \<Rightarrow> m | Some a \<Rightarrow> f a)"
  by (cases x) simp_all

lemma keeps_prod [keeps_rules]:
  "(\<And>a b. x = (a, b) \<Longrightarrow> keeps I (f a b)) \<Longrightarrow> keeps I (case x of (a, b) \<Rightarrow> f a b)"
  by (cases x) simp

lemma triple_prod:
  "(\<And>a b. x = (a, b) \<Longrightarrow> triple P (f a b) Q R) \<Longrightarrow> triple P (case x of (a, b) \<Rightarrow> f a b) Q R"
  by (cases x) simp

lemma triple_after_andThen:
  "keeps I m \<Longrightarrow> (\<And>a. triple I (f a) Q (\<lambda>_. I)) \<Longrightarrow> triple I (andThen m f) Q (\<lambda>_. I)"
  unfolding keeps_def by (rule triple_andThen)

lemma triple_after_thenDo:
  "keeps I m \<Longrightarrow> triple I n Q (\<lambda>_. I) \<Longrightarrow> triple I (thenDo m n) Q (\<lambda>_. I)"
  unfolding keeps_def by (rule triple_thenDo)

lemmas triple_after = triple_after_andThen triple_after_thenDo triple_prod

section \<open>Encoders and decoders\<close>

text \<open>
  The round-trip contract: decoding an encoded value followed by anything gives the value back
  and leaves exactly what followed. \<open>dom_ok\<close> delimits the values the encoder is meant for.
\<close>

locale codec =
  fixes enc :: "'a \<Rightarrow> 'c list"
    and dec :: "'c list \<Rightarrow> ('a \<times> 'c list) option"
    and dom_ok :: "'a \<Rightarrow> bool"
  assumes dec_enc: "dom_ok x \<Longrightarrow> dec (enc x @ rest) = Some (x, rest)"
begin

text \<open>An encoder with a decoder is injective, even as a prefix of a longer text.\<close>

lemma enc_inj: "dom_ok x \<Longrightarrow> dom_ok y \<Longrightarrow> enc x @ r = enc y @ q \<Longrightarrow> x = y \<and> r = q"
proof -
  assume "dom_ok x" "dom_ok y" and eq: "enc x @ r = enc y @ q"
  then have "Some (x, r) = Some (y, q)"
    by (simp only: dec_enc [of x r, symmetric] dec_enc [of y q, symmetric] eq)
  then show ?thesis by simp
qed

primrec dec_many :: "nat \<Rightarrow> 'c list \<Rightarrow> ('a list \<times> 'c list) option" where
  "dec_many 0 cs = Some ([], cs)"
| "dec_many (Suc n) cs =
     (case dec cs of
        None \<Rightarrow> None
      | Some (x, cs') \<Rightarrow>
          (case dec_many n cs' of None \<Rightarrow> None | Some (xs, r) \<Rightarrow> Some (x # xs, r)))"

lemma dec_many_enc:
  "(\<And>x. x \<in> set xs \<Longrightarrow> dom_ok x) \<Longrightarrow>
   dec_many (length xs) (concat (map enc xs) @ rest) = Some (xs, rest)"
  by (induction xs) (simp_all add: dec_enc)

end

section \<open>List facts\<close>

lemma nth_append_hd: "xs \<noteq> [] \<Longrightarrow> (ys @ xs) ! length ys = hd xs"
  by (cases xs) simp_all

lemma list_update_append_mid: "(xs @ y # ys)[length xs := z] = xs @ z # ys"
  by simp

lemma find_append: "find p (xs @ ys) = (case find p xs of Some x \<Rightarrow> Some x | None \<Rightarrow> find p ys)"
  by (induction xs) auto

end
