(* ===== verification/SshBase.thy ===== *)
theory SshBase
  imports Prelude
begin

text \<open>
  The state shared by the three files of \<open>base/ssh\<close>: the authentication context, the server
  options, the statics of \<open>auth-pam_next.c\<close>, the messages written to the client, and an abstract
  world \<open>'w\<close> that every function outside the repository reads and changes (the kernel, the PAM
  library, the packet layer). Such functions are fields of environment records, so that the model
  fixes nothing about them but their types. Log lines (\<open>debug\<close>, \<open>error\<close>, \<open>logit\<close>, \<open>verbose\<close>) and
  the freeing of heap blocks are not modelled.
\<close>

section \<open>Leaving a function without returning\<close>

text \<open>
  \<open>Undefined\<close> is a step C gives no meaning to; \<open>NoFuel\<close> is a bound on iterations of the model
  that was too small, and never the outcome of the code.
\<close>

datatype exit_reason =
    Fatal string
  | Sigdie string
  | Disconnect string
  | ProcessExit int
  | Undefined string
  | NoFuel

section \<open>C strings\<close>

text \<open>A char buffer as the C string functions see it: the part before the first NUL.\<close>

definition cstr :: "string \<Rightarrow> string" where
  "cstr s = takeWhile (\<lambda>c. c \<noteq> CHR 0x00) s"

text \<open>\<open>strchr\<close> followed by cutting the string at the character found.\<close>

definition split_at :: "char \<Rightarrow> string \<Rightarrow> (string \<times> string) option" where
  "split_at c s =
     (if c \<in> set s then Some (takeWhile (\<lambda>x. x \<noteq> c) s, tl (dropWhile (\<lambda>x. x \<noteq> c) s))
      else None)"

text \<open>\<open>strlcpy (d + off, s, size)\<close> and \<open>strlcat (d + off, s, size)\<close> on the C string at \<open>d\<close>.\<close>

definition strlcpy_at :: "nat \<Rightarrow> string \<Rightarrow> nat \<Rightarrow> string \<Rightarrow> string" where
  "strlcpy_at off s sz d = (if sz = 0 then d else take off d @ take (sz - 1) (cstr s))"

definition strlcat_at :: "nat \<Rightarrow> string \<Rightarrow> nat \<Rightarrow> string \<Rightarrow> string" where
  "strlcat_at off s sz d =
     (let cur = length (drop off d)
      in if sz \<le> cur then d else d @ take (sz - cur - 1) (cstr s))"

lemma cstr_idem [simp]: "cstr (cstr s) = cstr s"
  by (simp add: cstr_def)

lemma cstr_no_nul: "CHR 0x00 \<notin> set (cstr s)"
  by (auto simp: cstr_def dest: set_takeWhileD)

lemma cstr_id: "CHR 0x00 \<notin> set s \<Longrightarrow> cstr s = s"
  by (auto simp: cstr_def takeWhile_eq_all_conv)

lemma split_at_SomeD:
  assumes "split_at c s = Some (a, b)"
  shows "s = a @ c # b" and "c \<notin> set a"
proof -
  from assms have c: "c \<in> set s" and a: "a = takeWhile (\<lambda>x. x \<noteq> c) s"
    and b: "b = tl (dropWhile (\<lambda>x. x \<noteq> c) s)"
    by (auto simp: split_at_def split: if_splits)
  from c have ne: "dropWhile (\<lambda>x. x \<noteq> c) s \<noteq> []"
    by (auto simp: dropWhile_eq_Nil_conv)
  have "hd (dropWhile (\<lambda>x. x \<noteq> c) s) = c"
    using hd_dropWhile [OF ne] by simp
  with ne b have "dropWhile (\<lambda>x. x \<noteq> c) s = c # b"
    by (cases "dropWhile (\<lambda>x. x \<noteq> c) s") simp_all
  with a show "s = a @ c # b"
    by (metis takeWhile_dropWhile_id)
  show "c \<notin> set a"
    unfolding a by (auto dest: set_takeWhileD)
qed

lemma split_at_None: "split_at c s = None \<longleftrightarrow> c \<notin> set s"
  by (simp add: split_at_def)

lemma split_at_append: "c \<notin> set a \<Longrightarrow> split_at c (a @ c # b) = Some (a, b)"
  by (induction a) (auto simp: split_at_def)

lemma split_at_Some: "split_at c s = Some (a, b) \<longleftrightarrow> s = a @ c # b \<and> c \<notin> set a"
  by (auto simp: split_at_append dest: split_at_SomeD)

section \<open>Authentication context and options\<close>

record passwd =
  pw_name :: string
  pw_uid :: u32

text \<open>
  The fields of \<open>Authctxt\<close> that the three files use. \<open>user\<close> and \<open>service\<close> are NULL in C until the
  first request and the empty string here; they are only read after they were set. The counters
  are \<open>int\<close> in C and stay far below its bounds.
\<close>

record Authctxt =
  success :: bool
  postponed :: bool
  valid :: bool
  attempt :: int
  failures :: int
  server_caused_failure :: bool
  force_pwchange :: u32
  user :: string
  service :: string
  pw :: "passwd option"
  style :: "string option"
  role :: "string option"

datatype permit_root = PERMIT_YES | PERMIT_ROOT_other int

record ServerOptions =
  use_pam :: bool
  permit_empty_passwd :: bool
  permit_root_login :: permit_root
  use_dns :: bool
  password_authentication :: bool
  rsa_authentication :: bool
  rhosts_rsa_authentication :: bool
  challenge_response_authentication :: bool
  kerberos_authentication :: bool
  kerberos_or_local_passwd :: bool
  max_authtries :: int
  banner :: "string option"

text \<open>The preprocessor symbols that select code in the three files.\<close>

record build =
  KRB5 :: bool
  GSSAPI :: bool
  JPAKE :: bool
  SSH_AUDIT_EVENTS :: bool
  PAM_TTY_KLUDGE :: bool

section \<open>The PAM module's own data\<close>

text \<open>
  PAM's numeric constants come from a header outside the repository; the code only compares
  them, so each is a constructor and any other number is \<open>..._other\<close>.
\<close>

datatype pam_rc =
    PAM_SUCCESS | PAM_CONV_ERR | PAM_AUTH_ERR | PAM_ACCT_EXPIRED | PAM_NEW_AUTHTOK_REQD
  | PAM_rc_other int

datatype pam_style =
    PAM_PROMPT_ECHO_OFF | PAM_PROMPT_ECHO_ON | PAM_ERROR_MSG | PAM_TEXT_INFO
  | PAM_style_other int

text \<open>The type byte of a message between the server and its PAM process.\<close>

datatype wire = WStyle pam_style | WRc pam_rc | PAM_AUTHTOK | WOther int

record pam_message =
  msg_style :: pam_style
  msg :: string

record pam_response =
  resp :: "string option"
  resp_retcode :: pam_rc

record pam_ctxt =
  pam_thread :: int
  pam_psock :: int
  pam_csock :: int
  pam_done :: int

text \<open>The conversation functions, as the values stored in the \<open>PAM_CONV\<close> item.\<close>

datatype conv_fn =
    null_conv | store_conv | tty_conv | passwd_conv | thread_conv "nat option"

datatype pam_item = PAM_CONV conv_fn | PAM_RHOST string | PAM_TTY string

datatype cred_op = PAM_ESTABLISH_CRED | PAM_REINITIALIZE_CRED | PAM_DELETE_CRED

datatype sighandler = SIG_DFL | sshpam_sigchld | sig_other int

section \<open>What the server writes, in order\<close>

text \<open>
  Message numbers come from \<open>ssh1.h\<close> and \<open>ssh2.h\<close>, outside the repository: the code compares them
  and uses them as keys of its tables, so each is a constructor.
\<close>

datatype msgtype =
    SSH_CMSG_USER | SSH_CMSG_AUTH_PASSWORD | SSH_CMSG_AUTH_RSA | SSH_CMSG_AUTH_RHOSTS_RSA
  | SSH_CMSG_AUTH_TIS | SSH_CMSG_AUTH_TIS_RESPONSE | SSH_SMSG_AUTH_TIS_CHALLENGE
  | SSH_SMSG_FAILURE | SSH_SMSG_SUCCESS
  | SSH2_MSG_SERVICE_REQUEST | SSH2_MSG_SERVICE_ACCEPT | SSH2_MSG_USERAUTH_REQUEST
  | SSH2_MSG_USERAUTH_FAILURE | SSH2_MSG_USERAUTH_SUCCESS | SSH2_MSG_USERAUTH_BANNER
  | SSH2_MSG_USERAUTH_GSSAPI_TOKEN | SSH2_MSG_USERAUTH_GSSAPI_EXCHANGE_COMPLETE
  | SSH_MSG_other int

datatype audit = SSH_LOGIN_ROOT_DENIED | SSH_LOGIN_EXCEED_MAXTRIES | SSH_INVALID_USER

datatype out_event =
    packet_start msgtype
  | packet_put_cstring string
  | packet_put_char nat
  | packet_send
  | packet_write_wait
  | auth_log bool string string
  | audit_event audit
  | setproctitle string
  | stderr_line string
  | inform_authserv string "string option" "string option"

section \<open>The server's state\<close>

datatype handler =
    dispatch_protocol_error | dispatch_protocol_ignore | input_service_request_h
  | input_userauth_request_h | other_handler nat

record 'w sshd =
  authctxt :: Authctxt
  loginmsg :: string
  sshpam_handle :: "nat option"
  sshpam_err :: pam_rc
  sshpam_authenticated :: bool
  sshpam_session_open :: bool
  sshpam_cred_established :: bool
  sshpam_account_status :: int
  sshpam_env :: "string list option"
  sshpam_authctxt :: bool
  sshpam_password :: "string option"
  cleanup_ctxt :: "nat option"
  sshpam_thread_status :: int
  sshpam_oldsig :: sighandler
  ctx_mem :: "nat \<rightharpoonup> pam_ctxt"
  ctx_next :: nat
  no_port_forwarding_flag :: u32
  no_agent_forwarding_flag :: u32
  no_x11_forwarding_flag :: u32
  environ :: "string list"
  client_user :: "string option"
  dispatch_default :: handler
  dispatch_table :: "msgtype \<rightharpoonup> handler option"
  out :: "out_event list"
  world :: 'w

type_synonym ('w, 'a) sprog = "('w sshd, exit_reason, 'a) prog"

text \<open>A function outside the repository: it sees and changes the world only.\<close>

definition ext :: "('w \<Rightarrow> 'a \<times> 'w) \<Rightarrow> ('w, 'a) sprog" where
  "ext f = (\<lambda>s. case f (world s) of (a, w) \<Rightarrow> (Inr a, s\<lparr>world := w\<rparr>))"

text \<open>The same for one that may not return.\<close>

definition extx :: "('w \<Rightarrow> (exit_reason + 'a) \<times> 'w) \<Rightarrow> ('w, 'a) sprog" where
  "extx f = (\<lambda>s. case f (world s) of (r, w) \<Rightarrow> (r, s\<lparr>world := w\<rparr>))"

definition emit :: "out_event list \<Rightarrow> ('w, unit) sprog" where
  "emit es = modify (\<lambda>s. s\<lparr>out := out s @ es\<rparr>)"

definition upd_authctxt :: "(Authctxt \<Rightarrow> Authctxt) \<Rightarrow> ('w, unit) sprog" where
  "upd_authctxt f = modify (\<lambda>s. s\<lparr>authctxt := f (authctxt s)\<rparr>)"

lemma ext_run [prog_simps]:
  "ext f s = (Inr (fst (f (world s))), s\<lparr>world := snd (f (world s))\<rparr>)"
  by (simp add: ext_def split: prod.splits)

lemma extx_run [prog_simps]:
  "extx f s = (fst (f (world s)), s\<lparr>world := snd (f (world s))\<rparr>)"
  by (simp add: extx_def split: prod.splits)

lemma emit_run [prog_simps]: "emit es s = (Inr (), s\<lparr>out := out s @ es\<rparr>)"
  by (simp add: emit_def modify_def)

lemma upd_authctxt_run [prog_simps]:
  "upd_authctxt f s = (Inr (), s\<lparr>authctxt := f (authctxt s)\<rparr>)"
  by (simp add: upd_authctxt_def modify_def)

lemma keeps_ext [keeps_rules]: "(\<And>s w. I s \<Longrightarrow> I (s\<lparr>world := w\<rparr>)) \<Longrightarrow> keeps I (ext f)"
  by (simp add: keeps_iff prog_simps)

lemma keeps_extx [keeps_rules]: "(\<And>s w. I s \<Longrightarrow> I (s\<lparr>world := w\<rparr>)) \<Longrightarrow> keeps I (extx f)"
  by (simp add: keeps_iff prog_simps)

lemma keeps_emit [keeps_rules]:
  "(\<And>s. I s \<Longrightarrow> I (s\<lparr>out := out s @ es\<rparr>)) \<Longrightarrow> keeps I (emit es)"
  by (simp add: keeps_iff prog_simps)

lemma keeps_upd_authctxt [keeps_rules]:
  "(\<And>s. I s \<Longrightarrow> I (s\<lparr>authctxt := f (authctxt s)\<rparr>)) \<Longrightarrow> keeps I (upd_authctxt f)"
  by (simp add: keeps_iff prog_simps)

end
