(* ===== verification/SshPam.thy ===== *)
theory SshPam
  imports SshBase
begin

text \<open>
  \<open>base/ssh/auth-pam_next.c\<close>: PAM authentication of the SSH server. The PAM library, the kernel and
  OpenSSH's \<open>Buffer\<close> are parameters (\<open>pam_env\<close>). PAM calls back into the conversation functions of
  this file; a library call is therefore a \<open>pam_run\<close>, a tree of callbacks that ends in a return
  code, and \<open>run_pam\<close> runs it with the model's conversation functions.
\<close>

unbundle bit_operations_syntax

section \<open>Parameters\<close>

datatype (dead 'w) pam_run =
    PamDone pam_rc 'w
  | PamConv conv_fn "pam_message list" 'w "pam_response list option \<Rightarrow> 'w \<Rightarrow> 'w pam_run"

record ('w, 'b) pam_env =
  options :: ServerOptions
  build_flags :: build
  use_privsep :: bool
  compat20 :: bool
  SSHD_PAM_SERVICE :: string
  PAM_MAX_NUM_MSG :: nat
  \<comment> \<open>the kernel and libc\<close>
  alloc_ok :: "nat \<Rightarrow> 'w \<Rightarrow> bool \<times> 'w"
  socketpair :: "'w \<Rightarrow> (int \<times> int) option \<times> 'w"
  fork :: "'w \<Rightarrow> int \<times> 'w"
  kill_term :: "int \<Rightarrow> 'w \<Rightarrow> int \<times> 'w"
  waitpid :: "int \<Rightarrow> bool \<Rightarrow> 'w \<Rightarrow> (int \<times> int) \<times> 'w"
  close_fd :: "int \<Rightarrow> 'w \<Rightarrow> unit \<times> 'w"
  signal_chld :: "sighandler \<Rightarrow> 'w \<Rightarrow> sighandler \<times> 'w"
  termsig_is_term :: "int \<Rightarrow> bool"
  WIFSIGNALED :: "int \<Rightarrow> bool"
  WIFEXITED :: "int \<Rightarrow> bool"
  WEXITSTATUS :: "int \<Rightarrow> int"
  setenv_ok :: "'w \<Rightarrow> bool \<times> 'w"
  isatty_stdin :: "'w \<Rightarrow> bool \<times> 'w"
  read_passphrase :: "string \<Rightarrow> 'w \<Rightarrow> string option \<times> 'w"
  fgets_stdin :: "'w \<Rightarrow> string option \<times> 'w"
  \<comment> \<open>OpenSSH outside this file\<close>
  buffer_empty :: 'b
  buffer_put_int :: "u32 \<Rightarrow> 'b \<Rightarrow> 'b"
  buffer_put_cstring :: "string \<Rightarrow> 'b \<Rightarrow> 'b"
  buffer_get_int :: "'b \<Rightarrow> (u32 \<times> 'b) option"
  buffer_get_string :: "'b \<Rightarrow> (string \<times> 'b) option"
  buffer_get_char :: "'b \<Rightarrow> (wire \<times> 'b) option"
  ssh_msg_send :: "int \<Rightarrow> wire \<Rightarrow> 'b \<Rightarrow> 'w \<Rightarrow> bool \<times> 'w"
  ssh_msg_recv :: "int \<Rightarrow> 'w \<Rightarrow> 'b option \<times> 'w"
  get_remote_name_or_ip :: "bool \<Rightarrow> 'w \<Rightarrow> string \<times> 'w"
  mm_is_monitor :: "'w \<Rightarrow> bool \<times> 'w"
  disable_forwarding :: "u32 \<times> u32 \<times> u32 \<Rightarrow> u32 \<times> u32 \<times> u32"
  \<comment> \<open>the PAM library\<close>
  pam_start :: "string \<Rightarrow> string \<Rightarrow> conv_fn \<Rightarrow> 'w \<Rightarrow> (pam_rc \<times> nat option) \<times> 'w"
  pam_end :: "nat option \<Rightarrow> pam_rc \<Rightarrow> 'w \<Rightarrow> unit \<times> 'w"
  pam_get_user :: "nat option \<Rightarrow> 'w \<Rightarrow> (pam_rc \<times> string) \<times> 'w"
  pam_set_item :: "nat option \<Rightarrow> pam_item \<Rightarrow> 'w \<Rightarrow> pam_rc \<times> 'w"
  pam_authenticate :: "nat option \<Rightarrow> bool \<Rightarrow> 'w \<Rightarrow> 'w pam_run"
  pam_acct_mgmt :: "nat option \<Rightarrow> 'w \<Rightarrow> 'w pam_run"
  pam_setcred :: "nat option \<Rightarrow> cred_op \<Rightarrow> 'w \<Rightarrow> 'w pam_run"
  pam_chauthtok :: "nat option \<Rightarrow> 'w \<Rightarrow> 'w pam_run"
  pam_open_session :: "nat option \<Rightarrow> 'w \<Rightarrow> 'w pam_run"
  pam_close_session :: "nat option \<Rightarrow> 'w \<Rightarrow> 'w pam_run"
  pam_strerror :: "nat option \<Rightarrow> pam_rc \<Rightarrow> string"
  pam_putenv :: "nat option \<Rightarrow> string \<Rightarrow> 'w \<Rightarrow> pam_rc \<times> 'w"
  pam_getenvlist :: "nat option \<Rightarrow> 'w \<Rightarrow> string list option \<times> 'w"

text \<open>Reading a value that is not there makes OpenSSH's buffer functions call \<open>fatal\<close>.\<close>

definition from_buffer :: "('a \<times> 'b) option \<Rightarrow> ('w, 'a \<times> 'b) sprog" where
  "from_buffer r = (case r of None \<Rightarrow> stop (Fatal ''buffer error'') | Some x \<Rightarrow> ret x)"

section \<open>The PAM process: a thread simulated by a process\<close>

definition the_ctx :: "nat \<Rightarrow> ('w, pam_ctxt) sprog" where
  "the_ctx a = andThen (gets (\<lambda>s. ctx_mem s a)) (\<lambda>c.
     case c of None \<Rightarrow> stop (Undefined ''pam_ctxt freed'') | Some x \<Rightarrow> ret x)"

definition sshpam_sigchld_handler :: "('w, 'b) pam_env \<Rightarrow> ('w, unit) sprog" where
  "sshpam_sigchld_handler E =
     andThen (ext (signal_chld E SIG_DFL)) (\<lambda>_.
     andThen (gets cleanup_ctxt) (\<lambda>c.
     case c of None \<Rightarrow> ret ()
     | Some a \<Rightarrow>
       andThen (the_ctx a) (\<lambda>ctx.
       andThen (ext (waitpid E (pam_thread ctx) True)) (\<lambda>(r, st).
       andThen
         (if r \<le> 0 then
            thenDo (ext (kill_term E (pam_thread ctx)))
            (andThen (ext (waitpid E (pam_thread ctx) False)) (\<lambda>(r', st').
             if r' \<le> 0 then ret False
             else thenDo (modify (\<lambda>s. s\<lparr>sshpam_thread_status := st'\<rparr>)) (ret True)))
          else thenDo (modify (\<lambda>s. s\<lparr>sshpam_thread_status := st\<rparr>)) (ret True)) (\<lambda>waited.
       if \<not> waited then ret ()
       else andThen (gets sshpam_thread_status) (\<lambda>status.
         if WIFSIGNALED E status \<and> termsig_is_term E status then ret ()
         else if \<not> WIFEXITED E status then
           stop (Sigdie ''PAM: authentication thread exited unexpectedly'')
         else if WEXITSTATUS E status \<noteq> 0 then
           stop (Sigdie ''PAM: authentication thread exited uncleanly'')
         else ret ()))))))"

definition pthread_exit :: "('w, 'a) sprog" where
  "pthread_exit = stop (ProcessExit 0)"

definition upd_ctx :: "nat \<Rightarrow> (pam_ctxt \<Rightarrow> pam_ctxt) \<Rightarrow> ('w, unit) sprog" where
  "upd_ctx a f = modify (\<lambda>s. s\<lparr>ctx_mem := (ctx_mem s)(a := map_option f (ctx_mem s a))\<rparr>)"

text \<open>Following a pointer to a \<open>pam_ctxt\<close> that was freed has no meaning in C.\<close>

text \<open>
  \<open>fork\<close> returns in both processes; the child runs the thread function and never comes back,
  so a run of the model is a run of one of the two.
\<close>

definition pthread_create ::
  "('w, 'b) pam_env \<Rightarrow> ('w, unit) sprog \<Rightarrow> nat \<Rightarrow> ('w, int) sprog" where
  "pthread_create E thread_start a =
     thenDo (modify (\<lambda>s. s\<lparr>sshpam_thread_status := -1\<rparr>))
     (andThen (ext (fork E)) (\<lambda>pid.
      andThen (the_ctx a) (\<lambda>ctx.
      if pid = -1 then ret (-1)
      else if pid = 0 then
        thenDo (ext (close_fd E (pam_psock ctx)))
        (thenDo (upd_ctx a (\<lambda>c. c\<lparr>pam_psock := -1\<rparr>))
        (thenDo thread_start (stop (ProcessExit 1))))
      else
        thenDo (upd_ctx a (\<lambda>c. c\<lparr>pam_thread := pid\<rparr>))
        (thenDo (ext (close_fd E (pam_csock ctx)))
        (thenDo (upd_ctx a (\<lambda>c. c\<lparr>pam_csock := -1\<rparr>))
        (andThen (ext (signal_chld E sshpam_sigchld)) (\<lambda>old.
         thenDo (modify (\<lambda>s. s\<lparr>sshpam_oldsig := old\<rparr>)) (ret 0))))))))"

definition pthread_cancel :: "('w, 'b) pam_env \<Rightarrow> int \<Rightarrow> ('w, int) sprog" where
  "pthread_cancel E thread =
     andThen (gets sshpam_oldsig) (\<lambda>old.
     thenDo (ext (signal_chld E old)) (ext (kill_term E thread)))"

definition pthread_join :: "('w, 'b) pam_env \<Rightarrow> int \<Rightarrow> ('w, int) sprog" where
  "pthread_join E thread =
     andThen (gets sshpam_thread_status) (\<lambda>st.
     if st \<noteq> -1 then ret st
     else andThen (gets sshpam_oldsig) (\<lambda>old.
       thenDo (ext (signal_chld E old))
       (andThen (ext (waitpid E thread False)) (\<lambda>(_, status). ret status))))"

section \<open>Password change and the environment of the PAM process\<close>

definition sshpam_password_change_required :: "u32 \<Rightarrow> ('w, unit) sprog" where
  "sshpam_password_change_required reqd =
     andThen (gets sshpam_authctxt) (\<lambda>ok.
     if \<not> ok then stop (Fatal ''sshpam_password_change_required: PAM authctxt not initialized'')
     else thenDo (upd_authctxt (\<lambda>a. a\<lparr>force_pwchange := reqd\<rparr>))
       (modify (\<lambda>s.
          if reqd \<noteq> 0 then
            s\<lparr>no_port_forwarding_flag := no_port_forwarding_flag s OR 2,
              no_agent_forwarding_flag := no_agent_forwarding_flag s OR 2,
              no_x11_forwarding_flag := no_x11_forwarding_flag s OR 2\<rparr>
          else
            s\<lparr>no_port_forwarding_flag := no_port_forwarding_flag s AND NOT 2,
              no_agent_forwarding_flag := no_agent_forwarding_flag s AND NOT 2,
              no_x11_forwarding_flag := no_x11_forwarding_flag s AND NOT 2\<rparr>)))"

text \<open>\<open>num_env\<close> strings in a row, in the order of the loop.\<close>

primrec get_strings ::
  "('w, 'b) pam_env \<Rightarrow> nat \<Rightarrow> 'b \<Rightarrow> ('w, string list \<times> 'b) sprog" where
  "get_strings E 0 b = ret ([], b)"
| "get_strings E (Suc n) b =
     andThen (from_buffer (buffer_get_string E b)) (\<lambda>(x, b').
     andThen (get_strings E n b') (\<lambda>(xs, b''). ret (x # xs, b'')))"

text \<open>The second loop puts each string into the PAM environment; errors are not fatal there.\<close>

primrec put_pam_env :: "('w, 'b) pam_env \<Rightarrow> nat \<Rightarrow> 'b \<Rightarrow> ('w, 'b) sprog" where
  "put_pam_env E 0 b = ret b"
| "put_pam_env E (Suc n) b =
     andThen (from_buffer (buffer_get_string E b)) (\<lambda>(env, b').
     andThen (gets sshpam_handle) (\<lambda>h.
     thenDo (ext (pam_putenv E h env)) (put_pam_env E n b')))"

definition import_environments :: "('w, 'b) pam_env \<Rightarrow> 'b \<Rightarrow> ('w, unit) sprog" where
  "import_environments E b =
     andThen (from_buffer (buffer_get_int E b)) (\<lambda>(status, b1).
     thenDo (modify (\<lambda>s. s\<lparr>sshpam_account_status := sint status\<rparr>))
     (andThen (from_buffer (buffer_get_int E b1)) (\<lambda>(reqd, b2).
     thenDo (sshpam_password_change_required reqd)
     (andThen (from_buffer (buffer_get_int E b2)) (\<lambda>(num_env, b3).
      if num_env > 1024 then
        stop (Fatal ''import_environments: received too many environment variables'')
      else
        andThen (get_strings E (unat num_env) b3) (\<lambda>(env, b4).
        thenDo (modify (\<lambda>s. s\<lparr>sshpam_env := Some env\<rparr>))
        (andThen (from_buffer (buffer_get_int E b4)) (\<lambda>(num_pam, b5).
         thenDo (put_pam_env E (unat num_pam) b5) (ret ())))))))))"

section \<open>Conversation functions\<close>

text \<open>\<open>calloc\<close>ed replies: no text and return code 0, which is \<open>PAM_SUCCESS\<close>.\<close>

definition blank_reply :: pam_response where
  "blank_reply = \<lparr>resp = None, resp_retcode = PAM_SUCCESS\<rparr>"

text \<open>
  The four conversation functions share their frame: the bound on the number of messages, the
  allocation of the replies, the loop over the messages with its \<open>goto fail\<close> (\<open>None\<close>). PAM passes an
  array of \<open>n\<close> messages, here a list of length \<open>n\<close>.
\<close>

fun conv_loop ::
  "(pam_message \<Rightarrow> ('w, pam_response option) sprog) \<Rightarrow> pam_message list \<Rightarrow>
   ('w, pam_response list option) sprog" where
  "conv_loop f [] = ret (Some [])"
| "conv_loop f (m # ms) =
     andThen (f m) (\<lambda>r. case r of None \<Rightarrow> ret None
     | Some x \<Rightarrow> andThen (conv_loop f ms) (\<lambda>xs. ret (map_option ((#) x) xs)))"

definition conv_frame ::
  "('w, 'b) pam_env \<Rightarrow> ('w, bool) sprog \<Rightarrow> (pam_message \<Rightarrow> ('w, pam_response option) sprog) \<Rightarrow>
   pam_message list \<Rightarrow> ('w, pam_response list option) sprog" where
  "conv_frame E extra f ms =
     (if ms = [] \<or> length ms > PAM_MAX_NUM_MSG E then ret None
      else andThen extra (\<lambda>go.
        if \<not> go then ret None
        else andThen (ext (alloc_ok E (length ms))) (\<lambda>ok.
          if \<not> ok then ret None else conv_loop f ms)))"

definition append_loginmsg :: "string \<Rightarrow> ('w, unit) sprog" where
  "append_loginmsg x = modify (\<lambda>s. s\<lparr>loginmsg := loginmsg s @ x\<rparr>)"

definition newline :: string where
  "newline = [CHR 0x0A]"

definition store_msg :: "pam_message \<Rightarrow> ('w, pam_response option) sprog" where
  "store_msg m = (case msg_style m of
       PAM_ERROR_MSG \<Rightarrow>
         thenDo (append_loginmsg (cstr (msg m) @ newline)) (ret (Some blank_reply))
     | PAM_TEXT_INFO \<Rightarrow>
         thenDo (append_loginmsg (cstr (msg m) @ newline)) (ret (Some blank_reply))
     | _ \<Rightarrow> ret None)"

definition sshpam_store_conv ::
  "('w, 'b) pam_env \<Rightarrow> pam_message list \<Rightarrow> ('w, pam_response list option) sprog" where
  "sshpam_store_conv E = conv_frame E (ret True) store_msg"

definition sshpam_null_conv :: "pam_message list \<Rightarrow> ('w, pam_response list option) sprog" where
  "sshpam_null_conv ms = ret None"

definition strdup_reply ::
  "('w, 'b) pam_env \<Rightarrow> string \<Rightarrow> ('w, pam_response option) sprog" where
  "strdup_reply E x =
     andThen (ext (alloc_ok E (length (cstr x) + 1))) (\<lambda>ok.
       ret (if ok then Some (blank_reply\<lparr>resp := Some (cstr x)\<rparr>) else None))"

definition passwd_info :: "('w, 'b) pam_env \<Rightarrow> string \<Rightarrow> ('w, pam_response option) sprog" where
  "passwd_info E x =
     thenDo (when_p (x \<noteq> []) (append_loginmsg (x @ newline))) (strdup_reply E [])"

definition passwd_msg ::
  "('w, 'b) pam_env \<Rightarrow> pam_message \<Rightarrow> ('w, pam_response option) sprog" where
  "passwd_msg E m = (case msg_style m of
       PAM_PROMPT_ECHO_OFF \<Rightarrow>
         andThen (gets sshpam_password) (\<lambda>p.
           case p of None \<Rightarrow> ret None | Some x \<Rightarrow> strdup_reply E x)
     | PAM_ERROR_MSG \<Rightarrow> passwd_info E (cstr (msg m))
     | PAM_TEXT_INFO \<Rightarrow> passwd_info E (cstr (msg m))
     | _ \<Rightarrow> ret None)"

definition sshpam_passwd_conv ::
  "('w, 'b) pam_env \<Rightarrow> pam_message list \<Rightarrow> ('w, pam_response list option) sprog" where
  "sshpam_passwd_conv E = conv_frame E (ret True) (passwd_msg E)"

definition tty_msg ::
  "('w, 'b) pam_env \<Rightarrow> pam_message \<Rightarrow> ('w, pam_response option) sprog" where
  "tty_msg E m = (case msg_style m of
       PAM_PROMPT_ECHO_OFF \<Rightarrow>
         andThen (ext (read_passphrase E (msg m))) (\<lambda>p. ret (Some (blank_reply\<lparr>resp := p\<rparr>)))
     | PAM_PROMPT_ECHO_ON \<Rightarrow>
         thenDo (emit [stderr_line (msg m)])
         (andThen (ext (fgets_stdin E)) (\<lambda>line.
          strdup_reply E (case line of None \<Rightarrow> [] | Some x \<Rightarrow> x)))
     | PAM_ERROR_MSG \<Rightarrow> thenDo (emit [stderr_line (msg m)]) (ret (Some blank_reply))
     | PAM_TEXT_INFO \<Rightarrow> thenDo (emit [stderr_line (msg m)]) (ret (Some blank_reply))
     | _ \<Rightarrow> ret None)"

definition sshpam_tty_conv ::
  "('w, 'b) pam_env \<Rightarrow> pam_message list \<Rightarrow> ('w, pam_response list option) sprog" where
  "sshpam_tty_conv E = conv_frame E (ext (isatty_stdin E)) (tty_msg E)"

text \<open>
  In the PAM process every message goes to the server over the socket; a prompt waits for the
  answer, which must carry the type byte \<open>PAM_AUTHTOK\<close>.
\<close>

definition thread_prompt ::
  "('w, 'b) pam_env \<Rightarrow> int \<Rightarrow> pam_message \<Rightarrow> ('w, pam_response option) sprog" where
  "thread_prompt E csock m =
     andThen (ext (ssh_msg_send E csock (WStyle (msg_style m))
                     (buffer_put_cstring E (msg m) (buffer_empty E)))) (\<lambda>sent.
     if \<not> sent then ret None
     else andThen (ext (ssh_msg_recv E csock)) (\<lambda>got.
       case got of None \<Rightarrow> ret None
       | Some b \<Rightarrow>
           andThen (from_buffer (buffer_get_char E b)) (\<lambda>(c, b').
           if c \<noteq> PAM_AUTHTOK then ret None
           else andThen (from_buffer (buffer_get_string E b')) (\<lambda>(x, _).
             ret (Some (blank_reply\<lparr>resp := Some x\<rparr>))))))"

definition thread_info ::
  "('w, 'b) pam_env \<Rightarrow> int \<Rightarrow> pam_message \<Rightarrow> ('w, pam_response option) sprog" where
  "thread_info E csock m =
     andThen (ext (ssh_msg_send E csock (WStyle (msg_style m))
                     (buffer_put_cstring E (msg m) (buffer_empty E)))) (\<lambda>sent.
     ret (if sent then Some blank_reply else None))"

definition thread_msg ::
  "('w, 'b) pam_env \<Rightarrow> int \<Rightarrow> pam_message \<Rightarrow> ('w, pam_response option) sprog" where
  "thread_msg E csock m = (case msg_style m of
       PAM_PROMPT_ECHO_OFF \<Rightarrow> thread_prompt E csock m
     | PAM_PROMPT_ECHO_ON \<Rightarrow> thread_prompt E csock m
     | PAM_ERROR_MSG \<Rightarrow> thread_info E csock m
     | PAM_TEXT_INFO \<Rightarrow> thread_info E csock m
     | _ \<Rightarrow> ret None)"

definition sshpam_thread_conv ::
  "('w, 'b) pam_env \<Rightarrow> nat option \<Rightarrow> pam_message list \<Rightarrow>
   ('w, pam_response list option) sprog" where
  "sshpam_thread_conv E data ms = (case data of
       None \<Rightarrow> ret None
     | Some a \<Rightarrow>
         andThen (the_ctx a) (\<lambda>ctx.
         conv_frame E (ret True) (thread_msg E (pam_csock ctx)) ms))"

fun run_conv ::
  "('w, 'b) pam_env \<Rightarrow> conv_fn \<Rightarrow> pam_message list \<Rightarrow> ('w, pam_response list option) sprog" where
  "run_conv E null_conv ms = sshpam_null_conv ms"
| "run_conv E store_conv ms = sshpam_store_conv E ms"
| "run_conv E tty_conv ms = sshpam_tty_conv E ms"
| "run_conv E passwd_conv ms = sshpam_passwd_conv E ms"
| "run_conv E (thread_conv a) ms = sshpam_thread_conv E a ms"

text \<open>A library call: its callbacks run in this process, on its state.\<close>

primrec run_pam :: "('w, 'b) pam_env \<Rightarrow> 'w pam_run \<Rightarrow> ('w, pam_rc) sprog" where
  "run_pam E (PamDone rc w) = thenDo (modify (\<lambda>s. s\<lparr>world := w\<rparr>)) (ret rc)"
| "run_pam E (PamConv c ms w k) =
     thenDo (modify (\<lambda>s. s\<lparr>world := w\<rparr>))
     (andThen (run_conv E c ms) (\<lambda>r. \<lambda>s. run_pam E (k r (world s)) s))"

definition call_pam :: "('w, 'b) pam_env \<Rightarrow> ('w \<Rightarrow> 'w pam_run) \<Rightarrow> ('w, pam_rc) sprog" where
  "call_pam E f = (\<lambda>s. run_pam E (f (world s)) s)"

definition set_err :: "pam_rc \<Rightarrow> ('w, unit) sprog" where
  "set_err rc = modify (\<lambda>s. s\<lparr>sshpam_err := rc\<rparr>)"

text \<open>\<open>sshpam_err = pam_...\<close>, for calls with and without callbacks.\<close>

definition err_pam :: "('w, 'b) pam_env \<Rightarrow> ('w \<Rightarrow> 'w pam_run) \<Rightarrow> ('w, pam_rc) sprog" where
  "err_pam E f = andThen (call_pam E f) (\<lambda>rc. thenDo (set_err rc) (ret rc))"

definition err_ext :: "('w \<Rightarrow> pam_rc \<times> 'w) \<Rightarrow> ('w, pam_rc) sprog" where
  "err_ext f = andThen (ext f) (\<lambda>rc. thenDo (set_err rc) (ret rc))"

end
