(* ===== verification/SshPamOps.thy ===== *)
theory SshPamOps
  imports SshPam
begin

text \<open>
  The operations of \<open>base/ssh/auth-pam_next.c\<close> on top of the conversation functions: start and end
  of a PAM handle, the account check, credentials and session, password authentication, and the
  keyboard-interactive device whose prompts come from a PAM process.
\<close>

section \<open>Account, credentials, session\<close>

definition do_pam_account :: "('w, 'b) pam_env \<Rightarrow> ('w, u32) sprog" where
  "do_pam_account E =
     andThen (gets sshpam_account_status) (\<lambda>st.
     if st \<noteq> -1 then ret (word_of_int st)
     else andThen (gets sshpam_handle) (\<lambda>h.
       andThen (err_pam E (pam_acct_mgmt E h)) (\<lambda>rc.
       if rc \<noteq> PAM_SUCCESS \<and> rc \<noteq> PAM_NEW_AUTHTOK_REQD then
         thenDo (modify (\<lambda>s. s\<lparr>sshpam_account_status := 0\<rparr>)) (ret 0)
       else
         thenDo (when_p (rc = PAM_NEW_AUTHTOK_REQD) (sshpam_password_change_required 1))
         (thenDo (modify (\<lambda>s. s\<lparr>sshpam_account_status := 1\<rparr>)) (ret 1)))))"

definition do_pam_set_tty :: "('w, 'b) pam_env \<Rightarrow> string option \<Rightarrow> ('w, unit) sprog" where
  "do_pam_set_tty E tty = (case tty of None \<Rightarrow> ret ()
     | Some t \<Rightarrow>
         andThen (gets sshpam_handle) (\<lambda>h.
         andThen (err_ext (pam_set_item E h (PAM_TTY t))) (\<lambda>rc.
         when_p (rc \<noteq> PAM_SUCCESS)
           (stop (Fatal (''PAM: failed to set PAM_TTY: '' @ pam_strerror E h rc))))))"

definition set_conv :: "('w, 'b) pam_env \<Rightarrow> conv_fn \<Rightarrow> ('w, unit) sprog" where
  "set_conv E c =
     andThen (gets sshpam_handle) (\<lambda>h.
     andThen (err_ext (pam_set_item E h (PAM_CONV c))) (\<lambda>rc.
     when_p (rc \<noteq> PAM_SUCCESS)
       (stop (Fatal (''PAM: failed to set PAM_CONV: '' @ pam_strerror E h rc)))))"

definition do_pam_setcred :: "('w, 'b) pam_env \<Rightarrow> bool \<Rightarrow> ('w, unit) sprog" where
  "do_pam_setcred E init =
     thenDo (set_conv E store_conv)
     (andThen (gets sshpam_handle) (\<lambda>h.
      andThen (err_pam E (pam_setcred E h
                 (if init then PAM_ESTABLISH_CRED else PAM_REINITIALIZE_CRED))) (\<lambda>rc.
      if rc = PAM_SUCCESS then modify (\<lambda>s. s\<lparr>sshpam_cred_established := True\<rparr>)
      else andThen (gets sshpam_authenticated) (\<lambda>auth.
        if auth then stop (Fatal (''PAM: pam_setcred(): '' @ pam_strerror E h rc))
        else ret ()))))"

definition do_pam_chauthtok :: "('w, 'b) pam_env \<Rightarrow> ('w, unit) sprog" where
  "do_pam_chauthtok E =
     (if use_privsep E then
        stop (Fatal ''Password expired (unable to change with privsep)'')
      else
        thenDo (set_conv E tty_conv)
        (andThen (gets sshpam_handle) (\<lambda>h.
         andThen (err_pam E (pam_chauthtok E h)) (\<lambda>rc.
         when_p (rc \<noteq> PAM_SUCCESS)
           (stop (Fatal (''PAM: pam_chauthtok(): '' @ pam_strerror E h rc)))))))"

definition do_pam_session :: "('w, 'b) pam_env \<Rightarrow> ('w, unit) sprog" where
  "do_pam_session E =
     thenDo (set_conv E store_conv)
     (andThen (gets sshpam_handle) (\<lambda>h.
      andThen (err_pam E (pam_open_session E h)) (\<lambda>rc.
      if rc = PAM_SUCCESS then modify (\<lambda>s. s\<lparr>sshpam_session_open := True\<rparr>)
      else
        thenDo (modify (\<lambda>s. s\<lparr>sshpam_session_open := False\<rparr>))
        (modify (\<lambda>s.
           case disable_forwarding E
             (no_port_forwarding_flag s, no_agent_forwarding_flag s, no_x11_forwarding_flag s) of
             (p, a, x) \<Rightarrow>
               s\<lparr>no_port_forwarding_flag := p, no_agent_forwarding_flag := a,
                 no_x11_forwarding_flag := x\<rparr>)))))"

definition is_pam_session_open :: "('w, bool) sprog" where
  "is_pam_session_open = gets sshpam_session_open"

definition do_pam_putenv :: "('w, 'b) pam_env \<Rightarrow> string \<Rightarrow> string \<Rightarrow> ('w, pam_rc) sprog" where
  "do_pam_putenv E nm val =
     andThen (gets sshpam_handle) (\<lambda>h. ext (pam_putenv E h (nm @ ''='' @ val)))"

definition fetch_pam_child_environment :: "('w, string list option) sprog" where
  "fetch_pam_child_environment = gets sshpam_env"

definition fetch_pam_environment :: "('w, 'b) pam_env \<Rightarrow> ('w, string list option) sprog" where
  "fetch_pam_environment E = andThen (gets sshpam_handle) (\<lambda>h. ext (pam_getenvlist E h))"

section \<open>Start and end of the PAM handle\<close>

definition sshpam_cleanup :: "('w, 'b) pam_env \<Rightarrow> ('w, unit) sprog" where
  "sshpam_cleanup E =
     andThen (gets sshpam_handle) (\<lambda>h.
     if h = None then ret ()
     else andThen (if use_privsep E then ext (mm_is_monitor E) else ret True) (\<lambda>mine.
       if \<not> mine then ret ()
       else
         thenDo (ext (pam_set_item E h (PAM_CONV null_conv)))
         (andThen (gets sshpam_session_open) (\<lambda>open.
          thenDo (when_p open
            (thenDo (call_pam E (pam_close_session E h))
              (modify (\<lambda>s. s\<lparr>sshpam_session_open := False\<rparr>))))
          (andThen (gets sshpam_cred_established) (\<lambda>cred.
           thenDo (when_p cred
             (thenDo (call_pam E (pam_setcred E h PAM_DELETE_CRED))
               (modify (\<lambda>s. s\<lparr>sshpam_cred_established := False\<rparr>))))
           (thenDo (modify (\<lambda>s. s\<lparr>sshpam_authenticated := False\<rparr>))
           (andThen (gets sshpam_err) (\<lambda>err.
            thenDo (ext (pam_end E h err))
              (modify (\<lambda>s. s\<lparr>sshpam_handle := None\<rparr>)))))))))))"

text \<open>\<open>pam_end\<close> on the current handle, which is then forgotten.\<close>

definition drop_handle :: "('w, 'b) pam_env \<Rightarrow> ('w, unit) sprog" where
  "drop_handle E =
     andThen (gets sshpam_handle) (\<lambda>h.
     andThen (gets sshpam_err) (\<lambda>err.
     thenDo (ext (pam_end E h err)) (modify (\<lambda>s. s\<lparr>sshpam_handle := None\<rparr>))))"

definition set_item_or_drop ::
  "('w, 'b) pam_env \<Rightarrow> pam_item \<Rightarrow> ('w, int) sprog \<Rightarrow> ('w, int) sprog" where
  "set_item_or_drop E item next =
     andThen (gets sshpam_handle) (\<lambda>h.
     andThen (err_ext (pam_set_item E h item)) (\<lambda>rc.
     if rc \<noteq> PAM_SUCCESS then thenDo (drop_handle E) (ret (-1)) else next))"

definition sshpam_init_fresh :: "('w, 'b) pam_env \<Rightarrow> string \<Rightarrow> ('w, int) sprog" where
  "sshpam_init_fresh E u =
     andThen (ext (pam_start E (SSHD_PAM_SERVICE E) u store_conv)) (\<lambda>(rc, h).
     thenDo (modify (\<lambda>s. s\<lparr>sshpam_err := rc, sshpam_handle := h, sshpam_authctxt := True\<rparr>))
     (if rc \<noteq> PAM_SUCCESS then thenDo (drop_handle E) (ret (-1))
      else andThen (ext (get_remote_name_or_ip E (use_dns (options E)))) (\<lambda>rhost.
        set_item_or_drop E (PAM_RHOST rhost)
          (if PAM_TTY_KLUDGE (build_flags E) then set_item_or_drop E (PAM_TTY ''ssh'') (ret 0)
           else ret 0))))"

definition sshpam_init :: "('w, 'b) pam_env \<Rightarrow> ('w, int) sprog" where
  "sshpam_init E =
     andThen (gets (\<lambda>s. user (authctxt s))) (\<lambda>u.
     andThen (gets sshpam_handle) (\<lambda>h.
     if h \<noteq> None then
       andThen (ext (pam_get_user E h)) (\<lambda>(rc, pam_user).
       thenDo (set_err rc)
       (if rc = PAM_SUCCESS \<and> u = pam_user then ret 0
        else thenDo (drop_handle E) (sshpam_init_fresh E u)))
     else sshpam_init_fresh E u))"

definition start_pam :: "('w, 'b) pam_env \<Rightarrow> ('w, unit) sprog" where
  "start_pam E =
     (if \<not> use_pam (options E) then
        stop (Fatal ''PAM: initialisation requested when UsePAM=no'')
      else andThen (sshpam_init E) (\<lambda>r.
        when_p (r = -1) (stop (Fatal ''PAM: initialisation failed''))))"

definition finish_pam :: "('w, 'b) pam_env \<Rightarrow> ('w, unit) sprog" where
  "finish_pam E = sshpam_cleanup E"

section \<open>Password authentication\<close>

text \<open>\<open>True\<close> when \<open>PAM_DISALLOW_NULL_AUTHTOK\<close> is among the flags.\<close>

definition auth_flags :: "('w, 'b) pam_env \<Rightarrow> bool" where
  "auth_flags E = (\<not> permit_empty_passwd (options E))"

definition sshpam_auth_passwd :: "('w, 'b) pam_env \<Rightarrow> string \<Rightarrow> ('w, int) sprog" where
  "sshpam_auth_passwd E password =
     andThen (gets sshpam_handle) (\<lambda>h.
     if \<not> use_pam (options E) \<or> h = None then
       stop (Fatal ''PAM: sshpam_auth_passwd called when PAM disabled or failed to initialise.'')
     else
       thenDo (modify (\<lambda>s. s\<lparr>sshpam_password := Some password, sshpam_authctxt := True\<rparr>))
       (thenDo (set_conv E passwd_conv)
       (andThen (err_pam E (pam_authenticate E h (auth_flags E))) (\<lambda>rc.
        thenDo (modify (\<lambda>s. s\<lparr>sshpam_password := None\<rparr>))
          (ret (if rc = PAM_SUCCESS then 1 else 0))))))"

section \<open>The PAM process\<close>

definition thread_send :: "('w, 'b) pam_env \<Rightarrow> int \<Rightarrow> wire \<Rightarrow> 'b \<Rightarrow> ('w, unit) sprog" where
  "thread_send E csock ty b = thenDo (ext (ssh_msg_send E csock ty b)) pthread_exit"

text \<open>
  The label \<open>auth_fail\<close>. One jump to it comes before \<open>buffer_init\<close>: there the buffer is \<open>None\<close>, and
  writing to it has no meaning in C.
\<close>

definition thread_auth_fail ::
  "('w, 'b) pam_env \<Rightarrow> int \<Rightarrow> 'b option \<Rightarrow> ('w, unit) sprog" where
  "thread_auth_fail E csock buffer = (case buffer of
       None \<Rightarrow> stop (Undefined ''buffer used before buffer_init'')
     | Some b \<Rightarrow>
         andThen (gets sshpam_handle) (\<lambda>h.
         andThen (gets sshpam_err) (\<lambda>err.
         thread_send E csock
           (if err = PAM_ACCT_EXPIRED then WRc PAM_ACCT_EXPIRED else WRc PAM_AUTH_ERR)
           (buffer_put_cstring E (pam_strerror E h err) b))))"

definition put_strings :: "('w, 'b) pam_env \<Rightarrow> string list \<Rightarrow> 'b \<Rightarrow> 'b" where
  "put_strings E xs b =
     fold (buffer_put_cstring E) xs (buffer_put_int E (word_of_nat (length xs)) b)"

text \<open>The success message: \<open>OK\<close>, the account state, the process environment, PAM's environment.\<close>

definition export_buffer ::
  "('w, 'b) pam_env \<Rightarrow> int \<Rightarrow> u32 \<Rightarrow> string list \<Rightarrow> string list \<Rightarrow> 'b" where
  "export_buffer E status reqd env pamenv =
     put_strings E pamenv (put_strings E env
       (buffer_put_int E reqd (buffer_put_int E (word_of_int status)
         (buffer_put_cstring E ''OK'' (buffer_empty E)))))"

definition thread_success :: "('w, 'b) pam_env \<Rightarrow> int \<Rightarrow> ('w, unit) sprog" where
  "thread_success E csock =
     andThen (gets sshpam_handle) (\<lambda>h.
     andThen (ext (pam_getenvlist E h)) (\<lambda>pamenv.
     andThen (gets (\<lambda>s. export_buffer E (sshpam_account_status s) (force_pwchange (authctxt s))
                (environ s) (case pamenv of None \<Rightarrow> [] | Some xs \<Rightarrow> xs))) (\<lambda>b.
     andThen (gets sshpam_err) (\<lambda>err. thread_send E csock (WRc err) b))))"

text \<open>The account check and password change of protocol 2; \<open>False\<close> stands for \<open>goto auth_fail\<close>.\<close>

definition thread_account :: "('w, 'b) pam_env \<Rightarrow> nat option \<Rightarrow> ('w, bool) sprog" where
  "thread_account E h =
     (if \<not> compat20 E then ret True
      else andThen (do_pam_account E) (\<lambda>ok.
        if ok = 0 then thenDo (set_err PAM_ACCT_EXPIRED) (ret False)
        else andThen (gets (\<lambda>s. force_pwchange (authctxt s))) (\<lambda>change.
          if change = 0 then ret True
          else andThen (err_pam E (pam_chauthtok E h)) (\<lambda>rc.
            if rc \<noteq> PAM_SUCCESS then ret False
            else thenDo (sshpam_password_change_required 0) (ret True)))))"

text \<open>\<open>getenv\<close> on the process environment.\<close>

definition getenv_of :: "string \<Rightarrow> string list \<Rightarrow> string option" where
  "getenv_of nm env =
     map_option (drop (length nm + 1)) (find (\<lambda>x. take (length nm + 1) x = nm @ ''='') env)"

definition sshpam_thread :: "('w, 'b) pam_env \<Rightarrow> nat \<Rightarrow> ('w, unit) sprog" where
  "sshpam_thread E a =
     andThen (the_ctx a) (\<lambda>ctx.
     andThen (gets (\<lambda>s. getenv_of ''TZ'' (environ s))) (\<lambda>tz.
     andThen (gets sshpam_handle) (\<lambda>h.
     andThen (ext (pam_get_user E h)) (\<lambda>(rc, pam_user).
     thenDo (set_err rc)
     (if rc \<noteq> PAM_SUCCESS then thread_auth_fail E (pam_csock ctx) None
      else
        thenDo (modify (\<lambda>s. s\<lparr>environ := []\<rparr>))
        (thenDo (case tz of None \<Rightarrow> ret ()
           | Some v \<Rightarrow> andThen (ext (setenv_ok E)) (\<lambda>ok.
               when_p ok (modify (\<lambda>s. s\<lparr>environ := [''TZ='' @ v]\<rparr>))))
        (andThen (gets sshpam_authctxt) (\<lambda>ac.
         if \<not> ac then stop (Fatal ''sshpam_thread: PAM authctxt not initialized'')
         else
           thenDo (emit [setproctitle (pam_user @ '' [pam]'')])
           (andThen (err_ext (pam_set_item E h (PAM_CONV (thread_conv (Some a))))) (\<lambda>rc.
            if rc \<noteq> PAM_SUCCESS then
              thread_auth_fail E (pam_csock ctx) (Some (buffer_empty E))
            else andThen (err_pam E (pam_authenticate E h (auth_flags E))) (\<lambda>rc.
              if rc \<noteq> PAM_SUCCESS then
                thread_auth_fail E (pam_csock ctx) (Some (buffer_empty E))
              else andThen (thread_account E h) (\<lambda>ok.
                if \<not> ok then thread_auth_fail E (pam_csock ctx) (Some (buffer_empty E))
                else thread_success E (pam_csock ctx)))))))))))))"

definition sshpam_thread_cleanup :: "('w, 'b) pam_env \<Rightarrow> ('w, unit) sprog" where
  "sshpam_thread_cleanup E =
     andThen (gets cleanup_ctxt) (\<lambda>p. case p of None \<Rightarrow> ret ()
     | Some a \<Rightarrow>
         andThen (the_ctx a) (\<lambda>ctx.
         if pam_thread ctx = 0 then ret ()
         else
           thenDo (pthread_cancel E (pam_thread ctx))
           (thenDo (pthread_join E (pam_thread ctx))
           (thenDo (ext (close_fd E (pam_psock ctx)))
           (thenDo (ext (close_fd E (pam_csock ctx)))
           (thenDo (upd_ctx a
              (\<lambda>_. \<lparr>pam_thread = 0, pam_psock = 0, pam_csock = 0, pam_done = 0\<rparr>))
              (modify (\<lambda>s. s\<lparr>cleanup_ctxt := None\<rparr>))))))))"

section \<open>The keyboard-interactive device\<close>

definition alloc_ctx :: "('w, nat) sprog" where
  "alloc_ctx = (\<lambda>s. (Inr (ctx_next s),
     s\<lparr>ctx_mem := (ctx_mem s)(ctx_next s \<mapsto>
         \<lparr>pam_thread = 0, pam_psock = 0, pam_csock = 0, pam_done = 0\<rparr>),
       ctx_next := Suc (ctx_next s)\<rparr>))"

definition free_ctx :: "nat \<Rightarrow> ('w, unit) sprog" where
  "free_ctx a = modify (\<lambda>s. s\<lparr>ctx_mem := (ctx_mem s)(a := None)\<rparr>)"

definition sshpam_init_ctx :: "('w, 'b) pam_env \<Rightarrow> ('w, nat option) sprog" where
  "sshpam_init_ctx E =
     andThen (gets sshpam_account_status) (\<lambda>st.
     if \<not> use_pam (options E) \<or> st = 0 then ret None
     else andThen (sshpam_init E) (\<lambda>r.
       if r = -1 then ret None
       else andThen alloc_ctx (\<lambda>a.
         andThen (ext (socketpair E)) (\<lambda>socks. case socks of
           None \<Rightarrow> thenDo (free_ctx a) (ret None)
         | Some (s0, s1) \<Rightarrow>
             thenDo (upd_ctx a (\<lambda>c. c\<lparr>pam_psock := s0, pam_csock := s1\<rparr>))
             (andThen (pthread_create E (sshpam_thread E a) a) (\<lambda>pc.
              if pc = -1 then
                thenDo (ext (close_fd E s0))
                (thenDo (ext (close_fd E s1))
                (thenDo (free_ctx a) (ret None)))
              else
                thenDo (modify (\<lambda>s. s\<lparr>cleanup_ctxt := Some a\<rparr>)) (ret (Some a))))))))"

text \<open>
  The results \<open>sshpam_query\<close> writes through its pointers; \<open>None\<close> where it returns without writing.
\<close>

record query_result =
  q_info :: string
  q_num :: "u32 option"
  q_prompts :: "string option"
  q_echo_on :: "bool option"

definition query_init :: query_result where
  "query_init = \<lparr>q_info = [], q_num = None, q_prompts = None, q_echo_on = None\<rparr>"

text \<open>\<open>**prompts\<close> extended at \<open>plen\<close>; the block was just grown to \<open>len\<close> bytes.\<close>

definition prompt_append :: "nat \<Rightarrow> string \<Rightarrow> string option \<Rightarrow> string" where
  "prompt_append plen m prompts =
     (let len = plen + length (cstr m) + 1
      in strlcpy_at plen m (len - plen) (case prompts of None \<Rightarrow> [] | Some p \<Rightarrow> p))"

definition info_append :: "nat \<Rightarrow> string \<Rightarrow> string option \<Rightarrow> string" where
  "info_append plen m prompts =
     (let mlen = length (cstr m); len = plen + mlen + 2;
          p = strlcpy_at plen m (len - plen) (case prompts of None \<Rightarrow> [] | Some p \<Rightarrow> p)
      in strlcat_at (plen + mlen) newline (len - (plen + mlen)) p)"

text \<open>What the \<open>PAM_SUCCESS\<close> case does after the accumulated messages went to \<open>loginmsg\<close>.\<close>

definition query_success ::
  "('w, 'b) pam_env \<Rightarrow> nat \<Rightarrow> 'b \<Rightarrow> ('w, int \<times> query_result) sprog" where
  "query_success E a b =
     andThen (gets (\<lambda>s. (sshpam_authctxt s, pw (authctxt s)))) (\<lambda>(ac, p).
     case (if ac then p else None) of
       None \<Rightarrow> stop (Undefined ''sshpam_authctxt->pw is NULL'')
     | Some pwd \<Rightarrow>
       if pw_uid pwd = 0 \<and> permit_root_login (options E) \<noteq> PERMIT_YES then
         stop (Fatal ''Internal error: PAM auth succeeded when it should have failed'')
       else
         thenDo (import_environments E b)
         (thenDo (upd_ctx a (\<lambda>c. c\<lparr>pam_done := 1\<rparr>))
           (ret (0, query_init\<lparr>q_num := Some 0, q_echo_on := Some False\<rparr>))))"

definition query_failed :: "nat \<Rightarrow> string option \<Rightarrow> ('w, int \<times> query_result) sprog" where
  "query_failed a prompts =
     thenDo (upd_ctx a (\<lambda>c. c\<lparr>pam_done := -1\<rparr>))
       (ret (-1, query_init\<lparr>q_num := Some 0, q_prompts := prompts, q_echo_on := Some False\<rparr>))"

definition drain_prompts :: "string option \<Rightarrow> ('w, unit) sprog" where
  "drain_prompts prompts = (case prompts of None \<Rightarrow> ret () | Some p \<Rightarrow> append_loginmsg p)"

definition query_auth_err ::
  "('w, 'b) pam_env \<Rightarrow> nat \<Rightarrow> string option \<Rightarrow> ('w, int \<times> query_result) sprog" where
  "query_auth_err E a prompts = (case prompts of
       Some (c # p) \<Rightarrow>
         thenDo (upd_ctx a (\<lambda>c. c\<lparr>pam_done := -1\<rparr>))
           (ret (0, query_init\<lparr>q_info := c # p, q_num := Some 0, q_echo_on := Some False\<rparr>))
     | _ \<Rightarrow>
         thenDo (drain_prompts prompts)
         (thenDo (ext (get_remote_name_or_ip E (use_dns (options E))))
           (query_failed a None)))"

text \<open>
  The loop over messages from the PAM process. Only informational messages continue it; the
  first argument bounds their number.
\<close>

primrec query_loop ::
  "nat \<Rightarrow> ('w, 'b) pam_env \<Rightarrow> nat \<Rightarrow> nat \<Rightarrow> string option \<Rightarrow> ('w, int \<times> query_result) sprog" where
  "query_loop 0 E a plen prompts = stop NoFuel"
| "query_loop (Suc fuel) E a plen prompts =
     andThen (the_ctx a) (\<lambda>ctx.
     andThen (ext (ssh_msg_recv E (pam_psock ctx))) (\<lambda>got. case got of
       None \<Rightarrow> ret (-1, query_init\<lparr>q_prompts := prompts\<rparr>)
     | Some b \<Rightarrow>
       andThen (from_buffer (buffer_get_char E b)) (\<lambda>(ty, b1).
       andThen (from_buffer (buffer_get_string E b1)) (\<lambda>(m, b2).
       if ty = WStyle PAM_PROMPT_ECHO_ON \<or> ty = WStyle PAM_PROMPT_ECHO_OFF then
         ret (0, query_init\<lparr>q_num := Some 1, q_prompts := Some (prompt_append plen m prompts),
                q_echo_on := Some (ty = WStyle PAM_PROMPT_ECHO_ON)\<rparr>)
       else if ty = WStyle PAM_ERROR_MSG \<or> ty = WStyle PAM_TEXT_INFO then
         query_loop fuel E a (plen + length (cstr m) + 1) (Some (info_append plen m prompts))
       else if ty = WRc PAM_ACCT_EXPIRED then
         thenDo (modify (\<lambda>s. s\<lparr>sshpam_account_status := 0\<rparr>)) (query_auth_err E a prompts)
       else if ty = WRc PAM_AUTH_ERR then query_auth_err E a prompts
       else if ty = WRc PAM_SUCCESS then
         thenDo (drain_prompts prompts) (query_success E a b2)
       else query_failed a prompts))))"

definition sshpam_query ::
  "nat \<Rightarrow> ('w, 'b) pam_env \<Rightarrow> nat \<Rightarrow> ('w, int \<times> query_result) sprog" where
  "sshpam_query fuel E a = query_loop fuel E a 0 None"

definition sshpam_respond ::
  "('w, 'b) pam_env \<Rightarrow> nat \<Rightarrow> string list \<Rightarrow> ('w, int) sprog" where
  "sshpam_respond E a rs =
     andThen (the_ctx a) (\<lambda>ctx.
     if pam_done ctx = 1 then
       thenDo (modify (\<lambda>s. s\<lparr>sshpam_authenticated := True\<rparr>)) (ret 0)
     else if pam_done ctx \<noteq> 0 then ret (-1)
     else (case rs of
         [r] \<Rightarrow>
           andThen (ext (ssh_msg_send E (pam_psock ctx) PAM_AUTHTOK
                      (buffer_put_cstring E r (buffer_empty E)))) (\<lambda>sent.
           ret (if sent then 1 else -1))
       | _ \<Rightarrow> ret (-1)))"

definition sshpam_free_ctx :: "('w, 'b) pam_env \<Rightarrow> nat \<Rightarrow> ('w, unit) sprog" where
  "sshpam_free_ctx E a = thenDo (sshpam_thread_cleanup E) (free_ctx a)"

text \<open>\<open>KbdintDevice\<close> and the device this file provides.\<close>

record 'w KbdintDevice =
  kbd_name :: string
  kbd_init_ctx :: "('w, nat option) sprog"
  kbd_query :: "nat \<Rightarrow> ('w, int \<times> query_result) sprog"
  kbd_respond :: "nat \<Rightarrow> string list \<Rightarrow> ('w, int) sprog"
  kbd_free_ctx :: "nat \<Rightarrow> ('w, unit) sprog"

definition sshpam_device :: "nat \<Rightarrow> ('w, 'b) pam_env \<Rightarrow> 'w KbdintDevice" where
  "sshpam_device fuel E =
     \<lparr>kbd_name = ''pam'', kbd_init_ctx = sshpam_init_ctx E, kbd_query = sshpam_query fuel E,
      kbd_respond = sshpam_respond E, kbd_free_ctx = sshpam_free_ctx E\<rparr>"

end
