(* ===== verification/SshPamFrame.thy ===== *)
theory SshPamFrame
  imports SshPamOps "HOL-Library.Sublist"
begin

text \<open>
  What a PAM library call may change in the server: the conversation functions touch only the
  login message, the output and the world, and answer every message they accept. Both facts are
  the interface \<open>conversation\<close>, which all five conversation functions interpret; \<open>run_pam\<close> inherits
  the frame.
\<close>

section \<open>The frame of a conversation\<close>


definition conv_same :: "'w sshd \<Rightarrow> 'w sshd \<Rightarrow> bool" where
  "conv_same s t \<longleftrightarrow>
     t = s\<lparr>loginmsg := loginmsg t, out := out t, world := world t\<rparr> \<and>
     prefix (loginmsg s) (loginmsg t) \<and> (\<exists>es. out t = out s @ map stderr_line es)"

lemma conv_same_refl [simp]: "conv_same s s"
  by (simp add: conv_same_def)

lemma conv_same_trans: "conv_same s t \<Longrightarrow> conv_same t u \<Longrightarrow> conv_same s u"
  by (cases s; cases t; cases u;
      auto simp: conv_same_def intro: prefix_order.trans exI [of _ "_ @ _"])

lemma conv_same_world [simp]: "conv_same s (s\<lparr>world := w\<rparr>)"
  by (simp add: conv_same_def)

lemma conv_same_loginmsg [simp]: "conv_same s (s\<lparr>loginmsg := loginmsg s @ x\<rparr>)"
  by (simp add: conv_same_def)

lemma conv_same_out [simp]: "conv_same s (s\<lparr>out := out s @ [stderr_line x]\<rparr>)"
  by (auto simp: conv_same_def intro: exI [of _ "[x]"])

lemma conv_sameE:
  assumes "conv_same s t"
  obtains x es w where
    "t = s\<lparr>loginmsg := loginmsg s @ x, out := out s @ map stderr_line es, world := w\<rparr>"
proof -
  from assms obtain x es where x: "loginmsg t = loginmsg s @ x"
    and es: "out t = out s @ map stderr_line es"
    and t: "t = s\<lparr>loginmsg := loginmsg t, out := out t, world := world t\<rparr>"
    by (auto simp: conv_same_def prefix_def)
  from t x es have "t = s\<lparr>loginmsg := loginmsg s @ x, out := out s @ map stderr_line es,
      world := world t\<rparr>" by simp
  then show ?thesis by (rule that)
qed

lemma conv_same_fields:
  assumes "conv_same s t"
  shows "authctxt t = authctxt s" and "sshpam_handle t = sshpam_handle s"
    and "sshpam_err t = sshpam_err s" and "sshpam_account_status t = sshpam_account_status s"
    and "sshpam_authctxt t = sshpam_authctxt s" and "sshpam_password t = sshpam_password s"
    and "ctx_mem t = ctx_mem s" and "sshpam_session_open t = sshpam_session_open s"
    and "sshpam_cred_established t = sshpam_cred_established s"
    and "sshpam_authenticated t = sshpam_authenticated s"
  using assms by (auto elim!: conv_sameE)

text \<open>A program that changes nothing but those three fields.\<close>

definition only_conv :: "('w, 'a) sprog \<Rightarrow> bool" where
  "only_conv m \<longleftrightarrow> (\<forall>s. conv_same s (snd (m s)))"

named_theorems only_conv_rules

lemma only_convD: "only_conv m \<Longrightarrow> m s = (r, t) \<Longrightarrow> conv_same s t"
  by (metis only_conv_def snd_conv)

lemma only_conv_ret [only_conv_rules]: "only_conv (ret a)"
  by (simp add: only_conv_def prog_simps)

lemma only_conv_stop [only_conv_rules]: "only_conv (stop a)"
  by (simp add: only_conv_def prog_simps)

lemma only_conv_gets [only_conv_rules]: "only_conv (gets f)"
  by (simp add: only_conv_def prog_simps)

lemma only_conv_ext [only_conv_rules]: "only_conv (ext f)"
  by (simp add: only_conv_def prog_simps)

lemma only_conv_emit [only_conv_rules]: "only_conv (emit [stderr_line x])"
  by (simp add: only_conv_def prog_simps)

lemma only_conv_append [only_conv_rules]: "only_conv (append_loginmsg x)"
  by (simp add: only_conv_def append_loginmsg_def prog_simps)

lemma only_conv_andThen [only_conv_rules]:
  assumes "only_conv m" and "\<And>a. only_conv (f a)"
  shows "only_conv (andThen m f)"
  unfolding only_conv_def
proof
  fix s
  obtain r t where r: "m s = (r, t)" by fastforce
  from only_convD [OF assms(1) r] have "conv_same s t" .
  moreover have "conv_same t (snd (f a t))" for a
    using assms(2) by (simp add: only_conv_def)
  ultimately show "conv_same s (snd (andThen m f s))"
    by (auto simp: andThen_run r split: sum.splits intro: conv_same_trans)
qed

lemma only_conv_thenDo [only_conv_rules]: "only_conv m \<Longrightarrow> only_conv n \<Longrightarrow> only_conv (thenDo m n)"
  by (simp add: thenDo_def only_conv_andThen)

lemma only_conv_when [only_conv_rules]: "only_conv m \<Longrightarrow> only_conv (when_p b m)"
  by (simp add: when_p_def only_conv_ret)

lemma only_conv_if [only_conv_rules]:
  "only_conv m \<Longrightarrow> only_conv n \<Longrightarrow> only_conv (if b then m else n)"
  by simp

lemma only_conv_option [only_conv_rules]:
  "only_conv m \<Longrightarrow> (\<And>a. only_conv (f a)) \<Longrightarrow>
   only_conv (case x of None \<Rightarrow> m | Some a \<Rightarrow> f a)"
  by (cases x) simp_all

lemma only_conv_prod [only_conv_rules]:
  "(\<And>a b. only_conv (f a b)) \<Longrightarrow> only_conv (case x of (a, b) \<Rightarrow> f a b)"
  by (cases x) simp

lemma only_conv_style [only_conv_rules]:
  "only_conv m1 \<Longrightarrow> only_conv m2 \<Longrightarrow> only_conv m3 \<Longrightarrow> only_conv m4 \<Longrightarrow> (\<And>i. only_conv (m5 i)) \<Longrightarrow>
   only_conv (case st of PAM_PROMPT_ECHO_OFF \<Rightarrow> m1 | PAM_PROMPT_ECHO_ON \<Rightarrow> m2
     | PAM_ERROR_MSG \<Rightarrow> m3 | PAM_TEXT_INFO \<Rightarrow> m4 | PAM_style_other i \<Rightarrow> m5 i)"
  by (cases st) simp_all

lemma only_conv_from_buffer [only_conv_rules]: "only_conv (from_buffer r)"
  by (cases r) (simp_all add: from_buffer_def only_conv_rules)

lemma only_conv_the_ctx [only_conv_rules]: "only_conv (the_ctx a)"
  unfolding the_ctx_def by (intro only_conv_rules)

lemma only_conv_loop [only_conv_rules]: "(\<And>m. only_conv (f m)) \<Longrightarrow> only_conv (conv_loop f ms)"
  by (induction ms) (auto intro!: only_conv_rules)

lemma only_conv_frame [only_conv_rules]:
  "only_conv extra \<Longrightarrow> (\<And>m. only_conv (f m)) \<Longrightarrow> only_conv (conv_frame E extra f ms)"
  unfolding conv_frame_def by (intro only_conv_rules)

lemma only_conv_store [only_conv_rules]: "only_conv (store_msg m)"
  unfolding store_msg_def by (intro only_conv_rules)

lemma only_conv_strdup [only_conv_rules]: "only_conv (strdup_reply E x)"
  unfolding strdup_reply_def by (intro only_conv_rules)

lemma only_conv_passwd [only_conv_rules]: "only_conv (passwd_msg E m)"
  unfolding passwd_msg_def passwd_info_def by (intro only_conv_rules)

lemma only_conv_tty [only_conv_rules]: "only_conv (tty_msg E m)"
  unfolding tty_msg_def by (intro only_conv_rules)

lemma only_conv_thread [only_conv_rules]: "only_conv (thread_msg E fd m)"
  unfolding thread_msg_def thread_prompt_def thread_info_def by (intro only_conv_rules)

lemma conv_loop_length:
  "conv_loop f ms s = (Inr (Some rs), t) \<Longrightarrow> length rs = length ms"
  by (induction ms arbitrary: s rs t)
     (auto simp: prog_simps split: prod.splits sum.splits option.splits)

lemma conv_frame_empty: "conv_frame E extra f [] s = (Inr None, s)"
  by (simp add: conv_frame_def prog_simps)

lemma conv_frame_length:
  "conv_frame E extra f ms s = (Inr (Some rs), t) \<Longrightarrow>
   length rs = length ms \<and> ms \<noteq> [] \<and> length ms \<le> PAM_MAX_NUM_MSG E"
  by (auto simp: conv_frame_def prog_simps dest: conv_loop_length
        split: prod.splits sum.splits option.splits if_splits)


section \<open>The conversation interface\<close>

locale conversation =
  fixes conv :: "pam_message list \<Rightarrow> ('w, pam_response list option) sprog"
    and limit :: nat
  assumes one_reply_each:
      "conv ms s = (Inr (Some rs), t) \<Longrightarrow>
       length rs = length ms \<and> ms \<noteq> [] \<and> length ms \<le> limit"
    and frame: "only_conv (conv ms)"
begin

lemma no_reply_to_nothing: "conv [] s \<noteq> (Inr (Some rs), t)"
  using one_reply_each by blast

lemma no_reply_past_limit: "limit < length ms \<Longrightarrow> conv ms s \<noteq> (Inr (Some rs), t)"
  using one_reply_each by (metis not_le)

lemma keeps_server_state: "conv ms s = (r, t) \<Longrightarrow> conv_same s t"
  by (rule only_convD [OF frame])

end

interpretation store: conversation "sshpam_store_conv E" "PAM_MAX_NUM_MSG E" for E
  by unfold_locales
     (auto simp: sshpam_store_conv_def intro!: only_conv_rules dest: conv_frame_length)

interpretation passwd: conversation "sshpam_passwd_conv E" "PAM_MAX_NUM_MSG E" for E
  by unfold_locales
     (auto simp: sshpam_passwd_conv_def intro!: only_conv_rules dest: conv_frame_length)

interpretation tty: conversation "sshpam_tty_conv E" "PAM_MAX_NUM_MSG E" for E
  by unfold_locales
     (auto simp: sshpam_tty_conv_def intro!: only_conv_rules dest: conv_frame_length)

interpretation thread: conversation "sshpam_thread_conv E a" "PAM_MAX_NUM_MSG E" for E a
proof
  fix ms s rs t
  assume "sshpam_thread_conv E a ms s = (Inr (Some rs), t)"
  then obtain ctx :: pam_ctxt and u where
    "conv_frame E (ret True) (thread_msg E (pam_csock ctx)) ms u = (Inr (Some rs), t)"
    by (auto simp: sshpam_thread_conv_def andThen_Inr ret_run split: option.splits)
  then show "length rs = length ms \<and> ms \<noteq> [] \<and> length ms \<le> PAM_MAX_NUM_MSG E"
    by (rule conv_frame_length)
next
  fix ms show "only_conv (sshpam_thread_conv E a ms)"
    unfolding sshpam_thread_conv_def by (intro only_conv_rules)
qed

interpretation null: conversation sshpam_null_conv 0
  by unfold_locales (auto simp: sshpam_null_conv_def ret_run only_conv_ret)

text \<open>The dispatcher that \<open>run_pam\<close> uses is a conversation as well.\<close>

interpretation any: conversation "run_conv E c" "PAM_MAX_NUM_MSG E" for E c
proof
  fix ms s rs t
  assume "run_conv E c ms s = (Inr (Some rs), t)"
  then show "length rs = length ms \<and> ms \<noteq> [] \<and> length ms \<le> PAM_MAX_NUM_MSG E"
    by (cases c)
       (auto dest: store.one_reply_each tty.one_reply_each passwd.one_reply_each
          thread.one_reply_each null.one_reply_each)
next
  fix ms show "only_conv (run_conv E c ms)"
    by (cases c) (simp_all add: store.frame passwd.frame tty.frame thread.frame null.frame)
qed

section \<open>PAM library calls\<close>

lemma run_pam_same: "run_pam E p s = (r, t) \<Longrightarrow> conv_same s t"
proof (induction p arbitrary: s r t)
  case (PamDone rc w)
  then show ?case by (auto simp: prog_simps)
next
  case (PamConv c ms w k)
  obtain x u where x: "run_conv E c ms (s\<lparr>world := w\<rparr>) = (x, u)" by fastforce
  have 1: "conv_same s u"
    by (rule conv_same_trans [OF conv_same_world any.keeps_server_state [OF x]])
  show ?case
  proof (cases x)
    case (Inl e)
    with PamConv.prems x 1 show ?thesis by (simp add: prog_simps)
  next
    case (Inr y)
    with PamConv.prems x have "run_pam E (k y (world u)) u = (r, t)"
      by (simp add: prog_simps)
    with PamConv.IH have "conv_same u t" by blast
    with 1 show ?thesis by (rule conv_same_trans)
  qed
qed

lemma only_conv_call_pam [only_conv_rules]: "only_conv (call_pam E f)"
  unfolding only_conv_def call_pam_def
proof
  fix s
  show "conv_same s (snd (run_pam E (f (world s)) s))"
    by (rule run_pam_same) (rule prod.collapse [symmetric])
qed

text \<open>
  With the frame, a library call that returned is described by its code and three values: the
  rest of the server's state is what it was.
\<close>

lemma call_pamE:
  assumes "call_pam E f s = (r, t)"
  obtains x es w where
    "t = s\<lparr>loginmsg := loginmsg s @ x, out := out s @ map stderr_line es, world := w\<rparr>"
  using only_convD [OF only_conv_call_pam assms] by (rule conv_sameE) (rule that)

lemma err_pam_Inr:
  "err_pam E f s = (Inr rc, t) \<longleftrightarrow>
     (\<exists>u. call_pam E f s = (Inr rc, u) \<and> t = u\<lparr>sshpam_err := rc\<rparr>)"
  by (auto simp: err_pam_def set_err_def prog_simps split: prod.splits sum.splits)

lemma err_pamE:
  assumes "err_pam E f s = (Inr rc, t)"
  obtains x es w where
    "t = s\<lparr>loginmsg := loginmsg s @ x, out := out s @ map stderr_line es, world := w,
       sshpam_err := rc\<rparr>"
proof -
  from assms obtain u where "call_pam E f s = (Inr rc, u)" and t: "t = u\<lparr>sshpam_err := rc\<rparr>"
    by (auto simp: err_pam_Inr)
  then obtain x es w where
    "u = s\<lparr>loginmsg := loginmsg s @ x, out := out s @ map stderr_line es, world := w\<rparr>"
    by (elim call_pamE)
  with t that show ?thesis by simp
qed

lemma err_ext_run [prog_simps]:
  "err_ext f s =
     (Inr (fst (f (world s))), s\<lparr>sshpam_err := fst (f (world s)), world := snd (f (world s))\<rparr>)"
  by (simp add: err_ext_def set_err_def prog_simps)

lemma set_conv_run:
  "set_conv E c s =
     (let (rc, w) = pam_set_item E (sshpam_handle s) (PAM_CONV c) (world s);
          t = s\<lparr>sshpam_err := rc, world := w\<rparr>
      in if rc = PAM_SUCCESS then (Inr (), t)
         else (Inl (Fatal (''PAM: failed to set PAM_CONV: '' @ pam_strerror E (sshpam_handle s) rc)), t))"
  by (simp add: set_conv_def prog_simps Let_def split: prod.splits)

end
