(* ===== verification/SshAuth1.thy ===== *)
theory SshAuth1
  imports SshPamFrame
begin

text \<open>
  \<open>base/ssh/12/auth1.c\<close>: authentication of protocol 1. The packet layer, the password database and
  the other authentication methods are parameters (\<open>auth_env\<close>); the loop over the client's
  packets has a bound on its iterations.
\<close>

section \<open>Parameters\<close>

record ('w, 'b) auth_env =
  pam :: "('w, 'b) pam_env"
  \<comment> \<open>\<open>PRIVSEP (f ())\<close> calls \<open>mm_f\<close> in the unprivileged process\<close>
  mm_do_pam_account :: "string \<Rightarrow> 'w \<Rightarrow> (u32 \<times> string) \<times> 'w"
  mm_start_pam :: "'w \<Rightarrow> unit \<times> 'w"
  getpwnamallow :: "string \<Rightarrow> 'w \<Rightarrow> passwd option \<times> 'w"
  fakepw :: passwd
  getuid :: u32
  auth_root_allowed :: "string \<Rightarrow> bool"
  AUTH_FAIL_MSG :: "string \<Rightarrow> string"
  msg_number :: "msgtype \<Rightarrow> int"
  \<comment> \<open>authentication methods outside the repository; they get the whole state, since they reach
    the PAM module (\<open>auth_password\<close> calls \<open>sshpam_auth_passwd\<close>, \<open>get_challenge\<close> the device)\<close>
  auth_password :: "string \<Rightarrow> ('w, int) sprog"
  auth_rsa :: "nat \<Rightarrow> ('w, int) sprog"
  auth_rhosts_rsa :: "string \<Rightarrow> nat \<times> nat \<Rightarrow> ('w, int) sprog"
  get_challenge :: "('w, string option) sprog"
  verify_response :: "string \<Rightarrow> ('w, int) sprog"
  abandon_challenge_response :: "('w, unit) sprog"
  \<comment> \<open>the packet layer\<close>
  packet_read :: "'w \<Rightarrow> (exit_reason + msgtype) \<times> 'w"
  packet_read_expect :: "msgtype \<Rightarrow> 'w \<Rightarrow> (exit_reason + unit) \<times> 'w"
  packet_get_string :: "'w \<Rightarrow> (exit_reason + string) \<times> 'w"
  packet_get_cstring :: "'w \<Rightarrow> (exit_reason + string) \<times> 'w"
  packet_get_int :: "'w \<Rightarrow> (exit_reason + u32) \<times> 'w"
  packet_get_bignum :: "'w \<Rightarrow> (exit_reason + nat) \<times> 'w"
  packet_check_eom :: "'w \<Rightarrow> (exit_reason + unit) \<times> 'w"

abbreviation opts :: "('w, 'b) auth_env \<Rightarrow> ServerOptions" where
  "opts A \<equiv> options (pam A)"

definition privsep_pam_account :: "('w, 'b) auth_env \<Rightarrow> ('w, u32) sprog" where
  "privsep_pam_account A =
     (if use_privsep (pam A) then
        (\<lambda>s. case mm_do_pam_account A (loginmsg s) (world s) of
           ((r, l), w) \<Rightarrow> (Inr r, s\<lparr>loginmsg := l, world := w\<rparr>))
      else do_pam_account (pam A))"

definition privsep_start_pam :: "('w, 'b) auth_env \<Rightarrow> ('w, unit) sprog" where
  "privsep_start_pam A =
     (if use_privsep (pam A) then ext (mm_start_pam A) else start_pam (pam A))"

definition audit :: "('w, 'b) auth_env \<Rightarrow> audit \<Rightarrow> ('w, unit) sprog" where
  "audit A ev = when_p (SSH_AUDIT_EVENTS (build_flags (pam A))) (emit [audit_event ev])"

definition send_simple :: "msgtype \<Rightarrow> ('w, unit) sprog" where
  "send_simple ty = emit [packet_start ty, packet_send, packet_write_wait]"

section \<open>Methods\<close>

record ('w, 'b) AuthMethod1 =
  am_type :: msgtype
  am_name :: string
  am_enabled :: "ServerOptions \<Rightarrow> bool"
  am_method :: "('w, 'b) auth_env \<Rightarrow> string \<Rightarrow> ('w, int \<times> string) sprog"

text \<open>A method takes the text for the log and returns it with the result; -1 is "postponed".\<close>

definition auth1_process_password ::
  "('w, 'b) auth_env \<Rightarrow> string \<Rightarrow> ('w, int \<times> string) sprog" where
  "auth1_process_password A info =
     andThen (extx (packet_get_string A)) (\<lambda>password.
     thenDo (extx (packet_check_eom A))
     (andThen (auth_password A password) (\<lambda>r. ret (r, info))))"

definition auth1_process_rsa ::
  "('w, 'b) auth_env \<Rightarrow> string \<Rightarrow> ('w, int \<times> string) sprog" where
  "auth1_process_rsa A info =
     andThen (extx (packet_get_bignum A)) (\<lambda>n.
     thenDo (extx (packet_check_eom A))
     (andThen (auth_rsa A n) (\<lambda>r. ret (r, info))))"

definition auth1_process_rhosts_rsa ::
  "('w, 'b) auth_env \<Rightarrow> string \<Rightarrow> ('w, int \<times> string) sprog" where
  "auth1_process_rhosts_rsa A info =
     andThen (extx (packet_get_cstring A)) (\<lambda>cu.
     thenDo (modify (\<lambda>s. s\<lparr>client_user := Some cu\<rparr>))
     (andThen (extx (packet_get_int A)) (\<lambda>bits.
      andThen (extx (packet_get_bignum A)) (\<lambda>e.
      andThen (extx (packet_get_bignum A)) (\<lambda>n.
      thenDo (extx (packet_check_eom A))
      (andThen (auth_rhosts_rsa A cu (e, n)) (\<lambda>r.
       ret (r, '' ruser '' @ take 100 cu))))))))"

definition auth1_process_tis_challenge ::
  "('w, 'b) auth_env \<Rightarrow> string \<Rightarrow> ('w, int \<times> string) sprog" where
  "auth1_process_tis_challenge A info =
     andThen (get_challenge A) (\<lambda>c. case c of
       None \<Rightarrow> ret (0, info)
     | Some challenge \<Rightarrow>
         thenDo (emit [packet_start SSH_SMSG_AUTH_TIS_CHALLENGE, packet_put_cstring challenge,
                       packet_send, packet_write_wait])
           (ret (-1, info)))"

definition auth1_process_tis_response ::
  "('w, 'b) auth_env \<Rightarrow> string \<Rightarrow> ('w, int \<times> string) sprog" where
  "auth1_process_tis_response A info =
     andThen (extx (packet_get_string A)) (\<lambda>response.
     thenDo (extx (packet_check_eom A))
     (andThen (verify_response A response) (\<lambda>r. ret (r, info))))"

definition auth1_methods :: "('w, 'b) AuthMethod1 list" where
  "auth1_methods =
     [\<lparr>am_type = SSH_CMSG_AUTH_PASSWORD, am_name = ''password'',
        am_enabled = password_authentication, am_method = auth1_process_password\<rparr>,
      \<lparr>am_type = SSH_CMSG_AUTH_RSA, am_name = ''rsa'',
        am_enabled = rsa_authentication, am_method = auth1_process_rsa\<rparr>,
      \<lparr>am_type = SSH_CMSG_AUTH_RHOSTS_RSA, am_name = ''rhosts-rsa'',
        am_enabled = rhosts_rsa_authentication, am_method = auth1_process_rhosts_rsa\<rparr>,
      \<lparr>am_type = SSH_CMSG_AUTH_TIS, am_name = ''challenge-response'',
        am_enabled = challenge_response_authentication,
        am_method = auth1_process_tis_challenge\<rparr>,
      \<lparr>am_type = SSH_CMSG_AUTH_TIS_RESPONSE, am_name = ''challenge-response'',
        am_enabled = challenge_response_authentication,
        am_method = auth1_process_tis_response\<rparr>]"

definition lookup_authmethod1 :: "msgtype \<Rightarrow> ('w, 'b) AuthMethod1 option" where
  "lookup_authmethod1 ty = find (\<lambda>m. am_type m = ty) auth1_methods"

text \<open>\<open>%d\<close>.\<close>

fun digits_of :: "nat \<Rightarrow> string" where
  "digits_of n = (if n < 10 then [char_of (48 + n)]
     else digits_of (n div 10) @ [char_of (48 + n mod 10)])"

declare digits_of.simps [simp del]

definition decimal :: "int \<Rightarrow> string" where
  "decimal i = (if i < 0 then ''-'' @ digits_of (nat (- i)) else digits_of (nat i))"

definition get_authname :: "('w, 'b) auth_env \<Rightarrow> msgtype \<Rightarrow> string" where
  "get_authname A ty =
     (case (lookup_authmethod1 ty :: ('w, 'b) AuthMethod1 option) of
        Some a \<Rightarrow> am_name a
      | None \<Rightarrow> take 63 (''bad-auth-msg-'' @ decimal (msg_number A ty)))"

section \<open>The authentication loop\<close>

text \<open>
  The text sent when PAM refuses the account: the login message, its trailing newlines overwritten
  with NULs, one at a time from the end.
\<close>

primrec strip_loop :: "string \<Rightarrow> nat \<Rightarrow> string" where
  "strip_loop m 0 = m"
| "strip_loop m (Suc n) =
     (if m ! n = CHR 0x0A then strip_loop (m[n := CHR 0x00]) n else m)"

definition denied_message :: "string \<Rightarrow> string" where
  "denied_message l =
     (if length l > 0 then cstr (strip_loop (l @ [CHR 0x00]) (length l)) else ''Access denied.'')"

text \<open>Before the loop: a user without a password.\<close>

definition authloop_precheck :: "('w, 'b) auth_env \<Rightarrow> ('w, bool) sprog" where
  "authloop_precheck A =
     (if permit_empty_passwd (opts A) \<and> password_authentication (opts A) \<and>
         (KRB5 (build_flags (pam A)) \<longrightarrow>
            \<not> kerberos_authentication (opts A) \<or> kerberos_or_local_passwd (opts A)) then
        andThen (auth_password A []) (\<lambda>r.
        if r = 0 then ret False
        else if \<not> use_pam (opts A) then ret False
        else andThen (privsep_pam_account A) (\<lambda>acct.
          if acct = 0 then ret False
          else thenDo (emit [auth_log True ''without authentication'' []]) (ret True)))
      else ret False)"

definition check_valid :: "int \<Rightarrow> ('w, unit) sprog" where
  "check_valid authenticated =
     andThen (gets authctxt) (\<lambda>ac.
     when_p (\<not> valid ac \<and> authenticated \<noteq> 0)
       (stop (Fatal (''INTERNAL ERROR: authenticated invalid user '' @ user ac))))"

text \<open>Special handling for root; the result is the new value of \<open>authenticated\<close>.\<close>

definition check_root :: "('w, 'b) auth_env \<Rightarrow> string \<Rightarrow> int \<Rightarrow> ('w, int) sprog" where
  "check_root A method authenticated =
     (if authenticated = 0 then ret authenticated
      else andThen (gets (\<lambda>s. pw (authctxt s))) (\<lambda>p. case p of
        None \<Rightarrow> stop (Undefined ''authctxt->pw is NULL'')
      | Some p \<Rightarrow>
          if pw_uid p = 0 \<and> \<not> auth_root_allowed A method then
            thenDo (audit A SSH_LOGIN_ROOT_DENIED) (ret 0)
          else ret authenticated))"

definition check_account1 :: "('w, 'b) auth_env \<Rightarrow> int \<Rightarrow> ('w, unit) sprog" where
  "check_account1 A authenticated =
     when_p (use_pam (opts A) \<and> authenticated \<noteq> 0)
       (andThen (privsep_pam_account A) (\<lambda>acct.
        when_p (acct = 0)
          (andThen (gets loginmsg) (\<lambda>l. stop (Disconnect (denied_message l))))))"

text \<open>From the label \<open>skip\<close> to the end of the loop body; \<open>True\<close> when the function returns.\<close>

definition authloop_skip ::
  "('w, 'b) auth_env \<Rightarrow> msgtype \<Rightarrow> int \<Rightarrow> string \<Rightarrow> ('w, bool) sprog" where
  "authloop_skip A ty authenticated info =
     thenDo (emit [auth_log (authenticated \<noteq> 0) (get_authname A ty) info])
     (thenDo (modify (\<lambda>s. s\<lparr>client_user := None\<rparr>))
     (if authenticated \<noteq> 0 then ret True
      else
        thenDo (upd_authctxt (\<lambda>a. a\<lparr>failures := failures a + 1\<rparr>))
        (andThen (gets authctxt) (\<lambda>ac.
         if failures ac \<ge> max_authtries (opts A) then
           thenDo (audit A SSH_LOGIN_EXCEED_MAXTRIES)
             (stop (Disconnect (AUTH_FAIL_MSG A (user ac))))
         else thenDo (send_simple SSH_SMSG_FAILURE) (ret False)))))"

definition authloop_iter ::
  "('w, 'b) auth_env \<Rightarrow> msgtype \<Rightarrow> ('w, msgtype \<times> bool) sprog" where
  "authloop_iter A prev =
     andThen (extx (packet_read A)) (\<lambda>ty.
     thenDo (when_p (prev = SSH_CMSG_AUTH_TIS \<and> ty \<noteq> SSH_CMSG_AUTH_TIS_RESPONSE)
       (abandon_challenge_response A))
     (andThen (gets (\<lambda>s. failures (authctxt s))) (\<lambda>f.
      let skip = (\<lambda>r info. andThen (authloop_skip A ty r info) (\<lambda>d. ret (ty, d))) in
      if f \<ge> max_authtries (opts A) then skip 0 []
      else (case lookup_authmethod1 ty of
        None \<Rightarrow> skip 0 []
      | Some meth \<Rightarrow>
          if \<not> am_enabled meth (opts A) then skip 0 []
          else andThen (am_method meth A []) (\<lambda>(r, info).
            if r = -1 then ret (ty, False)
            else
              thenDo (check_valid r)
              (andThen (check_root A (am_name meth) r) (\<lambda>r'.
               thenDo (check_account1 A r') (skip r' info))))))))"

text \<open>
  The \<open>for\<close> loop, with a bound on its iterations: \<open>False\<close> says the bound was used up, \<open>True\<close> that
  the loop returned.
\<close>

primrec authloop :: "nat \<Rightarrow> ('w, 'b) auth_env \<Rightarrow> msgtype \<Rightarrow> ('w, bool) sprog" where
  "authloop 0 A prev = ret False"
| "authloop (Suc fuel) A prev =
     andThen (authloop_iter A prev) (\<lambda>(ty, d).
     if d then ret True else authloop fuel A ty)"

definition do_authloop :: "nat \<Rightarrow> ('w, 'b) auth_env \<Rightarrow> ('w, bool) sprog" where
  "do_authloop fuel A =
     andThen (authloop_precheck A) (\<lambda>d.
     if d then ret True
     else thenDo (send_simple SSH_SMSG_FAILURE) (authloop fuel A (SSH_MSG_other 0)))"

section \<open>The whole of protocol 1 authentication\<close>

text \<open>
  \<open>user[:style][/role]\<close>, as cut by the \<open>strchr\<close> calls of both protocols: the role after the first
  slash, the style after a colon of the user or else of the role.
\<close>

definition parse_user :: "string \<Rightarrow> string \<times> string option \<times> string option" where
  "parse_user u =
     (let (u1, r) = (case split_at (CHR ''/'') u of None \<Rightarrow> (u, None) | Some (a, b) \<Rightarrow> (a, Some b))
      in case split_at (CHR '':'') u1 of
           Some (u2, st) \<Rightarrow> (u2, Some st, r)
         | None \<Rightarrow>
             (case r of None \<Rightarrow> (u1, None, None)
              | Some r1 \<Rightarrow> (case split_at (CHR '':'') r1 of
                    None \<Rightarrow> (u1, None, Some r1)
                  | Some (r2, st) \<Rightarrow> (u1, Some st, Some r2))))"

definition lookup_user1 :: "('w, 'b) auth_env \<Rightarrow> string \<Rightarrow> ('w, unit) sprog" where
  "lookup_user1 A u =
     andThen (ext (getpwnamallow A u)) (\<lambda>p. case p of
       Some pwd \<Rightarrow> upd_authctxt (\<lambda>a. a\<lparr>pw := Some pwd, valid := True\<rparr>)
     | None \<Rightarrow> upd_authctxt (\<lambda>a. a\<lparr>valid := True, pw := Some (fakepw A)\<rparr>))"

definition do_authentication :: "nat \<Rightarrow> ('w, 'b) auth_env \<Rightarrow> ('w, unit) sprog" where
  "do_authentication fuel A =
     thenDo (extx (packet_read_expect A SSH_CMSG_USER))
     (andThen (extx (packet_get_cstring A)) (\<lambda>raw.
      thenDo (extx (packet_check_eom A))
      (case parse_user raw of (u, st, r) \<Rightarrow>
       thenDo (upd_authctxt (\<lambda>a. a\<lparr>user := u, style := st, role := r\<rparr>))
       (thenDo (lookup_user1 A u)
       (andThen (gets authctxt) (\<lambda>ac.
        thenDo (emit [setproctitle ((if valid ac then u else ''unknown'') @
                  (if use_privsep (pam A) then '' [net]'' else []))])
        (thenDo (when_p (use_pam (opts A)) (privsep_start_pam A))
        (andThen (gets authctxt) (\<lambda>ac'.
         thenDo
           (when_p (\<not> use_privsep (pam A) \<and> getuid A \<noteq> 0 \<and>
              (case pw ac' of None \<Rightarrow> False | Some p \<Rightarrow> pw_uid p \<noteq> getuid A))
             (stop (Disconnect ''Cannot change user when server not running as root.'')))
         (andThen (do_authloop fuel A) (\<lambda>returned.
          if returned then send_simple SSH_SMSG_SUCCESS else stop NoFuel)))))))))))"

end
