(* ===== verification/SshAuthFrame.thy ===== *)
theory SshAuthFrame
  imports SshAuth1
begin

text \<open>
  What the functions called by an authentication loop leave alone: who is being authenticated, the
  number of failures, the verdicts already written (log entries and success messages), and who
  handles service and authentication requests. The files' own helpers are shown to do so; for the
  authentication methods outside the repository it is the hypothesis \<open>outside_ok\<close>.
\<close>

section \<open>Verdicts\<close>

fun is_verdict :: "out_event \<Rightarrow> bool" where
  "is_verdict (auth_log b m i) = True"
| "is_verdict (packet_start SSH_SMSG_SUCCESS) = True"
| "is_verdict (packet_start SSH2_MSG_USERAUTH_SUCCESS) = True"
| "is_verdict e = False"

fun is_failure :: "out_event \<Rightarrow> bool" where
  "is_failure (auth_log b m i) = (\<not> b)"
| "is_failure e = False"

definition verdicts :: "'w sshd \<Rightarrow> out_event list" where
  "verdicts s = filter is_verdict (out s)"

definition failed_logs :: "'w sshd \<Rightarrow> int" where
  "failed_logs s = int (length (filter is_failure (verdicts s)))"

lemma is_failure_verdict: "is_failure e \<Longrightarrow> is_verdict e"
  by (cases e) simp_all

lemma verdicts_stderr [simp]: "filter is_verdict (map stderr_line es) = []"
  by (induction es) simp_all

section \<open>The frame\<close>

definition auth_same :: "'w sshd \<Rightarrow> 'w sshd \<Rightarrow> bool" where
  "auth_same s t \<longleftrightarrow>
     user (authctxt t) = user (authctxt s) \<and> service (authctxt t) = service (authctxt s) \<and>
     valid (authctxt t) = valid (authctxt s) \<and> pw (authctxt t) = pw (authctxt s) \<and>
     failures (authctxt t) = failures (authctxt s) \<and> attempt (authctxt t) = attempt (authctxt s) \<and>
     success (authctxt t) = success (authctxt s) \<and> verdicts t = verdicts s \<and>
     prefix (out s) (out t) \<and> dispatch_default t = dispatch_default s \<and>
     dispatch_table t SSH2_MSG_SERVICE_REQUEST = dispatch_table s SSH2_MSG_SERVICE_REQUEST \<and>
     dispatch_table t SSH2_MSG_USERAUTH_REQUEST = dispatch_table s SSH2_MSG_USERAUTH_REQUEST"

lemma auth_same_refl [simp]: "auth_same s s"
  by (simp add: auth_same_def)

lemma auth_same_trans: "auth_same s t \<Longrightarrow> auth_same t u \<Longrightarrow> auth_same s u"
  by (auto simp: auth_same_def intro: prefix_order.trans)

lemma auth_same_failed: "auth_same s t \<Longrightarrow> failed_logs t = failed_logs s"
  by (simp add: auth_same_def failed_logs_def)

lemma conv_same_auth_same: "conv_same s t \<Longrightarrow> auth_same s t"
  by (erule conv_sameE) (simp add: auth_same_def verdicts_def)

lemma auth_same_prefix: "auth_same s t \<Longrightarrow> prefix (out s) (out t)"
  by (simp add: auth_same_def)

definition keeps_auth :: "('w, 'a) sprog \<Rightarrow> bool" where
  "keeps_auth m \<longleftrightarrow> (\<forall>s0. keeps (auth_same s0) m)"

lemma keeps_authI: "(\<And>s0. keeps (auth_same s0) m) \<Longrightarrow> keeps_auth m"
  by (simp add: keeps_auth_def)

lemma keeps_authD: "keeps_auth m \<Longrightarrow> m s = (r, t) \<Longrightarrow> auth_same s t"
  unfolding keeps_auth_def by (metis keepsD auth_same_refl)

lemma keeps_auth_keeps: "keeps_auth m \<Longrightarrow> keeps (auth_same s0) m"
  by (simp add: keeps_auth_def)

lemma keeps_auth_iff: "keeps_auth m \<longleftrightarrow> (\<forall>s. auth_same s (snd (m s)))"
  unfolding keeps_auth_def keeps_iff by (metis auth_same_refl auth_same_trans)

lemma only_conv_keeps_auth: "only_conv m \<Longrightarrow> keeps_auth m"
  by (simp add: keeps_auth_iff only_conv_def conv_same_auth_same)

lemma keeps_call [keeps_rules]: "keeps (auth_same s0) (call_pam E f)"
  by (rule keeps_auth_keeps, rule only_conv_keeps_auth, rule only_conv_call_pam)

lemma auth_same_upd [simp]:
  "auth_same s0 (s\<lparr>sshpam_err := x1\<rparr>) = auth_same s0 s"
  "auth_same s0 (s\<lparr>sshpam_account_status := x2\<rparr>) = auth_same s0 s"
  "auth_same s0 (s\<lparr>sshpam_password := x3\<rparr>) = auth_same s0 s"
  "auth_same s0 (s\<lparr>sshpam_authctxt := x4\<rparr>) = auth_same s0 s"
  "auth_same s0 (s\<lparr>sshpam_handle := x5\<rparr>) = auth_same s0 s"
  "auth_same s0 (s\<lparr>client_user := x6\<rparr>) = auth_same s0 s"
  "auth_same s0 (s\<lparr>world := w\<rparr>) = auth_same s0 s"
  "auth_same s0 (s\<lparr>loginmsg := l\<rparr>) = auth_same s0 s"
  "auth_same s0 (s\<lparr>sshpam_account_status := x2, sshpam_err := x1\<rparr>) = auth_same s0 s"
  "auth_same s0 (s\<lparr>loginmsg := l, world := w\<rparr>) = auth_same s0 s"
  "auth_same s0 (s\<lparr>sshpam_password := x3, sshpam_authctxt := x4\<rparr>) = auth_same s0 s"
  "auth_same s0 (s\<lparr>no_port_forwarding_flag := y1\<rparr>) = auth_same s0 s"
  "auth_same s0 (s\<lparr>no_agent_forwarding_flag := y2\<rparr>) = auth_same s0 s"
  "auth_same s0 (s\<lparr>no_x11_forwarding_flag := y3\<rparr>) = auth_same s0 s"
  "auth_same s0 (s\<lparr>authctxt := (authctxt s)\<lparr>force_pwchange := y4\<rparr>\<rparr>) = auth_same s0 s"
  by (simp_all add: auth_same_def verdicts_def)

lemma auth_same_emit:
  "filter is_verdict es = [] \<Longrightarrow> auth_same s0 s \<Longrightarrow> auth_same s0 (s\<lparr>out := out s @ es\<rparr>)"
  by (simp add: auth_same_def verdicts_def)

lemma keeps_auth_err [keeps_rules]: "keeps (auth_same s0) (err_pam E f)"
  unfolding err_pam_def set_err_def by (intro keeps_rules) simp_all

lemma keeps_auth_set_conv [keeps_rules]: "keeps (auth_same s0) (set_conv E c)"
  by (simp add: keeps_iff set_conv_run Let_def split: prod.split)

lemma keeps_auth_password_change [keeps_rules]:
  "keeps (auth_same s0) (sshpam_password_change_required n)"
  by (simp add: keeps_iff sshpam_password_change_required_def prog_simps auth_same_def
        verdicts_def)

lemma keeps_auth_do_pam_account [keeps_rules]: "keeps (auth_same s0) (do_pam_account E)"
  unfolding do_pam_account_def by (intro keeps_rules) simp_all

lemma keeps_auth_sshpam_auth_passwd: "keeps_auth (sshpam_auth_passwd E p)"
  unfolding sshpam_auth_passwd_def by (intro keeps_authI keeps_rules) simp_all

lemma keeps_auth_account: "keeps_auth (privsep_pam_account A)"
proof (rule keeps_authI)
  fix s0
  show "keeps (auth_same s0) (privsep_pam_account A)"
    unfolding privsep_pam_account_def
    by (intro keeps_rules) (simp add: keeps_iff split: prod.split)
qed

lemma keeps_auth_set_err [keeps_rules]: "keeps (auth_same s0) (set_err rc)"
  by (simp add: set_err_def keeps_iff prog_simps)

lemma keeps_auth_err_ext [keeps_rules]: "keeps (auth_same s0) (err_ext f)"
  by (simp add: keeps_iff prog_simps auth_same_def verdicts_def)

lemma keeps_auth_drop [keeps_rules]: "keeps (auth_same s0) (drop_handle E)"
  unfolding drop_handle_def by (intro keeps_rules) simp_all

lemma keeps_auth_set_item [keeps_rules]:
  "keeps (auth_same s0) next \<Longrightarrow> keeps (auth_same s0) (set_item_or_drop E i next)"
  unfolding set_item_or_drop_def by (intro keeps_rules) simp_all

lemma keeps_auth_init_fresh [keeps_rules]: "keeps (auth_same s0) (sshpam_init_fresh E u)"
  unfolding sshpam_init_fresh_def
  by (intro keeps_rules) (simp_all add: auth_same_def verdicts_def)

lemma keeps_auth_start_pam [keeps_rules]: "keeps (auth_same s0) (start_pam E)"
  unfolding start_pam_def sshpam_init_def by (intro keeps_rules) simp_all

lemma keeps_auth_privsep_start_pam: "keeps (auth_same s0) (privsep_start_pam A)"
  unfolding privsep_start_pam_def by (intro keeps_rules) simp_all

section \<open>The methods outside the repository\<close>

text \<open>
  OpenSSH's authentication methods decide about a credential. They do not count failures, do not
  choose another user and do not write the verdict: that is the loop's work.
\<close>

definition outside_ok :: "('w, 'b) auth_env \<Rightarrow> bool" where
  "outside_ok A \<longleftrightarrow>
     (\<forall>p. keeps_auth (auth_password A p)) \<and> (\<forall>n. keeps_auth (auth_rsa A n)) \<and>
     (\<forall>u k. keeps_auth (auth_rhosts_rsa A u k)) \<and> keeps_auth (get_challenge A) \<and>
     (\<forall>r. keeps_auth (verify_response A r)) \<and> keeps_auth (abandon_challenge_response A)"

lemma lookup_authmethod1_cases:
  assumes "lookup_authmethod1 ty = Some m"
  shows "m \<in> set auth1_methods" and "am_type m = ty"
  using assms find_Some_iff [of "\<lambda>m. am_type m = ty" auth1_methods m]
  by (auto simp: lookup_authmethod1_def)

lemma keeps_auth_method1:
  assumes "outside_ok A" and "m \<in> set auth1_methods"
  shows "keeps_auth (am_method m A info)"
proof -
  note outside = assms(1) [unfolded outside_ok_def keeps_auth_def, rule_format]
  have "keeps_auth (auth1_process_password A info)" "keeps_auth (auth1_process_rsa A info)"
    "keeps_auth (auth1_process_rhosts_rsa A info)" "keeps_auth (auth1_process_tis_challenge A info)"
    "keeps_auth (auth1_process_tis_response A info)"
    unfolding auth1_process_password_def auth1_process_rsa_def auth1_process_rhosts_rsa_def
      auth1_process_tis_challenge_def auth1_process_tis_response_def
    by (auto intro!: keeps_authI keeps_rules auth_same_emit simp: outside)
  with assms(2) show ?thesis
    by (auto simp: auth1_methods_def)
qed

end
