(* ===== verification/SshAuth2.thy ===== *)
theory SshAuth2
  imports SshAuthFrame
begin

text \<open>
  \<open>base/ssh/12/auth2.c\<close>: authentication of protocol 2. Packets are delivered by the dispatcher, which
  is outside the repository: the file fills its table and defines the handlers. \<open>served\<close> is the
  relation between states that a dispatcher which calls the registered handlers can produce.
\<close>

section \<open>Parameters\<close>

datatype auth_method =
    method_none | method_pubkey | method_gsskeyex | method_gssapi | method_jpake
  | method_passwd | method_kbdint | method_hostbased

record ('w, 'b) auth2_env =
  base :: "('w, 'b) auth_env"
  method_name :: "auth_method \<Rightarrow> string"
  \<comment> \<open>the flag that \<open>enabled\<close> points to, \<open>None\<close> for a NULL pointer\<close>
  method_enabled :: "auth_method \<Rightarrow> 'w \<Rightarrow> bool option"
  method_userauth :: "auth_method \<Rightarrow> ('w, int) sprog"
  \<comment> \<open>a handler registered by a method; the result is its call of \<open>userauth_finish\<close>, if it makes one\<close>
  run_other :: "nat \<Rightarrow> ('w, (int \<times> string) option) sprog"
  protocol_error :: "'w \<Rightarrow> (exit_reason + unit) \<times> 'w"
  auth2_challenge_stop :: "('w, unit) sprog"
  auth2_jpake_stop :: "('w, unit) sprog"
  SSH_BUG_BANNER :: bool
  mm_auth2_read_banner :: "'w \<Rightarrow> string option \<times> 'w"
  open_rdonly :: "string \<Rightarrow> 'w \<Rightarrow> int \<times> 'w"
  fstat_size :: "int \<Rightarrow> 'w \<Rightarrow> int option \<times> 'w"
  atomicio_read :: "int \<Rightarrow> nat \<Rightarrow> 'w \<Rightarrow> string \<times> 'w"

abbreviation pam2 :: "('w, 'b) auth2_env \<Rightarrow> ('w, 'b) pam_env" where
  "pam2 A \<equiv> pam (base A)"

abbreviation opts2 :: "('w, 'b) auth2_env \<Rightarrow> ServerOptions" where
  "opts2 A \<equiv> options (pam2 A)"

definition dispatch_set :: "msgtype \<Rightarrow> handler option \<Rightarrow> ('w, unit) sprog" where
  "dispatch_set ty h = modify (\<lambda>s. s\<lparr>dispatch_table := (dispatch_table s)(ty \<mapsto> h)\<rparr>)"

definition dispatch_init :: "handler \<Rightarrow> ('w, unit) sprog" where
  "dispatch_init h = modify (\<lambda>s. s\<lparr>dispatch_default := h, dispatch_table := Map.empty\<rparr>)"

section \<open>The banner\<close>

definition auth2_read_banner :: "('w, 'b) auth2_env \<Rightarrow> string \<Rightarrow> ('w, string option) sprog" where
  "auth2_read_banner A path =
     andThen (ext (open_rdonly A path)) (\<lambda>fd.
     if fd = -1 then ret None
     else andThen (ext (fstat_size A fd)) (\<lambda>st. case st of
       None \<Rightarrow> thenDo (ext (close_fd (pam2 A) fd)) (ret None)
     | Some st_size \<Rightarrow>
         if st_size > 1 * 1024 * 1024 then thenDo (ext (close_fd (pam2 A) fd)) (ret None)
         else if st_size < 0 then stop (Fatal ''xmalloc'')
         else
           andThen (ext (atomicio_read A fd (nat st_size))) (\<lambda>banner.
           thenDo (ext (close_fd (pam2 A) fd))
             (if length banner \<noteq> nat st_size then ret None
              else ret (Some (cstr banner))))))"

definition userauth_send_banner :: "('w, 'b) auth2_env \<Rightarrow> string \<Rightarrow> ('w, unit) sprog" where
  "userauth_send_banner A text =
     (if SSH_BUG_BANNER A then ret ()
      else emit [packet_start SSH2_MSG_USERAUTH_BANNER, packet_put_cstring text,
                 packet_put_cstring [], packet_send])"

text \<open>\<open>strcasecmp (a, b) == 0\<close> in the C locale.\<close>

definition tolower_c :: "char \<Rightarrow> char" where
  "tolower_c c = (if of_char c \<ge> (65 :: nat) \<and> of_char c \<le> (90 :: nat)
     then char_of (of_char c + (32 :: nat)) else c)"

definition strcasecmp_eq :: "string \<Rightarrow> string \<Rightarrow> bool" where
  "strcasecmp_eq a b \<longleftrightarrow> map tolower_c a = map tolower_c b"

definition userauth_banner :: "('w, 'b) auth2_env \<Rightarrow> ('w, unit) sprog" where
  "userauth_banner A =
     (case banner (opts2 A) of
        None \<Rightarrow> ret ()
      | Some path \<Rightarrow>
          if strcasecmp_eq path ''none'' \<or> SSH_BUG_BANNER A then ret ()
          else
            andThen (if use_privsep (pam2 A) then ext (mm_auth2_read_banner A)
                     else auth2_read_banner A path) (\<lambda>b. case b of
              None \<Rightarrow> ret ()
            | Some text \<Rightarrow> userauth_send_banner A text))"

section \<open>Methods\<close>

definition authmethods :: "('w, 'b) auth2_env \<Rightarrow> auth_method list" where
  "authmethods A =
     [method_none, method_pubkey] @
     (if GSSAPI (build_flags (pam2 A)) then [method_gsskeyex, method_gssapi] else []) @
     (if JPAKE (build_flags (pam2 A)) then [method_jpake] else []) @
     [method_passwd, method_kbdint, method_hostbased]"

text \<open>The loop of \<open>authmethods_get\<close>, with the buffer it appends to.\<close>

primrec methods_loop ::
  "('w, 'b) auth2_env \<Rightarrow> 'w \<Rightarrow> auth_method list \<Rightarrow> string \<Rightarrow> string" where
  "methods_loop A w [] b = b"
| "methods_loop A w (m # ms) b =
     (if method_name A m = ''none'' then methods_loop A w ms b
      else if method_enabled A m w = Some True then
        methods_loop A w ms ((if length b > 0 then b @ '','' else b) @ method_name A m)
      else methods_loop A w ms b)"

definition authmethods_get :: "('w, 'b) auth2_env \<Rightarrow> 'w \<Rightarrow> string" where
  "authmethods_get A w = cstr (methods_loop A w (authmethods A) [] @ [CHR 0x00])"

definition authmethod_lookup :: "('w, 'b) auth2_env \<Rightarrow> 'w \<Rightarrow> string \<Rightarrow> auth_method option" where
  "authmethod_lookup A w name =
     find (\<lambda>m. method_enabled A m w = Some True \<and> name = method_name A m) (authmethods A)"

section \<open>The end of an attempt\<close>

definition check_account2 :: "('w, 'b) auth2_env \<Rightarrow> int \<Rightarrow> ('w, unit) sprog" where
  "check_account2 A authenticated =
     when_p (use_pam (opts2 A) \<and> authenticated \<noteq> 0)
       (andThen (privsep_pam_account (base A)) (\<lambda>acct.
        when_p (acct = 0)
          (andThen (gets loginmsg) (\<lambda>l.
           thenDo (when_p (length l > 0)
             (thenDo (modify (\<lambda>s. s\<lparr>loginmsg := loginmsg s @ [CHR 0x00]\<rparr>))
             (thenDo (userauth_send_banner A (cstr (l @ [CHR 0x00]))) (emit [packet_write_wait]))))
           (andThen (gets authctxt) (\<lambda>ac.
            stop (Fatal (''Access denied for user '' @ user ac @ '' by PAM account configuration''))))))))"

text \<open>From \<open>if (authctxt->postponed)\<close> on: the reply.\<close>

definition userauth_reply :: "('w, 'b) auth2_env \<Rightarrow> int \<Rightarrow> string \<Rightarrow> ('w, unit) sprog" where
  "userauth_reply A authenticated meth =
     (if authenticated = 1 then
        thenDo (dispatch_set SSH2_MSG_USERAUTH_REQUEST (Some dispatch_protocol_ignore))
        (thenDo (send_simple SSH2_MSG_USERAUTH_SUCCESS)
          (upd_authctxt (\<lambda>a. a\<lparr>success := True\<rparr>)))
      else
        andThen (gets authctxt) (\<lambda>ac.
        thenDo
          (when_p (\<not> server_caused_failure ac \<and> (attempt ac > 1 \<or> meth \<noteq> ''none''))
            (upd_authctxt (\<lambda>a. a\<lparr>failures := failures a + 1\<rparr>)))
        (andThen (gets authctxt) (\<lambda>ac'.
         thenDo
           (when_p (failures ac' \<ge> max_authtries (opts2 A))
             (thenDo (audit (base A) SSH_LOGIN_EXCEED_MAXTRIES)
               (stop (Disconnect (AUTH_FAIL_MSG (base A) (user ac'))))))
         (andThen (gets (\<lambda>s. authmethods_get A (world s))) (\<lambda>methods.
          emit [packet_start SSH2_MSG_USERAUTH_FAILURE, packet_put_cstring methods,
                packet_put_char 0, packet_send, packet_write_wait]))))))"

definition userauth_finish :: "('w, 'b) auth2_env \<Rightarrow> int \<Rightarrow> string \<Rightarrow> ('w, unit) sprog" where
  "userauth_finish A authenticated meth =
     thenDo (check_valid authenticated)
     (andThen (check_root (base A) meth authenticated) (\<lambda>authenticated'.
      thenDo (check_account2 A authenticated')
      (thenDo (emit [auth_log (authenticated' \<noteq> 0) meth '' ssh2''])
      (andThen (gets (\<lambda>s. postponed (authctxt s))) (\<lambda>postp.
       if postp then ret () else userauth_reply A authenticated' meth)))))"

section \<open>Handlers\<close>

definition input_service_request :: "('w, 'b) auth2_env \<Rightarrow> ('w, unit) sprog" where
  "input_service_request A =
     andThen (extx (packet_get_cstring (base A))) (\<lambda>srv.
     thenDo (extx (packet_check_eom (base A)))
     (andThen (gets (\<lambda>s. success (authctxt s))) (\<lambda>succ.
      if srv = ''ssh-userauth'' \<and> \<not> succ then
        thenDo (dispatch_set SSH2_MSG_USERAUTH_REQUEST (Some input_userauth_request_h))
          (emit [packet_start SSH2_MSG_SERVICE_ACCEPT, packet_put_cstring srv, packet_send,
                 packet_write_wait])
      else stop (Disconnect (''bad service request '' @ srv)))))"

text \<open>The first request sets the context up.\<close>

definition setup_authctxt ::
  "('w, 'b) auth2_env \<Rightarrow> string \<Rightarrow> string \<Rightarrow> string option \<Rightarrow> string option \<Rightarrow> ('w, unit) sprog" where
  "setup_authctxt A u srv st r =
     andThen (ext (getpwnamallow (base A) u)) (\<lambda>p.
     thenDo (upd_authctxt (\<lambda>a. a\<lparr>pw := p, user := u\<rparr>))
     (thenDo
        (if p \<noteq> None \<and> srv = ''ssh-connection'' then upd_authctxt (\<lambda>a. a\<lparr>valid := True\<rparr>)
         else
           thenDo (upd_authctxt (\<lambda>a. a\<lparr>valid := True, pw := Some (fakepw (base A))\<rparr>))
             (audit (base A) SSH_INVALID_USER))
     (thenDo (when_p (use_pam (opts2 A)) (privsep_start_pam (base A)))
     (andThen (gets authctxt) (\<lambda>ac.
      thenDo (emit [setproctitle ((if valid ac then u else ''unknown'') @
                (if use_privsep (pam2 A) then '' [net]'' else []))])
      (thenDo (upd_authctxt (\<lambda>a. a\<lparr>service := srv, style := st, role := r\<rparr>))
      (thenDo (when_p (use_privsep (pam2 A)) (emit [inform_authserv srv st r]))
        (userauth_banner A))))))))"

text \<open>Count the attempt; set the context up, or else insist on the same user and service.\<close>

definition begin_request ::
  "('w, 'b) auth2_env \<Rightarrow> string \<Rightarrow> string \<Rightarrow> string option \<Rightarrow> string option \<Rightarrow> ('w, unit) sprog" where
  "begin_request A u srv st r =
     andThen (gets authctxt) (\<lambda>ac.
     thenDo (when_p (attempt ac \<ge> 2 ^ 31 - 1) (stop (Undefined ''authctxt->attempt overflows'')))
     (thenDo (upd_authctxt (\<lambda>a. a\<lparr>attempt := attempt a + 1\<rparr>))
       (if attempt ac = 0 then setup_authctxt A u srv st r
        else when_p (u \<noteq> user ac \<or> srv \<noteq> service ac)
          (stop (Disconnect (''Change of username or service not allowed: ('' @ user ac @ '','' @
             service ac @ '') -> ('' @ u @ '','' @ srv @ '')''))))))"

definition reset_state :: "('w, 'b) auth2_env \<Rightarrow> ('w, unit) sprog" where
  "reset_state A =
     thenDo (auth2_challenge_stop A)
     (thenDo (when_p (JPAKE (build_flags (pam2 A))) (auth2_jpake_stop A))
     (thenDo (when_p (GSSAPI (build_flags (pam2 A)))
        (thenDo (dispatch_set SSH2_MSG_USERAUTH_GSSAPI_TOKEN None)
          (dispatch_set SSH2_MSG_USERAUTH_GSSAPI_EXCHANGE_COMPLETE None)))
       (upd_authctxt (\<lambda>a. a\<lparr>postponed := False, server_caused_failure := False\<rparr>))))"

definition try_method :: "('w, 'b) auth2_env \<Rightarrow> string \<Rightarrow> ('w, int) sprog" where
  "try_method A name =
     andThen (gets (\<lambda>s. authmethod_lookup A (world s) name)) (\<lambda>m.
     andThen (gets (\<lambda>s. failures (authctxt s))) (\<lambda>f. case m of
       None \<Rightarrow> ret 0
     | Some meth \<Rightarrow> if f < max_authtries (opts2 A) then method_userauth A meth else ret 0))"

definition input_userauth_request :: "('w, 'b) auth2_env \<Rightarrow> ('w, unit) sprog" where
  "input_userauth_request A =
     andThen (extx (packet_get_cstring (base A))) (\<lambda>raw.
     andThen (extx (packet_get_cstring (base A))) (\<lambda>srv.
     andThen (extx (packet_get_cstring (base A))) (\<lambda>meth.
     case parse_user raw of (u, st, r) \<Rightarrow>
       thenDo (begin_request A u srv st r)
       (thenDo (reset_state A)
       (andThen (try_method A meth) (\<lambda>authenticated.
        userauth_finish A authenticated meth))))))"

section \<open>The dispatcher\<close>

text \<open>
  The table as \<open>dispatch.c\<close> reads it: an entry set by \<open>dispatch_set\<close>, NULL included, or else the
  default of \<open>dispatch_init\<close>.
\<close>

definition handler_for :: "'w sshd \<Rightarrow> msgtype \<Rightarrow> handler option" where
  "handler_for s ty =
     (case dispatch_table s ty of None \<Rightarrow> Some (dispatch_default s) | Some h \<Rightarrow> h)"

definition run_handler :: "('w, 'b) auth2_env \<Rightarrow> handler \<Rightarrow> ('w, unit) sprog" where
  "run_handler A h =
     (case h of
        dispatch_protocol_error \<Rightarrow> extx (protocol_error A)
      | dispatch_protocol_ignore \<Rightarrow> ret ()
      | input_service_request_h \<Rightarrow> input_service_request A
      | input_userauth_request_h \<Rightarrow> input_userauth_request A
      | other_handler k \<Rightarrow>
          andThen (run_other A k) (\<lambda>r. case r of
            None \<Rightarrow> ret ()
          | Some (authenticated, meth) \<Rightarrow> userauth_finish A authenticated meth))"

text \<open>What \<open>do_authentication2\<close> does before it hands over to \<open>dispatch_run\<close>.\<close>

definition auth2_setup :: "('w, unit) sprog" where
  "auth2_setup =
     thenDo (dispatch_init dispatch_protocol_error)
       (dispatch_set SSH2_MSG_SERVICE_REQUEST (Some input_service_request_h))"

text \<open>
  \<open>dispatch_run\<close> is outside the repository. It reads a packet, calls the handler registered for it,
  and goes on until the flag it was given, \<open>success\<close>, is set. \<open>served A s t\<close>: it can bring the
  server from \<open>s\<close> to \<open>t\<close>.
\<close>

inductive served :: "('w, 'b) auth2_env \<Rightarrow> 'w sshd \<Rightarrow> 'w sshd \<Rightarrow> bool" for A s where
  served_start: "served A s s"
| served_packet:
    "served A s t \<Longrightarrow> \<not> success (authctxt t) \<Longrightarrow>
     extx (packet_read (base A)) t = (Inr ty, u) \<Longrightarrow> handler_for u ty = Some h \<Longrightarrow>
     run_handler A h u = (Inr (), v) \<Longrightarrow> served A s v"

text \<open>
  \<open>do_authentication2\<close>, with the dispatcher as an argument, and the contract of the dispatcher: a
  normal return of \<open>dispatch_run\<close> is a state it served, with \<open>success\<close> set.
\<close>

definition do_authentication2 :: "('w, unit) sprog \<Rightarrow> ('w, unit) sprog" where
  "do_authentication2 dispatch_run = thenDo auth2_setup dispatch_run"

definition dispatch_contract :: "('w, 'b) auth2_env \<Rightarrow> ('w, unit) sprog \<Rightarrow> bool" where
  "dispatch_contract A dispatch_run \<longleftrightarrow>
     (\<forall>s t. \<not> success (authctxt s) \<longrightarrow> dispatch_run s = (Inr (), t) \<longrightarrow>
        served A s t \<and> success (authctxt t))"

end
