(* ===== verification/SshPamProps.thy ===== *)
theory SshPamProps
  imports SshPamFrame
begin

text \<open>
  What the PAM module guarantees: a final account verdict, the answers of the password
  conversation, the verdict of password authentication, the environment that travels from the PAM
  process to the server, the prompt that the device collects, the conditions of its success, the
  end of the handle, and the life of a context. The demo environment of the first section runs the
  model on concrete inputs: a world that is the list of messages still to come, buffers that are
  lists of items, and a PAM stack with one password.
\<close>

section \<open>The buffer contract and a concrete environment\<close>

text \<open>
  OpenSSH's \<open>Buffer\<close> is outside the repository. What the code relies on is that it is a queue: a
  value that was put in comes out of the matching get, in order. \<open>items\<close> reads a buffer as the
  values still in it.
\<close>

datatype buf_item = BInt u32 | BStr string | BChr wire

definition buffer_contract :: "('w, 'b) pam_env \<Rightarrow> ('b \<Rightarrow> buf_item list) \<Rightarrow> bool" where
  "buffer_contract E items \<longleftrightarrow>
     items (buffer_empty E) = [] \<and>
     (\<forall>n b. items (buffer_put_int E n b) = items b @ [BInt n]) \<and>
     (\<forall>x b. items (buffer_put_cstring E x b) = items b @ [BStr x]) \<and>
     (\<forall>n b xs. items b = BInt n # xs \<longrightarrow>
        (\<exists>b'. buffer_get_int E b = Some (n, b') \<and> items b' = xs)) \<and>
     (\<forall>x b xs. items b = BStr x # xs \<longrightarrow>
        (\<exists>b'. buffer_get_string E b = Some (x, b') \<and> items b' = xs))"

text \<open>A PAM stack that prompts once, without echo, and accepts one secret.\<close>

definition one_secret :: "string \<Rightarrow> string \<Rightarrow> 'w \<Rightarrow> 'w pam_run" where
  "one_secret prompt secret w =
     PamConv passwd_conv [\<lparr>msg_style = PAM_PROMPT_ECHO_OFF, msg = prompt\<rparr>] w (\<lambda>r w'.
       PamDone (case r of Some [x] \<Rightarrow> if resp x = Some secret then PAM_SUCCESS else PAM_AUTH_ERR
                | _ \<Rightarrow> PAM_CONV_ERR) w')"

definition memory_suffices :: "('w, 'b) pam_env \<Rightarrow> bool" where
  "memory_suffices E \<longleftrightarrow> (\<forall>n w. fst (alloc_ok E n w))"

definition demo_options :: ServerOptions where
  "demo_options =
     \<lparr>use_pam = True, permit_empty_passwd = False, permit_root_login = PERMIT_ROOT_other 0,
      use_dns = False, password_authentication = True, rsa_authentication = True,
      rhosts_rsa_authentication = False, challenge_response_authentication = True,
      kerberos_authentication = False, kerberos_or_local_passwd = False, max_authtries = 3,
      banner = None\<rparr>"

definition demo_build :: build where
  "demo_build = \<lparr>KRB5 = False, GSSAPI = False, JPAKE = False, SSH_AUDIT_EVENTS = False,
     PAM_TTY_KLUDGE = True\<rparr>"

definition demo_stack :: "buf_item list list \<Rightarrow> buf_item list list pam_run" where
  "demo_stack w = one_secret ''Password: '' ''s3cret'' w"

definition demo_env :: "(buf_item list list, buf_item list) pam_env" where
  "demo_env =
     \<lparr>options = demo_options, build_flags = demo_build,
      use_privsep = False, compat20 = True, SSHD_PAM_SERVICE = ''sshd'', PAM_MAX_NUM_MSG = 32,
      alloc_ok = (\<lambda>n w. (True, w)), socketpair = (\<lambda>w. (Some (3, 4), w)),
      fork = (\<lambda>w. (77, w)), kill_term = (\<lambda>p w. (0, w)), waitpid = (\<lambda>p b w. ((p, 0), w)),
      close_fd = (\<lambda>fd w. ((), w)), signal_chld = (\<lambda>h w. (SIG_DFL, w)),
      termsig_is_term = (\<lambda>st. st = 15), WIFSIGNALED = (\<lambda>st. st = 15),
      WIFEXITED = (\<lambda>st. st = 0), WEXITSTATUS = (\<lambda>st. 0), setenv_ok = (\<lambda>w. (True, w)),
      isatty_stdin = (\<lambda>w. (True, w)), read_passphrase = (\<lambda>p w. (Some [], w)),
      fgets_stdin = (\<lambda>w. (None, w)),
      buffer_empty = [], buffer_put_int = (\<lambda>n b. b @ [BInt n]),
      buffer_put_cstring = (\<lambda>x b. b @ [BStr x]),
      buffer_get_int = (\<lambda>b. case b of BInt n # r \<Rightarrow> Some (n, r) | _ \<Rightarrow> None),
      buffer_get_string = (\<lambda>b. case b of BStr x # r \<Rightarrow> Some (x, r) | _ \<Rightarrow> None),
      buffer_get_char = (\<lambda>b. case b of BChr c # r \<Rightarrow> Some (c, r) | _ \<Rightarrow> None),
      ssh_msg_send = (\<lambda>fd ty b w. (True, w)),
      ssh_msg_recv = (\<lambda>fd w. case w of [] \<Rightarrow> (None, []) | b # r \<Rightarrow> (Some b, r)),
      get_remote_name_or_ip = (\<lambda>d w. (''10.0.0.1'', w)), mm_is_monitor = (\<lambda>w. (True, w)),
      disable_forwarding = (\<lambda>_. (1, 1, 1)),
      pam_start = (\<lambda>sv u c w. ((PAM_SUCCESS, Some 1), w)), pam_end = (\<lambda>h e w. ((), w)),
      pam_get_user = (\<lambda>h w.
        ((case h of None \<Rightarrow> PAM_rc_other 1 | Some _ \<Rightarrow> PAM_SUCCESS, ''bob''), w)),
      pam_set_item = (\<lambda>h i w. (PAM_SUCCESS, w)),
      pam_authenticate = (\<lambda>h f w. demo_stack w),
      pam_acct_mgmt = (\<lambda>h w. PamDone PAM_SUCCESS w),
      pam_setcred = (\<lambda>h c w. PamDone PAM_SUCCESS w),
      pam_chauthtok = (\<lambda>h w. PamDone PAM_SUCCESS w),
      pam_open_session = (\<lambda>h w. PamDone PAM_SUCCESS w),
      pam_close_session = (\<lambda>h w. PamDone PAM_SUCCESS w), pam_strerror = (\<lambda>h rc. ''error''),
      pam_putenv = (\<lambda>h x w. (PAM_SUCCESS, w)),
      pam_getenvlist = (\<lambda>h w. (Some [''K=V''], w))\<rparr>"

definition demo_authctxt :: Authctxt where
  "demo_authctxt =
     \<lparr>success = False, postponed = False, valid = True, attempt = 0, failures = 0,
      server_caused_failure = False, force_pwchange = 0, user = ''bob'', service = [],
      pw = Some \<lparr>pw_name = ''bob'', pw_uid = 1000\<rparr>, style = None, role = None\<rparr>"

definition demo_ctx :: pam_ctxt where
  "demo_ctx = \<lparr>pam_thread = 77, pam_psock = 3, pam_csock = -1, pam_done = 0\<rparr>"

definition demo_state :: "'w \<Rightarrow> 'w sshd" where
  "demo_state w =
     \<lparr>authctxt = demo_authctxt, loginmsg = [], sshpam_handle = Some 1, sshpam_err = PAM_SUCCESS,
      sshpam_authenticated = False, sshpam_session_open = False, sshpam_cred_established = False,
      sshpam_account_status = -1, sshpam_env = None, sshpam_authctxt = True,
      sshpam_password = None, cleanup_ctxt = Some 0, sshpam_thread_status = -1,
      sshpam_oldsig = SIG_DFL, ctx_mem = [0 \<mapsto> demo_ctx],
      ctx_next = 1, no_port_forwarding_flag = 1, no_agent_forwarding_flag = 0,
      no_x11_forwarding_flag = 0, environ = [''TZ=UTC''], client_user = None,
      dispatch_default = dispatch_protocol_error, dispatch_table = Map.empty, out = [],
      world = w\<rparr>"

lemmas demo_defs =
  demo_env_def demo_state_def demo_options_def demo_build_def demo_authctxt_def demo_ctx_def
  demo_stack_def

lemma demo_memory: "memory_suffices demo_env"
  by (simp add: memory_suffices_def demo_env_def)

lemma demo_contract: "buffer_contract demo_env (\<lambda>b. b)"
  by (simp add: buffer_contract_def demo_env_def)



section \<open>The account check\<close>

lemma password_change_run:
  "sshpam_authctxt s \<Longrightarrow>
   sshpam_password_change_required n s =
     (Inr (), snd (sshpam_password_change_required n s))"
  by (simp add: sshpam_password_change_required_def prog_simps)

lemma password_change_status [simp]:
  "sshpam_account_status (snd (sshpam_password_change_required n s)) = sshpam_account_status s"
  "sshpam_handle (snd (sshpam_password_change_required n s)) = sshpam_handle s"
  "sshpam_err (snd (sshpam_password_change_required n s)) = sshpam_err s"
  "sshpam_env (snd (sshpam_password_change_required n s)) = sshpam_env s"
  "sshpam_authctxt (snd (sshpam_password_change_required n s)) = sshpam_authctxt s"
  "ctx_mem (snd (sshpam_password_change_required n s)) = ctx_mem s"
  "world (snd (sshpam_password_change_required n s)) = world s"
  by (simp_all add: sshpam_password_change_required_def prog_simps)

lemma do_pam_account_cached:
  "sshpam_account_status s \<noteq> -1 \<Longrightarrow>
   do_pam_account E s = (Inr (word_of_int (sshpam_account_status s)), s)"
  by (simp add: do_pam_account_def prog_simps)

lemma do_pam_account_decided:
  assumes "do_pam_account E s = (Inr r, t)"
  shows "sshpam_account_status t \<noteq> -1" and "r = word_of_int (sshpam_account_status t)"
proof -
  have "sshpam_account_status t \<noteq> -1 \<and> r = word_of_int (sshpam_account_status t)"
  proof (cases "sshpam_account_status s = -1")
    case False
    with assms show ?thesis by (auto simp: do_pam_account_cached)
  next
    case True
    with assms show ?thesis
      by (auto simp: do_pam_account_def prog_simps split: prod.splits sum.splits if_splits)
  qed
  then show "sshpam_account_status t \<noteq> -1" and "r = word_of_int (sshpam_account_status t)"
    by simp_all
qed

section \<open>Password conversation\<close>

definition passwd_answer :: "string \<Rightarrow> pam_message \<Rightarrow> pam_response option" where
  "passwd_answer p m =
     (if msg_style m = PAM_PROMPT_ECHO_OFF then Some \<lparr>resp = Some (cstr p), resp_retcode = PAM_SUCCESS\<rparr>
      else if msg_style m \<in> {PAM_ERROR_MSG, PAM_TEXT_INFO}
        then Some \<lparr>resp = Some [], resp_retcode = PAM_SUCCESS\<rparr>
      else None)"

definition info_text :: "pam_message \<Rightarrow> string" where
  "info_text m =
     (if msg_style m \<in> {PAM_ERROR_MSG, PAM_TEXT_INFO} \<and> cstr (msg m) \<noteq> []
      then cstr (msg m) @ newline else [])"

lemma strdup_reply_run:
  "memory_suffices E \<Longrightarrow>
   strdup_reply E x s = (Inr (Some (blank_reply\<lparr>resp := Some (cstr x)\<rparr>)),
     s\<lparr>world := snd (alloc_ok E (length (cstr x) + 1) (world s))\<rparr>)"
  by (simp add: strdup_reply_def prog_simps memory_suffices_def)

lemma passwd_msg_run:
  assumes "memory_suffices E" and "sshpam_password s = Some p"
  shows "\<exists>w. passwd_msg E m s =
     (Inr (passwd_answer p m), s\<lparr>loginmsg := loginmsg s @ info_text m, world := w\<rparr>)"
  using assms
  by (intro exI [of _ "world (snd (passwd_msg E m s))"], cases "msg_style m")
     (simp_all add: passwd_msg_def passwd_info_def passwd_answer_def info_text_def
        append_loginmsg_def blank_reply_def prog_simps strdup_reply_run cstr_def)

lemma passwd_loop_run:
  assumes "memory_suffices E"
  shows "sshpam_password s = Some p \<Longrightarrow> \<exists>w. conv_loop (passwd_msg E) ms s =
     (Inr (those (map (passwd_answer p) ms)),
      s\<lparr>loginmsg := loginmsg s @
          concat (map info_text (takeWhile (\<lambda>m. passwd_answer p m \<noteq> None) ms)), world := w\<rparr>)"
proof (induction ms arbitrary: s)
  case Nil
  show ?case by (intro exI [of _ "world s"]) (simp add: prog_simps)
next
  case (Cons m ms)
  obtain w where m: "passwd_msg E m s =
     (Inr (passwd_answer p m), s\<lparr>loginmsg := loginmsg s @ info_text m, world := w\<rparr>)"
    using passwd_msg_run [OF assms Cons.prems] by blast
  show ?case
  proof (cases "passwd_answer p m")
    case None
    then have "info_text m = []" by (auto simp: passwd_answer_def info_text_def split: if_splits)
    with None m show ?thesis
      by (intro exI [of _ w]) (simp add: prog_simps)
  next
    case (Some x)
    let ?s = "s\<lparr>loginmsg := loginmsg s @ info_text m, world := w\<rparr>"
    have "sshpam_password ?s = Some p" using Cons.prems by simp
    from Cons.IH [OF this] obtain w' where
      "conv_loop (passwd_msg E) ms ?s = (Inr (those (map (passwd_answer p) ms)),
         ?s\<lparr>loginmsg := loginmsg ?s @
           concat (map info_text (takeWhile (\<lambda>m. passwd_answer p m \<noteq> None) ms)), world := w'\<rparr>)"
      by blast
    with Some m show ?thesis
      by (intro exI [of _ w']) (simp add: prog_simps)
  qed
qed

text \<open>The password conversation answers every echo-off prompt with the password and every
  information with the empty string, refuses the whole exchange if any message is of another kind,
  and keeps the texts that came before it for the user.\<close>

theorem passwd_conv_answers:
  assumes "memory_suffices E" and "sshpam_password s = Some p"
    and "ms \<noteq> []" and "length ms \<le> PAM_MAX_NUM_MSG E"
  shows "\<exists>w. sshpam_passwd_conv E ms s =
     (Inr (those (map (passwd_answer p) ms)),
      s\<lparr>loginmsg := loginmsg s @
          concat (map info_text (takeWhile (\<lambda>m. passwd_answer p m \<noteq> None) ms)), world := w\<rparr>)"
proof -
  let ?u = "s\<lparr>world := snd (alloc_ok E (length ms) (world s))\<rparr>"
  have "sshpam_passwd_conv E ms s = conv_loop (passwd_msg E) ms ?u"
    using assms by (simp add: sshpam_passwd_conv_def conv_frame_def prog_simps memory_suffices_def)
  moreover have "sshpam_password ?u = Some p" using assms by simp
  from passwd_loop_run [OF assms(1) this, of ms] obtain w where
    "conv_loop (passwd_msg E) ms ?u = (Inr (those (map (passwd_answer p) ms)),
      ?u\<lparr>loginmsg := loginmsg ?u @
          concat (map info_text (takeWhile (\<lambda>m. passwd_answer p m \<noteq> None) ms)), world := w\<rparr>)"
    by blast
  ultimately show ?thesis by (intro exI [of _ w]) simp
qed

theorem passwd_conv_answers_witness:
  "\<exists>w. sshpam_passwd_conv demo_env
      [\<lparr>msg_style = PAM_TEXT_INFO, msg = ''hi''\<rparr>,
       \<lparr>msg_style = PAM_PROMPT_ECHO_OFF, msg = ''Password: ''\<rparr>]
      ((demo_state [])\<lparr>sshpam_password := Some ''pw''\<rparr>) =
     (Inr (Some [\<lparr>resp = Some [], resp_retcode = PAM_SUCCESS\<rparr>,
                \<lparr>resp = Some ''pw'', resp_retcode = PAM_SUCCESS\<rparr>]),
      (demo_state [])\<lparr>sshpam_password := Some ''pw'', loginmsg := ''hi'' @ newline, world := w\<rparr>)"
  using passwd_conv_answers [OF demo_memory,
      of "(demo_state [])\<lparr>sshpam_password := Some ''pw''\<rparr>" "''pw''"
      "[\<lparr>msg_style = PAM_TEXT_INFO, msg = ''hi''\<rparr>,
        \<lparr>msg_style = PAM_PROMPT_ECHO_OFF, msg = ''Password: ''\<rparr>]"]
  by (simp add: passwd_answer_def info_text_def cstr_def demo_defs)

section \<open>Password authentication\<close>

lemma auth_passwd_run:
  assumes "use_pam (options E)" and "sshpam_handle s = Some h"
    and "pam_set_item E (Some h) (PAM_CONV passwd_conv) (world s) = (PAM_SUCCESS, w)"
    and "run_pam E (pam_authenticate E (Some h) (auth_flags E) w)
           (s\<lparr>sshpam_password := Some password, sshpam_authctxt := True,
              sshpam_err := PAM_SUCCESS, world := w\<rparr>) = (r, u)"
  shows "sshpam_auth_passwd E password s = (case r of Inl e \<Rightarrow> (Inl e, u)
     | Inr rc \<Rightarrow> (Inr (if rc = PAM_SUCCESS then 1 else 0),
                  u\<lparr>sshpam_err := rc, sshpam_password := None\<rparr>))"
  using assms
  by (simp add: sshpam_auth_passwd_def prog_simps set_conv_run err_pam_def call_pam_def
        set_err_def split: sum.split)

lemma auth_passwd_Inr:
  assumes "sshpam_auth_passwd E password s = (Inr r, t)"
  obtains rc where "r = (if rc = PAM_SUCCESS then 1 else 0)" and "sshpam_password t = None"
    and "sshpam_err t = rc" and "authctxt t = authctxt s"
proof -
  obtain h where h: "use_pam (options E)" "sshpam_handle s = Some h"
    using assms by (auto simp: sshpam_auth_passwd_def prog_simps split: if_splits)
  obtain rc w where w: "pam_set_item E (Some h) (PAM_CONV passwd_conv) (world s) = (rc, w)"
    by fastforce
  with assms h have [simp]: "rc = PAM_SUCCESS"
    by (auto simp: sshpam_auth_passwd_def prog_simps set_conv_run Let_def split: if_splits)
  let ?s = "s\<lparr>sshpam_password := Some password, sshpam_authctxt := True,
              sshpam_err := PAM_SUCCESS, world := w\<rparr>"
  obtain x u where x: "run_pam E (pam_authenticate E (Some h) (auth_flags E) w) ?s = (x, u)"
    by fastforce
  have same: "authctxt u = authctxt s"
    using conv_same_fields(1) [OF run_pam_same [OF x]] by simp
  show ?thesis
    using assms auth_passwd_run [OF h _ x] w same that
    by (auto split: sum.splits)
qed

text \<open>When \<open>sshpam_auth_passwd\<close> returns, the password is no longer kept in the server, the
  result is 1 exactly when PAM reported success, and the authentication context is unchanged.\<close>

theorem auth_passwd_result:
  assumes "sshpam_auth_passwd E password s = (Inr r, t)"
  shows "sshpam_password t = None \<and> r = (if sshpam_err t = PAM_SUCCESS then 1 else 0) \<and>
     authctxt t = authctxt s"
  using assms by (auto elim!: auth_passwd_Inr)

theorem auth_passwd_result_witness:
  "\<exists>t. sshpam_auth_passwd demo_env ''wrong'' (demo_state []) = (Inr 0, t) \<and>
     sshpam_password t = None \<and> sshpam_err t = PAM_AUTH_ERR \<and> authctxt t = demo_authctxt"
proof -
  let ?t = "(demo_state [])\<lparr>sshpam_err := PAM_AUTH_ERR\<rparr>"
  have run: "sshpam_auth_passwd demo_env ''wrong'' (demo_state []) = (Inr 0, ?t)"
    by (simp add: sshpam_auth_passwd_def set_conv_run err_pam_def call_pam_def set_err_def
        one_secret_def sshpam_passwd_conv_def conv_frame_def passwd_msg_def strdup_reply_def
        blank_reply_def auth_flags_def prog_simps demo_defs cstr_def)
  from auth_passwd_result [OF run] run show ?thesis by (simp add: demo_defs)
qed

lemma one_secret_run:
  assumes "memory_suffices E" and "sshpam_password s = Some p" and "1 \<le> PAM_MAX_NUM_MSG E"
  shows "\<exists>w. run_pam E (one_secret prompt secret (world s)) s =
     (Inr (if cstr p = secret then PAM_SUCCESS else PAM_AUTH_ERR), s\<lparr>world := w\<rparr>)"
proof -
  let ?m = "\<lparr>msg_style = PAM_PROMPT_ECHO_OFF, msg = prompt\<rparr>"
  obtain w where "sshpam_passwd_conv E [?m] s =
      (Inr (Some [\<lparr>resp = Some (cstr p), resp_retcode = PAM_SUCCESS\<rparr>]), s\<lparr>world := w\<rparr>)"
    using passwd_conv_answers [of E s p "[?m]"] assms
    by (auto simp: passwd_answer_def info_text_def)
  then show ?thesis
    by (intro exI [of _ w]) (simp add: one_secret_def prog_simps)
qed

text \<open>C8: With a PAM stack that prompts for the password and accepts one secret, the verdict
  depends on the password alone, read as a C string up to its first NUL: the code looks neither at whether the user exists (\<open>valid\<close>) nor
  at whether a root login is permitted.\<close>

theorem auth_passwd_checks_secret:
  assumes "use_pam (options E)" and "sshpam_handle s = Some h"
    and "memory_suffices E" and "1 \<le> PAM_MAX_NUM_MSG E"
    and "\<And>w. fst (pam_set_item E (Some h) (PAM_CONV passwd_conv) w) = PAM_SUCCESS"
    and "\<And>w. pam_authenticate E (Some h) (auth_flags E) w = one_secret prompt secret w"
  shows "\<exists>t. sshpam_auth_passwd E password s = (Inr (if cstr password = secret then 1 else 0), t) \<and>
     sshpam_password t = None \<and> authctxt t = authctxt s"
proof -
  obtain w where w: "pam_set_item E (Some h) (PAM_CONV passwd_conv) (world s) = (PAM_SUCCESS, w)"
    using assms(5) [of "world s"] by (metis prod.collapse)
  let ?u = "s\<lparr>sshpam_password := Some password, sshpam_authctxt := True,
              sshpam_err := PAM_SUCCESS, world := w\<rparr>"
  obtain w' where "run_pam E (pam_authenticate E (Some h) (auth_flags E) w) ?u =
     (Inr (if cstr password = secret then PAM_SUCCESS else PAM_AUTH_ERR), ?u\<lparr>world := w'\<rparr>)"
    using one_secret_run [OF assms(3) _ assms(4), of ?u password] assms(6) by fastforce
  from auth_passwd_run [OF assms(1,2) w this] show ?thesis by simp
qed



theorem auth_passwd_checks_secret_witness:
  "\<exists>t. sshpam_auth_passwd demo_env ''s3cret'' ((demo_state [])
        \<lparr>authctxt := demo_authctxt\<lparr>valid := False, user := ''nobody-here''\<rparr>\<rparr>) = (Inr 1, t)"
  using auth_passwd_checks_secret [of demo_env "(demo_state [])
        \<lparr>authctxt := demo_authctxt\<lparr>valid := False, user := ''nobody-here''\<rparr>\<rparr>" 1
        "''Password: ''" "''s3cret''" "''s3cret''"] demo_memory
  by (auto simp: demo_defs cstr_def)

lemma bit_two: "bit (2 :: u32) n \<longleftrightarrow> n = Suc 0"
  using bit_2_iff [where ?'a = u32, of n] by auto

lemma set_bit1: "bit (x OR 2 :: u32) n \<longleftrightarrow> n = Suc 0 \<or> bit x n"
  by (auto simp only: bit_or_iff bit_two)

lemma clear_bit1: "n < 32 \<Longrightarrow> bit (x AND NOT 2 :: u32) n \<longleftrightarrow> n \<noteq> Suc 0 \<and> bit x n"
  by (auto simp only: bit_and_iff bit_not_iff bit_two possible_bit_word) simp

text \<open>A required password change switches bit 1 of the three forwarding flags on, an obsolete
  one switches it off, and no other bit of them changes.\<close>

theorem password_change_flags:
  assumes "sshpam_authctxt s"
  shows "\<exists>t. sshpam_password_change_required reqd s = (Inr (), t) \<and>
     force_pwchange (authctxt t) = reqd \<and>
     (\<forall>n < 32. bit (no_port_forwarding_flag t) n =
            (if n = 1 then reqd \<noteq> 0 else bit (no_port_forwarding_flag s) n) \<and>
          bit (no_agent_forwarding_flag t) n =
            (if n = 1 then reqd \<noteq> 0 else bit (no_agent_forwarding_flag s) n) \<and>
          bit (no_x11_forwarding_flag t) n =
            (if n = 1 then reqd \<noteq> 0 else bit (no_x11_forwarding_flag s) n))"
  using assms
  by (auto simp: sshpam_password_change_required_def prog_simps set_bit1 clear_bit1 [simplified])

theorem password_change_flags_witness:
  "\<exists>t. sshpam_password_change_required 1 (demo_state []) = (Inr (), t) \<and>
     bit (no_port_forwarding_flag t) 1 \<and> bit (no_port_forwarding_flag t) 0"
  using password_change_flags [of "demo_state []" 1] by (auto simp: demo_defs)

section \<open>The environment of the PAM process\<close>

lemma contract_int:
  "buffer_contract E items \<Longrightarrow> items b = BInt n # xs \<Longrightarrow>
   \<exists>b'. buffer_get_int E b = Some (n, b') \<and> items b' = xs"
  by (simp add: buffer_contract_def)

lemma contract_string:
  "buffer_contract E items \<Longrightarrow> items b = BStr x # xs \<Longrightarrow>
   \<exists>b'. buffer_get_string E b = Some (x, b') \<and> items b' = xs"
  by (simp add: buffer_contract_def)

lemma items_fold_strings:
  assumes "buffer_contract E items"
  shows "items (fold (buffer_put_cstring E) xs b) = items b @ map BStr xs"
  using assms by (induction xs arbitrary: b) (simp_all add: buffer_contract_def)

lemma items_put_strings:
  assumes "buffer_contract E items"
  shows "items (put_strings E xs b) = items b @ BInt (word_of_nat (length xs)) # map BStr xs"
  using assms by (simp add: put_strings_def items_fold_strings) (simp add: buffer_contract_def)

lemma items_export:
  assumes "buffer_contract E items"
  shows "items (export_buffer E status reqd env pamenv) =
     [BStr ''OK'', BInt (word_of_int status), BInt reqd] @
     BInt (word_of_nat (length env)) # map BStr env @
     BInt (word_of_nat (length pamenv)) # map BStr pamenv"
  using assms by (simp add: export_buffer_def items_put_strings) (simp add: buffer_contract_def)

lemma get_strings_run:
  assumes "buffer_contract E items"
  shows "items b = map BStr xs @ ys \<Longrightarrow>
    \<exists>b'. (\<forall>s. get_strings E (length xs) b s = (Inr (xs, b'), s)) \<and> items b' = ys"
proof (induction xs arbitrary: b)
  case Nil
  then show ?case by (simp add: prog_simps)
next
  case (Cons x xs)
  obtain b1 where b1: "buffer_get_string E b = Some (x, b1)" "items b1 = map BStr xs @ ys"
    using contract_string [OF assms] Cons.prems by (metis append_Cons list.simps(9))
  from Cons.IH [OF b1(2)] obtain b2 where
    "\<And>s. get_strings E (length xs) b1 s = (Inr (xs, b2), s)" "items b2 = ys" by blast
  with b1 show ?case by (simp add: prog_simps from_buffer_def)
qed

lemma put_pam_env_run:
  assumes "buffer_contract E items"
  shows "items b = map BStr xs @ ys \<Longrightarrow>
    \<exists>b'. put_pam_env E (length xs) b s =
      (Inr b', s\<lparr>world := fold (\<lambda>e w. snd (pam_putenv E (sshpam_handle s) e w)) xs (world s)\<rparr>)"
proof (induction xs arbitrary: b s)
  case Nil
  then show ?case by (simp add: prog_simps)
next
  case (Cons x xs)
  obtain b1 where b1: "buffer_get_string E b = Some (x, b1)" "items b1 = map BStr xs @ ys"
    using contract_string [OF assms] Cons.prems by (metis append_Cons list.simps(9))
  from Cons.IH [OF b1(2), of "s\<lparr>world := snd (pam_putenv E (sshpam_handle s) x (world s))\<rparr>"]
  show ?case using b1 by (auto simp add: prog_simps from_buffer_def)
qed

lemma sint_word_of_int_32:
  "- (2 ^ 31) \<le> i \<Longrightarrow> i < 2 ^ 31 \<Longrightarrow> sint (word_of_int i :: u32) = i"
  by (simp add: sint_sbintrunc' signed_take_bit_int_eq_self)

lemma import_run:
  assumes contract: "buffer_contract E items" and ac: "sshpam_authctxt s"
    and i: "items b = BInt (word_of_int status) # BInt reqd # BInt (word_of_nat (length env)) #
        map BStr env @ BInt (word_of_nat (length pamenv)) # map BStr pamenv"
    and "length env \<le> 1024" and "length pamenv < 2 ^ 32"
    and "- (2 ^ 31) \<le> status" and "status < 2 ^ 31"
  shows "\<exists>t. import_environments E b s = (Inr (), t) \<and> sshpam_account_status t = status \<and>
     force_pwchange (authctxt t) = reqd \<and> sshpam_env t = Some env \<and>
     world t = fold (\<lambda>e w. snd (pam_putenv E (sshpam_handle s) e w)) pamenv (world s)"
proof -
  obtain b1 where b1: "buffer_get_int E b = Some (word_of_int status, b1)"
    and i1: "items b1 = BInt reqd # BInt (word_of_nat (length env)) #
       map BStr env @ BInt (word_of_nat (length pamenv)) # map BStr pamenv"
    using contract_int [OF contract i] by blast
  obtain b2 where b2: "buffer_get_int E b1 = Some (reqd, b2)"
    and i2: "items b2 = BInt (word_of_nat (length env)) #
       map BStr env @ BInt (word_of_nat (length pamenv)) # map BStr pamenv"
    using contract_int [OF contract i1] by blast
  obtain b3 where b3: "buffer_get_int E b2 = Some (word_of_nat (length env), b3)"
    and i3: "items b3 = map BStr env @ BInt (word_of_nat (length pamenv)) # map BStr pamenv"
    using contract_int [OF contract i2] by blast
  have n: "unat (word_of_nat (length env) :: u32) = length env"
    "\<not> (1024 < (word_of_nat (length env) :: u32))"
    using assms(4) by (simp_all add: unat_of_nat word_less_nat_alt)
  have m: "unat (word_of_nat (length pamenv) :: u32) = length pamenv"
    using assms(5) by (simp add: unat_of_nat)
  obtain b4 where b4: "\<And>s. get_strings E (length env) b3 s = (Inr (env, b4), s)"
    and i4: "items b4 = BInt (word_of_nat (length pamenv)) # map BStr pamenv @ []"
    using get_strings_run [OF contract i3] by auto
  obtain b5 where b5: "buffer_get_int E b4 = Some (word_of_nat (length pamenv), b5)"
    and i5: "items b5 = map BStr pamenv @ []"
    using contract_int [OF contract i4] by blast
  let ?s1 = "s\<lparr>sshpam_account_status := status\<rparr>"
  obtain t where t: "sshpam_password_change_required reqd ?s1 = (Inr (), t)"
    and tf: "force_pwchange (authctxt t) = reqd" "sshpam_account_status t = status"
      "sshpam_handle t = sshpam_handle s" "world t = world s"
    using ac by (simp add: sshpam_password_change_required_def prog_simps)
  obtain b6 where b6: "put_pam_env E (length pamenv) b5 (t\<lparr>sshpam_env := Some env\<rparr>) =
      (Inr b6, t\<lparr>sshpam_env := Some env,
         world := fold (\<lambda>e w. snd (pam_putenv E (sshpam_handle s) e w)) pamenv (world s)\<rparr>)"
    using put_pam_env_run [OF contract i5, of "t\<lparr>sshpam_env := Some env\<rparr>"] tf by auto
  have "import_environments E b s = (Inr (), t\<lparr>sshpam_env := Some env,
         world := fold (\<lambda>e w. snd (pam_putenv E (sshpam_handle s) e w)) pamenv (world s)\<rparr>)"
    using n m b6
    by (simp add: import_environments_def prog_simps from_buffer_def b1 b2 b3 b4 b5 t
          sint_word_of_int_32 [OF assms(6,7)])
  with tf show ?thesis by simp
qed

text \<open>C7: What the PAM process exports after a success is what the server imports: the account
  status, the pending password change, the environment in order, and every string of the PAM
  environment handed to \<open>pam_putenv\<close> in order.\<close>

theorem environment_roundtrip:
  assumes contract: "buffer_contract E items" and ac: "sshpam_authctxt s"
    and "length env \<le> 1024" and "length pamenv < 2 ^ 32"
    and "- (2 ^ 31) \<le> status" and "status < 2 ^ 31"
  shows "\<exists>b t. buffer_get_string E (export_buffer E status reqd env pamenv) = Some (''OK'', b) \<and>
     import_environments E b s = (Inr (), t) \<and> sshpam_account_status t = status \<and>
     force_pwchange (authctxt t) = reqd \<and> sshpam_env t = Some env \<and>
     world t = fold (\<lambda>e w. snd (pam_putenv E (sshpam_handle s) e w)) pamenv (world s)"
proof -
  obtain b where b: "buffer_get_string E (export_buffer E status reqd env pamenv) = Some (''OK'', b)"
    and i: "items b = BInt (word_of_int status) # BInt reqd # BInt (word_of_nat (length env)) #
       map BStr env @ BInt (word_of_nat (length pamenv)) # map BStr pamenv"
    using contract_string [OF contract, of "export_buffer E status reqd env pamenv"]
    by (auto simp: items_export [OF contract])
  with import_run [OF contract ac i assms(3-6)] show ?thesis by blast
qed



theorem environment_roundtrip_witness:
  "\<exists>b t. buffer_get_string demo_env (export_buffer demo_env 1 0 [''A=1'', ''B=2''] [''K=V'']) =
       Some (''OK'', b) \<and>
     import_environments demo_env b (demo_state []) = (Inr (), t) \<and>
     sshpam_account_status t = 1 \<and> sshpam_env t = Some [''A=1'', ''B=2'']"
  using environment_roundtrip [OF demo_contract, of "demo_state []" "[''A=1'', ''B=2'']"
      "[''K=V'']" 1 0]
  by (auto simp: demo_defs)

section \<open>Collecting the prompt\<close>

primrec delivers ::
  "('w, 'b) pam_env \<Rightarrow> int \<Rightarrow> 'w \<Rightarrow> (wire \<times> string) list \<Rightarrow> 'w \<Rightarrow> bool" where
  "delivers E fd w [] w' \<longleftrightarrow> w' = w"
| "delivers E fd w (x # xs) w' \<longleftrightarrow>
     (\<exists>b b1 b2 w1. ssh_msg_recv E fd w = (Some b, w1) \<and>
        buffer_get_char E b = Some (fst x, b1) \<and>
        buffer_get_string E b1 = Some (snd x, b2) \<and> delivers E fd w1 xs w')"

lemma cstr_prompt_append:
  "length q = plen \<Longrightarrow> prompt_append plen m (if plen = 0 then None else Some q) = q @ cstr m"
  by (auto simp: prompt_append_def strlcpy_at_def Let_def)

lemma prompt_append_None: "prompt_append 0 m None = cstr m"
  by (simp add: prompt_append_def strlcpy_at_def Let_def)

lemma prompt_append_Some: "prompt_append (length q) m (Some q) = q @ cstr m"
  by (simp add: prompt_append_def strlcpy_at_def Let_def)

lemma cstr_newline: "cstr newline = newline"
  by (simp add: cstr_def newline_def)

lemma info_append_None: "info_append 0 m None = cstr m @ newline"
  by (simp add: info_append_def strlcpy_at_def strlcat_at_def Let_def cstr_newline)
     (simp add: newline_def)

lemma info_append_Some: "info_append (length q) m (Some q) = q @ cstr m @ newline"
  by (simp add: info_append_def strlcpy_at_def strlcat_at_def Let_def cstr_newline)
     (simp add: newline_def)

definition so_far :: "string option \<Rightarrow> string" where
  "so_far prompts = (case prompts of None \<Rightarrow> [] | Some p \<Rightarrow> p)"

lemma prompt_append_so_far: "prompt_append (length (so_far p)) m p = so_far p @ cstr m"
  by (cases p) (simp_all add: so_far_def prompt_append_None prompt_append_Some)

lemma info_append_so_far: "info_append (length (so_far p)) m p = so_far p @ cstr m @ newline"
  by (cases p) (simp_all add: so_far_def info_append_None info_append_Some)

lemma query_loop_prompt:
  assumes "st = PAM_PROMPT_ECHO_ON \<or> st = PAM_PROMPT_ECHO_OFF"
  shows "ctx_mem s a = Some ctx \<Longrightarrow>
    delivers E (pam_psock ctx) (world s) (infos @ [(WStyle st, p)]) w' \<Longrightarrow>
    \<forall>x \<in> set infos. fst x = WStyle PAM_ERROR_MSG \<or> fst x = WStyle PAM_TEXT_INFO \<Longrightarrow>
    length infos < fuel \<Longrightarrow>
    query_loop fuel E a (length (so_far q)) q s =
      (Inr (0, \<lparr>q_info = [], q_num = Some 1,
         q_prompts = Some (so_far q @ concat (map (\<lambda>x. cstr (snd x) @ newline) infos) @ cstr p),
         q_echo_on = Some (st = PAM_PROMPT_ECHO_ON)\<rparr>), s\<lparr>world := w'\<rparr>)"
proof (induction infos arbitrary: s q fuel)
  case Nil
  then obtain n where "fuel = Suc n" by (cases fuel) auto
  with Nil assms show ?case
    by (auto simp: prog_simps the_ctx_def from_buffer_def query_init_def prompt_append_so_far)
next
  case (Cons x infos)
  obtain n where n: "fuel = Suc n" "length infos < n" using Cons.prems(4) by (cases fuel) auto
  obtain b b1 b2 w1 where
    b: "ssh_msg_recv E (pam_psock ctx) (world s) = (Some b, w1)"
    "buffer_get_char E b = Some (fst x, b1)" "buffer_get_string E b1 = Some (snd x, b2)"
    and d: "delivers E (pam_psock ctx) w1 (infos @ [(WStyle st, p)]) w'"
    using Cons.prems(2) by auto
  let ?s = "s\<lparr>world := w1\<rparr>"
  let ?q = "Some (so_far q @ cstr (snd x) @ newline)"
  have len: "length (so_far q) + length (cstr (snd x)) + 1 = length (so_far ?q)"
    by (simp add: so_far_def newline_def)
  have "query_loop n E a (length (so_far ?q)) ?q ?s =
      (Inr (0, \<lparr>q_info = [], q_num = Some 1,
         q_prompts = Some (so_far ?q @ concat (map (\<lambda>x. cstr (snd x) @ newline) infos) @ cstr p),
         q_echo_on = Some (st = PAM_PROMPT_ECHO_ON)\<rparr>), ?s\<lparr>world := w'\<rparr>)"
    by (rule Cons.IH) (use Cons.prems d n in auto)
  moreover have "query_loop fuel E a (length (so_far q)) q s =
      query_loop n E a (length (so_far ?q)) ?q ?s"
    using Cons.prems(1,3) b n(1) len
    by (auto simp: prog_simps the_ctx_def from_buffer_def info_append_so_far)
  ultimately show ?case by (simp add: so_far_def)
qed

text \<open>C9: When the PAM process sends informational messages and then a prompt, \<open>sshpam_query\<close>
  returns one prompt: every message on a line of its own, then the prompt, nothing cut off by the
  bounded copies, and the echo mode of the prompt. It returns after that many messages.\<close>

theorem query_collects_prompt:
  assumes "ctx_mem s a = Some ctx"
    and "delivers E (pam_psock ctx) (world s) (infos @ [(WStyle st, p)]) w'"
    and "\<forall>x \<in> set infos. fst x = WStyle PAM_ERROR_MSG \<or> fst x = WStyle PAM_TEXT_INFO"
    and "st = PAM_PROMPT_ECHO_ON \<or> st = PAM_PROMPT_ECHO_OFF"
    and "length infos < fuel"
  shows "sshpam_query fuel E a s =
      (Inr (0, \<lparr>q_info = [], q_num = Some 1,
         q_prompts = Some (concat (map (\<lambda>x. cstr (snd x) @ newline) infos) @ cstr p),
         q_echo_on = Some (st = PAM_PROMPT_ECHO_ON)\<rparr>), s\<lparr>world := w'\<rparr>)"
  using query_loop_prompt [OF assms(4,1,2,3,5), of None]
  by (simp add: sshpam_query_def so_far_def)

theorem query_collects_prompt_witness:
  "sshpam_query 5 demo_env 0 (demo_state
      [[BChr (WStyle PAM_TEXT_INFO), BStr ''hello''],
       [BChr (WStyle PAM_PROMPT_ECHO_OFF), BStr ''OTP: '']]) =
   (Inr (0, \<lparr>q_info = [], q_num = Some 1, q_prompts = Some (''hello'' @ newline @ ''OTP: ''),
       q_echo_on = Some False\<rparr>), demo_state [])"
  using query_collects_prompt [of "demo_state
      [[BChr (WStyle PAM_TEXT_INFO), BStr ''hello''],
       [BChr (WStyle PAM_PROMPT_ECHO_OFF), BStr ''OTP: '']]"
      0 demo_ctx demo_env
      "[(WStyle PAM_TEXT_INFO, ''hello'')]" PAM_PROMPT_ECHO_OFF "''OTP: ''" "[]" 5]
  by (simp add: demo_defs cstr_def)

section \<open>Success needs a permitted account\<close>

text \<open>What must hold for the device to report success for a context.\<close>

definition root_ok :: "('w, 'b) pam_env \<Rightarrow> 'w sshd \<Rightarrow> bool" where
  "root_ok E s \<longleftrightarrow> (\<exists>p. sshpam_authctxt s \<and> pw (authctxt s) = Some p \<and>
     (pw_uid p \<noteq> 0 \<or> permit_root_login (options E) = PERMIT_YES))"

definition done_needs :: "('w, 'b) pam_env \<Rightarrow> bool \<Rightarrow> nat \<Rightarrow> 'w sshd \<Rightarrow> bool" where
  "done_needs E ok a s \<longleftrightarrow>
     (\<exists>c. ctx_mem s a = Some c \<and> (pam_done c = 1 \<longrightarrow> ok)) \<and> (root_ok E s \<longrightarrow> ok)"

lemma done_needs_keeps [keeps_rules]:
  "keeps (done_needs E ok a) (ext f)"
  "keeps (done_needs E ok a) (append_loginmsg x)"
  "keeps (done_needs E ok a) (modify (\<lambda>s. s\<lparr>sshpam_account_status := i\<rparr>))"
  "keeps (done_needs E ok a) (modify (\<lambda>s. s\<lparr>sshpam_env := e\<rparr>))"
  "keeps (done_needs E ok a) (from_buffer r)"
  "keeps (done_needs E ok a) (the_ctx b)"
  "keeps (done_needs E ok a) (upd_ctx a (\<lambda>c. c\<lparr>pam_done := -1\<rparr>))"
  "keeps (done_needs E ok a) (sshpam_password_change_required n)"
  by (auto simp: keeps_iff done_needs_def root_ok_def append_loginmsg_def from_buffer_def
      the_ctx_def upd_ctx_def sshpam_password_change_required_def prog_simps split: option.splits)

lemma done_needs_strings [keeps_rules]:
  "keeps (done_needs E ok a) (get_strings E n b)"
  "keeps (done_needs E ok a) (put_pam_env E n b)"
  by (induction n arbitrary: b) (auto intro!: keeps_rules)

lemma done_needs_import [keeps_rules]: "keeps (done_needs E ok a) (import_environments E b)"
  unfolding import_environments_def by (intro keeps_rules)

lemma done_needs_success [keeps_rules]: "keeps (done_needs E ok a) (query_success E a b)"
proof (rule keepsI)
  fix s
  assume I: "done_needs E ok a s"
  obtain x u where x: "import_environments E b s = (x, u)" by fastforce
  have "done_needs E ok a u" by (rule keepsD [OF done_needs_import I x])
  with I x show "done_needs E ok a (snd (query_success E a b s))"
    by (auto simp: query_success_def prog_simps upd_ctx_def done_needs_def root_ok_def
          split: option.splits sum.splits)
qed

lemma done_needs_failed [keeps_rules]:
  "keeps (done_needs E ok a) (query_failed a p)"
  "keeps (done_needs E ok a) (query_auth_err E a p)"
  by (auto simp: query_failed_def query_auth_err_def drain_prompts_def intro!: keeps_rules
        split: option.splits list.splits)

lemma done_needs_loop: "keeps (done_needs E ok a) (query_loop fuel E a plen p)"
proof (induction fuel arbitrary: plen p)
  case 0
  show ?case by (simp add: keeps_stop)
next
  case (Suc fuel)
  show ?case
    unfolding query_loop.simps drain_prompts_def by (intro keeps_rules Suc)
qed

text \<open>C10: The device reports a context as authenticated only for an account that exists and,
  if it is root, only when root login is fully permitted.\<close>

theorem query_success_needs_permission:
  assumes "ctx_mem s a = Some c" and "pam_done c \<noteq> 1"
    and "sshpam_query fuel E a s = (r, t)"
    and "ctx_mem t a = Some c'" and "pam_done c' = 1"
  shows "\<exists>p. pw (authctxt s) = Some p \<and>
     (pw_uid p \<noteq> 0 \<or> permit_root_login (options E) = PERMIT_YES)"
proof -
  have "done_needs E (root_ok E s) a s"
    using assms(1,2) by (simp add: done_needs_def)
  then have "done_needs E (root_ok E s) a t"
    using assms(3) keepsD [OF done_needs_loop] unfolding sshpam_query_def by blast
  with assms(4,5) show ?thesis by (auto simp: done_needs_def root_ok_def)
qed

theorem query_success_needs_permission_witness:
  "\<exists>p. pw demo_authctxt = Some p \<and>
     (pw_uid p \<noteq> 0 \<or> permit_root_login demo_options = PERMIT_YES)"
proof -
  let ?w = "[[BChr (WRc PAM_SUCCESS), BStr ''OK'', BInt 1, BInt 0, BInt 0, BInt 0]]"
  obtain r t where run: "sshpam_query 1 demo_env 0 (demo_state ?w) = (r, t)" by fastforce
  then have "ctx_mem t 0 = Some (demo_ctx\<lparr>pam_done := 1\<rparr>)"
    by (auto simp: sshpam_query_def query_success_def import_environments_def drain_prompts_def
        sshpam_password_change_required_def the_ctx_def upd_ctx_def from_buffer_def prog_simps
        demo_defs)
  from query_success_needs_permission [OF _ _ run this]
  show ?thesis by (simp add: demo_defs)
qed

section \<open>Ending the handle\<close>

text \<open>After \<open>sshpam_cleanup\<close> (with no privilege separation) there is no handle, no open
  session and no established credentials, and a second cleanup does nothing.\<close>

theorem cleanup_ends_handle:
  assumes "sshpam_cleanup E s = (Inr (), t)" and "\<not> use_privsep E"
    and "sshpam_handle s = None \<longrightarrow> \<not> sshpam_session_open s \<and> \<not> sshpam_cred_established s"
  shows "sshpam_handle t = None \<and> \<not> sshpam_session_open t \<and>
     \<not> sshpam_cred_established t \<and> sshpam_cleanup E t = (Inr (), t)"
proof -
  have ended: "sshpam_handle t = None \<and> \<not> sshpam_session_open t \<and> \<not> sshpam_cred_established t"
    using assms
    by (auto simp: sshpam_cleanup_def prog_simps split: prod.splits sum.splits if_splits
          elim!: call_pamE)
  then show ?thesis
    by (simp add: sshpam_cleanup_def prog_simps)
qed



theorem cleanup_ends_handle_witness:
  "\<exists>t. sshpam_cleanup demo_env ((demo_state [])\<lparr>sshpam_session_open := True\<rparr>) = (Inr (), t) \<and>
     \<not> sshpam_session_open t"
proof -
  let ?s = "(demo_state [])\<lparr>sshpam_session_open := True\<rparr>"
  obtain t where run: "sshpam_cleanup demo_env ?s = (Inr (), t)"
    by (simp add: sshpam_cleanup_def call_pam_def prog_simps demo_defs)
  have "\<not> sshpam_session_open t"
    using cleanup_ends_handle [OF run] by (simp add: demo_defs)
  with run show ?thesis by blast
qed

section \<open>Contexts: allocated, started, released\<close>

lemma pthread_create_parent:
  assumes "ctx_mem s a = Some ctx" and "pthread_create E th a s = (Inr r, t)"
  shows "(r = -1 \<and> ctx_mem t = ctx_mem s) \<or>
     (r = 0 \<and> (\<exists>pid. pid \<noteq> 0 \<and> pid \<noteq> -1 \<and>
        ctx_mem t = (ctx_mem s)(a \<mapsto> ctx\<lparr>pam_thread := pid, pam_csock := -1\<rparr>)))"
    and "cleanup_ctxt t = cleanup_ctxt s"
  using assms
  by (auto simp: pthread_create_def prog_simps the_ctx_def upd_ctx_def
        split: prod.splits sum.splits if_splits)

lemma pthread_create_child:
  assumes "fst (fork E (world s)) = 0"
  shows "\<exists>e t. pthread_create E th a s = (Inl e, t)"
  using assms
  by (auto simp: pthread_create_def prog_simps the_ctx_def upd_ctx_def
        split: prod.splits sum.splits option.splits)

definition same_ctxs :: "'w sshd \<Rightarrow> 'w sshd \<Rightarrow> bool" where
  "same_ctxs s t \<longleftrightarrow> ctx_mem t = ctx_mem s \<and> ctx_next t = ctx_next s \<and>
     cleanup_ctxt t = cleanup_ctxt s \<and> sshpam_account_status t = sshpam_account_status s"

lemma same_ctxs_rules [keeps_rules]:
  "keeps (same_ctxs s) (ext f)"
  "keeps (same_ctxs s) (err_ext g)"
  "keeps (same_ctxs s) (set_err rc)"
  "keeps (same_ctxs s) (drop_handle E)"
  by (auto simp: keeps_iff same_ctxs_def set_err_def drop_handle_def prog_simps)

lemma same_ctxs_init: "keeps (same_ctxs s) (sshpam_init E)"
  unfolding sshpam_init_def sshpam_init_fresh_def set_item_or_drop_def
  by (intro keeps_rules) (simp_all add: same_ctxs_def)

text \<open>C12: \<open>sshpam_init_ctx\<close> refuses when PAM is off or the account was refused; when it fails it
  leaves no context behind; when it succeeds, in the server process, the new context has a running
  PAM process, the child end of the socket closed, and is registered for cleanup.\<close>

theorem init_ctx_outcome:
  assumes "sshpam_init_ctx E s = (Inr r, t)" and "ctx_mem s (ctx_next s) = None"
  shows "case r of
      None \<Rightarrow> ctx_mem t = ctx_mem s \<and> cleanup_ctxt t = cleanup_ctxt s
    | Some a \<Rightarrow> use_pam (options E) \<and> sshpam_account_status s \<noteq> 0 \<and> cleanup_ctxt t = Some a \<and>
        (\<exists>ctx. ctx_mem t = (ctx_mem s)(a \<mapsto> ctx) \<and> a = ctx_next s \<and> pam_done ctx = 0 \<and>
           pam_csock ctx = -1 \<and> pam_thread ctx \<noteq> 0 \<and> pam_thread ctx \<noteq> -1)"
proof (cases "\<not> use_pam (options E) \<or> sshpam_account_status s = 0")
  case True
  with assms show ?thesis by (auto simp: sshpam_init_ctx_def prog_simps)
next
  case False
  obtain x u where x: "sshpam_init E s = (x, u)" by fastforce
  have "same_ctxs s s" by (simp add: same_ctxs_def)
  then have u: "same_ctxs s u" by (rule keepsD [OF same_ctxs_init _ x])
  let ?a = "ctx_next s"
  obtain y where y: "x = Inr y"
    using assms False x by (cases x) (auto simp: sshpam_init_ctx_def prog_simps)
  show ?thesis
  proof (cases "y = -1 \<or> fst (socketpair E (world u)) = None")
    case True
    with assms False x y u show ?thesis
      by (auto simp: sshpam_init_ctx_def prog_simps alloc_ctx_def free_ctx_def same_ctxs_def
            split: if_splits)
  next
    case sock: False
    then obtain s0 s1 w where w: "socketpair E (world u) = (Some (s0, s1), w)"
      by (cases "socketpair E (world u)") auto
    let ?c = "\<lparr>pam_thread = 0, pam_psock = s0, pam_csock = s1, pam_done = 0\<rparr>"
    let ?w = "u\<lparr>ctx_next := Suc ?a, world := w, ctx_mem := (ctx_mem s)(?a \<mapsto> ?c)\<rparr>"
    obtain p v where p: "pthread_create E (sshpam_thread E ?a) ?a ?w = (p, v)" by fastforce
    have run: "sshpam_init_ctx E s = (case p of Inl e \<Rightarrow> (Inl e, v)
       | Inr pc \<Rightarrow> if pc = -1 then
           (thenDo (ext (close_fd E s0)) (thenDo (ext (close_fd E s1))
             (thenDo (free_ctx ?a) (ret None)))) v
         else (Inr (Some ?a), v\<lparr>cleanup_ctxt := Some ?a\<rparr>))"
      using False x y sock w u p
      by (auto simp: sshpam_init_ctx_def prog_simps alloc_ctx_def upd_ctx_def same_ctxs_def
            split: sum.split)
    have c: "ctx_mem ?w ?a = Some ?c" by simp
    obtain pc where pc: "p = Inr pc" using run assms(1) by (cases p) auto
    note par = pthread_create_parent [OF c p [unfolded pc]]
    show ?thesis
    proof (cases "pc = -1")
      case True
      with assms run pc par u show ?thesis
        by (auto simp: prog_simps free_ctx_def same_ctxs_def)
    next
      case started: False
      with par obtain pid where "pid \<noteq> 0" "pid \<noteq> -1"
        "ctx_mem v = (ctx_mem ?w)(?a \<mapsto> ?c\<lparr>pam_thread := pid, pam_csock := -1\<rparr>)" by blast
      with started assms(1) run pc False show ?thesis
        by (auto intro!: exI [of _ "?c\<lparr>pam_thread := pid, pam_csock := -1\<rparr>"])
    qed
  qed
qed

theorem init_ctx_outcome_witness:
  "\<exists>t. sshpam_init_ctx demo_env (demo_state []) = (Inr (Some 1), t) \<and> cleanup_ctxt t = Some 1"
proof -
  obtain t where run: "sshpam_init_ctx demo_env (demo_state []) = (Inr (Some 1), t)"
    by (simp add: sshpam_init_ctx_def sshpam_init_def alloc_ctx_def pthread_create_def the_ctx_def
        upd_ctx_def set_err_def prog_simps demo_defs)
  from init_ctx_outcome [OF run] run show ?thesis by (simp add: demo_defs)
qed

text \<open>Freeing the registered context of a running PAM process unregisters it, frees exactly
  that context, and makes a further cleanup a no-op.\<close>

theorem free_ctx_releases:
  assumes "cleanup_ctxt s = Some a" and "ctx_mem s a = Some ctx" and "pam_thread ctx \<noteq> 0"
  shows "\<exists>t. sshpam_free_ctx E a s = (Inr (), t) \<and> cleanup_ctxt t = None \<and>
     ctx_mem t = (ctx_mem s)(a := None) \<and> sshpam_thread_cleanup E t = (Inr (), t)"
  using assms
  by (auto simp: sshpam_free_ctx_def sshpam_thread_cleanup_def pthread_cancel_def pthread_join_def
        the_ctx_def upd_ctx_def free_ctx_def prog_simps fun_upd_def split: prod.splits)

theorem free_ctx_releases_witness:
  "\<exists>t. sshpam_free_ctx demo_env 0 (demo_state []) = (Inr (), t) \<and> ctx_mem t 0 = None"
  using free_ctx_releases [of "demo_state []" 0 demo_ctx demo_env]
  by (auto simp: demo_defs)

section \<open>The PAM process\<close>

lemma account_allowed:
  assumes "do_pam_account E s = (Inr r, t)" and "r \<noteq> 0" and "sshpam_err s = PAM_SUCCESS"
  shows "sshpam_err t = PAM_SUCCESS \<or>
      (sshpam_err t = PAM_NEW_AUTHTOK_REQD \<and> force_pwchange (authctxt t) = 1)"
    and "sshpam_account_status t \<noteq> -1" and "r = word_of_int (sshpam_account_status t)"
proof -
  show "sshpam_err t = PAM_SUCCESS \<or>
      (sshpam_err t = PAM_NEW_AUTHTOK_REQD \<and> force_pwchange (authctxt t) = 1)"
    using assms
    by (auto simp: do_pam_account_def prog_simps err_pam_Inr sshpam_password_change_required_def
          split: prod.splits sum.splits if_splits elim!: call_pamE)
qed (use assms(1) in \<open>auto dest: do_pam_account_decided\<close>)

text \<open>In the PAM process, after an authentication that succeeded, the account stage lets the
  success through only with an accepted account, no password change left open, and the return code
  that will be sent still being success.\<close>

theorem thread_account_accepts:
  assumes "thread_account E h s = (Inr True, t)" and "sshpam_err s = PAM_SUCCESS"
    and "compat20 E"
  shows "sshpam_err t = PAM_SUCCESS \<and> force_pwchange (authctxt t) = 0 \<and>
     word_of_int (sshpam_account_status t) \<noteq> (0 :: u32)"
proof -
  obtain r u where r: "do_pam_account E s = (Inr r, u)" and "r \<noteq> 0"
    using assms(1,3) by (auto simp: thread_account_def andThen_Inr thenDo_Inr ret_run split: if_splits)
  note acc = account_allowed [OF r this(2) assms(2)]
  show ?thesis
  proof (cases "force_pwchange (authctxt u) = 0")
    case True
    with assms(1,3) r acc \<open>r \<noteq> 0\<close> show ?thesis
      by (auto simp: thread_account_def prog_simps)
  next
    case False
    with assms(1,3) r acc \<open>r \<noteq> 0\<close> show ?thesis
      by (auto simp: thread_account_def prog_simps err_pam_Inr sshpam_password_change_required_def
            split: prod.splits sum.splits if_splits elim!: call_pamE)
  qed
qed

theorem thread_account_accepts_witness:
  "\<exists>t. thread_account demo_env (Some 1) (demo_state []) = (Inr True, t) \<and>
     sshpam_err t = PAM_SUCCESS"
proof -
  obtain t where run: "thread_account demo_env (Some 1) (demo_state []) = (Inr True, t)"
    by (simp add: thread_account_def do_pam_account_def err_pam_def call_pam_def set_err_def
        prog_simps demo_defs)
  from thread_account_accepts [OF run] run show ?thesis by (simp add: demo_defs)
qed

text \<open>If PAM cannot name its user, \<open>sshpam_thread\<close> jumps to \<open>auth_fail\<close> before \<open>buffer_init\<close>
  and writes the error text to an uninitialised buffer.\<close>

theorem thread_unset_buffer:
  assumes "ctx_mem s a = Some ctx"
    and "fst (fst (pam_get_user E (sshpam_handle s) (world s))) \<noteq> PAM_SUCCESS"
  shows "fst (sshpam_thread E a s) = Inl (Undefined ''buffer used before buffer_init'')"
  using assms
  by (auto simp: sshpam_thread_def the_ctx_def set_err_def thread_auth_fail_def prog_simps
        split: prod.splits)


theorem thread_unset_buffer_witness:
  "fst (sshpam_thread demo_env 0 ((demo_state [])\<lparr>sshpam_handle := None\<rparr>)) =
     Inl (Undefined ''buffer used before buffer_init'')"
  using thread_unset_buffer [of "(demo_state [])\<lparr>sshpam_handle := None\<rparr>" 0 demo_ctx demo_env]
  by (simp add: demo_defs)

end
