(* ===== verification/SshAuth1Props.thy ===== *)
theory SshAuth1Props
  imports SshAuthFrame SshPamProps
begin

text \<open>
  What the protocol 1 loop guarantees: a bound on the attempts a client gets, what must have
  happened when the loop returns, that it returns or disconnects after that many packets, the
  text sent with a refusal, the parts of the user name, and who is considered a valid user. The
  demo environment runs the loop on concrete packets with \<open>sshpam_auth_passwd\<close> as the password
  method.
\<close>

section \<open>A concrete environment\<close>

definition demo_read :: "buf_item list list \<Rightarrow> (exit_reason + msgtype) \<times> buf_item list list" where
  "demo_read w = (case w of
      [BInt n] # r \<Rightarrow>
        (Inr (if n = 4 then SSH_CMSG_USER else if n = 9 then SSH_CMSG_AUTH_PASSWORD
              else SSH_MSG_other (uint n)), r)
    | _ \<Rightarrow> (Inl (Disconnect ''connection closed''), w))"

definition demo_string :: "buf_item list list \<Rightarrow> (exit_reason + string) \<times> buf_item list list" where
  "demo_string w = (case w of [BStr x] # r \<Rightarrow> (Inr x, r) | _ \<Rightarrow> (Inl (Fatal ''bad packet''), w))"

definition demo_auth :: "(buf_item list list, buf_item list) auth_env" where
  "demo_auth =
     \<lparr>pam = demo_env, mm_do_pam_account = (\<lambda>l w. ((1, l), w)), mm_start_pam = (\<lambda>w. ((), w)),
      getpwnamallow = (\<lambda>u w. (if u = ''bob'' then Some \<lparr>pw_name = u, pw_uid = 1000\<rparr> else None, w)),
      fakepw = \<lparr>pw_name = ''NOUSER'', pw_uid = - 1\<rparr>, getuid = 0,
      auth_root_allowed = (\<lambda>m. False), AUTH_FAIL_MSG = (\<lambda>u. ''Too many authentication failures for '' @ u),
      msg_number = (\<lambda>t. case t of SSH_MSG_other i \<Rightarrow> i | _ \<Rightarrow> 0),
      auth_password = (\<lambda>p. sshpam_auth_passwd demo_env p),
      auth_rsa = (\<lambda>n. ret 0), auth_rhosts_rsa = (\<lambda>u k. ret 0), get_challenge = ret None,
      verify_response = (\<lambda>r. ret 0), abandon_challenge_response = ret (),
      packet_read = demo_read,
      packet_read_expect = (\<lambda>t w. case demo_read w of (Inr t', r) \<Rightarrow>
         if t' = t then (Inr (), r) else (Inl (Disconnect ''unexpected packet''), r) | (Inl e, r) \<Rightarrow> (Inl e, r)),
      packet_get_string = demo_string, packet_get_cstring = demo_string,
      packet_get_int = (\<lambda>w. (Inr 0, w)), packet_get_bignum = (\<lambda>w. (Inr 0, w)),
      packet_check_eom = (\<lambda>w. (Inr (), w))\<rparr>"

lemma demo_outside_ok: "outside_ok demo_auth"
  by (simp add: outside_ok_def demo_auth_def keeps_auth_sshpam_auth_passwd)
     (simp add: keeps_auth_iff ret_run)

section \<open>One turn of the loop\<close>

text \<open>
  What a method, the root rule and the account check together must have said for a turn to end
  with a success logged in state \<open>u\<close>.
\<close>

definition admits ::
  "('w, 'b) auth_env \<Rightarrow> msgtype \<Rightarrow> string \<Rightarrow> 'w sshd \<Rightarrow> bool" where
  "admits A ty info u \<longleftrightarrow>
     (\<exists>m v w r. lookup_authmethod1 ty = Some m \<and> am_enabled m (opts A) \<and>
        am_method m A [] v = (Inr (r, info), w) \<and> r \<noteq> 0 \<and> r \<noteq> -1 \<and> valid (authctxt w) \<and>
        (\<exists>p. pw (authctxt w) = Some p \<and> (pw_uid p = 0 \<longrightarrow> auth_root_allowed A (am_name m))) \<and>
        (if use_pam (opts A) then \<exists>a. privsep_pam_account A w = (Inr a, u) \<and> a \<noteq> 0 else u = w))"

lemma audit_same: "audit A ev s = (r, t) \<Longrightarrow> auth_same s t"
  by (auto simp: audit_def prog_simps auth_same_emit split: if_splits)

lemma check_valid_run:
  "check_valid r s = (x, t) \<Longrightarrow> t = s \<and> (x = Inr () \<longrightarrow> valid (authctxt s) \<or> r = 0)"
  by (auto simp: check_valid_def prog_simps split: if_splits)

lemma check_root_same: "check_root A m r s = (x, t) \<Longrightarrow> auth_same s t"
  by (auto simp: check_root_def audit_def prog_simps auth_same_emit
        split: if_splits option.splits)

lemma check_root_nonzero:
  "check_root A m r s = (Inr r', t) \<Longrightarrow> r' \<noteq> 0 \<Longrightarrow>
   r' = r \<and> t = s \<and> (\<exists>p. pw (authctxt s) = Some p \<and> (pw_uid p = 0 \<longrightarrow> auth_root_allowed A m))"
  by (auto simp: check_root_def audit_def prog_simps split: if_splits option.splits)

lemma check_account1_same: "check_account1 A r s = (x, t) \<Longrightarrow> auth_same s t"
  by (auto simp: check_account1_def prog_simps split: if_splits prod.splits sum.splits
        dest: keeps_authD [OF keeps_auth_account])

lemma check_account1_nonzero:
  "check_account1 A r s = (Inr (), t) \<Longrightarrow> r \<noteq> 0 \<Longrightarrow>
   (if use_pam (opts A) then \<exists>a. privsep_pam_account A s = (Inr a, t) \<and> a \<noteq> 0 else t = s)"
  by (auto simp: check_account1_def prog_simps split: if_splits prod.splits sum.splits)

text \<open>
  Every turn either leaves the frame alone and does not return from the function, or ends in the
  common tail, with a success only when it was \<open>admits\<close>-justified.
\<close>

definition turn_tail ::
  "('w, 'b) auth_env \<Rightarrow> 'w sshd \<Rightarrow> exit_reason + msgtype \<times> bool \<Rightarrow> 'w sshd \<Rightarrow> bool" where
  "turn_tail A s x t \<longleftrightarrow>
     (\<exists>u ty r info y. auth_same s u \<and> authloop_skip A ty r info u = (y, t) \<and>
        x = map_sum id (Pair ty) y \<and> (r \<noteq> 0 \<longrightarrow> admits A ty info u))"

lemma turn_tailI:
  assumes "andThen (authloop_skip A ty r info) (\<lambda>d. ret (ty, d)) u = (x, t)"
    and "auth_same s u" and "r \<noteq> 0 \<Longrightarrow> admits A ty info u"
  shows "turn_tail A s x t"
proof -
  obtain y t' where y: "authloop_skip A ty r info u = (y, t')" by fastforce
  with assms(1) have "t' = t" "x = map_sum id (Pair ty) y"
    by (cases y; simp add: prog_simps)+
  with y assms show ?thesis
    unfolding turn_tail_def by blast
qed

definition postpones :: "('w, 'b) auth_env \<Rightarrow> bool" where
  "postpones A \<longleftrightarrow>
     (\<exists>m v info w. m \<in> set auth1_methods \<and> am_enabled m (opts A) \<and>
        am_method m A [] v = (Inr (-1, info), w))"

text \<open>The other way to end a turn: an exit, or a method that postponed.\<close>

definition turn_open ::
  "('w, 'b) auth_env \<Rightarrow> 'w sshd \<Rightarrow> exit_reason + msgtype \<times> bool \<Rightarrow> 'w sshd \<Rightarrow> bool" where
  "turn_open A s x t \<longleftrightarrow>
     auth_same s t \<and> ((\<exists>e. x = Inl e) \<or> (\<exists>ty. x = Inr (ty, False) \<and> postpones A))"

lemma method_turn:
  assumes ok: "outside_ok A" and m: "lookup_authmethod1 ty = Some m"
    and en: "am_enabled m (opts A)"
    and run: "andThen (am_method m A []) (\<lambda>(r, info).
            if r = -1 then ret (ty, False)
            else
              thenDo (check_valid r)
              (andThen (check_root A (am_name m) r) (\<lambda>r'.
               thenDo (check_account1 A r')
                 (andThen (authloop_skip A ty r' info) (\<lambda>d. ret (ty, d)))))) s = (x, t)"
  shows "turn_open A s x t \<or> turn_tail A s x t"
proof -
  obtain y w where y: "am_method m A [] s = (y, w)" by fastforce
  have sw: "auth_same s w"
    using keeps_authD [OF keeps_auth_method1 [OF ok lookup_authmethod1_cases(1) [OF m]] y] .
  show ?thesis
  proof (cases "\<exists>e. y = Inl e \<or> (\<exists>info. y = Inr (-1, info))")
    case True
    with y en lookup_authmethod1_cases(1) [OF m]
    have "(\<exists>e. y = Inl e) \<or> (\<exists>info. y = Inr (-1, info)) \<and> postpones A"
      unfolding postpones_def by blast
    with run y sw show ?thesis by (auto simp: prog_simps turn_open_def)
  next
    case False
    then obtain r info where yr: "y = Inr (r, info)" and r1: "r \<noteq> -1"
      by (cases y) auto
    obtain cv w0 where cv: "check_valid r w = (cv, w0)" by fastforce
    note cv' = check_valid_run [OF cv]
    obtain z w1 where z: "check_root A (am_name m) r w = (z, w1)" by fastforce
    have w1: "auth_same s w1"
      by (rule auth_same_trans [OF sw check_root_same [OF z]])
    show ?thesis
    proof (cases cv)
      case (Inl e)
      with run y yr r1 cv cv' sw show ?thesis by (auto simp: prog_simps turn_open_def)
    next
      case cvI: (Inr u0)
      show ?thesis
      proof (cases z)
        case (Inl e)
        with run y yr r1 cv cv' cvI z w1 show ?thesis by (auto simp: prog_simps turn_open_def)
      next
        case zI: (Inr r')
        obtain a w2 where a: "check_account1 A r' w1 = (a, w2)" by fastforce
        have w2: "auth_same s w2"
          by (rule auth_same_trans [OF w1 check_account1_same [OF a]])
        show ?thesis
        proof (cases a)
          case (Inl e)
          with run y yr r1 cv cv' cvI z zI a w2 show ?thesis by (auto simp: prog_simps turn_open_def)
        next
          case aI: (Inr u1)
          have "admits A ty info w2" if nz: "r' \<noteq> 0"
          proof -
            from check_root_nonzero [OF z [unfolded zI] nz]
            have 1: "r' = r" "w1 = w"
              "\<exists>p. pw (authctxt w) = Some p \<and> (pw_uid p = 0 \<longrightarrow> auth_root_allowed A (am_name m))"
              by simp_all
            have 2: "valid (authctxt w)" using cv' cvI nz 1 by simp
            have 3: "if use_pam (opts A) then \<exists>b. privsep_pam_account A w = (Inr b, w2) \<and> b \<noteq> 0
                else w2 = w"
              using check_account1_nonzero [OF _ nz, of A w1 w2] a aI 1 by (auto split: if_splits)
            from m en y yr r1 nz 1 2 3 show ?thesis
              unfolding admits_def by blast
          qed
          moreover have "andThen (authloop_skip A ty r' info) (\<lambda>d. ret (ty, d)) w2 = (x, t)"
            using run y yr r1 cv cv' cvI z zI a aI by (simp add: prog_simps)
          ultimately show ?thesis using w2 turn_tailI by blast
        qed
      qed
    qed
  qed
qed

lemma authloop_turn:
  fixes A :: "('a, 'b) auth_env"
  assumes ok: "outside_ok A" and run: "authloop_iter A prev s = (x, t)"
  shows "turn_open A s x t \<or> turn_tail A s x t"
proof -
  obtain y s1 where y: "extx (packet_read A) s = (y, s1)" by fastforce
  have s1: "auth_same s s1"
    using y by (auto simp: prog_simps)
  show ?thesis
  proof (cases y)
    case (Inl e)
    with run y s1 show ?thesis by (auto simp: authloop_iter_def andThen_run turn_open_def)
  next
    case yI: (Inr ty)
    let ?ab = "when_p (prev = SSH_CMSG_AUTH_TIS \<and> ty \<noteq> SSH_CMSG_AUTH_TIS_RESPONSE)
       (abandon_challenge_response A)"
    obtain z s2 where z: "?ab s1 = (z, s2)" by fastforce
    have "keeps (auth_same s) ?ab"
      using ok by (intro keeps_rules keeps_auth_keeps) (simp add: outside_ok_def)
    from keepsD [OF this s1 z] have s2: "auth_same s s2" .
    show ?thesis
    proof (cases z)
      case (Inl e)
      with run y yI z s2 show ?thesis by (auto simp: authloop_iter_def andThen_run thenDo_run turn_open_def)
    next
      case zI: (Inr u)
      note run' = run [unfolded authloop_iter_def andThen_run [of "extx (packet_read A)"] y yI,
          simplified thenDo_run z zI prod.case sum.case andThen_run [of "gets _"] gets_run Let_def]
      show ?thesis
      proof (cases "failures (authctxt s2) \<ge> max_authtries (opts A) \<or>
          (case lookup_authmethod1 ty :: ('a, 'b) AuthMethod1 option of
             None \<Rightarrow> True | Some m \<Rightarrow> \<not> am_enabled m (opts A))")
        case True
        with run' have "andThen (authloop_skip A ty 0 []) (\<lambda>d. ret (ty, d)) s2 = (x, t)"
          by (auto split: option.splits if_splits)
        with s2 turn_tailI show ?thesis by blast
      next
        case False
        then obtain m :: "('a, 'b) AuthMethod1"
          where m: "lookup_authmethod1 ty = Some m" "am_enabled m (opts A)"
          by (auto split: option.splits)
        from method_turn [OF ok m, of s2 x t] run' False m
        have "turn_open A s2 x t \<or> turn_tail A s2 x t"
          by simp
        with s2 show ?thesis
          unfolding turn_tail_def turn_open_def using auth_same_trans by blast
      qed
    qed
  qed
qed

section \<open>The bound on attempts\<close>

lemma skip_success:
  "r \<noteq> 0 \<Longrightarrow> authloop_skip A ty r info s =
     (Inr True, s\<lparr>out := out s @ [auth_log True (get_authname A ty) info], client_user := None\<rparr>)"
  by (simp add: authloop_skip_def prog_simps)

lemma skip_failure:
  assumes "authloop_skip A ty 0 info s = (y, t)"
  shows "failed_logs t = failed_logs s + 1" and "failures (authctxt t) = failures (authctxt s) + 1"
    and "y = Inr False \<and> failures (authctxt t) < max_authtries (opts A) \<or>
         y = Inl (Disconnect (AUTH_FAIL_MSG A (user (authctxt s)))) \<and>
         max_authtries (opts A) \<le> failures (authctxt t)"
  using assms
  by (auto simp: authloop_skip_def audit_def send_simple_def prog_simps failed_logs_def
        verdicts_def split: if_splits)

text \<open>Failures counted and failures logged go together, and stay below the limit.\<close>

definition in_budget :: "('w, 'b) auth_env \<Rightarrow> 'w sshd \<Rightarrow> 'w sshd \<Rightarrow> bool" where
  "in_budget A s t \<longleftrightarrow>
     failed_logs t - failed_logs s = failures (authctxt t) - failures (authctxt s) \<and>
     (failures (authctxt t) = failures (authctxt s) \<or> failures (authctxt t) < max_authtries (opts A))"

definition at_budget :: "('w, 'b) auth_env \<Rightarrow> 'w sshd \<Rightarrow> 'w sshd \<Rightarrow> bool" where
  "at_budget A s t \<longleftrightarrow>
     failed_logs t - failed_logs s = failures (authctxt t) - failures (authctxt s) \<and>
     failures (authctxt t) - failures (authctxt s) \<le>
       max 1 (max_authtries (opts A) - failures (authctxt s))"

lemma in_budget_at: "in_budget A s t \<Longrightarrow> at_budget A s t"
  by (auto simp: in_budget_def at_budget_def)

lemma in_budget_same: "in_budget A s t \<Longrightarrow> auth_same t u \<Longrightarrow> in_budget A s u"
  by (simp add: in_budget_def auth_same_failed) (simp add: auth_same_def)

lemma in_budget_logged:
  assumes "in_budget A s t"
  shows "in_budget A s (t\<lparr>out := out t @ [auth_log True m i]\<rparr>)"
    and "in_budget A s (t\<lparr>out := out t @ [auth_log True m i], client_user := c\<rparr>)"
  using assms by (simp_all add: in_budget_def failed_logs_def verdicts_def)

lemma iter_budget:
  assumes ok: "outside_ok A"
  shows "triple (in_budget A s) (authloop_iter A prev) (\<lambda>_. in_budget A s) (\<lambda>_. at_budget A s)"
proof (rule tripleI)
  have run: "if (\<exists>e. x = Inl e) then at_budget A s u else in_budget A s u"
    if P: "in_budget A s t" and "authloop_iter A prev t = (x, u)" for x t u
    using authloop_turn [OF ok that(2)]
  proof
    assume "turn_open A t x u"
    with P have "in_budget A s u" unfolding turn_open_def using in_budget_same by blast
    then show ?thesis by (simp add: in_budget_at)
  next
    assume "turn_tail A t x u"
    then obtain v ty r info y where v: "auth_same t v" and y: "authloop_skip A ty r info v = (y, u)"
      and x: "x = map_sum id (Pair ty) y" unfolding turn_tail_def by blast
    have bv: "in_budget A s v" using P v by (rule in_budget_same)
    show ?thesis
    proof (cases "r = 0")
      case False
      with y have "u = v\<lparr>out := out v @ [auth_log True (get_authname A ty) info], client_user := None\<rparr>"
        by (simp add: skip_success)
      with in_budget_logged [OF bv] show ?thesis by (simp add: in_budget_at)
    next
      case True
      note f = skip_failure [OF y [unfolded True]]
      from f bv x show ?thesis by (auto simp: in_budget_def at_budget_def)
    qed
  qed
  show "at_budget A s u" if "in_budget A s t" "authloop_iter A prev t = (Inl e, u)" for t e u
    using run [OF that] by simp
  show "in_budget A s u" if "in_budget A s t" "authloop_iter A prev t = (Inr a, u)" for t a u
    using run [OF that] by simp
qed

lemma loop_budget:
  assumes ok: "outside_ok A"
  shows "triple (in_budget A s) (authloop fuel A prev) (\<lambda>_. in_budget A s) (\<lambda>_. at_budget A s)"
proof (induction fuel arbitrary: prev)
  case 0
  then show ?case by (simp add: triple_ret)
next
  case (Suc fuel)
  show ?case
    unfolding authloop.simps
    by (rule triple_andThen [OF iter_budget [OF ok]]) (auto intro: triple_ret Suc)
qed

lemma keeps_auth_password: "outside_ok A \<Longrightarrow> keeps (auth_same s0) (auth_password A p)"
  by (simp add: outside_ok_def keeps_auth_keeps)

lemma precheck_same:
  assumes "outside_ok A" and "authloop_precheck A s = (x, t)"
  shows "(x \<noteq> Inr True \<and> auth_same s t) \<or>
    (\<exists>u. auth_same s u \<and> x = Inr True \<and>
       t = u\<lparr>out := out u @ [auth_log True ''without authentication'' []]\<rparr> \<and> use_pam (opts A) \<and>
       permit_empty_passwd (opts A) \<and> password_authentication (opts A) \<and>
       (\<exists>r v a. auth_password A [] s = (Inr r, v) \<and> r \<noteq> 0 \<and>
          privsep_pam_account A v = (Inr a, u) \<and> a \<noteq> 0))"
proof (cases "permit_empty_passwd (opts A) \<and> password_authentication (opts A) \<and>
         (KRB5 (build_flags (pam A)) \<longrightarrow>
            \<not> kerberos_authentication (opts A) \<or> kerberos_or_local_passwd (opts A))")
  case False
  with assms show ?thesis by (auto simp: authloop_precheck_def prog_simps)
next
  case True
  obtain y u where y: "auth_password A [] s = (y, u)" by fastforce
  have u: "auth_same s u"
    by (rule keepsD [OF keeps_auth_password [OF assms(1)] _ y]) simp
  obtain z v where z: "privsep_pam_account A u = (z, v)" by fastforce
  have v: "auth_same s v"
    by (rule auth_same_trans [OF u keeps_authD [OF keeps_auth_account z]])
  from assms(2) True y z u v show ?thesis
    by (auto simp: authloop_precheck_def prog_simps split: sum.splits if_splits)
qed

text \<open>C5: However a run of the loop ends (admission, disconnection, an exit of the packet layer, or
  still waiting), it has logged exactly as many failed attempts as it has counted, and that is at
  most the client's remaining allowance \<open>max_authtries - failures\<close> (or one, where none is left).\<close>

theorem auth1_attempts_bounded:
  assumes "outside_ok A" and "do_authloop fuel A s = (r, t)"
  shows "failed_logs t - failed_logs s = failures (authctxt t) - failures (authctxt s) \<and>
    failures (authctxt t) - failures (authctxt s) \<le>
      max 1 (max_authtries (opts A) - failures (authctxt s))"
proof -
  obtain x u where x: "authloop_precheck A s = (x, u)" by fastforce
  have b0: "in_budget A s s" by (simp add: in_budget_def)
  have bu: "in_budget A s u"
    using precheck_same [OF assms(1) x] in_budget_same [OF b0]
    by (elim disjE conjE exE) (simp_all add: in_budget_logged)
  let ?v = "u\<lparr>out := out u @ [packet_start SSH_SMSG_FAILURE, packet_send, packet_write_wait]\<rparr>"
  have bv: "in_budget A s ?v"
    using bu by (simp add: in_budget_def failed_logs_def verdicts_def)
  obtain y w where y: "authloop fuel A (SSH_MSG_other 0) ?v = (y, w)" by fastforce
  note loop = loop_budget [OF assms(1), of s fuel "SSH_MSG_other 0"]
  have "at_budget A s w"
    using tripleD_Inl [OF loop bv] tripleD_Inr [OF loop bv, THEN in_budget_at] y by (cases y) auto
  with assms(2) x y bu show ?thesis
    by (auto simp: do_authloop_def send_simple_def prog_simps at_budget_def [symmetric]
          in_budget_at split: sum.splits if_splits)
qed

definition demo_three :: "buf_item list list" where
  "demo_three = [[BInt 9], [BStr ''x''], [BInt 2], [BInt 9], [BStr ''y''], [BInt 9]]"

theorem auth1_attempts_bounded_witness:
  "do_authloop 5 demo_auth (demo_state demo_three) =
     (Inl (Disconnect ''Too many authentication failures for bob''),
      snd (do_authloop 5 demo_auth (demo_state demo_three))) \<and>
   failed_logs (snd (do_authloop 5 demo_auth (demo_state demo_three))) \<le> 3"
proof -
  let ?s = "demo_state demo_three"
  have r: "fst (do_authloop 5 demo_auth ?s) =
      Inl (Disconnect ''Too many authentication failures for bob'')" by code_simp
  have 0: "failed_logs ?s = 0" "failures (authctxt ?s) = 0" "max_authtries (opts demo_auth) = 3"
    by (simp_all add: failed_logs_def verdicts_def demo_defs demo_auth_def)
  have "failed_logs (snd (do_authloop 5 demo_auth ?s)) \<le> 3"
    using auth1_attempts_bounded [OF demo_outside_ok prod.collapse [symmetric], of 5 ?s] 0 by simp
  with r show ?thesis by (simp add: prod_eq_iff)
qed

section \<open>What admission means\<close>

lemma loop_admits:
  assumes ok: "outside_ok A"
  shows "authloop fuel A prev s = (Inr True, t) \<Longrightarrow>
    \<exists>ty info u. admits A ty info u \<and>
      t = u\<lparr>out := out u @ [auth_log True (get_authname A ty) info], client_user := None\<rparr>"
proof (induction fuel arbitrary: prev s)
  case 0
  then show ?case by (simp add: ret_run)
next
  case (Suc fuel)
  then obtain ty d u where iter: "authloop_iter A prev s = (Inr (ty, d), u)"
    and rest: "(if d then ret True else authloop fuel A ty) u = (Inr True, t)"
    by (auto simp: andThen_Inr)
  show ?case
  proof (cases d)
    case False
    with rest Suc.IH show ?thesis by simp
  next
    case True
    with rest have tu: "t = u" by (simp add: ret_run)
    from authloop_turn [OF ok iter] True have "turn_tail A s (Inr (ty, True)) u"
      by (auto simp: turn_open_def)
    then obtain v ty' r info y where y: "authloop_skip A ty' r info v = (y, u)"
      and x: "Inr (ty, True) = map_sum id (Pair ty') y" and adm: "r \<noteq> 0 \<longrightarrow> admits A ty' info v"
      unfolding turn_tail_def by blast
    from x have yT: "y = Inr True" by (cases y) auto
    have "r \<noteq> 0"
    proof
      assume "r = 0"
      with y yT skip_failure(3) [of A ty' info v y u] show False by simp
    qed
    with y adm tu skip_success [of r A ty' info v] show ?thesis by auto
  qed
qed

lemma admits_admission:
  fixes A :: "('w, 'b) auth_env"
  assumes "admits A ty info u"
  shows "\<exists>(m :: ('w, 'b) AuthMethod1) v w r. m \<in> set auth1_methods \<and> am_enabled m (opts A) \<and>
      get_authname A ty = am_name m \<and> valid (authctxt u) \<and>
      (\<exists>p. pw (authctxt u) = Some p \<and> (pw_uid p = 0 \<longrightarrow> auth_root_allowed A (am_name m))) \<and>
      am_method m A [] v = (Inr (r, info), w) \<and> r \<noteq> 0 \<and> r \<noteq> -1 \<and>
      (use_pam (opts A) \<longrightarrow> (\<exists>a. privsep_pam_account A w = (Inr a, u) \<and> a \<noteq> 0))"
    and "use_pam (opts A) \<longrightarrow> (\<exists>a v. privsep_pam_account A v = (Inr a, u) \<and> a \<noteq> 0)"
proof -
  from assms obtain m :: "('w, 'b) AuthMethod1" and z w r where
    m: "lookup_authmethod1 ty = Some m" "am_enabled m (opts A)" and v: "valid (authctxt w)"
    and r: "am_method m A [] z = (Inr (r, info), w)" "r \<noteq> 0" "r \<noteq> -1"
    and p: "\<exists>p. pw (authctxt w) = Some p \<and> (pw_uid p = 0 \<longrightarrow> auth_root_allowed A (am_name m))"
    and a: "if use_pam (opts A) then \<exists>a. privsep_pam_account A w = (Inr a, u) \<and> a \<noteq> 0 else u = w"
    unfolding admits_def by blast
  have "auth_same w u"
    using a keeps_authD [OF keeps_auth_account] by (auto split: if_splits)
  then have same: "valid (authctxt u)" "pw (authctxt u) = pw (authctxt w)"
    using v by (simp_all add: auth_same_def)
  have "get_authname A ty = am_name m"
    by (simp add: get_authname_def m)
  with m p same r lookup_authmethod1_cases(1) [OF m(1)] a
  show "\<exists>(m :: ('w, 'b) AuthMethod1) v w r. m \<in> set auth1_methods \<and> am_enabled m (opts A) \<and>
      get_authname A ty = am_name m \<and> valid (authctxt u) \<and>
      (\<exists>p. pw (authctxt u) = Some p \<and> (pw_uid p = 0 \<longrightarrow> auth_root_allowed A (am_name m))) \<and>
      am_method m A [] v = (Inr (r, info), w) \<and> r \<noteq> 0 \<and> r \<noteq> -1 \<and>
      (use_pam (opts A) \<longrightarrow> (\<exists>a. privsep_pam_account A w = (Inr a, u) \<and> a \<noteq> 0))"
    by (intro exI [of _ m] exI [of _ z] exI [of _ w] exI [of _ r]) auto
  show "use_pam (opts A) \<longrightarrow> (\<exists>a v. privsep_pam_account A v = (Inr a, u) \<and> a \<noteq> 0)"
    using a by (cases "use_pam (opts A)") (simp_all, blast)
qed

lemma account_accepted:
  assumes "privsep_pam_account A v = (Inr a, u)" and "a \<noteq> 0" and "\<not> use_privsep (pam A)"
  shows "sshpam_account_status u \<noteq> -1" and "(word_of_int (sshpam_account_status u) :: u32) \<noteq> 0"
  using assms do_pam_account_decided [of "pam A" v a u] by (auto simp: privsep_pam_account_def)

text \<open>C4: When the authentication loop returns, its last output is the log entry of a success, in one
  of two cases. Either the options permit empty passwords and password authentication, the server
  uses PAM, and \<open>auth_password\<close> accepted the empty password. Or a method of the table that is
  enabled returned a success that is not postponed, and the user is valid and not root unless root
  may use that method. In both cases, if the server uses PAM, the account check that followed
  directly accepted (it is asked of the monitor under privilege separation), and without privilege
  separation the cached verdict is an acceptance.\<close>

theorem auth1_admission:
  fixes A :: "('w, 'b) auth_env"
  assumes "outside_ok A" and "do_authloop fuel A s = (Inr True, t)"
  shows "(\<exists>name info v w. last (out t) = auth_log True name info \<and>
      (name = ''without authentication'' \<and> use_pam (opts A) \<and> permit_empty_passwd (opts A) \<and>
         password_authentication (opts A) \<and> (\<exists>r. auth_password A [] v = (Inr r, w) \<and> r \<noteq> 0) \<or>
       (\<exists>(m :: ('w, 'b) AuthMethod1) r. m \<in> set auth1_methods \<and> name = am_name m \<and>
          am_enabled m (opts A) \<and> am_method m A [] v = (Inr (r, info), w) \<and> r \<noteq> 0 \<and> r \<noteq> -1 \<and>
          valid (authctxt t) \<and>
          (\<exists>p. pw (authctxt t) = Some p \<and> (pw_uid p = 0 \<longrightarrow> auth_root_allowed A name)))) \<and>
      (use_pam (opts A) \<longrightarrow> (\<exists>a z. privsep_pam_account A w = (Inr a, z) \<and> a \<noteq> 0))) \<and>
    (use_pam (opts A) \<and> \<not> use_privsep (pam A) \<longrightarrow>
      sshpam_account_status t \<noteq> -1 \<and> (word_of_int (sshpam_account_status t) :: u32) \<noteq> 0)"
proof -
  obtain x u where x: "authloop_precheck A s = (x, u)" by fastforce
  from assms(2) x consider "x = Inr True" "t = u"
    | v where "authloop fuel A (SSH_MSG_other 0) v = (Inr True, t)"
    by (auto simp: do_authloop_def send_simple_def prog_simps split: sum.splits if_splits)
  then show ?thesis
  proof cases
    case 1
    with precheck_same [OF assms(1) x] obtain v w a r where
      t: "t = v\<lparr>out := out v @ [auth_log True ''without authentication'' []]\<rparr>"
      and o: "use_pam (opts A)" "permit_empty_passwd (opts A)" "password_authentication (opts A)"
      and r: "auth_password A [] s = (Inr r, w)" "r \<noteq> 0"
      and acc: "privsep_pam_account A w = (Inr a, v)" "a \<noteq> 0" by auto
    have "last (out t) = auth_log True ''without authentication'' []" using t by simp
    with account_accepted [OF acc] t o r acc show ?thesis by fastforce
  next
    case 2
    from loop_admits [OF assms(1) 2] obtain ty info u where adm: "admits A ty info u"
      and t: "t = u\<lparr>out := out u @ [auth_log True (get_authname A ty) info], client_user := None\<rparr>"
      by blast
    have "use_pam (opts A) \<and> \<not> use_privsep (pam A) \<longrightarrow>
        sshpam_account_status u \<noteq> -1 \<and> (word_of_int (sshpam_account_status u) :: u32) \<noteq> 0"
      using admits_admission(2) [OF adm] account_accepted by blast
    moreover have "last (out t) = auth_log True (get_authname A ty) info" "authctxt t = authctxt u"
      using t by simp_all
    ultimately show ?thesis using admits_admission(1) [OF adm] t by fastforce
  qed
qed

definition demo_good :: "buf_item list list" where
  "demo_good = [[BInt 9], [BStr ''x''], [BInt 9], [BStr ''s3cret'']]"

theorem auth1_admission_witness:
  "fst (do_authloop 5 demo_auth (demo_state demo_good)) = Inr True \<and>
   (\<exists>name info. last (out (snd (do_authloop 5 demo_auth (demo_state demo_good)))) =
      auth_log True name info) \<and>
   sshpam_account_status (snd (do_authloop 5 demo_auth (demo_state demo_good))) \<noteq> -1"
proof -
  have r: "fst (do_authloop 5 demo_auth (demo_state demo_good)) = Inr True" by code_simp
  then have "do_authloop 5 demo_auth (demo_state demo_good) =
      (Inr True, snd (do_authloop 5 demo_auth (demo_state demo_good)))"
    by (simp add: prod_eq_iff)
  from auth1_admission [OF demo_outside_ok this] r show ?thesis
    by (auto simp: demo_auth_def demo_env_def demo_options_def)
qed

section \<open>The loop returns\<close>

lemma turn_progress:
  assumes ok: "outside_ok A" and np: "\<not> postpones A"
    and iter: "authloop_iter A prev s = (Inr (ty, False), t)"
  shows "failures (authctxt t) = failures (authctxt s) + 1"
    and "failures (authctxt t) < max_authtries (opts A)"
proof -
  from authloop_turn [OF ok iter] np have "turn_tail A s (Inr (ty, False)) t"
    by (auto simp: turn_open_def)
  then obtain u ty' r info y where su: "auth_same s u"
    and y: "authloop_skip A ty' r info u = (y, t)" and x: "Inr (ty, False) = map_sum id (Pair ty') y"
    unfolding turn_tail_def by blast
  from x have yF: "y = Inr False" by (cases y) auto
  with y skip_success [of r A ty' info u] have "r = 0" by auto
  with skip_failure [of A ty' info u y t] y yF su
  show "failures (authctxt t) = failures (authctxt s) + 1"
    and "failures (authctxt t) < max_authtries (opts A)"
    by (auto simp: auth_same_def)
qed

lemma loop_returns:
  assumes ok: "outside_ok A" and np: "\<not> postpones A"
  shows "max_authtries (opts A) - failures (authctxt s) < int fuel \<Longrightarrow> fuel \<noteq> 0 \<Longrightarrow>
    fst (authloop fuel A prev s) \<noteq> Inr False"
proof (induction fuel arbitrary: prev s)
  case 0
  then show ?case by simp
next
  case (Suc fuel)
  obtain x t where iter: "authloop_iter A prev s = (x, t)" by fastforce
  show ?case
  proof (cases "\<exists>ty. x = Inr (ty, False)")
    case False
    with iter show ?thesis by (auto simp: andThen_run ret_run split: sum.splits)
  next
    case True
    then obtain ty where x: "x = Inr (ty, False)" by blast
    note p = turn_progress [OF ok np iter [unfolded x]]
    from p Suc.prems have "max_authtries (opts A) - failures (authctxt t) < int fuel" "fuel \<noteq> 0"
      by auto
    from Suc.IH [OF this] iter x show ?thesis by (simp add: andThen_run)
  qed
qed

text \<open>A method postpones only where challenge-response is enabled, or an outside method says so.\<close>

lemma not_postpones:
  assumes "\<not> challenge_response_authentication (opts A)"
    and "\<And>p v w. auth_password A p v \<noteq> (Inr (-1), w)"
    and "\<And>n v w. auth_rsa A n v \<noteq> (Inr (-1), w)"
    and "\<And>u k v w. auth_rhosts_rsa A u k v \<noteq> (Inr (-1), w)"
  shows "\<not> postpones A"
proof -
  have "auth1_process_password A [] v \<noteq> (Inr (-1, i), w)"
    "auth1_process_rsa A [] v \<noteq> (Inr (-1, i), w)"
    "auth1_process_rhosts_rsa A [] v \<noteq> (Inr (-1, i), w)" for v w i
    using assms(2-)
    by (auto simp: auth1_process_password_def auth1_process_rsa_def auth1_process_rhosts_rsa_def
          andThen_Inr thenDo_Inr ret_run)
  with assms(1) show ?thesis
    by (auto simp: postpones_def auth1_methods_def)
qed

text \<open>C11: Where challenge-response is disabled and no other method postpones, the loop comes to an
  end (an admission, a disconnection, or an exit of the packet layer) within
  \<open>max_authtries - failures + 1\<close> packets, whatever the client sends: the bound on its iterations
  is never used up.\<close>

theorem auth1_loop_returns:
  assumes "outside_ok A" and "\<not> challenge_response_authentication (opts A)"
    and "\<And>p v w. auth_password A p v \<noteq> (Inr (-1), w)"
    and "\<And>n v w. auth_rsa A n v \<noteq> (Inr (-1), w)"
    and "\<And>u k v w. auth_rhosts_rsa A u k v \<noteq> (Inr (-1), w)"
    and "max_authtries (opts A) - failures (authctxt s) < int fuel" and "fuel \<noteq> 0"
  shows "fst (do_authloop fuel A s) \<noteq> Inr False"
proof -
  note np = not_postpones [OF assms(2-5)]
  obtain x u where x: "authloop_precheck A s = (x, u)" by fastforce
  show ?thesis
  proof (cases "x = Inr False")
    case False
    with x show ?thesis by (cases x) (auto simp: do_authloop_def prog_simps)
  next
    case True
    let ?v = "u\<lparr>out := out u @ [packet_start SSH_SMSG_FAILURE, packet_send, packet_write_wait]\<rparr>"
    from precheck_same [OF assms(1) x] True have "auth_same s u" by auto
    with assms(6) have "max_authtries (opts A) - failures (authctxt ?v) < int fuel"
      by (simp add: auth_same_def)
    from loop_returns [OF assms(1) np this assms(7)] x True show ?thesis
      by (simp add: do_authloop_def send_simple_def prog_simps)
  qed
qed

definition demo_auth_nocr :: "(buf_item list list, buf_item list) auth_env" where
  "demo_auth_nocr = demo_auth\<lparr>pam := demo_env\<lparr>options :=
     demo_options\<lparr>challenge_response_authentication := False\<rparr>\<rparr>\<rparr>"

lemma sshpam_auth_passwd_not_postponed: "sshpam_auth_passwd E p v \<noteq> (Inr (-1), w)"
  by (auto simp: sshpam_auth_passwd_def andThen_Inr thenDo_Inr gets_run ret_run stop_run
        split: if_splits)

theorem auth1_loop_returns_witness:
  "fst (do_authloop 4 demo_auth_nocr (demo_state demo_three)) \<noteq> Inr False"
proof (rule auth1_loop_returns)
  show "outside_ok demo_auth_nocr"
    using demo_outside_ok by (simp add: outside_ok_def demo_auth_nocr_def)
qed (simp_all add: demo_auth_nocr_def demo_auth_def demo_defs sshpam_auth_passwd_not_postponed
      ret_run)

section \<open>The refusal text\<close>

lemma strip_loop_spec:
  "n \<le> length m \<Longrightarrow> strip_loop m n =
     (let k = length (dropWhile (\<lambda>c. c = CHR 0x0A) (rev (take n m)))
      in take k m @ replicate (n - k) (CHR 0x00) @ drop n m)"
proof (induction n arbitrary: m)
  case 0
  then show ?case by simp
next
  case (Suc n)
  then have tk: "take (Suc n) m = take n m @ [m ! n]" by (simp add: take_Suc_conv_app_nth)
  show ?case
  proof (cases "m ! n = CHR 0x0A")
    case False
    with Suc.prems tk id_take_nth_drop [of n m] show ?thesis by (simp add: Let_def min_def)
  next
    case True
    let ?k = "length (dropWhile (\<lambda>c. c = CHR 0x0A) (rev (take n m)))"
    have k: "?k \<le> n"
      using length_dropWhile_le [of "\<lambda>c. c = CHR 0x0A" "rev (take n m)"] Suc.prems by simp
    have "strip_loop m (Suc n) = strip_loop (m[n := CHR 0x00]) n" using True by simp
    also have "\<dots> = take ?k m @ replicate (n - ?k) (CHR 0x00) @ drop n (m[n := CHR 0x00])"
      using Suc k by (simp add: Let_def)
    also have "drop n (m[n := CHR 0x00]) = CHR 0x00 # drop (Suc n) m"
      using Suc.prems by (simp add: drop_update_swap Cons_nth_drop_Suc [symmetric])
    also have "replicate (n - ?k) (CHR 0x00) @ CHR 0x00 # drop (Suc n) m =
        replicate (Suc n - ?k) (CHR 0x00) @ drop (Suc n) m"
      using k by (simp add: Suc_diff_le replicate_append_same [symmetric])
    finally show ?thesis using True tk by (simp add: Let_def)
  qed
qed

text \<open>The text sent when PAM refuses the account is the collected login message without its
  trailing newlines (the in-place loop writes NULs over exactly those), or a fixed text when PAM
  left no message.\<close>

theorem denied_message_strips:
  assumes "CHR 0x00 \<notin> set l"
  shows "denied_message l =
    (if l = [] then ''Access denied.'' else rev (dropWhile (\<lambda>c. c = CHR 0x0A) (rev l)))"
proof (cases "l = []")
  case True
  then show ?thesis by (simp add: denied_message_def)
next
  case False
  let ?d = "dropWhile (\<lambda>c. c = CHR 0x0A) (rev l)"
  have "rev l = takeWhile (\<lambda>c. c = CHR 0x0A) (rev l) @ ?d" by simp
  then have l: "l = rev ?d @ rev (takeWhile (\<lambda>c. c = CHR 0x0A) (rev l))"
    by (metis rev_append rev_rev_ident)
  have tk: "take (length ?d) l = rev ?d"
    by (subst l) simp
  have len: "length ?d \<le> length l"
    using length_dropWhile_le [of "\<lambda>c. c = CHR 0x0A" "rev l"] by simp
  have no: "\<forall>c \<in> set (rev ?d). c \<noteq> CHR 0x00"
    using assms by (auto dest: set_dropWhileD)
  have "denied_message l = cstr (take (length ?d) (l @ [CHR 0x00]) @
      replicate (length l - length ?d) (CHR 0x00) @ [CHR 0x00])"
    using False by (simp add: denied_message_def strip_loop_spec Let_def)
  also have "\<dots> = cstr (rev ?d @ replicate (length l - length ?d) (CHR 0x00) @ [CHR 0x00])"
    using len tk by simp
  also have "\<dots> = rev ?d"
  proof -
    have "takeWhile (\<lambda>c. c \<noteq> CHR 0x00)
        (rev ?d @ replicate (length l - length ?d) (CHR 0x00) @ [CHR 0x00]) = rev ?d @
        takeWhile (\<lambda>c. c \<noteq> CHR 0x00) (replicate (length l - length ?d) (CHR 0x00) @ [CHR 0x00])"
      using no by (intro takeWhile_append2) auto
    also have "takeWhile (\<lambda>c. c \<noteq> CHR 0x00)
        (replicate (length l - length ?d) (CHR 0x00) @ [CHR 0x00]) = []"
      by (cases "length l - length ?d") simp_all
    finally show ?thesis by (simp add: cstr_def)
  qed
  finally show ?thesis using False by simp
qed

theorem denied_message_strips_witness:
  "denied_message ''Account locked.\<newline>\<newline>'' = ''Account locked.''"
  by (subst denied_message_strips) simp_all

section \<open>The user name\<close>

text \<open>\<open>user[:style][/role]\<close> is cut at its first slash and at the first colon of the user part,
  or else of the role: the user name that results has no slash and no colon, nothing of the text
  is lost, and every text of these shapes is cut this way.\<close>

theorem parse_user_parts:
  "parse_user u = (n, st, r) \<longleftrightarrow>
     CHR ''/'' \<notin> set n \<and> CHR '':'' \<notin> set n \<and>
     (case (st, r) of
        (None, None) \<Rightarrow> u = n
      | (Some x, None) \<Rightarrow> u = n @ CHR '':'' # x \<and> CHR ''/'' \<notin> set x
      | (None, Some y) \<Rightarrow> u = n @ CHR ''/'' # y \<and> CHR '':'' \<notin> set y
      | (Some x, Some y) \<Rightarrow>
          u = n @ CHR '':'' # x @ CHR ''/'' # y \<and> CHR ''/'' \<notin> set x \<or>
          u = n @ CHR ''/'' # y @ CHR '':'' # x \<and> CHR '':'' \<notin> set y)"
  (is "?L \<longleftrightarrow> ?R")
proof
  assume ?L
  then show ?R
    by (auto simp: parse_user_def split_at_None split_at_Some split: option.splits)
next
  assume ?R
  have absent: "split_at c z = None" if "c \<notin> set z" for c z
    using that by (simp add: split_at_None)
  have slash: "split_at (CHR ''/'') (n @ CHR '':'' # x @ CHR ''/'' # y) = Some (n @ CHR '':'' # x, y)"
    if "CHR ''/'' \<notin> set n" "CHR ''/'' \<notin> set x" for x y
    using that split_at_append [of "CHR ''/''" "n @ CHR '':'' # x" y] by simp
  from \<open>?R\<close> show ?L
    by (cases st; cases r) (auto simp: parse_user_def absent split_at_append slash)
qed

section \<open>Which users are valid\<close>

text \<open>A name that the password database does not know is given the placeholder account and
  still marked valid, so the check for an authenticated invalid user can never stop the loop.\<close>

theorem unknown_user_valid:
  "\<exists>t. lookup_user1 A u s = (Inr (), t) \<and> valid (authctxt t) \<and>
     check_valid r t = (Inr (), t) \<and>
     pw (authctxt t) = Some (case fst (getpwnamallow A u (world s)) of None \<Rightarrow> fakepw A | Some p \<Rightarrow> p)"
  by (cases "fst (getpwnamallow A u (world s))")
     (simp_all add: lookup_user1_def check_valid_def prog_simps)

text \<open>Without PAM the test for an empty password never admits anyone, although its comment says
  that a user without a password is accepted immediately: the loop is always entered.\<close>

theorem precheck_needs_pam:
  assumes "\<not> use_pam (opts A)"
  shows "fst (authloop_precheck A s) \<noteq> Inr True"
  using assms by (auto simp: authloop_precheck_def prog_simps split: prod.splits sum.splits)

definition demo_auth_nopam :: "(buf_item list list, buf_item list) auth_env" where
  "demo_auth_nopam = demo_auth\<lparr>pam := demo_env\<lparr>options :=
     demo_options\<lparr>use_pam := False, permit_empty_passwd := True\<rparr>\<rparr>,
     auth_password := (\<lambda>p. ret 1)\<rparr>"

theorem precheck_needs_pam_witness:
  "auth_password demo_auth_nopam [] (demo_state []) = (Inr 1, demo_state []) \<and>
   authloop_precheck demo_auth_nopam (demo_state []) = (Inr False, demo_state [])"
proof
  show 1: "auth_password demo_auth_nopam [] (demo_state []) = (Inr 1, demo_state [])"
    by (simp add: demo_auth_nopam_def ret_run)
  have "fst (authloop_precheck demo_auth_nopam (demo_state [])) \<noteq> Inr True"
    by (rule precheck_needs_pam) (simp add: demo_auth_nopam_def demo_auth_def)
  with 1 show "authloop_precheck demo_auth_nopam (demo_state []) = (Inr False, demo_state [])"
    by (auto simp: authloop_precheck_def prog_simps demo_auth_nopam_def)
qed

section \<open>One success, at the end\<close>

definition only_failures :: "'w sshd \<Rightarrow> 'w sshd \<Rightarrow> bool" where
  "only_failures s t \<longleftrightarrow> (\<exists>fs. verdicts t = verdicts s @ fs \<and> (\<forall>f \<in> set fs. is_failure f))"

definition admitted_once :: "'w sshd \<Rightarrow> 'w sshd \<Rightarrow> bool" where
  "admitted_once s t \<longleftrightarrow>
     (\<exists>fs n i. verdicts t = verdicts s @ fs @ [auth_log True n i] \<and> (\<forall>f \<in> set fs. is_failure f))"

lemma only_failures_same: "only_failures s t \<Longrightarrow> auth_same t u \<Longrightarrow> only_failures s u"
  by (simp add: only_failures_def auth_same_def)

lemma skip_verdicts:
  assumes "only_failures s t" and "authloop_skip A ty r info t = (y, u)"
  shows "if y = Inr True then admitted_once s u else only_failures s u"
proof (cases "r = 0")
  case False
  from assms(1) obtain fs where "verdicts t = verdicts s @ fs" "\<forall>f \<in> set fs. is_failure f"
    by (auto simp: only_failures_def)
  with assms(2) False show ?thesis
    by (auto simp: skip_success admitted_once_def verdicts_def)
next
  case True
  from assms(1) obtain fs where "verdicts t = verdicts s @ fs" "\<forall>f \<in> set fs. is_failure f"
    by (auto simp: only_failures_def)
  with assms(2) True have "verdicts u = verdicts s @ fs @ [auth_log False (get_authname A ty) info]"
    by (auto simp: authloop_skip_def audit_def send_simple_def prog_simps verdicts_def
          split: if_splits)
  with \<open>\<forall>f \<in> set fs. is_failure f\<close> skip_failure(3) [OF assms(2) [unfolded True]]
  show ?thesis
    by (auto simp: only_failures_def intro!: exI [of _ "fs @ [_]"])
qed

lemma iter_verdicts:
  assumes ok: "outside_ok A" and s: "only_failures s t" and run: "authloop_iter A prev t = (x, u)"
  shows "if \<exists>ty. x = Inr (ty, True) then admitted_once s u else only_failures s u"
  using authloop_turn [OF ok run]
proof
  assume "turn_open A t x u"
  with only_failures_same [OF s] show ?thesis by (auto simp: turn_open_def)
next
  assume "turn_tail A t x u"
  then obtain v ty r info y where v: "auth_same t v" and y: "authloop_skip A ty r info v = (y, u)"
    and x: "x = map_sum id (Pair ty) y" unfolding turn_tail_def by blast
  from skip_verdicts [OF only_failures_same [OF s v] y] x show ?thesis
    by (cases y) (auto split: if_splits)
qed

lemma loop_verdicts:
  assumes ok: "outside_ok A"
  shows "triple (only_failures s) (authloop fuel A prev)
    (\<lambda>d. if d then admitted_once s else only_failures s) (\<lambda>_. only_failures s)"
proof (induction fuel arbitrary: prev)
  case 0
  then show ?case by (simp add: triple_ret)
next
  case (Suc fuel)
  have iter: "triple (only_failures s) (authloop_iter A prev)
      (\<lambda>(ty, d). if d then admitted_once s else only_failures s) (\<lambda>_. only_failures s)"
    by (rule tripleI) (drule (1) iter_verdicts [OF ok]; auto split: prod.splits if_splits)+
  show ?case
    unfolding authloop.simps
  proof (rule triple_andThen [OF iter])
    fix a
    show "triple ((\<lambda>(ty, d). if d then admitted_once s else only_failures s) a)
        ((\<lambda>(ty, d). if d then ret True else authloop fuel A ty) a)
        (\<lambda>d. if d then admitted_once s else only_failures s) (\<lambda>_. only_failures s)"
      by (cases a) (auto intro!: triple_ret Suc)
  qed
qed

lemma do_authloop_verdicts:
  assumes ok: "outside_ok A"
  shows "triple (only_failures s) (do_authloop fuel A)
    (\<lambda>d. if d then admitted_once s else only_failures s) (\<lambda>_. only_failures s)"
proof -
  have pre: "triple (only_failures s) (authloop_precheck A)
      (\<lambda>d. if d then admitted_once s else only_failures s) (\<lambda>_. only_failures s)"
  proof (rule tripleI)
    fix t a u
    assume t: "only_failures s t" and a: "authloop_precheck A t = (Inr a, u)"
    from precheck_same [OF ok a] show "(if a then admitted_once s else only_failures s) u"
    proof (elim disjE conjE exE)
      assume "Inr a \<noteq> Inr True" "auth_same t u"
      with only_failures_same [OF t] show ?thesis by simp
    next
      fix v
      assume "auth_same t v" "Inr a = Inr True"
        and "u = v\<lparr>out := out v @ [auth_log True ''without authentication'' []]\<rparr>"
      with only_failures_same [OF t] show ?thesis
        by (fastforce simp: only_failures_def admitted_once_def verdicts_def)
    qed
  next
    fix t e u
    assume t: "only_failures s t" and a: "authloop_precheck A t = (Inl e, u)"
    from precheck_same [OF ok a] only_failures_same [OF t] show "only_failures s u" by auto
  qed
  have send: "triple (only_failures s) (send_simple SSH_SMSG_FAILURE)
      (\<lambda>_. only_failures s) (\<lambda>_. only_failures s)"
    by (auto simp: triple_def send_simple_def prog_simps only_failures_def verdicts_def)
  show ?thesis
    unfolding do_authloop_def
    by (rule triple_andThen [OF pre])
      (auto intro!: triple_ret triple_thenDo [OF send] loop_verdicts [OF ok])
qed

lemma keeps_only_failures:
  assumes "\<And>s0. keeps (auth_same s0) m"
  shows "keeps (only_failures s) m"
  unfolding keeps_iff
proof (intro allI impI)
  fix t
  assume "only_failures s t"
  moreover have "auth_same t (snd (m t))"
    using assms [of t] by (simp add: keeps_iff)
  ultimately show "only_failures s (snd (m t))" by (rule only_failures_same)
qed

lemma keeps_start [keeps_rules]: "keeps (only_failures s) (privsep_start_pam A)"
  by (rule keeps_only_failures) (rule keeps_auth_privsep_start_pam)

lemma only_failures_upd [simp]:
  "only_failures s (t\<lparr>world := w\<rparr>) = only_failures s t"
  "only_failures s (t\<lparr>authctxt := a\<rparr>) = only_failures s t"
  by (simp_all add: only_failures_def verdicts_def)

text \<open>C2: Protocol 1 authentication writes its verdicts in one order only: failures, and then, if and
  only if it returns, one logged success followed by the success message. A run that ends in any
  other way has announced no success.\<close>

theorem auth1_single_success:
  assumes ok: "outside_ok A" and run: "do_authentication fuel A s = (r, t)"
  shows "\<exists>fs. (\<forall>f \<in> set fs. is_failure f) \<and>
    (if r = Inr ()
     then \<exists>n i. verdicts t = verdicts s @ fs @ [auth_log True n i, packet_start SSH_SMSG_SUCCESS]
     else verdicts t = verdicts s @ fs)"
proof -
  let ?Q = "\<lambda>_ t. \<exists>fs n i. (\<forall>f \<in> set fs. is_failure f) \<and>
         verdicts t = verdicts s @ fs @ [auth_log True n i, packet_start SSH_SMSG_SUCCESS]"
  have fin: "triple ((if d then admitted_once s else only_failures s))
      (if d then send_simple SSH_SMSG_SUCCESS else stop NoFuel) ?Q (\<lambda>_. only_failures s)" for d
    by (auto simp: triple_def send_simple_def prog_simps admitted_once_def verdicts_def)
  have tail: "triple (only_failures s) (andThen (do_authloop fuel A) (\<lambda>returned.
      if returned then send_simple SSH_SMSG_SUCCESS else stop NoFuel)) ?Q (\<lambda>_. only_failures s)"
    by (rule triple_andThen [OF do_authloop_verdicts [OF ok] fin])
  have auth: "triple (only_failures s) (do_authentication fuel A) ?Q (\<lambda>_. only_failures s)"
    unfolding do_authentication_def lookup_user1_def
    by (intro triple_after keeps_rules tail) (simp_all add: only_failures_def verdicts_def)
  have start: "only_failures s s" by (simp add: only_failures_def)
  show ?thesis
  proof (cases r)
    case (Inl e)
    with tripleD_Inl [OF auth start] run show ?thesis by (auto simp: only_failures_def)
  next
    case (Inr u)
    with tripleD_Inr [OF auth start] run show ?thesis by auto
  qed
qed

theorem auth1_single_success_witness:
  "\<exists>fs n i. verdicts (snd (do_authentication 5 demo_auth
       (demo_state ([BInt 4] # [BStr ''mallory''] # demo_good)))) =
     fs @ [auth_log True n i, packet_start SSH_SMSG_SUCCESS] \<and> (\<forall>f \<in> set fs. is_failure f)"
proof -
  let ?s = "demo_state ([BInt 4] # [BStr ''mallory''] # demo_good)"
  have r: "fst (do_authentication 5 demo_auth ?s) = Inr ()" by code_simp
  have v: "verdicts ?s = []" by (simp add: verdicts_def demo_state_def)
  from auth1_single_success [OF demo_outside_ok prod.collapse [symmetric], of 5 ?s] r v
  show ?thesis by auto
qed

end
