(* ===== verification/SshAuth2Props.thy ===== *)
theory SshAuth2Props
  imports SshAuth2 SshAuth1Props
begin

text \<open>
  What protocol 2 authentication guarantees in every state its dispatcher can reach: one success,
  announced last; admission only after the service was accepted, for a valid user, with the root
  rule and PAM's account check; a user and a service that never change; a bound on counted
  failures. Beside that the reply on every branch and the list of methods.
\<close>

section \<open>Methods outside the repository\<close>

text \<open>
  As in protocol 1, a method and its handlers decide about a credential and leave the rest to
  \<open>userauth_finish\<close>. They may register handlers, but not for service or authentication requests.
\<close>

definition outside2_ok :: "('w, 'b) auth2_env \<Rightarrow> bool" where
  "outside2_ok A \<longleftrightarrow>
     (\<forall>m. keeps_auth (method_userauth A m)) \<and> (\<forall>k. keeps_auth (run_other A k)) \<and>
     keeps_auth (auth2_challenge_stop A) \<and> keeps_auth (auth2_jpake_stop A)"

lemma dispatch_set_run [prog_simps]:
  "dispatch_set ty h s = (Inr (), s\<lparr>dispatch_table := (dispatch_table s)(ty \<mapsto> h)\<rparr>)"
  by (simp add: dispatch_set_def modify_run)

lemma keeps_dispatch_set [keeps_rules]:
  "ty \<notin> {SSH2_MSG_SERVICE_REQUEST, SSH2_MSG_USERAUTH_REQUEST} \<Longrightarrow>
   keeps (auth_same s0) (dispatch_set ty h)"
  by (auto simp: keeps_iff prog_simps auth_same_def verdicts_def)

lemma reset_state_same: "outside2_ok A \<Longrightarrow> keeps (auth_same s0) (reset_state A)"
  unfolding reset_state_def outside2_ok_def
  by (intro keeps_rules) (auto simp: keeps_auth_keeps auth_same_def verdicts_def)

lemma try_method_same: "outside2_ok A \<Longrightarrow> keeps (auth_same s0) (try_method A m)"
  unfolding try_method_def outside2_ok_def
  by (intro keeps_rules) (auto simp: keeps_auth_keeps)

lemma send_banner_same [keeps_rules]: "keeps (auth_same s0) (userauth_send_banner A x)"
  unfolding userauth_send_banner_def by (intro keeps_rules auth_same_emit) simp_all

lemma userauth_banner_same [keeps_rules]: "keeps (auth_same s0) (userauth_banner A)"
  unfolding userauth_banner_def auth2_read_banner_def by (intro keeps_rules) simp_all

section \<open>The end of an attempt, by cases\<close>

text \<open>
  What \<open>userauth_finish\<close> must have found for a success to be logged: \<open>s\<close> is the state in which it
  was called, \<open>u\<close> the one after the account check.
\<close>

definition passed ::
  "('w, 'b) auth2_env \<Rightarrow> string \<Rightarrow> 'w sshd \<Rightarrow> 'w sshd \<Rightarrow> bool" where
  "passed A meth s u \<longleftrightarrow>
     valid (authctxt s) \<and>
     (\<exists>p. pw (authctxt s) = Some p \<and> (pw_uid p = 0 \<longrightarrow> auth_root_allowed (base A) meth)) \<and>
     (if use_pam (opts2 A) then \<exists>a. privsep_pam_account (base A) s = (Inr a, u) \<and> a \<noteq> 0
      else u = s)"

lemma check_account2_cases:
  assumes "check_account2 A r s = (Inr (), u)"
  shows "auth_same s u \<and> (r \<noteq> 0 \<longrightarrow>
    (if use_pam (opts2 A) then \<exists>a. privsep_pam_account (base A) s = (Inr a, u) \<and> a \<noteq> 0
     else u = s))"
  using assms
  by (auto simp: check_account2_def prog_simps split: if_splits prod.splits sum.splits
        dest: keeps_authD [OF keeps_auth_account])

lemma finish_cases:
  assumes "userauth_finish A r meth s = (Inr (), t)"
  obtains r' u where "auth_same s u" and "r' \<noteq> 0 \<Longrightarrow> r' = r \<and> passed A meth s u"
    and "let v = u\<lparr>out := out u @ [auth_log (r' \<noteq> 0) meth '' ssh2'']\<rparr>
         in if postponed (authctxt u) then t = v else userauth_reply A r' meth v = (Inr (), t)"
proof -
  from assms obtain w1 r' w2 u where cv: "check_valid r s = (Inr (), w1)"
    and cr: "check_root (base A) meth r w1 = (Inr r', w2)"
    and ca: "check_account2 A r' w2 = (Inr (), u)"
    and rest: "let v = u\<lparr>out := out u @ [auth_log (r' \<noteq> 0) meth '' ssh2'']\<rparr>
         in if postponed (authctxt u) then t = v else userauth_reply A r' meth v = (Inr (), t)"
    by (auto simp: userauth_finish_def andThen_Inr thenDo_Inr emit_run gets_run ret_run Let_def
          split: if_splits)
  from check_valid_run [OF cv] have w1: "w1 = s" "valid (authctxt s) \<or> r = 0" by simp_all
  from check_root_same [OF cr] w1 have sw: "auth_same s w2" by simp
  note ac = check_account2_cases [OF ca]
  show ?thesis
  proof (rule that [OF _ _ rest])
    show "auth_same s u" using auth_same_trans [OF sw] ac by blast
    assume nz: "r' \<noteq> 0"
    from check_root_nonzero [OF cr nz] w1 nz ac show "r' = r \<and> passed A meth s u"
      by (auto simp: passed_def)
  qed
qed

lemma reply_cases:
  assumes "userauth_reply A r meth s = (Inr (), t)"
  shows "if r = 1 then
      t = s\<lparr>dispatch_table := (dispatch_table s)(SSH2_MSG_USERAUTH_REQUEST \<mapsto> Some dispatch_protocol_ignore),
            out := out s @ [packet_start SSH2_MSG_USERAUTH_SUCCESS, packet_send, packet_write_wait],
            authctxt := (authctxt s)\<lparr>success := True\<rparr>\<rparr>
    else
      (let f = failures (authctxt s) +
             (if \<not> server_caused_failure (authctxt s) \<and> (attempt (authctxt s) > 1 \<or> meth \<noteq> ''none'')
              then 1 else 0)
       in f < max_authtries (opts2 A) \<and>
          t = s\<lparr>authctxt := (authctxt s)\<lparr>failures := f\<rparr>,
                out := out s @ [packet_start SSH2_MSG_USERAUTH_FAILURE,
                  packet_put_cstring (authmethods_get A (world s)),
                  packet_put_char 0, packet_send, packet_write_wait]\<rparr>)"
  using assms
  by (auto simp: userauth_reply_def send_simple_def audit_def prog_simps Let_def split: if_splits)

section \<open>What holds in every state that is served\<close>

text \<open>The verdicts written since \<open>s\<close>; the last one is a success exactly when \<open>success\<close> is set.\<close>

definition cleared :: "('w, 'b) auth2_env \<Rightarrow> string \<Rightarrow> 'w sshd \<Rightarrow> bool" where
  "cleared A meth t \<longleftrightarrow>
     valid (authctxt t) \<and>
     (\<exists>p. pw (authctxt t) = Some p \<and> (pw_uid p = 0 \<longrightarrow> auth_root_allowed (base A) meth)) \<and>
     (use_pam (opts2 A) \<and> \<not> use_privsep (pam2 A) \<longrightarrow>
        sshpam_account_status t \<noteq> -1 \<and> (word_of_int (sshpam_account_status t) :: u32) \<noteq> 0)"

definition verdict_inv :: "('w, 'b) auth2_env \<Rightarrow> 'w sshd \<Rightarrow> 'w sshd \<Rightarrow> bool" where
  "verdict_inv A s t \<longleftrightarrow>
     (\<exists>fs. packet_start SSH2_MSG_USERAUTH_SUCCESS \<notin> set fs \<and>
        (if success (authctxt t)
         then \<exists>m. cleared A m t \<and> verdicts t = verdicts s @ fs @
                [auth_log True m '' ssh2'', packet_start SSH2_MSG_USERAUTH_SUCCESS]
         else verdicts t = verdicts s @ fs))"

definition failures_inv :: "('w, 'b) auth2_env \<Rightarrow> 'w sshd \<Rightarrow> 'w sshd \<Rightarrow> bool" where
  "failures_inv A s t \<longleftrightarrow>
     failures (authctxt s) \<le> failures (authctxt t) \<and>
     (failures (authctxt t) = failures (authctxt s) \<or> failures (authctxt t) < max_authtries (opts2 A))"

definition gate_inv :: "'w sshd \<Rightarrow> bool" where
  "gate_inv t \<longleftrightarrow>
     packet_start SSH2_MSG_SERVICE_ACCEPT \<in> set (out t) \<or>
     attempt (authctxt t) = 0 \<and> \<not> success (authctxt t) \<and>
     dispatch_default t = dispatch_protocol_error \<and>
     dispatch_table t = [SSH2_MSG_SERVICE_REQUEST \<mapsto> Some input_service_request_h]"

lemma passed_cleared:
  assumes "passed A m s u"
  shows "cleared A m u" and "auth_same s u"
proof -
  from assms have v: "valid (authctxt s)"
    and p: "\<exists>p. pw (authctxt s) = Some p \<and> (pw_uid p = 0 \<longrightarrow> auth_root_allowed (base A) m)"
    and a: "if use_pam (opts2 A) then \<exists>a. privsep_pam_account (base A) s = (Inr a, u) \<and> a \<noteq> 0
      else u = s" by (simp_all add: passed_def)
  show same: "auth_same s u"
    using a keeps_authD [OF keeps_auth_account] by (auto split: if_splits)
  show "cleared A m u"
    using v p a same account_accepted [of "base A" s _ u]
    by (auto simp: cleared_def auth_same_def)
qed

lemma reply_step:
  assumes rep: "userauth_reply A r m v = (Inr (), t)"
    and vv: "verdicts v = verdicts s @ fs @ [auth_log (r \<noteq> 0) m '' ssh2'']"
    and fs: "packet_start SSH2_MSG_USERAUTH_SUCCESS \<notin> set fs" and nv: "\<not> success (authctxt v)"
    and fl: "failures_inv A s v" and cl: "r = 1 \<Longrightarrow> cleared A m v"
  shows "verdict_inv A s t \<and> failures_inv A s t \<and> prefix (out v) (out t) \<and>
    attempt (authctxt t) = attempt (authctxt v)"
proof (cases "r = 1")
  case True
  with reply_cases [OF rep]
  have t: "t = v\<lparr>dispatch_table := (dispatch_table v)
        (SSH2_MSG_USERAUTH_REQUEST \<mapsto> Some dispatch_protocol_ignore),
      out := out v @ [packet_start SSH2_MSG_USERAUTH_SUCCESS, packet_send, packet_write_wait],
      authctxt := (authctxt v)\<lparr>success := True\<rparr>\<rparr>" by simp
  have "verdict_inv A s t"
    using vv fs cl [OF True] True unfolding verdict_inv_def
    by (intro exI [of _ fs]) (auto simp: t verdicts_def cleared_def)
  with fl show ?thesis by (simp add: t failures_inv_def)
next
  case False
  define f where "f = failures (authctxt v) +
     (if \<not> server_caused_failure (authctxt v) \<and> (attempt (authctxt v) > 1 \<or> m \<noteq> ''none'')
      then 1 else 0)"
  from reply_cases [OF rep] False have f: "f < max_authtries (opts2 A)"
    and t: "t = v\<lparr>authctxt := (authctxt v)\<lparr>failures := f\<rparr>,
      out := out v @ [packet_start SSH2_MSG_USERAUTH_FAILURE,
        packet_put_cstring (authmethods_get A (world v)),
        packet_put_char 0, packet_send, packet_write_wait]\<rparr>"
    by (simp_all add: Let_def f_def)
  have "verdict_inv A s t"
    using vv nv fs unfolding verdict_inv_def
    by (intro exI [of _ "fs @ [auth_log (r \<noteq> 0) m '' ssh2'']"]) (simp add: t verdicts_def)
  moreover have "failures (authctxt s) \<le> f" using fl by (simp add: f_def failures_inv_def)
  ultimately show ?thesis using f by (simp add: t failures_inv_def)
qed

lemma finish_step:
  assumes run: "userauth_finish A r m s1 = (Inr (), t)"
    and verd: "verdict_inv A s s1" and ns: "\<not> success (authctxt s1)"
    and fl: "failures_inv A s s1"
  shows "verdict_inv A s t \<and> failures_inv A s t \<and> prefix (out s1) (out t) \<and>
    attempt (authctxt t) = attempt (authctxt s1)"
proof -
  from finish_cases [OF run] obtain r' u where su: "auth_same s1 u"
    and pass: "r' \<noteq> 0 \<Longrightarrow> r' = r \<and> passed A m s1 u"
    and rest: "let v = u\<lparr>out := out u @ [auth_log (r' \<noteq> 0) m '' ssh2'']\<rparr>
         in if postponed (authctxt u) then t = v else userauth_reply A r' m v = (Inr (), t)"
    by blast
  let ?v = "u\<lparr>out := out u @ [auth_log (r' \<noteq> 0) m '' ssh2'']\<rparr>"
  from verd ns obtain fs where fs: "packet_start SSH2_MSG_USERAUTH_SUCCESS \<notin> set fs"
    "verdicts s1 = verdicts s @ fs" by (auto simp: verdict_inv_def)
  with su have vv: "verdicts ?v = verdicts s @ fs @ [auth_log (r' \<noteq> 0) m '' ssh2'']"
    and nv: "\<not> success (authctxt ?v)" and at: "attempt (authctxt ?v) = attempt (authctxt s1)"
    and fv: "failures_inv A s ?v" and px: "prefix (out s1) (out ?v)"
    using ns fl by (auto simp: auth_same_def verdicts_def failures_inv_def prefix_def)
  show ?thesis
  proof (cases "postponed (authctxt u)")
    case True
    with rest have t: "t = ?v" by simp
    have "verdict_inv A s t"
      using vv nv fs unfolding t verdict_inv_def
      by (intro exI [of _ "fs @ [auth_log (r' \<noteq> 0) m '' ssh2'']"]) simp
    with fv at px show ?thesis by (simp add: t)
  next
    case False
    with rest have rep: "userauth_reply A r' m ?v = (Inr (), t)" by simp
    have cl: "cleared A m ?v" if "r' = 1"
      using pass that passed_cleared(1) by (fastforce simp: cleared_def)
    from reply_step [OF rep vv fs(1) nv fv cl] at prefix_order.trans [OF px, of "out t"]
    show ?thesis by simp
  qed
qed

section \<open>An authentication request\<close>

text \<open>
  What stays as it is while a request is parsed, the context set up and the method tried: all of
  \<open>auth_same\<close> except who is authenticated and the number of the attempt.
\<close>

definition request_same :: "'w sshd \<Rightarrow> 'w sshd \<Rightarrow> bool" where
  "request_same s t \<longleftrightarrow>
     failures (authctxt t) = failures (authctxt s) \<and> success (authctxt t) = success (authctxt s) \<and>
     verdicts t = verdicts s \<and> prefix (out s) (out t)"

lemma auth_same_request: "auth_same s t \<Longrightarrow> request_same s t"
  by (simp add: auth_same_def request_same_def)

lemma request_same_trans: "request_same s t \<Longrightarrow> request_same t u \<Longrightarrow> request_same s u"
  by (auto simp: request_same_def intro: prefix_order.trans)

lemma audit_keeps: "keeps (auth_same s0) (audit A ev)"
  unfolding audit_def by (intro keeps_rules auth_same_emit) simp_all

lemma setup_result:
  assumes "setup_authctxt A u srv st r s = (Inr (), t)"
  shows "request_same s t \<and> attempt (authctxt t) = attempt (authctxt s) \<and>
    user (authctxt t) = u \<and> service (authctxt t) = srv \<and> valid (authctxt t) \<and>
    pw (authctxt t) \<noteq> None"
proof -
  let ?w = "snd (getpwnamallow (base A) u (world s))"
  let ?p = "fst (getpwnamallow (base A) u (world s))"
  let ?known = "?p \<noteq> None \<and> srv = ''ssh-connection''"
  let ?s1 = "s\<lparr>world := ?w, authctxt := (authctxt s)\<lparr>pw := ?p, user := u\<rparr>\<rparr>"
  let ?set = "if ?known then upd_authctxt (\<lambda>a. a\<lparr>valid := True\<rparr>)
      else thenDo (upd_authctxt (\<lambda>a. a\<lparr>valid := True, pw := Some (fakepw (base A))\<rparr>))
             (audit (base A) SSH_INVALID_USER)"
  from assms obtain s2 s3 s4 where s2: "?set ?s1 = (Inr (), s2)"
    and s3: "when_p (use_pam (opts2 A)) (privsep_start_pam (base A)) s2 = (Inr (), s3)"
    and s4: "s4 = s3\<lparr>out := out s3 @ [setproctitle ((if valid (authctxt s3) then u else ''unknown'') @
                (if use_privsep (pam2 A) then '' [net]'' else []))],
        authctxt := (authctxt s3)\<lparr>service := srv, style := st, role := r\<rparr>\<rparr>"
    and t: "thenDo (when_p (use_privsep (pam2 A)) (emit [inform_authserv srv st r]))
        (userauth_banner A) s4 = (Inr (), t)"
    unfolding setup_authctxt_def
    by (auto simp: andThen_Inr thenDo_Inr ext_run upd_authctxt_run emit_run gets_run)
  have r2: "request_same s s2 \<and> attempt (authctxt s2) = attempt (authctxt s) \<and>
      user (authctxt s2) = u \<and> valid (authctxt s2) \<and> pw (authctxt s2) \<noteq> None"
    using s2 by (auto simp: prog_simps audit_def request_same_def verdicts_def split: if_splits)
  have "keeps (auth_same s2) (when_p (use_pam (opts2 A)) (privsep_start_pam (base A)))"
    by (intro keeps_rules keeps_auth_privsep_start_pam)
  from keepsD [OF this _ s3] have r3: "auth_same s2 s3" by simp
  have r4: "request_same s2 s4 \<and> attempt (authctxt s4) = attempt (authctxt s2) \<and>
      user (authctxt s4) = user (authctxt s2) \<and> service (authctxt s4) = srv \<and>
      valid (authctxt s4) = valid (authctxt s2) \<and> pw (authctxt s4) = pw (authctxt s2)"
    using r3 by (auto simp: s4 request_same_def auth_same_def verdicts_def prefix_def)
  have "keeps (auth_same s4)
      (thenDo (when_p (use_privsep (pam2 A)) (emit [inform_authserv srv st r])) (userauth_banner A))"
    by (intro keeps_rules auth_same_emit) simp_all
  from keepsD [OF this _ t] have r5: "auth_same s4 t" by simp
  have "request_same s t"
    using request_same_trans [OF request_same_trans auth_same_request [OF r5]] r2 r4 by blast
  with r2 r4 r5 show ?thesis by (auto simp: auth_same_def)
qed

lemma begin_result:
  assumes "begin_request A u srv st r s = (Inr (), t)"
  shows "request_same s t \<and> attempt (authctxt t) = attempt (authctxt s) + 1 \<and>
    (if attempt (authctxt s) = 0 then valid (authctxt t) \<and> pw (authctxt t) \<noteq> None
     else user (authctxt t) = user (authctxt s) \<and> service (authctxt t) = service (authctxt s) \<and>
       valid (authctxt t) = valid (authctxt s) \<and> pw (authctxt t) = pw (authctxt s))"
proof -
  let ?s1 = "s\<lparr>authctxt := (authctxt s)\<lparr>attempt := attempt (authctxt s) + 1\<rparr>\<rparr>"
  have r1: "request_same s ?s1" by (simp add: request_same_def verdicts_def)
  show ?thesis
  proof (cases "attempt (authctxt s) = 0")
    case True
    with assms have "setup_authctxt A u srv st r ?s1 = (Inr (), t)"
      by (simp add: begin_request_def prog_simps)
    from setup_result [OF this] True request_same_trans [OF r1] show ?thesis by auto
  next
    case False
    with assms have "t = ?s1" by (auto simp: begin_request_def prog_simps split: if_splits)
    with False r1 show ?thesis by simp
  qed
qed

lemma request_cases:
  assumes ok: "outside2_ok A" and run: "input_userauth_request A s = (Inr (), t)"
  obtains u r meth where "userauth_finish A r meth u = (Inr (), t)" and "request_same s u"
    and "attempt (authctxt u) = attempt (authctxt s) + 1"
    and "if attempt (authctxt s) = 0 then valid (authctxt u) \<and> pw (authctxt u) \<noteq> None
         else user (authctxt u) = user (authctxt s) \<and> service (authctxt u) = service (authctxt s) \<and>
           valid (authctxt u) = valid (authctxt s) \<and> pw (authctxt u) = pw (authctxt s)"
proof -
  from run obtain w un st rl srv meth s2 s3 s4 r where
    s2: "begin_request A un srv st rl (s\<lparr>world := w\<rparr>) = (Inr (), s2)"
    and s3: "reset_state A s2 = (Inr (), s3)" and s4: "try_method A meth s3 = (Inr r, s4)"
    and fin: "userauth_finish A r meth s4 = (Inr (), t)"
    unfolding input_userauth_request_def
    by (auto simp: andThen_Inr thenDo_Inr extx_run case_prod_beta)
  have s24: "auth_same s2 s4"
    using keepsD [OF reset_state_same [OF ok] auth_same_refl s3]
      keepsD [OF try_method_same [OF ok] auth_same_refl s4] by (rule auth_same_trans)
  have r1: "request_same s (s\<lparr>world := w\<rparr>)" by (simp add: request_same_def verdicts_def)
  note b = begin_result [OF s2]
  show ?thesis
  proof (rule that [OF fin])
    show "request_same s s4"
      using request_same_trans [OF request_same_trans [OF r1] auth_same_request [OF s24]] b by blast
  qed (use b s24 in \<open>auto simp: auth_same_def\<close>)
qed

section \<open>Every served state\<close>

definition served_inv :: "('w, 'b) auth2_env \<Rightarrow> 'w sshd \<Rightarrow> 'w sshd \<Rightarrow> bool" where
  "served_inv A s t \<longleftrightarrow>
     verdict_inv A s t \<and> failures_inv A s t \<and> gate_inv t \<and> 0 \<le> attempt (authctxt t)"

lemma served_inv_world [simp]: "served_inv A s (t\<lparr>world := w\<rparr>) = served_inv A s t"
proof -
  have "cleared A m (t\<lparr>world := w\<rparr>) = cleared A m t" for m by (simp add: cleared_def)
  moreover have "verdicts (t\<lparr>world := w\<rparr>) = verdicts t" by (simp add: verdicts_def)
  ultimately show ?thesis
    by (simp add: served_inv_def verdict_inv_def failures_inv_def gate_inv_def)
qed

text \<open>After \<open>auth2_setup\<close> only a service request has a handler.\<close>

definition fresh :: "'w sshd \<Rightarrow> bool" where
  "fresh s \<longleftrightarrow> attempt (authctxt s) = 0 \<and> \<not> success (authctxt s)"

lemma setup_run:
  "auth2_setup s = (Inr (), s\<lparr>dispatch_default := dispatch_protocol_error,
     dispatch_table := [SSH2_MSG_SERVICE_REQUEST \<mapsto> Some input_service_request_h]\<rparr>)"
  by (simp add: auth2_setup_def dispatch_init_def prog_simps)

lemma setup_inv:
  "fresh s \<Longrightarrow> auth2_setup s = (Inr (), t) \<Longrightarrow> served_inv A t t"
  by (auto simp: setup_run served_inv_def fresh_def verdict_inv_def failures_inv_def gate_inv_def)

lemma gate_kept: "packet_start SSH2_MSG_SERVICE_ACCEPT \<in> set (out s) \<Longrightarrow> prefix (out s) (out t) \<Longrightarrow>
   gate_inv t"
  by (auto simp: gate_inv_def dest: set_mono_prefix)

lemma inv_request_same:
  assumes "served_inv A s t" and "request_same t u" and "\<not> success (authctxt t)"
  shows "verdict_inv A s u \<and> failures_inv A s u"
  using assms by (auto simp: served_inv_def request_same_def verdict_inv_def failures_inv_def)

text \<open>The four kinds of handler keep the invariant; the last two run only behind the gate.\<close>

lemma finish_inv:
  assumes inv: "served_inv A s t" and ns: "\<not> success (authctxt t)" and tu: "request_same t u"
    and at: "0 \<le> attempt (authctxt u)"
    and acc: "packet_start SSH2_MSG_SERVICE_ACCEPT \<in> set (out t)"
    and fin: "userauth_finish A r m u = (Inr (), v)"
  shows "served_inv A s v"
proof -
  from tu ns have nu: "\<not> success (authctxt u)" and px: "prefix (out t) (out u)"
    by (simp_all add: request_same_def)
  from inv_request_same [OF inv tu ns] have vf: "verdict_inv A s u" "failures_inv A s u" by simp_all
  note f = finish_step [OF fin vf(1) nu vf(2)]
  then have "gate_inv v" using gate_kept [OF acc prefix_order.trans [OF px]] by blast
  with f at show ?thesis by (simp add: served_inv_def)
qed

lemma service_inv:
  assumes inv: "served_inv A s t" and ns: "\<not> success (authctxt t)"
    and run: "input_service_request A t = (Inr (), v)"
  shows "served_inv A s v"
proof -
  from run obtain w srv where v: "v = t\<lparr>world := w,
      dispatch_table := (dispatch_table t)(SSH2_MSG_USERAUTH_REQUEST \<mapsto> Some input_userauth_request_h),
      out := out t @ [packet_start SSH2_MSG_SERVICE_ACCEPT, packet_put_cstring srv, packet_send,
                 packet_write_wait]\<rparr>"
    by (auto simp: input_service_request_def andThen_Inr thenDo_Inr extx_run gets_run stop_run
          dispatch_set_run emit_run split: if_splits)
  have "request_same t v" by (simp add: v request_same_def verdicts_def)
  from inv_request_same [OF inv this ns] inv show ?thesis
    by (auto simp: served_inv_def gate_inv_def v)
qed

lemma other_inv:
  assumes ok: "outside2_ok A" and inv: "served_inv A s t" and ns: "\<not> success (authctxt t)"
    and acc: "packet_start SSH2_MSG_SERVICE_ACCEPT \<in> set (out t)"
    and run: "run_handler A (other_handler k) t = (Inr (), v)"
  shows "served_inv A s v"
proof -
  from run obtain r u where u: "run_other A k t = (Inr r, u)"
    and rest: "(case r of None \<Rightarrow> ret () | Some (a, m) \<Rightarrow> userauth_finish A a m) u = (Inr (), v)"
    by (auto simp: run_handler_def andThen_Inr)
  have tu: "auth_same t u"
    using ok keeps_authD [of "run_other A k" t "Inr r" u] u by (simp add: outside2_ok_def)
  show ?thesis
  proof (cases r)
    case None
    with rest have "v = u" by (simp add: ret_run)
    with inv_request_same [OF inv auth_same_request [OF tu] ns] inv tu
      gate_kept [OF acc auth_same_prefix [OF tu]]
    show ?thesis by (simp add: served_inv_def auth_same_def)
  next
    case (Some am)
    then obtain a m where am: "r = Some (a, m)" by (cases am) simp
    with rest finish_inv [OF inv ns auth_same_request [OF tu] _ acc] inv tu show ?thesis
      by (simp add: served_inv_def auth_same_def)
  qed
qed

lemma request_inv:
  assumes ok: "outside2_ok A" and inv: "served_inv A s t" and ns: "\<not> success (authctxt t)"
    and acc: "packet_start SSH2_MSG_SERVICE_ACCEPT \<in> set (out t)"
    and run: "input_userauth_request A t = (Inr (), v)"
  shows "served_inv A s v"
proof -
  from request_cases [OF ok run] obtain u r m where "userauth_finish A r m u = (Inr (), v)"
    and "request_same t u" and "attempt (authctxt u) = attempt (authctxt t) + 1" by metis
  with finish_inv [OF inv ns _ _ acc] inv show ?thesis by (simp add: served_inv_def)
qed

lemma handler_inv:
  assumes ok: "outside2_ok A" and inv: "served_inv A s t" and ns: "\<not> success (authctxt t)"
    and h: "handler_for t ty = Some h" and run: "run_handler A h t = (Inr (), v)"
  shows "served_inv A s v"
proof -
  have error: "served_inv A s v" if "h = dispatch_protocol_error"
  proof -
    from that run obtain w where "v = t\<lparr>world := w\<rparr>" by (auto simp: run_handler_def extx_run)
    with inv show ?thesis by simp
  qed
  have service: "served_inv A s v" if "h = input_service_request_h"
    using that run by (intro service_inv [OF inv ns]) (simp add: run_handler_def)
  show ?thesis
  proof (cases "packet_start SSH2_MSG_SERVICE_ACCEPT \<in> set (out t)")
    case False
    with inv have "dispatch_default t = dispatch_protocol_error"
      "dispatch_table t = [SSH2_MSG_SERVICE_REQUEST \<mapsto> Some input_service_request_h]"
      by (auto simp: served_inv_def gate_inv_def)
    with h have "h = dispatch_protocol_error \<or> h = input_service_request_h"
      by (auto simp: handler_for_def split: if_splits)
    with error service show ?thesis by blast
  next
    case True
    show ?thesis
    proof (cases h)
      case dispatch_protocol_ignore
      with run inv show ?thesis by (simp add: run_handler_def ret_run)
    next
      case input_userauth_request_h
      with run show ?thesis by (intro request_inv [OF ok inv ns True]) (simp add: run_handler_def)
    next
      case (other_handler k)
      with run show ?thesis by (intro other_inv [OF ok inv ns True]) simp
    qed (use error service in auto)
  qed
qed

lemma served_inv_all:
  assumes "outside2_ok A" and "fresh s0" and "auth2_setup s0 = (Inr (), s)" and "served A s t"
  shows "served_inv A s t"
  using assms(4)
proof induction
  case served_start
  from setup_inv [OF assms(2,3)] show ?case .
next
  case (served_packet t ty u h v)
  from served_packet.hyps obtain w where u: "u = t\<lparr>world := w\<rparr>" by (auto simp: extx_run)
  with served_packet have "served_inv A s u" "\<not> success (authctxt u)" by simp_all
  with handler_inv [OF assms(1)] served_packet.hyps show ?case by blast
qed

text \<open>C3: In every state the dispatcher can reach after \<open>do_authentication2\<close> set its table up: the
  success message has been written at most once, last, right after the log entry of a success, and
  only together with the flag \<open>success\<close>; failures have only been counted up and stay below the
  limit; and while no service was accepted, no attempt was made and only service requests have a
  handler.\<close>

theorem served_state_safe:
  assumes "outside2_ok A" and "fresh s0" and "auth2_setup s0 = (Inr (), s)" and "served A s t"
  shows "verdict_inv A s t \<and> failures_inv A s t \<and> gate_inv t"
  using served_inv_all [OF assms] by (simp add: served_inv_def)

section \<open>A concrete environment\<close>

text \<open>A dispatcher with a bound on the packets it serves; the world is the list of packets.\<close>

primrec demo_dispatch ::
  "nat \<Rightarrow> (buf_item list list, buf_item list) auth2_env \<Rightarrow> (buf_item list list, unit) sprog" where
  "demo_dispatch 0 A = stop NoFuel"
| "demo_dispatch (Suc n) A =
     andThen (extx (packet_read (base A))) (\<lambda>ty.
     andThen (gets (\<lambda>s. handler_for s ty)) (\<lambda>h. case h of
       None \<Rightarrow> stop (Disconnect ''protocol error'')
     | Some h' \<Rightarrow> thenDo (run_handler A h')
         (andThen (gets (\<lambda>s. success (authctxt s))) (\<lambda>succ.
          if succ then ret () else demo_dispatch n A))))"

definition demo2_read :: "buf_item list list \<Rightarrow> (exit_reason + msgtype) \<times> buf_item list list" where
  "demo2_read w = (case w of
      [BInt n] # r \<Rightarrow>
        (Inr (if n = 5 then SSH2_MSG_SERVICE_REQUEST else if n = 50 then SSH2_MSG_USERAUTH_REQUEST
              else SSH_MSG_other (uint n)), r)
    | _ \<Rightarrow> (Inl (Disconnect ''connection closed''), w))"

text \<open>The password method of protocol 2 reads its packet and asks PAM.\<close>

definition demo_userauth :: "auth_method \<Rightarrow> (buf_item list list, int) sprog" where
  "demo_userauth m = (if m = method_passwd then
      andThen (extx demo_string) (\<lambda>p. sshpam_auth_passwd demo_env p) else ret 0)"

definition demo_auth2 :: "(buf_item list list, buf_item list) auth2_env" where
  "demo_auth2 =
     \<lparr>base = demo_auth\<lparr>packet_read := demo2_read\<rparr>,
      method_name = (\<lambda>m. case m of method_none \<Rightarrow> ''none'' | method_pubkey \<Rightarrow> ''publickey''
        | method_gsskeyex \<Rightarrow> ''gssapi-keyex'' | method_gssapi \<Rightarrow> ''gssapi-with-mic''
        | method_jpake \<Rightarrow> ''jpake-01@openssh.com'' | method_passwd \<Rightarrow> ''password''
        | method_kbdint \<Rightarrow> ''keyboard-interactive'' | method_hostbased \<Rightarrow> ''hostbased''),
      method_enabled = (\<lambda>m w. Some (m \<noteq> method_hostbased)),
      method_userauth = demo_userauth, run_other = (\<lambda>k. ret None),
      protocol_error = (\<lambda>w. (Inr (), w)), auth2_challenge_stop = ret (), auth2_jpake_stop = ret (),
      SSH_BUG_BANNER = False, mm_auth2_read_banner = (\<lambda>w. (None, w)),
      open_rdonly = (\<lambda>p w. (-1, w)), fstat_size = (\<lambda>fd w. (None, w)),
      atomicio_read = (\<lambda>fd n w. ([], w))\<rparr>"

lemma demo_userauth_same: "keeps_auth (demo_userauth m)"
  by (rule keeps_authI)
     (auto simp: demo_userauth_def intro!: keeps_rules
        keeps_auth_keeps [OF keeps_auth_sshpam_auth_passwd])

lemma demo_outside2: "outside2_ok demo_auth2"
  by (simp add: outside2_ok_def demo_auth2_def demo_userauth_same)
     (simp add: keeps_auth_iff ret_run)

lemma demo_dispatch_served:
  "\<not> success (authctxt t) \<Longrightarrow> served A s t \<Longrightarrow> demo_dispatch n A t = (Inr (), v) \<Longrightarrow>
   served A s v \<and> success (authctxt v)"
proof (induction n arbitrary: t)
  case 0
  then show ?case by (simp add: stop_run)
next
  case (Suc n)
  from Suc.prems(3) obtain ty u h w where ty: "extx (packet_read (base A)) t = (Inr ty, u)"
    and h: "handler_for u ty = Some h" and w: "run_handler A h u = (Inr (), w)"
    and rest: "(if success (authctxt w) then ret () else demo_dispatch n A) w = (Inr (), v)"
    by (auto simp: andThen_Inr thenDo_Inr gets_run stop_run split: option.splits)
  have sw: "served A s w"
    by (rule served_packet [OF Suc.prems(2,1) ty h w])
  show ?case
  proof (cases "success (authctxt w)")
    case True
    with rest sw show ?thesis by (simp add: ret_run)
  next
    case False
    with rest have "demo_dispatch n A w = (Inr (), v)" by simp
    with Suc.IH [OF False sw] show ?thesis by blast
  qed
qed

definition demo2_packets :: "buf_item list list" where
  "demo2_packets =
     [[BInt 5], [BStr ''ssh-userauth''],
      [BInt 50], [BStr ''bob''], [BStr ''ssh-connection''], [BStr ''none''],
      [BInt 50], [BStr ''bob''], [BStr ''ssh-connection''], [BStr ''password''], [BStr ''s3cret'']]"

definition demo2_start :: "buf_item list list sshd" where
  "demo2_start = demo_state demo2_packets"

lemma demo2_fresh: "fresh demo2_start"
  by (simp add: fresh_def demo2_start_def demo_state_def demo_authctxt_def)

lemma demo2_contract: "dispatch_contract demo_auth2 (demo_dispatch n demo_auth2)"
  unfolding dispatch_contract_def
  by (intro allI impI, rule demo_dispatch_served [OF _ served_start])

lemma demo2_returns:
  "do_authentication2 (demo_dispatch 5 demo_auth2) demo2_start =
     (Inr (), snd (do_authentication2 (demo_dispatch 5 demo_auth2) demo2_start))"
proof -
  have "fst (do_authentication2 (demo_dispatch 5 demo_auth2) demo2_start) = Inr ()"
    by code_simp
  then show ?thesis by (simp add: prod_eq_iff)
qed

theorem served_state_safe_witness:
  "let s = snd (auth2_setup demo2_start) in
   verdict_inv demo_auth2 s s \<and> gate_inv s \<and>
   served demo_auth2 s (snd (do_authentication2 (demo_dispatch 5 demo_auth2) demo2_start)) \<and>
   verdict_inv demo_auth2 s (snd (do_authentication2 (demo_dispatch 5 demo_auth2) demo2_start))"
proof -
  let ?s = "snd (auth2_setup demo2_start)"
  have st: "auth2_setup demo2_start = (Inr (), ?s)" by (simp add: setup_run)
  have ns: "\<not> success (authctxt ?s)" using demo2_fresh by (simp add: setup_run fresh_def)
  have sv: "served demo_auth2 ?s (snd (do_authentication2 (demo_dispatch 5 demo_auth2) demo2_start))"
    using demo2_contract [of 5] demo2_returns ns
    by (simp add: dispatch_contract_def do_authentication2_def thenDo_run setup_run)
  from served_state_safe [OF demo_outside2 demo2_fresh st served_start]
    served_state_safe [OF demo_outside2 demo2_fresh st sv] sv
  show ?thesis by (simp add: Let_def)
qed

section \<open>Admission\<close>

text \<open>C1: When \<open>do_authentication2\<close> returns, exactly one success was announced, as the last verdict
  and right after the log entry of a success, for a user marked valid whose account is not root's
  unless root may use that method, and whom PAM's account check accepted where this process runs
  it; the client had had its service request accepted before.\<close>

theorem auth2_admission:
  assumes "outside2_ok A" and "dispatch_contract A dispatch_run" and "fresh s"
    and "do_authentication2 dispatch_run s = (Inr (), t)"
  shows "\<exists>fs m. verdicts t = verdicts s @ fs @
      [auth_log True m '' ssh2'', packet_start SSH2_MSG_USERAUTH_SUCCESS] \<and>
    packet_start SSH2_MSG_USERAUTH_SUCCESS \<notin> set fs \<and> cleared A m t \<and>
    packet_start SSH2_MSG_SERVICE_ACCEPT \<in> set (out t)"
proof -
  obtain u where u: "auth2_setup s = (Inr (), u)" by (simp add: setup_run)
  have eq: "verdicts u = verdicts s" "\<not> success (authctxt u)"
    using u assms(3) by (auto simp: setup_run verdicts_def fresh_def)
  have d: "dispatch_run u = (Inr (), t)"
    using assms(4) u by (simp add: do_authentication2_def thenDo_run)
  from assms(2) [unfolded dispatch_contract_def, rule_format, OF eq(2) d]
  have "served A u t" and succ: "success (authctxt t)" by simp_all
  from served_inv_all [OF assms(1,3) u this(1)] have inv: "verdict_inv A u t" and g: "gate_inv t"
    by (simp_all add: served_inv_def)
  from g succ have "packet_start SSH2_MSG_SERVICE_ACCEPT \<in> set (out t)" by (simp add: gate_inv_def)
  with inv succ eq(1) show ?thesis unfolding verdict_inv_def by auto
qed

theorem auth2_admission_witness:
  "\<exists>fs m. verdicts (snd (do_authentication2 (demo_dispatch 5 demo_auth2) demo2_start)) =
     verdicts demo2_start @ fs @ [auth_log True m '' ssh2'', packet_start SSH2_MSG_USERAUTH_SUCCESS]"
  using auth2_admission [OF demo_outside2 demo2_contract demo2_fresh demo2_returns] by blast

section \<open>Who is being authenticated\<close>

definition same_identity :: "'w sshd \<Rightarrow> 'w sshd \<Rightarrow> bool" where
  "same_identity s t \<longleftrightarrow>
     user (authctxt t) = user (authctxt s) \<and> service (authctxt t) = service (authctxt s) \<and>
     pw (authctxt t) = pw (authctxt s) \<and> valid (authctxt t) = valid (authctxt s) \<and>
     attempt (authctxt s) \<le> attempt (authctxt t)"

lemma same_identity_trans: "same_identity s t \<Longrightarrow> same_identity t u \<Longrightarrow> same_identity s u"
  by (simp add: same_identity_def)

lemma auth_same_identity: "auth_same s t \<Longrightarrow> same_identity s t"
  by (simp add: auth_same_def same_identity_def)

lemma finish_identity:
  assumes "userauth_finish A r m s = (Inr (), t)"
  shows "same_identity s t"
proof -
  from finish_cases [OF assms] obtain r' u where su: "auth_same s u"
    and rest: "let v = u\<lparr>out := out u @ [auth_log (r' \<noteq> 0) m '' ssh2'']\<rparr>
         in if postponed (authctxt u) then t = v else userauth_reply A r' m v = (Inr (), t)" by blast
  have "same_identity u t"
    using rest reply_cases [of A r' m _ t]
    by (fastforce simp: same_identity_def Let_def split: if_splits)
  with auth_same_identity [OF su] show ?thesis by (rule same_identity_trans)
qed

lemma handler_identity:
  assumes ok: "outside2_ok A" and at: "0 < attempt (authctxt s)"
    and run: "run_handler A h s = (Inr (), t)"
  shows "same_identity s t"
proof (cases h)
  case input_userauth_request_h
  with run have "input_userauth_request A s = (Inr (), t)" by (simp add: run_handler_def)
  from request_cases [OF ok this] at obtain u r m where fin: "userauth_finish A r m u = (Inr (), t)"
    and "same_identity s u" unfolding same_identity_def by (smt (verit))
  with finish_identity [OF fin] show ?thesis by (blast intro: same_identity_trans)
next
  case (other_handler k)
  with run obtain r u where u: "run_other A k s = (Inr r, u)"
    and rest: "(case r of None \<Rightarrow> ret () | Some (a, m) \<Rightarrow> userauth_finish A a m) u = (Inr (), t)"
    by (auto simp: run_handler_def andThen_Inr)
  have "auth_same s u"
    using ok keeps_authD [of "run_other A k" s "Inr r" u] u by (simp add: outside2_ok_def)
  then have su: "same_identity s u" by (rule auth_same_identity)
  moreover have "same_identity u t"
    using rest finish_identity [of A _ _ u t]
    by (auto simp: ret_run same_identity_def split: option.splits)
  ultimately show ?thesis by (rule same_identity_trans)
qed (use run in \<open>auto simp: run_handler_def extx_run ret_run input_service_request_def andThen_Inr
      thenDo_Inr gets_run stop_run dispatch_set_run emit_run same_identity_def split: if_splits\<close>)

text \<open>C6: Once a first request was made, no later packet changes the user, the service, the account
  or its validity, and attempts are only counted up: a client cannot switch identity within a
  connection.\<close>

theorem identity_fixed:
  assumes "outside2_ok A" and "0 < attempt (authctxt s)" and "served A s t"
  shows "same_identity s t"
  using assms(3)
proof induction
  case served_start
  then show ?case by (simp add: same_identity_def)
next
  case (served_packet t ty u h v)
  from served_packet.hyps obtain w where u: "u = t\<lparr>world := w\<rparr>" by (auto simp: extx_run)
  with served_packet.IH have su: "same_identity s u" by (simp add: same_identity_def)
  with assms(2) have "0 < attempt (authctxt u)" by (simp add: same_identity_def)
  from handler_identity [OF assms(1) this served_packet.hyps(5)] su show ?case
    by (blast intro: same_identity_trans)
qed

definition demo2_second :: "buf_item list list sshd" where
  "demo2_second = (demo_state [[BInt 50], [BStr ''bob''], [BStr ''ssh-connection''], [BStr ''none'']])
     \<lparr>authctxt := demo_authctxt\<lparr>attempt := 1, service := ''ssh-connection''\<rparr>,
      dispatch_table := [SSH2_MSG_USERAUTH_REQUEST \<mapsto> Some input_userauth_request_h]\<rparr>"

lemma demo2_second_step:
  "served demo_auth2 demo2_second
     (snd (run_handler demo_auth2 input_userauth_request_h (demo2_second\<lparr>world := tl (world demo2_second)\<rparr>)))"
proof (rule served_packet [OF served_start])
  show "\<not> success (authctxt demo2_second)"
    by (simp add: demo2_second_def demo_state_def demo_authctxt_def)
  show "extx (packet_read (base demo_auth2)) demo2_second =
      (Inr SSH2_MSG_USERAUTH_REQUEST, demo2_second\<lparr>world := tl (world demo2_second)\<rparr>)"
    by (simp add: demo2_second_def demo_state_def extx_run demo_auth2_def demo2_read_def)
  show "handler_for (demo2_second\<lparr>world := tl (world demo2_second)\<rparr>) SSH2_MSG_USERAUTH_REQUEST =
      Some input_userauth_request_h"
    by (simp add: demo2_second_def handler_for_def)
  have "fst (run_handler demo_auth2 input_userauth_request_h
      (demo2_second\<lparr>world := tl (world demo2_second)\<rparr>)) = Inr ()" by code_simp
  then show "run_handler demo_auth2 input_userauth_request_h
      (demo2_second\<lparr>world := tl (world demo2_second)\<rparr>) = (Inr (), snd (run_handler demo_auth2
        input_userauth_request_h (demo2_second\<lparr>world := tl (world demo2_second)\<rparr>)))"
    by (simp add: prod_eq_iff)
qed

theorem identity_fixed_witness:
  "0 < attempt (authctxt demo2_second) \<and> same_identity demo2_second
     (snd (run_handler demo_auth2 input_userauth_request_h (demo2_second\<lparr>world := tl (world demo2_second)\<rparr>)))"
proof -
  have "0 < attempt (authctxt demo2_second)" by (simp add: demo2_second_def)
  with identity_fixed [OF demo_outside2 this demo2_second_step] show ?thesis by blast
qed

section \<open>The list of methods\<close>

definition advertised :: "('w, 'b) auth2_env \<Rightarrow> 'w \<Rightarrow> string list" where
  "advertised A w = map (method_name A)
     (filter (\<lambda>m. method_name A m \<noteq> ''none'' \<and> method_enabled A m w = Some True) (authmethods A))"

primrec comma_join :: "string list \<Rightarrow> string" where
  "comma_join [] = []"
| "comma_join (x # xs) = x @ (if xs = [] then [] else '','' @ comma_join xs)"

lemma comma_join_snoc:
  "xs \<noteq> [] \<Longrightarrow> comma_join (xs @ [x]) = comma_join xs @ '','' @ x"
  by (induction xs) auto

lemma comma_join_Nil: "(\<forall>x \<in> set xs. x \<noteq> []) \<Longrightarrow> comma_join xs = [] \<longleftrightarrow> xs = []"
  by (cases xs) auto

lemma methods_loop_join:
  assumes "\<And>m. method_name A m \<noteq> []" and "\<forall>x \<in> set done_names. x \<noteq> []"
  shows "methods_loop A w ms (comma_join done_names) = comma_join (done_names @
    map (method_name A) (filter (\<lambda>m. method_name A m \<noteq> ''none'' \<and> method_enabled A m w = Some True) ms))"
  using assms(2)
proof (induction ms arbitrary: done_names)
  case Nil
  then show ?case by simp
next
  case (Cons m ms)
  show ?case
  proof (cases "method_name A m \<noteq> ''none'' \<and> method_enabled A m w = Some True")
    case False
    with Cons show ?thesis by auto
  next
    case True
    have step: "(if 0 < length (comma_join done_names) then comma_join done_names @ '',''
        else comma_join done_names) @ method_name A m = comma_join (done_names @ [method_name A m])"
      using comma_join_Nil [OF Cons.prems] by (auto simp: comma_join_snoc)
    have "\<forall>x \<in> set (done_names @ [method_name A m]). x \<noteq> []"
      using Cons.prems assms(1) by simp
    from Cons.IH [OF this] True step show ?thesis by simp
  qed
qed

text \<open>The list sent with a failure is the comma-separated list of the enabled methods other than
  "none", in the order of the table; every name on it can be tried, and a name that can be tried
  is on it or is "none".\<close>

theorem method_list:
  assumes "\<And>m. method_name A m \<noteq> []" and "\<And>m. CHR 0x00 \<notin> set (method_name A m)"
  shows "authmethods_get A w = comma_join (advertised A w) \<and>
    (\<forall>n \<in> set (advertised A w). authmethod_lookup A w n \<noteq> None) \<and>
    (\<forall>n m. authmethod_lookup A w n = Some m \<longrightarrow> n = ''none'' \<or> n \<in> set (advertised A w))"
proof (intro conjI)
  have nul: "CHR 0x00 \<notin> set (comma_join (map (method_name A) ms))" for ms
    using assms(2) by (induction ms) auto
  have "methods_loop A w (authmethods A) [] = comma_join (advertised A w)"
    using methods_loop_join [where done_names = "[]", OF assms(1)] by (simp add: advertised_def)
  moreover have "cstr (x @ [CHR 0x00]) = x" if "CHR 0x00 \<notin> set x" for x
    using that unfolding cstr_def by (subst takeWhile_append2) auto
  ultimately show "authmethods_get A w = comma_join (advertised A w)"
    using nul unfolding authmethods_get_def advertised_def by simp
  show "\<forall>n \<in> set (advertised A w). authmethod_lookup A w n \<noteq> None"
    by (auto simp: advertised_def authmethod_lookup_def find_None_iff)
  show "\<forall>n m. authmethod_lookup A w n = Some m \<longrightarrow> n = ''none'' \<or> n \<in> set (advertised A w)"
    by (auto simp: advertised_def authmethod_lookup_def find_Some_iff)
qed

theorem method_list_witness:
  "authmethods_get demo_auth2 [] = ''publickey,password,keyboard-interactive'' \<and>
   authmethod_lookup demo_auth2 [] ''password'' = Some method_passwd"
proof -
  have "authmethods_get demo_auth2 [] = comma_join (advertised demo_auth2 [])"
    by (rule method_list [THEN conjunct1]) (auto simp: demo_auth2_def split: auth_method.splits)
  moreover have "comma_join (advertised demo_auth2 []) = ''publickey,password,keyboard-interactive''"
    by code_simp
  moreover have "authmethod_lookup demo_auth2 [] ''password'' = Some method_passwd" by code_simp
  ultimately show ?thesis by simp
qed

section \<open>Unknown users\<close>

text \<open>Setting the context up marks every user valid and gives every user an account, a
  placeholder where the password database has none or the service is another one, so the check for
  an authenticated invalid user can never stop \<open>userauth_finish\<close>.\<close>

theorem setup_makes_valid:
  assumes "setup_authctxt A u srv st r s = (Inr (), t)"
  shows "valid (authctxt t) \<and> pw (authctxt t) \<noteq> None \<and> check_valid n t = (Inr (), t)"
  using setup_result [OF assms] by (simp add: check_valid_def prog_simps)

theorem setup_makes_valid_witness:
  "fst (getpwnamallow (base demo_auth2) ''mallory'' []) = None \<and>
   valid (authctxt (snd (setup_authctxt demo_auth2 ''mallory'' ''ssh-connection'' None None (demo_state []))))"
proof -
  have "fst (setup_authctxt demo_auth2 ''mallory'' ''ssh-connection'' None None (demo_state [])) = Inr ()"
    by code_simp
  then have "setup_authctxt demo_auth2 ''mallory'' ''ssh-connection'' None None (demo_state []) =
     (Inr (), snd (setup_authctxt demo_auth2 ''mallory'' ''ssh-connection'' None None (demo_state [])))"
    by (simp add: prod_eq_iff)
  from setup_makes_valid [OF this] show ?thesis by (simp add: demo_auth2_def demo_auth_def)
qed

end
