(* ===== verification/LuaBase.thy ===== *)
theory LuaBase
  imports Prelude "HOL-Library.Signed_Division"
begin

text \<open>
  What the parts of the embedded Lua 5.3.2 (\<open>webproxy_aws/temp/lua-5.3.2/src\<close>) share: the widths
  of its integers, bytes and C strings as byte lists, and its own character classes
  (\<open>lctype.c\<close>, \<open>lctype.h\<close>).
\<close>

unbundle bit_operations_syntax

section \<open>Integers and bytes\<close>

type_synonym lua_Integer = "64 word"
type_synonym byte = "8 word"
type_synonym bytes = "byte list"

definition INT_MAX :: nat where
  "INT_MAX = 2 ^ 31 - 1"

text \<open>A string constant of the source, and reading a C string at an index up to its final NUL.\<close>

definition bytes_of :: "string \<Rightarrow> bytes" where
  "bytes_of s = map of_char s"

definition byte_at :: "bytes \<Rightarrow> nat \<Rightarrow> byte" where
  "byte_at s i = (if i < length s then s ! i else 0)"

lemma byte_at_append: "byte_at (s @ r) i = (if i < length s then s ! i else byte_at r (i - length s))"
  by (auto simp: byte_at_def nth_append)

lemma byte_at_Cons: "byte_at (b # r) i = (if i = 0 then b else byte_at r (i - 1))"
  by (auto simp: byte_at_def nth_Cons')

section \<open>Room on the stack\<close>

text \<open>
  The stack of a state as \<open>lua_checkstack\<close> sees it: the slots below \<open>L->top\<close>, those below
  \<open>L->stack_last\<close>, and whether memory for a number of further slots can be had.
\<close>

record lua_stack =
  stack_top :: int
  stack_last :: int
  stack_grows :: "int \<Rightarrow> bool"

definition LUAI_MAXSTACK :: int where "LUAI_MAXSTACK = 1000000"
definition EXTRA_STACK :: int where "EXTRA_STACK = 5"
definition LUA_MINSTACK :: int where "LUA_MINSTACK = 20"

definition lua_checkstack :: "lua_stack \<Rightarrow> int \<Rightarrow> bool" where
  "lua_checkstack L n =
     (if stack_last L - stack_top L > n then True
      else if stack_top L + EXTRA_STACK > LUAI_MAXSTACK - n then False
      else stack_grows L n)"

text \<open>
  \<open>luaL_checkstack\<close>: \<open>Some False\<close> makes it raise "stack overflow" with its message; \<open>None\<close>: the
  sum with the extra space overflows an \<open>int\<close>, which C leaves undefined.
\<close>

definition luaL_checkstack :: "lua_stack \<Rightarrow> int \<Rightarrow> bool option" where
  "luaL_checkstack L space =
     (if space + LUA_MINSTACK > int INT_MAX then None
      else Some (lua_checkstack L (space + LUA_MINSTACK)))"

section \<open>Bit operations on natural numbers\<close>

text \<open>
  C's shifts and masks on values that fit, as arithmetic: the facts by which the bit code of the
  components is compared with its meaning.
\<close>

lemma or_shifted: "b < 2 ^ n \<Longrightarrow> push_bit n a OR b = a * 2 ^ n + (b :: nat)"
proof -
  assume b: "b < 2 ^ n"
  have "\<not> bit (push_bit n a) k \<or> \<not> bit b k" for k
  proof (cases "k < n")
    case True
    then show ?thesis by (simp add: bit_push_bit_iff)
  next
    case False
    have "take_bit n b = b" using b by (simp add: take_bit_nat_eq_self)
    then have "\<not> bit b k" using False by (metis bit_take_bit_iff)
    then show ?thesis by simp
  qed
  then have "push_bit n a OR b = push_bit n a + b" by (simp add: disjunctive_add)
  then show ?thesis by (simp add: push_bit_eq_mult)
qed

lemma and_low: "a AND (2 ^ n - 1) = a mod (2 ^ n :: nat)"
  by (simp only: mask_eq_exp_minus_1 [symmetric] take_bit_eq_mask [symmetric] take_bit_eq_mod)

section \<open>Character classes\<close>

definition luai_ctype :: "nat list" where
  "luai_ctype =
     [0x00,
      0x00, 0x00, 0x00, 0x00, 0x00, 0x00, 0x00, 0x00,
      0x00, 0x08, 0x08, 0x08, 0x08, 0x08, 0x00, 0x00,
      0x00, 0x00, 0x00, 0x00, 0x00, 0x00, 0x00, 0x00,
      0x00, 0x00, 0x00, 0x00, 0x00, 0x00, 0x00, 0x00,
      0x0c, 0x04, 0x04, 0x04, 0x04, 0x04, 0x04, 0x04,
      0x04, 0x04, 0x04, 0x04, 0x04, 0x04, 0x04, 0x04,
      0x16, 0x16, 0x16, 0x16, 0x16, 0x16, 0x16, 0x16,
      0x16, 0x16, 0x04, 0x04, 0x04, 0x04, 0x04, 0x04,
      0x04, 0x15, 0x15, 0x15, 0x15, 0x15, 0x15, 0x05,
      0x05, 0x05, 0x05, 0x05, 0x05, 0x05, 0x05, 0x05,
      0x05, 0x05, 0x05, 0x05, 0x05, 0x05, 0x05, 0x05,
      0x05, 0x05, 0x05, 0x04, 0x04, 0x04, 0x04, 0x05,
      0x04, 0x15, 0x15, 0x15, 0x15, 0x15, 0x15, 0x05,
      0x05, 0x05, 0x05, 0x05, 0x05, 0x05, 0x05, 0x05,
      0x05, 0x05, 0x05, 0x05, 0x05, 0x05, 0x05, 0x05,
      0x05, 0x05, 0x05, 0x04, 0x04, 0x04, 0x04, 0x00] @ replicate 128 0x00"

definition ALPHABIT :: nat where "ALPHABIT = 0"
definition DIGITBIT :: nat where "DIGITBIT = 1"
definition PRINTBIT :: nat where "PRINTBIT = 2"
definition SPACEBIT :: nat where "SPACEBIT = 3"
definition XDIGITBIT :: nat where "XDIGITBIT = 4"

definition MASK :: "nat \<Rightarrow> nat" where
  "MASK b = push_bit b 1"

text \<open>The index is the character plus one, so that EOZ (-1) has an entry.\<close>

definition testprop :: "int \<Rightarrow> nat \<Rightarrow> bool" where
  "testprop c p \<longleftrightarrow> luai_ctype ! nat (c + 1) AND p \<noteq> 0"

definition lislalpha :: "int \<Rightarrow> bool" where
  "lislalpha c \<longleftrightarrow> testprop c (MASK ALPHABIT)"

definition lislalnum :: "int \<Rightarrow> bool" where
  "lislalnum c \<longleftrightarrow> testprop c (MASK ALPHABIT OR MASK DIGITBIT)"

definition lisdigit :: "int \<Rightarrow> bool" where
  "lisdigit c \<longleftrightarrow> testprop c (MASK DIGITBIT)"

definition lisspace :: "int \<Rightarrow> bool" where
  "lisspace c \<longleftrightarrow> testprop c (MASK SPACEBIT)"

definition lisprint :: "int \<Rightarrow> bool" where
  "lisprint c \<longleftrightarrow> testprop c (MASK PRINTBIT)"

definition lisxdigit :: "int \<Rightarrow> bool" where
  "lisxdigit c \<longleftrightarrow> testprop c (MASK XDIGITBIT)"

definition ltolower :: "int \<Rightarrow> int" where
  "ltolower c = c OR (65 XOR 97)"

text \<open>The table against a predicate: the first 129 entries are computed, the others are 0.\<close>

lemma ctype_entry:
  assumes "list_all (\<lambda>(i, b). (b AND p \<noteq> 0) = P (i - 1)) (zip (map int [0..<129]) (take 129 luai_ctype))"
    and "c \<in> {-1..255}" and "\<And>c. 128 \<le> c \<Longrightarrow> \<not> P c"
  shows "testprop c p = P c"
proof (cases "c < 128")
  case True
  define k where "k = nat (c + 1)"
  from True assms(2) have k: "k < 129" "int k - 1 = c" by (auto simp: k_def)
  have "length luai_ctype = 257" by (simp add: luai_ctype_def)
  then have len: "length (zip (map int [0..<129]) (take 129 luai_ctype)) = 129"
    and "zip (map int [0..<129]) (take 129 luai_ctype) ! k = (int k, luai_ctype ! k)"
    using k(1) by (simp_all del: upt_rec_numeral)
  with assms(1) k len show ?thesis
    by (auto simp: list_all_length testprop_def k_def)
next
  case False
  with assms(2) have "nat (c + 1) - 129 < 128" "129 \<le> nat (c + 1)" by auto
  then have "luai_ctype ! nat (c + 1) = 0"
    unfolding luai_ctype_def by (subst nth_append) simp
  with False assms(3) show ?thesis by (simp add: testprop_def)
qed

lemma ctype_classes:
  assumes "c \<in> {-1..255}"
  shows "lisdigit c \<longleftrightarrow> 48 \<le> c \<and> c \<le> 57"
    and "lislalpha c \<longleftrightarrow> 65 \<le> c \<and> c \<le> 90 \<or> 97 \<le> c \<and> c \<le> 122 \<or> c = 95"
    and "lislalnum c \<longleftrightarrow> 48 \<le> c \<and> c \<le> 57 \<or> 65 \<le> c \<and> c \<le> 90 \<or> 97 \<le> c \<and> c \<le> 122 \<or> c = 95"
    and "lisxdigit c \<longleftrightarrow> 48 \<le> c \<and> c \<le> 57 \<or> 65 \<le> c \<and> c \<le> 70 \<or> 97 \<le> c \<and> c \<le> 102"
    and "lisspace c \<longleftrightarrow> 9 \<le> c \<and> c \<le> 13 \<or> c = 32"
    and "lisprint c \<longleftrightarrow> 32 \<le> c \<and> c \<le> 126"
  unfolding lisdigit_def lislalpha_def lislalnum_def lisxdigit_def lisspace_def lisprint_def
  by (rule ctype_entry [OF _ assms]; code_simp | simp)+

lemma ltolower_letter:
  assumes "c \<in> {65..90} \<union> {97..122}"
  shows "ltolower c = (if c \<le> 90 then c + 32 else c)"
proof -
  have "list_all (\<lambda>c. ltolower c = (if c \<le> 90 then c + 32 else c))
      (map int ([65..<91] @ [97..<123]))" by code_simp
  moreover have "nat c \<in> set ([65..<91] @ [97..<123])"
    unfolding set_append set_upt using assms by auto
  then have "c \<in> set (map int ([65..<91] @ [97..<123]))"
    unfolding set_map using assms by (intro image_eqI [of _ _ "nat c"]) auto
  ultimately show ?thesis unfolding list_all_iff by blast
qed

text \<open>The packed table of character classes says what its bit names promise for every byte and
  for the end-of-stream mark: letters with the underscore, decimal and hexadecimal digits, white
  space and printable ASCII; and the branch-free lower-casing is right on letters.\<close>

theorem ctype_table_correct:
  "\<forall>c \<in> {-1..255}.
     (lisdigit c \<longleftrightarrow> 48 \<le> c \<and> c \<le> 57) \<and>
     (lislalpha c \<longleftrightarrow> 65 \<le> c \<and> c \<le> 90 \<or> 97 \<le> c \<and> c \<le> 122 \<or> c = 95) \<and>
     (lislalnum c \<longleftrightarrow> lislalpha c \<or> lisdigit c) \<and>
     (lisxdigit c \<longleftrightarrow> lisdigit c \<or> 65 \<le> c \<and> c \<le> 70 \<or> 97 \<le> c \<and> c \<le> 102) \<and>
     (lisspace c \<longleftrightarrow> 9 \<le> c \<and> c \<le> 13 \<or> c = 32) \<and>
     (lisprint c \<longleftrightarrow> 32 \<le> c \<and> c \<le> 126) \<and>
     (lislalpha c \<and> c \<noteq> 95 \<longrightarrow> ltolower c = (if c \<le> 90 then c + 32 else c))"
  using ctype_classes ltolower_letter by auto

theorem ctype_table_correct_witness:
  "lisxdigit 65 \<and> \<not> lisdigit 65 \<and> ltolower 65 = 97 \<and> \<not> lisspace (-1)"
proof -
  note t = ctype_table_correct [rule_format]
  show ?thesis using t [of 65] t [of "-1"] by simp
qed

end
