(* ===== verification/LuaObject.thy ===== *)
theory LuaObject
  imports LuaBase
begin

text \<open>
  The pure routines of \<open>lobject.c\<close>, and the integer arithmetic of \<open>lvm.c\<close> that they share:
  floor division and modulus, shifts, the "floating point byte" of the constructor opcodes,
  ceil(log2), reading integer numerals, UTF-8 escapes and the display name of a chunk.
\<close>

section \<open>Integer arithmetic\<close>

text \<open>C's \<open>/\<close> and \<open>%\<close> on signed integers, which truncate.\<close>

definition c_div :: "lua_Integer \<Rightarrow> lua_Integer \<Rightarrow> lua_Integer" where
  "c_div m n = word_of_int (sint m sdiv sint n)"

definition c_mod :: "lua_Integer \<Rightarrow> lua_Integer \<Rightarrow> lua_Integer" where
  "c_mod m n = word_of_int (sint m smod sint n)"

text \<open>An error is the text given to \<open>luaG_runerror\<close>.\<close>

definition luaV_div :: "lua_Integer \<Rightarrow> lua_Integer \<Rightarrow> string + lua_Integer" where
  "luaV_div m n =
     (if n + 1 \<le> 1 then
        if n = 0 then Inl ''attempt to divide by zero'' else Inr (0 - m)
      else
        let q = c_div m n
        in Inr (if (m XOR n) <s 0 \<and> c_mod m n \<noteq> 0 then q - 1 else q))"

definition luaV_mod :: "lua_Integer \<Rightarrow> lua_Integer \<Rightarrow> string + lua_Integer" where
  "luaV_mod m n =
     (if n + 1 \<le> 1 then
        if n = 0 then Inl (''attempt to perform '' @ CHR 0x27 # ''n%%0'' @ [CHR 0x27]) else Inr 0
      else
        let r = c_mod m n
        in Inr (if r \<noteq> 0 \<and> (m XOR n) <s 0 then r + n else r))"

definition luaV_shiftl :: "lua_Integer \<Rightarrow> lua_Integer \<Rightarrow> lua_Integer" where
  "luaV_shiftl x y =
     (if y <s 0 then if y \<le>s -64 then 0 else drop_bit (unat (- y)) x
      else if 64 \<le>s y then 0 else push_bit (unat y) x)"

datatype arith_op =
    LUA_OPADD | LUA_OPSUB | LUA_OPMUL | LUA_OPMOD | LUA_OPIDIV | LUA_OPBAND | LUA_OPBOR
  | LUA_OPBXOR | LUA_OPSHL | LUA_OPSHR | LUA_OPUNM | LUA_OPBNOT

fun intarith :: "arith_op \<Rightarrow> lua_Integer \<Rightarrow> lua_Integer \<Rightarrow> string + lua_Integer" where
  "intarith LUA_OPADD v1 v2 = Inr (v1 + v2)"
| "intarith LUA_OPSUB v1 v2 = Inr (v1 - v2)"
| "intarith LUA_OPMUL v1 v2 = Inr (v1 * v2)"
| "intarith LUA_OPMOD v1 v2 = luaV_mod v1 v2"
| "intarith LUA_OPIDIV v1 v2 = luaV_div v1 v2"
| "intarith LUA_OPBAND v1 v2 = Inr (v1 AND v2)"
| "intarith LUA_OPBOR v1 v2 = Inr (v1 OR v2)"
| "intarith LUA_OPBXOR v1 v2 = Inr (v1 XOR v2)"
| "intarith LUA_OPSHL v1 v2 = Inr (luaV_shiftl v1 v2)"
| "intarith LUA_OPSHR v1 v2 = Inr (luaV_shiftl v1 (- v2))"
| "intarith LUA_OPUNM v1 v2 = Inr (0 - v1)"
| "intarith LUA_OPBNOT v1 v2 = Inr (NOT 0 XOR v1)"

section \<open>Floating point byte\<close>

text \<open>The argument is an \<open>unsigned int\<close>: the additions wrap at 32 bits.\<close>

function fb_coarse :: "nat \<Rightarrow> nat \<Rightarrow> nat \<times> nat" where
  "fb_coarse x e =
     (if x \<ge> push_bit 4 8 then fb_coarse (drop_bit 4 ((x + 0xf) mod 2 ^ 32)) (e + 4) else (x, e))"
  by auto
termination
proof (relation "measure fst"; clarsimp simp: drop_bit_eq_div push_bit_eq_mult)
  fix x :: nat
  assume "128 \<le> x"
  moreover have "(x + 15) mod 4294967296 \<le> x + 15" by (rule mod_less_eq_dividend)
  ultimately show "(x + 15) mod 4294967296 div 16 < x" by linarith
qed

function fb_fine :: "nat \<Rightarrow> nat \<Rightarrow> nat \<times> nat" where
  "fb_fine x e =
     (if x \<ge> push_bit 1 8 then fb_fine (drop_bit 1 ((x + 1) mod 2 ^ 32)) (e + 1) else (x, e))"
  by auto
termination
proof (relation "measure fst"; clarsimp simp: drop_bit_eq_div push_bit_eq_mult)
  fix x :: nat
  assume "16 \<le> x"
  moreover have "(x + 1) mod 4294967296 \<le> x + 1" by (rule mod_less_eq_dividend)
  ultimately show "Suc x mod 4294967296 div 2 < x" by linarith
qed

declare fb_coarse.simps [simp del] fb_fine.simps [simp del]

definition luaO_int2fb :: "nat \<Rightarrow> nat" where
  "luaO_int2fb x =
     (if x < 8 then x
      else case fb_coarse x 0 of (y, e) \<Rightarrow> case fb_fine y e of (z, e') \<Rightarrow>
        push_bit 3 (e' + 1) OR (z - 8))"

definition luaO_fb2int :: "nat \<Rightarrow> nat" where
  "luaO_fb2int x = (if x < 8 then x else push_bit (drop_bit 3 x - 1) ((x AND 7) + 8))"

section \<open>Ceil of log2\<close>

definition log_2 :: "nat list" where
  "log_2 =
     [0,1,2,2,3,3,3,3,4,4,4,4,4,4,4,4,5,5,5,5,5,5,5,5,5,5,5,5,5,5,5,5] @
     replicate 32 6 @ replicate 64 7 @ replicate 128 8"

function log2_loop :: "nat \<Rightarrow> nat \<Rightarrow> nat" where
  "log2_loop x l = (if x \<ge> 256 then log2_loop (drop_bit 8 x) (l + 8) else l + log_2 ! x)"
  by auto
termination by (relation "measure fst") (auto simp: drop_bit_eq_div)

declare log2_loop.simps [simp del]

text \<open>\<open>x--\<close> on an \<open>unsigned int\<close>.\<close>

definition luaO_ceillog2 :: "nat \<Rightarrow> nat" where
  "luaO_ceillog2 x = log2_loop ((x + (2 ^ 32 - 1)) mod 2 ^ 32) 0"


section \<open>Integer numerals\<close>

definition lis :: "(int \<Rightarrow> bool) \<Rightarrow> byte \<Rightarrow> bool" where
  "lis p c = p (uint c)"

definition luaO_hexavalue :: "byte \<Rightarrow> int" where
  "luaO_hexavalue c =
     (if lis lisdigit c then uint c - 48 else (ltolower (uint c) - 97) + 10)"

definition isneg :: "bytes \<Rightarrow> bool \<times> bytes" where
  "isneg s =
     (if byte_at s 0 = 45 then (True, tl s)
      else if byte_at s 0 = 43 then (False, tl s) else (False, s))"

fun skip_spaces :: "bytes \<Rightarrow> bytes" where
  "skip_spaces [] = []"
| "skip_spaces (c # s) = (if lis lisspace c then skip_spaces s else c # s)"

text \<open>The digit loops: the value read so far, whether no digit was read, the rest.\<close>

fun hex_digits :: "bytes \<Rightarrow> lua_Integer \<Rightarrow> bool \<Rightarrow> lua_Integer \<times> bool \<times> bytes" where
  "hex_digits [] a nothing = (a, nothing, [])"
| "hex_digits (c # s) a nothing =
     (if lis lisxdigit c then hex_digits s (a * 16 + word_of_int (luaO_hexavalue c)) False
      else (a, nothing, c # s))"

fun dec_digits :: "bytes \<Rightarrow> lua_Integer \<Rightarrow> bool \<Rightarrow> lua_Integer \<times> bool \<times> bytes" where
  "dec_digits [] a nothing = (a, nothing, [])"
| "dec_digits (c # s) a nothing =
     (if lis lisdigit c then dec_digits s (a * 10 + word_of_int (uint c) - word_of_int 48) False
      else (a, nothing, c # s))"

text \<open>The numeral is a C string: the list holds the bytes before the final NUL.\<close>

definition l_str2int :: "bytes \<Rightarrow> lua_Integer option" where
  "l_str2int s0 =
     (let s1 = skip_spaces s0;
          (neg, s2) = isneg s1;
          (a, nothing, s3) =
            (if byte_at s2 0 = 48 \<and> (byte_at s2 1 = 120 \<or> byte_at s2 1 = 88)
             then hex_digits (drop 2 s2) 0 True else dec_digits s2 0 True);
          s4 = skip_spaces s3
      in if nothing \<or> byte_at s4 0 \<noteq> 0 then None else Some (if neg then 0 - a else a))"

text \<open>\<open>lua_integer2str\<close>: \<open>sprintf\<close> with \<open>%lld\<close>.\<close>

fun decimal_bytes :: "nat \<Rightarrow> bytes" where
  "decimal_bytes n =
     (if n < 10 then [word_of_nat (48 + n)]
      else decimal_bytes (n div 10) @ [word_of_nat (48 + n mod 10)])"

declare decimal_bytes.simps [simp del]

definition lua_integer2str :: "lua_Integer \<Rightarrow> bytes" where
  "lua_integer2str i =
     (if sint i < 0 then 45 # decimal_bytes (nat (- sint i)) else decimal_bytes (nat (sint i)))"

section \<open>UTF-8 escapes\<close>

text \<open>
  The buffer is filled from its end; the list is the part of it that was written. \<open>mfb\<close> is an
  \<open>unsigned int\<close>, and \<open>cast(char, ...)\<close> keeps the low byte.
\<close>

function utf8_cont :: "nat \<Rightarrow> nat \<Rightarrow> bytes \<Rightarrow> bytes" where
  "utf8_cont x mfb buff =
     (let buff' = word_of_nat (0x80 OR (x AND 0x3f)) # buff;
          x' = drop_bit 6 x;
          mfb' = drop_bit 1 mfb
      in if x' > mfb' then utf8_cont x' mfb' buff'
         else word_of_nat (push_bit 1 (2 ^ 32 - 1 - mfb') mod 2 ^ 32 OR x') # buff')"
  by pat_completeness auto
termination by (relation "measure (\<lambda>(x, _, _). x)") (auto simp: drop_bit_eq_div)

declare utf8_cont.simps [simp del]

definition luaO_utf8esc :: "nat \<Rightarrow> bytes" where
  "luaO_utf8esc x = (if x < 0x80 then [word_of_nat x] else utf8_cont x 0x3f [])"

section \<open>Chunk names\<close>

definition RETS :: bytes where "RETS = bytes_of ''...''"
definition PRE :: bytes where "PRE = bytes_of ''[string '' @ [0x22]"
definition POS :: bytes where "POS = [0x22, 0x5d]"

text \<open>
  The bytes written to \<open>out\<close>, the final NUL included. \<open>source\<close> is the C string before its NUL;
  \<open>bufflen\<close> is a \<open>size_t\<close> that the callers set to \<open>LUA_IDSIZE\<close>.
\<close>

definition luaO_chunkid :: "bytes \<Rightarrow> nat \<Rightarrow> bytes" where
  "luaO_chunkid source bufflen =
     (let l = length source in
      if byte_at source 0 = 0x3d then
        if l \<le> bufflen then take l (drop 1 (source @ [0]))
        else take (bufflen - 1) (drop 1 source) @ [0]
      else if byte_at source 0 = 0x40 then
        if l \<le> bufflen then take l (drop 1 (source @ [0]))
        else RETS @ take (bufflen - length RETS) (drop (1 + l - (bufflen - length RETS)) (source @ [0]))
      else
        let nl = (if 10 \<in> set source then Some (length (takeWhile (\<lambda>c. c \<noteq> 10) source)) else None);
            room = bufflen - (length PRE + length RETS + length POS + 1)
        in PRE @
           (if l < room \<and> nl = None then source
            else take (min (case nl of None \<Rightarrow> l | Some k \<Rightarrow> k) room) source @ RETS) @
           POS @ [0])"

end
