(* ===== verification/LuaUtf8.thy ===== *)
theory LuaUtf8
  imports LuaObject
begin

text \<open>
  \<open>lutf8lib.c\<close>: the UTF-8 library. The arguments of each library function are those left after
  \<open>luaL_checklstring\<close> and \<open>luaL_optinteger\<close>; its result is an error or the values it pushes.
  Positions are \<open>lua_Integer\<close>s, held as \<open>int\<close>: no sum can leave 64 bits once \<open>u_posrelat\<close> has
  brought a position near the string; only \<open>iter_aux\<close> subtracts from an argument as it comes (its
  caller is the generic \<open>for\<close>, which passes positions the iterator returned).
\<close>

text \<open>\<open>Undefined_shift\<close> and \<open>Undefined_sum\<close>: a shift too far and an overflow of an \<open>int\<close>.\<close>

datatype utf8_error = Arg_error nat string | Lua_error string | Undefined_shift | Undefined_sum

definition MAXUNICODE :: nat where "MAXUNICODE = 0x10FFFF"

definition iscont :: "byte \<Rightarrow> bool" where
  "iscont b \<longleftrightarrow> unat b AND 0xC0 = 0x80"

definition u_posrelat :: "int \<Rightarrow> nat \<Rightarrow> int" where
  "u_posrelat pos len =
     (if pos \<ge> 0 then pos else if - pos > int len then 0 else int len + pos + 1)"

section \<open>Decoding one sequence\<close>

text \<open>
  \<open>Bad_shift\<close>: the shift of the first byte's bits by \<open>count * 5\<close> is not below the width of
  \<open>unsigned int\<close>, which C leaves undefined.
\<close>

datatype decoded = Decoded nat nat | Invalid | Bad_shift

definition limits :: "nat list" where
  "limits = [0xFF, 0x7F, 0x7FF, 0xFFFF]"

lemma test_bit_6: "c AND 0x40 \<noteq> 0 \<longleftrightarrow> odd (c div 64)" for c :: nat
  using and_exp_eq_0_iff_not_bit [of c 6] by (simp add: bit_iff_odd)

text \<open>Each turn shifts bit 6 out of the low seven bits, which get smaller.\<close>

lemma shift_decreases:
  assumes "0 < c AND (64 :: nat)"
  shows "c * 2 mod 4294967296 mod 128 < c mod 128"
proof -
  define k r where "k = c div 64 div 2" and "r = c mod 64"
  have "odd (c div 64)" using assms test_bit_6 [of c] by simp
  then have "c div 64 = 2 * k + 1" by (simp add: k_def odd_two_times_div_two_succ)
  then have c: "c = 128 * k + (64 + r)" using div_mult_mod_eq [of c 64] by (simp add: r_def)
  have r: "r < 64" by (simp add: r_def)
  have e: "c * 2 = 128 * (2 * k + 1) + 2 * r" using c by simp
  have "c * 2 mod 128 = 2 * r mod 128" unfolding e by (rule mod_mult_self4)
  then have "c * 2 mod 128 = 2 * r" using r by simp
  moreover have "c mod 128 = 64 + r" using c r by simp
  moreover have "c * 2 mod 4294967296 mod 128 = c * 2 mod 128" by (simp add: mod_mod_cancel)
  ultimately show ?thesis using r by simp
qed

text \<open>\<open>while (c & 0x40)\<close>, on \<open>unsigned int\<close>s: the last \<open>c\<close>, the count and the bits read.\<close>

function utf8_more :: "bytes \<Rightarrow> nat \<Rightarrow> nat \<Rightarrow> nat \<Rightarrow> (nat \<times> nat \<times> nat) option" where
  "utf8_more s c count res =
     (if c AND 0x40 \<noteq> 0 then
        let cc = unat (byte_at s (count + 1)) in
        if cc AND 0xC0 \<noteq> 0x80 then None
        else utf8_more s (push_bit 1 c mod 2 ^ 32) (count + 1)
               ((push_bit 6 res OR (cc AND 0x3F)) mod 2 ^ 32)
      else Some (c, count, res))"
  by pat_completeness auto

termination
  by (relation "measure (\<lambda>(s, c, count, res). c mod 128)")
     (auto simp: push_bit_eq_mult dest: shift_decreases)

declare utf8_more.simps [simp del]

definition utf8_decode :: "bytes \<Rightarrow> decoded" where
  "utf8_decode s =
     (let c = unat (byte_at s 0) in
      if c < 0x80 then Decoded c 1
      else case utf8_more s c 0 0 of
        None \<Rightarrow> Invalid
      | Some (c', count, res) \<Rightarrow>
          if count * 5 \<ge> 32 then Bad_shift
          else
            let res' = res OR push_bit (count * 5) (c' AND 0x7F) mod 2 ^ 32
            in if count > 3 \<or> res' > MAXUNICODE \<or> res' \<le> limits ! count then Invalid
               else Decoded res' (count + 1))"

lemma decoded_progress: "utf8_decode s = Decoded c k \<Longrightarrow> 0 < k"
  by (auto simp: utf8_decode_def Let_def split: if_splits option.splits prod.splits)

section \<open>Library functions\<close>

text \<open>\<open>utf8.len\<close>: the number of characters, an \<open>int\<close>, or the position of the first invalid byte.\<close>

function utflen_loop :: "bytes \<Rightarrow> nat \<Rightarrow> int \<Rightarrow> nat \<Rightarrow> utf8_error + (nat + nat)" where
  "utflen_loop s posi posj n =
     (if int posi \<le> posj then
        (case utf8_decode (drop posi s) of
           Invalid \<Rightarrow> Inr (Inl (posi + 1))
         | Bad_shift \<Rightarrow> Inl Undefined_shift
         | Decoded c k \<Rightarrow>
             if n \<ge> INT_MAX then Inl Undefined_sum else utflen_loop s (posi + k) posj (n + 1))
      else Inr (Inr n))"
  by pat_completeness auto
termination
  by (relation "measure (\<lambda>(s, posi, posj, n). nat (posj + 1 - int posi))")
     (auto dest!: decoded_progress)

declare utflen_loop.simps [simp del]

definition utflen :: "bytes \<Rightarrow> int \<Rightarrow> int \<Rightarrow> utf8_error + (nat + nat)" where
  "utflen s i j =
     (let len = length s; posi = u_posrelat i len; posj = u_posrelat j len in
      if \<not> (1 \<le> posi \<and> posi - 1 \<le> int len) then Inl (Arg_error 2 ''initial position out of string'')
      else if \<not> posj - 1 < int len then Inl (Arg_error 3 ''final position out of string'')
      else utflen_loop s (nat (posi - 1)) (posj - 1) 0)"

text \<open>\<open>utf8.codepoint\<close>: the codes of the characters that start in the interval.\<close>

function codepoint_loop :: "bytes \<Rightarrow> nat \<Rightarrow> nat \<Rightarrow> utf8_error + nat list" where
  "codepoint_loop s pos pose =
     (if pos < pose then
        (case utf8_decode (drop pos s) of
           Invalid \<Rightarrow> Inl (Lua_error ''invalid UTF-8 code'')
         | Bad_shift \<Rightarrow> Inl Undefined_shift
         | Decoded c k \<Rightarrow> (case codepoint_loop s (pos + k) pose of
               Inl e \<Rightarrow> Inl e | Inr cs \<Rightarrow> Inr (c # cs)))
      else Inr [])"
  by pat_completeness auto
termination
  by (relation "measure (\<lambda>(s, pos, pose). pose - pos)") (auto dest!: decoded_progress)

declare codepoint_loop.simps [simp del]

definition codepoint :: "lua_stack \<Rightarrow> bytes \<Rightarrow> int \<Rightarrow> int option \<Rightarrow> utf8_error + nat list" where
  "codepoint L s i j =
     (let len = length s; posi = u_posrelat i len;
          pose = u_posrelat (case j of None \<Rightarrow> posi | Some j' \<Rightarrow> j') len in
      if \<not> posi \<ge> 1 then Inl (Arg_error 2 ''out of range'')
      else if \<not> pose \<le> int len then Inl (Arg_error 3 ''out of range'')
      else if posi > pose then Inr []
      else if pose - posi \<ge> int INT_MAX then Inl (Lua_error ''string slice too long'')
      else case luaL_checkstack L (pose - posi + 1) of
          None \<Rightarrow> Inl Undefined_sum
        | Some False \<Rightarrow> Inl (Lua_error ''stack overflow (string slice too long)'')
        | Some True \<Rightarrow> codepoint_loop s (nat (posi - 1)) (nat pose))"

text \<open>\<open>utf8.char\<close>.\<close>

definition pushutfchar :: "nat \<Rightarrow> int \<Rightarrow> utf8_error + bytes" where
  "pushutfchar arg code =
     (if 0 \<le> code \<and> code \<le> int MAXUNICODE then Inr (luaO_utf8esc (nat code))
      else Inl (Arg_error arg ''value out of range''))"

fun utfchar_from :: "nat \<Rightarrow> int list \<Rightarrow> utf8_error + bytes" where
  "utfchar_from i [] = Inr []"
| "utfchar_from i (code # codes) =
     (case pushutfchar i code of Inl e \<Rightarrow> Inl e
      | Inr b \<Rightarrow> (case utfchar_from (i + 1) codes of Inl e \<Rightarrow> Inl e | Inr bs \<Rightarrow> Inr (b @ bs)))"

definition utfchar :: "int list \<Rightarrow> utf8_error + bytes" where
  "utfchar codes = utfchar_from 1 codes"

text \<open>\<open>utf8.offset\<close>: the three searches and the function.\<close>

fun to_start :: "bytes \<Rightarrow> nat \<Rightarrow> nat" where
  "to_start s 0 = 0"
| "to_start s (Suc p) = (if iscont (byte_at s (Suc p)) then to_start s p else Suc p)"

lemma to_start_le: "to_start s p \<le> p"
  by (induction s p rule: to_start.induct) auto

function step_back :: "bytes \<Rightarrow> int \<Rightarrow> nat \<Rightarrow> int \<times> nat" where
  "step_back s n p = (if n < 0 \<and> p > 0 then step_back s (n + 1) (to_start s (p - 1)) else (n, p))"
  by pat_completeness auto
termination
proof (relation "measure (\<lambda>(s, n, p). p)", simp, goal_cases)
  case (1 s n p)
  then show ?case using to_start_le [of s "p - 1"] by auto
qed

function skip_cont :: "bytes \<Rightarrow> nat \<Rightarrow> nat" where
  "skip_cont s q = (if iscont (byte_at s q) then skip_cont s (q + 1) else q)"
  by pat_completeness auto
termination
  by (relation "measure (\<lambda>(s, q). length s - q)") (auto simp: iscont_def byte_at_def split: if_splits)

lemma skip_cont_ge: "q \<le> skip_cont s q"
proof (induction s q rule: skip_cont.induct)
  case (1 s q)
  then show ?case by (cases "iscont (byte_at s q)") (simp_all add: skip_cont.simps [of s q])
qed

function forward :: "bytes \<Rightarrow> int \<Rightarrow> nat \<Rightarrow> int \<times> nat" where
  "forward s n p =
     (if n > 0 \<and> p < length s then forward s (n - 1) (skip_cont s (p + 1)) else (n, p))"
  by pat_completeness auto
termination by (relation "measure (\<lambda>(s, n, p). nat n)") auto

declare step_back.simps [simp del] skip_cont.simps [simp del] forward.simps [simp del]

definition byteoffset :: "bytes \<Rightarrow> int \<Rightarrow> int option \<Rightarrow> utf8_error + nat option" where
  "byteoffset s n i =
     (let len = length s;
          posi = u_posrelat (case i of Some k \<Rightarrow> k | None \<Rightarrow> if n \<ge> 0 then 1 else int len + 1) len;
          p = nat (posi - 1) in
      if \<not> (1 \<le> posi \<and> posi - 1 \<le> int len) then Inl (Arg_error 3 ''position out of range'')
      else if n = 0 then Inr (Some (to_start s p + 1))
      else if iscont (byte_at s p) then Inl (Lua_error ''initial position is a continuation byte'')
      else
        let (n', p') = (if n < 0 then step_back s n p else forward s (n - 1) p)
        in Inr (if n' = 0 then Some (p' + 1) else None))"

text \<open>
  The iterator of \<open>utf8.codes\<close>: from the position of the previous character to the position and the
  code of the next one, \<open>None\<close> at the end.
\<close>

definition iter_aux :: "bytes \<Rightarrow> int \<Rightarrow> utf8_error + (nat \<times> nat) option" where
  "iter_aux s i =
     (let n0 = i - 1;
          n = (if n0 < 0 then 0
               else if n0 < int (length s) then skip_cont s (nat n0 + 1) else nat n0)
      in if n \<ge> length s then Inr None
         else case utf8_decode (drop n s) of
             Invalid \<Rightarrow> Inl (Lua_error ''invalid UTF-8 code'')
           | Bad_shift \<Rightarrow> Inl Undefined_shift
           | Decoded c k \<Rightarrow>
               if iscont (byte_at s (n + k)) then Inl (Lua_error ''invalid UTF-8 code'')
               else Inr (Some (n + 1, c)))"

end
