(* ===== verification/LuaObjectProps.thy ===== *)
theory LuaObjectProps
  imports LuaObject
begin

text \<open>
  The arithmetic of \<open>lobject.c\<close> and \<open>lvm.c\<close> against its meaning: floor division, shifts, the
  floating point byte, ceil(log2), integer numerals, UTF-8 escapes and chunk names.
\<close>

section \<open>Floor division and modulus\<close>

lemma unsigned_range: "n + 1 \<le> (1 :: lua_Integer) \<longleftrightarrow> n = 0 \<or> n = -1"
proof
  assume "n + 1 \<le> 1"
  then have "unat (n + 1) = 0 \<or> unat (n + 1) = unat (1 :: lua_Integer)"
    by (auto simp: word_le_nat_alt)
  then have "n + 1 = 0 \<or> n + 1 = 1"
    by (simp only: word_unat_eq_iff) simp
  then show "n = 0 \<or> n = -1" by (auto simp: eq_neg_iff_add_eq_0)
qed auto

lemma sint_bounds: "- (2 ^ 63) \<le> sint (n :: lua_Integer)" "sint n < 2 ^ 63"
  using sint_greater_eq [of n] sint_less [of n] by simp_all

lemma sint_of_int:
  "- (2 ^ 63) \<le> i \<Longrightarrow> i < 2 ^ 63 \<Longrightarrow> sint (word_of_int i :: lua_Integer) = i"
  by (simp add: sint_sbintrunc' signed_take_bit_int_eq_self)

lemma sint_zero_iff [simp]: "sint n = 0 \<longleftrightarrow> (n :: lua_Integer) = 0"
  by (rule signed_eq_0_iff)

lemma sint_cases:
  "sint (y :: lua_Integer) = (if uint y < 2 ^ 63 then uint y else uint y - 2 ^ 64)"
proof -
  have "0 \<le> uint y" "uint y < 2 ^ 64" using uint_lt2p [of y] by simp_all
  moreover have "sint y = (uint y + 2 ^ 63) mod 2 ^ 64 - 2 ^ 63"
    using int_word_sint [of "uint y", where ?'a = 64] by simp
  moreover have "(uint y + 2 ^ 63) mod 2 ^ 64 = uint y + 2 ^ 63 - 2 ^ 64" if "2 ^ 63 \<le> uint y"
    using that \<open>uint y < 2 ^ 64\<close> by (subst mod_pos_geq) auto
  ultimately show ?thesis by auto
qed

lemma sint_nonneg:
  assumes "0 \<le> sint (y :: lua_Integer)"
  shows "sint y = uint y"
proof (cases "uint y < 2 ^ 63")
  case True
  then show ?thesis by (simp only: sint_cases if_True)
next
  case False
  then have "sint y = uint y - 2 ^ 64" by (simp only: sint_cases if_False)
  moreover have "uint y < 2 ^ 64" using uint_lt2p [of y] by simp
  ultimately show ?thesis using assms by linarith
qed

lemma xor_sign: "(m XOR n) <s 0 \<longleftrightarrow> (sint m < 0) \<noteq> (sint (n :: lua_Integer) < 0)"
  using bit_last_iff [of m] bit_last_iff [of n] bit_last_iff [of "m XOR n"]
  by (simp add: word_sless_alt bit_xor_iff)

lemma word_of_int_0_iff:
  "- (2 ^ 63) \<le> i \<Longrightarrow> i < 2 ^ 63 \<Longrightarrow> (word_of_int i :: lua_Integer) = 0 \<longleftrightarrow> i = 0"
  by (metis sint_of_int signed_0 of_int_0)

lemma c_mod_zero:
  assumes "n \<noteq> 0"
  shows "c_mod m n = 0 \<longleftrightarrow> sint n dvd sint m"
proof -
  have nz: "sint n \<noteq> 0" using assms by simp
  have "\<bar>sint n\<bar> \<le> 2 ^ 63" using sint_bounds [of n] by auto
  with smod_int_range [OF nz, of "sint m"]
  have "- (2 ^ 63) \<le> sint m smod sint n" "sint m smod sint n < 2 ^ 63" by auto
  then have "c_mod m n = 0 \<longleftrightarrow> sint m smod sint n = 0" by (simp add: c_mod_def word_of_int_0_iff)
  also have "\<dots> \<longleftrightarrow> sint n dvd sint m"
    by (auto simp: smod_int_alt_def sgn_0_0 dvd_eq_mod_eq_0 [symmetric])
  finally show ?thesis .
qed

lemma sgn_neq: "k \<noteq> 0 \<Longrightarrow> l \<noteq> 0 \<Longrightarrow> sgn k \<noteq> sgn l \<longleftrightarrow> (k < 0) \<noteq> (l < (0 :: int))"
  by (auto simp: sgn_if)

text \<open>Integer floor division and modulus return the quotient and the remainder that round towards
  minus infinity, for every pair of 64-bit operands with a non-zero divisor (the quotient of the
  smallest integer by -1 wraps), and raise the error for a zero divisor.\<close>

theorem luaV_floor_division:
  "luaV_div m n = (if n = 0 then Inl ''attempt to divide by zero''
     else Inr (word_of_int (sint m div sint n))) \<and>
   luaV_mod m n = (if n = 0 then Inl (''attempt to perform '' @ CHR 0x27 # ''n%%0'' @ [CHR 0x27])
     else Inr (word_of_int (sint m mod sint n)))"
proof (cases "n = 0 \<or> n = -1")
  case True
  have "luaV_div m (-1) = Inr (word_of_int (sint m div sint (-1 :: lua_Integer)))"
    "luaV_mod m (-1) = Inr (word_of_int (sint m mod sint (-1 :: lua_Integer)))"
    by (simp_all add: luaV_div_def luaV_mod_def)
  with True show ?thesis by (auto simp: luaV_div_def luaV_mod_def)
next
  case False
  then have nz: "n \<noteq> 0" and sn: "sint n \<noteq> 0" and small: "\<not> n + 1 \<le> 1"
    by (auto simp: unsigned_range)
  let ?adj = "(m XOR n) <s 0 \<and> \<not> sint n dvd sint m"
  have adj: "sgn (sint m) \<noteq> sgn (sint n) \<and> \<not> sint n dvd sint m \<longleftrightarrow> ?adj"
    using sgn_neq [OF _ sn] by (cases "sint m = 0") (auto simp: xor_sign)
  have "luaV_div m n = Inr (word_of_int (sint m div sint n))"
    unfolding luaV_div_def divide_int_eq_signed_divide_int
    using small nz sn adj by (auto simp: Let_def c_mod_zero c_div_def)
  moreover have "luaV_mod m n = Inr (word_of_int (sint m mod sint n))"
    unfolding luaV_mod_def modulo_int_eq_signed_modulo_int
    using small nz sn adj by (auto simp: Let_def c_mod_zero c_mod_def [symmetric])
  ultimately show ?thesis using nz by simp
qed

section \<open>Shifts\<close>

lemma uint_64: "take_bit 64 (uint (x :: lua_Integer)) = uint x"
  using uint_lt2p [of x] by (intro take_bit_int_eq_self) simp_all

text \<open>A shift by any 64-bit amount multiplies by the power of two modulo \<open>2 ^ 64\<close>, or divides the
  unsigned value when the amount is negative; amounts of 64 and more give 0.\<close>

theorem luaV_shiftl_value:
  "uint (luaV_shiftl x y) =
     (if 0 \<le> sint y then (uint x * 2 ^ nat (sint y)) mod 2 ^ 64
      else uint x div 2 ^ nat (- sint y))"
proof (cases "0 \<le> sint y")
  case True
  then have ns: "\<not> y <s 0" by (simp add: word_sless_alt)
  have un: "unat y = nat (sint y)"
    using sint_nonneg [OF True] by (simp only: unat_eq_nat_uint)
  show ?thesis
  proof (cases "64 \<le>s y")
    case big: True
    then have "64 \<le> sint y" by (simp add: word_sle_eq)
    then obtain k where "nat (sint y) = 64 + k" using nat_le_iff_add by (metis nat_mono nat_numeral)
    with big ns True show ?thesis by (simp add: luaV_shiftl_def power_add mult.assoc [symmetric])
  next
    case False
    with ns un have "luaV_shiftl x y = push_bit (nat (sint y)) x"
      by (simp only: luaV_shiftl_def if_False)
    then have "uint (luaV_shiftl x y) = take_bit 64 (push_bit (nat (sint y)) (uint x))"
      by (simp only: unsigned_push_bit_eq) simp
    with True show ?thesis by (simp add: push_bit_eq_mult take_bit_eq_mod)
  qed
next
  case False
  then have ns: "y <s 0" by (simp add: word_sless_alt)
  show ?thesis
  proof (cases "y \<le>s -64")
    case True
    then have s: "sint y \<le> - 64" by (simp add: word_sle_eq)
    then have "(2 :: int) ^ 64 \<le> 2 ^ nat (- sint y)" by (intro power_increasing) auto
    moreover have "uint x < 2 ^ 64" using uint_lt2p [of x] by simp
    ultimately have "uint x div 2 ^ nat (- sint y) = 0" by (intro div_pos_pos_trivial) auto
    with True ns False show ?thesis by (simp add: luaV_shiftl_def)
  next
    case large: False
    then have s: "- 64 < sint y" by (simp add: word_sle_eq)
    have "uint (- y) = (- uint y) mod 2 ^ 64" by (simp add: uint_word_ariths)
    also have "\<dots> = (- sint y) mod 2 ^ 64" using sint_cases [of y] by (simp add: mod_diff_right_eq)
    also have "\<dots> = - sint y" using s False by simp
    finally have "unat (- y) = nat (- sint y)" by (simp add: unat_eq_nat_uint)
    with large ns have "luaV_shiftl x y = drop_bit (nat (- sint y)) x"
      by (simp only: luaV_shiftl_def if_True if_False)
    then have "uint (luaV_shiftl x y) = drop_bit (nat (- sint y)) (uint x)"
      by (simp only: unsigned_drop_bit_eq) (simp add: uint_64)
    with False show ?thesis by (simp add: drop_bit_eq_div)
  qed
qed

section \<open>Floating point byte\<close>

text \<open>
  One coarse step is \<open>ceil (x / 16)\<close> and one fine step \<open>ceil (x / 2)\<close>, as long as the addition does not
  wrap. What they keep: the rounded value scaled back is at least \<open>x\<close>, and exceeds it by less than
  one unit of the last place.
\<close>

definition rounds :: "nat \<Rightarrow> nat \<Rightarrow> nat \<Rightarrow> bool" where
  "rounds x y e \<longleftrightarrow> x \<le> y * 2 ^ e \<and> (y - 1) * 2 ^ e < x \<and> 0 < y"

lemma rounds_step:
  assumes "rounds x y e" and "d \<le> 4"
  shows "rounds x ((y + (2 ^ d - 1)) div 2 ^ d) (e + d)"
proof -
  let ?z = "(y + (2 ^ d - 1)) div 2 ^ d"
  have y: "0 < y" "x \<le> y * 2 ^ e" "(y - 1) * 2 ^ e < x" using assms(1) by (simp_all add: rounds_def)
  have up: "y \<le> ?z * 2 ^ d"
  proof -
    have "(y + (2 ^ d - 1)) mod 2 ^ d < 2 ^ d" "(1 :: nat) \<le> 2 ^ d" by simp_all
    with div_mult_mod_eq [of "y + (2 ^ d - 1)" "2 ^ d"] show ?thesis by linarith
  qed
  have low: "(?z - 1) * 2 ^ d \<le> y - 1"
  proof (cases ?z)
    case (Suc k)
    have "?z * 2 ^ d \<le> y + (2 ^ d - 1)" by (rule div_times_less_eq_dividend)
    then have "k * 2 ^ d + 2 ^ d \<le> y + (2 ^ d - 1)" unfolding Suc by simp
    moreover have "(1 :: nat) \<le> 2 ^ d" by simp
    ultimately have "k * 2 ^ d \<le> y - 1" by linarith
    then show ?thesis using Suc by simp
  qed simp
  have "x \<le> ?z * 2 ^ d * 2 ^ e"
    by (rule order_trans [OF y(2) mult_le_mono1 [OF up]])
  then have "x \<le> ?z * 2 ^ (e + d)" by (simp only: power_add ac_simps)
  moreover have "(?z - 1) * 2 ^ d * 2 ^ e < x"
    by (rule le_less_trans [OF mult_le_mono1 [OF low] y(3)])
  then have "(?z - 1) * 2 ^ (e + d) < x" by (simp only: power_add ac_simps)
  moreover have "0 < ?z" using up y(1) by (cases "?z = 0") auto
  ultimately show ?thesis by (simp add: rounds_def)
qed

lemma fb_coarse_rounds:
  "rounds x y e \<Longrightarrow> y + 15 < 2 ^ 32 \<Longrightarrow> fb_coarse y e = (z, e') \<Longrightarrow>
   rounds x z e' \<and> z < 128 \<and> (8 \<le> y \<longrightarrow> 8 \<le> z)"
proof (induction y e rule: fb_coarse.induct)
  case (1 y e)
  show ?case
  proof (cases "y \<ge> 128")
    case False
    with 1 show ?thesis by (simp add: fb_coarse.simps push_bit_eq_mult)
  next
    case True
    let ?y = "(y + 15) div 16"
    have step: "drop_bit 4 ((y + 0xf) mod 2 ^ 32) = ?y"
      using 1 by (simp add: drop_bit_eq_div)
    from 1(4) True have "fb_coarse ?y (e + 4) = (z, e')"
      unfolding fb_coarse.simps [of y] step by (simp add: push_bit_eq_mult)
    moreover have "rounds x ?y (e + 4)" using rounds_step [OF 1(2), of 4] by simp
    moreover have "?y + 15 < 2 ^ 32" using 1(3) by simp
    moreover have "8 \<le> ?y" using True by simp
    ultimately show ?thesis using 1(1) True step by (simp add: push_bit_eq_mult)
  qed
qed

lemma fb_fine_rounds:
  "rounds x y e \<Longrightarrow> y < 128 \<Longrightarrow> 8 \<le> y \<Longrightarrow> fb_fine y e = (z, e') \<Longrightarrow>
   rounds x z e' \<and> 8 \<le> z \<and> z < 16"
proof (induction y e rule: fb_fine.induct)
  case (1 y e)
  show ?case
  proof (cases "y \<ge> 16")
    case False
    with 1 show ?thesis by (simp add: fb_fine.simps push_bit_eq_mult)
  next
    case True
    let ?y = "(y + 1) div 2"
    have step: "drop_bit 1 ((y + 1) mod 2 ^ 32) = ?y"
      using 1 by (simp add: drop_bit_eq_div)
    from 1(5) True have "fb_fine ?y (e + 1) = (z, e')"
      unfolding fb_fine.simps [of y] step by (simp add: push_bit_eq_mult)
    moreover have "rounds x ?y (e + 1)" using rounds_step [OF 1(2), of 1] by simp
    moreover have "?y < 128" "8 \<le> ?y" using 1(3) True by simp_all
    ultimately show ?thesis using 1(1) True step by (simp add: push_bit_eq_mult)
  qed
qed

lemma fb2int_byte:
  assumes "8 \<le> z" and "z < 16"
  shows "luaO_fb2int (push_bit 3 (e + 1) OR (z - 8)) = z * 2 ^ e"
proof -
  have v: "push_bit 3 (e + 1) OR (z - 8) = (e + 1) * 8 + (z - 8)"
    using or_shifted [of "z - 8" 3 "e + 1"] assms by simp
  have "((e + 1) * 8 + (z - 8)) AND 7 = z - 8"
    using and_low [of "(e + 1) * 8 + (z - 8)" 3] assms by (simp add: le_mod_geq)
  with v assms show ?thesis
    by (simp add: luaO_fb2int_def drop_bit_eq_div push_bit_eq_mult)
qed

text \<open>Encoding a size as a floating point byte and decoding it again rounds up, by less than one
  seventh of the size; sizes below 8 are exact. The sizes whose rounding would wrap around 32 bits
  are excluded.\<close>

theorem fb_roundtrip:
  assumes "x + 15 < 2 ^ 32"
  shows "x \<le> luaO_fb2int (luaO_int2fb x) \<and>
    (if x < 8 then luaO_fb2int (luaO_int2fb x) = x
     else 7 * (luaO_fb2int (luaO_int2fb x) - x) < x)"
proof (cases "x < 8")
  case True
  then show ?thesis by (simp add: luaO_int2fb_def luaO_fb2int_def)
next
  case False
  obtain y e where y: "fb_coarse x 0 = (y, e)" by fastforce
  obtain z e' where z: "fb_fine y e = (z, e')" by fastforce
  have "rounds x x 0" using False by (simp add: rounds_def)
  from fb_coarse_rounds [OF this assms y] False have ry: "rounds x y e" "y < 128" "8 \<le> y" by simp_all
  from fb_fine_rounds [OF ry z] have rz: "rounds x z e'" "8 \<le> z" "z < 16" by simp_all
  have eq: "luaO_fb2int (luaO_int2fb x) = z * 2 ^ e'"
    using False y z fb2int_byte [OF rz(2,3)] by (simp add: luaO_int2fb_def)
  from rz have up: "x \<le> z * 2 ^ e'" and low: "(z - 1) * 2 ^ e' < x" by (simp_all add: rounds_def)
  have "z * 2 ^ e' = (z - 1) * 2 ^ e' + 2 ^ e'" using rz(2) by (cases z) simp_all
  moreover have "7 * 2 ^ e' \<le> (z - 1) * 2 ^ e'" using rz(2) by (intro mult_le_mono1) simp
  ultimately have "7 * (z * 2 ^ e' - x) < x" using low by linarith
  with eq up False show ?thesis by simp
qed

theorem fb_roundtrip_witness:
  "luaO_int2fb 1000 = 64 \<and> luaO_fb2int 64 = 1024 \<and> 1000 \<le> luaO_fb2int (luaO_int2fb 1000)"
proof (intro conjI)
  show "luaO_int2fb 1000 = 64"
    by (simp add: luaO_int2fb_def fb_coarse.simps [of 1000] fb_coarse.simps [of 63]
          fb_fine.simps [of 63] fb_fine.simps [of 32] fb_fine.simps [of 16] fb_fine.simps [of 8])
  show "luaO_fb2int 64 = 1024" by (simp add: luaO_fb2int_def)
  show "1000 \<le> luaO_fb2int (luaO_int2fb 1000)" using fb_roundtrip [of 1000] by simp
qed

section \<open>Ceil of log2\<close>

lemma log_2_table:
  assumes "x < 256"
  shows "x < 2 ^ (log_2 ! x) \<and> (log_2 ! x = 0 \<or> 2 ^ (log_2 ! x - 1) \<le> x)"
proof -
  have "list_all (\<lambda>(i, l). i < 2 ^ l \<and> (l = 0 \<or> 2 ^ (l - 1) \<le> i)) (zip [0..<256] log_2)"
    by code_simp
  moreover have "length log_2 = 256" by (simp add: log_2_def)
  ultimately show ?thesis
    using assms by (auto simp: list_all_length simp del: upt_rec_numeral)
qed

lemma log2_loop_spec:
  "\<exists>k. log2_loop x l = l + k \<and> x < 2 ^ k \<and> (k = 0 \<or> 2 ^ (k - 1) \<le> x)"
proof (induction x l rule: log2_loop.induct)
  case (1 x l)
  show ?case
  proof (cases "x \<ge> 256")
    case False
    with log_2_table [of x] show ?thesis by (simp add: log2_loop.simps)
  next
    case True
    with 1 obtain k where k: "log2_loop (x div 256) (l + 8) = l + 8 + k" "x div 256 < 2 ^ k"
      "k = 0 \<or> 2 ^ (k - 1) \<le> x div 256" by (auto simp: drop_bit_eq_div)
    have "k \<noteq> 0" using k(2) True by (cases k) simp_all
    then obtain j where j: "k = Suc j" by (cases k) auto
    have "x < 2 ^ (8 + k)"
      using k(2) by (simp add: power_add div_less_iff_less_mult mult.commute)
    moreover have "2 ^ (8 + k - 1) \<le> x"
      using k(3) j by (simp add: power_add less_eq_div_iff_mult_less_eq mult.commute)
    ultimately show ?thesis
      using k(1) True by (intro exI [of _ "8 + k"]) (simp add: log2_loop.simps [of x] drop_bit_eq_div)
  qed
qed

lemma ceillog2_bounds:
  assumes "0 < x" and "x < 2 ^ 32"
  shows "x \<le> 2 ^ luaO_ceillog2 x \<and> (\<forall>k. x \<le> 2 ^ k \<longrightarrow> luaO_ceillog2 x \<le> k)"
proof -
  have "(x + (2 ^ 32 - 1)) mod 2 ^ 32 = x - 1"
    using assms by (simp add: le_mod_geq)
  then obtain k where k: "luaO_ceillog2 x = k" "x - 1 < 2 ^ k" "k = 0 \<or> 2 ^ (k - 1) \<le> x - 1"
    using log2_loop_spec [of "x - 1" 0] by (auto simp: luaO_ceillog2_def)
  have "k \<le> j" if "x \<le> 2 ^ j" for j
  proof (rule ccontr)
    assume "\<not> k \<le> j"
    then have "k \<noteq> 0" "j \<le> k - 1" by auto
    moreover have "(2 :: nat) ^ j \<le> 2 ^ (k - 1)"
      using \<open>j \<le> k - 1\<close> by (intro power_increasing) simp_all
    ultimately show False using k(3) that assms(1) by linarith
  qed
  with k assms(1) show ?thesis by auto
qed

text \<open>\<open>luaO_ceillog2\<close> is the least exponent whose power of two is not below the argument, for
  every positive \<open>unsigned int\<close>.\<close>

theorem ceillog2_least:
  assumes "0 < x" and "x < 2 ^ 32"
  shows "x \<le> 2 ^ luaO_ceillog2 x \<and> (\<forall>k. x \<le> 2 ^ k \<longrightarrow> luaO_ceillog2 x \<le> k)"
  using assms by (rule ceillog2_bounds)

theorem ceillog2_least_witness:
  "1000 \<le> (2 :: nat) ^ luaO_ceillog2 1000 \<and> luaO_ceillog2 1000 \<le> 10"
  using ceillog2_least [of 1000] by simp

section \<open>Integer numerals\<close>

lemma byte_range: "uint (c :: byte) \<in> {-1..255}"
proof -
  have "0 \<le> uint c" "uint c < 256" using uint_lt2p [of c] by simp_all
  then have "- 1 \<le> uint c" "uint c \<le> 255" by linarith+
  then show ?thesis unfolding atLeastAtMost_iff by (rule conjI)
qed

lemma lis_digit: "lis lisdigit c \<longleftrightarrow> 48 \<le> uint c \<and> uint c \<le> 57"
  using ctype_classes(1) [of "uint c"] byte_range [of c] by (simp add: lis_def)

lemma lis_space: "lis lisspace c \<longleftrightarrow> 9 \<le> uint c \<and> uint c \<le> 13 \<or> uint c = 32"
  using ctype_classes(5) [of "uint c"] byte_range [of c] by (simp add: lis_def)

lemma skip_spaces_append:
  "list_all (lis lisspace) ws \<Longrightarrow> skip_spaces (ws @ s) = skip_spaces s"
  by (induction ws) simp_all

lemma skip_spaces_all: "list_all (lis lisspace) ws \<Longrightarrow> skip_spaces ws = []"
  by (induction ws) simp_all

lemma skip_spaces_stop: "s \<noteq> [] \<Longrightarrow> \<not> lis lisspace (hd s) \<Longrightarrow> skip_spaces s = s"
  by (cases s) simp_all

lemma dec_digits_append:
  "list_all (lis lisdigit) ds \<Longrightarrow>
   dec_digits (ds @ r) a nothing =
     dec_digits r (foldl (\<lambda>a c. a * 10 + ucast c - 48) a ds)
       (nothing \<and> ds = [])"
  by (induction ds arbitrary: a nothing) simp_all

lemma dec_digits_end:
  "list_all (lis lisspace) ws \<Longrightarrow> dec_digits ws a nothing = (a, nothing, ws)"
  by (cases ws) (auto simp: lis_digit lis_space)

lemma digit_byte:
  assumes "n < 10"
  shows "uint (48 + word_of_nat n :: byte) = 48 + int n"
    and "ucast (48 + word_of_nat n :: byte) = (48 + word_of_nat n :: lua_Integer)"
proof -
  have "list_all (\<lambda>n. uint (48 + word_of_nat n :: byte) = 48 + int n \<and>
      ucast (48 + word_of_nat n :: byte) = (48 + word_of_nat n :: lua_Integer)) [0..<10]"
    by code_simp
  moreover have "n \<in> set [0..<10]" unfolding set_upt using assms by simp
  ultimately show "uint (48 + word_of_nat n :: byte) = 48 + int n"
    and "ucast (48 + word_of_nat n :: byte) = (48 + word_of_nat n :: lua_Integer)"
    unfolding list_all_iff by blast+
qed

lemma decimal_digits: "list_all (lis lisdigit) (decimal_bytes n) \<and> decimal_bytes n \<noteq> []"
proof (induction n rule: decimal_bytes.induct)
  case (1 n)
  then show ?case
    by (cases "n < 10") (simp_all add: decimal_bytes.simps [of n] lis_digit digit_byte)
qed

lemma decimal_value:
  "foldl (\<lambda>a c. a * 10 + ucast c - 48) (0 :: lua_Integer) (decimal_bytes n) = word_of_nat n"
proof (induction n rule: decimal_bytes.induct)
  case (1 n)
  show ?case
  proof (cases "n < 10")
    case True
    then show ?thesis by (simp add: decimal_bytes.simps [of n] digit_byte)
  next
    case False
    have "(word_of_nat n :: lua_Integer) = word_of_nat (n div 10 * 10 + n mod 10)" by simp
    also have "\<dots> = word_of_nat (n div 10) * 10 + word_of_nat (n mod 10)"
      by (simp only: of_nat_add of_nat_mult) simp
    finally show ?thesis
      using False 1 by (simp add: decimal_bytes.simps [of n] digit_byte)
  qed
qed

lemma decimal_no_x:
  assumes "list_all (lis lisspace) ws"
  shows "byte_at (decimal_bytes n @ ws) i \<noteq> 120" "byte_at (decimal_bytes n @ ws) i \<noteq> 88"
proof -
  have "list_all (\<lambda>c. uint c < 60) (decimal_bytes n @ ws)"
    using decimal_digits [of n] assms by (auto simp: list_all_iff lis_digit lis_space)
  then have "uint (byte_at (decimal_bytes n @ ws) i) < 60"
    by (auto simp: byte_at_def list_all_length)
  then show "byte_at (decimal_bytes n @ ws) i \<noteq> 120" "byte_at (decimal_bytes n @ ws) i \<noteq> 88"
    by auto
qed

lemma str2int_decimal:
  assumes "list_all (lis lisspace) ws" and "list_all (lis lisspace) ws'"
  shows "l_str2int (ws @ (if neg then [45] else []) @ decimal_bytes n @ ws') =
    Some (if neg then 0 - word_of_nat n else word_of_nat n)"
proof -
  obtain d ds where d: "decimal_bytes n = d # ds" using decimal_digits [of n] by (cases "decimal_bytes n") auto
  have dd: "lis lisdigit d" using decimal_digits [of n] d by simp
  let ?rest = "(if neg then [45] else []) @ decimal_bytes n @ ws'"
  have hd: "\<not> lis lisspace (hd ?rest)" using dd by (auto simp: d lis_digit lis_space)
  have s1: "skip_spaces (ws @ ?rest) = ?rest"
    using skip_spaces_append [OF assms(1), of ?rest] skip_spaces_stop [OF _ hd] d by simp
  have "d \<noteq> 45" "d \<noteq> 43" using dd by (auto simp: lis_digit)
  then have s2: "isneg ?rest = (neg, decimal_bytes n @ ws')"
    by (simp add: isneg_def d byte_at_def)
  have s3: "dec_digits (decimal_bytes n @ ws') 0 True = (word_of_nat n, False, ws')"
    using decimal_digits [of n]
    by (simp add: dec_digits_append dec_digits_end [OF assms(2)] decimal_value)
  have s4: "skip_spaces ws' = []" by (rule skip_spaces_all [OF assms(2)])
  have end0: "byte_at [] 0 = 0" by (simp add: byte_at_def)
  have nx: "(byte_at (decimal_bytes n @ ws') 0 = 48 \<and> (byte_at (decimal_bytes n @ ws') 1 = 120 \<or>
      byte_at (decimal_bytes n @ ws') 1 = 88)) = False"
    using decimal_no_x [OF assms(2), of n 1] by blast
  show ?thesis
    unfolding l_str2int_def Let_def s1 s2 prod.case nx if_False s3 s4 end0 by simp
qed

lemma word_of_nat_of_int: "(word_of_nat n :: lua_Integer) = word_of_int (int n)"
  by (rule of_int_of_nat_eq [symmetric])

text \<open>C15: Printing an integer and reading the numeral, with any white space around it, gives the
  integer back, for all 64-bit values.\<close>

theorem integer_roundtrip:
  assumes "list_all (lis lisspace) ws" and "list_all (lis lisspace) ws'"
  shows "l_str2int (ws @ lua_integer2str i @ ws') = Some i"
proof (cases "sint i < 0")
  case True
  then have "(word_of_nat (nat (- sint i)) :: lua_Integer) = - i"
    unfolding word_of_nat_of_int by simp
  with str2int_decimal [OF assms, of True] True show ?thesis
    by (simp add: lua_integer2str_def)
next
  case False
  then have "(word_of_nat (nat (sint i)) :: lua_Integer) = i"
    unfolding word_of_nat_of_int by simp
  with str2int_decimal [OF assms, of False] False show ?thesis
    by (simp add: lua_integer2str_def)
qed

theorem integer_roundtrip_witness:
  "l_str2int ([32] @ lua_integer2str (- 12) @ [10]) = Some (- 12)"
  by (rule integer_roundtrip) (simp_all add: lis_space)

section \<open>Chunk names\<close>

lemma chunk_parts: "length RETS = 3" "length PRE = 9" "length POS = 2" "0 \<notin> set RETS" "0 \<notin> set PRE"
    "0 \<notin> set POS"
  by code_simp+

lemma tail_of_source:
  assumes "source \<noteq> []"
  shows "drop 1 (source @ [0]) = drop 1 source @ [0]"
  using assms by (cases source) simp_all

text \<open>\<open>luaO_chunkid\<close> writes a C string of at most \<open>bufflen\<close> bytes, its only NUL being the last one,
  for every source name, as soon as the buffer holds the fixed parts.\<close>

theorem chunkid_fits:
  assumes "15 \<le> bufflen" and "0 \<notin> set source"
  shows "length (luaO_chunkid source bufflen) \<le> bufflen \<and>
    (\<exists>text. luaO_chunkid source bufflen = text @ [0] \<and> 0 \<notin> set text)"
proof -
  let ?l = "length source"
  have sub: "0 \<notin> set (drop i source)" "0 \<notin> set (take i source)" "0 \<notin> set (take i (drop j source))"
    for i j using assms(2) by (auto dest: in_set_dropD in_set_takeD)
  show ?thesis
  proof (cases "byte_at source 0 = 0x3d \<or> byte_at source 0 = 0x40")
    case True
    then have ne: "source \<noteq> []" by (auto simp: byte_at_def)
    have whole: "take ?l (drop 1 (source @ [0])) = drop 1 source @ [0]"
      unfolding tail_of_source [OF ne] using ne by (cases source) simp_all
    have len: "length (drop 1 source @ [0 :: byte]) = ?l" using ne by (cases source) simp_all
    let ?b = "bufflen - length RETS"
    have long: "take ?b (drop (1 + ?l - ?b) (source @ [0])) = drop (1 + ?l - ?b) source @ [0]"
      if "\<not> ?l \<le> bufflen" using that assms(1) by (simp add: chunk_parts)
    show ?thesis
      unfolding luaO_chunkid_def Let_def whole
      using True len long sub assms by (auto simp: chunk_parts)
  next
    case False
    define room where "room = bufflen - (length PRE + length RETS + length POS + 1)"
    define body where "body = (if ?l < room \<and> 10 \<notin> set source then source
        else take (min (if 10 \<in> set source then length (takeWhile (\<lambda>c. c \<noteq> 10) source) else ?l) room) source @ RETS)"
    have out: "luaO_chunkid source bufflen = PRE @ body @ POS @ [0]"
      using False by (auto simp: luaO_chunkid_def Let_def body_def room_def)
    have "0 \<notin> set body" using assms(2) sub by (auto simp: body_def chunk_parts)
    moreover have "length body \<le> room + 3" by (auto simp: body_def chunk_parts)
    ultimately show ?thesis
      using assms(1) by (auto simp: out room_def chunk_parts intro!: exI [of _ "PRE @ body @ POS"])
  qed
qed

theorem chunkid_fits_witness:
  "length (luaO_chunkid (bytes_of ''@/opt/gex/webproxy/init.lua'') 20) \<le> 20 \<and>
   luaO_chunkid (bytes_of ''@/opt/gex/webproxy/init.lua'') 20 = bytes_of ''...ebproxy/init.lua'' @ [0]"
proof
  have "0 \<notin> set (bytes_of ''@/opt/gex/webproxy/init.lua'')" by code_simp
  from chunkid_fits [OF _ this, of 20]
  show "length (luaO_chunkid (bytes_of ''@/opt/gex/webproxy/init.lua'') 20) \<le> 20" by simp
  show "luaO_chunkid (bytes_of ''@/opt/gex/webproxy/init.lua'') 20 = bytes_of ''...ebproxy/init.lua'' @ [0]"
    by code_simp
qed

end
