(* ===== verification/LuaUtf8Props.thy ===== *)
theory LuaUtf8Props
  imports LuaUtf8 LuaObjectProps
begin

text \<open>
  UTF-8 in Lua: \<open>luaO_utf8esc\<close> and \<open>utf8_decode\<close> form a codec on the code points up to 10FFFF, the
  decoder accepts nothing but shortest encodings, and the library functions agree with each other.
\<close>

section \<open>The encoder by ranges\<close>

lemma low6: "x AND 0x3F = x mod (64 :: nat)"
  using and_low [of x 6] by simp

lemma cont_or: "0x80 OR (x AND 0x3F) = 128 + x mod (64 :: nat)"
  using or_shifted [of "x mod 64" 7 1] by (simp add: low6)

lemma lead_or:
  "x < 32 \<Longrightarrow> 0x1FFFFFFC0 mod 2 ^ 32 OR x = 0xFFFFFFC0 + (x :: nat)"
  "x < 16 \<Longrightarrow> 0x1FFFFFFE0 mod 2 ^ 32 OR x = 0xFFFFFFE0 + x"
  "x < 8 \<Longrightarrow> 0x1FFFFFFF0 mod 2 ^ 32 OR x = 0xFFFFFFF0 + x"
  using or_shifted [of x 6 "0x3FFFFFF"] or_shifted [of x 5 "0x7FFFFFF"] or_shifted [of x 4 "0xFFFFFFF"]
  by simp_all

definition b :: "nat \<Rightarrow> byte" where "b n = word_of_nat n"

lemma b_high: "b (0xFFFFFFC0 + x) = b (0xC0 + x)" "b (0xFFFFFFE0 + x) = b (0xE0 + x)"
  "b (0xFFFFFFF0 + x) = b (0xF0 + x)"
  by (simp_all add: b_def)

lemma unat_b: "n < 256 \<Longrightarrow> unat (b n) = n"
  by (simp add: b_def unat_of_nat)

lemmas esc_simps = luaO_utf8esc_def cont_or drop_bit_eq_div push_bit_eq_mult Let_def

lemma utf8esc_1: "x < 0x80 \<Longrightarrow> luaO_utf8esc x = [b x]"
  by (simp add: luaO_utf8esc_def b_def)

lemma utf8esc_2:
  assumes "0x80 \<le> x" "x < 0x800"
  shows "luaO_utf8esc x = [b (0xC0 + x div 64), b (0x80 + x mod 64)]"
proof -
  have "x div 64 < 32" using assms by simp
  with assms lead_or(1) [of "x div 64"] show ?thesis
    by (simp add: esc_simps utf8_cont.simps [of x] b_high flip: b_def)
qed

lemma utf8esc_3:
  assumes "0x800 \<le> x" "x < 0x10000"
  shows "luaO_utf8esc x =
    [b (0xE0 + x div 4096), b (0x80 + x div 64 mod 64), b (0x80 + x mod 64)]"
proof -
  have "x div 4096 < 16" "32 \<le> x div 64" using assms by simp_all
  with assms lead_or(2) [of "x div 4096"] show ?thesis
    by (simp add: esc_simps utf8_cont.simps [of x] utf8_cont.simps [of "x div 64"]
          div_mult2_eq [symmetric] b_high flip: b_def)
qed

lemma utf8esc_4:
  assumes "0x10000 \<le> x" "x < 0x200000"
  shows "luaO_utf8esc x = [b (0xF0 + x div 262144), b (0x80 + x div 4096 mod 64),
    b (0x80 + x div 64 mod 64), b (0x80 + x mod 64)]"
proof -
  have small: "x div 262144 < 8" and big: "63 < x div 64" "31 < x div 4096 \<or> True" "15 < x div 4096"
    using assms by simp_all
  have step: "utf8_cont x mfb buff =
      (if x div 64 > mfb div 2 then utf8_cont (x div 64) (mfb div 2) (b (0x80 + x mod 64) # buff)
       else word_of_nat (2 * (2 ^ 32 - 1 - mfb div 2) mod 2 ^ 32 OR x div 64) # b (0x80 + x mod 64) # buff)"
    for x mfb buff
    unfolding utf8_cont.simps [of x] Let_def b_def cont_or drop_bit_eq_div push_bit_eq_mult
    by (simp add: mult.commute)
  have d: "x div 64 div 64 = x div 4096" "x div 4096 div 64 = x div 262144"
    by (simp_all add: div_mult2_eq [symmetric])
  show ?thesis
    using assms small big lead_or(3) [of "x div 262144"]
    by (simp add: luaO_utf8esc_def step d b_high flip: b_def)
qed

section \<open>The decoder by first bytes\<close>

lemma byte_less: "unat (x :: byte) < 256"
proof -
  have "unat x < 2 ^ LENGTH(8)" by (rule unsigned_less)
  then show ?thesis by simp
qed

lemma cont_byte:
  assumes "cc < 256"
  shows "cc AND 0xC0 = 0x80 \<longleftrightarrow> cc div 64 = (2 :: nat)"
proof -
  have "cc AND push_bit 6 k = push_bit 6 (drop_bit 6 cc AND k)" for k
    by (rule bit_eqI) (auto simp: bit_simps)
  from this [of 3] have "cc AND 0xC0 = push_bit 6 (drop_bit 6 cc AND 3)" by simp
  moreover have "drop_bit 6 cc AND 3 = cc div 64"
    using and_low [of "cc div 64" 2] assms by (simp add: drop_bit_eq_div)
  ultimately show ?thesis by (simp add: push_bit_eq_mult)
qed

lemma iscont_iff: "iscont c \<longleftrightarrow> unat c div 64 = 2"
  using cont_byte [of "unat c"] byte_less [of c] by (simp add: iscont_def)

text \<open>One continuation byte adds six bits, as long as the value stays below 32 bits.\<close>

lemma more_step:
  assumes "odd (c div 64)" and "unat (byte_at s (count + 1)) div 64 = 2" and "res < 2 ^ 26"
  shows "utf8_more s c count res =
    utf8_more s (2 * c mod 2 ^ 32) (count + 1) (res * 64 + unat (byte_at s (count + 1)) mod 64)"
proof -
  let ?cc = "unat (byte_at s (count + 1))"
  have "?cc < 256" by (rule byte_less)
  then have cont: "?cc AND 0xC0 = 0x80" using assms(2) cont_byte by blast
  have "push_bit 6 res OR (?cc mod 64) = res * 64 + ?cc mod 64"
    using or_shifted [of "?cc mod 64" 6 res] by simp
  moreover have "res * 64 + ?cc mod 64 < 2 ^ 32"
  proof -
    have "?cc mod 64 < 64" by simp
    with assms(3) show ?thesis by simp
  qed
  ultimately have bits: "(push_bit 6 res OR (?cc AND 0x3F)) mod 2 ^ 32 = res * 64 + ?cc mod 64"
    by (simp add: low6)
  have bit6: "c AND 0x40 \<noteq> 0" using assms(1) test_bit_6 [of c] by blast
  show ?thesis
    unfolding utf8_more.simps [of s c] Let_def
    by (simp only: bit6 cont bits if_True not_False_eq_True if_False simp_thms)
       (simp add: push_bit_eq_mult mult.commute)
qed

lemma more_bad:
  assumes "odd (c div 64)" and "unat (byte_at s (count + 1)) div 64 \<noteq> 2"
  shows "utf8_more s c count res = None"
proof -
  have "unat (byte_at s (count + 1)) < 256" by (rule byte_less)
  then have "unat (byte_at s (count + 1)) AND 0xC0 \<noteq> 0x80" using assms(2) cont_byte by blast
  moreover have "c AND 0x40 \<noteq> 0" using assms(1) test_bit_6 [of c] by blast
  ultimately show ?thesis
    unfolding utf8_more.simps [of s c] Let_def by simp
qed

lemma more_stop: "even (c div 64) \<Longrightarrow> utf8_more s c count res = Some (c, count, res)"
  unfolding utf8_more.simps [of s c] using test_bit_6 [of c] by simp

lemma more_count: "utf8_more s c count res = Some (c', count', res') \<Longrightarrow> count \<le> count'"
proof (induction s c count res rule: utf8_more.induct)
  case (1 s c count res)
  then show ?case
    by (cases "c AND 0x40 = 0")
       (auto simp: utf8_more.simps [of s c] Let_def split: if_splits dest: Suc_leD)
qed

text \<open>
  The decoder after its first byte: the number of leading ones of the byte says how many
  continuation bytes it reads.
\<close>

definition conts :: "bytes \<Rightarrow> nat \<Rightarrow> bool" where
  "conts s n \<longleftrightarrow> (\<forall>i. 0 < i \<and> i \<le> n \<longrightarrow> unat (byte_at s i) div 64 = 2)"

definition low :: "bytes \<Rightarrow> nat \<Rightarrow> nat" where
  "low s i = unat (byte_at s i) mod 64"

lemma low_less: "low s i < 64"
  by (simp add: low_def)

lemma conts_0: "conts s 0"
  by (auto simp: conts_def)

lemma conts_Suc: "conts s (Suc n) \<longleftrightarrow> conts s n \<and> unat (byte_at s (Suc n)) div 64 = 2"
  by (auto simp: conts_def le_Suc_eq)

lemma more_next:
  assumes "odd (c div 64)" and "res < 2 ^ 26" and "conts s count"
  shows "utf8_more s c count res =
    (if conts s (Suc count) then utf8_more s (2 * c mod 2 ^ 32) (Suc count) (res * 64 + low s (Suc count))
     else None)"
  using more_step [of c s count res] more_bad [of c s count res] assms
  by (simp add: conts_Suc low_def)

lemma conts_mono: "conts s n \<Longrightarrow> m \<le> n \<Longrightarrow> conts s m"
  by (auto simp: conts_def)

lemma more_go:
  assumes "conts s n" and "odd (c div 64)" and "res < 2 ^ 26" and "m = Suc n" and "d = 2 * c"
    and "d < 2 ^ 32" and "r = res * 64 + low s m"
  shows "utf8_more s c n res = (if conts s m then utf8_more s d m r else None)"
  using more_next [OF assms(2,3,1)] assms(4-7) by simp

lemma mod_high: "x < n \<Longrightarrow> (n * k + x) mod n = (x :: nat)"
  by simp

text \<open>The bits of the first byte, put above the \<open>6 * count\<close> bits of the continuation bytes.\<close>

lemma lead_bits:
  assumes "res < 2 ^ n" and "c AND 0x7F = d * 2 ^ m" and "m + k = n" and "d * 2 ^ n + res < 2 ^ 32"
  shows "res OR push_bit k (c AND 0x7F) mod 2 ^ 32 = d * 2 ^ n + (res :: nat)"
proof -
  have p: "push_bit k (c AND 0x7F) = push_bit n d"
    using assms(2) by (simp add: push_bit_eq_mult power_add ac_simps flip: assms(3))
  have "push_bit n d < 2 ^ 32" using assms(4) by (simp add: push_bit_eq_mult)
  then have "push_bit k (c AND 0x7F) mod 2 ^ 32 = push_bit n d" unfolding p by (rule mod_less)
  then show ?thesis using or_shifted [OF assms(1), of d] by (simp add: or.commute)
qed

lemma low7: "c AND 0x7F = c mod (128 :: nat)"
  using and_low [of c 7] by simp

lemma decode_1: "unat (byte_at s 0) < 128 \<Longrightarrow> utf8_decode s = Decoded (unat (byte_at s 0)) 1"
  by (simp add: utf8_decode_def)

lemma decode_bad:
  assumes "128 \<le> unat (byte_at s 0)" "unat (byte_at s 0) < 192"
  shows "utf8_decode s = Invalid"
proof -
  define c where "c = unat (byte_at s 0)"
  have "c div 64 = 2" using assms by (simp add: c_def)
  then have "utf8_more s c 0 0 = Some (c, 0, 0)" by (intro more_stop) simp
  moreover have "c AND 0x7F \<le> 0xFF" using low7 [of c] by (simp add: le_trans [OF less_imp_le])
  moreover have "(c AND 0x7F) mod 2 ^ 32 = c AND 0x7F" using low7 [of c] by simp
  ultimately show ?thesis
    using assms by (simp add: utf8_decode_def limits_def flip: c_def)
qed

lemma decode_multi:
  assumes "128 \<le> unat (byte_at s 0)"
    and "utf8_more s (unat (byte_at s 0)) 0 0 = (if ok then Some (c, n, res) else None)"
    and "n * 5 < 32" and "res OR push_bit (n * 5) (c AND 0x7F) mod 2 ^ 32 = v"
  shows "utf8_decode s =
    (if ok \<and> n \<le> 3 \<and> v \<le> MAXUNICODE \<and> limits ! n < v then Decoded v (n + 1) else Invalid)"
  unfolding utf8_decode_def Let_def assms(2)
  by (cases ok; simp only: if_True if_False option.case prod.case assms(4))
     (use assms(1,3) in auto)

lemma decode_2:
  assumes "unat (byte_at s 0) = 192 + d" "d < 32"
  defines "v \<equiv> d * 64 + low s 1"
  shows "utf8_decode s = (if conts s 1 \<and> 0x7F < v then Decoded v 2 else Invalid)"
proof -
  define c where "c = unat (byte_at s 0)"
  have c: "c = 192 + d" using assms(1) by (simp add: c_def)
  have div: "c div 64 = 3" "2 * c div 64 = 6" using c assms(2) by simp_all
  have "utf8_more s c 0 0 = (if conts s 1 then utf8_more s (2 * c) 1 (low s 1) else None)"
    by (rule more_go) (use c assms(2) div in \<open>simp_all add: conts_0\<close>)
  moreover have "utf8_more s (2 * c) 1 (low s 1) = Some (2 * c, 1, low s 1)"
    by (rule more_stop) (simp add: div)
  ultimately have more: "utf8_more s c 0 0 = (if conts s 1 then Some (2 * c, 1, low s 1) else None)"
    by simp
  have "2 * c AND 0x7F = d * 2 ^ 1"
    unfolding low7 using mod_high [of "d * 2" 128 3] assms(2) c by (simp add: ac_simps)
  then have "low s 1 OR push_bit 5 (2 * c AND 0x7F) mod 2 ^ 32 = d * 2 ^ 6 + low s 1"
    using low_less [of s 1] assms(2) by (intro lead_bits [where m = 1 and n = 6]) simp_all
  then have val: "low s 1 OR push_bit (1 * 5) (2 * c AND 0x7F) mod 2 ^ 32 = v" by (simp add: v_def)
  have "v \<le> MAXUNICODE"
    using low_less [of s 1] assms(2) by (simp add: v_def MAXUNICODE_def)
  then show ?thesis
    using decode_multi [OF _ more [unfolded c_def] _ val [unfolded c_def]] c
    by (simp add: limits_def flip: c_def)
qed

lemma decode_3:
  assumes "unat (byte_at s 0) = 224 + d" "d < 16"
  defines "v \<equiv> d * 4096 + (low s 1 * 64 + low s 2)"
  shows "utf8_decode s = (if conts s 2 \<and> 0x7FF < v then Decoded v 3 else Invalid)"
proof -
  define c where "c = unat (byte_at s 0)"
  define r where "r = low s 1 * 64 + low s 2"
  have r: "r < 4096" using low_less [of s 1] low_less [of s 2] by (simp add: r_def)
  have c: "c = 224 + d" using assms(1) by (simp add: c_def)
  have div: "c div 64 = 3" "2 * c div 64 = 7" "4 * c div 64 = 14" using c assms(2) by simp_all
  have "utf8_more s c 0 0 = (if conts s 1 then utf8_more s (2 * c) 1 (low s 1) else None)"
    by (rule more_go) (use c assms(2) div in \<open>simp_all add: conts_0\<close>)
  moreover have "conts s 1 \<Longrightarrow>
      utf8_more s (2 * c) 1 (low s 1) = (if conts s 2 then utf8_more s (4 * c) 2 r else None)"
    by (rule more_go) (use c assms(2) div low_less [of s 1] in \<open>simp_all add: r_def\<close>)
  moreover have "utf8_more s (4 * c) 2 r = Some (4 * c, 2, r)"
    by (rule more_stop) (simp add: div)
  ultimately have more: "utf8_more s c 0 0 = (if conts s 2 then Some (4 * c, 2, r) else None)"
    using conts_mono [of s 2 1] by simp
  have "4 * c AND 0x7F = d * 2 ^ 2"
    unfolding low7 using mod_high [of "d * 4" 128 7] assms(2) c by (simp add: ac_simps)
  then have "r OR push_bit 10 (4 * c AND 0x7F) mod 2 ^ 32 = d * 2 ^ 12 + r"
    using r assms(2) by (intro lead_bits [where m = 2 and n = 12]) simp_all
  then have val: "r OR push_bit (2 * 5) (4 * c AND 0x7F) mod 2 ^ 32 = v"
    by (simp add: v_def r_def)
  have "v \<le> MAXUNICODE" using r assms(2) unfolding v_def r_def [symmetric] MAXUNICODE_def by linarith
  then show ?thesis
    using decode_multi [OF _ more [unfolded c_def] _ val [unfolded c_def]] c
    by (simp add: limits_def flip: c_def)
qed

text \<open>The first three continuation bytes of a longer sequence.\<close>

lemma more_3:
  assumes "unat (byte_at s 0) = 240 + d" "d < 16"
  defines "r \<equiv> low s 1 * 4096 + low s 2 * 64 + low s 3"
  shows "utf8_more s (240 + d) 0 0 =
    (if conts s 3 then utf8_more s (8 * (240 + d)) 3 r else None)"
proof -
  define c where "c = 240 + d"
  define q where "q = low s 1 * 64 + low s 2"
  have q: "q < 4096" using low_less [of s 1] low_less [of s 2] by (simp add: q_def)
  have div: "c div 64 = 3" "2 * c div 64 = 7" "4 * c div 64 = 15"
    using assms(2) by (simp_all add: c_def)
  have "utf8_more s c 0 0 = (if conts s 1 then utf8_more s (2 * c) 1 (low s 1) else None)"
    by (rule more_go) (use assms(2) div in \<open>simp_all add: conts_0 c_def\<close>)
  moreover have "conts s 1 \<Longrightarrow>
      utf8_more s (2 * c) 1 (low s 1) = (if conts s 2 then utf8_more s (4 * c) 2 q else None)"
    by (rule more_go) (use assms(2) div low_less [of s 1] in \<open>simp_all add: q_def c_def\<close>)
  moreover have "conts s 2 \<Longrightarrow>
      utf8_more s (4 * c) 2 q = (if conts s 3 then utf8_more s (8 * c) 3 r else None)"
    by (rule more_go) (use assms(2) div q in \<open>simp_all add: q_def r_def c_def\<close>)
  ultimately show ?thesis
    using conts_mono [of s 2 1] conts_mono [of s 3 2] by (simp flip: c_def)
qed

lemma decode_4:
  assumes "unat (byte_at s 0) = 240 + d" "d < 8"
  defines "v \<equiv> d * 262144 + (low s 1 * 4096 + low s 2 * 64 + low s 3)"
  shows "utf8_decode s =
    (if conts s 3 \<and> 0xFFFF < v \<and> v \<le> MAXUNICODE then Decoded v 4 else Invalid)"
proof -
  define c where "c = unat (byte_at s 0)"
  define r where "r = low s 1 * 4096 + low s 2 * 64 + low s 3"
  have r: "r < 262144"
    using low_less [of s 1] low_less [of s 2] low_less [of s 3] by (simp add: r_def)
  have c: "c = 240 + d" using assms(1) by (simp add: c_def)
  have "8 * c div 64 = 30" using c assms(2) by simp
  then have "utf8_more s (8 * c) 3 r = Some (8 * c, 3, r)" by (intro more_stop) simp
  then have more: "utf8_more s c 0 0 = (if conts s 3 then Some (8 * c, 3, r) else None)"
    using more_3 [OF assms(1)] assms(2) by (simp add: r_def c)
  have "8 * c AND 0x7F = d * 2 ^ 3"
    unfolding low7 using mod_high [of "d * 8" 128 15] assms(2) c by (simp add: ac_simps)
  then have "r OR push_bit 15 (8 * c AND 0x7F) mod 2 ^ 32 = d * 2 ^ 18 + r"
    using r assms(2) by (intro lead_bits [where m = 3 and n = 18]) simp_all
  then have val: "r OR push_bit (3 * 5) (8 * c AND 0x7F) mod 2 ^ 32 = v"
    by (simp add: v_def r_def)
  show ?thesis
    using decode_multi [OF _ more [unfolded c_def] _ val [unfolded c_def]] c
    by (simp add: limits_def flip: c_def)
qed

lemma decode_5:
  assumes "248 \<le> unat (byte_at s 0)"
  shows "utf8_decode s \<noteq> Decoded x k"
proof (cases "utf8_more s (unat (byte_at s 0)) 0 0")
  case None
  then show ?thesis using assms by (simp add: utf8_decode_def Let_def)
next
  case (Some t)
  define c where "c = unat (byte_at s 0)"
  define r where "r = low s 1 * 4096 + low s 2 * 64 + low s 3"
  have r: "r < 262144"
    using low_less [of s 1] low_less [of s 2] low_less [of s 3] by (simp add: r_def)
  obtain c' n res where t: "t = (c', n, res)" by (cases t)
  have less: "c < 256" by (simp add: c_def byte_less)
  with assms have c: "c = 240 + (c - 240)" "c - 240 < 16" by (simp_all add: c_def)
  with more_3 [of s "c - 240"] Some t
  have 3: "conts s 3" and more: "utf8_more s (8 * c) 3 r = Some (c', n, res)"
    by (auto simp: r_def c_def split: if_splits)
  have "8 * c div 64 = 31" using assms less by (simp add: c_def)
  then have "utf8_more s (8 * c) 3 r =
      (if conts s 4 then utf8_more s (16 * c) 4 (r * 64 + low s 4) else None)"
    by (intro more_go [OF 3]) (use r less in simp_all)
  with more have "4 \<le> n" by (auto split: if_splits dest: more_count)
  then show ?thesis using assms Some t by (simp add: utf8_decode_def Let_def)
qed

section \<open>The decoder against the encoder\<close>

text \<open>A C string that starts with the bytes of an encoding; the NUL that ends it counts.\<close>

definition starts :: "bytes \<Rightarrow> bytes \<Rightarrow> bool" where
  "starts s e \<longleftrightarrow> (\<forall>i < length e. byte_at s i = e ! i)"

lemma starts_Nil: "starts s []"
  by (simp add: starts_def)

lemma starts_snoc: "starts s (e @ [c]) \<longleftrightarrow> starts s e \<and> byte_at s (length e) = c"
  by (auto simp: starts_def nth_append less_Suc_eq)

lemma starts_single: "starts s [c] \<longleftrightarrow> byte_at s 0 = c"
  using starts_snoc [of s "[]" c] by (simp add: starts_Nil)

lemma starts_prefix: "s @ [0] = e @ r \<Longrightarrow> starts s e"
proof -
  assume eq: "s @ [0] = e @ r"
  have "byte_at s i = e ! i" if "i < length e" for i
  proof -
    have "i \<le> length s" using that arg_cong [OF eq, of length] by simp
    then have "byte_at s i = (s @ [0]) ! i" by (auto simp: byte_at_def nth_append)
    then show ?thesis using that by (simp add: eq nth_append)
  qed
  then show ?thesis by (simp add: starts_def)
qed

lemma starts_append: "starts (e @ r) e"
  by (simp add: starts_def byte_at_append)

lemma prefix_starts:
  assumes "starts s e" and "\<And>i. i + 1 < length e \<Longrightarrow> e ! i \<noteq> 0"
  shows "\<exists>r. s @ [0] = e @ r"
proof -
  have len: "length e \<le> length s + 1"
  proof (rule ccontr)
    assume "\<not> ?thesis"
    then have "e ! length s \<noteq> 0" "byte_at s (length s) = e ! length s"
      using assms by (auto simp: starts_def)
    then show False by (simp add: byte_at_def)
  qed
  have "take (length e) (s @ [0]) = e"
  proof (rule nth_equalityI)
    fix i
    assume i: "i < length (take (length e) (s @ [0]))"
    then have "byte_at s i = e ! i" using assms(1) by (simp add: starts_def)
    moreover have "(s @ [0]) ! i = byte_at s i" using i by (auto simp: byte_at_def nth_append)
    ultimately show "take (length e) (s @ [0]) ! i = e ! i" using i by (simp del: take_append)
  qed (use len in simp)
  then show ?thesis by (metis append_take_drop_id)
qed

lemma byte_eq: "n < 256 \<Longrightarrow> c = b n \<longleftrightarrow> unat c = n"
  using unat_b [of n] by (metis word_unat_eq_iff)

lemma cont_eq: "y < 64 \<Longrightarrow> byte_at s i = b (128 + y) \<longleftrightarrow>
    unat (byte_at s i) div 64 = 2 \<and> low s i = y"
proof -
  assume y: "y < 64"
  have "n = 128 + y \<longleftrightarrow> n div 64 = 2 \<and> n mod 64 = y" for n
  proof
    assume "n div 64 = 2 \<and> n mod 64 = y"
    then show "n = 128 + y" using div_mult_mod_eq [of n 64] by linarith
  qed (use y mod_high [of y 64 2] in simp)
  with byte_eq [of "128 + y"] y show ?thesis by (simp add: low_def)
qed

lemma esc_cases:
  assumes "x < 0x200000"
  obtains (1) "x < 0x80" "luaO_utf8esc x = [b x]"
  | (2) d y where "x = d * 64 + y" "d < 32" "y < 64" "0x80 \<le> x"
      "luaO_utf8esc x = [b (192 + d), b (128 + y)]"
  | (3) d y z where "x = d * 4096 + (y * 64 + z)" "d < 16" "y < 64" "z < 64" "0x800 \<le> x"
      "luaO_utf8esc x = [b (224 + d), b (128 + y), b (128 + z)]"
  | (4) d y z w where "x = d * 262144 + (y * 4096 + z * 64 + w)" "d < 8" "y < 64" "z < 64" "w < 64"
      "0x10000 \<le> x" "luaO_utf8esc x = [b (240 + d), b (128 + y), b (128 + z), b (128 + w)]"
proof -
  have split: "x div 64 mod 64 * 64 + x mod 64 = x mod 4096"
    "x div 4096 mod 64 * 4096 + x mod 4096 = x mod 262144"
    using mod_mult2_eq [of x 64 64] mod_mult2_eq [of x 4096 64] by simp_all
  consider "x < 0x80" | "0x80 \<le> x" "x < 0x800" | "0x800 \<le> x" "x < 0x10000" | "0x10000 \<le> x"
    by linarith
  then show thesis
  proof cases
    case 1
    then show ?thesis using that(1) utf8esc_1 by simp
  next
    case 2
    then have "x div 64 < 32" by simp
    with 2 that(2) [of "x div 64" "x mod 64"] utf8esc_2 show ?thesis by simp
  next
    case 3
    then have "x div 4096 < 16" by simp
    with 3 that(3) [of "x div 4096" "x div 64 mod 64" "x mod 64"] utf8esc_3 split
    show ?thesis by simp
  next
    case 4
    then have "x div 262144 < 8" using assms by simp
    moreover have "x = x div 262144 * 262144 +
        (x div 4096 mod 64 * 4096 + x div 64 mod 64 * 64 + x mod 64)"
      using split div_mult_mod_eq [of x 262144] by linarith
    ultimately show ?thesis
      using 4 that(4) [of "x div 262144" "x div 4096 mod 64" "x div 64 mod 64" "x mod 64"]
        utf8esc_4 [OF 4 assms] by simp
  qed
qed

lemma decode_starts:
  assumes "x \<le> MAXUNICODE" and "starts s (luaO_utf8esc x)"
  shows "utf8_decode s = Decoded x (length (luaO_utf8esc x))"
proof -
  have "x < 0x200000" using assms(1) by (simp add: MAXUNICODE_def)
  then show ?thesis
  proof (cases rule: esc_cases)
    case 1
    then have "unat (byte_at s 0) = x" using assms(2) by (simp add: starts_single unat_b)
    then show ?thesis using 1 decode_1 [of s] by simp
  next
    case (2 d y)
    then have "unat (byte_at s 0) = 192 + d" "conts s 1" "low s 1 = y"
      using assms(2) starts_snoc [of s "[b (192 + d)]" "b (128 + y)"]
      by (auto simp: starts_single unat_b cont_eq conts_Suc conts_0)
    then show ?thesis using 2 decode_2 [of s d] by simp
  next
    case (3 d y z)
    then have "unat (byte_at s 0) = 224 + d" "conts s 2" "low s 1 = y" "low s 2 = z"
      using assms(2) starts_snoc [of s "[b (224 + d)]"] starts_snoc [of s "[b (224 + d), b (128 + y)]"]
      by (auto simp: starts_single unat_b cont_eq conts_Suc conts_0 numeral_2_eq_2)
    then show ?thesis using 3 decode_3 [of s d] by simp
  next
    case (4 d y z w)
    then have "unat (byte_at s 0) = 240 + d" "conts s 3" "low s 1 = y" "low s 2 = z" "low s 3 = w"
      using assms(2) starts_snoc [of s "[b (240 + d)]"] starts_snoc [of s "[b (240 + d), b (128 + y)]"]
        starts_snoc [of s "[b (240 + d), b (128 + y), b (128 + z)]"]
      by (auto simp: starts_single unat_b cont_eq conts_Suc conts_0 numeral_2_eq_2 numeral_3_eq_3)
    then show ?thesis using 4 decode_4 [of s d] assms(1) by simp
  qed
qed

lemma cont_low: "unat (byte_at s i) div 64 = 2 \<Longrightarrow> byte_at s i = b (128 + low s i)"
  using cont_eq [of "low s i" s i] low_less by simp

lemma byte_b: "unat c = n \<Longrightarrow> c = b n"
  using byte_eq [of n c] byte_less [of c] by simp

lemma decoded_starts:
  assumes "utf8_decode s = Decoded x k"
  shows "x \<le> MAXUNICODE \<and> k = length (luaO_utf8esc x) \<and> starts s (luaO_utf8esc x)"
proof -
  let ?c = "unat (byte_at s 0)"
  note l = low_less [of s 1] low_less [of s 2] low_less [of s 3]
  note S = starts_snoc [of s "[_]" _, simplified] starts_snoc [of s "[_, _]" _, simplified]
    starts_snoc [of s "[_, _, _]" _, simplified]
  consider "?c < 128" | "128 \<le> ?c \<and> ?c < 192" | d where "?c = 192 + d" "d < 32"
    | d where "?c = 224 + d" "d < 16" | d where "?c = 240 + d" "d < 8" | "248 \<le> ?c"
    using that(3) [of "?c - 192"] that(4) [of "?c - 224"] that(5) [of "?c - 240"] that by fastforce
  then show ?thesis
  proof cases
    case 1
    with decode_1 [of s] assms utf8esc_1 [of x] byte_b [of "byte_at s 0"]
    show ?thesis by (auto simp: starts_single MAXUNICODE_def)
  next
    case 2
    with decode_bad [of s] assms show ?thesis by simp
  next
    case (3 d)
    with decode_2 [of s d] assms have x: "x = d * 64 + low s 1" "0x7F < x" "k = 2" "conts s 1"
      by (auto split: if_splits)
    with 3 l have "x < 0x800" "x div 64 = d" "x mod 64 = low s 1" by simp_all
    then have "luaO_utf8esc x = [b (192 + d), b (128 + low s 1)]" using utf8esc_2 [of x] x by simp
    then show ?thesis
      using 3 x byte_b [OF 3(1)] cont_low [of s 1] \<open>x < 0x800\<close>
      by (simp add: S starts_single conts_def MAXUNICODE_def)
  next
    case (4 d)
    with decode_3 [of s d] assms
    have x: "x = d * 4096 + (low s 1 * 64 + low s 2)" "0x7FF < x" "k = 3" "conts s 2"
      by (auto split: if_splits)
    with 4 l have x4: "x < 0x10000" "x div 4096 = d" by simp_all
    have "x div 64 = d * 64 + low s 1" "x mod 64 = low s 2"
      using x(1) l mod_high [of "low s 2" 64 "d * 64 + low s 1"] by (simp_all add: algebra_simps)
    then have "luaO_utf8esc x = [b (224 + d), b (128 + low s 1), b (128 + low s 2)]"
      using utf8esc_3 [of x] x(2) x4 l by simp
    then show ?thesis
      using 4 x(2-) byte_b [OF 4(1)] cont_low [of s 1] cont_low [of s 2] x4(1)
      by (simp add: S starts_single conts_def MAXUNICODE_def numeral_2_eq_2)
  next
    case (5 d)
    with decode_4 [of s d] assms
    have x: "x = d * 262144 + (low s 1 * 4096 + low s 2 * 64 + low s 3)" "0xFFFF < x" "k = 4"
      "conts s 3" "x \<le> MAXUNICODE"
      by (auto split: if_splits)
    with 5 l have x5: "x < 0x200000" "x div 262144 = d" by simp_all
    have "x div 4096 = d * 64 + low s 1" "x div 64 = (d * 64 + low s 1) * 64 + low s 2"
      "x mod 64 = low s 3"
      using x(1) l mod_high [of "low s 3" 64 "d * 4096 + low s 1 * 64 + low s 2"]
      by (simp_all add: algebra_simps)
    then have "luaO_utf8esc x = [b (240 + d), b (128 + low s 1), b (128 + low s 2), b (128 + low s 3)]"
      using utf8esc_4 [of x] x(2) x5 l mod_high [of "low s 2" 64 "d * 64 + low s 1"]
      by (simp add: algebra_simps)
    then show ?thesis
      using 5 x(2-) byte_b [OF 5(1)] cont_low [of s 1] cont_low [of s 2] cont_low [of s 3]
      by (simp add: S starts_single conts_def numeral_2_eq_2 numeral_3_eq_3)
  next
    case 6
    with decode_5 [of s x k] assms show ?thesis by simp
  qed
qed

lemma esc_nonzero:
  assumes "x \<le> MAXUNICODE" and "i + 1 < length (luaO_utf8esc x)"
  shows "luaO_utf8esc x ! i \<noteq> 0"
proof -
  have nz: "b n \<noteq> 0" if "0 < n" "n < 256" for n
    using that unat_b [of n] by auto
  have "x < 0x200000" using assms(1) by (simp add: MAXUNICODE_def)
  then show ?thesis
    by (cases rule: esc_cases) (use assms(2) in \<open>auto simp: nth_Cons' nz\<close>)
qed

text \<open>C13: The UTF-8 decoder is the inverse of the encoder: it accepts, at the start of a C string,
  exactly the bytes that \<open>luaO_utf8esc\<close> writes for a code point up to 10FFFF, and returns that code
  point and their number. No overlong sequence, no value above the limit and no truncated sequence
  is decoded.\<close>

theorem utf8_decode_exact:
  "utf8_decode s = Decoded x k \<longleftrightarrow>
     x \<le> MAXUNICODE \<and> k = length (luaO_utf8esc x) \<and> (\<exists>r. s @ [0] = luaO_utf8esc x @ r)"
  using decoded_starts [of s x k] decode_starts [of x s] prefix_starts [of s "luaO_utf8esc x"]
    esc_nonzero [of x] starts_prefix [of s "luaO_utf8esc x"] by blast

text \<open>The escape of a code point is at most four bytes, the shortest form: one below 80, two below
  800, three below 10000 (hexadecimal).\<close>

theorem utf8esc_shortest:
  assumes "x \<le> MAXUNICODE"
  shows "length (luaO_utf8esc x) =
    (if x < 0x80 then 1 else if x < 0x800 then 2 else if x < 0x10000 then 3 else 4)"
  using assms utf8esc_1 [of x] utf8esc_2 [of x] utf8esc_3 [of x] utf8esc_4 [of x]
  by (simp add: MAXUNICODE_def)

section \<open>A codec for code points\<close>

definition code_dec :: "bytes \<Rightarrow> (nat \<times> bytes) option" where
  "code_dec s =
     (case utf8_decode s of
        Decoded c k \<Rightarrow> if k \<le> length s then Some (c, drop k s) else None
      | _ \<Rightarrow> None)"

interpretation utf8: codec luaO_utf8esc code_dec "\<lambda>x. x \<le> MAXUNICODE"
proof unfold_locales
  fix x rest
  assume "x \<le> MAXUNICODE"
  then have "utf8_decode (luaO_utf8esc x @ rest) = Decoded x (length (luaO_utf8esc x))"
    by (rule decode_starts) (rule starts_append)
  then show "code_dec (luaO_utf8esc x @ rest) = Some (x, rest)" by (simp add: code_dec_def)
qed

section \<open>The library functions on encoded text\<close>

text \<open>The text of a list of code points.\<close>

abbreviation encoded :: "nat list \<Rightarrow> bytes" where
  "encoded cs \<equiv> concat (map luaO_utf8esc cs)"

abbreviation codes_ok :: "nat list \<Rightarrow> bool" where
  "codes_ok cs \<equiv> (\<forall>c \<in> set cs. c \<le> MAXUNICODE)"

lemma utfchar_encoded: "codes_ok cs \<Longrightarrow> utfchar_from i (map int cs) = Inr (encoded cs)"
  by (induction cs arbitrary: i) (simp_all add: pushutfchar_def)

lemma utfchar_bad:
  "\<not> codes_ok cs \<Longrightarrow> \<exists>a. utfchar_from i (map int cs) = Inl (Arg_error a ''value out of range'')"
proof (induction cs arbitrary: i)
  case (Cons c cs)
  show ?case
  proof (cases "c \<le> MAXUNICODE")
    case True
    with Cons.prems have "\<not> codes_ok cs" by simp
    from Cons.IH [OF this, of "Suc i"] obtain a
      where "utfchar_from (Suc i) (map int cs) = Inl (Arg_error a ''value out of range'')" ..
    with True show ?thesis by (simp add: pushutfchar_def)
  qed (simp add: pushutfchar_def)
qed simp

lemma decode_here:
  "c \<le> MAXUNICODE \<Longrightarrow>
   utf8_decode (drop (length pre) (pre @ luaO_utf8esc c @ r)) = Decoded c (length (luaO_utf8esc c))"
  using decode_starts [OF _ starts_append] by simp

lemma encoded_split:
  "pre @ encoded (c # cs) = (pre @ luaO_utf8esc c) @ encoded cs"
  "length (pre @ luaO_utf8esc c) = length pre + length (luaO_utf8esc c)"
  by simp_all

lemma cont_b: "y < 64 \<Longrightarrow> iscont (b (128 + y))"
  using unat_b [of "128 + y"] by (simp add: iscont_iff)

lemma lead_b: "y < 128 \<or> 192 \<le> y \<and> y < 256 \<Longrightarrow> \<not> iscont (b y)"
  using unat_b [of y] by (auto simp: iscont_iff)

lemma esc_shape:
  assumes "x \<le> MAXUNICODE"
  obtains h t where "luaO_utf8esc x = h # t" "\<not> iscont h" "\<forall>c \<in> set t. iscont c"
proof -
  have "x < 0x200000" using assms by (simp add: MAXUNICODE_def)
  then have "\<exists>h t. luaO_utf8esc x = h # t \<and> \<not> iscont h \<and> (\<forall>c \<in> set t. iscont c)"
    by (cases rule: esc_cases) (auto simp: cont_b lead_b)
  with that show thesis by blast
qed

lemma esc_ne: "x \<le> MAXUNICODE \<Longrightarrow> luaO_utf8esc x \<noteq> []"
  by (auto elim: esc_shape)

text \<open>\<open>utf8.len\<close> and \<open>utf8.codepoint\<close> walk over one character at a time.\<close>

lemma utflen_encoded:
  "codes_ok cs \<Longrightarrow> s = pre @ encoded cs \<Longrightarrow>
   n \<le> INT_MAX \<Longrightarrow> utflen_loop s (length pre) (int (length s) - 1) n =
     (if n + length cs \<le> INT_MAX then Inr (Inr (n + length cs)) else Inl Undefined_sum)"
proof (induction cs arbitrary: pre n)
  case Nil
  then show ?case by (simp add: utflen_loop.simps)
next
  case (Cons c cs)
  obtain h t where "luaO_utf8esc c = h # t" using Cons.prems by (auto elim: esc_shape)
  then have "int (length pre) \<le> int (length s) - 1" using Cons.prems(2) by simp
  moreover have "utf8_decode (drop (length pre) s) = Decoded c (length (luaO_utf8esc c))"
    using decode_here [of c pre "encoded cs"] Cons.prems by simp
  ultimately show ?case
    unfolding utflen_loop.simps [of s "length pre"]
    using Cons.IH [of "pre @ luaO_utf8esc c" "n + 1"] Cons.prems by simp
qed

lemma codepoint_encoded:
  "codes_ok cs \<Longrightarrow> s = pre @ encoded cs \<Longrightarrow>
   codepoint_loop s (length pre) (length s) = Inr cs"
proof (induction cs arbitrary: pre)
  case Nil
  then show ?case by (simp add: codepoint_loop.simps)
next
  case (Cons c cs)
  obtain h t where "luaO_utf8esc c = h # t" using Cons.prems by (auto elim: esc_shape)
  then have "length pre < length s" using Cons.prems(2) by simp
  moreover have "utf8_decode (drop (length pre) s) = Decoded c (length (luaO_utf8esc c))"
    using decode_here [of c pre "encoded cs"] Cons.prems by simp
  ultimately show ?case
    unfolding codepoint_loop.simps [of s "length pre"]
    using Cons.IH [of "pre @ luaO_utf8esc c"] Cons.prems by simp
qed

text \<open>C14: What \<open>utf8.char\<close> builds, \<open>utf8.codepoint(s, 1, -1)\<close> takes apart and \<open>utf8.len\<close> counts.
  For code points in range the string is made, and its length in characters is their number, unless
  that overflows the \<open>int\<close> of the code. Reading the string gives the same code points when the
  stack has room for as many values as the string has bytes; a string of more than \<open>INT_MAX\<close> bytes
  and one for which there is no room are errors (within 20 of \<open>INT_MAX\<close> the sum in the stack check
  overflows). A code point out of range is an argument error.\<close>

theorem utf8_library_roundtrip:
  "(codes_ok cs \<longrightarrow>
     utfchar (map int cs) = Inr (encoded cs) \<and>
     utflen (encoded cs) 1 (-1) = (if length cs \<le> INT_MAX then Inr (Inr (length cs)) else Inl Undefined_sum) \<and>
     codepoint L (encoded cs) 1 (Some (-1)) =
       (if cs = [] then Inr []
        else if length (encoded cs) > INT_MAX then Inl (Lua_error ''string slice too long'')
        else case luaL_checkstack L (int (length (encoded cs))) of
            None \<Rightarrow> Inl Undefined_sum
          | Some False \<Rightarrow> Inl (Lua_error ''stack overflow (string slice too long)'')
          | Some True \<Rightarrow> Inr cs)) \<and>
   (\<not> codes_ok cs \<longrightarrow> (\<exists>a. utfchar (map int cs) = Inl (Arg_error a ''value out of range'')))"
proof (intro conjI impI)
  assume ok: "codes_ok cs"
  show "utfchar (map int cs) = Inr (encoded cs)" using utfchar_encoded [OF ok] by (simp add: utfchar_def)
  have len: "utflen_loop (encoded cs) 0 (int (length (encoded cs)) - 1) 0 =
      (if length cs \<le> INT_MAX then Inr (Inr (length cs)) else Inl Undefined_sum)"
    using utflen_encoded [OF ok, of "encoded cs" "[]" 0] by simp
  have rel: "u_posrelat 1 n = 1" "u_posrelat (-1) n = int n" for n
    by (auto simp: u_posrelat_def)
  show "utflen (encoded cs) 1 (-1) = (if length cs \<le> INT_MAX then Inr (Inr (length cs)) else Inl Undefined_sum)"
    unfolding utflen_def Let_def rel using len by simp
  have pts: "codepoint_loop (encoded cs) 0 (length (encoded cs)) = Inr cs"
    using codepoint_encoded [OF ok, of "encoded cs" "[]"] by simp
  have ne: "encoded cs = [] \<longleftrightarrow> cs = []" using ok by (cases cs) (auto simp: esc_ne)
  obtain n where n: "length (encoded cs) = n" by simp
  have bounds: "int INT_MAX \<le> int n - 1 \<longleftrightarrow> INT_MAX < n" "int n < 1 \<longleftrightarrow> n = 0" by linarith+
  from n ne have "0 < n \<longleftrightarrow> cs \<noteq> []" by auto
  then show "codepoint L (encoded cs) 1 (Some (-1)) =
       (if cs = [] then Inr []
        else if length (encoded cs) > INT_MAX then Inl (Lua_error ''string slice too long'')
        else case luaL_checkstack L (int (length (encoded cs))) of
            None \<Rightarrow> Inl Undefined_sum
          | Some False \<Rightarrow> Inl (Lua_error ''stack overflow (string slice too long)'')
          | Some True \<Rightarrow> Inr cs)"
    unfolding codepoint_def Let_def option.case rel n using pts [unfolded n] bounds
    by (cases "cs = []") (simp_all split: option.split bool.split)
next
  assume "\<not> codes_ok cs"
  then show "\<exists>a. utfchar (map int cs) = Inl (Arg_error a ''value out of range'')"
    unfolding utfchar_def by (rule utfchar_bad)
qed

text \<open>\<open>utf8.codes\<close> and \<open>utf8.offset\<close> find the next character by skipping continuation bytes.\<close>

lemma skip_conts:
  "\<forall>c \<in> set t. iscont c \<Longrightarrow> \<not> iscont (byte_at r 0) \<Longrightarrow>
   skip_cont (pre @ t @ r) (length pre) = length (pre @ t)"
proof (induction t arbitrary: pre)
  case Nil
  then show ?case by (simp add: skip_cont.simps byte_at_append)
next
  case (Cons c t)
  then have "iscont (byte_at (pre @ (c # t) @ r) (length pre))"
    by (simp add: byte_at_append byte_at_Cons)
  then show ?case
    using Cons.IH [of "pre @ [c]"] Cons.prems
    by (simp add: skip_cont.simps [of "pre @ c # t @ r" "length pre"])
qed

lemma encoded_start: "codes_ok cs \<Longrightarrow> \<not> iscont (byte_at (encoded cs) 0)"
proof (cases cs)
  case (Cons c cs')
  assume "codes_ok cs"
  with Cons obtain h t where "luaO_utf8esc c = h # t" "\<not> iscont h" by (auto elim: esc_shape)
  then show ?thesis by (simp add: Cons byte_at_Cons)
qed (simp add: byte_at_def iscont_def)

lemma skip_char:
  assumes "codes_ok (c # cs)"
  shows "skip_cont (pre @ encoded (c # cs)) (length pre + 1) = length (pre @ luaO_utf8esc c)"
proof -
  obtain h t where "luaO_utf8esc c = h # t" "\<forall>c \<in> set t. iscont c"
    using assms by (auto elim: esc_shape)
  then show ?thesis
    using skip_conts [of t "encoded cs" "pre @ [h]"] encoded_start [of cs] assms by simp
qed

lemma forward_encoded:
  "codes_ok cs \<Longrightarrow>
   forward (pre @ encoded cs) (int n) (length pre) =
     (int (n - length cs), length (pre @ encoded (take n cs)))"
proof (induction cs arbitrary: pre n)
  case Nil
  then show ?case by (simp add: forward.simps)
next
  case (Cons c cs)
  show ?case
  proof (cases n)
    case 0
    then show ?thesis by (simp add: forward.simps)
  next
    case (Suc m)
    obtain h t where "luaO_utf8esc c = h # t" using Cons.prems by (auto elim: esc_shape)
    then have "length pre < length (pre @ encoded (c # cs))" by simp
    then have "forward (pre @ encoded (c # cs)) (int n) (length pre) =
        forward (pre @ encoded (c # cs)) (int m) (length (pre @ luaO_utf8esc c))"
      unfolding forward.simps [of "pre @ encoded (c # cs)" "int n"]
      using skip_char [OF Cons.prems, of pre] by (simp add: Suc)
    then show ?thesis
      using Cons.IH [of "pre @ luaO_utf8esc c" m] Cons.prems by (simp add: Suc)
  qed
qed

lemma offset_encoded:
  assumes "codes_ok cs"
  shows "byteoffset (encoded cs) (int (Suc n)) None =
    Inr (if n \<le> length cs then Some (length (encoded (take n cs)) + 1) else None)"
proof -
  have rel: "u_posrelat 1 l = 1" for l by (simp add: u_posrelat_def)
  have "forward (encoded cs) (int n) 0 = (int (n - length cs), length (encoded (take n cs)))"
    using forward_encoded [OF assms, of "[]" n] by simp
  then show ?thesis
    using encoded_start [OF assms] by (auto simp: byteoffset_def Let_def rel)
qed

lemma iter_encoded:
  assumes "codes_ok (c # cs)"
  shows "iter_aux (encoded (as @ c # cs)) (int (length (encoded as) + 1)) =
    Inr (case cs of [] \<Rightarrow> None | d # _ \<Rightarrow> Some (length (encoded (as @ [c])) + 1, d))"
proof -
  let ?s = "encoded (as @ c # cs)"
  obtain h t where "luaO_utf8esc c = h # t" using assms by (auto elim: esc_shape)
  then have less: "int (length (encoded as)) < int (length ?s)" by simp
  have skip: "skip_cont ?s (length (encoded as) + 1) = length (encoded (as @ [c]))"
    using skip_char [OF assms, of "encoded as"] by simp
  show ?thesis
  proof (cases cs)
    case Nil
    then show ?thesis using less skip by (simp add: iter_aux_def)
  next
    case (Cons d ds)
    obtain h' t' where d: "luaO_utf8esc d = h' # t'" using assms Cons by (auto elim: esc_shape)
    have "utf8_decode (drop (length (encoded (as @ [c]))) ?s) = Decoded d (length (luaO_utf8esc d))"
      using decode_here [of d "encoded (as @ [c])" "encoded ds"] assms Cons by simp
    moreover have "\<not> iscont (byte_at ?s (length (encoded (as @ [c])) + length (luaO_utf8esc d)))"
      using encoded_start [of ds] assms Cons by (simp add: byte_at_append)
    ultimately show ?thesis using less skip Cons d by (simp add: iter_aux_def)
  qed
qed

lemma iter_first:
  assumes "codes_ok cs"
  shows "iter_aux (encoded cs) 0 = Inr (case cs of [] \<Rightarrow> None | c # _ \<Rightarrow> Some (1, c))"
proof (cases cs)
  case (Cons c cs')
  obtain h t where h: "luaO_utf8esc c = h # t" using assms Cons by (auto elim: esc_shape)
  have "utf8_decode (encoded cs) = Decoded c (length (luaO_utf8esc c))"
    using decode_here [of c "[]" "encoded cs'"] assms Cons by simp
  moreover have "\<not> iscont (byte_at (encoded cs) (length (luaO_utf8esc c)))"
    using encoded_start [of cs'] assms Cons by (simp add: byte_at_append)
  ultimately show ?thesis using Cons h by (simp add: iter_aux_def)
qed (simp add: iter_aux_def)

text \<open>\<open>utf8.offset(s, n)\<close> and the iterator of \<open>utf8.codes\<close> move by characters: on encoded text
  the \<open>n\<close>-th character starts where the first \<open>n - 1\<close> end, one position past the last character is
  still found and any further one is not; the iterator starts at the first character, and from the
  start of one character it reaches the next one and its code, and stops after the last.\<close>

theorem utf8_offsets:
  assumes "codes_ok (as @ c # cs)"
  shows "byteoffset (encoded (as @ c # cs)) (int (Suc n)) None =
      Inr (if n \<le> length (as @ c # cs) then Some (length (encoded (take n (as @ c # cs))) + 1)
           else None) \<and>
    iter_aux (encoded (as @ c # cs)) 0 = Inr (Some (1, hd (as @ [c]))) \<and>
    iter_aux (encoded (as @ c # cs)) (int (length (encoded as) + 1)) =
      Inr (case cs of [] \<Rightarrow> None | d # _ \<Rightarrow> Some (length (encoded (as @ [c])) + 1, d))"
  using offset_encoded [OF assms, of n] iter_encoded [of c cs as] iter_first [OF assms] assms
  by (cases as) simp_all

theorem utf8_offsets_witness:
  "byteoffset (encoded ([65] @ 0x20AC # [0x10348])) 3 None = Inr (Some 5) \<and>
   iter_aux (encoded ([65] @ 0x20AC # [0x10348])) 2 = Inr (Some (5, 0x10348))"
  using utf8_offsets [of "[65]" "0x20AC" "[0x10348]" 2] utf8esc_shortest [of 65] utf8esc_shortest [of "0x20AC"]
  by (simp add: MAXUNICODE_def)

theorem utf8esc_shortest_witness: "length (luaO_utf8esc 0x20AC) = 3"
  using utf8esc_shortest [of "0x20AC"] by (simp add: MAXUNICODE_def)

theorem utf8_library_roundtrip_witness:
  "utflen (encoded [0x20AC, 65]) 1 (-1) = Inr (Inr 2) \<and>
   codepoint \<lparr>stack_top = 10, stack_last = 40, stack_grows = (\<lambda>_. True)\<rparr> (encoded [0x20AC, 65]) 1 (Some (-1)) =
     Inr [0x20AC, 65]"
proof -
  let ?L = "\<lparr>stack_top = 10, stack_last = 40, stack_grows = (\<lambda>_. True)\<rparr> :: lua_stack"
  have n: "length (encoded [0x20AC, 65]) = 4"
    using utf8esc_shortest [of "0x20AC"] utf8esc_shortest [of 65] by (simp add: MAXUNICODE_def)
  have max: "\<not> 4 > INT_MAX" "length [0x20AC, 65 :: nat] \<le> INT_MAX" by (simp_all add: INT_MAX_def)
  have fits: "luaL_checkstack ?L (int 4) = Some True"
    by (simp add: luaL_checkstack_def lua_checkstack_def LUA_MINSTACK_def INT_MAX_def)
  have ok: "codes_ok [0x20AC, 65]" by (simp add: MAXUNICODE_def)
  note T = utf8_library_roundtrip [of "[0x20AC, 65]" ?L, THEN conjunct1, THEN mp, OF ok]
  from T have "utflen (encoded [0x20AC, 65]) 1 (-1) = Inr (Inr 2)" using max by (simp del: list.map concat.simps)
  moreover from T have "codepoint ?L (encoded [0x20AC, 65]) 1 (Some (-1)) = Inr [0x20AC, 65]"
    unfolding n fits using max(1) by (simp del: list.map concat.simps)
  ultimately show ?thesis by blast
qed

text \<open>
  A first byte with a run of ones that does not end keeps the first loop of the decoder going over
  seven continuation bytes; the shift that follows is by 35 on a 32-bit \<open>unsigned int\<close>.
\<close>

lemma decode_undefined_shift: "utf8_decode (0xFF # replicate 7 0x80) = Bad_shift"
proof -
  define s :: bytes where "s = 0xFF # replicate 7 0x80"
  have at: "byte_at s (n + 1) = 0x80" if "n < 7" for n
    using that by (simp add: s_def byte_at_Cons byte_at_def)
  have step: "utf8_more s c n 0 = utf8_more s d m 0"
    if "n < 7" "odd (c div 64)" "d = 2 * c" "d < 2 ^ 32" "m = n + 1" for c d m n
    using more_step [of c s n 0] at [OF that(1)] that by simp
  have "utf8_more s 255 0 0 = utf8_more s 510 1 0" by (rule step) simp_all
  also have "\<dots> = utf8_more s 1020 2 0" by (rule step) simp_all
  also have "\<dots> = utf8_more s 2040 3 0" by (rule step) simp_all
  also have "\<dots> = utf8_more s 4080 4 0" by (rule step) simp_all
  also have "\<dots> = utf8_more s 8160 5 0" by (rule step) simp_all
  also have "\<dots> = utf8_more s 16320 6 0" by (rule step) simp_all
  also have "\<dots> = utf8_more s 32640 7 0" by (rule step) simp_all
  also have "\<dots> = Some (32640, 7, 0)" by (rule more_stop) simp
  finally have "utf8_more s 255 0 0 = Some (32640, 7, 0)" .
  moreover have "unat (byte_at s 0) = 255" by (simp add: s_def byte_at_Cons)
  ultimately have "utf8_decode s = Bad_shift" by (simp add: utf8_decode_def)
  then show ?thesis by (simp add: s_def)
qed

end
