(* ===== verification/LuaValue.thy ===== *)
theory LuaValue
  imports LuaObject
begin

text \<open>
  Lua values as the virtual machine stores them (\<open>lobject.h\<close>), the string objects they refer to
  (\<open>lstring.c\<close>), the conversion of floats to integers and raw equality (\<open>lvm.c\<close>).

  Every collectable object is an address; the string objects are a store from addresses to
  \<open>TString\<close>s. A \<open>lua_Number\<close> is the 64 bits of an IEEE double.
\<close>

type_synonym addr = nat
type_synonym lua_Number = u64

section \<open>Doubles\<close>

definition fl_neg :: "lua_Number \<Rightarrow> bool" where
  "fl_neg x = bit x 63"

definition fl_exp :: "lua_Number \<Rightarrow> nat" where
  "fl_exp x = unat x div 2 ^ 52 mod 2 ^ 11"

definition fl_frac :: "lua_Number \<Rightarrow> nat" where
  "fl_frac x = unat x mod 2 ^ 52"

definition luai_numisnan :: "lua_Number \<Rightarrow> bool" where
  "luai_numisnan x \<longleftrightarrow> fl_exp x = 2047 \<and> fl_frac x \<noteq> 0"

definition fl_zero :: "lua_Number \<Rightarrow> bool" where
  "fl_zero x \<longleftrightarrow> fl_exp x = 0 \<and> fl_frac x = 0"

definition luai_numeq :: "lua_Number \<Rightarrow> lua_Number \<Rightarrow> bool" where
  "luai_numeq x y \<longleftrightarrow>
     \<not> luai_numisnan x \<and> \<not> luai_numisnan y \<and> (x = y \<or> fl_zero x \<and> fl_zero y)"

text \<open>A finite double is \<open>\<plusminus> fl_man x * 2 ^ fl_pow x\<close>.\<close>

definition fl_man :: "lua_Number \<Rightarrow> nat" where
  "fl_man x = (if fl_exp x = 0 then fl_frac x else 2 ^ 52 + fl_frac x)"

definition fl_pow :: "lua_Number \<Rightarrow> int" where
  "fl_pow x = (if fl_exp x = 0 then - 1074 else int (fl_exp x) - 1075)"

definition fl_signed :: "lua_Number \<Rightarrow> nat \<Rightarrow> int" where
  "fl_signed x n = (if fl_neg x then - int n else int n)"

text \<open>\<open>lua_numbertointeger\<close> on an integral value.\<close>

definition lua_numbertointeger :: "int \<Rightarrow> lua_Integer option" where
  "lua_numbertointeger v = (if - (2 ^ 63) \<le> v \<and> v < 2 ^ 63 then Some (word_of_int v) else None)"

text \<open>\<open>luaV_tointeger\<close> with mode 0 on a float: only integral values in range are converted.\<close>

definition fl_tointeger :: "lua_Number \<Rightarrow> lua_Integer option" where
  "fl_tointeger x =
     (if fl_exp x = 2047 then None
      else if 0 \<le> fl_pow x then lua_numbertointeger (fl_signed x (fl_man x * 2 ^ nat (fl_pow x)))
      else let d = 2 ^ nat (- fl_pow x) in
        if fl_man x mod d = 0 then lua_numbertointeger (fl_signed x (fl_man x div d)) else None)"

fun bit_size :: "nat \<Rightarrow> nat" where
  "bit_size n = (if n = 0 then 0 else Suc (bit_size (n div 2)))"

declare bit_size.simps [simp del]

text \<open>
  \<open>l_hashfloat\<close>: \<open>frexp\<close> normalises the mantissa to \<open>[1/2, 1)\<close>; the product with 2 to the 31 is
  truncated to an integer.
\<close>

definition l_hashfloat :: "lua_Number \<Rightarrow> nat" where
  "l_hashfloat x =
     (if fl_exp x = 2047 then 0
      else
        let k = bit_size (fl_man x);
            i = (if fl_man x = 0 then 0 else fl_pow x + int k);
            ni = fl_signed x (fl_man x * 2 ^ 31 div 2 ^ k);
            u = nat ((i + ni) mod 2 ^ 32)
        in if u \<le> INT_MAX then u else 2 ^ 32 - 1 - u)"

section \<open>String objects\<close>

record tstring =
  ts_short :: bool
  ts_hash :: u32
  ts_extra :: bool
  ts_bytes :: bytes
  ts_hnext :: "addr option"

type_synonym strings = "addr \<Rightarrow> tstring"

definition LUAI_HASHLIMIT :: nat where "LUAI_HASHLIMIT = 5"

function hash_loop :: "bytes \<Rightarrow> nat \<Rightarrow> nat \<Rightarrow> u32 \<Rightarrow> u32" where
  "hash_loop str step l h =
     (if 0 < step \<and> step \<le> l then
        hash_loop str step (l - step)
          (h XOR (push_bit 5 h + drop_bit 2 h + word_of_nat (unat (byte_at str (l - 1)))))
      else h)"
  by pat_completeness auto
termination by (relation "measure (\<lambda>(str, step, l, h). l)") auto

declare hash_loop.simps [simp del]

definition luaS_hash :: "bytes \<Rightarrow> u32 \<Rightarrow> u32" where
  "luaS_hash str seed =
     (let l = length str
      in hash_loop str (drop_bit LUAI_HASHLIMIT l + 1) l (seed XOR word_of_nat l))"

text \<open>\<open>luaS_hashlongstr\<close> caches the hash in the object; this is its value and the object after it.\<close>

definition luaS_hashlongstr :: "tstring \<Rightarrow> tstring" where
  "luaS_hashlongstr ts =
     (if ts_extra ts then ts
      else ts\<lparr>ts_hash := luaS_hash (ts_bytes ts) (ts_hash ts), ts_extra := True\<rparr>)"

definition luaS_eqlngstr :: "strings \<Rightarrow> addr \<Rightarrow> addr \<Rightarrow> bool" where
  "luaS_eqlngstr st a b \<longleftrightarrow> a = b \<or> ts_bytes (st a) = ts_bytes (st b)"

section \<open>Values\<close>

text \<open>
  \<open>Gc\<close> stands for the collectable types other than strings: the code of this development only
  compares and hashes their addresses. \<open>Deadkey\<close> marks the key of a collected object.
\<close>

datatype tvalue =
    Nil_v
  | Bool_v bool
  | Light_v addr
  | Lcf_v addr
  | Int_v lua_Integer
  | Flt_v lua_Number
  | Shr_v addr
  | Lng_v addr
  | Gc_v addr
  | Deadkey_v addr

fun ttisnil :: "tvalue \<Rightarrow> bool" where
  "ttisnil Nil_v = True"
| "ttisnil _ = False"

lemma ttisnil_iff [simp]: "ttisnil v \<longleftrightarrow> v = Nil_v"
  by (cases v) simp_all

fun tointeger :: "tvalue \<Rightarrow> lua_Integer option" where
  "tointeger (Int_v i) = Some i"
| "tointeger (Flt_v n) = fl_tointeger n"
| "tointeger _ = None"

fun gcvalue :: "tvalue \<Rightarrow> addr option" where
  "gcvalue (Shr_v a) = Some a"
| "gcvalue (Lng_v a) = Some a"
| "gcvalue (Gc_v a) = Some a"
| "gcvalue _ = None"

text \<open>\<open>luaV_equalobj\<close> without a state (\<open>luaV_rawequalobj\<close>): no metamethods.\<close>

definition luaV_rawequalobj :: "strings \<Rightarrow> tvalue \<Rightarrow> tvalue \<Rightarrow> bool" where
  "luaV_rawequalobj st t1 t2 =
     (case t1 of
        Int_v i1 \<Rightarrow>
          (case t2 of Int_v i2 \<Rightarrow> i1 = i2 | Flt_v n2 \<Rightarrow> fl_tointeger n2 = Some i1 | _ \<Rightarrow> False)
      | Flt_v n1 \<Rightarrow>
          (case t2 of Flt_v n2 \<Rightarrow> luai_numeq n1 n2 | Int_v i2 \<Rightarrow> fl_tointeger n1 = Some i2 | _ \<Rightarrow> False)
      | Lng_v a \<Rightarrow> (case t2 of Lng_v b \<Rightarrow> luaS_eqlngstr st a b | _ \<Rightarrow> False)
      | _ \<Rightarrow> t1 = t2)"

end
