(* ===== verification/LuaTable.thy ===== *)
theory LuaTable
  imports LuaValue
begin

text \<open>
  \<open>ltable.c\<close>: tables with an array part and a hash part, a chained scatter table whose collision
  chains run through the node vector itself (Brent's variation).

  A \<open>TValue *\<close> that the functions return is a cell of the table: of its array, of its node vector,
  or the global nil object. \<open>gnext\<close> is the signed distance to the next node of a chain. Memory
  errors, write barriers and the metamethod cache are not part of the model.
\<close>

record node =
  val :: tvalue
  key :: tvalue
  nxt :: int

record table =
  array :: "tvalue list"
  nodes :: "node list"
  isdummy :: bool
  lastfree :: nat

datatype cell = Arr nat | Nod nat | Nilobject

text \<open>
  \<open>Stuck\<close> is an outcome the code does not have: a read outside the node vector, a chain that does
  not end, or the end of the recursion depth given to \<open>luaH_newkey\<close>.
\<close>

datatype tab_error = Run_error string | Stuck

definition MAXABITS :: nat where "MAXABITS = 31"
definition MAXASIZE :: nat where "MAXASIZE = 2 ^ MAXABITS"
definition MAXHBITS :: nat where "MAXHBITS = MAXABITS - 1"
definition MAX_INT :: nat where "MAX_INT = 2 ^ 31 - 1"

definition sizearray :: "table \<Rightarrow> nat" where "sizearray t = length (array t)"
definition sizenode :: "table \<Rightarrow> nat" where "sizenode t = length (nodes t)"

definition dummynode :: node where
  "dummynode = \<lparr>val = Nil_v, key = Nil_v, nxt = 0\<rparr>"

definition read_cell :: "table \<Rightarrow> cell \<Rightarrow> tvalue" where
  "read_cell t c = (case c of Arr i \<Rightarrow> array t ! i | Nod i \<Rightarrow> val (nodes t ! i) | Nilobject \<Rightarrow> Nil_v)"

definition write_cell :: "table \<Rightarrow> cell \<Rightarrow> tvalue \<Rightarrow> table" where
  "write_cell t c v =
     (case c of
        Arr i \<Rightarrow> t\<lparr>array := (array t)[i := v]\<rparr>
      | Nod i \<Rightarrow> t\<lparr>nodes := (nodes t)[i := (nodes t ! i)\<lparr>val := v\<rparr>]\<rparr>
      | Nilobject \<Rightarrow> t)"

section \<open>Main positions\<close>

definition hashpow2 :: "table \<Rightarrow> nat \<Rightarrow> nat" where
  "hashpow2 t n = n AND (sizenode t - 1)"

definition hashmod :: "table \<Rightarrow> nat \<Rightarrow> nat" where
  "hashmod t n = n mod ((sizenode t - 1) OR 1)"

definition point2uint :: "addr \<Rightarrow> nat" where
  "point2uint p = p mod 2 ^ 32"

definition mainposition :: "strings \<Rightarrow> table \<Rightarrow> tvalue \<Rightarrow> nat" where
  "mainposition st t k =
     (case k of
        Int_v i \<Rightarrow> hashpow2 t (unat i)
      | Flt_v n \<Rightarrow> hashmod t (l_hashfloat n)
      | Shr_v s \<Rightarrow> hashpow2 t (unat (ts_hash (st s)))
      | Lng_v s \<Rightarrow> hashpow2 t (unat (ts_hash (luaS_hashlongstr (st s))))
      | Bool_v b \<Rightarrow> hashpow2 t (if b then 1 else 0)
      | Light_v p \<Rightarrow> hashmod t (point2uint p)
      | Lcf_v p \<Rightarrow> hashmod t (point2uint p)
      | Gc_v p \<Rightarrow> hashmod t (point2uint p)
      | Deadkey_v p \<Rightarrow> hashmod t (point2uint p)
      | Nil_v \<Rightarrow> hashmod t 0)"

definition arrayindex :: "tvalue \<Rightarrow> nat" where
  "arrayindex k =
     (case k of
        Int_v i \<Rightarrow> if 0 <s i \<and> unat i \<le> MAXASIZE then unat i else 0
      | _ \<Rightarrow> 0)"

section \<open>Searching a chain\<close>

text \<open>\<open>n += nx\<close>; a position before the vector counts as one after it, so that it is out of range.\<close>

definition hop :: "node list \<Rightarrow> nat \<Rightarrow> nat" where
  "hop ns i =
     (if 0 \<le> int i + nxt (ns ! i) then nat (int i + nxt (ns ! i)) else length ns)"

partial_function (option) search :: "(tvalue \<Rightarrow> bool) \<Rightarrow> node list \<Rightarrow> nat \<Rightarrow> nat option option" where
  "search p ns i =
     (if i \<ge> length ns then None
      else if p (key (ns ! i)) then Some (Some i)
      else if nxt (ns ! i) = 0 then Some None
      else search p ns (hop ns i))"

definition to_cell :: "nat option \<Rightarrow> cell" where
  "to_cell r = (case r of None \<Rightarrow> Nilobject | Some i \<Rightarrow> Nod i)"

definition luaH_getint :: "table \<Rightarrow> lua_Integer \<Rightarrow> cell option" where
  "luaH_getint t i =
     (if unat (i - 1) < sizearray t then Some (Arr (unat (i - 1)))
      else map_option to_cell (search (\<lambda>k. k = Int_v i) (nodes t) (hashpow2 t (unat i))))"

definition luaH_getshortstr :: "strings \<Rightarrow> table \<Rightarrow> addr \<Rightarrow> cell option" where
  "luaH_getshortstr st t s =
     map_option to_cell
       (search (\<lambda>k. k = Shr_v s) (nodes t) (hashpow2 t (unat (ts_hash (st s)))))"

definition getgeneric :: "strings \<Rightarrow> table \<Rightarrow> tvalue \<Rightarrow> cell option" where
  "getgeneric st t k =
     map_option to_cell
       (search (\<lambda>k'. luaV_rawequalobj st k' k) (nodes t) (mainposition st t k))"

definition luaH_getstr :: "strings \<Rightarrow> table \<Rightarrow> addr \<Rightarrow> cell option" where
  "luaH_getstr st t s =
     (if ts_short (st s) then luaH_getshortstr st t s else getgeneric st t (Lng_v s))"

definition luaH_get :: "strings \<Rightarrow> table \<Rightarrow> tvalue \<Rightarrow> cell option" where
  "luaH_get st t k =
     (case k of
        Shr_v s \<Rightarrow> luaH_getshortstr st t s
      | Int_v i \<Rightarrow> luaH_getint t i
      | Nil_v \<Rightarrow> Some Nilobject
      | Flt_v n \<Rightarrow> (case fl_tointeger n of Some i \<Rightarrow> luaH_getint t i | None \<Rightarrow> getgeneric st t k)
      | _ \<Rightarrow> getgeneric st t k)"

section \<open>Traversal\<close>

definition findindex :: "strings \<Rightarrow> table \<Rightarrow> tvalue \<Rightarrow> tab_error + nat" where
  "findindex st t k =
     (if k = Nil_v then Inr 0
      else
        let i = arrayindex k in
        if i \<noteq> 0 \<and> i \<le> sizearray t then Inr i
        else
          case search (\<lambda>k'. luaV_rawequalobj st k' k \<or>
                 (case k' of Deadkey_v a \<Rightarrow> gcvalue k = Some a | _ \<Rightarrow> False)) (nodes t) (mainposition st t k) of
            None \<Rightarrow> Inl Stuck
          | Some None \<Rightarrow> Inl (Run_error (''invalid key to '' @ CHR 0x27 # ''next'' @ [CHR 0x27]))
          | Some (Some n) \<Rightarrow> Inr (n + 1 + sizearray t))"

text \<open>The first index from \<open>i\<close> on, below \<open>n\<close>, that satisfies \<open>p\<close>.\<close>

function first_from :: "(nat \<Rightarrow> bool) \<Rightarrow> nat \<Rightarrow> nat \<Rightarrow> nat option" where
  "first_from p i n = (if i < n then if p i then Some i else first_from p (i + 1) n else None)"
  by pat_completeness auto
termination by (relation "measure (\<lambda>(p, i, n). n - i)") auto

declare first_from.simps [simp del]

definition luaH_next :: "strings \<Rightarrow> table \<Rightarrow> tvalue \<Rightarrow> tab_error + (tvalue \<times> tvalue) option" where
  "luaH_next st t k =
     (case findindex st t k of
        Inl e \<Rightarrow> Inl e
      | Inr i \<Rightarrow>
          (case first_from (\<lambda>i. array t ! i \<noteq> Nil_v) i (sizearray t) of
             Some j \<Rightarrow> Inr (Some (Int_v (word_of_nat (j + 1)), array t ! j))
           | None \<Rightarrow>
               (case first_from (\<lambda>i. val (nodes t ! i) \<noteq> Nil_v) (max i (sizearray t) - sizearray t)
                       (sizenode t) of
                  Some j \<Rightarrow> Inr (Some (key (nodes t ! j), val (nodes t ! j)))
                | None \<Rightarrow> Inr None)))"

section \<open>Rehash\<close>

text \<open>
  \<open>twotoi\<close> is an \<open>unsigned int\<close> that doubles. \<open>None\<close>: the loop reads \<open>nums\<close> past its 32 entries.
\<close>

function computesizes_loop ::
  "nat list \<Rightarrow> nat \<Rightarrow> nat \<Rightarrow> nat \<Rightarrow> nat \<Rightarrow> nat \<Rightarrow> nat \<Rightarrow> (nat \<times> nat) option" where
  "computesizes_loop nums pna i twotoi a na optimal =
     (if pna > twotoi div 2 then
        if i \<ge> length nums then None
        else
          let a' = a + nums ! i;
              better = (nums ! i > 0 \<and> a' > twotoi div 2)
          in computesizes_loop nums pna (i + 1) (twotoi * 2 mod 2 ^ 32) a'
               (if better then a' else na) (if better then twotoi else optimal)
      else Some (optimal, na))"
  by pat_completeness auto
termination
  by (relation "measure (\<lambda>(nums, pna, i, twotoi, a, na, optimal). length nums - i)") auto

declare computesizes_loop.simps [simp del]

definition computesizes :: "nat list \<Rightarrow> nat \<Rightarrow> (nat \<times> nat) option" where
  "computesizes nums pna = computesizes_loop nums pna 0 1 0 0 0"

definition countint :: "tvalue \<Rightarrow> nat list \<Rightarrow> nat list \<times> nat" where
  "countint k nums =
     (let i = arrayindex k in
      if i \<noteq> 0 then (nums[luaO_ceillog2 i := nums ! luaO_ceillog2 i + 1], 1) else (nums, 0))"

text \<open>The inner loop of \<open>numusearray\<close>: the index after it and the number of non-nil elements.\<close>

function count_slice :: "tvalue list \<Rightarrow> nat \<Rightarrow> nat \<Rightarrow> nat \<Rightarrow> nat \<times> nat" where
  "count_slice arr i lim lc =
     (if i \<le> lim then count_slice arr (i + 1) lim (if arr ! (i - 1) \<noteq> Nil_v then lc + 1 else lc)
      else (i, lc))"
  by pat_completeness auto
termination by (relation "measure (\<lambda>(arr, i, lim, lc). lim + 1 - i)") auto

declare count_slice.simps [simp del]

function numusearray_loop ::
  "tvalue list \<Rightarrow> nat \<Rightarrow> nat \<Rightarrow> nat \<Rightarrow> nat list \<Rightarrow> nat \<Rightarrow> nat list \<times> nat" where
  "numusearray_loop arr lg ttlg i nums ause =
     (if lg \<le> MAXABITS then
        if ttlg > length arr \<and> i > length arr then (nums, ause)
        else
          let (i', lc) = count_slice arr i (min ttlg (length arr)) 0
          in numusearray_loop arr (lg + 1) (ttlg * 2) i' (nums[lg := nums ! lg + lc]) (ause + lc)
      else (nums, ause))"
  by pat_completeness auto
termination
  by (relation "measure (\<lambda>(arr, lg, ttlg, i, nums, ause). MAXABITS + 1 - lg)") auto

declare numusearray_loop.simps [simp del]

definition numusearray :: "table \<Rightarrow> nat list \<Rightarrow> nat list \<times> nat" where
  "numusearray t nums = numusearray_loop (array t) 0 1 1 nums 0"

primrec numusehash_loop :: "node list \<Rightarrow> nat \<Rightarrow> nat list \<Rightarrow> nat \<Rightarrow> nat \<Rightarrow> nat list \<times> nat \<times> nat" where
  "numusehash_loop ns 0 nums ause totaluse = (nums, ause, totaluse)"
| "numusehash_loop ns (Suc i) nums ause totaluse =
     (if val (ns ! i) \<noteq> Nil_v then
        let (nums', c) = countint (key (ns ! i)) nums
        in numusehash_loop ns i nums' (ause + c) (totaluse + 1)
      else numusehash_loop ns i nums ause totaluse)"

text \<open>The counts, \<open>*pna\<close> and the result.\<close>

definition numusehash :: "table \<Rightarrow> nat list \<Rightarrow> nat \<Rightarrow> nat list \<times> nat \<times> nat" where
  "numusehash t nums pna =
     (let (nums', ause, totaluse) = numusehash_loop (nodes t) (sizenode t) nums 0 0
      in (nums', pna + ause, totaluse))"

definition setarrayvector :: "table \<Rightarrow> nat \<Rightarrow> table" where
  "setarrayvector t n = t\<lparr>array := array t @ replicate (n - sizearray t) Nil_v\<rparr>"

definition setnodevector :: "table \<Rightarrow> nat \<Rightarrow> tab_error + table" where
  "setnodevector t n =
     (if n = 0 then Inr (t\<lparr>nodes := [dummynode], isdummy := True, lastfree := 0\<rparr>)
      else
        let lsize = luaO_ceillog2 n in
        if lsize > MAXHBITS then Inl (Run_error ''table overflow'')
        else Inr (t\<lparr>nodes := replicate (2 ^ lsize) \<lparr>val = Nil_v, key = Nil_v, nxt = 0\<rparr>,
                    isdummy := False, lastfree := 2 ^ lsize\<rparr>))"

text \<open>
  \<open>luaH_set\<close>, \<open>luaH_setint\<close>, \<open>luaH_resize\<close> and \<open>rehash\<close> call \<open>luaH_newkey\<close>, which calls them: they
  take it as a parameter, and the recursion is closed below.
\<close>

type_synonym newkey = "table \<Rightarrow> tvalue \<Rightarrow> tab_error + (table \<times> cell)"

definition set_with :: "strings \<Rightarrow> newkey \<Rightarrow> newkey" where
  "set_with st newkey t k =
     (case luaH_get st t k of
        None \<Rightarrow> Inl Stuck
      | Some Nilobject \<Rightarrow> newkey t k
      | Some c \<Rightarrow> Inr (t, c))"

definition setint_with :: "newkey \<Rightarrow> table \<Rightarrow> lua_Integer \<Rightarrow> tvalue \<Rightarrow> tab_error + table" where
  "setint_with newkey t i v =
     (case luaH_getint t i of
        None \<Rightarrow> Inl Stuck
      | Some Nilobject \<Rightarrow>
          (case newkey t (Int_v i) of Inl e \<Rightarrow> Inl e | Inr (t', c) \<Rightarrow> Inr (write_cell t' c v))
      | Some c \<Rightarrow> Inr (write_cell t c v))"

text \<open>
  The loops of \<open>luaH_resize\<close>: over the vanishing slice of the array, whose values are read before
  the first insertion, and over the old nodes from the last to the first.
\<close>

primrec reinsert_slice :: "newkey \<Rightarrow> table \<Rightarrow> nat \<Rightarrow> tvalue list \<Rightarrow> tab_error + table" where
  "reinsert_slice newkey t i [] = Inr t"
| "reinsert_slice newkey t i (v # vs) =
     (if v \<noteq> Nil_v then
        case setint_with newkey t (word_of_nat (i + 1)) v of
          Inl e \<Rightarrow> Inl e
        | Inr t' \<Rightarrow> reinsert_slice newkey t' (i + 1) vs
      else reinsert_slice newkey t (i + 1) vs)"

primrec reinsert_nodes :: "strings \<Rightarrow> newkey \<Rightarrow> table \<Rightarrow> node list \<Rightarrow> tab_error + table" where
  "reinsert_nodes st newkey t [] = Inr t"
| "reinsert_nodes st newkey t (old # olds) =
     (if val old \<noteq> Nil_v then
        case set_with st newkey t (key old) of
          Inl e \<Rightarrow> Inl e
        | Inr (t', c) \<Rightarrow> reinsert_nodes st newkey (write_cell t' c (val old)) olds
      else reinsert_nodes st newkey t olds)"

definition resize_with :: "strings \<Rightarrow> newkey \<Rightarrow> table \<Rightarrow> nat \<Rightarrow> nat \<Rightarrow> tab_error + table" where
  "resize_with st newkey t nasize nhsize =
     (let oldasize = sizearray t;
          nold = nodes t;
          t1 = (if nasize > oldasize then setarrayvector t nasize else t)
      in case setnodevector t1 nhsize of
           Inl e \<Rightarrow> Inl e
         | Inr t2 \<Rightarrow>
             (case (if nasize < oldasize
                    then reinsert_slice newkey (t2\<lparr>array := take nasize (array t2)\<rparr>) nasize
                           (drop nasize (array t2))
                    else Inr t2) of
                Inl e \<Rightarrow> Inl e
              | Inr t3 \<Rightarrow> reinsert_nodes st newkey t3 (rev nold)))"

definition rehash_with :: "strings \<Rightarrow> newkey \<Rightarrow> table \<Rightarrow> tvalue \<Rightarrow> tab_error + table" where
  "rehash_with st newkey t ek =
     (let (nums1, na1) = numusearray t (replicate (MAXABITS + 1) 0);
          (nums2, na2, total) = numusehash t nums1 na1;
          (nums3, c) = countint ek nums2;
          totaluse = na1 + total + 1
      in case computesizes nums3 (na2 + c) of
           None \<Rightarrow> Inl Stuck
         | Some (asize, na) \<Rightarrow> resize_with st newkey t asize (totaluse - na))"

section \<open>Insertion\<close>

primrec free_below :: "node list \<Rightarrow> nat \<Rightarrow> nat \<times> nat option" where
  "free_below ns 0 = (0, None)"
| "free_below ns (Suc i) = (if key (ns ! i) = Nil_v then (i, Some i) else free_below ns i)"

definition getfreepos :: "table \<Rightarrow> table \<times> nat option" where
  "getfreepos t =
     (let (l, f) = free_below (nodes t) (lastfree t) in (t\<lparr>lastfree := l\<rparr>, f))"

text \<open>\<open>while (othern + gnext(othern) != mp)\<close>; \<open>None\<close>: the chain does not pass through \<open>mp\<close>.\<close>

partial_function (option) find_previous :: "node list \<Rightarrow> nat \<Rightarrow> nat \<Rightarrow> nat option" where
  "find_previous ns othern mp =
     (if othern \<ge> length ns then None
      else if hop ns othern = mp then Some othern
      else find_previous ns (hop ns othern) mp)"

text \<open>The checks on the key: \<open>nil\<close> and NaN are errors, an integral float becomes an integer.\<close>

definition check_key :: "tvalue \<Rightarrow> tab_error + tvalue" where
  "check_key k =
     (case k of
        Nil_v \<Rightarrow> Inl (Run_error ''table index is nil'')
      | Flt_v n \<Rightarrow>
          (case fl_tointeger n of
             Some i \<Rightarrow> Inr (Int_v i)
           | None \<Rightarrow> if luai_numisnan n then Inl (Run_error ''table index is NaN'') else Inr k)
      | _ \<Rightarrow> Inr k)"

text \<open>The colliding node at \<open>mp\<close> goes to the free position \<open>f\<close>; \<open>o\<close> is its predecessor.\<close>

definition move_node :: "node list \<Rightarrow> nat \<Rightarrow> nat \<Rightarrow> nat \<Rightarrow> node list" where
  "move_node ns prev mp f =
     (let ns1 = ns[prev := (ns ! prev)\<lparr>nxt := int f - int prev\<rparr>];
          ns2 = ns1[f := ns1 ! mp];
          ns3 = (if nxt (ns2 ! mp) \<noteq> 0
                 then let ns' = ns2[f := (ns2 ! f)\<lparr>nxt := nxt (ns2 ! f) + (int mp - int f)\<rparr>]
                      in ns'[mp := (ns' ! mp)\<lparr>nxt := 0\<rparr>]
                 else ns2)
      in ns3[mp := (ns3 ! mp)\<lparr>val := Nil_v\<rparr>])"

text \<open>The free position \<open>f\<close> enters the chain behind \<open>mp\<close>.\<close>

definition chain_node :: "node list \<Rightarrow> nat \<Rightarrow> nat \<Rightarrow> node list" where
  "chain_node ns mp f =
     (let ns1 = (if nxt (ns ! mp) \<noteq> 0
                 then ns[f := (ns ! f)\<lparr>nxt := int mp + nxt (ns ! mp) - int f\<rparr>] else ns)
      in ns1[mp := (ns1 ! mp)\<lparr>nxt := int f - int mp\<rparr>])"

definition put_key :: "table \<Rightarrow> node list \<Rightarrow> nat \<Rightarrow> tvalue \<Rightarrow> tab_error + (table \<times> cell)" where
  "put_key t ns mp k = Inr (t\<lparr>nodes := ns[mp := (ns ! mp)\<lparr>key := k\<rparr>]\<rparr>, Nod mp)"

definition newkey_with :: "strings \<Rightarrow> newkey \<Rightarrow> newkey" where
  "newkey_with st newkey t k0 =
     (case check_key k0 of
        Inl e \<Rightarrow> Inl e
      | Inr k \<Rightarrow>
          let mp = mainposition st t k in
          if val (nodes t ! mp) \<noteq> Nil_v \<or> isdummy t then
            case getfreepos t of
              (t1, None) \<Rightarrow>
                (case rehash_with st newkey t1 k of
                   Inl e \<Rightarrow> Inl e
                 | Inr t2 \<Rightarrow> set_with st newkey t2 k)
            | (t1, Some f) \<Rightarrow>
                let othern = mainposition st t1 (key (nodes t1 ! mp)) in
                if othern \<noteq> mp then
                  case find_previous (nodes t1) othern mp of
                    None \<Rightarrow> Inl Stuck
                  | Some prev \<Rightarrow> put_key t1 (move_node (nodes t1) prev mp f) mp k
                else put_key t1 (chain_node (nodes t1) mp f) f k
          else put_key t (nodes t) mp k)"

text \<open>The recursion closed to a given depth of calls of \<open>luaH_newkey\<close>.\<close>

primrec luaH_newkey :: "strings \<Rightarrow> nat \<Rightarrow> newkey" where
  "luaH_newkey st 0 = (\<lambda>t k. Inl Stuck)"
| "luaH_newkey st (Suc d) = newkey_with st (luaH_newkey st d)"

definition luaH_set :: "strings \<Rightarrow> nat \<Rightarrow> newkey" where
  "luaH_set st d = set_with st (luaH_newkey st d)"

definition luaH_setint :: "strings \<Rightarrow> nat \<Rightarrow> table \<Rightarrow> lua_Integer \<Rightarrow> tvalue \<Rightarrow> tab_error + table" where
  "luaH_setint st d = setint_with (luaH_newkey st d)"

definition luaH_resize :: "strings \<Rightarrow> nat \<Rightarrow> table \<Rightarrow> nat \<Rightarrow> nat \<Rightarrow> tab_error + table" where
  "luaH_resize st d = resize_with st (luaH_newkey st d)"

definition luaH_resizearray :: "strings \<Rightarrow> nat \<Rightarrow> table \<Rightarrow> nat \<Rightarrow> tab_error + table" where
  "luaH_resizearray st d t nasize =
     luaH_resize st d t nasize (if isdummy t then 0 else sizenode t)"

definition luaH_new :: table where
  "luaH_new = \<lparr>array = [], nodes = [dummynode], isdummy = True, lastfree = 0\<rparr>"

section \<open>Boundaries\<close>

definition int_value :: "table \<Rightarrow> nat \<Rightarrow> tvalue option" where
  "int_value t j = map_option (read_cell t) (luaH_getint t (word_of_nat j))"

text \<open>\<open>while (j - i > 1)\<close>: the test is \<open>None\<close> when a search does not end.\<close>

function bin_search :: "(nat \<Rightarrow> tvalue option) \<Rightarrow> nat \<Rightarrow> nat \<Rightarrow> nat option" where
  "bin_search at i j =
     (if j - i > 1 then
        let m = (i + j) div 2 in
        case at m of
          None \<Rightarrow> None
        | Some v \<Rightarrow> if v = Nil_v then bin_search at i m else bin_search at m j
      else Some i)"
  by pat_completeness auto
termination by (relation "measure (\<lambda>(at, i, j). j - i)") auto

declare bin_search.simps [simp del]

partial_function (option) linear_search :: "table \<Rightarrow> nat \<Rightarrow> nat option" where
  "linear_search t i =
     (case int_value t i of
        None \<Rightarrow> None
      | Some v \<Rightarrow> if v \<noteq> Nil_v then linear_search t ((i + 1) mod 2 ^ 32) else Some (i - 1))"

partial_function (option) unbound_loop :: "table \<Rightarrow> nat \<Rightarrow> nat \<Rightarrow> nat option" where
  "unbound_loop t i j =
     (case int_value t j of
        None \<Rightarrow> None
      | Some v \<Rightarrow>
          if v \<noteq> Nil_v then
            if j > MAX_INT div 2 then linear_search t 1 else unbound_loop t j (j * 2)
          else bin_search (int_value t) i j)"

definition unbound_search :: "table \<Rightarrow> nat \<Rightarrow> nat option" where
  "unbound_search t j = unbound_loop t j (j + 1)"

definition luaH_getn :: "table \<Rightarrow> nat option" where
  "luaH_getn t =
     (let j = sizearray t in
      if j > 0 \<and> array t ! (j - 1) = Nil_v then bin_search (\<lambda>m. Some (array t ! (m - 1))) 0 j
      else if isdummy t then Some j
      else unbound_search t j)"

end
