(* ===== verification/LuaChain.thy ===== *)
theory LuaChain
  imports Main
begin

text \<open>
  Collision chains as paths of a successor function: a chain is the finite list of positions from a
  start to a position without successor. The two updates of \<open>luaH_newkey\<close> are described on them:
  a fresh position enters a chain behind another one, and a fresh position takes the place of
  another one.
\<close>

inductive chain :: "(nat \<Rightarrow> nat option) \<Rightarrow> nat \<Rightarrow> nat list \<Rightarrow> bool" for f where
  last: "f i = None \<Longrightarrow> chain f i [i]"
| step: "f i = Some j \<Longrightarrow> chain f j xs \<Longrightarrow> chain f i (i # xs)"

inductive_cases chain_NilE: "chain f i []"
inductive_cases chain_ConsE: "chain f i (j # xs)"

inductive_simps chain_single: "chain f i [j]"

lemma chain_hd: "chain f i xs \<Longrightarrow> \<exists>ys. xs = i # ys"
  by (cases rule: chain.cases) auto

lemma chain_None: "f i = None \<Longrightarrow> chain f i xs \<longleftrightarrow> xs = [i]"
  by (auto elim: chain.cases intro: chain.intros)

lemma chain_Some: "f i = Some j \<Longrightarrow> chain f i xs \<longleftrightarrow> (\<exists>ys. xs = i # ys \<and> chain f j ys)"
  by (auto elim: chain.cases intro: chain.intros)

lemma chain_unique: "chain f i xs \<Longrightarrow> chain f i ys \<Longrightarrow> xs = ys"
proof (induction arbitrary: ys rule: chain.induct)
  case (last i)
  then show ?case by (simp add: chain_None)
next
  case (step i j xs)
  then obtain zs where "ys = i # zs" "chain f j zs" using chain_Some [of f i j ys] step.hyps(1) by blast
  with step.IH show ?case by simp
qed

text \<open>Every position of a chain starts a chain that is a final part of it.\<close>

lemma chain_suffix: "chain f i xs \<Longrightarrow> q \<in> set xs \<Longrightarrow> \<exists>as bs. xs = as @ bs \<and> chain f q bs"
proof (induction rule: chain.induct)
  case (last i)
  then have "chain f q [i]" by (simp add: chain_None)
  then show ?case by blast
next
  case (step i j xs)
  show ?case
  proof (cases "q = i")
    case True
    with step.hyps have "chain f q (i # xs)" by (auto intro: chain.step)
    then show ?thesis by blast
  next
    case False
    with step.prems step.IH obtain as bs where "xs = as @ bs" "chain f q bs" by auto
    then show ?thesis by (intro exI [of _ "i # as"] exI [of _ bs]) simp
  qed
qed

lemma chain_distinct: "chain f i xs \<Longrightarrow> distinct xs"
proof (induction rule: chain.induct)
  case (step i j xs)
  have "i \<notin> set xs"
  proof
    assume "i \<in> set xs"
    with step.hyps obtain as bs where bs: "xs = as @ bs" "chain f i bs" using chain_suffix by blast
    have "chain f i (i # xs)" using step.hyps by (auto intro: chain.step)
    with bs(2) have "bs = i # xs" by (rule chain_unique)
    with bs(1) show False by simp
  qed
  with step.IH show ?case by simp
qed simp

lemma chain_cong: "chain f i xs \<Longrightarrow> (\<And>x. x \<in> set xs \<Longrightarrow> g x = f x) \<Longrightarrow> chain g i xs"
proof (induction rule: chain.induct)
  case (last i)
  then show ?case by (intro chain.last) simp
next
  case (step i j xs)
  then show ?case by (intro chain.step) auto
qed

lemma chain_pred: "chain f i xs \<Longrightarrow> q \<in> set xs \<Longrightarrow> q = i \<or> (\<exists>p \<in> set xs. f p = Some q)"
proof (induction rule: chain.induct)
  case (step i j xs)
  then show ?case by fastforce
qed simp

lemma chain_fresh:
  "chain f i xs \<Longrightarrow> (\<And>p. f p \<noteq> Some q) \<Longrightarrow> i \<noteq> q \<Longrightarrow> q \<notin> set xs"
  using chain_pred by fastforce

section \<open>Reachability\<close>

definition leads :: "(nat \<Rightarrow> nat option) \<Rightarrow> nat \<Rightarrow> nat \<Rightarrow> bool" where
  "leads f i q \<longleftrightarrow> (\<exists>xs. chain f i xs \<and> q \<in> set xs)"

lemma leadsI: "chain f i xs \<Longrightarrow> q \<in> set xs \<Longrightarrow> leads f i q"
  by (auto simp: leads_def)

lemma leads_refl: "chain f i xs \<Longrightarrow> leads f i i"
  using chain_hd by (fastforce simp: leads_def)

section \<open>A fresh position behind another\<close>

definition link_after :: "(nat \<Rightarrow> nat option) \<Rightarrow> nat \<Rightarrow> nat \<Rightarrow> nat \<Rightarrow> nat option" where
  "link_after f m q = f(q := f m, m := Some q)"

primrec insert_after :: "nat \<Rightarrow> nat \<Rightarrow> nat list \<Rightarrow> nat list" where
  "insert_after m q [] = []"
| "insert_after m q (x # xs) = (if x = m then x # q # xs else x # insert_after m q xs)"

lemma set_insert_after: "set (insert_after m q xs) = set xs \<union> (if m \<in> set xs then {q} else {})"
  by (induction xs) auto

lemma chain_link_after:
  assumes "chain f i xs" and "q \<notin> set xs" and "q \<noteq> m"
  shows "chain (link_after f m q) i (insert_after m q xs)"
  using assms
proof (induction rule: chain.induct)
  case (last i)
  show ?case
  proof (cases "i = m")
    case True
    with last have "link_after f m q i = Some q" "link_after f m q q = None"
      by (simp_all add: link_after_def)
    then show ?thesis using True by (auto intro: chain.intros)
  next
    case False
    with last have "link_after f m q i = None" by (auto simp: link_after_def)
    then show ?thesis using False by (simp add: chain.last)
  qed
next
  case (step i j xs)
  show ?case
  proof (cases "i = m")
    case True
    have "distinct (i # xs)" using step.hyps by (intro chain_distinct [of f i] chain.step)
    then have "chain (link_after f m q) j xs"
      using step.hyps(2) step.prems True by (intro chain_cong [OF step.hyps(2)]) (auto simp: link_after_def)
    moreover have "link_after f m q i = Some q" "link_after f m q q = Some j"
      using True step by (simp_all add: link_after_def)
    ultimately show ?thesis using True by (auto intro: chain.intros)
  next
    case False
    with step have "link_after f m q i = Some j" by (auto simp: link_after_def)
    then show ?thesis using False step by (auto intro: chain.step)
  qed
qed

section \<open>A fresh position in place of another\<close>

definition link_instead :: "(nat \<Rightarrow> nat option) \<Rightarrow> nat \<Rightarrow> nat \<Rightarrow> nat \<Rightarrow> nat \<Rightarrow> nat option" where
  "link_instead f p m q = f(p := Some q, q := f m, m := None)"

definition subst_pos :: "nat \<Rightarrow> nat \<Rightarrow> nat \<Rightarrow> nat" where
  "subst_pos m q x = (if x = m then q else x)"

lemma chain_link_instead:
  assumes "chain f i xs" and "q \<notin> set xs" and "i \<noteq> m" and "q \<noteq> m" and "p \<noteq> m" and "p \<noteq> q"
    and "f p = Some m" and "\<And>x. f x = Some m \<Longrightarrow> x = p"
  shows "chain (link_instead f p m q) i (map (subst_pos m q) xs)"
  using assms(1-3)
proof (induction rule: chain.induct)
  case (last i)
  then have "link_instead f p m q i = None" using assms(7) by (auto simp: link_instead_def)
  then show ?case using last by (simp add: subst_pos_def chain.last)
next
  case (step i j xs)
  show ?case
  proof (cases "j = m")
    case True
    have i: "i = p" using step.hyps(1) True assms(8) by simp
    obtain ys where ys: "xs = m # ys" using chain_hd [OF step.hyps(2)] True by blast
    have "distinct (i # xs)" using step.hyps by (intro chain_distinct [of f i] chain.step)
    then have d: "p \<notin> set ys" "m \<notin> set ys" using ys i by auto
    have same: "link_instead f p m q x = f x" if "x \<in> set ys" for x
      using that d step.prems(1) ys by (auto simp: link_instead_def)
    have q: "link_instead f p m q q = f m" using assms(4) by (simp add: link_instead_def)
    have "chain (link_instead f p m q) q (q # ys)"
    proof (cases "f m")
      case None
      with step.hyps(2) True ys have "ys = []" by (simp add: chain_None)
      then show ?thesis using None q by (simp add: chain.last)
    next
      case (Some k)
      with step.hyps(2) True ys have "chain f k ys" by (simp add: chain_Some)
      then show ?thesis using Some q same by (intro chain.step) (auto intro: chain_cong)
    qed
    moreover have "link_instead f p m q i = Some q" using i assms(5,6) by (simp add: link_instead_def)
    ultimately have "chain (link_instead f p m q) i (i # q # ys)" by (intro chain.step)
    moreover have "map (subst_pos m q) ys = ys"
      using d(2) by (intro map_idI) (auto simp: subst_pos_def)
    then have "map (subst_pos m q) (i # xs) = i # q # ys"
      using ys step.prems(2) by (simp add: subst_pos_def)
    ultimately show ?thesis by simp
  next
    case False
    have "i \<noteq> p" using step.hyps(1) False assms(7) by auto
    then have "link_instead f p m q i = Some j" using step by (auto simp: link_instead_def)
    then show ?thesis using step False by (auto simp: subst_pos_def intro: chain.step)
  qed
qed

end
