(* ===== verification/LuaTableInv.thy ===== *)
theory LuaTableInv
  imports LuaTable LuaChain
begin

text \<open>
  The invariant of the hash part of a table, and the searches of \<open>ltable.c\<close> under it.
\<close>

section \<open>Keys\<close>

text \<open>
  A proper key is one that \<open>luaH_newkey\<close> stores as it is: not \<open>nil\<close>, not NaN, not a float with an
  integer value, and not the mark of a collected key.
\<close>

definition proper :: "tvalue \<Rightarrow> bool" where
  "proper k \<longleftrightarrow> check_key k = Inr k \<and> (\<forall>a. k \<noteq> Deadkey_v a)"

text \<open>
  What string objects keep to: a long string holds the seed until its hash is computed, then the
  hash of its contents.
\<close>

definition strings_ok :: "strings \<Rightarrow> u32 \<Rightarrow> bool" where
  "strings_ok st seed \<longleftrightarrow>
     (\<forall>a. \<not> ts_short (st a) \<longrightarrow>
        ts_hash (st a) = (if ts_extra (st a) then luaS_hash (ts_bytes (st a)) seed else seed))"

text \<open>Every long string that a key refers to is a long string object.\<close>

definition key_typed :: "strings \<Rightarrow> tvalue \<Rightarrow> bool" where
  "key_typed st k \<longleftrightarrow> (\<forall>a. k = Lng_v a \<longrightarrow> \<not> ts_short (st a))"

lemma fl_zero_integral: "fl_zero x \<Longrightarrow> fl_tointeger x = Some 0"
  by (simp add: fl_zero_def fl_tointeger_def fl_pow_def fl_man_def fl_signed_def lua_numbertointeger_def)

lemma proper_Flt: "proper (Flt_v x) \<longleftrightarrow> fl_tointeger x = None \<and> \<not> luai_numisnan x"
  by (auto simp: proper_def check_key_def split: option.split)

lemma proper_not [simp]: "\<not> proper Nil_v" "\<not> proper (Deadkey_v a)"
  by (auto simp: proper_def check_key_def)

lemma proper_simps [simp]:
  "proper (Int_v i)" "proper (Bool_v b)" "proper (Light_v p)" "proper (Lcf_v p)" "proper (Shr_v s)"
  "proper (Lng_v s)" "proper (Gc_v p)"
  by (simp_all add: proper_def check_key_def)

lemma proper_numeq: "proper (Flt_v x) \<Longrightarrow> luai_numeq x y \<longleftrightarrow> x = y"
  using fl_zero_integral [of x] by (auto simp: proper_Flt luai_numeq_def)

text \<open>Raw equality on proper keys: identity, but by contents for long strings.\<close>

lemma rawequal_proper:
  assumes "proper k"
  shows "luaV_rawequalobj st k' k \<longleftrightarrow>
    (case k of Lng_v a \<Rightarrow> (\<exists>b. k' = Lng_v b \<and> luaS_eqlngstr st b a) | _ \<Rightarrow> k' = k) \<or>
    (case k of Int_v i \<Rightarrow> (\<exists>x. k' = Flt_v x \<and> fl_tointeger x = Some i) | _ \<Rightarrow> False)"
proof (cases k)
  case (Flt_v x)
  with assms have "luai_numeq y x \<longleftrightarrow> y = x" for y
    using proper_numeq [of x y] by (auto simp: luai_numeq_def)
  then show ?thesis using Flt_v assms
    by (cases k') (auto simp: luaV_rawequalobj_def proper_Flt)
qed (cases k'; use assms in \<open>auto simp: luaV_rawequalobj_def\<close>)+

lemma rawequal_both:
  assumes "proper k" "proper k'"
  shows "luaV_rawequalobj st k' k \<longleftrightarrow>
    (case k of Lng_v a \<Rightarrow> (\<exists>b. k' = Lng_v b \<and> luaS_eqlngstr st b a) | _ \<Rightarrow> k' = k)"
  using assms by (auto simp: rawequal_proper proper_Flt split: tvalue.splits)

lemma rawequal_Nil: "proper k \<Longrightarrow> \<not> luaV_rawequalobj st Nil_v k"
  by (auto simp: rawequal_proper split: tvalue.splits)

lemma rawequal_Dead: "proper k \<Longrightarrow> \<not> luaV_rawequalobj st (Deadkey_v a) k"
  by (auto simp: rawequal_proper split: tvalue.splits)

lemma rawequal_refl: "proper k \<Longrightarrow> luaV_rawequalobj st k k"
  by (auto simp: rawequal_both luaS_eqlngstr_def split: tvalue.splits)

lemma rawequal_sym:
  "proper k \<Longrightarrow> proper k' \<Longrightarrow> luaV_rawequalobj st k k' \<Longrightarrow> luaV_rawequalobj st k' k"
  by (auto simp: rawequal_both luaS_eqlngstr_def split: tvalue.splits)

lemma rawequal_trans:
  "proper k \<Longrightarrow> proper k' \<Longrightarrow> proper k'' \<Longrightarrow> luaV_rawequalobj st k k' \<Longrightarrow>
   luaV_rawequalobj st k' k'' \<Longrightarrow> luaV_rawequalobj st k k''"
  by (auto simp: rawequal_both luaS_eqlngstr_def split: tvalue.splits)

lemma long_hash:
  "strings_ok st seed \<Longrightarrow> \<not> ts_short (st a) \<Longrightarrow>
   ts_hash (luaS_hashlongstr (st a)) = luaS_hash (ts_bytes (st a)) seed"
  by (auto simp: strings_ok_def luaS_hashlongstr_def)

lemma rawequal_hash:
  assumes "strings_ok st seed" "proper k" "proper k'" "key_typed st k" "key_typed st k'"
    and "luaV_rawequalobj st k k'"
  shows "mainposition st t k = mainposition st t k'"
  using assms long_hash [OF assms(1)]
  by (auto simp: rawequal_both luaS_eqlngstr_def key_typed_def mainposition_def split: tvalue.splits)

text \<open>Main positions are positions of the node vector, whose size is a power of two.\<close>

lemma hashpow2_less: "sizenode t = 2 ^ l \<Longrightarrow> hashpow2 t n < sizenode t"
  using and_low [of n l] by (simp add: hashpow2_def)

lemma odd_or_1: "odd n \<Longrightarrow> n OR 1 = (n :: nat)"
  by (rule bit_eqI) (auto simp: bit_simps bit_0)

lemma hashmod_less: "sizenode t = 2 ^ l \<Longrightarrow> hashmod t n < sizenode t"
proof (cases l)
  case 0
  moreover assume "sizenode t = 2 ^ l"
  ultimately show ?thesis by (simp add: hashmod_def)
next
  case (Suc k)
  moreover assume t: "sizenode t = 2 ^ l"
  ultimately have "odd (sizenode t - 1)" by simp
  then have "(sizenode t - 1) OR 1 = sizenode t - 1" by (rule odd_or_1)
  moreover have "sizenode t \<ge> 2" using t Suc by simp
  ultimately have "hashmod t n < sizenode t - 1" by (simp add: hashmod_def)
  then show ?thesis by simp
qed

lemma mainposition_less: "sizenode t = 2 ^ l \<Longrightarrow> mainposition st t k < sizenode t"
proof -
  assume t: "sizenode t = 2 ^ l"
  note less = hashpow2_less [OF t] hashmod_less [OF t]
  show ?thesis by (cases k) (simp_all add: mainposition_def less)
qed

lemma mainposition_cong: "sizenode t = sizenode t' \<Longrightarrow> mainposition st t k = mainposition st t' k"
  by (simp add: mainposition_def hashpow2_def hashmod_def split: tvalue.split)

section \<open>Chains of a node vector\<close>

definition nx :: "node list \<Rightarrow> nat \<Rightarrow> nat option" where
  "nx ns i = (if i < length ns \<and> nxt (ns ! i) \<noteq> 0 then Some (hop ns i) else None)"

definition linked :: "node list \<Rightarrow> bool" where
  "linked ns \<longleftrightarrow>
     (\<forall>i < length ns. \<exists>xs. chain (nx ns) i xs) \<and>
     (\<forall>i j. nx ns i = Some j \<longrightarrow> j < length ns) \<and>
     (\<forall>i i' j. nx ns i = Some j \<longrightarrow> nx ns i' = Some j \<longrightarrow> i = i')"

lemma linked_chain: "linked ns \<Longrightarrow> i < length ns \<Longrightarrow> \<exists>xs. chain (nx ns) i xs"
  by (simp add: linked_def)

lemma linked_less: "linked ns \<Longrightarrow> nx ns i = Some j \<Longrightarrow> j < length ns"
  by (simp add: linked_def)

lemma linked_inj: "linked ns \<Longrightarrow> nx ns i = Some j \<Longrightarrow> nx ns i' = Some j \<Longrightarrow> i = i'"
  by (auto simp: linked_def)

lemma nx_SomeD: "nx ns i = Some j \<Longrightarrow> i < length ns \<and> nxt (ns ! i) \<noteq> 0 \<and> hop ns i = j"
  by (simp add: nx_def split: if_splits)

lemma chain_range:
  assumes "chain (nx ns) i xs" "linked ns" "i < length ns"
  shows "set xs \<subseteq> {..<length ns}"
  using assms(1,3)
proof (induction rule: chain.induct)
  case (step i j xs)
  have "j < length ns" by (rule linked_less [OF assms(2) step.hyps(1)])
  with step show ?case by simp
qed simp

lemma search_chain:
  assumes "chain (nx ns) i xs" "linked ns" "i < length ns"
  shows "search p ns i = Some (find (\<lambda>j. p (key (ns ! j))) xs)"
  using assms(1,3)
proof (induction rule: chain.induct)
  case (last i)
  then have "nxt (ns ! i) = 0" by (auto simp: nx_def split: if_splits)
  then show ?case using last.prems by (subst search.simps) simp
next
  case (step i j xs)
  have j: "j < length ns" by (rule linked_less [OF assms(2) step.hyps(1)])
  show ?case
    using nx_SomeD [OF step.hyps(1)] step.IH [OF j] by (subst search.simps) simp
qed

lemma previous_chain:
  assumes "chain (nx ns) i xs" "linked ns" "i < length ns" "m \<in> set xs" "m \<noteq> i"
  shows "\<exists>p. find_previous ns i m = Some p \<and> nx ns p = Some m"
  using assms(1,3-5)
proof (induction rule: chain.induct)
  case (step i j xs)
  have j: "j < length ns" by (rule linked_less [OF assms(2) step.hyps(1)])
  show ?case
  proof (cases "j = m")
    case True
    then show ?thesis
      using nx_SomeD [OF step.hyps(1)] step.hyps(1) by (subst find_previous.simps) simp
  next
    case False
    with step.IH [OF j] step.prems obtain p
      where "find_previous ns j m = Some p" "nx ns p = Some m" by auto
    then show ?thesis
      using nx_SomeD [OF step.hyps(1)] False by (subst find_previous.simps) simp
  qed
qed simp

lemma find_unique:
  "a \<in> set xs \<Longrightarrow> P a \<Longrightarrow> (\<And>b. b \<in> set xs \<Longrightarrow> P b \<Longrightarrow> b = a) \<Longrightarrow> find P xs = Some a"
  by (induction xs) (simp, metis find.simps(2) list.set_intros set_ConsD)

lemma find_none: "find P xs = None \<longleftrightarrow> (\<forall>a \<in> set xs. \<not> P a)"
  by (auto simp: find_None_iff)

text \<open>The step functions of the two updates.\<close>

lemma nx_outside: "length ns \<le> i \<Longrightarrow> nx ns i = None"
  by (simp add: nx_def)

lemma nx_update_other: "i \<noteq> j \<Longrightarrow> nx (ns[j := n]) i = nx ns i"
  by (simp add: nx_def hop_def)

lemma nx_update_same:
  "j < length ns \<Longrightarrow>
   nx (ns[j := n]) j =
     (if nxt n = 0 then None
      else Some (if 0 \<le> int j + nxt n then nat (int j + nxt n) else length ns))"
  by (simp add: nx_def hop_def)

lemma nx_key_val:
  "nx (ns[j := (ns ! j)\<lparr>key := k\<rparr>]) = nx ns" "nx (ns[j := (ns ! j)\<lparr>val := v\<rparr>]) = nx ns"
  by (rule ext, case_tac "x = j"; case_tac "j < length ns"; simp add: nx_def hop_def)+

lemma nx_target:
  assumes "linked ns" "nx ns i = Some j"
  shows "int i + nxt (ns ! i) = int j"
proof -
  have "hop ns i = j" "j < length ns" using nx_SomeD [OF assms(2)] linked_less [OF assms] by auto
  then show ?thesis by (auto simp: hop_def split: if_splits)
qed

lemma nx_None: "i < length ns \<Longrightarrow> nx ns i = None \<longleftrightarrow> nxt (ns ! i) = 0"
  by (simp add: nx_def)

lemma nx_Some_nonzero: "nx ns i = Some j \<Longrightarrow> nxt (ns ! i) \<noteq> 0"
  by (simp add: nx_SomeD)

lemma nx_set_to:
  "i < length ns \<Longrightarrow> i \<noteq> j \<Longrightarrow> nx (ns[i := n\<lparr>nxt := int j - int i\<rparr>]) i = Some j"
  by (simp add: nx_update_same)

lemma nx_chain_node:
  assumes "mp < length ns" "f < length ns" "mp \<noteq> f" "nx ns f = None" "nx ns mp \<noteq> Some f" "linked ns"
  shows "nx (chain_node ns mp f) = link_after (nx ns) mp f"
proof (rule ext)
  fix i
  consider "i = f" | "i = mp" | "i \<noteq> f" "i \<noteq> mp" by blast
  then show "nx (chain_node ns mp f) i = link_after (nx ns) mp f i"
  proof cases
    case 1
    show ?thesis
    proof (cases "nx ns mp")
      case None
      then have "nxt (ns ! mp) = 0" using nx_None [OF assms(1)] by simp
      then show ?thesis using 1 assms None
        by (simp add: chain_node_def Let_def nx_update_other link_after_def)
    next
      case (Some j)
      have t: "int mp + nxt (ns ! mp) = int j" by (rule nx_target [OF assms(6) Some])
      have "f \<noteq> j" using Some assms(5) by auto
      then show ?thesis using 1 assms t nx_Some_nonzero [OF Some] Some
        by (simp add: chain_node_def Let_def nx_update_other link_after_def nx_set_to)
    qed
  next
    case 2
    then show ?thesis using assms
      by (simp add: chain_node_def Let_def nx_set_to link_after_def)
  next
    case 3
    then show ?thesis
      by (simp add: chain_node_def Let_def nx_update_other link_after_def)
  qed
qed

lemma nx_set_zero: "i < length ns \<Longrightarrow> nxt n = 0 \<Longrightarrow> nx (ns[i := n]) i = None"
  by (simp add: nx_update_same)

lemma nxt_same: "nxt n = 0 \<Longrightarrow> n\<lparr>nxt := 0\<rparr> = n"
  by simp

lemma move_node_nth:
  assumes "prev < length ns" "mp < length ns" "f < length ns" "mp \<noteq> f" "prev \<noteq> mp" "prev \<noteq> f"
  shows "move_node ns prev mp f =
    ns[prev := (ns ! prev)\<lparr>nxt := int f - int prev\<rparr>,
       f := (ns ! mp)\<lparr>nxt := (if nxt (ns ! mp) = 0 then 0 else int mp + nxt (ns ! mp) - int f)\<rparr>,
       mp := (ns ! mp)\<lparr>nxt := 0, val := Nil_v\<rparr>]"
proof (rule nth_equalityI)
  show "length (move_node ns prev mp f) = length (ns[prev := (ns ! prev)\<lparr>nxt := int f - int prev\<rparr>,
       f := (ns ! mp)\<lparr>nxt := (if nxt (ns ! mp) = 0 then 0 else int mp + nxt (ns ! mp) - int f)\<rparr>,
       mp := (ns ! mp)\<lparr>nxt := 0, val := Nil_v\<rparr>])"
    by (simp add: move_node_def Let_def)
qed (use assms in \<open>auto simp: move_node_def Let_def nth_list_update nxt_same algebra_simps\<close>)

lemma nx_move_node:
  assumes "prev < length ns" "mp < length ns" "f < length ns" "mp \<noteq> f" "prev \<noteq> f" "prev \<noteq> mp"
    and "linked ns" "nx ns mp \<noteq> Some f"
  shows "nx (move_node ns prev mp f) = link_instead (nx ns) prev mp f"
proof (rule ext)
  fix i
  note m = move_node_nth [OF assms(1-4,6,5)]
  consider "i = f" | "i = mp" | "i = prev" | "i \<noteq> f" "i \<noteq> mp" "i \<noteq> prev" by blast
  then show "nx (move_node ns prev mp f) i = link_instead (nx ns) prev mp f i"
  proof cases
    case 1
    show ?thesis
    proof (cases "nx ns mp")
      case None
      then have "nxt (ns ! mp) = 0" using nx_None [OF assms(2)] by simp
      then show ?thesis using 1 assms None
        by (simp add: m nx_update_other nx_set_zero link_instead_def)
    next
      case (Some j)
      have t: "int mp + nxt (ns ! mp) = int j" by (rule nx_target [OF assms(7) Some])
      have "f \<noteq> j" using Some assms(8) by auto
      then show ?thesis using 1 assms t nx_Some_nonzero [OF Some] Some
        by (simp add: m nx_update_other nx_set_to link_instead_def)
    qed
  next
    case 2
    then show ?thesis using assms by (simp add: m nx_set_zero link_instead_def)
  next
    case 3
    then show ?thesis using assms by (simp add: m nx_update_other nx_set_to link_instead_def)
  next
    case 4
    then show ?thesis by (simp add: m nx_update_other link_instead_def)
  qed
qed

section \<open>Updates keep the vector linked\<close>

lemma linkedI:
  assumes "\<And>i. i < length ns \<Longrightarrow> \<exists>xs. chain (nx ns) i xs"
    and "\<And>i j. nx ns i = Some j \<Longrightarrow> j < length ns"
    and "\<And>i i' j. nx ns i = Some j \<Longrightarrow> nx ns i' = Some j \<Longrightarrow> i = i'"
  shows "linked ns"
  using assms by (auto simp: linked_def)

text \<open>A position that is in no chain but its own.\<close>

definition unlinked :: "node list \<Rightarrow> nat \<Rightarrow> bool" where
  "unlinked ns q \<longleftrightarrow> nx ns q = None \<and> (\<forall>p. nx ns p \<noteq> Some q)"

lemma unlinked_notin: "unlinked ns q \<Longrightarrow> chain (nx ns) i xs \<Longrightarrow> i \<noteq> q \<Longrightarrow> q \<notin> set xs"
  using chain_fresh [of "nx ns" i xs q] by (auto simp: unlinked_def)

lemma leads_link_after:
  assumes "unlinked ns q" "q \<noteq> m" "leads (nx ns) i p" "i \<noteq> q"
  shows "leads (link_after (nx ns) m q) i p \<and> (p = m \<longrightarrow> leads (link_after (nx ns) m q) i q)"
proof -
  obtain xs where xs: "chain (nx ns) i xs" "p \<in> set xs" using assms(3) by (auto simp: leads_def)
  have "q \<notin> set xs" by (rule unlinked_notin [OF assms(1) xs(1) assms(4)])
  with xs assms(2) have "chain (link_after (nx ns) m q) i (insert_after m q xs)"
    by (intro chain_link_after)
  then show ?thesis using xs(2) by (auto intro: leadsI simp: set_insert_after)
qed

lemma linked_chain_node:
  assumes "linked ns" "unlinked ns q" "q \<noteq> m" "q < length ns" "m < length ns"
  shows "linked (chain_node ns m q)"
proof -
  have len: "length (chain_node ns m q) = length ns" by (simp add: chain_node_def Let_def)
  have nx: "nx (chain_node ns m q) = link_after (nx ns) m q"
    using assms by (intro nx_chain_node) (auto simp: unlinked_def)
  have ch: "\<exists>ys. chain (link_after (nx ns) m q) i ys" if i: "i < length ns" "i \<noteq> q" for i
  proof -
    obtain xs where "chain (nx ns) i xs" using linked_chain [OF assms(1) i(1)] by blast
    then have "chain (link_after (nx ns) m q) i (insert_after m q xs)"
      using unlinked_notin [OF assms(2) _ i(2)] assms(3) by (intro chain_link_after)
    then show ?thesis ..
  qed
  show ?thesis
  proof (rule linkedI)
    fix i
    assume i: "i < length (chain_node ns m q)"
    show "\<exists>xs. chain (nx (chain_node ns m q)) i xs"
    proof (cases "i = q")
      case False
      then show ?thesis using ch i len nx by simp
    next
      case True
      have q: "link_after (nx ns) m q q = nx ns m" using assms(3) by (simp add: link_after_def)
      show ?thesis
      proof (cases "nx ns m")
        case None
        then show ?thesis using q nx True by (auto intro: chain.last)
      next
        case (Some j)
        then have "j < length ns" "j \<noteq> q"
          using linked_less [OF assms(1) Some] assms(2) by (auto simp: unlinked_def)
        then obtain ys where "chain (link_after (nx ns) m q) j ys" using ch by blast
        then show ?thesis using q Some nx True by (auto intro: chain.step)
      qed
    qed
  next
    fix i j
    assume "nx (chain_node ns m q) i = Some j"
    then show "j < length (chain_node ns m q)"
      using assms(4) linked_less [OF assms(1), of i j] linked_less [OF assms(1), of m j]
      by (auto simp: nx len link_after_def split: if_splits)
  next
    fix i i' j
    assume "nx (chain_node ns m q) i = Some j" "nx (chain_node ns m q) i' = Some j"
    then show "i = i'"
      using assms(2) linked_inj [OF assms(1), of i j i'] linked_inj [OF assms(1), of i j m]
        linked_inj [OF assms(1), of m j i']
      by (auto simp: nx link_after_def unlinked_def split: if_splits)
  qed
qed

lemma leads_link_instead:
  assumes "linked ns" "unlinked ns q" "nx ns p = Some m" "q \<noteq> m" "p \<noteq> q" "p \<noteq> m" "i \<noteq> m" "i \<noteq> q"
    and "leads (nx ns) i r"
  shows "leads (link_instead (nx ns) p m q) i (subst_pos m q r)"
proof -
  obtain xs where xs: "chain (nx ns) i xs" "r \<in> set xs" using assms(9) by (auto simp: leads_def)
  have fresh: "q \<notin> set xs" by (rule unlinked_notin [OF assms(2) xs(1) assms(8)])
  have uniq: "x = p" if "nx ns x = Some m" for x by (rule linked_inj [OF assms(1) that assms(3)])
  have "chain (link_instead (nx ns) p m q) i (map (subst_pos m q) xs)"
    by (rule chain_link_instead [OF xs(1) fresh assms(7,4,6,5,3) uniq])
  then show ?thesis using xs(2) by (auto intro: leadsI)
qed

lemma linked_move_node:
  assumes "linked ns" "unlinked ns q" "nx ns p = Some m" "q \<noteq> m" "p \<noteq> q" "p \<noteq> m"
    and "q < length ns" "m < length ns" "p < length ns"
  shows "linked (move_node ns p m q)"
proof -
  have len: "length (move_node ns p m q) = length ns" by (simp add: move_node_def Let_def)
  have nx: "nx (move_node ns p m q) = link_instead (nx ns) p m q"
    using assms by (intro nx_move_node) (auto simp: unlinked_def)
  have ch: "\<exists>ys. chain (link_instead (nx ns) p m q) i ys" if i: "i < length ns" "i \<noteq> q" "i \<noteq> m" for i
  proof -
    obtain xs where "chain (nx ns) i xs" using linked_chain [OF assms(1) i(1)] by blast
    then have "leads (nx ns) i i" by (rule leads_refl)
    then have "leads (link_instead (nx ns) p m q) i (subst_pos m q i)"
      by (rule leads_link_instead [OF assms(1-6) i(3) i(2)])
    then show ?thesis by (auto simp: leads_def)
  qed
  show ?thesis
  proof (rule linkedI)
    fix i
    assume i: "i < length (move_node ns p m q)"
    consider "i = m" | "i = q" | "i \<noteq> q" "i \<noteq> m" by blast
    then show "\<exists>xs. chain (nx (move_node ns p m q)) i xs"
    proof cases
      case 1
      then have "nx (move_node ns p m q) i = None" by (simp add: nx link_instead_def)
      then show ?thesis by (auto intro: chain.last)
    next
      case 2
      have q: "link_instead (nx ns) p m q q = nx ns m" using assms(4) by (simp add: link_instead_def)
      show ?thesis
      proof (cases "nx ns m")
        case None
        then show ?thesis using q nx 2 by (auto intro: chain.last)
      next
        case (Some j)
        have "j \<noteq> m"
        proof
          assume "j = m"
          then have "p = m" using linked_inj [OF assms(1) assms(3)] Some by blast
          with assms(6) show False ..
        qed
        moreover have "j < length ns" "j \<noteq> q"
          using linked_less [OF assms(1) Some] assms(2) Some by (auto simp: unlinked_def)
        ultimately obtain ys where "chain (link_instead (nx ns) p m q) j ys" using ch by blast
        then show ?thesis using q Some nx 2 by (auto intro: chain.step)
      qed
    next
      case 3
      then show ?thesis using ch i len nx by simp
    qed
  next
    fix i j
    assume "nx (move_node ns p m q) i = Some j"
    then show "j < length (move_node ns p m q)"
      using assms(7) linked_less [OF assms(1), of i j] linked_less [OF assms(1), of m j]
      by (auto simp: nx len link_instead_def split: if_splits)
  next
    fix i i' j
    assume "nx (move_node ns p m q) i = Some j" "nx (move_node ns p m q) i' = Some j"
    then show "i = i'"
      using assms(2,3) linked_inj [OF assms(1), of i j i'] linked_inj [OF assms(1), of i j m]
        linked_inj [OF assms(1), of m j i']
      by (auto simp: nx link_instead_def unlinked_def split: if_splits)
  qed
qed

section \<open>The invariant of the hash part\<close>

text \<open>
  A free node is in no chain; a used one has a proper key or the mark of a collected one without
  value; a proper key is reached from its main position, which only a key of the same main position
  (or a collected one) may occupy; and no key occurs twice.
\<close>

record 'k hashing =
  same :: "'k \<Rightarrow> 'k \<Rightarrow> bool"
  home :: "'k \<Rightarrow> nat"
  typed :: "'k \<Rightarrow> bool"

definition hashing_ok :: "tvalue hashing \<Rightarrow> nat \<Rightarrow> bool" where
  "hashing_ok H n \<longleftrightarrow>
     (\<forall>k. home H k < n) \<and>
     (\<forall>k. proper k \<longrightarrow> same H k k) \<and>
     (\<forall>k k'. proper k \<longrightarrow> proper k' \<longrightarrow> same H k k' \<longrightarrow> same H k' k) \<and>
     (\<forall>k k' k''. proper k \<longrightarrow> proper k' \<longrightarrow> proper k'' \<longrightarrow> same H k k' \<longrightarrow> same H k' k'' \<longrightarrow> same H k k'') \<and>
     (\<forall>k k'. proper k \<longrightarrow> proper k' \<longrightarrow> typed H k \<longrightarrow> typed H k' \<longrightarrow> same H k k' \<longrightarrow> home H k = home H k')"

definition nodes_ok :: "tvalue hashing \<Rightarrow> node list \<Rightarrow> bool" where
  "nodes_ok H ns \<longleftrightarrow>
     linked ns \<and>
     (\<forall>i < length ns. key (ns ! i) = Nil_v \<longrightarrow> val (ns ! i) = Nil_v \<and> unlinked ns i) \<and>
     (\<forall>i < length ns. key (ns ! i) \<noteq> Nil_v \<longrightarrow>
        proper (key (ns ! i)) \<and> typed H (key (ns ! i)) \<or>
        val (ns ! i) = Nil_v \<and> (\<exists>a. key (ns ! i) = Deadkey_v a)) \<and>
     (\<forall>i < length ns. proper (key (ns ! i)) \<longrightarrow>
        leads (nx ns) (home H (key (ns ! i))) i \<and>
        key (ns ! home H (key (ns ! i))) \<noteq> Nil_v \<and>
        (proper (key (ns ! home H (key (ns ! i)))) \<longrightarrow>
           home H (key (ns ! home H (key (ns ! i)))) = home H (key (ns ! i)))) \<and>
     (\<forall>i < length ns. \<forall>j < length ns. proper (key (ns ! i)) \<longrightarrow> proper (key (ns ! j)) \<longrightarrow>
        same H (key (ns ! i)) (key (ns ! j)) \<longrightarrow> i = j)"

lemma nodes_okI:
  assumes "linked ns"
    and "\<And>i. i < length ns \<Longrightarrow> key (ns ! i) = Nil_v \<Longrightarrow> val (ns ! i) = Nil_v \<and> unlinked ns i"
    and "\<And>i. i < length ns \<Longrightarrow> key (ns ! i) \<noteq> Nil_v \<Longrightarrow>
      proper (key (ns ! i)) \<and> typed H (key (ns ! i)) \<or>
      val (ns ! i) = Nil_v \<and> (\<exists>a. key (ns ! i) = Deadkey_v a)"
    and "\<And>i. i < length ns \<Longrightarrow> proper (key (ns ! i)) \<Longrightarrow> leads (nx ns) (home H (key (ns ! i))) i"
    and "\<And>i. i < length ns \<Longrightarrow> proper (key (ns ! i)) \<Longrightarrow> key (ns ! home H (key (ns ! i))) \<noteq> Nil_v"
    and "\<And>i. i < length ns \<Longrightarrow> proper (key (ns ! i)) \<Longrightarrow> proper (key (ns ! home H (key (ns ! i)))) \<Longrightarrow>
      home H (key (ns ! home H (key (ns ! i)))) = home H (key (ns ! i))"
    and "\<And>i j. i < length ns \<Longrightarrow> j < length ns \<Longrightarrow> proper (key (ns ! i)) \<Longrightarrow> proper (key (ns ! j)) \<Longrightarrow>
      same H (key (ns ! i)) (key (ns ! j)) \<Longrightarrow> i = j"
  shows "nodes_ok H ns"
  unfolding nodes_ok_def using assms by simp

lemma nodes_okD:
  assumes "nodes_ok H ns"
  shows "linked ns"
    and "i < length ns \<Longrightarrow> key (ns ! i) = Nil_v \<Longrightarrow> val (ns ! i) = Nil_v \<and> unlinked ns i"
    and "i < length ns \<Longrightarrow> key (ns ! i) \<noteq> Nil_v \<Longrightarrow>
      proper (key (ns ! i)) \<and> typed H (key (ns ! i)) \<or>
      val (ns ! i) = Nil_v \<and> (\<exists>a. key (ns ! i) = Deadkey_v a)"
    and "i < length ns \<Longrightarrow> proper (key (ns ! i)) \<Longrightarrow> leads (nx ns) (home H (key (ns ! i))) i"
    and "i < length ns \<Longrightarrow> proper (key (ns ! i)) \<Longrightarrow> key (ns ! home H (key (ns ! i))) \<noteq> Nil_v"
    and "i < length ns \<Longrightarrow> proper (key (ns ! i)) \<Longrightarrow> proper (key (ns ! home H (key (ns ! i)))) \<Longrightarrow>
      home H (key (ns ! home H (key (ns ! i)))) = home H (key (ns ! i))"
    and "i < length ns \<Longrightarrow> j < length ns \<Longrightarrow> proper (key (ns ! i)) \<Longrightarrow> proper (key (ns ! j)) \<Longrightarrow>
      same H (key (ns ! i)) (key (ns ! j)) \<Longrightarrow> i = j"
  using assms unfolding nodes_ok_def by simp_all

lemma nodes_ok_live:
  "nodes_ok H ns \<Longrightarrow> i < length ns \<Longrightarrow> val (ns ! i) \<noteq> Nil_v \<Longrightarrow>
   proper (key (ns ! i)) \<and> typed H (key (ns ! i))"
  using nodes_okD(2,3) by metis

lemma hashing_okD:
  assumes "hashing_ok H n"
  shows "home H k < n"
    and "proper k \<Longrightarrow> same H k k"
    and "proper k \<Longrightarrow> proper k' \<Longrightarrow> same H k k' \<Longrightarrow> same H k' k"
    and "proper k \<Longrightarrow> proper k' \<Longrightarrow> proper k'' \<Longrightarrow> same H k k' \<Longrightarrow> same H k' k'' \<Longrightarrow> same H k k''"
    and "proper k \<Longrightarrow> proper k' \<Longrightarrow> typed H k \<Longrightarrow> typed H k' \<Longrightarrow> same H k k' \<Longrightarrow> home H k = home H k'"
  using assms unfolding hashing_ok_def by blast+

text \<open>The pairs of the hash part that are present.\<close>

definition live :: "node list \<Rightarrow> (tvalue \<times> tvalue) set" where
  "live ns = {(key (ns ! i), val (ns ! i)) | i. i < length ns \<and> val (ns ! i) \<noteq> Nil_v}"

definition absent :: "tvalue hashing \<Rightarrow> node list \<Rightarrow> tvalue \<Rightarrow> bool" where
  "absent H ns k \<longleftrightarrow> (\<forall>i < length ns. proper (key (ns ! i)) \<longrightarrow> \<not> same H (key (ns ! i)) k)"

text \<open>The new key takes its main position, whose value is \<open>nil\<close>.\<close>

lemma update_field:
  "p (g (ns ! m)) = p (ns ! m) \<Longrightarrow> p (ns[m := g (ns ! m)] ! i) = p (ns ! i)"
proof (cases "i = m \<and> m < length ns")
  case False
  then have "ns[m := g (ns ! m)] ! i = ns ! i" by (cases "i = m") (simp_all add: not_less list_update_beyond)
  then show ?thesis by simp
qed simp

lemma key_update_fields:
  "m < length ns \<Longrightarrow> key (ns[m := (ns ! m)\<lparr>key := k\<rparr>] ! i) = (if i = m then k else key (ns ! i))"
  "val (ns[m := (ns ! m)\<lparr>key := k\<rparr>] ! i) = val (ns ! i)"
  by (cases "i = m", simp_all, rule update_field [where g = "\<lambda>n. n\<lparr>key := k\<rparr>"], simp)

lemma insert_home:
  assumes "nodes_ok H ns" "hashing_ok H (length ns)" "proper k" "typed H k" "absent H ns k"
    and "home H k = m" "val (ns ! m) = Nil_v"
  shows "nodes_ok H (ns[m := (ns ! m)\<lparr>key := k\<rparr>])"
proof -
  define ns' where "ns' = ns[m := (ns ! m)\<lparr>key := k\<rparr>]"
  have m: "m < length ns" using hashing_okD(1) [OF assms(2), of k] assms(6) by simp
  note D = nodes_okD [OF assms(1)]
  have nx: "nx ns' = nx ns" unfolding ns'_def by (rule nx_key_val)
  have len: "length ns' = length ns" by (simp add: ns'_def)
  have key: "key (ns' ! i) = (if i = m then k else key (ns ! i))"
    and val: "val (ns' ! i) = val (ns ! i)" for i
    unfolding ns'_def by (simp_all add: key_update_fields m)
  have unl: "unlinked ns' = unlinked ns" by (rule ext) (simp add: unlinked_def nx)
  have home: "home H k' < length ns" for k' by (rule hashing_okD(1) [OF assms(2)])
  have "nodes_ok H ns'"
  proof (rule nodes_okI; (unfold nx len val unl)?)
    show "linked ns'" using D(1) by (simp add: linked_def nx len)
  next
    fix i
    assume "i < length ns" "key (ns' ! i) = Nil_v"
    then show "val (ns ! i) = Nil_v \<and> unlinked ns i"
      using D(2) [of i] assms(3) by (auto simp: key split: if_splits)
  next
    fix i
    assume "i < length ns" "key (ns' ! i) \<noteq> Nil_v"
    then show "proper (key (ns' ! i)) \<and> typed H (key (ns' ! i)) \<or>
        val (ns ! i) = Nil_v \<and> (\<exists>a. key (ns' ! i) = Deadkey_v a)"
      using D(3) [of i] assms(3,4) by (auto simp: key)
  next
    fix i
    assume i: "i < length ns" "proper (key (ns' ! i))"
    show "leads (nx ns) (home H (key (ns' ! i))) i"
    proof (cases "i = m")
      case True
      obtain xs where "chain (nx ns) m xs" using linked_chain [OF D(1) m] by blast
      then have "leads (nx ns) m m" by (rule leads_refl)
      then show ?thesis using True assms(6) by (simp add: key)
    next
      case False
      then show ?thesis using D(4) [of i] i by (simp add: key)
    qed
    show "key (ns' ! home H (key (ns' ! i))) \<noteq> Nil_v"
      using D(5) [of i] i assms(3,6) by (auto simp: key)
    show "home H (key (ns' ! home H (key (ns' ! i)))) = home H (key (ns' ! i))"
      if "proper (key (ns' ! home H (key (ns' ! i))))"
      using D(6) [of i] i that assms(6) by (auto simp: key split: if_splits)
  next
    fix i j
    assume ij: "i < length ns" "j < length ns" "proper (key (ns' ! i))" "proper (key (ns' ! j))"
      "same H (key (ns' ! i)) (key (ns' ! j))"
    have sym: "same H k (key (ns ! j)) \<Longrightarrow> proper (key (ns ! j)) \<Longrightarrow> same H (key (ns ! j)) k"
      using hashing_okD(3) [OF assms(2)] assms(3) by blast
    show "i = j"
      using ij assms(5) D(7) [of i j] sym by (auto simp: key absent_def split: if_splits)
  qed
  then show ?thesis by (simp add: ns'_def)
qed

lemma live_cong:
  assumes "length ns' = length ns" "\<And>i. i < length ns \<Longrightarrow> val (ns' ! i) = val (ns ! i)"
    and "\<And>i. i < length ns \<Longrightarrow> val (ns ! i) \<noteq> Nil_v \<Longrightarrow> key (ns' ! i) = key (ns ! i)"
  shows "live ns' = live ns"
proof -
  have "(\<exists>i. p = (key (ns' ! i), val (ns' ! i)) \<and> i < length ns \<and> val (ns' ! i) \<noteq> Nil_v) \<longleftrightarrow>
        (\<exists>i. p = (key (ns ! i), val (ns ! i)) \<and> i < length ns \<and> val (ns ! i) \<noteq> Nil_v)" for p
    by (rule ex_cong1) (use assms(2,3) in auto)
  then show ?thesis by (simp add: live_def assms(1))
qed

lemma live_home: "m < length ns \<Longrightarrow> val (ns ! m) = Nil_v \<Longrightarrow> live (ns[m := (ns ! m)\<lparr>key := k\<rparr>]) = live ns"
  by (rule live_cong) (auto simp: key_update_fields)

text \<open>The new key takes a free position behind its main position, whose key is at home there.\<close>

lemma nxt_update_fields:
  "key (ns[j := (ns ! j)\<lparr>nxt := x\<rparr>] ! i) = key (ns ! i)"
  "val (ns[j := (ns ! j)\<lparr>nxt := x\<rparr>] ! i) = val (ns ! i)"
  by (rule update_field [where g = "\<lambda>n. n\<lparr>nxt := x\<rparr>"], simp)+

lemma chain_node_fields:
  "key (chain_node ns m f ! i) = key (ns ! i)" "val (chain_node ns m f ! i) = val (ns ! i)"
  "length (chain_node ns m f) = length ns"
  by (simp_all add: chain_node_def Let_def nxt_update_fields)

lemma insert_chain:
  assumes "nodes_ok H ns" "hashing_ok H (length ns)" "proper k" "typed H k" "absent H ns k"
    and "home H k = m" "proper (key (ns ! m))" "home H (key (ns ! m)) = m"
    and "f < length ns" "key (ns ! f) = Nil_v"
  shows "nodes_ok H ((chain_node ns m f)[f := (chain_node ns m f ! f)\<lparr>key := k\<rparr>])"
proof -
  define cs where "cs = chain_node ns m f"
  define ns' where "ns' = cs[f := (cs ! f)\<lparr>key := k\<rparr>]"
  have m: "m < length ns" using hashing_okD(1) [OF assms(2), of k] assms(6) by simp
  have fm: "f \<noteq> m" using assms(7,10) by auto
  note D = nodes_okD [OF assms(1)]
  have un: "unlinked ns f" using D(2) [OF assms(9,10)] by simp
  have len: "length ns' = length ns" by (simp add: ns'_def cs_def chain_node_fields)
  have nx: "nx ns' = link_after (nx ns) m f"
    unfolding ns'_def nx_key_val cs_def
    using un m assms(9) fm D(1) by (intro nx_chain_node) (auto simp: unlinked_def)
  have linked: "linked cs" unfolding cs_def by (rule linked_chain_node [OF D(1) un fm assms(9) m])
  have key: "key (ns' ! i) = (if i = f then k else key (ns ! i))"
    and val: "val (ns' ! i) = val (ns ! i)" for i
    unfolding ns'_def cs_def using assms(9) by (simp_all add: key_update_fields chain_node_fields)
  have at: "key (ns ! home H (key (ns ! i))) \<noteq> Nil_v" if "i < length ns" "proper (key (ns ! i))" for i
    using D(5) that by simp
  have not_f: "home H (key (ns ! i)) \<noteq> f" if "i < length ns" "proper (key (ns ! i))" for i
    using at [OF that] assms(10) by auto
  have behind: "leads (nx ns') (home H (key (ns ! i))) i"
    if i: "i < length ns" "proper (key (ns ! i))" for i
    using leads_link_after [OF un fm D(4) [OF i] not_f [OF i]] by (simp add: nx)
  have "leads (nx ns) m m" using D(4) [OF m assms(7)] assms(8) by simp
  then have new: "leads (nx ns') m f"
    using leads_link_after [OF un fm, of m m] fm by (simp add: nx)
  have "nodes_ok H ns'"
  proof (rule nodes_okI; (unfold len val)?)
    show "linked ns'" using linked by (simp add: linked_def ns'_def nx_key_val)
  next
    fix i
    assume i: "i < length ns" "key (ns' ! i) = Nil_v"
    then have "i \<noteq> f" "i \<noteq> m" using assms(3,7) fm by (auto simp: key)
    then show "val (ns ! i) = Nil_v \<and> unlinked ns' i"
      using D(2) [of i] i by (auto simp: key unlinked_def nx link_after_def)
  next
    fix i
    assume "i < length ns" "key (ns' ! i) \<noteq> Nil_v"
    then show "proper (key (ns' ! i)) \<and> typed H (key (ns' ! i)) \<or>
        val (ns ! i) = Nil_v \<and> (\<exists>a. key (ns' ! i) = Deadkey_v a)"
      using D(3) [of i] assms(3,4) by (auto simp: key)
  next
    fix i
    assume i: "i < length ns" "proper (key (ns' ! i))"
    show "leads (nx ns') (home H (key (ns' ! i))) i"
      using i behind [of i] new assms(6) by (cases "i = f") (simp_all add: key)
    show "key (ns' ! home H (key (ns' ! i))) \<noteq> Nil_v"
      using at [of i] i assms(3,6,7) by (auto simp: key)
    show "home H (key (ns' ! home H (key (ns' ! i)))) = home H (key (ns' ! i))"
      if "proper (key (ns' ! home H (key (ns' ! i))))"
      using D(6) [of i] not_f [of i] i that assms(6,8) fm by (auto simp: key split: if_splits)
  next
    fix i j
    assume ij: "i < length ns" "j < length ns" "proper (key (ns' ! i))" "proper (key (ns' ! j))"
      "same H (key (ns' ! i)) (key (ns' ! j))"
    have sym: "same H k (key (ns ! j)) \<Longrightarrow> proper (key (ns ! j)) \<Longrightarrow> same H (key (ns ! j)) k"
      using hashing_okD(3) [OF assms(2)] assms(3) by blast
    show "i = j"
      using ij assms(5) D(7) [of i j] sym by (auto simp: key absent_def split: if_splits)
  qed
  then show ?thesis by (simp add: ns'_def cs_def)
qed

lemma live_chain:
  assumes "f < length ns" "val (ns ! f) = Nil_v"
  shows "live ((chain_node ns m f)[f := (chain_node ns m f ! f)\<lparr>key := k\<rparr>]) = live ns"
  using assms by (intro live_cong) (auto simp: key_update_fields chain_node_fields)

text \<open>The occupant of the main position is not at home there and gives way to the new key.\<close>

lemma move_node_fields:
  assumes "prev < length ns" "m < length ns" "f < length ns" "m \<noteq> f" "prev \<noteq> m" "prev \<noteq> f"
  shows "key (move_node ns prev m f ! i) = (if i = f then key (ns ! m) else key (ns ! i))"
    and "val (move_node ns prev m f ! i) =
      (if i = m then Nil_v else if i = f then val (ns ! m) else val (ns ! i))"
    and "length (move_node ns prev m f) = length ns"
  unfolding move_node_nth [OF assms] using assms
  by (cases "i = m"; cases "i = f"; cases "i = prev"; simp)+

lemma insert_move:
  assumes "nodes_ok H ns" "hashing_ok H (length ns)" "proper k" "typed H k" "absent H ns k"
    and "home H k = m" "proper (key (ns ! m))" "home H (key (ns ! m)) \<noteq> m"
    and "f < length ns" "key (ns ! f) = Nil_v" "nx ns prev = Some m" "val (ns ! m) \<noteq> Nil_v"
  shows "nodes_ok H ((move_node ns prev m f)[m := (move_node ns prev m f ! m)\<lparr>key := k\<rparr>])"
    and "live ((move_node ns prev m f)[m := (move_node ns prev m f ! m)\<lparr>key := k\<rparr>]) = live ns"
proof -
  define cs where "cs = move_node ns prev m f"
  define ns' where "ns' = cs[m := (cs ! m)\<lparr>key := k\<rparr>]"
  note D = nodes_okD [OF assms(1)]
  have m: "m < length ns" using hashing_okD(1) [OF assms(2), of k] assms(6) by simp
  have fm: "f \<noteq> m" using assms(7,10) by auto
  have un: "unlinked ns f" using D(2) [OF assms(9,10)] by simp
  have prev: "prev < length ns" "prev \<noteq> f"
    using nx_SomeD [OF assms(11)] un assms(11) by (auto simp: unlinked_def)
  have prev_m: "prev \<noteq> m"
  proof
    assume "prev = m"
    then have mm: "nx ns m = Some m" using assms(11) by simp
    obtain xs where xs: "chain (nx ns) m xs" using linked_chain [OF D(1) m] by blast
    have "xs = m # xs" by (rule chain_unique [OF xs chain.step [OF mm xs]])
    then show False by simp
  qed
  note F = move_node_fields [OF prev(1) m assms(9) fm [symmetric] prev_m prev(2)]
  have len: "length ns' = length ns" by (simp add: ns'_def cs_def F)
  have nx: "nx ns' = link_instead (nx ns) prev m f"
    unfolding ns'_def nx_key_val cs_def
    using un m assms(9) fm D(1) prev prev_m by (intro nx_move_node) (auto simp: unlinked_def)
  have linked: "linked cs"
    unfolding cs_def by (rule linked_move_node [OF D(1) un assms(11) fm prev(2) prev_m assms(9) m prev(1)])
  have mc: "m < length cs" using m by (simp add: cs_def F)
  have key: "key (ns' ! i) = (if i = m then k else if i = f then key (ns ! m) else key (ns ! i))"
    and val: "val (ns' ! i) = (if i = m then Nil_v else if i = f then val (ns ! m) else val (ns ! i))" for i
    unfolding ns'_def using mc fm by (simp_all add: key_update_fields) (simp_all add: cs_def F)
  have at: "home H (key (ns ! i)) \<noteq> m" "home H (key (ns ! i)) \<noteq> f"
    if "i < length ns" "proper (key (ns ! i))" for i
    using D(5,6) [OF that] assms(7,8,10) by auto
  have moved: "leads (nx ns') (home H (key (ns ! i))) (subst_pos m f i)"
    if i: "i < length ns" "proper (key (ns ! i))" for i
    unfolding nx
    by (rule leads_link_instead [OF D(1) un assms(11) fm prev(2) prev_m at [OF i] D(4) [OF i]])
  have new: "leads (nx ns') m m"
    by (rule leads_refl, rule chain.last) (simp add: nx link_instead_def)
  have "nodes_ok H ns'"
  proof (rule nodes_okI; (unfold len)?)
    show "linked ns'" using linked by (simp add: linked_def ns'_def nx_key_val)
  next
    fix i
    assume i: "i < length ns" "key (ns' ! i) = Nil_v"
    then have "i \<noteq> f" "i \<noteq> m" "key (ns ! i) = Nil_v" using assms(3,7) by (auto simp: key split: if_splits)
    moreover have "unlinked ns i" using D(2) i(1) \<open>key (ns ! i) = Nil_v\<close> by blast
    ultimately show "val (ns' ! i) = Nil_v \<and> unlinked ns' i"
      using D(2) [of i] i assms(11) by (auto simp: val unlinked_def nx link_instead_def)
  next
    fix i
    assume "i < length ns" "key (ns' ! i) \<noteq> Nil_v"
    then show "proper (key (ns' ! i)) \<and> typed H (key (ns' ! i)) \<or>
        val (ns' ! i) = Nil_v \<and> (\<exists>a. key (ns' ! i) = Deadkey_v a)"
      using D(3) [of i] D(3) [OF m] assms(3,4,7,12) by (auto simp: key val)
  next
    fix i
    assume i: "i < length ns" "proper (key (ns' ! i))"
    show "leads (nx ns') (home H (key (ns' ! i))) i"
      using i moved [of i] moved [OF m assms(7)] new assms(6) fm
      by (auto simp: key subst_pos_def split: if_splits)
    show "key (ns' ! home H (key (ns' ! i))) \<noteq> Nil_v"
      using i at [of i] at [OF m assms(7)] D(5) [of i] D(5) [OF m assms(7)] assms(3,6)
      by (auto simp: key split: if_splits)
    show "home H (key (ns' ! home H (key (ns' ! i)))) = home H (key (ns' ! i))"
      if "proper (key (ns' ! home H (key (ns' ! i))))"
      using i that at [of i] at [OF m assms(7)] D(6) [of i] D(6) [OF m assms(7)] assms(6)
      by (auto simp: key split: if_splits)
  next
    fix i j
    assume ij: "i < length ns" "j < length ns" "proper (key (ns' ! i))" "proper (key (ns' ! j))"
      "same H (key (ns' ! i)) (key (ns' ! j))"
    have sym: "same H k (key (ns ! j)) \<Longrightarrow> proper (key (ns ! j)) \<Longrightarrow> same H (key (ns ! j)) k" for j
      using hashing_okD(3) [OF assms(2)] assms(3) by blast
    have no: "j < length ns \<Longrightarrow> proper (key (ns ! j)) \<Longrightarrow> \<not> same H (key (ns ! j)) k" for j
      using assms(5) by (simp add: absent_def)
    show "i = j"
      using ij no [of i] no [of j] no [OF m] sym [of j] sym [of m] assms(7)
        D(7) [of i j] D(7) [OF m, of j] D(7) [OF _ m, of i]
      by (auto simp: key m split: if_splits)
  qed
  then show "nodes_ok H ((move_node ns prev m f)[m := (move_node ns prev m f ! m)\<lparr>key := k\<rparr>])"
    by (simp add: ns'_def cs_def)
  have vf: "val (ns ! f) = Nil_v" using D(2) [OF assms(9,10)] by simp
  have "live ns' = live ns"
  proof (rule set_eqI, rule iffI)
    fix p
    assume "p \<in> live ns'"
    then obtain i where i: "i < length ns" "p = (key (ns' ! i), val (ns' ! i))" "val (ns' ! i) \<noteq> Nil_v"
      by (auto simp: live_def len)
    then have "p = (key (ns ! (if i = f then m else i)), val (ns ! (if i = f then m else i)))"
      "val (ns ! (if i = f then m else i)) \<noteq> Nil_v"
      by (auto simp: key val split: if_splits)
    then show "p \<in> live ns" using i(1) m by (auto simp: live_def)
  next
    fix p
    assume "p \<in> live ns"
    then obtain i where i: "i < length ns" "p = (key (ns ! i), val (ns ! i))" "val (ns ! i) \<noteq> Nil_v"
      by (auto simp: live_def)
    define j where "j = (if i = m then f else i)"
    have "j < length ns" using i(1) assms(9) by (simp add: j_def)
    moreover have "p = (key (ns' ! j), val (ns' ! j))" "val (ns' ! j) \<noteq> Nil_v"
      using i(2,3) vf fm by (auto simp: j_def key val)
    ultimately show "p \<in> live ns'" unfolding live_def len by blast
  qed
  then show "live ((move_node ns prev m f)[m := (move_node ns prev m f ! m)\<lparr>key := k\<rparr>]) = live ns"
    by (simp add: ns'_def cs_def)
qed

end
