(* ===== verification/LuaTableMap.thy ===== *)
theory LuaTableMap
  imports LuaTableInv LuaObjectProps
begin

text \<open>
  Tables as finite maps: every search agrees with a linear scan of the whole table; insertion into
  a table with room and resizing keep the invariant and the map.
\<close>

section \<open>The invariant of a table\<close>

definition table_hash :: "strings \<Rightarrow> table \<Rightarrow> tvalue hashing" where
  "table_hash st t = \<lparr>same = luaV_rawequalobj st, home = mainposition st t, typed = key_typed st\<rparr>"

definition table_ok :: "strings \<Rightarrow> table \<Rightarrow> bool" where
  "table_ok st t \<longleftrightarrow>
     (\<exists>l \<le> MAXHBITS. sizenode t = 2 ^ l) \<and>
     nodes_ok (table_hash st t) (nodes t) \<and>
     (isdummy t \<longrightarrow> nodes t = [dummynode] \<and> lastfree t = 0) \<and>
     lastfree t \<le> sizenode t \<and>
     (\<not> isdummy t \<longrightarrow> (\<forall>i. lastfree t \<le> i \<longrightarrow> i < sizenode t \<longrightarrow> key (nodes t ! i) \<noteq> Nil_v)) \<and>
     (\<forall>i < sizenode t. \<forall>j. key (nodes t ! i) = Int_v j \<longrightarrow> \<not> unat (j - 1) < sizearray t) \<and>
     sizearray t \<le> MAXASIZE"

lemma table_hash_simps [simp]:
  "same (table_hash st t) = luaV_rawequalobj st" "home (table_hash st t) = mainposition st t"
  "typed (table_hash st t) = key_typed st"
  by (simp_all add: table_hash_def)

lemma table_hash_cong: "sizenode t = sizenode t' \<Longrightarrow> table_hash st t = table_hash st t'"
  using mainposition_cong [of t t' st] by (simp add: table_hash_def fun_eq_iff)

lemma table_okD:
  assumes "table_ok st t"
  shows "\<exists>l \<le> MAXHBITS. sizenode t = 2 ^ l" "nodes_ok (table_hash st t) (nodes t)"
    "isdummy t \<Longrightarrow> nodes t = [dummynode] \<and> lastfree t = 0" "lastfree t \<le> sizenode t"
    "\<not> isdummy t \<Longrightarrow> lastfree t \<le> i \<Longrightarrow> i < sizenode t \<Longrightarrow> key (nodes t ! i) \<noteq> Nil_v"
    "i < sizenode t \<Longrightarrow> key (nodes t ! i) = Int_v j \<Longrightarrow> \<not> unat (j - 1) < sizearray t"
    "sizearray t \<le> MAXASIZE"
  using assms unfolding table_ok_def by blast+

lemma hashing_table:
  assumes "strings_ok st seed" "table_ok st t"
  shows "hashing_ok (table_hash st t) (length (nodes t))"
proof -
  obtain l where l: "sizenode t = 2 ^ l" using table_okD(1) [OF assms(2)] by blast
  have "mainposition st t k < length (nodes t)" for k
    using mainposition_less [OF l] by (simp add: sizenode_def)
  then show ?thesis
    unfolding hashing_ok_def table_hash_simps
    using rawequal_refl rawequal_sym rawequal_trans rawequal_hash [OF assms(1)] by blast
qed

section \<open>The map a table stands for\<close>

definition array_slot :: "table \<Rightarrow> tvalue \<Rightarrow> nat option" where
  "array_slot t k =
     (case k of Int_v i \<Rightarrow> if unat (i - 1) < sizearray t then Some (unat (i - 1)) else None
      | _ \<Rightarrow> None)"

definition find_node :: "strings \<Rightarrow> table \<Rightarrow> tvalue \<Rightarrow> nat option" where
  "find_node st t k = find (\<lambda>i. luaV_rawequalobj st (key (nodes t ! i)) k) [0..<sizenode t]"

definition cell_of :: "strings \<Rightarrow> table \<Rightarrow> tvalue \<Rightarrow> cell" where
  "cell_of st t k =
     (case array_slot t k of Some i \<Rightarrow> Arr i | None \<Rightarrow> to_cell (find_node st t k))"

definition lookup :: "strings \<Rightarrow> table \<Rightarrow> tvalue \<Rightarrow> tvalue" where
  "lookup st t k = read_cell t (cell_of st t k)"

lemma rawequal_node_proper:
  assumes "table_ok st t" "proper k" "i < sizenode t" "luaV_rawequalobj st (key (nodes t ! i)) k"
  shows "proper (key (nodes t ! i)) \<and> key_typed st (key (nodes t ! i))"
proof -
  have i: "i < length (nodes t)" using assms(3) by (simp add: sizenode_def)
  have "key (nodes t ! i) \<noteq> Nil_v" using assms(2,4) rawequal_Nil [of k st] by metis
  then show ?thesis
    using nodes_okD(3) [OF table_okD(2) [OF assms(1)] i] rawequal_Dead [OF assms(2)] assms(4)
    by auto
qed

text \<open>At most one node holds a key, and it is reached from the main position.\<close>

lemma find_node_Some:
  assumes "table_ok st t" "proper k"
  shows "find_node st t k = Some i \<longleftrightarrow>
    i < sizenode t \<and> luaV_rawequalobj st (key (nodes t ! i)) k"
proof
  assume "find_node st t k = Some i"
  then show "i < sizenode t \<and> luaV_rawequalobj st (key (nodes t ! i)) k"
    by (auto simp: find_node_def find_Some_iff)
next
  assume i: "i < sizenode t \<and> luaV_rawequalobj st (key (nodes t ! i)) k"
  have "j = i" if j: "j < sizenode t" "luaV_rawequalobj st (key (nodes t ! j)) k" for j
  proof -
    have p: "proper (key (nodes t ! i))" "proper (key (nodes t ! j))"
      using rawequal_node_proper [OF assms] i j by blast+
    have "luaV_rawequalobj st k (key (nodes t ! i))"
      using i by (intro rawequal_sym [OF p(1) assms(2)]) simp
    then have "luaV_rawequalobj st (key (nodes t ! j)) (key (nodes t ! i))"
      by (rule rawequal_trans [OF p(2) assms(2) p(1) j(2)])
    then show ?thesis
      using nodes_okD(7) [OF table_okD(2) [OF assms(1)], of j i] i j p by (simp add: sizenode_def)
  qed
  then show "find_node st t k = Some i"
    unfolding find_node_def using i by (intro find_unique) auto
qed

lemma find_node_None:
  "find_node st t k = None \<longleftrightarrow> (\<forall>i < sizenode t. \<not> luaV_rawequalobj st (key (nodes t ! i)) k)"
  by (auto simp: find_node_def find_none)

lemma search_find:
  assumes "strings_ok st seed" "table_ok st t" "proper k" "key_typed st k"
    and "\<And>i. i < sizenode t \<Longrightarrow> p (key (nodes t ! i)) = luaV_rawequalobj st (key (nodes t ! i)) k"
  shows "search p (nodes t) (mainposition st t k) = Some (find_node st t k)"
proof -
  note D = nodes_okD [OF table_okD(2) [OF assms(2)]]
  have m: "mainposition st t k < length (nodes t)"
    using hashing_okD(1) [OF hashing_table [OF assms(1,2)], of k] by simp
  obtain xs where xs: "chain (nx (nodes t)) (mainposition st t k) xs"
    using linked_chain [OF D(1) m] by blast
  have range: "set xs \<subseteq> {..<sizenode t}" using chain_range [OF xs D(1) m] by (simp add: sizenode_def)
  have "find (\<lambda>j. p (key (nodes t ! j))) xs = find_node st t k"
  proof (cases "find_node st t k")
    case None
    then have "\<forall>a \<in> set xs. \<not> p (key (nodes t ! a))"
      using assms(5) range by (auto simp: find_node_None)
    then show ?thesis using None by (simp add: find_none)
  next
    case (Some i)
    then have i: "i < sizenode t" "luaV_rawequalobj st (key (nodes t ! i)) k"
      by (simp_all add: find_node_Some [OF assms(2,3)])
    have p: "proper (key (nodes t ! i))" "key_typed st (key (nodes t ! i))"
      using rawequal_node_proper [OF assms(2,3) i] by simp_all
    have "mainposition st t (key (nodes t ! i)) = mainposition st t k"
      by (rule rawequal_hash [OF assms(1) p(1) assms(3) p(2) assms(4) i(2)])
    then have "leads (nx (nodes t)) (mainposition st t k) i"
      using D(4) [of i] i(1) p(1) by (simp add: sizenode_def)
    then have "i \<in> set xs" using chain_unique [OF xs] by (auto simp: leads_def)
    then have "find (\<lambda>j. p (key (nodes t ! j))) xs = Some i"
    proof (rule find_unique)
      show "p (key (nodes t ! i))" using i by (simp add: assms(5))
    next
      fix b
      assume b: "b \<in> set xs" "p (key (nodes t ! b))"
      then have "b < sizenode t" using range by auto
      then have "find_node st t k = Some b"
        using b(2) by (simp add: find_node_Some [OF assms(2,3)] assms(5))
      with Some show "b = i" by simp
    qed
    then show ?thesis using Some by simp
  qed
  then show ?thesis using search_chain [OF xs D(1) m, of p] by simp
qed

text \<open>The specialised searches test less than raw equality, but not on what tables hold.\<close>

lemma stored_float:
  assumes "table_ok st t" "i < sizenode t" "key (nodes t ! i) = Flt_v x"
  shows "proper (Flt_v x)"
  using nodes_okD(3) [OF table_okD(2) [OF assms(1)], of i] assms(2,3) by (auto simp: sizenode_def)

lemma getint_spec:
  assumes "strings_ok st seed" "table_ok st t"
  shows "luaH_getint t j = Some (cell_of st t (Int_v j))"
proof -
  have "search (\<lambda>k. k = Int_v j) (nodes t) (mainposition st t (Int_v j)) = Some (find_node st t (Int_v j))"
  proof (rule search_find [OF assms])
    fix i
    assume i: "i < sizenode t"
    show "(key (nodes t ! i) = Int_v j) = luaV_rawequalobj st (key (nodes t ! i)) (Int_v j)"
      using stored_float [OF assms(2) i] by (auto simp: rawequal_proper proper_Flt)
  qed (simp_all add: key_typed_def)
  then show ?thesis
    by (simp add: luaH_getint_def cell_of_def array_slot_def mainposition_def)
qed

lemma getshortstr_spec:
  assumes "strings_ok st seed" "table_ok st t"
  shows "luaH_getshortstr st t a = Some (cell_of st t (Shr_v a))"
proof -
  have "search (\<lambda>k. k = Shr_v a) (nodes t) (mainposition st t (Shr_v a)) = Some (find_node st t (Shr_v a))"
    by (rule search_find [OF assms]) (simp_all add: key_typed_def rawequal_proper)
  then show ?thesis
    by (simp add: luaH_getshortstr_def cell_of_def array_slot_def mainposition_def)
qed

lemma getgeneric_spec:
  assumes "strings_ok st seed" "table_ok st t" "proper k" "key_typed st k" "\<And>i. k \<noteq> Int_v i"
  shows "getgeneric st t k = Some (cell_of st t k)"
  using search_find [OF assms(1-4)] assms(5)
  by (simp add: getgeneric_def cell_of_def array_slot_def split: tvalue.split)

text \<open>The key a value is stored under; \<open>nil\<close> and NaN are keys of nothing.\<close>

definition key_of :: "tvalue \<Rightarrow> tvalue option" where
  "key_of k = (case check_key k of Inl _ \<Rightarrow> None | Inr k' \<Rightarrow> Some k')"

lemma key_of_proper: "proper k \<Longrightarrow> key_of k = Some k"
  by (simp add: proper_def key_of_def)

lemma key_of_Some: "key_of k = Some k' \<Longrightarrow> (\<forall>a. k \<noteq> Deadkey_v a) \<Longrightarrow> proper k'"
  by (cases k) (auto simp: key_of_def check_key_def proper_Flt split: option.splits if_splits)

lemma key_of_typed: "key_of k = Some k' \<Longrightarrow> key_typed st k \<Longrightarrow> key_typed st k'"
  by (cases k) (auto simp: key_of_def check_key_def key_typed_def split: option.splits if_splits)

lemma nan_equal: "luai_numisnan x \<Longrightarrow> \<not> luaV_rawequalobj st k (Flt_v x) \<or> fl_tointeger x \<noteq> None"
  by (cases k) (auto simp: luaV_rawequalobj_def luai_numeq_def)

lemma nan_not_integral: "luai_numisnan x \<Longrightarrow> fl_tointeger x = None"
  by (simp add: luai_numisnan_def fl_tointeger_def)

lemma getgeneric_nan:
  assumes "strings_ok st seed" "table_ok st t" "luai_numisnan x"
  shows "getgeneric st t (Flt_v x) = Some Nilobject"
proof -
  note D = nodes_okD [OF table_okD(2) [OF assms(2)]]
  have m: "mainposition st t (Flt_v x) < length (nodes t)"
    using hashing_okD(1) [OF hashing_table [OF assms(1,2)], of "Flt_v x"] by simp
  obtain xs where xs: "chain (nx (nodes t)) (mainposition st t (Flt_v x)) xs"
    using linked_chain [OF D(1) m] by blast
  have no: "\<not> luaV_rawequalobj st k (Flt_v x)" for k
    using nan_equal [OF assms(3), of st k] nan_not_integral [OF assms(3)] by blast
  have "find (\<lambda>j. luaV_rawequalobj st (key (nodes t ! j)) (Flt_v x)) xs = None"
    by (simp add: find_none no)
  then show ?thesis
    using search_chain [OF xs D(1) m, of "\<lambda>k'. luaV_rawequalobj st k' (Flt_v x)"]
    by (simp add: getgeneric_def to_cell_def)
qed

lemma get_proper:
  assumes "strings_ok st seed" "table_ok st t" "proper k" "key_typed st k"
  shows "luaH_get st t k = Some (cell_of st t k)"
  using getint_spec [OF assms(1,2)] getshortstr_spec [OF assms(1,2)] getgeneric_spec [OF assms] assms(3)
  by (auto simp: luaH_get_def proper_Flt split: tvalue.split)

lemma table_get_scan_core:
  assumes "strings_ok st seed" "table_ok st t" "key_typed st k" "\<forall>a. k \<noteq> Deadkey_v a"
  shows "luaH_get st t k =
    Some (case key_of k of None \<Rightarrow> Nilobject | Some k' \<Rightarrow> cell_of st t k')"
proof (cases "key_of k")
  case None
  then have "k = Nil_v \<or> (\<exists>x. k = Flt_v x \<and> fl_tointeger x = None \<and> luai_numisnan x)"
    by (cases k) (auto simp: key_of_def check_key_def split: option.splits if_splits)
  then show ?thesis
    using None getgeneric_nan [OF assms(1,2)] by (auto simp: luaH_get_def)
next
  case (Some k')
  then have k': "proper k'" "key_typed st k'"
    using key_of_Some key_of_typed assms(3,4) by blast+
  show ?thesis
  proof (cases "k' = k")
    case True
    then show ?thesis using get_proper [OF assms(1,2) k'] Some by simp
  next
    case False
    with Some obtain x i where "k = Flt_v x" "fl_tointeger x = Some i" "k' = Int_v i"
      by (cases k) (auto simp: key_of_def check_key_def split: option.splits if_splits)
    then show ?thesis using getint_spec [OF assms(1,2)] Some by (simp add: luaH_get_def)
  qed
qed

text \<open>C21: Reading a table never fails and never gets lost in a collision chain: for any key but the
  mark of a collected one, \<open>luaH_get\<close> returns the cell that a linear scan of the table finds for
  the key as it is stored, an integral float being looked up as the integer; for \<open>nil\<close> and NaN it
  returns the nil object.\<close>

theorem table_get_scan:
  assumes "strings_ok st seed" "table_ok st t" "key_typed st k" "\<forall>a. k \<noteq> Deadkey_v a"
  shows "luaH_get st t k =
    Some (case key_of k of None \<Rightarrow> Nilobject | Some k' \<Rightarrow> cell_of st t k')"
  by (rule table_get_scan_core [OF assms])

section \<open>Insertion\<close>

lemma free_below_spec:
  "free_below ns l = (l', r) \<Longrightarrow>
     l' \<le> l \<and> (\<forall>i. l' < i \<and> i < l \<longrightarrow> key (ns ! i) \<noteq> Nil_v) \<and>
     (case r of None \<Rightarrow> l' = 0 \<and> (\<forall>i < l. key (ns ! i) \<noteq> Nil_v)
      | Some f \<Rightarrow> f = l' \<and> f < l \<and> key (ns ! f) = Nil_v)"
proof (induction l arbitrary: l' r)
  case (Suc l)
  show ?case
  proof (cases "key (ns ! l) = Nil_v")
    case True
    with Suc.prems have "l' = l" "r = Some l" by auto
    with True show ?thesis by auto
  next
    case False
    with Suc.prems have "free_below ns l = (l', r)" by simp
    from Suc.IH [OF this] False show ?thesis
      by (auto simp: less_Suc_eq split: option.splits)
  qed
qed simp

text \<open>Number of used nodes.\<close>

definition used :: "node list \<Rightarrow> nat" where
  "used ns = card {i. i < length ns \<and> key (ns ! i) \<noteq> Nil_v}"

lemma used_le: "used ns \<le> length ns"
  using card_mono [of "{..<length ns}" "{i. i < length ns \<and> key (ns ! i) \<noteq> Nil_v}"]
  by (auto simp: used_def)

lemma used_insert:
  assumes "length ns' = length ns" "\<And>i. i < length ns \<Longrightarrow> i \<noteq> m \<Longrightarrow> key (ns' ! i) \<noteq> Nil_v \<Longrightarrow> key (ns ! i) \<noteq> Nil_v"
  shows "used ns' \<le> used ns + 1"
proof -
  have "{i. i < length ns' \<and> key (ns' ! i) \<noteq> Nil_v} \<subseteq> insert m {i. i < length ns \<and> key (ns ! i) \<noteq> Nil_v}"
    using assms by auto
  then have "used ns' \<le> card (insert m {i. i < length ns \<and> key (ns ! i) \<noteq> Nil_v})"
    unfolding used_def by (rule card_mono [rotated]) simp
  also have "\<dots> \<le> used ns + 1" unfolding used_def by (simp add: card_insert_if)
  finally show ?thesis .
qed

lemma used_room: "used ns < length ns \<Longrightarrow> \<exists>i < length ns. key (ns ! i) = Nil_v"
proof (rule ccontr)
  assume "used ns < length ns" "\<not> (\<exists>i < length ns. key (ns ! i) = Nil_v)"
  then have "{i. i < length ns \<and> key (ns ! i) \<noteq> Nil_v} = {..<length ns}" by auto
  then have "used ns = length ns" by (simp add: used_def)
  with \<open>used ns < length ns\<close> show False by simp
qed

text \<open>What an insertion without rehash gives.\<close>

definition inserted :: "strings \<Rightarrow> table \<Rightarrow> tvalue \<Rightarrow> table \<Rightarrow> nat \<Rightarrow> bool" where
  "inserted st t k t' i \<longleftrightarrow>
     table_ok st t' \<and> \<not> isdummy t' \<and> array t' = array t \<and> sizenode t' = sizenode t \<and>
     live (nodes t') = live (nodes t) \<and> i < sizenode t' \<and> key (nodes t' ! i) = k \<and>
     val (nodes t' ! i) = Nil_v \<and> used (nodes t') \<le> used (nodes t) + 1"

lemma absent_find: "find_node st t k = None \<Longrightarrow> absent (table_hash st t) (nodes t) k"
  by (simp add: absent_def find_node_None sizenode_def)

lemma table_ok_nodes:
  assumes "table_ok st t" "\<not> isdummy t" "length ns = sizenode t" "nodes_ok (table_hash st t) ns"
    and "l \<le> sizenode t" "\<And>i. l \<le> i \<Longrightarrow> i < sizenode t \<Longrightarrow> key (ns ! i) \<noteq> Nil_v"
    and "\<And>i j. i < sizenode t \<Longrightarrow> key (ns ! i) = Int_v j \<Longrightarrow> \<not> unat (j - 1) < sizearray t"
  shows "table_ok st (t\<lparr>lastfree := l, nodes := ns\<rparr>)"
proof -
  let ?t = "t\<lparr>lastfree := l, nodes := ns\<rparr>"
  have size: "sizenode ?t = sizenode t" using assms(3) by (simp add: sizenode_def)
  have "table_hash st ?t = table_hash st t" by (rule table_hash_cong [OF size])
  then show ?thesis
    using assms table_okD(1,7) [OF assms(1)] unfolding table_ok_def size by (simp add: sizearray_def)
qed

lemma live_Nil: "i < length ns \<Longrightarrow> nodes_ok H ns \<Longrightarrow> key (ns ! i) = Nil_v \<Longrightarrow> val (ns ! i) = Nil_v"
  using nodes_okD(2) by blast

lemma int_key_slot: "array_slot t k = None \<Longrightarrow> k = Int_v j \<Longrightarrow> \<not> unat (j - 1) < sizearray t"
  by (simp add: array_slot_def split: if_splits)

text \<open>What the three ways of inserting have in common.\<close>

definition insertable :: "strings \<Rightarrow> u32 \<Rightarrow> table \<Rightarrow> tvalue \<Rightarrow> bool" where
  "insertable st seed t k \<longleftrightarrow>
     strings_ok st seed \<and> table_ok st t \<and> proper k \<and> key_typed st k \<and> find_node st t k = None \<and>
     array_slot t k = None \<and> \<not> isdummy t"

lemma insertableD:
  assumes "insertable st seed t k"
  shows "table_ok st t" "nodes_ok (table_hash st t) (nodes t)"
    "hashing_ok (table_hash st t) (length (nodes t))" "proper k" "typed (table_hash st t) k"
    "absent (table_hash st t) (nodes t) k" "home (table_hash st t) k = mainposition st t k"
    "mainposition st t k < length (nodes t)" "check_key k = Inr k" "\<not> isdummy t"
    "k = Int_v j \<Longrightarrow> \<not> unat (j - 1) < sizearray t"
proof -
  note I = assms [unfolded insertable_def]
  show H: "hashing_ok (table_hash st t) (length (nodes t))"
    using I by (intro hashing_table) auto
  show "mainposition st t k < length (nodes t)" using hashing_okD(1) [OF H, of k] by simp
  show "k = Int_v j \<Longrightarrow> \<not> unat (j - 1) < sizearray t" using I int_key_slot by blast
qed (use assms in \<open>simp_all add: insertable_def table_okD(2) absent_find proper_def\<close>)

lemma no_self_loop: "linked ns \<Longrightarrow> nx ns i \<noteq> Some i"
proof
  assume "linked ns" and loop: "nx ns i = Some i"
  then obtain xs where xs: "chain (nx ns) i xs" using linked_chain nx_SomeD by blast
  have "xs = i # xs" by (rule chain_unique [OF xs chain.step [OF loop xs]])
  then show False by simp
qed

lemma newkey_home:
  assumes "insertable st seed t k" "val (nodes t ! mainposition st t k) = Nil_v"
  shows "\<exists>t'. newkey_with st nk t k = Inr (t', Nod (mainposition st t k)) \<and>
    inserted st t k t' (mainposition st t k)"
proof -
  let ?m = "mainposition st t k"
  let ?ns = "(nodes t)[?m := (nodes t ! ?m)\<lparr>key := k\<rparr>]"
  note I = insertableD [OF assms(1)]
  note T = table_okD [OF I(1)]
  have ok: "nodes_ok (table_hash st t) ?ns"
    by (rule insert_home [OF I(2) I(3) I(4) I(5) I(6) I(7) assms(2)])
  have F: "key (?ns ! i) = (if i = ?m then k else key (nodes t ! i))" for i
    using I(8) by (simp add: key_update_fields)
  have "table_ok st (t\<lparr>lastfree := lastfree t, nodes := ?ns\<rparr>)"
    using T(4-6) I(4,11) by (intro table_ok_nodes [OF I(1) I(10) _ ok])
      (auto simp: F sizenode_def I(10) split: if_splits)
  moreover have "used ?ns \<le> used (nodes t) + 1"
    by (rule used_insert [of _ _ ?m]) (auto simp: F)
  ultimately have "inserted st t k (t\<lparr>nodes := ?ns\<rparr>) ?m"
    using I(8,10) assms(2) live_home [OF I(8) assms(2), of k] by (simp add: inserted_def sizenode_def)
  moreover have "newkey_with st nk t k = Inr (t\<lparr>nodes := ?ns\<rparr>, Nod ?m)"
    using assms(2) I(9,10) by (simp add: newkey_with_def put_key_def Let_def)
  ultimately show ?thesis by blast
qed

text \<open>A free position below \<open>lastfree\<close>, all used above it.\<close>

definition free_at :: "table \<Rightarrow> nat \<Rightarrow> bool" where
  "free_at t f \<longleftrightarrow>
     getfreepos t = (t\<lparr>lastfree := f\<rparr>, Some f) \<and> f < sizenode t \<and> key (nodes t ! f) = Nil_v \<and>
     (\<forall>i. f < i \<longrightarrow> i < sizenode t \<longrightarrow> key (nodes t ! i) \<noteq> Nil_v)"

lemma getfreepos_room:
  assumes "table_ok st t" "\<not> isdummy t" "used (nodes t) < sizenode t"
  shows "\<exists>f. free_at t f"
proof -
  note T = table_okD [OF assms(1)]
  obtain q where q: "q < length (nodes t)" "key (nodes t ! q) = Nil_v"
    using used_room [of "nodes t"] assms(3) by (auto simp: sizenode_def)
  obtain l r where lr: "free_below (nodes t) (lastfree t) = (l, r)" by fastforce
  have "q < lastfree t"
  proof (rule ccontr)
    assume "\<not> q < lastfree t"
    then show False using T(5) [OF assms(2), of q] q by (simp add: sizenode_def not_less)
  qed
  with free_below_spec [OF lr] q obtain f where f: "r = Some f" "f = l" "f < lastfree t"
    "key (nodes t ! f) = Nil_v" "\<forall>i. f < i \<and> i < lastfree t \<longrightarrow> key (nodes t ! i) \<noteq> Nil_v"
    by (auto split: option.splits)
  have "key (nodes t ! i) \<noteq> Nil_v" if "f < i" "i < sizenode t" for i
    using f(5) T(5) [OF assms(2), of i] that by (cases "i < lastfree t") auto
  then have "free_at t f" using lr f T(4) by (simp add: getfreepos_def free_at_def)
  then show ?thesis ..
qed

lemma newkey_chain:
  assumes "insertable st seed t k" "free_at t f" and "m = mainposition st t k"
    and "val (nodes t ! m) \<noteq> Nil_v" "mainposition st t (key (nodes t ! m)) = m"
  shows "\<exists>t'. newkey_with st nk t k = Inr (t', Nod f) \<and> inserted st t k t' f"
proof -
  let ?cs = "chain_node (nodes t) m f"
  let ?ns = "?cs[f := (?cs ! f)\<lparr>key := k\<rparr>]"
  note I = insertableD [OF assms(1), folded assms(3)]
  note T = table_okD [OF I(1)]
  have f: "f < length (nodes t)" "key (nodes t ! f) = Nil_v" "getfreepos t = (t\<lparr>lastfree := f\<rparr>, Some f)"
    and above: "\<And>i. f < i \<Longrightarrow> i < sizenode t \<Longrightarrow> key (nodes t ! i) \<noteq> Nil_v"
    using assms(2) by (auto simp: free_at_def sizenode_def)
  have vf: "val (nodes t ! f) = Nil_v" using nodes_okD(2) [OF I(2) f(1,2)] by simp
  have mk: "proper (key (nodes t ! m))" using nodes_ok_live [OF I(2) I(8) assms(4)] by simp
  have ok: "nodes_ok (table_hash st t) ?ns"
    using assms(5) by (intro insert_chain [OF I(2) I(3) I(4) I(5) I(6) I(7) mk _ f(1,2)]) simp
  have F: "key (?ns ! i) = (if i = f then k else key (nodes t ! i))" for i
    using f(1) by (simp add: key_update_fields chain_node_fields)
  have "table_ok st (t\<lparr>lastfree := f, nodes := ?ns\<rparr>)"
    using T(6) I(4,11) above f(1) by (intro table_ok_nodes [OF I(1) I(10) _ ok])
      (auto simp: F sizenode_def chain_node_fields split: if_splits)
  moreover have "used ?ns \<le> used (nodes t) + 1"
    by (rule used_insert [of _ _ f]) (auto simp: F chain_node_fields)
  ultimately have "inserted st t k (t\<lparr>lastfree := f, nodes := ?ns\<rparr>) f"
    using I(10) f(1) vf live_chain [OF f(1) vf, of m k]
    by (simp add: inserted_def sizenode_def chain_node_fields F)
  moreover have "mainposition st (t\<lparr>lastfree := f\<rparr>) = mainposition st t"
    using mainposition_cong [of "t\<lparr>lastfree := f\<rparr>" t st] by (simp add: fun_eq_iff sizenode_def)
  then have "newkey_with st nk t k = Inr (t\<lparr>lastfree := f, nodes := ?ns\<rparr>, Nod f)"
    using assms(3-5) by (simp add: newkey_with_def I(9) put_key_def f(3) Let_def)
  ultimately show ?thesis by blast
qed

lemma newkey_move:
  assumes "insertable st seed t k" "free_at t f" and "m = mainposition st t k"
    and "val (nodes t ! m) \<noteq> Nil_v" "mainposition st t (key (nodes t ! m)) \<noteq> m"
  shows "\<exists>t'. newkey_with st nk t k = Inr (t', Nod m) \<and> inserted st t k t' m"
proof -
  note I = insertableD [OF assms(1), folded assms(3)]
  note T = table_okD [OF I(1)] and N = nodes_okD [OF I(2)]
  have f: "f < length (nodes t)" "key (nodes t ! f) = Nil_v" "getfreepos t = (t\<lparr>lastfree := f\<rparr>, Some f)"
    and above: "\<And>i. f < i \<Longrightarrow> i < sizenode t \<Longrightarrow> key (nodes t ! i) \<noteq> Nil_v"
    using assms(2) by (auto simp: free_at_def sizenode_def)
  have mk: "proper (key (nodes t ! m))" using nodes_ok_live [OF I(2) I(8) assms(4)] by simp
  obtain xs where xs: "chain (nx (nodes t)) (mainposition st t (key (nodes t ! m))) xs" "m \<in> set xs"
    using N(4) [OF I(8) mk] by (auto simp: leads_def)
  have o: "mainposition st t (key (nodes t ! m)) < length (nodes t)"
    using hashing_okD(1) [OF I(3), of "key (nodes t ! m)"] by simp
  obtain prev where prev: "find_previous (nodes t) (mainposition st t (key (nodes t ! m))) m = Some prev"
    "nx (nodes t) prev = Some m"
    using previous_chain [OF xs(1) N(1) o xs(2)] assms(5) by auto
  let ?cs = "move_node (nodes t) prev m f"
  let ?ns = "?cs[m := (?cs ! m)\<lparr>key := k\<rparr>]"
  have ok: "nodes_ok (table_hash st t) ?ns" and live: "live ?ns = live (nodes t)"
    using assms(5) insert_move [OF I(2) I(3) I(4) I(5) I(6) I(7) mk _ f(1,2) prev(2) assms(4)] by simp_all
  have len: "length ?cs = length (nodes t)" by (simp add: move_node_def Let_def)
  have ne: "f \<noteq> m" "prev \<noteq> f" "prev < length (nodes t)" "prev \<noteq> m"
    using mk f(2) N(2) [OF f(1,2)] prev(2) nx_SomeD [OF prev(2)] no_self_loop [OF N(1)]
    by (auto simp: unlinked_def)
  note G = move_node_fields [OF ne(3) I(8) f(1) ne(1) [symmetric] ne(4) ne(2)]
  have F: "key (?ns ! i) = (if i = m then k else if i = f then key (nodes t ! m) else key (nodes t ! i))"
    and V: "val (?ns ! m) = Nil_v" for i
    using I(8) len by (simp_all add: key_update_fields G)
  have "table_ok st (t\<lparr>lastfree := f, nodes := ?ns\<rparr>)"
    using T(6) I(4,11) above f(1) mk I(8) by (intro table_ok_nodes [OF I(1) I(10) _ ok])
      (auto simp: F sizenode_def len split: if_splits)
  moreover have "used ?ns \<le> used (nodes t) + 1"
    by (rule used_insert [of _ _ f]) (use mk in \<open>auto simp: F len split: if_splits\<close>)
  ultimately have "inserted st t k (t\<lparr>lastfree := f, nodes := ?ns\<rparr>) m"
    using I(10,8) live by (simp add: inserted_def sizenode_def len F V G)
  moreover have "mainposition st (t\<lparr>lastfree := f\<rparr>) = mainposition st t"
    using mainposition_cong [of "t\<lparr>lastfree := f\<rparr>" t st] by (simp add: fun_eq_iff sizenode_def)
  then have "newkey_with st nk t k = Inr (t\<lparr>lastfree := f, nodes := ?ns\<rparr>, Nod m)"
    using assms(3-5) prev(1) by (simp add: newkey_with_def I(9) put_key_def f(3) Let_def)
  ultimately show ?thesis by blast
qed

lemma newkey_insert:
  assumes "insertable st seed t k"
    and "val (nodes t ! mainposition st t k) = Nil_v \<or> used (nodes t) < sizenode t"
  shows "\<exists>t' i. newkey_with st nk t k = Inr (t', Nod i) \<and> inserted st t k t' i"
proof (cases "val (nodes t ! mainposition st t k) = Nil_v")
  case True
  then show ?thesis using newkey_home [OF assms(1)] by blast
next
  case False
  then obtain f where "free_at t f"
    using getfreepos_room [OF insertableD(1,10) [OF assms(1)]] assms(2) by blast
  then show ?thesis
    using newkey_chain [OF assms(1) _ refl False] newkey_move [OF assms(1) _ refl False] by blast
qed

section \<open>Reading and writing cells\<close>

lemma find_node_cong:
  assumes "sizenode t' = sizenode t" "\<And>i. i < sizenode t \<Longrightarrow> key (nodes t' ! i) = key (nodes t ! i)"
  shows "find_node st t' k = find_node st t k"
  unfolding find_node_def assms(1) by (rule find_cong) (auto simp: assms(2))

lemma write_cell_simps [simp]:
  "sizenode (write_cell t c v) = sizenode t" "sizearray (write_cell t c v) = sizearray t"
  "isdummy (write_cell t c v) = isdummy t" "lastfree (write_cell t c v) = lastfree t"
  by (simp_all add: write_cell_def sizenode_def sizearray_def split: cell.split)

lemma val_update_fields:
  "key (ns[j := (ns ! j)\<lparr>val := x\<rparr>] ! i) = key (ns ! i)"
  "nxt (ns[j := (ns ! j)\<lparr>val := x\<rparr>] ! i) = nxt (ns ! i)"
  by (rule update_field [where g = "\<lambda>n. n\<lparr>val := x\<rparr>"], simp)+

lemma write_cell_key [simp]: "key (nodes (write_cell t c v) ! i) = key (nodes t ! i)"
  by (simp add: write_cell_def val_update_fields split: cell.split)

lemma cell_of_write [simp]: "cell_of st (write_cell t c v) k = cell_of st t k"
proof -
  have "find_node st (write_cell t c v) k = find_node st t k" by (rule find_node_cong) simp_all
  moreover have "array_slot (write_cell t c v) k = array_slot t k"
    by (simp add: array_slot_def split: tvalue.split)
  ultimately show ?thesis by (simp add: cell_of_def split: option.split)
qed

text \<open>Distinct keys have distinct cells.\<close>

lemma cell_of_same:
  assumes "table_ok st t" "proper k" "proper k'" "cell_of st t k = cell_of st t k'"
    and "cell_of st t k \<noteq> Nilobject"
  shows "luaV_rawequalobj st k k'"
proof (cases "cell_of st t k")
  case (Arr i)
  then obtain a b where "k = Int_v a" "k' = Int_v b" "unat (a - 1) = i" "unat (b - 1) = i"
    using assms(4)
    by (auto simp: cell_of_def array_slot_def to_cell_def split: option.splits tvalue.splits if_splits)
  then have "k = k'" by (metis diff_eq_eq word_unat_eq_iff)
  then show ?thesis using rawequal_refl assms(2) by simp
next
  case (Nod i)
  then have "find_node st t k = Some i" "find_node st t k' = Some i"
    using assms(4) by (auto simp: cell_of_def to_cell_def split: option.splits)
  then have i: "i < sizenode t" "luaV_rawequalobj st (key (nodes t ! i)) k"
    "luaV_rawequalobj st (key (nodes t ! i)) k'"
    using find_node_Some [OF assms(1)] assms(2,3) by blast+
  have p: "proper (key (nodes t ! i))" using rawequal_node_proper [OF assms(1,2) i(1,2)] by simp
  show ?thesis
    using rawequal_trans [OF assms(2) p assms(3)] rawequal_sym [OF p assms(2)] i by blast
qed (use assms(5) in simp)

lemma cell_of_equal:
  assumes "table_ok st t" "proper k" "proper k'" "luaV_rawequalobj st k k'"
  shows "cell_of st t k = cell_of st t k'"
proof -
  have "luaV_rawequalobj st q k = luaV_rawequalobj st q k'" for q
    using assms(2-4) by (auto simp: rawequal_proper luaS_eqlngstr_def proper_Flt split: tvalue.splits)
  then have "find_node st t k = find_node st t k'" by (simp add: find_node_def)
  moreover have "array_slot t k = array_slot t k'"
    using assms(2-4) by (auto simp: array_slot_def rawequal_both split: tvalue.splits)
  ultimately show ?thesis by (simp add: cell_of_def split: option.split)
qed

text \<open>A cell that belongs to a key is a cell of the table.\<close>

definition cell_in :: "table \<Rightarrow> cell \<Rightarrow> bool" where
  "cell_in t c \<longleftrightarrow>
     (case c of Arr i \<Rightarrow> i < sizearray t
      | Nod i \<Rightarrow> i < sizenode t \<and> proper (key (nodes t ! i)) | Nilobject \<Rightarrow> False)"

lemma cell_of_in:
  assumes "table_ok st t" "proper k" "cell_of st t k \<noteq> Nilobject"
  shows "cell_in t (cell_of st t k)"
  using assms find_node_Some [OF assms(1,2)] rawequal_node_proper [OF assms(1,2)]
  by (auto simp: cell_in_def cell_of_def to_cell_def array_slot_def split: option.splits tvalue.splits if_splits)

lemma read_write:
  assumes "cell_in t c"
  shows "read_cell (write_cell t c v) c' = (if c' = c then v else read_cell t c')"
  using assms
  by (auto simp: cell_in_def read_cell_def write_cell_def sizearray_def sizenode_def nth_list_update
      split: cell.splits)

lemma nodes_ok_write:
  assumes "nodes_ok H ns" "i < length ns" "proper (key (ns ! i))"
  shows "nodes_ok H (ns[i := (ns ! i)\<lparr>val := v\<rparr>])"
proof -
  let ?ns = "ns[i := (ns ! i)\<lparr>val := v\<rparr>]"
  note D = nodes_okD [OF assms(1)]
  have nx: "nx ?ns = nx ns" by (rule nx_key_val)
  have un: "unlinked ?ns = unlinked ns" by (rule ext) (simp add: unlinked_def nx)
  have val: "j \<noteq> i \<Longrightarrow> val (?ns ! j) = val (ns ! j)" for j by simp
  show ?thesis
  proof (rule nodes_okI; (unfold val_update_fields nx un length_list_update)?)
    show "linked ?ns" using D(1) by (simp add: linked_def nx)
  next
    fix j
    assume j: "j < length ns" "key (ns ! j) = Nil_v"
    then have "j \<noteq> i" using assms(3) by auto
    then show "val (?ns ! j) = Nil_v \<and> unlinked ns j" using D(2) [OF j] val by simp
  next
    fix j
    assume j: "j < length ns" "key (ns ! j) \<noteq> Nil_v"
    show "proper (key (ns ! j)) \<and> typed H (key (ns ! j)) \<or>
        val (?ns ! j) = Nil_v \<and> (\<exists>a. key (ns ! j) = Deadkey_v a)"
      using D(3) [OF j] assms(3) val by (cases "j = i") auto
  qed (use D(4-7) in blast)+
qed

lemma table_ok_write:
  assumes "table_ok st t" "cell_in t c"
  shows "table_ok st (write_cell t c v)"
proof -
  note T = table_okD [OF assms(1)]
  have "table_hash st (write_cell t c v) = table_hash st t" by (rule table_hash_cong) simp
  moreover have "nodes_ok (table_hash st t) (nodes (write_cell t c v))"
    using nodes_ok_write [OF T(2)] T(2) assms(2)
    by (simp add: write_cell_def cell_in_def sizenode_def split: cell.splits)
  moreover have "isdummy t \<Longrightarrow> nodes (write_cell t c v) = nodes t"
    using assms(2) T(3) by (auto simp: write_cell_def cell_in_def sizenode_def dummynode_def split: cell.splits)
  ultimately show ?thesis using T unfolding table_ok_def by simp
qed

lemma lookup_write:
  assumes "table_ok st t" "proper k" "proper k'" "cell_of st t k \<noteq> Nilobject"
  shows "lookup st (write_cell t (cell_of st t k) v) k' =
    (if luaV_rawequalobj st k k' then v else lookup st t k')"
proof -
  have "lookup st (write_cell t (cell_of st t k) v) k' =
      (if cell_of st t k' = cell_of st t k then v else lookup st t k')"
    by (simp add: lookup_def read_write [OF cell_of_in [OF assms(1,2,4)]])
  moreover have "cell_of st t k' = cell_of st t k \<longleftrightarrow> luaV_rawequalobj st k k'"
    using cell_of_same [OF assms(1-3) _ assms(4)] cell_of_equal [OF assms(1-3)] by metis
  ultimately show ?thesis by simp
qed

text \<open>The lookup in the hash part depends on its present pairs only.\<close>

lemma lookup_slot: "array_slot t k = Some i \<Longrightarrow> lookup st t k = array t ! i"
  by (simp add: lookup_def cell_of_def read_cell_def)

lemma lookup_hash:
  assumes "table_ok st t" "proper k" "array_slot t k = None" "v \<noteq> Nil_v"
  shows "lookup st t k = v \<longleftrightarrow> (\<exists>q. (q, v) \<in> live (nodes t) \<and> luaV_rawequalobj st q k)"
proof
  assume v: "lookup st t k = v"
  then obtain i where i: "find_node st t k = Some i"
    using assms(3,4) by (cases "find_node st t k") (auto simp: lookup_def cell_of_def to_cell_def read_cell_def)
  then have "i < sizenode t" "luaV_rawequalobj st (key (nodes t ! i)) k"
    using find_node_Some [OF assms(1,2)] by blast+
  moreover have "val (nodes t ! i) = v"
    using v i assms(3) by (simp add: lookup_def cell_of_def to_cell_def read_cell_def)
  ultimately show "\<exists>q. (q, v) \<in> live (nodes t) \<and> luaV_rawequalobj st q k"
    using assms(4) by (auto simp: live_def sizenode_def)
next
  assume "\<exists>q. (q, v) \<in> live (nodes t) \<and> luaV_rawequalobj st q k"
  then obtain i where i: "i < sizenode t" "luaV_rawequalobj st (key (nodes t ! i)) k" "val (nodes t ! i) = v"
    by (auto simp: live_def sizenode_def)
  then have "find_node st t k = Some i" using find_node_Some [OF assms(1,2)] by blast
  then show "lookup st t k = v" using i(3) assms(3) by (simp add: lookup_def cell_of_def to_cell_def read_cell_def)
qed

lemma lookup_live_eq:
  assumes "table_ok st t" "table_ok st t'" "proper k" "array t' = array t" "live (nodes t') = live (nodes t)"
  shows "lookup st t' k = lookup st t k"
proof -
  have slot: "array_slot t' k = array_slot t k"
    by (simp add: array_slot_def sizearray_def assms(4) split: tvalue.split)
  show ?thesis
  proof (cases "array_slot t k")
    case None
    have "lookup st t' k = v \<longleftrightarrow> lookup st t k = v" if "v \<noteq> Nil_v" for v
      using that lookup_hash [OF assms(1,3) None] lookup_hash [OF assms(2,3)] slot None assms(5) by simp
    then show ?thesis by metis
  next
    case (Some i)
    then show ?thesis using slot assms(4) by (simp add: lookup_slot)
  qed
qed

text \<open>A cell for a key in a table with the same map.\<close>

definition has_cell :: "strings \<Rightarrow> table \<Rightarrow> tvalue \<Rightarrow> table \<Rightarrow> cell \<Rightarrow> bool" where
  "has_cell st t k t' c \<longleftrightarrow>
     table_ok st t' \<and> c = cell_of st t' k \<and> c \<noteq> Nilobject \<and>
     (\<forall>k'. proper k' \<longrightarrow> key_typed st k' \<longrightarrow> lookup st t' k' = lookup st t k')"

lemma array_slot_cong: "sizearray t' = sizearray t \<Longrightarrow> array_slot t' k = array_slot t k"
  by (simp add: array_slot_def split: tvalue.split)

lemma inserted_cell:
  assumes "table_ok st t" "proper k" "array_slot t k = None" "inserted st t k t' i"
  shows "has_cell st t k t' (Nod i)"
proof -
  note I = assms(4) [unfolded inserted_def]
  have "find_node st t' k = Some i"
    using I find_node_Some [of st t' k i] assms(2) rawequal_refl by simp
  moreover have "array_slot t' k = None"
    using assms(3) I array_slot_cong [of t' t k] by (simp add: sizearray_def)
  ultimately have "cell_of st t' k = Nod i" by (simp add: cell_of_def to_cell_def)
  then show ?thesis using I lookup_live_eq [OF assms(1)] by (simp add: has_cell_def)
qed

text \<open>Setting a key when there is room for it: nothing is resized.\<close>

lemma set_with_room:
  assumes "strings_ok st seed" "table_ok st t" "proper k" "key_typed st k"
    and "array_slot t k = None \<Longrightarrow> find_node st t k = None \<Longrightarrow>
      \<not> isdummy t \<and> (val (nodes t ! mainposition st t k) = Nil_v \<or> used (nodes t) < sizenode t)"
  shows "\<exists>t' c. set_with st (newkey_with st nk) t k = Inr (t', c) \<and> has_cell st t k t' c \<and>
    sizearray t' = sizearray t \<and> sizenode t' = sizenode t \<and> isdummy t' = isdummy t \<and>
    used (nodes t') \<le> used (nodes t) + (if array_slot t k = None then 1 else 0)"
proof (cases "cell_of st t k = Nilobject")
  case False
  then have "set_with st (newkey_with st nk) t k = Inr (t, cell_of st t k)"
    by (simp add: set_with_def get_proper [OF assms(1-4)] split: cell.split)
  then show ?thesis using False assms(2) by (auto simp: has_cell_def)
next
  case True
  then have none: "array_slot t k = None" "find_node st t k = None"
    by (auto simp: cell_of_def to_cell_def split: option.splits)
  then have "insertable st seed t k" using assms by (simp add: insertable_def)
  then obtain t' i where t': "newkey_with st nk t k = Inr (t', Nod i)" "inserted st t k t' i"
    using newkey_insert assms(5) [OF none] by blast
  then have "set_with st (newkey_with st nk) t k = Inr (t', Nod i)"
    by (simp add: set_with_def get_proper [OF assms(1-4)] True)
  then show ?thesis
    using inserted_cell [OF assms(2,3) none(1) t'(2)] t'(2) assms(5) [OF none] none
    by (auto simp: inserted_def sizearray_def)
qed

section \<open>Growing\<close>

text \<open>Reinserting the vanishing slice is reinserting nodes with integer keys.\<close>

primrec slice_nodes :: "nat \<Rightarrow> tvalue list \<Rightarrow> node list" where
  "slice_nodes i [] = []"
| "slice_nodes i (v # vs) = \<lparr>val = v, key = Int_v (word_of_nat (i + 1)), nxt = 0\<rparr> # slice_nodes (i + 1) vs"

lemma setint_with_set:
  "setint_with nk t i v =
    (case set_with st nk t (Int_v i) of Inl e \<Rightarrow> Inl e | Inr (t', c) \<Rightarrow> Inr (write_cell t' c v))"
  by (auto simp: setint_with_def set_with_def luaH_get_def split: option.split cell.split)

lemma reinsert_slice_nodes: "reinsert_slice nk t i vs = reinsert_nodes st nk t (slice_nodes i vs)"
proof (induction vs arbitrary: t i)
  case (Cons v vs)
  then show ?case
    by (simp add: setint_with_set [where st = st] split: sum.split)
qed simp

lemma reinsert_append:
  "reinsert_nodes st nk t (os @ os') =
    (case reinsert_nodes st nk t os of Inl e \<Rightarrow> Inl e | Inr t' \<Rightarrow> reinsert_nodes st nk t' os')"
  by (induction os arbitrary: t) (auto split: sum.split)

text \<open>What reinsertion makes of the value of a key.\<close>

definition overlay :: "strings \<Rightarrow> tvalue \<Rightarrow> tvalue \<Rightarrow> node list \<Rightarrow> tvalue" where
  "overlay st k v os = foldl (\<lambda>v n. if val n \<noteq> Nil_v \<and> luaV_rawequalobj st (key n) k then val n else v) v os"

lemma overlay_simps:
  "overlay st k v [] = v"
  "overlay st k v (n # os) =
     overlay st k (if val n \<noteq> Nil_v \<and> luaV_rawequalobj st (key n) k then val n else v) os"
  by (simp_all add: overlay_def)

text \<open>The nodes that need a place in the hash part.\<close>

definition hashed :: "nat \<Rightarrow> node \<Rightarrow> bool" where
  "hashed asize n \<longleftrightarrow> val n \<noteq> Nil_v \<and>
     (case key n of Int_v i \<Rightarrow> \<not> unat (i - 1) < asize | _ \<Rightarrow> True)"

lemma hashed_slot: "val n \<noteq> Nil_v \<Longrightarrow> hashed (sizearray t) n \<longleftrightarrow> array_slot t (key n) = None"
  by (simp add: hashed_def array_slot_def split: tvalue.split)

lemma reinsert_nodes_spec:
  assumes "strings_ok st seed"
  shows "table_ok st t \<Longrightarrow>
    (\<forall>n \<in> set os. val n \<noteq> Nil_v \<longrightarrow> proper (key n) \<and> key_typed st (key n)) \<Longrightarrow>
    used (nodes t) + length (filter (hashed (sizearray t)) os) \<le> (if isdummy t then 0 else sizenode t) \<Longrightarrow>
    \<exists>t'. reinsert_nodes st (newkey_with st nk) t os = Inr t' \<and> table_ok st t' \<and>
      sizearray t' = sizearray t \<and> sizenode t' = sizenode t \<and> isdummy t' = isdummy t \<and>
      used (nodes t') \<le> used (nodes t) + length (filter (hashed (sizearray t)) os) \<and>
      (\<forall>k. proper k \<longrightarrow> key_typed st k \<longrightarrow> lookup st t' k = overlay st k (lookup st t k) os)"
proof (induction os arbitrary: t)
  case Nil
  then show ?case by (auto simp: overlay_simps)
next
  case (Cons n os)
  show ?case
  proof (cases "val n = Nil_v")
    case True
    then have "\<not> hashed (sizearray t) n" by (simp add: hashed_def)
    with True Cons show ?thesis by (simp add: overlay_simps)
  next
    case False
    then have k: "proper (key n)" "key_typed st (key n)" using Cons.prems(2) by auto
    have room: "\<not> isdummy t \<and> used (nodes t) < sizenode t" if "array_slot t (key n) = None"
      using Cons.prems(3) that hashed_slot [OF False, of t] by (auto split: if_splits)
    have "\<exists>t1 c. set_with st (newkey_with st nk) t (key n) = Inr (t1, c) \<and>
        has_cell st t (key n) t1 c \<and> sizearray t1 = sizearray t \<and> sizenode t1 = sizenode t \<and>
        isdummy t1 = isdummy t \<and>
        used (nodes t1) \<le> used (nodes t) + (if array_slot t (key n) = None then 1 else 0)"
      by (rule set_with_room [OF assms Cons.prems(1) k]) (use room in blast)
    then obtain t1 c where t1: "set_with st (newkey_with st nk) t (key n) = Inr (t1, c)"
      "has_cell st t (key n) t1 c" "sizearray t1 = sizearray t" "sizenode t1 = sizenode t"
      "isdummy t1 = isdummy t"
      "used (nodes t1) \<le> used (nodes t) + (if array_slot t (key n) = None then 1 else 0)"
      by blast
    let ?t = "write_cell t1 c (val n)"
    note C = t1(2) [unfolded has_cell_def]
    have ok: "table_ok st ?t" using C cell_of_in [OF _ k(1)] by (intro table_ok_write) auto
    have used: "used (nodes ?t) = used (nodes t1)"
      using write_cell_simps(1) [of t1 c "val n"] by (simp add: used_def sizenode_def)
    have room': "used (nodes ?t) + length (filter (hashed (sizearray ?t)) os) \<le>
        (if isdummy ?t then 0 else sizenode ?t)"
      using Cons.prems(3) t1(3-6) used hashed_slot [OF False, of t] by (auto split: if_splits)
    obtain t' where t': "reinsert_nodes st (newkey_with st nk) ?t os = Inr t'" "table_ok st t'"
      "sizearray t' = sizearray ?t" "sizenode t' = sizenode ?t" "isdummy t' = isdummy ?t"
      "used (nodes t') \<le> used (nodes ?t) + length (filter (hashed (sizearray ?t)) os)"
      "\<And>k. proper k \<Longrightarrow> key_typed st k \<Longrightarrow> lookup st t' k = overlay st k (lookup st ?t k) os"
      using Cons.IH [OF ok _ room'] Cons.prems(2) by auto
    have "lookup st ?t k' =
        (if luaV_rawequalobj st (key n) k' then val n else lookup st t k')"
      if "proper k'" "key_typed st k'" for k'
      using lookup_write [of st t1 "key n" k' "val n"] C k(1) that by auto
    then show ?thesis
      using t1 t' used False hashed_slot [OF False, of t] by (auto simp: overlay_simps split: if_splits)
  qed
qed

lemma overlay_none:
  "(\<And>n. n \<in> set os \<Longrightarrow> val n \<noteq> Nil_v \<Longrightarrow> \<not> luaV_rawequalobj st (key n) k) \<Longrightarrow> overlay st k v os = v"
  by (induction os arbitrary: v) (auto simp: overlay_simps)

lemma overlay_matches:
  "(\<And>n. n \<in> set os \<Longrightarrow> val n \<noteq> Nil_v \<Longrightarrow> luaV_rawequalobj st (key n) k \<Longrightarrow> val n = w) \<Longrightarrow>
   v = w \<or> (\<exists>n \<in> set os. val n \<noteq> Nil_v \<and> luaV_rawequalobj st (key n) k) \<Longrightarrow> overlay st k v os = w"
proof (induction os arbitrary: v)
  case (Cons n os)
  let ?v = "if val n \<noteq> Nil_v \<and> luaV_rawequalobj st (key n) k then val n else v"
  have "overlay st k ?v os = w" using Cons.prems by (intro Cons.IH) auto
  then show ?case by (simp add: overlay_simps)
qed (simp add: overlay_simps)

lemma slice_nodes_nth:
  "n \<in> set (slice_nodes i vs) \<longleftrightarrow>
   (\<exists>j < length vs. n = \<lparr>val = vs ! j, key = Int_v (word_of_nat (i + j + 1)), nxt = 0\<rparr>)"
proof (induction vs arbitrary: i)
  case (Cons v vs)
  have "(\<exists>j < length (v # vs). n = \<lparr>val = (v # vs) ! j, key = Int_v (word_of_nat (i + j + 1)), nxt = 0\<rparr>) \<longleftrightarrow>
      n = \<lparr>val = v, key = Int_v (word_of_nat (i + 1)), nxt = 0\<rparr> \<or>
      (\<exists>j < length vs. n = \<lparr>val = vs ! j, key = Int_v (word_of_nat (i + 1 + j + 1)), nxt = 0\<rparr>)"
    by (auto simp: less_Suc_eq_0_disj)
  with Cons show ?case by simp
qed simp

text \<open>An integer key and its index in the array.\<close>

lemma int_key_index: "i < 2 ^ 63 \<Longrightarrow> unat ((word_of_nat (i + 1) :: lua_Integer) - 1) = i"
  by (simp add: unat_of_nat)

lemma rawequal_Int: "proper k \<Longrightarrow> luaV_rawequalobj st (Int_v a) k \<longleftrightarrow> k = Int_v a"
  by (cases k) (auto simp: luaV_rawequalobj_def proper_Flt)

lemma fresh_nodes:
  assumes "\<And>i. i < length ns \<Longrightarrow> ns ! i = \<lparr>val = Nil_v, key = Nil_v, nxt = 0\<rparr>"
  shows "nodes_ok H ns" "used ns = 0"
proof -
  have nx: "nx ns i = None" for i by (simp add: nx_def assms)
  then have "chain (nx ns) i [i]" for i by (rule chain.last)
  then have "linked ns" by (auto simp: linked_def nx)
  then show "nodes_ok H ns" by (intro nodes_okI) (auto simp: assms unlinked_def nx)
  show "used ns = 0" by (auto simp: used_def assms)
qed

text \<open>The table of \<open>luaH_resize\<close> before the first insertion.\<close>

definition fresh_table :: "table \<Rightarrow> nat \<Rightarrow> nat \<Rightarrow> table" where
  "fresh_table t nasize nhsize =
     \<lparr>array = take nasize (array t @ replicate (nasize - sizearray t) Nil_v),
      nodes = (if nhsize = 0 then [dummynode]
               else replicate (2 ^ luaO_ceillog2 nhsize) \<lparr>val = Nil_v, key = Nil_v, nxt = 0\<rparr>),
      isdummy = (nhsize = 0),
      lastfree = (if nhsize = 0 then 0 else 2 ^ luaO_ceillog2 nhsize)\<rparr>"

lemma fresh_table_sizes:
  "sizearray (fresh_table t a n) = a"
  "sizenode (fresh_table t a n) = (if n = 0 then 1 else 2 ^ luaO_ceillog2 n)"
  by (simp_all add: fresh_table_def sizearray_def sizenode_def)

lemma fresh_sizenode: "n \<le> 2 ^ MAXHBITS \<Longrightarrow> sizenode (fresh_table t a n) \<le> 2 * n + 1"
proof (cases "luaO_ceillog2 n")
  case (Suc c)
  assume n: "n \<le> 2 ^ MAXHBITS"
  have "n \<noteq> 0 \<Longrightarrow> \<not> n \<le> 2 ^ c"
    using ceillog2_bounds [of n] n Suc by (auto simp: MAXHBITS_def MAXABITS_def)
  then show ?thesis by (cases "n = 0") (simp_all add: fresh_table_sizes Suc)
qed (simp add: fresh_table_sizes)

lemma fresh_table_ok:
  assumes "a \<le> MAXASIZE" "n \<le> 2 ^ MAXHBITS"
  shows "table_ok st (fresh_table t a n)" "used (nodes (fresh_table t a n)) = 0"
    "n \<le> (if isdummy (fresh_table t a n) then 0 else sizenode (fresh_table t a n))"
proof -
  have nth: "nodes (fresh_table t a n) ! i = \<lparr>val = Nil_v, key = Nil_v, nxt = 0\<rparr>"
    if "i < length (nodes (fresh_table t a n))" for i
    using that by (simp add: fresh_table_def dummynode_def split: if_splits)
  have log: "n \<noteq> 0 \<Longrightarrow> n \<le> 2 ^ luaO_ceillog2 n \<and> luaO_ceillog2 n \<le> MAXHBITS"
  proof -
    assume "n \<noteq> 0"
    then show ?thesis
      using assms(2) ceillog2_bounds [of n] by (simp add: MAXHBITS_def MAXABITS_def)
  qed
  then have "\<exists>l \<le> MAXHBITS. sizenode (fresh_table t a n) = 2 ^ l"
    by (cases "n = 0") (auto simp: fresh_table_sizes intro: exI [of _ 0])
  then show "table_ok st (fresh_table t a n)"
    using fresh_nodes(1) [OF nth] assms(1) nth
    unfolding table_ok_def fresh_table_sizes(1)
    by (auto simp: fresh_table_def sizenode_def split: if_splits)
  show "used (nodes (fresh_table t a n)) = 0" by (rule fresh_nodes(2) [OF nth])
  show "n \<le> (if isdummy (fresh_table t a n) then 0 else sizenode (fresh_table t a n))"
    using log by (simp add: fresh_table_sizes) (simp add: fresh_table_def)
qed

lemma resize_fresh:
  assumes "n \<le> 2 ^ MAXHBITS"
  shows "resize_with st nk t a n =
    reinsert_nodes st nk (fresh_table t a n) (slice_nodes a (drop a (array t)) @ rev (nodes t))"
proof -
  have "n \<noteq> 0 \<Longrightarrow> luaO_ceillog2 n \<le> MAXHBITS"
    using assms ceillog2_bounds [of n] by (simp add: MAXHBITS_def MAXABITS_def)
  then have s: "setnodevector s n = Inr (s\<lparr>nodes := nodes (fresh_table t a n),
      isdummy := isdummy (fresh_table t a n), lastfree := lastfree (fresh_table t a n)\<rparr>)" for s
    by (cases "n = 0") (simp_all add: setnodevector_def fresh_table_def Let_def not_less)
  show ?thesis
  proof (cases "a < sizearray t")
    case True
    then have "t\<lparr>nodes := nodes (fresh_table t a n), isdummy := isdummy (fresh_table t a n),
      lastfree := lastfree (fresh_table t a n), array := take a (array t)\<rparr> = fresh_table t a n"
      by (simp add: fresh_table_def sizearray_def)
    with True show ?thesis
      by (simp add: resize_with_def Let_def s reinsert_append reinsert_slice_nodes [where st = st])
  next
    case False
    then have "(if a > sizearray t then setarrayvector t a else t)\<lparr>nodes :=
      nodes (fresh_table t a n), isdummy := isdummy (fresh_table t a n),
      lastfree := lastfree (fresh_table t a n)\<rparr> = fresh_table t a n"
      by (simp add: fresh_table_def sizearray_def setarrayvector_def)
    moreover have "drop a (array t) = []" using False by (simp add: sizearray_def)
    ultimately show ?thesis using False by (simp add: resize_with_def Let_def s)
  qed
qed

lemma lookup_fresh:
  assumes "a \<le> MAXASIZE" "n \<le> 2 ^ MAXHBITS" "proper k"
  shows "lookup st (fresh_table t a n) k =
    (case array_slot (fresh_table t a n) k of
       Some i \<Rightarrow> if i < sizearray t then array t ! i else Nil_v | None \<Rightarrow> Nil_v)"
proof (cases "array_slot (fresh_table t a n) k")
  case None
  have "live (nodes (fresh_table t a n)) = {}"
    by (auto simp: live_def fresh_table_def dummynode_def)
  then have "lookup st (fresh_table t a n) k = v \<Longrightarrow> v = Nil_v" for v
    using lookup_hash [OF fresh_table_ok(1) [OF assms(1,2)] assms(3) None] by blast
  then show ?thesis using None by simp
next
  case (Some i)
  then have "i < a"
    by (auto simp: array_slot_def fresh_table_sizes split: tvalue.splits if_splits)
  then show ?thesis
    using Some by (simp add: lookup_slot) (auto simp: fresh_table_def sizearray_def nth_append)
qed

text \<open>The pairs that resizing puts back, and that they are those of the table.\<close>

abbreviation old_nodes :: "table \<Rightarrow> nat \<Rightarrow> node list" where
  "old_nodes t a \<equiv> slice_nodes a (drop a (array t)) @ rev (nodes t)"

lemma old_node_slice:
  assumes "table_ok st t" "n \<in> set (slice_nodes a (drop a (array t)))"
  shows "\<exists>i < sizearray t. a \<le> i \<and> n = \<lparr>val = array t ! i, key = Int_v (word_of_nat (i + 1)), nxt = 0\<rparr> \<and>
    unat ((word_of_nat (i + 1) :: lua_Integer) - 1) = i"
proof -
  obtain j where j: "j < length (drop a (array t))"
    "n = \<lparr>val = drop a (array t) ! j, key = Int_v (word_of_nat (a + j + 1)), nxt = 0\<rparr>"
    using assms(2) unfolding slice_nodes_nth by blast
  then have i: "a + j < sizearray t" by (simp add: sizearray_def)
  moreover have "sizearray t < 2 ^ 63"
    using table_okD(7) [OF assms(1)] by (simp add: MAXASIZE_def MAXABITS_def)
  ultimately show ?thesis
    using j int_key_index [of "a + j"] by (intro exI [of _ "a + j"]) (simp add: sizearray_def)
qed

lemma old_node_value:
  assumes "table_ok st t" "proper k" "n \<in> set (old_nodes t a)" "val n \<noteq> Nil_v"
    "luaV_rawequalobj st (key n) k"
  shows "val n = lookup st t k"
proof (cases "n \<in> set (slice_nodes a (drop a (array t)))")
  case True
  then obtain i where i: "i < sizearray t" "n = \<lparr>val = array t ! i, key = Int_v (word_of_nat (i + 1)), nxt = 0\<rparr>"
    "unat ((word_of_nat (i + 1) :: lua_Integer) - 1) = i"
    using old_node_slice [OF assms(1)] by blast
  then have "k = Int_v (word_of_nat (i + 1))" using assms(5) rawequal_Int [OF assms(2)] by simp
  then have "array_slot t k = Some i" using i(1,3) by (simp add: array_slot_def)
  then show ?thesis using i(2) by (simp add: lookup_slot)
next
  case False
  then obtain i where i: "i < sizenode t" "n = nodes t ! i"
    using assms(3) by (auto simp: in_set_conv_nth sizenode_def)
  then have "find_node st t k = Some i" using find_node_Some [OF assms(1,2)] assms(5) by blast
  moreover have "array_slot t k = None"
  proof (rule ccontr)
    assume "array_slot t k \<noteq> None"
    then obtain j where j: "k = Int_v j" "unat (j - 1) < sizearray t"
      by (auto simp: array_slot_def split: tvalue.splits if_splits)
    have "proper (key n)" using rawequal_node_proper [OF assms(1,2) i(1)] assms(5) i(2) by simp
    then have "key n = Int_v j" using assms(5) j(1) by (simp add: rawequal_both)
    then show False using table_okD(6) [OF assms(1) i(1)] i(2) j(2) by blast
  qed
  ultimately show ?thesis using i(2) by (simp add: lookup_def cell_of_def to_cell_def read_cell_def)
qed

text \<open>A value that is not found in the fresh array is put back from an old node.\<close>

lemma old_node_exists:
  assumes "table_ok st t" "proper k" "lookup st t k \<noteq> Nil_v"
    and "\<And>i. array_slot t k = Some i \<Longrightarrow> a \<le> i"
  shows "\<exists>n \<in> set (old_nodes t a). val n \<noteq> Nil_v \<and> luaV_rawequalobj st (key n) k"
proof (cases "array_slot t k")
  case None
  then obtain q where "(q, lookup st t k) \<in> live (nodes t)" "luaV_rawequalobj st q k"
    using lookup_hash [OF assms(1,2) None assms(3)] by blast
  then show ?thesis by (auto simp: live_def)
next
  case (Some i)
  then obtain j where j: "k = Int_v j" "unat (j - 1) = i" "i < sizearray t"
    by (auto simp: array_slot_def split: tvalue.splits if_splits)
  have "word_of_nat (unat (j - 1) + 1) = j" by simp
  then have "word_of_nat (i + 1) = j" by (simp only: j(2))
  moreover have "a \<le> i" by (rule assms(4) [OF Some])
  ultimately have "\<lparr>val = array t ! i, key = k, nxt = 0\<rparr> \<in> set (slice_nodes a (drop a (array t)))"
    unfolding slice_nodes_nth using j by (intro exI [of _ "i - a"]) (simp add: sizearray_def)
  then show ?thesis
    using assms(2,3) Some rawequal_refl [of k st]
    by (intro bexI [of _ "\<lparr>val = array t ! i, key = k, nxt = 0\<rparr>"]) (auto simp: lookup_slot)
qed

lemma overlay_old:
  assumes "table_ok st t" "a \<le> MAXASIZE" "n \<le> 2 ^ MAXHBITS" "proper k"
  shows "overlay st k (lookup st (fresh_table t a n) k) (old_nodes t a) = lookup st t k"
proof (rule overlay_matches)
  show "val m = lookup st t k"
    if "m \<in> set (old_nodes t a)" "val m \<noteq> Nil_v" "luaV_rawequalobj st (key m) k" for m
    by (rule old_node_value [OF assms(1,4) that])
  show "lookup st (fresh_table t a n) k = lookup st t k \<or>
    (\<exists>m \<in> set (old_nodes t a). val m \<noteq> Nil_v \<and> luaV_rawequalobj st (key m) k)"
  proof (cases "\<exists>i. array_slot (fresh_table t a n) k = Some i \<and> i < sizearray t")
    case True
    then obtain i where i: "array_slot (fresh_table t a n) k = Some i" "i < sizearray t" by blast
    then have "array_slot t k = Some i"
      by (auto simp: array_slot_def split: tvalue.splits if_splits)
    then show ?thesis using i lookup_fresh [OF assms(2-4)] by (simp add: lookup_slot)
  next
    case False
    then have nil: "lookup st (fresh_table t a n) k = Nil_v"
      using lookup_fresh [OF assms(2-4)] by (auto split: option.splits)
    have "a \<le> i" if "array_slot t k = Some i" for i
      using False that by (auto simp: array_slot_def fresh_table_sizes split: tvalue.splits if_splits)
    then show ?thesis using old_node_exists [OF assms(1,4)] nil by metis
  qed
qed

lemma resize_spec:
  assumes "strings_ok st seed" "table_ok st t" "a \<le> MAXASIZE" "n \<le> 2 ^ MAXHBITS"
    and "length (filter (hashed a) (old_nodes t a)) \<le> n"
  shows "\<exists>t'. resize_with st (newkey_with st nk) t a n = Inr t' \<and> table_ok st t' \<and>
    sizearray t' = a \<and> sizenode t' \<le> 2 * n + 1 \<and> isdummy t' = (n = 0) \<and> n \<le> (if isdummy t' then 0 else sizenode t') \<and>
    used (nodes t') \<le> length (filter (hashed a) (old_nodes t a)) \<and>
    (\<forall>k. proper k \<longrightarrow> key_typed st k \<longrightarrow> lookup st t' k = lookup st t k)"
proof -
  let ?t = "fresh_table t a n" and ?os = "old_nodes t a"
  note F = fresh_table_ok [OF assms(3,4)]
  have dummy: "isdummy ?t = (n = 0)" by (simp add: fresh_table_def)
  have keys: "\<forall>m \<in> set ?os. val m \<noteq> Nil_v \<longrightarrow> proper (key m) \<and> key_typed st (key m)"
  proof (intro ballI impI)
    fix m
    assume m: "m \<in> set ?os" "val m \<noteq> Nil_v"
    show "proper (key m) \<and> key_typed st (key m)"
    proof (cases "m \<in> set (slice_nodes a (drop a (array t)))")
      case True
      then show ?thesis using old_node_slice [OF assms(2)] by (fastforce simp: key_typed_def)
    next
      case False
      then show ?thesis
        using m nodes_ok_live [OF table_okD(2) [OF assms(2)]] by (auto simp: in_set_conv_nth)
    qed
  qed
  have room: "used (nodes ?t) + length (filter (hashed (sizearray ?t)) ?os) \<le>
      (if isdummy ?t then 0 else sizenode ?t)"
    using F(2,3) [of t] assms(5) unfolding fresh_table_sizes(1) by linarith
  obtain t' where t': "reinsert_nodes st (newkey_with st nk) ?t ?os = Inr t'" "table_ok st t'"
    "sizearray t' = sizearray ?t" "sizenode t' = sizenode ?t" "isdummy t' = isdummy ?t"
    "used (nodes t') \<le> used (nodes ?t) + length (filter (hashed (sizearray ?t)) ?os)"
    "\<And>k. proper k \<Longrightarrow> key_typed st k \<Longrightarrow> lookup st t' k = overlay st k (lookup st ?t k) ?os"
    using reinsert_nodes_spec [OF assms(1) F(1) keys room, of nk] by blast
  have "lookup st t' k = lookup st t k" if "proper k" "key_typed st k" for k
    using t'(7) [OF that] overlay_old [OF assms(2-4) that(1)] by simp
  then show ?thesis
    using t' F(2,3) [of t] dummy resize_fresh [OF assms(4)] fresh_sizenode [OF assms(4), of t a]
    by (auto simp: fresh_table_sizes(1) split: if_splits)
qed

end
