(* ===== verification/LuaTableRehash.thy ===== *)
theory LuaTableRehash
  imports LuaTableMap
begin

text \<open>
  The rehash of a full table: the counts it takes, the sizes it chooses, and that the table it
  builds has room for every key, so that \<open>luaH_newkey\<close> calls itself at most once.
\<close>

section \<open>Counts by powers of two\<close>

definition below :: "nat list \<Rightarrow> nat \<Rightarrow> nat" where
  "below ks m = length (filter (\<lambda>k. k \<le> m) ks)"

definition array_keys :: "nat list \<Rightarrow> bool" where
  "array_keys ks \<longleftrightarrow> (\<forall>k \<in> set ks. 1 \<le> k \<and> k \<le> MAXASIZE)"

text \<open>\<open>nums[i]\<close> is the number of keys whose ceil of log2 is \<open>i\<close>.\<close>

definition counts :: "nat list \<Rightarrow> nat list \<Rightarrow> bool" where
  "counts nums ks \<longleftrightarrow> length nums = MAXABITS + 1 \<and> array_keys ks \<and>
     (\<forall>i \<le> MAXABITS. nums ! i = length (filter (\<lambda>k. luaO_ceillog2 k = i) ks))"

lemma log_le_iff:
  assumes "1 \<le> k" "k \<le> MAXASIZE"
  shows "luaO_ceillog2 k \<le> i \<longleftrightarrow> k \<le> 2 ^ i"
proof -
  have "k \<le> 2 ^ luaO_ceillog2 k" "\<And>j. k \<le> 2 ^ j \<Longrightarrow> luaO_ceillog2 k \<le> j"
    using ceillog2_bounds [of k] assms by (auto simp: MAXASIZE_def MAXABITS_def)
  then show ?thesis
    using power_increasing [of "luaO_ceillog2 k" i "2 :: nat"] by (auto intro: order_trans)
qed

lemma filter_or:
  "(\<And>x. \<not> (P x \<and> Q x)) \<Longrightarrow>
   length (filter (\<lambda>x. P x \<or> Q x) xs) = length (filter P xs) + length (filter Q xs)"
  by (induction xs) auto

lemma filter_not: "length (filter (\<lambda>x. \<not> P x) xs) = length xs - length (filter P xs)"
  using sum_length_filter_compl [of P xs] by simp

lemma below_split:
  assumes "array_keys ks"
  shows "below ks (2 ^ i) =
    length (filter (\<lambda>k. luaO_ceillog2 k < i) ks) + length (filter (\<lambda>k. luaO_ceillog2 k = i) ks)"
proof -
  have "filter (\<lambda>k. k \<le> 2 ^ i) ks = filter (\<lambda>k. luaO_ceillog2 k < i \<or> luaO_ceillog2 k = i) ks"
    using assms log_le_iff by (intro filter_cong) (auto simp: array_keys_def le_less)
  then show ?thesis by (simp add: below_def filter_or)
qed

lemma filter_log_less:
  assumes "array_keys ks"
  shows "length (filter (\<lambda>k. luaO_ceillog2 k < Suc i) ks) = below ks (2 ^ i)"
  by (simp add: below_split [OF assms] less_Suc_eq filter_or)

lemma below_distinct: "distinct ks \<Longrightarrow> array_keys ks \<Longrightarrow> below ks m \<le> m"
proof -
  assume "distinct ks" "array_keys ks"
  then have "below ks m = card {k \<in> set ks. k \<le> m}"
    by (metis below_def distinct_card distinct_filter set_filter)
  also have "\<dots> \<le> card {1..m}"
    using \<open>array_keys ks\<close> by (intro card_mono) (auto simp: array_keys_def)
  finally show ?thesis by simp
qed

lemma below_le: "below ks m \<le> length ks"
  by (simp add: below_def)

lemma below_append: "below (ks @ ks') m = below ks m + below ks' m"
  by (simp add: below_def)

section \<open>The optimal size of the array\<close>

text \<open>What \<open>computesizes\<close> has found when it has looked at the powers of two below \<open>i\<close>.\<close>

definition best :: "nat list \<Rightarrow> nat \<Rightarrow> nat \<Rightarrow> nat \<Rightarrow> bool" where
  "best ks i optimal na \<longleftrightarrow>
     na = below ks optimal \<and> (optimal = 0 \<or> (\<exists>j < i. optimal = 2 ^ j \<and> 2 ^ j div 2 < na)) \<and>
     (distinct ks \<longrightarrow> (\<forall>j < i. 2 ^ j div 2 < below ks (2 ^ j) \<longrightarrow> 2 ^ j \<le> optimal))"

lemma best_step:
  assumes "counts nums ks" "i \<le> MAXABITS" "best ks i optimal na"
  shows "best ks (Suc i)
    (if nums ! i > 0 \<and> below ks (2 ^ i) > 2 ^ i div 2 then 2 ^ i else optimal)
    (if nums ! i > 0 \<and> below ks (2 ^ i) > 2 ^ i div 2 then below ks (2 ^ i) else na)"
proof (cases "nums ! i > 0 \<and> below ks (2 ^ i) > 2 ^ i div 2")
  case True
  have "2 ^ j \<le> (2 :: nat) ^ i" if "j < Suc i" for j
    using that by (intro power_increasing) simp_all
  then show ?thesis using True by (auto simp: best_def)
next
  case False
  have "\<not> 2 ^ i div 2 < below ks (2 ^ i)" if d: "distinct ks"
  proof
    assume big: "2 ^ i div 2 < below ks (2 ^ i)"
    with False have none: "nums ! i = 0" by simp
    have ks: "array_keys ks" using assms(1) by (simp add: counts_def)
    have eq: "below ks (2 ^ i) = length (filter (\<lambda>k. luaO_ceillog2 k < i) ks)"
      using below_split [OF ks, of i] none assms(1,2) by (simp add: counts_def)
    show False
    proof (cases i)
      case 0
      with eq big show False by simp
    next
      case (Suc j)
      then have "below ks (2 ^ i) = below ks (2 ^ j)" using eq filter_log_less [OF ks, of j] by simp
      also have "\<dots> \<le> 2 ^ j" by (rule below_distinct [OF d ks])
      finally show False using big Suc by simp
    qed
  qed
  with False assms(3) show ?thesis
    by (auto simp: best_def less_Suc_eq)
qed

lemma computesizes_loop_spec:
  assumes "counts nums ks" "length ks \<le> 2 ^ 30" "i \<le> MAXABITS"
    and "a = length (filter (\<lambda>k. luaO_ceillog2 k < i) ks)" "best ks i optimal na"
  shows "\<exists>optimal' na' j. computesizes_loop nums (length ks) i (2 ^ i) a na optimal = Some (optimal', na') \<and>
    j \<le> MAXABITS \<and> length ks \<le> 2 ^ j div 2 \<and> best ks j optimal' na'"
  using assms(3-5)
proof (induction "MAXABITS - i" arbitrary: i a na optimal)
  case 0
  then have "i = 31" by (simp add: MAXABITS_def)
  then show ?case using 0 assms(2) by (subst computesizes_loop.simps) (auto simp: MAXABITS_def)
next
  case (Suc d)
  show ?case
  proof (cases "length ks > 2 ^ i div 2")
    case False
    then show ?thesis using Suc.prems by (subst computesizes_loop.simps) (auto simp: not_less)
  next
    case True
    have i: "i < MAXABITS" using Suc.hyps(2) by simp
    have len: "length nums = MAXABITS + 1" and ks: "array_keys ks"
      and num: "nums ! i = length (filter (\<lambda>k. luaO_ceillog2 k = i) ks)"
      using assms(1) i by (simp_all add: counts_def)
    have a: "a + nums ! i = below ks (2 ^ i)"
      using below_split [OF ks, of i] Suc.prems(2) num by simp
    have "(2 :: nat) ^ Suc i \<le> 2 ^ 31"
      using i by (intro power_increasing) (simp_all add: MAXABITS_def)
    then have two: "2 ^ i * 2 mod 2 ^ 32 = (2 :: nat) ^ Suc i" by simp
    let ?better = "nums ! i > 0 \<and> below ks (2 ^ i) > 2 ^ i div 2"
    have next': "computesizes_loop nums (length ks) i (2 ^ i) a na optimal =
        computesizes_loop nums (length ks) (Suc i) (2 ^ Suc i) (below ks (2 ^ i))
          (if ?better then below ks (2 ^ i) else na) (if ?better then 2 ^ i else optimal)"
      unfolding computesizes_loop.simps [of nums "length ks" i] Let_def a two
      using True i len by simp
    show ?thesis
      unfolding next'
      by (rule Suc.hyps(1)) (use Suc.hyps(2) i filter_log_less [OF ks] best_step [OF assms(1) _ Suc.prems(3)]
        in \<open>simp_all\<close>)
  qed
qed

lemma computesizes_spec:
  assumes "counts nums ks" "length ks \<le> 2 ^ 30"
  shows "\<exists>optimal na. computesizes nums (length ks) = Some (optimal, na) \<and> optimal \<le> 2 ^ 30 \<and>
    na = below ks optimal \<and> (optimal = 0 \<or> (\<exists>j. optimal = 2 ^ j \<and> optimal div 2 < na)) \<and>
    (distinct ks \<longrightarrow> (\<forall>j. 2 ^ j div 2 < below ks (2 ^ j) \<longrightarrow> 2 ^ j \<le> optimal))"
proof -
  have "best ks 0 0 0"
    using assms(1) by (auto simp: best_def below_def counts_def array_keys_def filter_empty_conv)
  then obtain optimal na j where o: "computesizes nums (length ks) = Some (optimal, na)"
    "j \<le> MAXABITS" "length ks \<le> 2 ^ j div 2" "best ks j optimal na"
    using computesizes_loop_spec [OF assms, of 0 0 0 0] by (auto simp: computesizes_def)
  have small: "2 ^ i \<le> optimal" if "distinct ks" "2 ^ i div 2 < below ks (2 ^ i)" for i
  proof (cases "i < j")
    case True
    then show ?thesis using o(4) that by (simp add: best_def)
  next
    case False
    then have "(2 :: nat) ^ j div 2 \<le> 2 ^ i div 2" by (intro div_le_mono power_increasing) simp_all
    then show ?thesis using that(2) below_le [of ks "2 ^ i"] o(3) by linarith
  qed
  have "optimal \<le> 2 ^ 30"
  proof (cases "optimal = 0")
    case False
    then obtain i where "i < j" "optimal = 2 ^ i" using o(4) by (auto simp: best_def)
    moreover have "(2 :: nat) ^ i \<le> 2 ^ 30"
      using o(2) \<open>i < j\<close> by (intro power_increasing) (simp_all add: MAXABITS_def)
    ultimately show ?thesis by simp
  qed simp
  then show ?thesis using o small by (auto simp: best_def)
qed

text \<open>C24: The size \<open>computesizes\<close> chooses for the array part is the best one: with at most 2 to the 30
  distinct integer keys, it is zero or a power of two of which more than half the slots will be in
  use, no larger power of two is more than half used, and the count it returns is that of the keys
  that fit.\<close>

theorem computesizes_optimal:
  assumes "counts nums ks" "distinct ks" "length ks \<le> 2 ^ 30"
  shows "\<exists>optimal. computesizes nums (length ks) = Some (optimal, below ks optimal) \<and>
    (optimal = 0 \<or> (\<exists>j. optimal = 2 ^ j \<and> optimal div 2 < below ks optimal)) \<and>
    (\<forall>j. 2 ^ j div 2 < below ks (2 ^ j) \<longrightarrow> 2 ^ j \<le> optimal)"
  using computesizes_spec [OF assms(1,3)] assms(2) by auto

text \<open>Keys 1, 2, 3 and 100: four slots of which three are used.\<close>

lemma counts_example: "counts ([1, 1, 1, 0, 0, 0, 0, 1] @ replicate 24 0) [1, 2, 3, 100]"
proof -
  have logs: "luaO_ceillog2 1 = 0" "luaO_ceillog2 2 = 1" "luaO_ceillog2 3 = 2" "luaO_ceillog2 100 = 7"
    using log_le_iff [of 1 0] log_le_iff [of 2 1] log_le_iff [of 2 0] log_le_iff [of 3 2]
      log_le_iff [of 3 1] log_le_iff [of 100 7] log_le_iff [of 100 6]
    by (simp_all add: MAXASIZE_def MAXABITS_def)
  have "([1, 1, 1, 0, 0, 0, 0, 1] @ replicate 24 (0 :: nat)) ! i =
      length (filter (\<lambda>k. luaO_ceillog2 k = i) [1, 2, 3, 100])" if "i \<le> MAXABITS" for i
  proof -
    have "i < 8 \<or> 8 \<le> i \<and> i < 32" using that by (auto simp: MAXABITS_def)
    then consider "i < 8" | "8 \<le> i" "i < 32" by blast
    then show ?thesis
    proof cases
      case 1
      then have "i \<in> {0, 1, 2, 3, 4, 5, 6, 7}" by auto
      then show ?thesis by (auto simp: logs simp flip: One_nat_def)
    next
      case 2
      then show ?thesis by (simp add: nth_append logs flip: One_nat_def)
    qed
  qed
  then show ?thesis by (simp add: counts_def array_keys_def MAXABITS_def MAXASIZE_def)
qed

theorem computesizes_optimal_witness:
  "\<exists>optimal. computesizes ([1, 1, 1, 0, 0, 0, 0, 1] @ replicate 24 0) 4 = Some (optimal, below [1, 2, 3, 100] optimal) \<and>
     4 \<le> optimal"
proof -
  let ?ks = "[1, 2, 3, 100] :: nat list"
  have "distinct ?ks" "length ?ks \<le> 2 ^ 30" by simp_all
  from computesizes_optimal [OF counts_example this] obtain optimal
    where o: "computesizes ([1, 1, 1, 0, 0, 0, 0, 1] @ replicate 24 0) (length ?ks) = Some (optimal, below ?ks optimal)"
      "\<forall>j. 2 ^ j div 2 < below ?ks (2 ^ j) \<longrightarrow> 2 ^ j \<le> optimal" by blast
  have len: "length ?ks = 4" by simp
  have "below ?ks (2 ^ 2) = 3" by (simp add: below_def)
  then have "4 \<le> optimal" using o(2) [rule_format, of 2] by simp
  with o(1) [unfolded len] show ?thesis by blast
qed

text \<open>C25: With more than 2 to the 30 integer keys the loop of \<open>computesizes\<close> does not stop: \<open>twotoi\<close>
  wraps to zero after 32 doublings, and the loop reads the count array past its end.\<close>

theorem computesizes_overrun:
  assumes "length nums = MAXABITS + 1" "2 ^ 30 < pna"
  shows "computesizes nums pna = None"
proof -
  have "computesizes_loop nums pna i (2 ^ i mod 2 ^ 32) a na optimal = None" if "i \<le> 32" for i a na optimal
    using that
  proof (induction "32 - i" arbitrary: i a na optimal)
    case 0
    then have "i = 32" by simp
    then show ?case using assms by (subst computesizes_loop.simps) (simp add: MAXABITS_def)
  next
    case (Suc d)
    then have "(2 :: nat) ^ i \<le> 2 ^ 31" by (intro power_increasing) simp_all
    then have more: "pna > 2 ^ i mod 2 ^ 32 div 2"
      using assms(2) by simp
    have two: "2 ^ i mod 2 ^ 32 * 2 mod 2 ^ 32 = (2 :: nat) ^ Suc i mod 2 ^ 32"
      by (simp only: power_Suc2 mod_mult_left_eq)
    have "length nums > i" using Suc.hyps(2) assms(1) by (simp add: MAXABITS_def)
    then show ?case
      unfolding computesizes_loop.simps [of nums pna i] Let_def two
      using more Suc.hyps(1) [of "Suc i"] Suc.hyps(2) by simp
  qed
  from this [of 0] show ?thesis by (simp add: computesizes_def)
qed

theorem computesizes_overrun_witness: "computesizes (replicate 32 1) (2 ^ 30 + 1) = None"
  using computesizes_overrun [of "replicate 32 1" "2 ^ 30 + 1"] by (simp add: MAXABITS_def)

section \<open>Counting the keys of a table\<close>

lemma counts_add_list:
  assumes "counts nums ks" "lg \<le> MAXABITS" "\<forall>k \<in> set ks'. 1 \<le> k \<and> k \<le> MAXASIZE \<and> luaO_ceillog2 k = lg"
  shows "counts (nums[lg := nums ! lg + length ks']) (ks @ ks')"
proof -
  have "filter (\<lambda>k. luaO_ceillog2 k = i) ks' = (if i = lg then ks' else [])" for i
    using assms(3) by (auto simp: filter_empty_conv filter_id_conv)
  then show ?thesis
    using assms by (auto simp: counts_def array_keys_def nth_list_update)
qed

lemma log_le_max: "1 \<le> k \<Longrightarrow> k \<le> MAXASIZE \<Longrightarrow> luaO_ceillog2 k \<le> MAXABITS"
  by (simp add: log_le_iff MAXASIZE_def)

lemma counts_add:
  assumes "counts nums ks" "1 \<le> k" "k \<le> MAXASIZE"
  shows "counts (nums[luaO_ceillog2 k := nums ! luaO_ceillog2 k + 1]) (ks @ [k])"
  using counts_add_list [OF assms(1) log_le_max [OF assms(2,3)], of "[k]"] assms(2,3) by simp

lemma arrayindex_range: "arrayindex k \<noteq> 0 \<Longrightarrow> 1 \<le> arrayindex k \<and> arrayindex k \<le> MAXASIZE"
  by (auto simp: arrayindex_def split: tvalue.splits if_splits)

definition index_list :: "tvalue \<Rightarrow> nat list" where
  "index_list k = (if arrayindex k \<noteq> 0 then [arrayindex k] else [])"

lemma countint_counts:
  assumes "counts nums ks"
  shows "\<exists>nums'. countint k nums = (nums', length (index_list k)) \<and> counts nums' (ks @ index_list k)"
  using counts_add [OF assms] arrayindex_range [of k] assms
  by (auto simp: countint_def index_list_def Let_def)

lemma length_index_list: "length (index_list k) \<le> 1"
  by (simp add: index_list_def)

text \<open>The array part, slice by slice.\<close>

definition used_index :: "tvalue list \<Rightarrow> nat \<Rightarrow> bool" where
  "used_index arr p \<longleftrightarrow> arr ! (p - 1) \<noteq> Nil_v"

lemma count_slice_spec:
  "count_slice arr i lim lc = (max i (lim + 1), lc + length (filter (used_index arr) [i..<lim + 1]))"
proof (induction arr i lim lc rule: count_slice.induct)
  case (1 arr i lim lc)
  show ?case
  proof (cases "i \<le> lim")
    case True
    then have "[i..<lim + 1] = i # [i + 1..<lim + 1]" by (simp add: upt_conv_Cons)
    then show ?thesis
      using 1 True by (simp add: count_slice.simps [of arr i] used_index_def)
  next
    case False
    then show ?thesis by (simp add: count_slice.simps [of arr i])
  qed
qed

definition array_indices :: "tvalue list \<Rightarrow> nat list" where
  "array_indices arr = filter (used_index arr) [1..<length arr + 1]"

text \<open>The first index of slice \<open>lg\<close>, and the logarithms of the slice.\<close>

definition slice_start :: "tvalue list \<Rightarrow> nat \<Rightarrow> nat" where
  "slice_start arr lg = (if lg = 0 then 1 else min (2 ^ (lg - 1)) (length arr) + 1)"

lemma slice_start_le: "slice_start arr lg \<le> min (2 ^ lg) (length arr) + 1"
proof (cases lg)
  case (Suc j)
  have "(2 :: nat) ^ j \<le> 2 ^ lg" using Suc by (intro power_increasing) simp_all
  then show ?thesis using Suc by (simp add: slice_start_def min_le_iff_disj)
qed (simp add: slice_start_def)

lemma slice_log:
  assumes "length arr \<le> MAXASIZE" "slice_start arr lg \<le> k" "k \<le> min (2 ^ lg) (length arr)"
  shows "1 \<le> k \<and> k \<le> MAXASIZE \<and> luaO_ceillog2 k = lg"
proof -
  have k: "1 \<le> k" "k \<le> MAXASIZE" using assms by (auto simp: slice_start_def split: if_splits)
  have "luaO_ceillog2 k \<le> lg" using log_le_iff [OF k] assms(3) by simp
  moreover have "lg \<le> luaO_ceillog2 k"
  proof (cases lg)
    case (Suc j)
    then have "\<not> k \<le> 2 ^ j" using assms(2,3) by (auto simp: slice_start_def)
    then show ?thesis using log_le_iff [OF k, of j] Suc by simp
  qed simp
  ultimately show ?thesis using k by simp
qed

lemma numusearray_loop_spec:
  assumes "length arr \<le> MAXASIZE"
  shows "lg \<le> MAXABITS + 1 \<Longrightarrow> i = slice_start arr lg \<Longrightarrow>
    counts nums (filter (used_index arr) [1..<i]) \<Longrightarrow>
    \<exists>nums'. numusearray_loop arr lg (2 ^ lg) i nums (length (filter (used_index arr) [1..<i])) =
        (nums', length (array_indices arr)) \<and> counts nums' (array_indices arr)"
proof (induction "MAXABITS + 1 - lg" arbitrary: lg i nums)
  case 0
  then have lg: "lg = MAXABITS + 1" by simp
  then have "i = length arr + 1" using 0 assms by (simp add: slice_start_def MAXASIZE_def)
  then show ?case using 0 lg by (subst numusearray_loop.simps) (simp add: array_indices_def)
next
  case (Suc d)
  then have lg: "lg \<le> MAXABITS" by simp
  let ?lim = "min (2 ^ lg) (length arr)"
  show ?case
  proof (cases "2 ^ lg > length arr \<and> i > length arr")
    case True
    then have "i = length arr + 1" using Suc.prems(2) by (auto simp: slice_start_def split: if_splits)
    then show ?thesis
      using Suc.prems True lg by (subst numusearray_loop.simps) (simp add: array_indices_def)
  next
    case False
    let ?new = "filter (used_index arr) [i..<?lim + 1]"
    have i: "1 \<le> i" "i \<le> ?lim + 1"
      using Suc.prems(2) slice_start_le [of arr lg] by (simp_all add: slice_start_def)
    have slice: "count_slice arr i ?lim 0 = (?lim + 1, length ?new)"
      using i by (simp add: count_slice_spec max_def)
    have "[1..<?lim + 1] = [1..<i] @ [i..<?lim + 1]"
      using upt_add_eq_append [OF i(1), of "?lim + 1 - i"] i(2) by simp
    then have join: "filter (used_index arr) [1..<?lim + 1] = filter (used_index arr) [1..<i] @ ?new"
      by simp
    have "1 \<le> k \<and> k \<le> MAXASIZE \<and> luaO_ceillog2 k = lg" if "k \<in> set ?new" for k
      using that Suc.prems(2) by (intro slice_log [OF assms]) auto
    then have cnt: "counts (nums[lg := nums ! lg + length ?new]) (filter (used_index arr) [1..<?lim + 1])"
      unfolding join using lg by (intro counts_add_list Suc.prems(3)) auto
    have start: "?lim + 1 = slice_start arr (Suc lg)" by (simp add: slice_start_def)
    have "numusearray_loop arr lg (2 ^ lg) i nums (length (filter (used_index arr) [1..<i])) =
        numusearray_loop arr (Suc lg) (2 ^ Suc lg) (?lim + 1) (nums[lg := nums ! lg + length ?new])
          (length (filter (used_index arr) [1..<?lim + 1]))"
      unfolding numusearray_loop.simps [of arr lg] slice Let_def prod.case join length_append
      by (simp only: lg False if_True if_False) (simp add: mult.commute)
    then show ?thesis
      using Suc.hyps(1) [OF _ _ start cnt] Suc.hyps(2) lg by simp
  qed
qed

lemma counts_zero: "counts (replicate (MAXABITS + 1) 0) []"
  by (simp add: counts_def array_keys_def del: replicate_Suc replicate_0)

lemma numusearray_spec:
  assumes "sizearray t \<le> MAXASIZE"
  shows "\<exists>nums. numusearray t (replicate (MAXABITS + 1) 0) = (nums, length (array_indices (array t))) \<and>
    counts nums (array_indices (array t))"
  using numusearray_loop_spec [of "array t" 0 1] assms counts_zero
  by (simp add: numusearray_def sizearray_def slice_start_def)

text \<open>The hash part.\<close>

definition live_nodes :: "node list \<Rightarrow> node list" where
  "live_nodes ns = filter (\<lambda>n. val n \<noteq> Nil_v) ns"

definition hash_indices :: "node list \<Rightarrow> nat list" where
  "hash_indices ns = concat (map (\<lambda>n. index_list (key n)) (live_nodes (rev ns)))"

lemma numusehash_loop_spec:
  "i \<le> length ns \<Longrightarrow> counts nums ks \<Longrightarrow>
   \<exists>nums'. numusehash_loop ns i nums ause tot =
       (nums', ause + length (hash_indices (take i ns)), tot + length (live_nodes (take i ns))) \<and>
     counts nums' (ks @ hash_indices (take i ns))"
proof (induction i arbitrary: nums ks ause tot)
  case 0
  then show ?case by (simp add: hash_indices_def live_nodes_def)
next
  case (Suc i)
  have take: "take (Suc i) ns = take i ns @ [ns ! i]" using Suc.prems(1) by (simp add: take_Suc_conv_app_nth)
  show ?case
  proof (cases "val (ns ! i) = Nil_v")
    case True
    then show ?thesis
      using Suc.IH [OF _ Suc.prems(2)] Suc.prems(1) by (simp add: take hash_indices_def live_nodes_def)
  next
    case False
    obtain nums1 where n1: "countint (key (ns ! i)) nums = (nums1, length (index_list (key (ns ! i))))"
      "counts nums1 (ks @ index_list (key (ns ! i)))"
      using countint_counts [OF Suc.prems(2)] by blast
    then show ?thesis
      using Suc.IH [OF _ n1(2), of "ause + length (index_list (key (ns ! i)))" "tot + 1"]
        Suc.prems(1) False n1(1)
      by (auto simp: take hash_indices_def live_nodes_def add.assoc)
  qed
qed

lemma numusehash_spec:
  assumes "counts nums ks"
  shows "\<exists>nums'. numusehash t nums na =
      (nums', na + length (hash_indices (nodes t)), length (live_nodes (nodes t))) \<and>
    counts nums' (ks @ hash_indices (nodes t))"
  using numusehash_loop_spec [OF _ assms, of "sizenode t" "nodes t" 0 0]
  by (auto simp: numusehash_def sizenode_def)

section \<open>Room after a rehash\<close>

text \<open>The integer keys of a table and of the key to come.\<close>

definition all_indices :: "table \<Rightarrow> tvalue \<Rightarrow> nat list" where
  "all_indices t ek = array_indices (array t) @ hash_indices (nodes t) @ index_list ek"

lemma int_slot:
  assumes "a \<le> MAXASIZE"
  shows "0 <s i \<and> unat i \<le> a \<longleftrightarrow> unat (i - 1 :: lua_Integer) < a"
proof (cases "i = 0")
  case True
  have "unat (- 1 :: lua_Integer) = 2 ^ 64 - 1" by (simp add: unsigned_minus_1_eq_mask mask_eq_exp_minus_1)
  then show ?thesis using True assms by (simp add: MAXASIZE_def MAXABITS_def)
next
  case False
  then have pos: "0 < unat i" by (simp add: unat_gt_0)
  have pred: "unat (i - 1) = unat i - 1" using False by (simp add: unat_minus_one)
  have "0 <s i" if "unat i \<le> a"
  proof -
    have "unat i \<le> 2 ^ 31" using that assms by (simp add: MAXASIZE_def MAXABITS_def)
    then have "int (unat i) \<le> int (2 ^ 31)" by (simp only: of_nat_le_iff)
    then have "uint i < 2 ^ 63" unfolding uint_nat by simp
    then have "sint i = uint i" using sint_cases [of i] by auto
    moreover have "0 < uint i" using pos unfolding uint_nat by (simp only: of_nat_0_less_iff)
    ultimately show ?thesis by (simp add: word_sless_alt)
  qed
  then show ?thesis using pos pred by auto
qed

lemma index_list_below:
  assumes "a \<le> MAXASIZE"
  shows "below (index_list k) a + (case k of Int_v i \<Rightarrow> if unat (i - 1) < a then 0 else 1 | _ \<Rightarrow> 1) = 1"
proof (cases k)
  case (Int_v i)
  show ?thesis
    using int_slot [OF assms, of i] int_slot [of MAXASIZE i] assms
    by (cases "i = 0") (auto simp: Int_v index_list_def arrayindex_def below_def unat_eq_0)
qed (simp_all add: index_list_def arrayindex_def below_def)

lemma hashed_below:
  assumes "a \<le> MAXASIZE" "val n \<noteq> Nil_v"
  shows "(if hashed a n then 1 else 0) + below (index_list (key n)) a = 1"
  using index_list_below [OF assms(1), of "key n"] assms(2)
  by (cases "key n") (simp_all add: hashed_def split: if_splits)

lemma hashed_nodes_count:
  assumes "a \<le> MAXASIZE"
  shows "length (filter (hashed a) ns) + below (concat (map (\<lambda>n. index_list (key n)) (live_nodes ns))) a =
    length (live_nodes ns)"
proof (induction ns)
  case (Cons n ns)
  show ?case
  proof (cases "val n = Nil_v")
    case True
    then show ?thesis using Cons by (simp add: live_nodes_def hashed_def)
  next
    case False
    then show ?thesis
      using Cons hashed_below [OF assms False] by (simp add: live_nodes_def below_append split: if_splits)
  qed
qed (simp add: live_nodes_def below_def)

lemma live_nodes_rev: "length (live_nodes (rev ns)) = length (live_nodes ns)"
  by (simp add: live_nodes_def flip: rev_filter)

lemma filter_hashed_slice:
  "a \<le> i \<Longrightarrow> i + length vs \<le> MAXASIZE \<Longrightarrow>
   length (filter (hashed a) (slice_nodes i vs)) = length (filter (\<lambda>v. v \<noteq> Nil_v) vs)"
proof (induction vs arbitrary: i)
  case (Cons v vs)
  have "unat ((word_of_nat (i + 1) :: lua_Integer) - 1) = i"
    using Cons.prems by (intro int_key_index) (simp add: MAXASIZE_def MAXABITS_def)
  then have "hashed a \<lparr>val = v, key = Int_v (word_of_nat (i + 1)), nxt = 0\<rparr> \<longleftrightarrow> v \<noteq> Nil_v"
    using Cons.prems by (simp add: hashed_def)
  then show ?case using Cons.IH [of "i + 1"] Cons.prems by simp
qed simp

lemma used_above:
  "length (filter (used_index arr) [a + 1..<length arr + 1]) = length (filter (\<lambda>v. v \<noteq> Nil_v) (drop a arr))"
proof -
  have "drop a arr = map (\<lambda>p. arr ! (p - 1)) [a + 1..<length arr + 1]"
    by (rule nth_equalityI) (auto simp del: upt_Suc)
  then show ?thesis
    by (simp add: filter_map comp_def used_index_def [abs_def] del: upt_Suc)
qed

lemma hashed_slice_count:
  assumes "length arr \<le> MAXASIZE"
  shows "length (filter (hashed a) (slice_nodes a (drop a arr))) + below (array_indices arr) a =
    length (array_indices arr)"
proof (cases "a \<le> length arr")
  case True
  have "[1..<length arr + 1] = [1..<a + 1] @ [a + 1..<length arr + 1]"
    using upt_add_eq_append [of 1 "a + 1" "length arr - a"] True by simp
  then have split: "array_indices arr =
      filter (used_index arr) [1..<a + 1] @ filter (used_index arr) [a + 1..<length arr + 1]"
    by (simp add: array_indices_def)
  have "filter (\<lambda>k. k \<le> a) (filter (used_index arr) [a + 1..<length arr + 1]) = []"
    "filter (\<lambda>k. k \<le> a) (filter (used_index arr) [1..<a + 1]) = filter (used_index arr) [1..<a + 1]"
    by (auto simp: filter_empty_conv intro!: filter_cong simp del: upt_Suc)
  then have "below (array_indices arr) a = length (filter (used_index arr) [1..<a + 1])"
    unfolding below_def split filter_append by simp
  then show ?thesis
    using filter_hashed_slice [of a a "drop a arr"] used_above [of arr a] assms True
    by (simp add: split)
next
  case False
  then have "filter (\<lambda>k. k \<le> a) (array_indices arr) = array_indices arr"
    by (auto simp: array_indices_def intro!: filter_cong)
  then show ?thesis using False by (simp add: below_def)
qed

text \<open>The old nodes that will be hashed, the new key, and the keys that go to the array.\<close>

lemma room_count:
  assumes "sizearray t \<le> MAXASIZE" "a \<le> MAXASIZE"
  shows "length (filter (hashed a) (old_nodes t a)) + below (all_indices t ek) a +
      (case ek of Int_v i \<Rightarrow> if unat (i - 1) < a then 0 else 1 | _ \<Rightarrow> 1) =
    length (array_indices (array t)) + length (live_nodes (nodes t)) + 1"
  using hashed_nodes_count [OF assms(2), of "rev (nodes t)"] index_list_below [OF assms(2), of ek]
    hashed_slice_count [of "array t" a] assms(1)
  by (simp add: all_indices_def below_append hash_indices_def live_nodes_rev sizearray_def)

lemma length_array_indices: "length (array_indices arr) \<le> length arr"
  using length_filter_le [of "used_index arr" "[1..<length arr + 1]"] by (simp add: array_indices_def del: upt_Suc)

lemma length_hash_indices: "length (hash_indices ns) \<le> length (live_nodes ns)"
proof -
  have "length (concat (map (\<lambda>n. index_list (key n)) ms)) \<le> length ms" for ms
    by (induction ms) (auto simp: index_list_def)
  then show ?thesis unfolding hash_indices_def by (metis live_nodes_rev)
qed

lemma length_live_nodes: "length (live_nodes ns) \<le> length ns"
  by (simp add: live_nodes_def)

text \<open>Whether a table has room for a key that it does not have.\<close>

definition room_for :: "table \<Rightarrow> tvalue \<Rightarrow> bool" where
  "room_for t k \<longleftrightarrow> (array_slot t k = None \<longrightarrow> \<not> isdummy t \<and> used (nodes t) < sizenode t)"

definition same_map :: "strings \<Rightarrow> table \<Rightarrow> table \<Rightarrow> bool" where
  "same_map st t t' \<longleftrightarrow> (\<forall>k. proper k \<longrightarrow> key_typed st k \<longrightarrow> lookup st t' k = lookup st t k)"

text \<open>The number of entries of a table.\<close>

definition filled :: "table \<Rightarrow> nat" where
  "filled t = length (array_indices (array t)) + length (live_nodes (nodes t))"

text \<open>A rehash sizes the table by its entries: at most twice their number, the new one counted.\<close>

lemma rehash_spec:
  assumes "strings_ok st seed" "table_ok st t" "sizearray t + sizenode t < 2 ^ 30"
  shows "\<exists>t'. rehash_with st (newkey_with st nk) t ek = Inr t' \<and> table_ok st t' \<and> room_for t' ek \<and>
    same_map st t t' \<and> sizearray t' + sizenode t' \<le> 2 * filled t + 3"
proof -
  note T = table_okD [OF assms(2)]
  let ?ks = "all_indices t ek"
  obtain nums1 where n1: "numusearray t (replicate (MAXABITS + 1) 0) = (nums1, length (array_indices (array t)))"
    "counts nums1 (array_indices (array t))"
    using numusearray_spec [OF T(7)] by blast
  obtain nums2 where n2: "numusehash t nums1 (length (array_indices (array t))) =
      (nums2, length (array_indices (array t)) + length (hash_indices (nodes t)), length (live_nodes (nodes t)))"
    "counts nums2 (array_indices (array t) @ hash_indices (nodes t))"
    using numusehash_spec [OF n1(2)] by blast
  obtain nums3 where n3: "countint ek nums2 = (nums3, length (index_list ek))" "counts nums3 ?ks"
    using countint_counts [OF n2(2), of ek] by (auto simp: all_indices_def)
  have len: "length (array_indices (array t)) + length (hash_indices (nodes t)) + length (index_list ek) =
      length ?ks"
    by (simp add: all_indices_def)
  have small: "length (array_indices (array t)) + length (live_nodes (nodes t)) + 1 \<le> 2 ^ 30"
    using assms(3) length_array_indices [of "array t"] length_live_nodes [of "nodes t"]
    by (simp add: sizearray_def sizenode_def)
  then have "length ?ks \<le> 2 ^ 30"
    using length_hash_indices [of "nodes t"] length_index_list [of ek] len by linarith
  then obtain a where a: "computesizes nums3 (length ?ks) = Some (a, below ?ks a)" "a \<le> 2 ^ 30"
    "a = 0 \<or> (\<exists>j. a = 2 ^ j \<and> a div 2 < below ?ks a)"
    using computesizes_spec [OF n3(2)] by blast
  have a': "a \<le> MAXASIZE" using a(2) by (simp add: MAXASIZE_def MAXABITS_def)
  define n where "n = length (array_indices (array t)) + length (live_nodes (nodes t)) + 1 - below ?ks a"
  note count = room_count [OF T(7) a', of ek]
  have rehash: "rehash_with st (newkey_with st nk) t ek = resize_with st (newkey_with st nk) t a n"
    unfolding rehash_with_def Let_def n1(1) prod.case n2(1) n3(1) len a(1) option.case n_def ..
  have n: "n = length (filter (hashed a) (old_nodes t a)) +
      (case ek of Int_v i \<Rightarrow> if unat (i - 1) < a then 0 else 1 | _ \<Rightarrow> 1)"
    using count unfolding n_def by linarith
  have "n \<le> 2 ^ 30" using small unfolding n_def by linarith
  then have "n \<le> 2 ^ MAXHBITS" by (simp add: MAXHBITS_def MAXABITS_def)
  then obtain t' where t': "resize_with st (newkey_with st nk) t a n = Inr t'" "table_ok st t'"
    "sizearray t' = a" "sizenode t' \<le> 2 * n + 1" "n \<le> (if isdummy t' then 0 else sizenode t')"
    "used (nodes t') \<le> length (filter (hashed a) (old_nodes t a))"
    "\<forall>k. proper k \<longrightarrow> key_typed st k \<longrightarrow> lookup st t' k = lookup st t k"
    using resize_spec [OF assms(1,2) a', of n nk] n by auto
  have "room_for t' ek"
  proof -
    have "n = length (filter (hashed a) (old_nodes t a)) + 1" if "array_slot t' ek = None"
      using that n t'(3) by (auto simp: array_slot_def split: tvalue.splits if_splits)
    then show ?thesis using t'(5,6) by (auto simp: room_for_def split: if_splits)
  qed
  moreover have "a \<le> 2 * below ?ks a"
    using a(3)
  proof (elim disjE exE conjE)
    fix j
    assume "a = 2 ^ j" "a div 2 < below ?ks a"
    then show ?thesis by (cases j) simp_all
  qed simp
  moreover have "n + below ?ks a = filled t + 1" using count n by (simp add: filled_def)
  ultimately have "sizearray t' + sizenode t' \<le> 2 * filled t + 3"
    using t'(3,4) by linarith
  with \<open>room_for t' ek\<close> show ?thesis using rehash t' by (auto simp: same_map_def)
qed

end
