(* ===== verification/LuaTableSet.thy ===== *)
theory LuaTableSet
  imports LuaTableRehash
begin

text \<open>
  Assignment to a table: \<open>luaH_newkey\<close>, \<open>luaH_set\<close>, \<open>luaH_setint\<close> and \<open>luaH_resize\<close> on any
  well-formed table, with the rehash a full one goes through.
\<close>

section \<open>A new key in any table\<close>

lemma lastfree_simps [simp]:
  "sizenode (t\<lparr>lastfree := l\<rparr>) = sizenode t" "sizearray (t\<lparr>lastfree := l\<rparr>) = sizearray t"
  by (simp_all add: sizenode_def sizearray_def)

lemma lookup_lastfree [simp]: "lookup st (t\<lparr>lastfree := l\<rparr>) k = lookup st t k"
proof -
  have "find_node st (t\<lparr>lastfree := l\<rparr>) k = find_node st t k" by (rule find_node_cong) simp_all
  moreover have "array_slot (t\<lparr>lastfree := l\<rparr>) k = array_slot t k" by (rule array_slot_cong) simp
  ultimately have "cell_of st (t\<lparr>lastfree := l\<rparr>) k = cell_of st t k" by (simp add: cell_of_def split: option.split)
  then show ?thesis by (simp add: lookup_def read_cell_def split: cell.split)
qed

lemma used_full: "\<not> used ns < length ns \<Longrightarrow> i < length ns \<Longrightarrow> key (ns ! i) \<noteq> Nil_v"
proof
  assume full: "\<not> used ns < length ns" and i: "i < length ns" "key (ns ! i) = Nil_v"
  have "{j. j < length ns \<and> key (ns ! j) \<noteq> Nil_v} \<subset> {..<length ns}" using i by auto
  then have "used ns < card {..<length ns}" unfolding used_def by (intro psubset_card_mono) auto
  with full show False by simp
qed

text \<open>A table without room gets no free position, and stays well formed.\<close>

lemma getfreepos_full:
  assumes "table_ok st t" "isdummy t \<or> \<not> used (nodes t) < sizenode t"
  shows "getfreepos t = (t\<lparr>lastfree := 0\<rparr>, None) \<and> table_ok st (t\<lparr>lastfree := 0\<rparr>)"
proof (cases "isdummy t")
  case True
  then have "lastfree t = 0" using table_okD(3) [OF assms(1)] by simp
  then have eq: "t\<lparr>lastfree := 0\<rparr> = t" by (cases t) simp
  show ?thesis
    unfolding eq using assms(1) \<open>lastfree t = 0\<close> eq by (simp add: getfreepos_def)
next
  case False
  note T = table_okD [OF assms(1)]
  have full: "key (nodes t ! i) \<noteq> Nil_v" if "i < sizenode t" for i
    using used_full [of "nodes t" i] assms(2) False that by (simp add: sizenode_def)
  obtain l r where lr: "free_below (nodes t) (lastfree t) = (l, r)" by fastforce
  have "l = 0 \<and> r = None"
  proof (cases r)
    case None
    then show ?thesis using free_below_spec [OF lr] by simp
  next
    case (Some f)
    then have "f < lastfree t" "key (nodes t ! f) = Nil_v" using free_below_spec [OF lr] by auto
    then show ?thesis using full [of f] T(4) by simp
  qed
  then have "getfreepos t = (t\<lparr>lastfree := 0\<rparr>, None)" using lr by (simp add: getfreepos_def)
  moreover have "table_ok st (t\<lparr>lastfree := 0, nodes := nodes t\<rparr>)"
    using T(2,6) full by (intro table_ok_nodes [OF assms(1) False]) (simp_all add: sizenode_def)
  ultimately show ?thesis by simp
qed

lemma has_cell_trans: "same_map st t t1 \<Longrightarrow> has_cell st t1 k t' c \<Longrightarrow> has_cell st t k t' c"
  by (auto simp: same_map_def has_cell_def)

text \<open>What \<open>luaH_newkey\<close> does when nothing is in the way and when it has to rehash.\<close>

text \<open>A table that has grown is sized by its entries.\<close>

definition grown :: "table \<Rightarrow> table \<Rightarrow> bool" where
  "grown t t' \<longleftrightarrow> sizearray t' + sizenode t' = sizearray t + sizenode t \<or>
     sizearray t' + sizenode t' \<le> 2 * filled t + 3"

lemma newkey_any:
  assumes "strings_ok st seed" "table_ok st t" "proper k" "key_typed st k"
    and "cell_of st t k = Nilobject" "sizearray t + sizenode t < 2 ^ 30"
  shows "\<exists>t' c. luaH_newkey st (Suc (Suc d)) t k = Inr (t', c) \<and> has_cell st t k t' c \<and> grown t t'"
proof -
  have none: "array_slot t k = None" "find_node st t k = None"
    using assms(5) by (auto simp: cell_of_def to_cell_def split: option.splits)
  show ?thesis
  proof (cases "\<not> isdummy t \<and> (val (nodes t ! mainposition st t k) = Nil_v \<or> used (nodes t) < sizenode t)")
    case True
    then have "insertable st seed t k" using assms(1-4) none by (simp add: insertable_def)
    then obtain t' i where "newkey_with st (luaH_newkey st (Suc d)) t k = Inr (t', Nod i)"
      "inserted st t k t' i"
      using newkey_insert True by blast
    then show ?thesis
      using inserted_cell [OF assms(2,3) none(1)] by (auto simp: grown_def inserted_def sizearray_def)
  next
    case False
    let ?t1 = "t\<lparr>lastfree := 0\<rparr>"
    have full: "getfreepos t = (?t1, None)" "table_ok st ?t1"
      using getfreepos_full [OF assms(2)] False by auto
    have "sizearray ?t1 + sizenode ?t1 < 2 ^ 30" using assms(6) by simp
    from rehash_spec [OF assms(1) full(2) this]
    obtain t2 where t2: "rehash_with st (luaH_newkey st (Suc d)) ?t1 k = Inr t2" "table_ok st t2"
      "room_for t2 k" "same_map st ?t1 t2" "sizearray t2 + sizenode t2 \<le> 2 * filled ?t1 + 3"
      by auto
    have room: "\<not> isdummy t2 \<and> (val (nodes t2 ! mainposition st t2 k) = Nil_v \<or> used (nodes t2) < sizenode t2)"
      if "array_slot t2 k = None" "find_node st t2 k = None"
      using t2(3) that(1) by (simp add: room_for_def)
    obtain t' c where t': "set_with st (luaH_newkey st (Suc d)) t2 k = Inr (t', c)" "has_cell st t2 k t' c"
      "sizearray t' = sizearray t2" "sizenode t' = sizenode t2"
      using set_with_room [OF assms(1) t2(2) assms(3,4) room, of "luaH_newkey st d"] by auto
    have "same_map st t t2" using t2(4) by (simp add: same_map_def)
    then have "has_cell st t k t' c" using has_cell_trans t'(2) by blast
    moreover have "grown t t'" using t2(5) t'(3,4) by (simp add: grown_def filled_def)
    moreover have "luaH_newkey st (Suc (Suc d)) t k = Inr (t', c)"
      using False assms(3) t2(1) t'(1)
      by (auto simp: newkey_with_def proper_def full(1) Let_def)
    ultimately show ?thesis by blast
  qed
qed

lemma set_any:
  assumes "strings_ok st seed" "table_ok st t" "proper k" "key_typed st k"
    and "sizearray t + sizenode t < 2 ^ 30"
  shows "\<exists>t' c. luaH_set st (Suc (Suc d)) t k = Inr (t', c) \<and> has_cell st t k t' c \<and> grown t t'"
proof (cases "cell_of st t k = Nilobject")
  case True
  then show ?thesis
    using newkey_any [OF assms(1-4) True assms(5), of d] get_proper [OF assms(1-4)]
    by (simp add: luaH_set_def set_with_def)
next
  case False
  then show ?thesis
    using get_proper [OF assms(1-4)] assms(2)
    by (cases "cell_of st t k") (auto simp: luaH_set_def set_with_def has_cell_def grown_def)
qed

lemma newkey_checked:
  "check_key k0 = Inr k \<Longrightarrow> check_key k = Inr k \<Longrightarrow> newkey_with st nk t k0 = newkey_with st nk t k"
  by (simp add: newkey_with_def)

text \<open>\<open>luaH_set\<close> takes a key to the one it is stored as.\<close>

lemma set_checked:
  assumes "strings_ok st seed" "table_ok st t" "key_typed st k0" "\<forall>a. k0 \<noteq> Deadkey_v a"
    and "check_key k0 = Inr k"
  shows "luaH_set st (Suc d) t k0 = luaH_set st (Suc d) t k"
proof -
  have "key_of k0 = Some k" using assms(5) by (simp add: key_of_def)
  then have k: "proper k" "key_typed st k" using key_of_Some key_of_typed assms(3,4) by blast+
  then have "luaH_get st t k0 = luaH_get st t k"
    using table_get_scan_core [OF assms(1-4)] get_proper [OF assms(1,2) k] \<open>key_of k0 = Some k\<close> by simp
  moreover have "newkey_with st (luaH_newkey st d) t k0 = newkey_with st (luaH_newkey st d) t k"
    using k(1) by (intro newkey_checked [OF assms(5)]) (simp add: proper_def)
  ultimately show ?thesis by (simp add: luaH_set_def set_with_def split: option.split cell.split)
qed

lemma set_error:
  assumes "strings_ok st seed" "table_ok st t" "key_typed st k" "\<forall>a. k \<noteq> Deadkey_v a"
    and "check_key k = Inl e"
  shows "luaH_set st (Suc d) t k = Inl e"
  using table_get_scan_core [OF assms(1-4)] assms(5)
  by (simp add: luaH_set_def set_with_def key_of_def newkey_with_def)

lemma has_cell_write:
  assumes "has_cell st t k t' c" "proper k"
  shows "table_ok st (write_cell t' c v)"
    and "proper q \<Longrightarrow> key_typed st q \<Longrightarrow>
      lookup st (write_cell t' c v) q = (if luaV_rawequalobj st k q then v else lookup st t q)"
  using assms table_ok_write [of st t'] cell_of_in [of st t' k] lookup_write [of st t' k q v]
  by (auto simp: has_cell_def)

text \<open>C20: Assignment refines the update of a map: on a well-formed table of fewer than 2 to the 30
  slots, \<open>luaH_set\<close> with a key that is not \<open>nil\<close> or NaN always returns a cell, however full the
  table is and whatever it has to rehash; writing the cell gives a well-formed table that maps the key
  to the new value and every other key to what it was mapped to. A \<open>nil\<close> or NaN key is the error
  with its message.\<close>

theorem table_set_refines:
  assumes "strings_ok st seed" "table_ok st t" "key_typed st k" "\<forall>a. k \<noteq> Deadkey_v a"
    and "sizearray t + sizenode t < 2 ^ 30"
  shows "case check_key k of
      Inl e \<Rightarrow> luaH_set st (Suc (Suc d)) t k = Inl e \<and> e \<noteq> Stuck
    | Inr k' \<Rightarrow> \<exists>t' c. luaH_set st (Suc (Suc d)) t k = Inr (t', c) \<and> c \<noteq> Nilobject \<and>
        (\<forall>v. table_ok st (write_cell t' c v) \<and>
          (\<forall>q. proper q \<longrightarrow> key_typed st q \<longrightarrow>
            lookup st (write_cell t' c v) q = (if luaV_rawequalobj st k' q then v else lookup st t q)))"
proof (cases "check_key k")
  case (Inl e)
  then have "e \<noteq> Stuck" by (auto simp: check_key_def split: tvalue.splits option.splits if_splits)
  with Inl show ?thesis using set_error [OF assms(1-4) Inl] by simp
next
  case (Inr k')
  then have "key_of k = Some k'" by (simp add: key_of_def)
  then have k': "proper k'" "key_typed st k'" using key_of_Some key_of_typed assms(3,4) by blast+
  obtain t' c where t': "luaH_set st (Suc (Suc d)) t k' = Inr (t', c)" "has_cell st t k' t' c"
    using set_any [OF assms(1,2) k' assms(5)] by blast
  then show ?thesis
    using Inr set_checked [OF assms(1-4) Inr] has_cell_write [OF t'(2) k'(1)]
    by (auto simp: has_cell_def)
qed

section \<open>The empty table\<close>

lemma luaH_new_fresh: "fresh_table luaH_new 0 0 = luaH_new"
  by (simp add: fresh_table_def luaH_new_def)

lemma luaH_new_ok: "table_ok st luaH_new"
  using fresh_table_ok(1) [of 0 0 st luaH_new] unfolding luaH_new_fresh
  by (simp add: MAXASIZE_def)

lemma luaH_new_sizes [simp]: "sizearray luaH_new = 0" "sizenode luaH_new = 1"
  by (simp_all add: luaH_new_def sizearray_def sizenode_def)

lemma luaH_new_lookup: "proper k \<Longrightarrow> lookup st luaH_new k = Nil_v"
proof -
  assume "proper k"
  moreover have "array_slot luaH_new k = None" by (simp add: array_slot_def split: tvalue.split)
  ultimately show ?thesis using lookup_fresh [of 0 0 k st luaH_new] by (simp add: luaH_new_fresh MAXASIZE_def)
qed

text \<open>A store of short strings, for examples.\<close>

definition short_strings :: strings where
  "short_strings = (\<lambda>a. \<lparr>ts_short = True, ts_hash = 0, ts_extra = False, ts_bytes = [], ts_hnext = None\<rparr>)"

lemma short_strings_ok: "strings_ok short_strings 0"
  by (simp add: strings_ok_def short_strings_def)

theorem table_get_scan_witness: "luaH_get short_strings luaH_new (Shr_v 7) = Some Nilobject"
proof -
  have "cell_of short_strings luaH_new (Shr_v 7) = Nilobject"
    by (simp add: cell_of_def array_slot_def find_node_def to_cell_def luaH_new_def sizenode_def dummynode_def
        luaV_rawequalobj_def)
  then show ?thesis
    using table_get_scan [OF short_strings_ok luaH_new_ok, of "Shr_v 7"]
    by (simp add: key_typed_def key_of_proper)
qed

theorem table_set_refines_witness:
  "\<exists>t' c. luaH_set short_strings 2 luaH_new (Bool_v True) = Inr (t', c) \<and>
     lookup short_strings (write_cell t' c (Int_v 5)) (Bool_v True) = Int_v 5 \<and>
     lookup short_strings (write_cell t' c (Int_v 5)) (Bool_v False) = Nil_v"
proof -
  have "check_key (Bool_v True) = Inr (Bool_v True)" by (simp add: check_key_def)
  then obtain t' c where t': "luaH_set short_strings (Suc (Suc 0)) luaH_new (Bool_v True) = Inr (t', c)"
    "\<forall>v. table_ok short_strings (write_cell t' c v) \<and>
      (\<forall>q. proper q \<longrightarrow> key_typed short_strings q \<longrightarrow> lookup short_strings (write_cell t' c v) q =
        (if luaV_rawequalobj short_strings (Bool_v True) q then v else lookup short_strings luaH_new q))"
    using table_set_refines [OF short_strings_ok luaH_new_ok, of "Bool_v True" 0]
    by (auto simp: key_typed_def)
  then show ?thesis
    using luaH_new_lookup [of "Bool_v False" short_strings]
    by (auto simp: numeral_2_eq_2 key_typed_def luaV_rawequalobj_def)
qed

section \<open>Assignment at an integer\<close>

lemma setint_any:
  "luaH_setint st d t i v =
    (case luaH_set st d t (Int_v i) of Inl e \<Rightarrow> Inl e | Inr (t', c) \<Rightarrow> Inr (write_cell t' c v))"
  unfolding luaH_setint_def luaH_set_def by (rule setint_with_set)

text \<open>\<open>luaH_setint\<close> stores a value under an integer key of any well-formed table of fewer than 2
  to the 30 slots, in its array part or its hash part, growing the table when it must: the key is then
  mapped to the value and all others to what they were mapped to.\<close>

theorem table_setint_refines:
  assumes "strings_ok st seed" "table_ok st t" "sizearray t + sizenode t < 2 ^ 30"
  shows "\<exists>t'. luaH_setint st (Suc (Suc d)) t i v = Inr t' \<and> table_ok st t' \<and>
    (\<forall>q. proper q \<longrightarrow> key_typed st q \<longrightarrow> lookup st t' q = (if q = Int_v i then v else lookup st t q))"
proof -
  obtain t' c where t': "luaH_set st (Suc (Suc d)) t (Int_v i) = Inr (t', c)" "has_cell st t (Int_v i) t' c"
    using set_any [OF assms(1,2) _ _ assms(3), of "Int_v i" d] by (auto simp: key_typed_def)
  then show ?thesis
    using has_cell_write [OF t'(2)] rawequal_Int by (simp add: setint_any)
qed

theorem table_setint_refines_witness:
  "\<exists>t'. luaH_setint short_strings 2 luaH_new 1 (Bool_v True) = Inr t' \<and> table_ok short_strings t' \<and>
     lookup short_strings t' (Int_v 1) = Bool_v True \<and> lookup short_strings t' (Int_v 2) = Nil_v"
proof -
  obtain t' where "luaH_setint short_strings (Suc (Suc 0)) luaH_new 1 (Bool_v True) = Inr t'"
    "table_ok short_strings t'" "\<forall>q. proper q \<longrightarrow> key_typed short_strings q \<longrightarrow>
      lookup short_strings t' q = (if q = Int_v 1 then Bool_v True else lookup short_strings luaH_new q)"
    using table_setint_refines [OF short_strings_ok luaH_new_ok, of 0 1 "Bool_v True"] by auto
  then show ?thesis
    using luaH_new_lookup [of "Int_v 2" short_strings] by (auto simp: numeral_2_eq_2 key_typed_def)
qed

section \<open>Resizing\<close>

lemma hashed_live: "length (filter (hashed a) ns) \<le> length (live_nodes ns)"
proof (induction ns)
  case (Cons n ns)
  then show ?case by (simp add: live_nodes_def hashed_def)
qed (simp add: live_nodes_def)

lemma luaH_resize_any:
  assumes "strings_ok st seed" "table_ok st t" "a \<le> MAXASIZE" "n \<le> 2 ^ MAXHBITS"
    and "length (filter (hashed a) (old_nodes t a)) \<le> n"
  shows "\<exists>t'. luaH_resize st (Suc d) t a n = Inr t' \<and> table_ok st t' \<and> sizearray t' = a \<and> same_map st t t'"
  using resize_spec [OF assms, of "luaH_newkey st d"] by (auto simp: luaH_resize_def same_map_def)

text \<open>Growing the array part keeps the map: \<open>luaH_resizearray\<close> to a size no smaller than the
  array part always succeeds, and the table it builds is well formed, has the array size asked for,
  and maps every key as before, those that move from the hash part to the array included.\<close>

theorem table_resize_keeps_map:
  assumes "strings_ok st seed" "table_ok st t" "sizearray t \<le> a" "a \<le> MAXASIZE"
  shows "\<exists>t'. luaH_resizearray st (Suc d) t a = Inr t' \<and> table_ok st t' \<and> sizearray t' = a \<and>
    (\<forall>k. proper k \<longrightarrow> key_typed st k \<longrightarrow> lookup st t' k = lookup st t k)"
proof -
  note T = table_okD [OF assms(2)]
  let ?n = "if isdummy t then 0 else sizenode t"
  have old: "old_nodes t a = rev (nodes t)" using assms(3) by (simp add: sizearray_def)
  have "length (filter (hashed a) (old_nodes t a)) \<le> ?n"
  proof (cases "isdummy t")
    case True
    then show ?thesis using T(3) unfolding old by (simp add: hashed_def dummynode_def)
  next
    case False
    then show ?thesis
      using hashed_live [of a "rev (nodes t)"] length_live_nodes [of "rev (nodes t)"] unfolding old
      by (simp add: sizenode_def)
  qed
  moreover have "?n \<le> 2 ^ MAXHBITS" using T(1) by (auto intro: power_increasing)
  ultimately show ?thesis
    using luaH_resize_any [OF assms(1,2,4), of ?n d] by (auto simp: luaH_resizearray_def same_map_def)
qed

theorem table_resize_keeps_map_witness:
  "\<exists>t'. luaH_resizearray short_strings 1 luaH_new 4 = Inr t' \<and> sizearray t' = 4 \<and>
     lookup short_strings t' (Int_v 3) = Nil_v"
proof -
  have "(4 :: nat) \<le> MAXASIZE" by (simp add: MAXASIZE_def MAXABITS_def)
  then obtain t' where "luaH_resizearray short_strings (Suc 0) luaH_new 4 = Inr t'" "sizearray t' = 4"
    "\<forall>k. proper k \<longrightarrow> key_typed short_strings k \<longrightarrow>
      lookup short_strings t' k = lookup short_strings luaH_new k"
    using table_resize_keeps_map [OF short_strings_ok luaH_new_ok, of 4 0] by auto
  then show ?thesis
    using luaH_new_lookup [of "Int_v 3" short_strings] by (auto simp: key_typed_def)
qed

text \<open>A hash part of more than 2 to the 30 nodes is refused: \<open>luaH_resize\<close> reports the overflow,
  whatever the table.\<close>

theorem table_overflow:
  assumes "2 ^ MAXHBITS < n" "n < 2 ^ 32"
  shows "luaH_resize st d t a n = Inl (Run_error ''table overflow'')"
proof -
  have n: "n \<le> 2 ^ luaO_ceillog2 n" using ceillog2_bounds [of n] assms by simp
  have "MAXHBITS < luaO_ceillog2 n"
  proof (rule ccontr)
    assume "\<not> MAXHBITS < luaO_ceillog2 n"
    then have "(2 :: nat) ^ luaO_ceillog2 n \<le> 2 ^ MAXHBITS" by (intro power_increasing) simp_all
    with n assms(1) show False by simp
  qed
  moreover have "n \<noteq> 0" using assms(1) by (cases n) simp_all
  ultimately have "setnodevector s n = Inl (Run_error ''table overflow'')" for s
    by (simp add: setnodevector_def Let_def)
  then show ?thesis by (simp add: luaH_resize_def resize_with_def Let_def)
qed

theorem table_overflow_witness:
  "luaH_resize short_strings 1 luaH_new 0 (2 ^ 30 + 1) = Inl (Run_error ''table overflow'')"
  using table_overflow [of "2 ^ 30 + 1" short_strings 1 luaH_new 0] by (simp add: MAXHBITS_def MAXABITS_def)

end
