(* ===== verification/LuaTableWalk.thy ===== *)
theory LuaTableWalk
  imports LuaTableSet
begin

text \<open>
  Traversal and length: iterating \<open>luaH_next\<close> visits every entry of a table once, and \<open>luaH_getn\<close>
  returns a border.
\<close>

section \<open>Traversal\<close>

text \<open>The slots of a table in the order of the traversal.\<close>

definition slots :: "table \<Rightarrow> nat" where
  "slots t = sizearray t + sizenode t"

definition slot_pair :: "table \<Rightarrow> nat \<Rightarrow> tvalue \<times> tvalue" where
  "slot_pair t i =
     (if i < sizearray t then (Int_v (word_of_nat (i + 1)), array t ! i)
      else (key (nodes t ! (i - sizearray t)), val (nodes t ! (i - sizearray t))))"

definition entries :: "table \<Rightarrow> nat \<Rightarrow> (tvalue \<times> tvalue) list" where
  "entries t i = filter (\<lambda>p. snd p \<noteq> Nil_v) (map (slot_pair t) [i..<slots t])"

text \<open>
  The loop of a client: from a key on, at most \<open>n\<close> calls of \<open>luaH_next\<close>; \<open>None\<close> when one fails or
  they do not suffice.
\<close>

primrec walk :: "strings \<Rightarrow> table \<Rightarrow> nat \<Rightarrow> tvalue \<Rightarrow> (tvalue \<times> tvalue) list option" where
  "walk st t 0 k = None"
| "walk st t (Suc n) k =
     (case luaH_next st t k of
        Inl _ \<Rightarrow> None
      | Inr None \<Rightarrow> Some []
      | Inr (Some p) \<Rightarrow> map_option (Cons p) (walk st t n (fst p)))"

lemma first_from_find: "first_from p i n = find p [i..<n]"
proof (induction p i n rule: first_from.induct)
  case (1 p i n)
  then show ?case by (cases "i < n") (simp_all add: first_from.simps [of p i n] upt_conv_Cons)
qed

lemma next_find:
  assumes "findindex st t k = Inr i"
  shows "luaH_next st t k =
    Inr (map_option (slot_pair t) (find (\<lambda>i. snd (slot_pair t i) \<noteq> Nil_v) [i..<slots t]))"
proof -
  let ?p = "\<lambda>i. snd (slot_pair t i) \<noteq> Nil_v" and ?a = "sizearray t"
  have arr: "find (\<lambda>i. array t ! i \<noteq> Nil_v) [i..<?a] = find ?p [i..<?a]"
    by (rule find_cong) (auto simp: slot_pair_def)
  have nod: "map_option ((+) ?a) (find (\<lambda>j. val (nodes t ! j) \<noteq> Nil_v) [m - ?a..<sizenode t]) =
      find ?p [m..<slots t]" if "?a \<le> m" for m
  proof -
    have "[m..<slots t] = map ((+) ?a) [m - ?a..<sizenode t]"
      using that by (intro nth_equalityI) (auto simp: slots_def)
    moreover have "find ?p (map ((+) ?a) xs) = map_option ((+) ?a) (find (\<lambda>j. val (nodes t ! j) \<noteq> Nil_v) xs)" for xs
      by (induction xs) (auto simp: slot_pair_def)
    ultimately show ?thesis by simp
  qed
  have split: "[i..<slots t] = [i..<?a] @ [max i ?a..<slots t]"
  proof (cases "i \<le> ?a")
    case True
    then show ?thesis using upt_add_eq_append [OF True, of "sizenode t"] by (simp add: slots_def max_def)
  qed (simp add: max_def)
  note n = nod [OF max.cobounded2, of i]
  show ?thesis
  proof (cases "find ?p [i..<?a]")
    case None
    show ?thesis
    proof (cases "find (\<lambda>j. val (nodes t ! j) \<noteq> Nil_v) [max i ?a - ?a..<sizenode t]")
      case None': None
      then show ?thesis
        using n None by (simp add: luaH_next_def assms first_from_find arr split find_append)
    next
      case (Some j)
      then have "find ?p [max i ?a..<slots t] = Some (?a + j)" using n by simp
      then show ?thesis
        using Some None by (simp add: luaH_next_def assms first_from_find arr split find_append slot_pair_def)
    qed
  next
    case (Some j)
    then have "j < ?a" by (auto simp: find_Some_iff in_set_conv_nth)
    then show ?thesis
      using Some by (simp add: luaH_next_def assms first_from_find arr split find_append)
        (simp add: slot_pair_def)
  qed
qed

lemma entries_step:
  "case find (\<lambda>i. snd (slot_pair t i) \<noteq> Nil_v) [i..<slots t] of
     None \<Rightarrow> entries t i = []
   | Some j \<Rightarrow> i \<le> j \<and> j < slots t \<and> snd (slot_pair t j) \<noteq> Nil_v \<and> entries t i = slot_pair t j # entries t (j + 1)"
proof (induction "slots t - i" arbitrary: i)
  case 0
  then show ?case by (simp add: entries_def)
next
  case (Suc d)
  then have up: "[i..<slots t] = i # [i + 1..<slots t]" by (simp add: upt_conv_Cons)
  have "d = slots t - (i + 1)" using Suc.hyps(2) by simp
  note IH = Suc.hyps(1) [OF this]
  show ?case
  proof (cases "snd (slot_pair t i) = Nil_v")
    case True
    then have e: "entries t i = entries t (i + 1)" using up by (simp add: entries_def)
    from True show ?thesis using IH up unfolding e by (auto split: option.splits)
  next
    case False
    moreover have "i < slots t" using Suc.hyps(2) by simp
    ultimately show ?thesis using up by (simp add: entries_def)
  qed
qed

text \<open>No collected object is marked at the address of the key of a present entry.\<close>

definition no_stale :: "table \<Rightarrow> bool" where
  "no_stale t \<longleftrightarrow>
     (\<forall>i < sizenode t. \<forall>j < sizenode t. \<forall>a. key (nodes t ! i) = Deadkey_v a \<longrightarrow>
        val (nodes t ! j) \<noteq> Nil_v \<longrightarrow> gcvalue (key (nodes t ! j)) \<noteq> Some a)"

lemma find_slot:
  assumes "strings_ok st seed" "table_ok st t" "no_stale t" "i < slots t" "snd (slot_pair t i) \<noteq> Nil_v"
  shows "findindex st t (fst (slot_pair t i)) = Inr (i + 1)"
proof (cases "i < sizearray t")
  case True
  have m: "sizearray t \<le> MAXASIZE" by (rule table_okD(7) [OF assms(2)])
  then have "i < 2 ^ 63" using True by (simp add: MAXASIZE_def MAXABITS_def)
  from int_key_index [OF this] have "unat ((word_of_nat (i + 1) :: lua_Integer) - 1) < MAXASIZE"
    using True m by simp
  then have "0 <s (word_of_nat (i + 1) :: lua_Integer) \<and> unat (word_of_nat (i + 1) :: lua_Integer) \<le> MAXASIZE"
    using int_slot [of MAXASIZE "word_of_nat (i + 1)"] by simp
  moreover have "unat (word_of_nat (i + 1) :: lua_Integer) = i + 1"
    using True m unfolding unat_of_nat by (simp add: MAXASIZE_def MAXABITS_def)
  ultimately have "arrayindex (Int_v (word_of_nat (i + 1))) = i + 1" by (simp add: arrayindex_def)
  then show ?thesis using True by (simp add: findindex_def slot_pair_def)
next
  case False
  define j where "j = i - sizearray t"
  have j: "j < sizenode t" "i = sizearray t + j" using assms(4) False by (auto simp: slots_def j_def)
  let ?k = "key (nodes t ! j)"
  have pair: "slot_pair t i = (?k, val (nodes t ! j))" using False by (simp add: slot_pair_def j_def)
  have "j < length (nodes t)" using j by (simp add: sizenode_def)
  with nodes_ok_live [OF table_okD(2) [OF assms(2)]] assms(5)
  have k: "proper ?k" "key_typed st ?k" by (simp_all add: pair)
  have "find_node st t ?k = Some j" using j(1) rawequal_refl [OF k(1)] find_node_Some [OF assms(2) k(1)] by blast
  moreover have "search (\<lambda>k'. luaV_rawequalobj st k' ?k \<or>
      (case k' of Deadkey_v a \<Rightarrow> gcvalue ?k = Some a | _ \<Rightarrow> False)) (nodes t) (mainposition st t ?k) =
    Some (find_node st t ?k)"
    using assms(3,5) j(1)
    by (intro search_find [OF assms(1,2) k]) (auto simp: pair no_stale_def split: tvalue.split)
  moreover have "\<not> (arrayindex ?k \<noteq> 0 \<and> arrayindex ?k \<le> sizearray t)"
  proof (cases ?k)
    case (Int_v n)
    have "\<not> unat (n - 1) < sizearray t" by (rule table_okD(6) [OF assms(2) j(1) Int_v])
    then show ?thesis
      using int_slot [OF table_okD(7) [OF assms(2)], of n] Int_v by (auto simp: arrayindex_def)
  qed (simp_all add: arrayindex_def)
  ultimately have "findindex st t ?k = Inr (j + 1 + sizearray t)"
    using k(1) unfolding findindex_def Let_def by auto
  moreover have "fst (slot_pair t i) = ?k" by (simp add: pair)
  ultimately show ?thesis using j(2) by simp
qed

lemma walk_entries:
  assumes "strings_ok st seed" "table_ok st t" "no_stale t"
  shows "findindex st t k = Inr i \<Longrightarrow> slots t - i < n \<Longrightarrow> walk st t n k = Some (entries t i)"
proof (induction n arbitrary: k i)
  case (Suc n)
  show ?case
  proof (cases "find (\<lambda>i. snd (slot_pair t i) \<noteq> Nil_v) [i..<slots t]")
    case None
    then show ?thesis using next_find [OF Suc.prems(1)] entries_step [of t i] by simp
  next
    case (Some j)
    then have j: "i \<le> j" "j < slots t" "snd (slot_pair t j) \<noteq> Nil_v"
      "entries t i = slot_pair t j # entries t (j + 1)"
      using entries_step [of t i] by simp_all
    have "walk st t n (fst (slot_pair t j)) = Some (entries t (j + 1))"
      using j(1,2) Suc.prems(2) by (intro Suc.IH find_slot [OF assms j(2,3)]) simp
    then show ?thesis using next_find [OF Suc.prems(1)] Some j(4) by simp
  qed
qed simp

text \<open>The entries and the map.\<close>

lemma slot_proper:
  assumes "table_ok st t" "i < slots t" "snd (slot_pair t i) \<noteq> Nil_v"
  shows "proper (fst (slot_pair t i)) \<and> key_typed st (fst (slot_pair t i))"
proof (cases "i < sizearray t")
  case False
  then have "i - sizearray t < length (nodes t)" using assms(2) by (simp add: slots_def sizenode_def)
  then show ?thesis
    using nodes_ok_live [OF table_okD(2) [OF assms(1)]] assms(3) False by (simp add: slot_pair_def)
qed (simp add: slot_pair_def key_typed_def)

text \<open>The slot of a cell.\<close>

definition cell_slot :: "table \<Rightarrow> cell \<Rightarrow> nat" where
  "cell_slot t c = (case c of Arr i \<Rightarrow> i | Nod i \<Rightarrow> sizearray t + i | Nilobject \<Rightarrow> slots t)"

lemma slot_cell:
  assumes "table_ok st t" "i < slots t" "snd (slot_pair t i) \<noteq> Nil_v" "proper k"
    "luaV_rawequalobj st (fst (slot_pair t i)) k"
  shows "cell_slot t (cell_of st t k) = i \<and> lookup st t k = snd (slot_pair t i)"
proof (cases "i < sizearray t")
  case True
  then have k: "k = Int_v (word_of_nat (i + 1))"
    using assms(4,5) rawequal_Int by (simp add: slot_pair_def)
  have "sizearray t < 2 ^ 63" using table_okD(7) [OF assms(1)] by (simp add: MAXASIZE_def MAXABITS_def)
  then have "array_slot t k = Some i" using int_key_index [of i] True k by (simp add: array_slot_def)
  then show ?thesis using True by (simp add: cell_of_def cell_slot_def lookup_slot slot_pair_def)
next
  case False
  define j where "j = i - sizearray t"
  have j: "j < sizenode t" "i = sizearray t + j" using assms(2) False by (auto simp: slots_def j_def)
  have raw: "luaV_rawequalobj st (key (nodes t ! j)) k" using assms(5) False by (simp add: slot_pair_def j_def)
  then have find: "find_node st t k = Some j" using find_node_Some [OF assms(1,4)] j(1) by blast
  have "proper (key (nodes t ! j))" using rawequal_node_proper [OF assms(1,4) j(1) raw] by simp
  then have "array_slot t k = None"
    using raw table_okD(6) [OF assms(1) j(1)] rawequal_both [OF assms(4)]
    by (auto simp: array_slot_def split: tvalue.splits)
  with find show ?thesis
    using False j by (simp add: cell_of_def to_cell_def cell_slot_def lookup_def read_cell_def slot_pair_def)
qed

lemma entries_lookup:
  assumes "table_ok st t" "p \<in> set (entries t 0)"
  shows "proper (fst p) \<and> key_typed st (fst p) \<and> snd p \<noteq> Nil_v \<and> lookup st t (fst p) = snd p"
proof -
  obtain i where i: "i < slots t" "p = slot_pair t i" "snd p \<noteq> Nil_v"
    using assms(2) by (auto simp: entries_def)
  have k: "proper (fst p)" "key_typed st (fst p)" using slot_proper [OF assms(1) i(1)] i(2,3) by simp_all
  then show ?thesis
    using slot_cell [OF assms(1) i(1), of "fst p"] i(2,3) rawequal_refl [OF k(1)] by simp
qed

lemma lookup_entries:
  assumes "table_ok st t" "proper k" "lookup st t k \<noteq> Nil_v"
  shows "\<exists>q. (q, lookup st t k) \<in> set (entries t 0) \<and> luaV_rawequalobj st q k"
proof -
  obtain i where i: "i < slots t" "snd (slot_pair t i) = lookup st t k"
    "luaV_rawequalobj st (fst (slot_pair t i)) k"
  proof (cases "cell_of st t k")
    case (Arr i)
    then obtain j where j: "k = Int_v j" "unat (j - 1) = i" "i < sizearray t"
      by (auto simp: cell_of_def array_slot_def to_cell_def split: option.splits tvalue.splits if_splits)
    have "word_of_nat (unat (j - 1) + 1) = j" by simp
    then have "word_of_nat (i + 1) = j" by (simp only: j(2))
    then show thesis
      using that [of i] Arr j by (simp add: slots_def slot_pair_def lookup_def read_cell_def luaV_rawequalobj_def)
  next
    case (Nod i)
    then have "find_node st t k = Some i" by (auto simp: cell_of_def to_cell_def split: option.splits)
    then have "i < sizenode t" "luaV_rawequalobj st (key (nodes t ! i)) k"
      using find_node_Some [OF assms(1,2)] by blast+
    then show thesis
      using that [of "sizearray t + i"] Nod by (simp add: slots_def slot_pair_def lookup_def read_cell_def)
  next
    case Nilobject
    then show thesis using assms(3) by (simp add: lookup_def read_cell_def)
  qed
  have "slot_pair t i \<in> set (entries t 0)" using i(1,2) assms(3) by (simp add: entries_def)
  then show ?thesis using i(2,3) by (intro exI [of _ "fst (slot_pair t i)"]) (simp flip: i(2))
qed

lemma entries_distinct:
  assumes "table_ok st t"
  shows "\<exists>is. entries t 0 = map (slot_pair t) is \<and> distinct is \<and>
    (\<forall>i \<in> set is. i < slots t \<and> snd (slot_pair t i) \<noteq> Nil_v)"
  by (intro exI [of _ "filter (\<lambda>i. snd (slot_pair t i) \<noteq> Nil_v) [0..<slots t]"])
    (simp add: entries_def filter_map comp_def)

lemma entries_keys:
  assumes "table_ok st t" "i < length (entries t 0)" "j < length (entries t 0)"
    and raw: "luaV_rawequalobj st (fst (entries t 0 ! i)) (fst (entries t 0 ! j))"
  shows "i = j"
proof -
  obtain "is" where is': "entries t 0 = map (slot_pair t) is" "distinct is"
    "\<And>x. x \<in> set is \<Longrightarrow> x < slots t \<and> snd (slot_pair t x) \<noteq> Nil_v"
    using entries_distinct [OF assms(1)] by blast
  have len: "i < length is" "j < length is" using assms(2,3) is'(1) by simp_all
  have k: "proper (fst (slot_pair t (is ! j)))"
    using slot_proper [OF assms(1)] is'(3) [of "is ! j"] len(2) by simp
  have "cell_slot t (cell_of st t (fst (slot_pair t (is ! j)))) = is ! i"
    using slot_cell [OF assms(1) _ _ k] is'(3) [of "is ! i"] raw len by (simp add: is'(1))
  moreover have "cell_slot t (cell_of st t (fst (slot_pair t (is ! j)))) = is ! j"
    using slot_cell [OF assms(1) _ _ k rawequal_refl [OF k]] is'(3) [of "is ! j"] len by simp
  ultimately show ?thesis using is'(2) len nth_eq_iff_index_eq by metis
qed

text \<open>C22: A traversal is complete and visits nothing twice: iterating \<open>luaH_next\<close> from \<open>nil\<close> on a
  well-formed table ends after at most one call more than the table has slots, without an error; each
  pair it returns is an entry of the map, every entry is returned, and no two of the keys returned are
  equal. (No key of an entry may have the address of a collected object that is still marked.)\<close>

theorem next_visits_all:
  assumes "strings_ok st seed" "table_ok st t" "no_stale t"
  shows "\<exists>es. walk st t (sizearray t + sizenode t + 1) Nil_v = Some es \<and>
    (\<forall>(k, v) \<in> set es. v \<noteq> Nil_v \<and> lookup st t k = v) \<and>
    (\<forall>k. proper k \<longrightarrow> lookup st t k \<noteq> Nil_v \<longrightarrow>
      (\<exists>q. (q, lookup st t k) \<in> set es \<and> luaV_rawequalobj st q k)) \<and>
    (\<forall>i < length es. \<forall>j < length es. luaV_rawequalobj st (fst (es ! i)) (fst (es ! j)) \<longrightarrow> i = j)"
proof (intro exI conjI)
  have "findindex st t Nil_v = Inr 0" by (simp add: findindex_def)
  then show "walk st t (sizearray t + sizenode t + 1) Nil_v = Some (entries t 0)"
    by (rule walk_entries [OF assms]) (simp add: slots_def)
  show "\<forall>(k, v) \<in> set (entries t 0). v \<noteq> Nil_v \<and> lookup st t k = v"
    using entries_lookup [OF assms(2)] by fastforce
  show "\<forall>k. proper k \<longrightarrow> lookup st t k \<noteq> Nil_v \<longrightarrow>
      (\<exists>q. (q, lookup st t k) \<in> set (entries t 0) \<and> luaV_rawequalobj st q k)"
    using lookup_entries [OF assms(2)] by blast
  show "\<forall>i < length (entries t 0). \<forall>j < length (entries t 0).
      luaV_rawequalobj st (fst (entries t 0 ! i)) (fst (entries t 0 ! j)) \<longrightarrow> i = j"
    using entries_keys [OF assms(2)] by blast
qed

text \<open>A table with three array slots and no hash part.\<close>

definition small_table :: table where
  "small_table = \<lparr>array = [Int_v 5, Nil_v, Bool_v True], nodes = [dummynode], isdummy = True, lastfree = 0\<rparr>"

lemma small_table_ok: "table_ok st small_table"
proof -
  have "small_table = fresh_table small_table 3 0"
    by (simp add: small_table_def fresh_table_def sizearray_def)
  moreover have "table_ok st (fresh_table small_table 3 0)"
    by (rule fresh_table_ok(1)) (simp_all add: MAXASIZE_def MAXABITS_def)
  ultimately show ?thesis by simp
qed

lemma small_table_sizes [simp]: "sizearray small_table = 3" "sizenode small_table = 1"
  by (simp_all add: small_table_def sizearray_def sizenode_def)

theorem next_visits_all_witness:
  "\<exists>es. walk short_strings small_table 5 Nil_v = Some es \<and> (\<exists>q. (q, Bool_v True) \<in> set es)"
proof -
  have "no_stale small_table" by (simp add: no_stale_def small_table_def sizenode_def dummynode_def)
  from next_visits_all [OF short_strings_ok small_table_ok this] obtain es
    where es: "walk short_strings small_table 5 Nil_v = Some es"
    "\<forall>k. proper k \<longrightarrow> lookup short_strings small_table k \<noteq> Nil_v \<longrightarrow>
      (\<exists>q. (q, lookup short_strings small_table k) \<in> set es \<and> luaV_rawequalobj short_strings q k)"
    by auto
  have "array_slot small_table (Int_v 3) = Some 2" by (simp add: array_slot_def)
  then have "lookup short_strings small_table (Int_v 3) = Bool_v True"
    by (simp add: lookup_slot) (simp add: small_table_def)
  then show ?thesis using es(1) es(2) [rule_format, of "Int_v 3"] by auto
qed

section \<open>Length\<close>

definition border :: "strings \<Rightarrow> table \<Rightarrow> nat \<Rightarrow> bool" where
  "border st t n \<longleftrightarrow>
     (n = 0 \<or> lookup st t (Int_v (word_of_nat n)) \<noteq> Nil_v) \<and>
     lookup st t (Int_v (word_of_nat (n + 1))) = Nil_v"

lemma int_value_lookup:
  "strings_ok st seed \<Longrightarrow> table_ok st t \<Longrightarrow> int_value t j = Some (lookup st t (Int_v (word_of_nat j)))"
  using getint_spec [of st seed t] by (simp add: int_value_def lookup_def)

text \<open>The binary search between a present and an absent index.\<close>

lemma bin_search_border:
  assumes "\<And>m. i < m \<Longrightarrow> m < j \<Longrightarrow> at m = Some (f m)"
  shows "i < j \<Longrightarrow> (i = 0 \<or> f i \<noteq> Nil_v) \<Longrightarrow> f j = Nil_v \<Longrightarrow>
    \<exists>n. bin_search at i j = Some n \<and> i \<le> n \<and> n < j \<and> (n = 0 \<or> f n \<noteq> Nil_v) \<and> f (n + 1) = Nil_v"
  using assms
proof (induction at i j rule: bin_search.induct)
  case (1 at i j)
  show ?case
  proof (cases "j - i > 1")
    case False
    then have "j = i + 1" using 1 by simp
    then show ?thesis using 1 by (subst bin_search.simps) auto
  next
    case True
    define m where "m = (i + j) div 2"
    have m: "i < m" "m < j" using True by (auto simp: m_def)
    have at: "at m = Some (f m)" using 1 m by blast
    have step: "bin_search at i j = (if f m = Nil_v then bin_search at i m else bin_search at m j)"
      using True at by (subst bin_search.simps) (simp add: Let_def flip: m_def)
    show ?thesis
    proof (cases "f m = Nil_v")
      case nil: True
      obtain n where "bin_search at i m = Some n" "i \<le> n" "n < m" "n = 0 \<or> f n \<noteq> Nil_v" "f (n + 1) = Nil_v"
        using 1(1) [OF True m_def at nil m(1)] 1 nil m by auto
      then show ?thesis using step nil m(2) by auto
    next
      case False
      obtain n where "bin_search at m j = Some n" "m \<le> n" "n < j" "n = 0 \<or> f n \<noteq> Nil_v" "f (n + 1) = Nil_v"
        using 1(2) [OF True m_def at False m(2)] 1 False m by auto
      then show ?thesis using step False m(1) by auto
    qed
  qed
qed

text \<open>A table has fewer than 2 to the 32 - 1 slots, so that some positive index is absent.\<close>

lemma absent_index:
  assumes "table_ok st t"
  shows "\<exists>m. 1 \<le> m \<and> m < 2 ^ 32 \<and> lookup st t (Int_v (word_of_nat m)) = Nil_v"
proof (rule ccontr)
  assume no: "\<not> ?thesis"
  let ?I = "{1..<2 ^ 32} :: nat set"
  let ?c = "\<lambda>m. cell_of st t (Int_v (word_of_nat m))"
  have present: "lookup st t (Int_v (word_of_nat m)) \<noteq> Nil_v" if "m \<in> ?I" for m using no that by auto
  have some: "?c m \<noteq> Nilobject" if "m \<in> ?I" for m
  proof
    assume "?c m = Nilobject"
    then show False using present [OF that] by (simp add: lookup_def read_cell_def)
  qed
  have inj: "inj_on ?c ?I"
  proof (rule inj_onI)
    fix m m'
    assume m: "m \<in> ?I" "m' \<in> ?I" "?c m = ?c m'"
    have "luaV_rawequalobj st (Int_v (word_of_nat m)) (Int_v (word_of_nat m'))"
      by (rule cell_of_same [OF assms _ _ m(3) some [OF m(1)]]) simp_all
    then have "(word_of_nat m :: lua_Integer) = word_of_nat m'" by (simp add: luaV_rawequalobj_def)
    then have "unat (word_of_nat m :: lua_Integer) = unat (word_of_nat m' :: lua_Integer)" by simp
    then show "m = m'" using m(1,2) unfolding unat_of_nat by simp
  qed
  have sub: "?c ` ?I \<subseteq> Arr ` {..<sizearray t} \<union> Nod ` {..<sizenode t}"
  proof (rule image_subsetI)
    fix m
    assume "m \<in> ?I"
    then have "cell_in t (?c m)" by (intro cell_of_in [OF assms] some) simp_all
    then show "?c m \<in> Arr ` {..<sizearray t} \<union> Nod ` {..<sizenode t}"
      by (auto simp: cell_in_def split: cell.splits)
  qed
  have "card ?I = card (?c ` ?I)" using inj by (simp only: card_image)
  also have "\<dots> \<le> card (Arr ` {..<sizearray t} \<union> Nod ` {..<sizenode t})"
    by (rule card_mono [OF _ sub]) simp
  also have "\<dots> \<le> card (Arr ` {..<sizearray t}) + card (Nod ` {..<sizenode t})" by (rule card_Un_le)
  also have "\<dots> = sizearray t + sizenode t" by (simp add: card_image inj_on_def)
  finally have "2 ^ 32 - 1 \<le> sizearray t + sizenode t" by simp
  moreover have "sizenode t \<le> 2 ^ 30"
  proof -
    obtain l where l: "l \<le> MAXHBITS" "sizenode t = 2 ^ l" using table_okD(1) [OF assms] by blast
    then have "(2 :: nat) ^ l \<le> 2 ^ MAXHBITS" by (intro power_increasing) simp_all
    then show ?thesis using l by (simp add: MAXHBITS_def MAXABITS_def)
  qed
  moreover have "sizearray t \<le> 2 ^ 31"
    using table_okD(7) [OF assms] by (simp add: MAXASIZE_def MAXABITS_def)
  ultimately show False by simp
qed

lemma linear_search_border:
  assumes "strings_ok st seed" "table_ok st t"
    and "lookup st t (Int_v (word_of_nat m)) = Nil_v" "m < 2 ^ 32"
  shows "1 \<le> i \<Longrightarrow> i \<le> m \<Longrightarrow> i = 1 \<or> lookup st t (Int_v (word_of_nat (i - 1))) \<noteq> Nil_v \<Longrightarrow>
    \<exists>n < 2 ^ 32. linear_search t i = Some n \<and> border st t n"
proof (induction "m - i" arbitrary: i rule: less_induct)
  case less
  note v = int_value_lookup [OF assms(1,2), of i]
  show ?case
  proof (cases "lookup st t (Int_v (word_of_nat i)) = Nil_v")
    case True
    then have "linear_search t i = Some (i - 1)" using v by (subst linear_search.simps) simp
    moreover have "border st t (i - 1)" using less.prems True by (auto simp: border_def)
    moreover have "i - 1 < 2 ^ 32" using less.prems assms(4) by simp
    ultimately show ?thesis by blast
  next
    case False
    with assms(3) less.prems have "i < m" by (cases "i = m") auto
    then have "(i + 1) mod 2 ^ 32 = i + 1" using assms(4) by simp
    then have "linear_search t i = linear_search t (i + 1)"
      using v False by (subst linear_search.simps) simp
    moreover have "\<exists>n < 2 ^ 32. linear_search t (i + 1) = Some n \<and> border st t n"
      using \<open>i < m\<close> False by (intro less.hyps) simp_all
    ultimately show ?thesis by simp
  qed
qed

lemma unbound_loop_border:
  assumes "strings_ok st seed" "table_ok st t"
  shows "i < j \<Longrightarrow> j \<le> 2 ^ 32 \<Longrightarrow> i = 0 \<or> lookup st t (Int_v (word_of_nat i)) \<noteq> Nil_v \<Longrightarrow>
    \<exists>n < 2 ^ 32. unbound_loop t i j = Some n \<and> border st t n"
proof (induction "MAX_INT + 1 - j" arbitrary: i j rule: less_induct)
  case less
  note v = int_value_lookup [OF assms]
  show ?case
  proof (cases "lookup st t (Int_v (word_of_nat j)) = Nil_v")
    case True
    then have "unbound_loop t i j = bin_search (int_value t) i j"
      using v [of j] by (subst unbound_loop.simps) simp
    moreover obtain n where "bin_search (int_value t) i j = Some n" "n < j"
      "n = 0 \<or> lookup st t (Int_v (word_of_nat n)) \<noteq> Nil_v"
      "lookup st t (Int_v (word_of_nat (n + 1))) = Nil_v"
      using bin_search_border [of i j "int_value t" "\<lambda>m. lookup st t (Int_v (word_of_nat m))"] less.prems v True
      by blast
    moreover from this(2) have "n < 2 ^ 32" using less.prems(2) by linarith
    ultimately show ?thesis by (auto simp: border_def)
  next
    case False
    show ?thesis
    proof (cases "j > MAX_INT div 2")
      case True
      then have "unbound_loop t i j = linear_search t 1"
        using v [of j] False by (subst unbound_loop.simps) simp
      moreover obtain m where "1 \<le> m" "m < 2 ^ 32" "lookup st t (Int_v (word_of_nat m)) = Nil_v"
        using absent_index [OF assms(2)] by blast
      ultimately show ?thesis using linear_search_border [OF assms, of m 1] by simp
    next
      case small: False
      then have "unbound_loop t i j = unbound_loop t j (j * 2)"
        using v [of j] False by (subst unbound_loop.simps) simp
      moreover have "\<exists>n < 2 ^ 32. unbound_loop t j (j * 2) = Some n \<and> border st t n"
        using small less.prems(1) False by (intro less.hyps) (auto simp: MAX_INT_def)
      ultimately show ?thesis by simp
    qed
  qed
qed

lemma getn_result:
  assumes "strings_ok st seed" "table_ok st t"
  shows "\<exists>n < 2 ^ 32. luaH_getn t = Some n \<and> border st t n"
proof -
  let ?a = "sizearray t" and ?f = "\<lambda>m. lookup st t (Int_v (word_of_nat m))"
  have small: "?a \<le> 2 ^ 31" using table_okD(7) [OF assms(2)] by (simp add: MAXASIZE_def MAXABITS_def)
  have arr: "?f m = array t ! (m - 1)" if "0 < m" "m \<le> ?a" for m
  proof -
    have "unat ((word_of_nat (m - 1 + 1) :: lua_Integer) - 1) = m - 1"
      using that small by (intro int_key_index) simp
    then have "array_slot t (Int_v (word_of_nat m)) = Some (m - 1)" using that by (simp add: array_slot_def)
    then show ?thesis by (simp add: lookup_slot)
  qed
  show ?thesis
  proof (cases "?a > 0 \<and> array t ! (?a - 1) = Nil_v")
    case True
    define f where "f m = (if m \<le> ?a then ?f m else Nil_v)" for m
    have "f ?a = Nil_v" using True arr [of ?a] by (simp add: f_def)
    then obtain n where n: "bin_search (\<lambda>m. Some (array t ! (m - 1))) 0 ?a = Some n" "n < ?a"
      "n = 0 \<or> f n \<noteq> Nil_v" "f (n + 1) = Nil_v"
      using bin_search_border [of 0 ?a "\<lambda>m. Some (array t ! (m - 1))" f] True arr
      by (auto simp: f_def)
    then have "border st t n" by (auto simp: border_def f_def)
    moreover have "n < 2 ^ 32" using n(2) small by simp
    ultimately show ?thesis using n(1) True by (simp add: luaH_getn_def Let_def)
  next
    case False
    then have last: "?a = 0 \<or> ?f ?a \<noteq> Nil_v" using arr [of ?a] by auto
    show ?thesis
    proof (cases "isdummy t")
      case True
      have "unat ((word_of_nat (?a + 1) :: lua_Integer) - 1) = ?a" using small by (intro int_key_index) simp
      then have slot: "array_slot t (Int_v (word_of_nat (?a + 1))) = None" by (simp add: array_slot_def)
      have "live (nodes t) = {}" using table_okD(3) [OF assms(2) True] by (simp add: live_def dummynode_def)
      then have "?f (?a + 1) = v \<Longrightarrow> v = Nil_v" for v
        using lookup_hash [OF assms(2) _ slot, of v] by auto
      then have "border st t ?a" using last by (simp add: border_def)
      moreover have "?a < 2 ^ 32" using small by simp
      ultimately show ?thesis using False True by (auto simp: luaH_getn_def Let_def)
    next
      case hash: False
      then have "luaH_getn t = unbound_loop t ?a (?a + 1)"
        using False by (auto simp: luaH_getn_def Let_def unbound_search_def)
      then show ?thesis using unbound_loop_border [OF assms, of ?a "?a + 1"] last small by simp
    qed
  qed
qed

text \<open>C23: The length operator returns, and what it returns is a border: on every well-formed table
  \<open>luaH_getn\<close> ends with an unsigned number \<open>n\<close> such that \<open>n\<close> is zero or a present index, and the index after
  \<open>n\<close> is absent; even for hash parts whose integer keys defeat the doubling search.\<close>

theorem getn_border:
  assumes "strings_ok st seed" "table_ok st t"
  shows "\<exists>n < 2 ^ 32. luaH_getn t = Some n \<and> border st t n"
  by (rule getn_result [OF assms])

theorem getn_border_witness: "\<exists>n < 2 ^ 32. luaH_getn small_table = Some n \<and> border short_strings small_table n"
  by (rule getn_border [OF short_strings_ok small_table_ok])

end
