(* ===== verification/LuaMatch.thy ===== *)
theory LuaMatch
  imports LuaObject
begin

text \<open>
  The pattern matcher of \<open>lstrlib.c\<close>. Pointers into the subject and the pattern are indices into
  the two byte lists, whose end is the NUL that Lua strings carry; what of \<open>MatchState\<close> never changes
  during a match (\<open>src_init\<close>, \<open>src_end\<close>, \<open>p_end\<close>) is those two lists, the rest is the state of a
  program. Every dereference is checked: \<open>Overread\<close> is a read behind the NUL, which C leaves
  undefined.

  Characters are their codes: \<open>%\<close> 37, \<open>(\<close> 40, \<open>)\<close> 41, \<open>[\<close> 91, \<open>]\<close> 93, \<open>^\<close> 94, \<open>$\<close> 36, \<open>.\<close> 46,
  \<open>*\<close> 42, \<open>+\<close> 43, \<open>-\<close> 45, \<open>?\<close> 63.
\<close>

datatype match_error =
    Match_error string | Arg_failure nat string | Invalid_index int | Overread | Sum_overflow

section \<open>Fallible reads\<close>

definition bind_e :: "'e + 'a \<Rightarrow> ('a \<Rightarrow> 'e + 'b) \<Rightarrow> 'e + 'b" where
  "bind_e m f = (case m of Inl e \<Rightarrow> Inl e | Inr a \<Rightarrow> f a)"

lemma bind_e_cong [fundef_cong]:
  "m = m' \<Longrightarrow> (\<And>a. m' = Inr a \<Longrightarrow> f a = f' a) \<Longrightarrow> bind_e m f = bind_e m' f'"
  by (auto simp: bind_e_def split: sum.split)

lemma bind_e_simps [simp]: "bind_e (Inl e) f = Inl e" "bind_e (Inr a) f = f a"
  by (simp_all add: bind_e_def)

lemma bind_e_Inr: "bind_e m f = Inr b \<longleftrightarrow> (\<exists>a. m = Inr a \<and> f a = Inr b)"
  by (cases m) auto

lemma bind_e_Inl: "bind_e m f = Inl e \<longleftrightarrow> m = Inl e \<or> (\<exists>a. m = Inr a \<and> f a = Inl e)"
  by (cases m) auto

definition rd :: "bytes \<Rightarrow> nat \<Rightarrow> match_error + byte" where
  "rd str i = (if i \<le> length str then Inr (byte_at str i) else Inl Overread)"

lemma rd_ok [simp]: "i \<le> length str \<Longrightarrow> rd str i = Inr (byte_at str i)"
  by (simp add: rd_def)

lemma rd_Inr: "rd str i = Inr b \<longleftrightarrow> i \<le> length str \<and> b = byte_at str i"
  by (auto simp: rd_def)

lemma rd_Inl: "rd str i = Inl e \<longleftrightarrow> length str < i \<and> e = Overread"
  by (auto simp: rd_def)

section \<open>Character classes\<close>

text \<open>The classes of \<open>ctype.h\<close> in the C locale.\<close>

definition c_isdigit :: "byte \<Rightarrow> bool" where "c_isdigit c \<longleftrightarrow> 48 \<le> c \<and> c \<le> 57"
definition c_islower :: "byte \<Rightarrow> bool" where "c_islower c \<longleftrightarrow> 97 \<le> c \<and> c \<le> 122"
definition c_isupper :: "byte \<Rightarrow> bool" where "c_isupper c \<longleftrightarrow> 65 \<le> c \<and> c \<le> 90"
definition c_isalpha :: "byte \<Rightarrow> bool" where "c_isalpha c \<longleftrightarrow> c_islower c \<or> c_isupper c"
definition c_isalnum :: "byte \<Rightarrow> bool" where "c_isalnum c \<longleftrightarrow> c_isalpha c \<or> c_isdigit c"
definition c_iscntrl :: "byte \<Rightarrow> bool" where "c_iscntrl c \<longleftrightarrow> c < 32 \<or> c = 127"
definition c_isgraph :: "byte \<Rightarrow> bool" where "c_isgraph c \<longleftrightarrow> 33 \<le> c \<and> c \<le> 126"
definition c_ispunct :: "byte \<Rightarrow> bool" where "c_ispunct c \<longleftrightarrow> c_isgraph c \<and> \<not> c_isalnum c"
definition c_isspace :: "byte \<Rightarrow> bool" where "c_isspace c \<longleftrightarrow> 9 \<le> c \<and> c \<le> 13 \<or> c = 32"
definition c_isxdigit :: "byte \<Rightarrow> bool" where
  "c_isxdigit c \<longleftrightarrow> c_isdigit c \<or> 65 \<le> c \<and> c \<le> 70 \<or> 97 \<le> c \<and> c \<le> 102"
definition c_tolower :: "byte \<Rightarrow> byte" where "c_tolower c = (if c_isupper c then c + 32 else c)"
definition c_toupper :: "byte \<Rightarrow> byte" where "c_toupper c = (if c_islower c then c - 32 else c)"

definition L_ESC :: byte where "L_ESC = 37"

definition match_class :: "byte \<Rightarrow> byte \<Rightarrow> bool" where
  "match_class c cl =
     (let l = c_tolower cl;
          res =
            (if l = 97 then Some (c_isalpha c)
             else if l = 99 then Some (c_iscntrl c)
             else if l = 100 then Some (c_isdigit c)
             else if l = 103 then Some (c_isgraph c)
             else if l = 108 then Some (c_islower c)
             else if l = 112 then Some (c_ispunct c)
             else if l = 115 then Some (c_isspace c)
             else if l = 117 then Some (c_isupper c)
             else if l = 119 then Some (c_isalnum c)
             else if l = 120 then Some (c_isxdigit c)
             else if l = 122 then Some (c = 0)
             else None)
      in case res of None \<Rightarrow> cl = c | Some r \<Rightarrow> if c_islower cl then r else \<not> r)"

section \<open>Single characters\<close>

text \<open>The loop of \<open>classend\<close> that looks for the closing bracket.\<close>

function class_close :: "bytes \<Rightarrow> nat \<Rightarrow> match_error + nat" where
  "class_close pat p =
     (if p = length pat then Inl (Match_error (''malformed pattern (missing '' @ [CHR 0x27, CHR '']'', CHR 0x27, CHR '')'']))
      else
        bind_e (rd pat p) (\<lambda>c.
          let p2 = (if c = L_ESC \<and> p + 1 < length pat then p + 2 else p + 1)
          in bind_e (rd pat p2) (\<lambda>c'. if c' \<noteq> 93 then class_close pat p2 else Inr (p2 + 1))))"
  by pat_completeness auto
termination by (relation "measure (\<lambda>(pat, p). length pat + 1 - p)") (auto simp: rd_Inr split: if_splits)

declare class_close.simps [simp del]

definition classend :: "bytes \<Rightarrow> nat \<Rightarrow> match_error + nat" where
  "classend pat p =
     bind_e (rd pat p) (\<lambda>c.
       if c = L_ESC then
         if p + 1 = length pat then Inl (Match_error (''malformed pattern (ends with '' @ [CHR 0x27, CHR ''%'', CHR 0x27, CHR '')'']))
         else Inr (p + 2)
       else if c = 91 then
         bind_e (rd pat (p + 1)) (\<lambda>c'. class_close pat (if c' = 94 then p + 2 else p + 1))
       else Inr (p + 1))"

text \<open>The loop of \<open>matchbracketclass\<close>, from the position before the next one.\<close>

function bracket_loop :: "bytes \<Rightarrow> byte \<Rightarrow> bool \<Rightarrow> nat \<Rightarrow> nat \<Rightarrow> match_error + bool" where
  "bracket_loop pat c sig p ec =
     (if p + 1 < ec then
        bind_e (rd pat (p + 1)) (\<lambda>b.
          if b = L_ESC then
            bind_e (rd pat (p + 2)) (\<lambda>cl.
              if match_class c cl then Inr sig else bracket_loop pat c sig (p + 2) ec)
          else
            bind_e (rd pat (p + 2)) (\<lambda>b'.
              if b' = 45 \<and> p + 3 < ec then
                bind_e (rd pat (p + 3)) (\<lambda>hi.
                  if b \<le> c \<and> c \<le> hi then Inr sig else bracket_loop pat c sig (p + 3) ec)
              else if b = c then Inr sig
              else bracket_loop pat c sig (p + 1) ec))
      else Inr (\<not> sig))"
  by pat_completeness auto
termination by (relation "measure (\<lambda>(pat, c, sig, p, ec). ec - p)") auto

declare bracket_loop.simps [simp del]

definition matchbracketclass :: "bytes \<Rightarrow> byte \<Rightarrow> nat \<Rightarrow> nat \<Rightarrow> match_error + bool" where
  "matchbracketclass pat c p ec =
     bind_e (rd pat (p + 1)) (\<lambda>b.
       if b = 94 then bracket_loop pat c False (p + 1) ec else bracket_loop pat c True p ec)"

definition singlematch :: "bytes \<Rightarrow> bytes \<Rightarrow> nat \<Rightarrow> nat \<Rightarrow> nat \<Rightarrow> match_error + bool" where
  "singlematch src pat s p ep =
     (if s \<ge> length src then Inr False
      else
        bind_e (rd src s) (\<lambda>c. bind_e (rd pat p) (\<lambda>b.
          if b = 46 then Inr True
          else if b = L_ESC then bind_e (rd pat (p + 1)) (\<lambda>cl. Inr (match_class c cl))
          else if b = 91 then matchbracketclass pat c p (ep - 1)
          else Inr (b = c))))"

text \<open>The loop of \<open>matchbalance\<close>, from the position before the next one.\<close>

function balance_loop :: "bytes \<Rightarrow> byte \<Rightarrow> byte \<Rightarrow> nat \<Rightarrow> nat \<Rightarrow> match_error + nat option" where
  "balance_loop src b e s cont =
     (if s + 1 < length src then
        bind_e (rd src (s + 1)) (\<lambda>c.
          if c = e then
            if cont - 1 = 0 then Inr (Some (s + 2)) else balance_loop src b e (s + 1) (cont - 1)
          else if c = b then balance_loop src b e (s + 1) (cont + 1)
          else balance_loop src b e (s + 1) cont)
      else Inr None)"
  by pat_completeness auto
termination by (relation "measure (\<lambda>(src, b, e, s, cont). length src - s)") auto

declare balance_loop.simps [simp del]

definition matchbalance :: "bytes \<Rightarrow> bytes \<Rightarrow> nat \<Rightarrow> nat \<Rightarrow> match_error + nat option" where
  "matchbalance src pat s p =
     (if p + 1 \<ge> length pat then
        Inl (Match_error (''malformed pattern (missing arguments to '' @ [CHR 0x27, CHR ''%'', CHR ''b'', CHR 0x27, CHR '')'']))
      else
        bind_e (rd src s) (\<lambda>c. bind_e (rd pat p) (\<lambda>b.
          if c \<noteq> b then Inr None
          else bind_e (rd pat (p + 1)) (\<lambda>e. balance_loop src b e s 1))))"

section \<open>Captures\<close>

definition LUA_MAXCAPTURES :: nat where "LUA_MAXCAPTURES = 32"
definition CAP_UNFINISHED :: int where "CAP_UNFINISHED = - 1"
definition CAP_POSITION :: int where "CAP_POSITION = - 2"

text \<open>A capture is its \<open>init\<close> and its \<open>len\<close>. \<open>level\<close> counts those in use.\<close>

type_synonym capture = "nat \<times> int"

record match_state =
  nrep :: nat
  level :: nat
  capture :: "capture list"

type_synonym 'a matcher = "(match_state, match_error, 'a) prog"

definition lift_e :: "match_error + 'a \<Rightarrow> 'a matcher" where
  "lift_e m = (\<lambda>ms. (m, ms))"

definition check_capture :: "byte \<Rightarrow> match_state \<Rightarrow> match_error + nat" where
  "check_capture c ms =
     (let l = uint c - 49 in
      if l < 0 \<or> l \<ge> int (level ms) \<or> snd (capture ms ! nat l) = CAP_UNFINISHED
      then Inl (Invalid_index (l + 1)) else Inr (nat l))"

text \<open>The unfinished capture of the highest level below \<open>n\<close>.\<close>

primrec open_below :: "capture list \<Rightarrow> nat \<Rightarrow> nat option" where
  "open_below cs 0 = None"
| "open_below cs (Suc n) = (if snd (cs ! n) = CAP_UNFINISHED then Some n else open_below cs n)"

definition capture_to_close :: "match_state \<Rightarrow> match_error + nat" where
  "capture_to_close ms =
     (case open_below (capture ms) (level ms) of
        Some l \<Rightarrow> Inr l | None \<Rightarrow> Inl (Match_error ''invalid pattern capture''))"

text \<open>
  The functions that call \<open>match\<close> take it as a parameter: the recursion is closed below. Its
  arguments are the positions in the subject and in the pattern, its result the end of the match.
\<close>

type_synonym rmatch = "nat \<Rightarrow> nat \<Rightarrow> nat option matcher"

definition start_capture :: "rmatch \<Rightarrow> nat \<Rightarrow> nat \<Rightarrow> int \<Rightarrow> nat option matcher" where
  "start_capture rec s p what =
     andThen (gets level) (\<lambda>l.
       if l \<ge> LUA_MAXCAPTURES then stop (Match_error ''too many captures'')
       else
         thenDo (modify (\<lambda>ms. ms\<lparr>capture := (capture ms)[l := (s, what)], level := l + 1\<rparr>))
           (andThen (rec s p) (\<lambda>res.
             if res = None then thenDo (modify (\<lambda>ms. ms\<lparr>level := level ms - 1\<rparr>)) (ret None)
             else ret res)))"

definition set_len :: "nat \<Rightarrow> int \<Rightarrow> match_state \<Rightarrow> match_state" where
  "set_len l n ms = ms\<lparr>capture := (capture ms)[l := (fst (capture ms ! l), n)]\<rparr>"

definition end_capture :: "rmatch \<Rightarrow> nat \<Rightarrow> nat \<Rightarrow> nat option matcher" where
  "end_capture rec s p =
     andThen (\<lambda>ms. (capture_to_close ms, ms)) (\<lambda>l.
       thenDo (modify (\<lambda>ms. set_len l (int s - int (fst (capture ms ! l))) ms))
         (andThen (rec s p) (\<lambda>res.
           if res = None then thenDo (modify (set_len l CAP_UNFINISHED)) (ret None)
           else ret res)))"

text \<open>\<open>len\<close> is converted to \<open>size_t\<close>: that of a position capture is larger than any string.\<close>

definition match_capture :: "bytes \<Rightarrow> nat \<Rightarrow> byte \<Rightarrow> match_state \<Rightarrow> match_error + nat option" where
  "match_capture src s c ms =
     bind_e (check_capture c ms) (\<lambda>l.
       let (init, n) = capture ms ! l; len = nat (n mod 2 ^ 64) in
       if length src - s \<ge> len \<and> take len (drop init src) = take len (drop s src)
       then Inr (Some (s + len)) else Inr None)"

section \<open>Repetitions\<close>

lemma singlematch_less: "singlematch src pat s p ep = Inr True \<Longrightarrow> s < length src"
  by (simp add: singlematch_def split: if_splits)

function max_count :: "bytes \<Rightarrow> bytes \<Rightarrow> nat \<Rightarrow> nat \<Rightarrow> nat \<Rightarrow> nat \<Rightarrow> match_error + nat" where
  "max_count src pat s p ep i =
     bind_e (singlematch src pat (s + i) p ep) (\<lambda>b.
       if b then max_count src pat s p ep (i + 1) else Inr i)"
  by pat_completeness auto
termination
  by (relation "measure (\<lambda>(src, pat, s, p, ep, i). length src - (s + i))")
    (auto dest!: singlematch_less)

declare max_count.simps [simp del]

text \<open>\<open>while (i>=0)\<close>: try \<open>i\<close> repetitions, then one fewer.\<close>

primrec try_down :: "(nat \<Rightarrow> nat option matcher) \<Rightarrow> nat \<Rightarrow> nat option matcher" where
  "try_down m 0 = m 0"
| "try_down m (Suc i) =
     andThen (m (Suc i)) (\<lambda>res. if res \<noteq> None then ret res else try_down m i)"

definition max_expand :: "bytes \<Rightarrow> bytes \<Rightarrow> rmatch \<Rightarrow> nat \<Rightarrow> nat \<Rightarrow> nat \<Rightarrow> nat option matcher" where
  "max_expand src pat rec s p ep =
     andThen (lift_e (max_count src pat s p ep 0)) (try_down (\<lambda>i. rec (s + i) (ep + 1)))"

function min_expand :: "bytes \<Rightarrow> bytes \<Rightarrow> rmatch \<Rightarrow> nat \<Rightarrow> nat \<Rightarrow> nat \<Rightarrow> nat option matcher" where
  "min_expand src pat rec s p ep ms =
     (case rec s (ep + 1) ms of
        (Inl e, ms') \<Rightarrow> (Inl e, ms')
      | (Inr (Some e), ms') \<Rightarrow> (Inr (Some e), ms')
      | (Inr None, ms') \<Rightarrow>
          (case singlematch src pat s p ep of
             Inl e \<Rightarrow> (Inl e, ms')
           | Inr b \<Rightarrow> if b then min_expand src pat rec (s + 1) p ep ms' else (Inr None, ms')))"
  by pat_completeness auto
termination
  by (relation "measure (\<lambda>(src, pat, rec, s, p, ep, ms). length src - s)")
    (auto dest!: singlematch_less)

declare min_expand.simps [simp del]

section \<open>The matcher\<close>

text \<open>One turn of the loop at \<open>init\<close>: a result, or \<open>goto init\<close> with new positions.\<close>

datatype turn = Return "nat option" | Goto nat nat

definition return_of :: "nat option matcher \<Rightarrow> turn matcher" where
  "return_of m = andThen m (\<lambda>r. ret (Return r))"

definition dflt :: "bytes \<Rightarrow> bytes \<Rightarrow> rmatch \<Rightarrow> nat \<Rightarrow> nat \<Rightarrow> turn matcher" where
  "dflt src pat rec s p =
     andThen (lift_e (classend pat p)) (\<lambda>ep.
     andThen (lift_e (singlematch src pat s p ep)) (\<lambda>single.
     andThen (lift_e (rd pat ep)) (\<lambda>suffix.
       if \<not> single then
         if suffix = 42 \<or> suffix = 63 \<or> suffix = 45 then ret (Goto s (ep + 1))
         else ret (Return None)
       else
         andThen (gets nrep) (\<lambda>n.
         if n = 0 then stop (Match_error ''pattern too complex'')
         else
           thenDo (modify (\<lambda>ms. ms\<lparr>nrep := n - 1\<rparr>))
             (if suffix = 63 then
                andThen (rec (s + 1) (ep + 1)) (\<lambda>res.
                  if res \<noteq> None then ret (Return res) else ret (Goto s (ep + 1)))
              else if suffix = 43 then return_of (max_expand src pat rec (s + 1) p ep)
              else if suffix = 42 then return_of (max_expand src pat rec s p ep)
              else if suffix = 45 then return_of (min_expand src pat rec s p ep)
              else ret (Goto (s + 1) ep))))))"

definition frontier :: "bytes \<Rightarrow> bytes \<Rightarrow> nat \<Rightarrow> nat \<Rightarrow> match_error + turn" where
  "frontier src pat s p =
     bind_e (rd pat p) (\<lambda>b.
       if b \<noteq> 91 then Inl (Match_error (''missing '' @ [CHR 0x27, CHR ''['', CHR 0x27] @ '' after '' @ [CHR 0x27, CHR ''%'', CHR ''f'', CHR 0x27] @ '' in pattern''))
       else
         bind_e (classend pat p) (\<lambda>ep.
         bind_e (if s = 0 then Inr 0 else rd src (s - 1)) (\<lambda>previous.
         bind_e (matchbracketclass pat previous p (ep - 1)) (\<lambda>before.
           if before then Inr (Return None)
           else
             bind_e (rd src s) (\<lambda>c.
             bind_e (matchbracketclass pat c p (ep - 1)) (\<lambda>after.
               if after then Inr (Goto s ep) else Inr (Return None)))))))"

definition match_escape :: "bytes \<Rightarrow> bytes \<Rightarrow> rmatch \<Rightarrow> nat \<Rightarrow> nat \<Rightarrow> turn matcher" where
  "match_escape src pat rec s p =
     andThen (lift_e (rd pat (p + 1))) (\<lambda>c.
       if c = 98 then
         andThen (lift_e (matchbalance src pat s (p + 2))) (\<lambda>r.
           case r of Some s' \<Rightarrow> ret (Goto s' (p + 4)) | None \<Rightarrow> ret (Return None))
       else if c = 102 then lift_e (frontier src pat s (p + 2))
       else if c_isdigit c then
         andThen (\<lambda>ms. (match_capture src s c ms, ms)) (\<lambda>r.
           case r of Some s' \<Rightarrow> ret (Goto s' (p + 2)) | None \<Rightarrow> ret (Return None))
       else dflt src pat rec s p)"

definition match_turn :: "bytes \<Rightarrow> bytes \<Rightarrow> rmatch \<Rightarrow> nat \<Rightarrow> nat \<Rightarrow> turn matcher" where
  "match_turn src pat rec s p =
     andThen (lift_e (rd pat p)) (\<lambda>c.
       if c = 40 then
         andThen (lift_e (rd pat (p + 1))) (\<lambda>c'.
           if c' = 41 then return_of (start_capture rec s (p + 2) CAP_POSITION)
           else return_of (start_capture rec s (p + 1) CAP_UNFINISHED))
       else if c = 41 then return_of (end_capture rec s (p + 1))
       else if c = 36 \<and> p + 1 = length pat then
         ret (Return (if s = length src then Some s else None))
       else if c = L_ESC then match_escape src pat rec s p
       else dflt src pat rec s p)"

text \<open>The positions an item ends at.\<close>

lemma byte_at_less: "byte_at str i \<noteq> 0 \<Longrightarrow> i < length str"
  by (simp add: byte_at_def split: if_splits)

lemma class_close_end: "class_close pat p = Inr ep \<Longrightarrow> p < ep \<and> ep \<le> length pat"
proof (induction pat p rule: class_close.induct)
  case (1 pat p)
  let ?p2 = "if byte_at pat p = L_ESC \<and> p + 1 < length pat then p + 2 else p + 1"
  have p: "p \<noteq> length pat" "p \<le> length pat" "?p2 \<le> length pat"
    and rec: "(if byte_at pat ?p2 \<noteq> 93 then class_close pat ?p2 else Inr (?p2 + 1)) = Inr ep"
    using "1.prems" unfolding class_close.simps [of pat p]
    by (auto simp: bind_e_Inr rd_Inr Let_def split: if_splits)
  show ?case
  proof (cases "byte_at pat ?p2 = 93")
    case True
    then have "?p2 < length pat" by (intro byte_at_less) simp
    with rec True show ?thesis by (simp split: if_splits)
  next
    case False
    have "?p2 < ep \<and> ep \<le> length pat"
      by (rule "1.IH" [OF p(1) rd_ok [OF p(2)] refl rd_ok [OF p(3)] False]) (use rec False in simp)
    then show ?thesis by (simp split: if_splits)
  qed
qed

lemma classend_end:
  assumes "classend pat p = Inr ep"
  shows "p < ep \<and> p \<le> length pat \<and> (p < length pat \<longrightarrow> ep \<le> length pat)"
  using assms class_close_end [of pat "p + 1" ep] class_close_end [of pat "p + 2" ep]
  by (auto simp: classend_def bind_e_Inr rd_Inr split: if_splits)

lemma lift_e_run [prog_simps]: "lift_e m ms = (m, ms)"
  by (simp add: lift_e_def)

lemma return_of_not_Goto: "return_of m ms \<noteq> (Inr (Goto s' p'), ms')"
  by (auto simp: return_of_def andThen_Inr ret_def)

lemma dflt_Goto:
  assumes "dflt src pat rec s p ms = (Inr (Goto s' p'), ms')"
  shows "p < p' \<and> p \<le> length pat"
proof -
  obtain ep where "classend pat p = Inr ep"
    using assms by (auto simp: dflt_def andThen_Inr lift_e_def)
  moreover from this have "p' \<in> {ep, ep + 1}"
    using assms return_of_not_Goto
    by (auto simp: dflt_def andThen_Inr thenDo_Inr lift_e_def ret_def gets_def stop_def split: if_splits)
  ultimately show ?thesis using classend_end by fastforce
qed

lemma frontier_Goto: "frontier src pat s p = Inr (Goto s' p') \<Longrightarrow> s' = s \<and> classend pat p = Inr p'"
  by (auto simp: frontier_def bind_e_Inr split: if_splits)

lemma match_turn_progress:
  assumes "match_turn src pat rec s p ms = (Inr (Goto s' p'), ms')"
  shows "p < p' \<and> p \<le> length pat"
proof -
  have p: "p \<le> length pat"
    using assms by (auto simp: match_turn_def andThen_Inr lift_e_def rd_Inr)
  have esc: "p < p'" if "match_escape src pat rec s p ms = (Inr (Goto s' p'), ms')"
    using that dflt_Goto [of src pat rec s p ms s' p' ms'] frontier_Goto classend_end
    by (fastforce simp: match_escape_def andThen_Inr lift_e_def ret_def split: if_splits option.splits)
  show ?thesis
    using assms p esc dflt_Goto return_of_not_Goto
    by (auto simp: match_turn_def andThen_Inr lift_e_def ret_def split: if_splits)
qed

function match_loop :: "bytes \<Rightarrow> bytes \<Rightarrow> rmatch \<Rightarrow> nat \<Rightarrow> nat \<Rightarrow> match_state \<Rightarrow> (match_error + nat option) \<times> match_state" where
  "match_loop src pat rec s p ms =
     (if p = length pat then (Inr (Some s), ms)
      else
        case match_turn src pat rec s p ms of
          (Inl e, ms') \<Rightarrow> (Inl e, ms')
        | (Inr (Return r), ms') \<Rightarrow> (Inr r, ms')
        | (Inr (Goto s' p'), ms') \<Rightarrow> match_loop src pat rec s' p' ms')"
  by pat_completeness auto
termination
  by (relation "measure (\<lambda>(src, pat, rec, s, p, ms). length pat + 1 - p)")
    (auto dest!: match_turn_progress [OF sym])

declare match_loop.simps [simp del]

text \<open>
  \<open>match\<close> at a given \<open>matchdepth\<close>: it is decremented on entry, an error at zero, and restored
  before every return.
\<close>

definition MAXCCALLS :: nat where "MAXCCALLS = 200"

primrec match_from :: "bytes \<Rightarrow> bytes \<Rightarrow> nat \<Rightarrow> rmatch" where
  "match_from src pat 0 = (\<lambda>s p. stop (Match_error ''pattern too complex''))"
| "match_from src pat (Suc d) = match_loop src pat (match_from src pat d)"

definition A_REPS :: nat where "A_REPS = 4"
definition B_REPS :: nat where "B_REPS = 100000"
definition MAX_SIZET :: nat where "MAX_SIZET = 2 ^ 64 - 1"

definition prepstate :: "nat \<Rightarrow> match_state" where
  "prepstate ls =
     \<lparr>nrep = (if ls < (MAX_SIZET - B_REPS) div A_REPS then A_REPS * ls + B_REPS else MAX_SIZET),
      level = 0, capture = replicate LUA_MAXCAPTURES (0, 0)\<rparr>"

definition reprepstate :: "match_state \<Rightarrow> match_state" where
  "reprepstate ms = ms\<lparr>level := 0\<rparr>"

end
