(* ===== verification/LuaStrLib.thy ===== *)
theory LuaStrLib
  imports LuaMatch
begin

text \<open>
  The string library (\<open>lstrlib.c\<close>) up to the pattern-matching functions. The arguments of each
  function are those left after \<open>luaL_checklstring\<close>, \<open>luaL_checkinteger\<close> and \<open>luaL_optinteger\<close>; its
  result is an error or the values it pushes. A \<open>lua_Integer\<close> is held as an \<open>int\<close>.
\<close>

datatype pushed = P_nil | P_int int | P_str bytes

definition slice :: "bytes \<Rightarrow> nat \<Rightarrow> nat \<Rightarrow> bytes" where
  "slice str i j = take (j - i) (drop i str)"

section \<open>Basic functions\<close>

definition str_len :: "bytes \<Rightarrow> int" where
  "str_len s = int (length s)"

definition posrelat :: "int \<Rightarrow> nat \<Rightarrow> int" where
  "posrelat pos len = (if pos \<ge> 0 then pos else if - pos > int len then 0 else int len + pos + 1)"

definition str_sub :: "bytes \<Rightarrow> int \<Rightarrow> int \<Rightarrow> bytes" where
  "str_sub s i j =
     (let l = length s;
          start = posrelat i l; stop = posrelat j l;
          start' = (if start < 1 then 1 else start);
          stop' = (if stop > int l then int l else stop)
      in if start' \<le> stop' then take (nat (stop' - start') + 1) (drop (nat (start' - 1)) s) else [])"

definition str_reverse :: "bytes \<Rightarrow> bytes" where
  "str_reverse s = map (\<lambda>i. s ! (length s - i - 1)) [0..<length s]"

definition str_lower :: "bytes \<Rightarrow> bytes" where
  "str_lower s = map (\<lambda>i. c_tolower (s ! i)) [0..<length s]"

definition str_upper :: "bytes \<Rightarrow> bytes" where
  "str_upper s = map (\<lambda>i. c_toupper (s ! i)) [0..<length s]"

definition MAXSIZE :: nat where "MAXSIZE = 2 ^ 31 - 1"

text \<open>\<open>while (n-- > 1)\<close>: the first \<open>n - 1\<close> copies with their separators.\<close>

primrec rep_loop :: "bytes \<Rightarrow> bytes \<Rightarrow> nat \<Rightarrow> bytes" where
  "rep_loop s sep 0 = []"
| "rep_loop s sep (Suc n) = s @ (if length sep > 0 then sep else []) @ rep_loop s sep n"

text \<open>The result is the size of the buffer that is allocated and the bytes written to it.\<close>

definition str_rep :: "bytes \<Rightarrow> int \<Rightarrow> bytes \<Rightarrow> match_error + nat \<times> bytes" where
  "str_rep s n sep =
     (let l = length s; lsep = length sep in
      if n \<le> 0 then Inr (0, [])
      else if (l + lsep) mod 2 ^ 64 < l \<or> (l + lsep) mod 2 ^ 64 > MAXSIZE div nat n
      then Inl (Match_error ''resulting string too large'')
      else Inr ((nat n * l + (nat n - 1) * lsep) mod 2 ^ 64, rep_loop s sep (nat n - 1) @ s))"

definition str_byte :: "lua_stack \<Rightarrow> bytes \<Rightarrow> int \<Rightarrow> int option \<Rightarrow> match_error + int list" where
  "str_byte L s i j =
     (let l = length s;
          posi = posrelat i l;
          pose = posrelat (case j of None \<Rightarrow> posi | Some k \<Rightarrow> k) l;
          posi' = (if posi < 1 then 1 else posi);
          pose' = (if pose > int l then int l else pose)
      in if posi' > pose' then Inr []
         else if pose' - posi' \<ge> int INT_MAX then Inl (Match_error ''string slice too long'')
         else case luaL_checkstack L (pose' - posi' + 1) of
             None \<Rightarrow> Inl Sum_overflow
           | Some False \<Rightarrow> Inl (Match_error ''stack overflow (string slice too long)'')
           | Some True \<Rightarrow>
               Inr (map (\<lambda>k. uint (byte_at s (nat (posi' + int k - 1)))) [0..<nat (pose' - posi') + 1]))"

fun char_from :: "nat \<Rightarrow> int list \<Rightarrow> match_error + bytes" where
  "char_from i [] = Inr []"
| "char_from i (c # cs) =
     (if c mod 256 = c then bind_e (char_from (i + 1) cs) (\<lambda>b. Inr (word_of_int c # b))
      else Inl (Arg_failure i ''value out of range''))"

definition str_char :: "int list \<Rightarrow> match_error + bytes" where
  "str_char cs = char_from 1 cs"

section \<open>Plain search\<close>

text \<open>
  The loop of \<open>lmemfind\<close>: \<open>off\<close> is the distance of the moving \<open>s1\<close> from the start of the subject,
  \<open>l1\<close> the number of positions left; \<open>memchr\<close> looks for the first byte.
\<close>

function lmem_loop :: "bytes \<Rightarrow> bytes \<Rightarrow> nat \<Rightarrow> nat \<Rightarrow> nat option" where
  "lmem_loop s1 s2 off l1 =
     (if l1 > 0 then
        (case find (\<lambda>i. byte_at s1 i = byte_at s2 0) [off..<off + l1] of
           None \<Rightarrow> None
         | Some i \<Rightarrow>
             if take (length s2 - 1) (drop (i + 1) s1) = drop 1 s2 then Some i
             else lmem_loop s1 s2 (i + 1) (l1 - (i + 1 - off)))
      else None)"
  by pat_completeness auto
termination
  by (relation "measure (\<lambda>(s1, s2, off, l1). l1)") (auto simp: find_Some_iff)

declare lmem_loop.simps [simp del]

definition lmemfind :: "bytes \<Rightarrow> bytes \<Rightarrow> nat option" where
  "lmemfind s1 s2 =
     (if length s2 = 0 then Some 0
      else if length s2 > length s1 then None
      else lmem_loop s1 s2 0 (length s1 - (length s2 - 1)))"

definition SPECIALS :: bytes where "SPECIALS = [94, 36, 42, 43, 63, 46, 40, 91, 37, 45]"

text \<open>\<open>strpbrk\<close> and \<open>strlen\<close> work on the C string that starts at \<open>start\<close> (\<open>p + upto\<close>).\<close>

definition c_string :: "bytes \<Rightarrow> nat \<Rightarrow> bytes" where
  "c_string p start = takeWhile (\<lambda>c. c \<noteq> 0) (drop start p)"

function nospecials_from :: "bytes \<Rightarrow> nat \<Rightarrow> bool" where
  "nospecials_from p start =
     (if list_ex (\<lambda>c. c \<in> set SPECIALS) (c_string p start) then False
      else
        let next_p = start + length (c_string p start) + 1
        in if next_p \<le> length p then nospecials_from p next_p else True)"
  by pat_completeness auto
termination by (relation "measure (\<lambda>(p, start). length p + 1 - start)") auto

declare nospecials_from.simps [simp del]

definition nospecials :: "bytes \<Rightarrow> bool" where
  "nospecials p = nospecials_from p 0"

section \<open>Results of a match\<close>

text \<open>\<open>se\<close>: the start and the end of the whole match, \<open>None\<close> when the caller passes \<open>NULL\<close>.\<close>

definition push_onecapture :: "bytes \<Rightarrow> match_state \<Rightarrow> nat \<Rightarrow> (nat \<times> nat) option \<Rightarrow> match_error + pushed" where
  "push_onecapture src ms i se =
     (if i \<ge> level ms then
        (case se of
           Some (s, e) \<Rightarrow> if i = 0 then Inr (P_str (slice src s e)) else Inl (Invalid_index (int i + 1))
         | None \<Rightarrow> Inl (Invalid_index (int i + 1)))
      else
        let (init, l) = capture ms ! i in
        if l = CAP_UNFINISHED then Inl (Match_error ''unfinished capture'')
        else if l = CAP_POSITION then Inr (P_int (int init + 1))
        else Inr (P_str (take (nat l) (drop init src))))"

fun collect_e :: "('e + 'a) list \<Rightarrow> 'e + 'a list" where
  "collect_e [] = Inr []"
| "collect_e (m # ms) = bind_e m (\<lambda>a. bind_e (collect_e ms) (\<lambda>as. Inr (a # as)))"

definition push_captures :: "bytes \<Rightarrow> match_state \<Rightarrow> (nat \<times> nat) option \<Rightarrow> match_error + pushed list" where
  "push_captures src ms se =
     (let nlevels = (if level ms = 0 \<and> se \<noteq> None then 1 else level ms)
      in collect_e (map (\<lambda>i. push_onecapture src ms i se) [0..<nlevels]))"

section \<open>\<open>find\<close>, \<open>match\<close> and \<open>gmatch\<close>\<close>

function find_loop :: "bytes \<Rightarrow> bytes \<Rightarrow> bool \<Rightarrow> bool \<Rightarrow> nat \<Rightarrow> nat \<Rightarrow> match_state \<Rightarrow> match_error + pushed list" where
  "find_loop src pat is_find anchor p s1 ms =
     (case match_from src pat MAXCCALLS s1 p (reprepstate ms) of
        (Inl e, _) \<Rightarrow> Inl e
      | (Inr (Some res), ms') \<Rightarrow>
          if is_find then
            bind_e (push_captures src ms' None) (\<lambda>vs. Inr (P_int (int s1 + 1) # P_int (int res) # vs))
          else push_captures src ms' (Some (s1, res))
      | (Inr None, ms') \<Rightarrow>
          if s1 < length src \<and> \<not> anchor then find_loop src pat is_find anchor p (s1 + 1) ms'
          else Inr [P_nil])"
  by pat_completeness auto
termination
  by (relation "measure (\<lambda>(src, pat, is_find, anchor, p, s1, ms). length src - s1)") auto

declare find_loop.simps [simp del]

definition str_find_aux :: "bool \<Rightarrow> bytes \<Rightarrow> bytes \<Rightarrow> int \<Rightarrow> bool \<Rightarrow> match_error + pushed list" where
  "str_find_aux is_find s p i plain =
     (let ls = length s; init0 = posrelat i ls; init = (if init0 < 1 then 1 else init0) in
      if init > int ls + 1 then Inr [P_nil]
      else if is_find \<and> (plain \<or> nospecials p) then
        (case lmemfind (drop (nat (init - 1)) s) p of
           Some k \<Rightarrow> Inr [P_int (init - 1 + int k + 1), P_int (init - 1 + int k + int (length p))]
         | None \<Rightarrow> Inr [P_nil])
      else
        let anchor = (byte_at p 0 = 94)
        in find_loop s p is_find anchor (if anchor then 1 else 0) (nat (init - 1)) (prepstate ls))"

definition str_find :: "bytes \<Rightarrow> bytes \<Rightarrow> int \<Rightarrow> bool \<Rightarrow> match_error + pushed list" where
  "str_find = str_find_aux True"

definition str_match :: "bytes \<Rightarrow> bytes \<Rightarrow> int \<Rightarrow> bool \<Rightarrow> match_error + pushed list" where
  "str_match = str_find_aux False"

text \<open>One call of the iterator of \<open>gmatch\<close>: the values and the state for the next call.\<close>

record gmatch_state =
  gm_src :: nat
  gm_ms :: match_state

function gmatch_loop :: "bytes \<Rightarrow> bytes \<Rightarrow> nat \<Rightarrow> match_state \<Rightarrow> match_error + (pushed list \<times> gmatch_state) option" where
  "gmatch_loop s p src ms =
     (if src \<le> length s then
        (case match_from s p MAXCCALLS src 0 (reprepstate ms) of
           (Inl e, _) \<Rightarrow> Inl e
         | (Inr (Some e), ms') \<Rightarrow>
             bind_e (push_captures s ms' (Some (src, e))) (\<lambda>vs.
               Inr (Some (vs, \<lparr>gm_src = (if e = src then src + 1 else e), gm_ms = ms'\<rparr>)))
         | (Inr None, ms') \<Rightarrow> gmatch_loop s p (src + 1) ms')
      else Inr None)"
  by pat_completeness auto
termination by (relation "measure (\<lambda>(s, p, src, ms). length s + 1 - src)") auto

declare gmatch_loop.simps [simp del]

definition gmatch_aux :: "bytes \<Rightarrow> bytes \<Rightarrow> gmatch_state \<Rightarrow> match_error + (pushed list \<times> gmatch_state) option" where
  "gmatch_aux s p gm = gmatch_loop s p (gm_src gm) (gm_ms gm)"

definition gmatch :: "bytes \<Rightarrow> gmatch_state" where
  "gmatch s = \<lparr>gm_src = 0, gm_ms = prepstate (length s)\<rparr>"

section \<open>\<open>gsub\<close>\<close>

text \<open>
  The third argument: a string, a table or a function. What indexing the table or calling the
  function gives is a parameter: \<open>nil\<close> or \<open>false\<close>, a string or number, or a value of another type.
\<close>

datatype repl_value = R_false | R_str bytes | R_other string

datatype repl = Repl_str bytes | Repl_table "pushed \<Rightarrow> repl_value" | Repl_fun "pushed list \<Rightarrow> repl_value"

fun tolstring :: "pushed \<Rightarrow> bytes" where
  "tolstring P_nil = bytes_of ''nil''"
| "tolstring (P_int i) = lua_integer2str (word_of_int i)"
| "tolstring (P_str b) = b"

text \<open>\<open>add_s\<close>: the bytes it adds for the rest of the replacement string.\<close>

fun add_s :: "bytes \<Rightarrow> match_state \<Rightarrow> nat \<Rightarrow> nat \<Rightarrow> bytes \<Rightarrow> match_error + bytes" where
  "add_s src ms s e [] = Inr []"
| "add_s src ms s e (c # news) =
     (if c \<noteq> L_ESC then bind_e (add_s src ms s e news) (\<lambda>b. Inr (c # b))
      else
        (case news of
           [] \<Rightarrow> Inl (Match_error (''invalid use of '' @ [CHR 0x27, CHR ''%'', CHR 0x27] @ '' in replacement string''))
         | d # news' \<Rightarrow>
             if \<not> c_isdigit d then
               if d \<noteq> L_ESC then
                 Inl (Match_error (''invalid use of '' @ [CHR 0x27, CHR ''%'', CHR 0x27] @ '' in replacement string''))
               else bind_e (add_s src ms s e news') (\<lambda>b. Inr (d # b))
             else if d = 48 then bind_e (add_s src ms s e news') (\<lambda>b. Inr (slice src s e @ b))
             else
               bind_e (push_onecapture src ms (unat d - 49) (Some (s, e))) (\<lambda>v.
               bind_e (add_s src ms s e news') (\<lambda>b. Inr (tolstring v @ b)))))"

definition add_value :: "bytes \<Rightarrow> match_state \<Rightarrow> nat \<Rightarrow> nat \<Rightarrow> repl \<Rightarrow> match_error + bytes" where
  "add_value src ms s e tr =
     (let kept = (\<lambda>v. case v of
          R_false \<Rightarrow> Inr (slice src s e)
        | R_str b \<Rightarrow> Inr b
        | R_other t \<Rightarrow> Inl (Match_error (''invalid replacement value (a '' @ t @ '')'')))
      in case tr of
           Repl_fun f \<Rightarrow> bind_e (push_captures src ms (Some (s, e))) (\<lambda>vs. kept (f vs))
         | Repl_table f \<Rightarrow> bind_e (push_onecapture src ms 0 (Some (s, e))) (\<lambda>v. kept (f v))
         | Repl_str news \<Rightarrow> add_s src ms s e news)"

text \<open>
  The loop of \<open>str_gsub\<close>: the position, the number of matches and the buffer so far. The test of the
  position is the model's own: it never passes the end of the subject.
\<close>

function gsub_loop ::
  "bytes \<Rightarrow> bytes \<Rightarrow> nat \<Rightarrow> bool \<Rightarrow> repl \<Rightarrow> int \<Rightarrow> nat \<Rightarrow> int \<Rightarrow> bytes \<Rightarrow> match_state \<Rightarrow> match_error + bytes \<times> int" where
  "gsub_loop s pat p anchor tr max_s src n b ms =
     (if length s < src then Inl Overread
      else if n < max_s then
        (case match_from s pat MAXCCALLS src p (reprepstate ms) of
           (Inl e, _) \<Rightarrow> Inl e
         | (Inr r, ms') \<Rightarrow>
             bind_e (case r of None \<Rightarrow> Inr [] | Some e \<Rightarrow> add_value s ms' src e tr) (\<lambda>v.
               let n' = (if r \<noteq> None then n + 1 else n); b' = b @ v in
               if r \<noteq> None \<and> the r > src then
                 if anchor then Inr (b' @ drop (the r) s, n')
                 else gsub_loop s pat p anchor tr max_s (the r) n' b' ms'
               else if src < length s then
                 if anchor then Inr (b' @ [s ! src] @ drop (src + 1) s, n')
                 else gsub_loop s pat p anchor tr max_s (src + 1) n' (b' @ [s ! src]) ms'
               else Inr (b' @ drop src s, n')))
      else Inr (b @ drop src s, n))"
  by pat_completeness auto
termination
  by (relation "measure (\<lambda>(s, pat, p, anchor, tr, max_s, src, n, b, ms). length s + 1 - src)") auto

declare gsub_loop.simps [simp del]

definition str_gsub :: "bytes \<Rightarrow> bytes \<Rightarrow> repl \<Rightarrow> int option \<Rightarrow> match_error + bytes \<times> int" where
  "str_gsub s p tr limit =
     (let max_s = (case limit of Some k \<Rightarrow> k | None \<Rightarrow> int (length s) + 1); anchor = (byte_at p 0 = 94)
      in gsub_loop s p (if anchor then 1 else 0) anchor tr max_s 0 0 [] (prepstate (length s)))"

end
