(* ===== verification/LuaMatchProps.thy ===== *)
theory LuaMatchProps
  imports LuaMatch
begin

text \<open>
  The pattern matcher against a reference: the list of all ways a pattern can match, in the order
  of preference, of which the backtracking matcher returns the first, never reading outside the
  subject or the pattern.
\<close>

section \<open>Single characters stay inside the pattern\<close>

lemma class_close_safe: "p \<le> length pat \<Longrightarrow> class_close pat p \<noteq> Inl Overread"
proof (induction pat p rule: class_close.induct)
  case (1 pat p)
  let ?p2 = "if byte_at pat p = L_ESC \<and> p + 1 < length pat then p + 2 else p + 1"
  show ?case
  proof (cases "p = length pat")
    case True
    then show ?thesis by (subst class_close.simps) simp
  next
    case False
    then have p2: "?p2 \<le> length pat" using "1.prems" by simp
    have "class_close pat ?p2 \<noteq> Inl Overread" if "byte_at pat ?p2 \<noteq> 93"
      by (rule "1.IH" [OF False rd_ok [OF "1.prems"] refl rd_ok [OF p2] that p2])
    then show ?thesis
      using False "1.prems" p2 by (simp add: class_close.simps [of pat p] Let_def)
  qed
qed

lemma classend_safe: "p < length pat \<Longrightarrow> classend pat p \<noteq> Inl Overread"
proof -
  assume p: "p < length pat"
  have "byte_at pat (p + 1) = 94 \<Longrightarrow> p + 2 \<le> length pat" using byte_at_less [of pat "p + 1"] by simp
  then show ?thesis
    using p class_close_safe [of "p + 1" pat] class_close_safe [of "p + 2" pat]
    by (auto simp: classend_def)
qed

lemma bracket_loop_ok: "ec \<le> length pat \<Longrightarrow> \<exists>b. bracket_loop pat c sig p ec = Inr b"
proof (induction pat c sig p ec rule: bracket_loop.induct)
  case (1 pat c sig p ec)
  show ?case
  proof (cases "p + 1 < ec")
    case False
    then show ?thesis by (simp add: bracket_loop.simps [of pat c sig p ec])
  next
    case True
    have r: "rd pat (p + 1) = Inr (byte_at pat (p + 1))" "rd pat (p + 2) = Inr (byte_at pat (p + 2))"
      "p + 3 < ec \<Longrightarrow> rd pat (p + 3) = Inr (byte_at pat (p + 3))"
      using True "1.prems" by simp_all
    note IH = "1.IH"(1) [OF True r(1) _ r(2)] "1.IH"(2) [OF True r(1) _ r(2)] "1.IH"(3) [OF True r(1) _ r(2)]
    show ?thesis
      unfolding bracket_loop.simps [of pat c sig p ec] using True "1.prems" IH r by auto
  qed
qed

lemma matchbracketclass_ok:
  assumes "p < length pat" "ec \<le> length pat"
  shows "\<exists>b. matchbracketclass pat c p ec = Inr b"
  using assms bracket_loop_ok [OF assms(2)] by (auto simp: matchbracketclass_def)

lemma singlematch_ok:
  assumes "p < length pat" "ep \<le> length pat"
  shows "\<exists>b. singlematch src pat s p ep = Inr b"
  using assms matchbracketclass_ok [OF assms(1), of "ep - 1"] by (auto simp: singlematch_def)

lemma balance_loop_ok:
  "s < length src \<Longrightarrow> \<exists>r. balance_loop src b e s cont = Inr r \<and> (\<forall>s'. r = Some s' \<longrightarrow> s < s' \<and> s' \<le> length src)"
proof (induction src b e s cont rule: balance_loop.induct)
  case (1 src b e s cont)
  show ?case
  proof (cases "s + 1 < length src")
    case False
    then show ?thesis by (simp add: balance_loop.simps [of src b e s cont])
  next
    case True
    have r: "rd src (s + 1) = Inr (byte_at src (s + 1))" using True by simp
    show ?thesis
      unfolding balance_loop.simps [of src b e s cont]
      using True r "1.IH"(1) [OF True r] "1.IH"(2) [OF True r] "1.IH"(3) [OF True r] by auto
  qed
qed

lemma matchbalance_ok:
  assumes "s \<le> length src"
  shows "case matchbalance src pat s p of
      Inl e \<Rightarrow> e \<noteq> Overread
    | Inr r \<Rightarrow> p + 2 \<le> length pat \<and> (\<forall>s'. r = Some s' \<longrightarrow> s < s' \<and> s' \<le> length src)"
proof (cases "p + 1 < length pat \<and> byte_at src s = byte_at pat p \<and> s < length src")
  case True
  obtain r where "balance_loop src (byte_at pat p) (byte_at pat (p + 1)) s 1 = Inr r"
    "\<forall>s'. r = Some s' \<longrightarrow> s < s' \<and> s' \<le> length src"
    using balance_loop_ok [of s src] True by blast
  then show ?thesis using True by (simp add: matchbalance_def)
next
  case False
  have "balance_loop src b e s cont = Inr None" if "s = length src" for b e cont
    using that by (simp add: balance_loop.simps)
  then show ?thesis using assms False by (auto simp: matchbalance_def not_less le_less)
qed

lemma frontier_ok:
  assumes "p \<le> length pat" "s \<le> length src"
  shows "case frontier src pat s p of
      Inl e \<Rightarrow> e \<noteq> Overread
    | Inr (Return r) \<Rightarrow> r = None
    | Inr (Goto s' p') \<Rightarrow> s' = s \<and> p < p' \<and> p' \<le> length pat"
proof (cases "byte_at pat p = 91")
  case False
  then show ?thesis using assms by (simp add: frontier_def)
next
  case True
  then have p: "p < length pat" by (intro byte_at_less) simp
  show ?thesis
  proof (cases "classend pat p")
    case (Inl e)
    then show ?thesis using True assms classend_safe [OF p] by (simp add: frontier_def)
  next
    case (Inr ep)
    then have ep: "p < ep" "ep \<le> length pat" using classend_end [of pat p ep] p by simp_all
    then have "ep - 1 \<le> length pat" by simp
    note ok = matchbracketclass_ok [OF p this]
    obtain pre where pre: "(if s = 0 then Inr 0 else rd src (s - 1)) = (Inr pre :: match_error + byte)"
      using assms(2) by (cases "s = 0") auto
    obtain b1 b2 where "matchbracketclass pat pre p (ep - 1) = Inr b1"
      "matchbracketclass pat (byte_at src s) p (ep - 1) = Inr b2"
      using ok by blast
    then show ?thesis using True assms ep Inr pre by (simp add: frontier_def)
  qed
qed

section \<open>The reference\<close>

definition run_length :: "bytes \<Rightarrow> bytes \<Rightarrow> nat \<Rightarrow> nat \<Rightarrow> nat \<Rightarrow> nat" where
  "run_length src pat s p ep =
     length (takeWhile (\<lambda>i. singlematch src pat i p ep = Inr True) [s..<length src])"

text \<open>
  All matches of the pattern from \<open>p\<close> on, as the captures they end with and their end: the
  alternatives of a repetition are listed in the order in which the manual prefers them.
\<close>

function successes :: "bytes \<Rightarrow> bytes \<Rightarrow> nat \<Rightarrow> capture list \<Rightarrow> nat \<Rightarrow> (capture list \<times> nat) list" where
  "successes src pat p c s =
     (if length pat \<le> p then [(c, s)]
      else if byte_at pat p = 40 then
        if LUA_MAXCAPTURES \<le> length c then []
        else if byte_at pat (p + 1) = 41 then successes src pat (p + 2) (c @ [(s, CAP_POSITION)]) s
        else successes src pat (p + 1) (c @ [(s, CAP_UNFINISHED)]) s
      else if byte_at pat p = 41 then
        (case open_below c (length c) of
           None \<Rightarrow> []
         | Some l \<Rightarrow> successes src pat (p + 1) (c[l := (fst (c ! l), int s - int (fst (c ! l)))]) s)
      else if byte_at pat p = 36 \<and> p + 1 = length pat then
        if s = length src then [(c, s)] else []
      else if byte_at pat p = L_ESC \<and> byte_at pat (p + 1) = 98 then
        (case matchbalance src pat s (p + 2) of
           Inr (Some s') \<Rightarrow> successes src pat (p + 4) c s' | _ \<Rightarrow> [])
      else if byte_at pat p = L_ESC \<and> byte_at pat (p + 1) = 102 then
        (case frontier src pat s (p + 2) of
           Inr (Goto s' p') \<Rightarrow> successes src pat p' c s' | _ \<Rightarrow> [])
      else if byte_at pat p = L_ESC \<and> c_isdigit (byte_at pat (p + 1)) then
        (case match_capture src s (byte_at pat (p + 1)) \<lparr>nrep = 0, level = length c, capture = c\<rparr> of
           Inr (Some s') \<Rightarrow> successes src pat (p + 2) c s' | _ \<Rightarrow> [])
      else
        (case classend pat p of
           Inl _ \<Rightarrow> []
         | Inr ep \<Rightarrow>
             let suffix = byte_at pat ep; n = run_length src pat s p ep in
             if suffix = 63 then
               (if 0 < n then successes src pat (ep + 1) c (s + 1) else []) @ successes src pat (ep + 1) c s
             else if suffix = 42 then
               concat (map (\<lambda>i. successes src pat (ep + 1) c (s + i)) (rev [0..<n + 1]))
             else if suffix = 43 then
               concat (map (\<lambda>i. successes src pat (ep + 1) c (s + i)) (rev [1..<n + 1]))
             else if suffix = 45 then
               concat (map (\<lambda>i. successes src pat (ep + 1) c (s + i)) [0..<n + 1])
             else if 0 < n then successes src pat ep c (s + 1) else []))"
  by pat_completeness auto
termination
  by (relation "measure (\<lambda>(src, pat, p, c, s). length pat - p)") (auto dest!: frontier_Goto classend_end)

declare successes.simps [simp del]

section \<open>What a call of the matcher gives\<close>

definition caps :: "match_state \<Rightarrow> capture list" where
  "caps ms = take (level ms) (capture ms)"

text \<open>A capture lies in the subject; an unfinished one has begun at or before the position.\<close>

definition cap_ok :: "bytes \<Rightarrow> nat \<Rightarrow> capture \<Rightarrow> bool" where
  "cap_ok src s c \<longleftrightarrow>
     fst c \<le> length src \<and>
     (if snd c = CAP_UNFINISHED then fst c \<le> s
      else snd c = CAP_POSITION \<or> 0 \<le> snd c \<and> int (fst c) + snd c \<le> int (length src))"

definition good :: "bytes \<Rightarrow> nat \<Rightarrow> match_state \<Rightarrow> bool" where
  "good src s ms \<longleftrightarrow>
     length (capture ms) = LUA_MAXCAPTURES \<and> level ms \<le> LUA_MAXCAPTURES \<and> s \<le> length src \<and>
     (\<forall>c \<in> set (caps ms). cap_ok src s c)"

definition same_caps :: "match_state \<Rightarrow> match_state \<Rightarrow> bool" where
  "same_caps ms ms' \<longleftrightarrow>
     level ms' = level ms \<and> caps ms' = caps ms \<and> length (capture ms') = length (capture ms)"

definition outcome ::
  "bytes \<Rightarrow> nat \<Rightarrow> match_state \<Rightarrow> (capture list \<times> nat) list \<Rightarrow> (match_error + nat option) \<times> match_state \<Rightarrow> bool" where
  "outcome src s ms L out \<longleftrightarrow>
     (case out of
        (Inl e, _) \<Rightarrow> e \<noteq> Overread
      | (Inr None, ms') \<Rightarrow> same_caps ms ms' \<and> L = []
      | (Inr (Some e), ms') \<Rightarrow> s \<le> e \<and> good src e ms' \<and> (\<exists>rest. L = (caps ms', e) # rest))"

definition rec_ok :: "bytes \<Rightarrow> bytes \<Rightarrow> rmatch \<Rightarrow> bool" where
  "rec_ok src pat rec \<longleftrightarrow>
     (\<forall>s p ms. good src s ms \<longrightarrow> p \<le> length pat \<longrightarrow>
        outcome src s ms (successes src pat p (caps ms) s) (rec s p ms))"

lemma rec_okD:
  "rec_ok src pat rec \<Longrightarrow> good src s ms \<Longrightarrow> p \<le> length pat \<Longrightarrow>
   outcome src s ms (successes src pat p (caps ms) s) (rec s p ms)"
  by (simp add: rec_ok_def)

lemma outcomeE:
  assumes "outcome src s ms L (r, ms')"
  obtains (error) e where "r = Inl e" "e \<noteq> Overread"
    | (none) "r = Inr None" "same_caps ms ms'" "L = []"
    | (some) e rest where "r = Inr (Some e)" "s \<le> e" "good src e ms'" "L = (caps ms', e) # rest"
  using assms by (auto simp: outcome_def split: sum.splits option.splits)

lemma outcome_simps [simp]:
  "outcome src s ms L (Inl e, ms') \<longleftrightarrow> e \<noteq> Overread"
  "outcome src s ms L (Inr None, ms') \<longleftrightarrow> same_caps ms ms' \<and> L = []"
  "outcome src s ms L (Inr (Some x), ms') \<longleftrightarrow> s \<le> x \<and> good src x ms' \<and> (\<exists>rest. L = (caps ms', x) # rest)"
  by (simp_all add: outcome_def)

lemma cap_ok_mono: "cap_ok src s c \<Longrightarrow> s \<le> s' \<Longrightarrow> cap_ok src s' c"
  by (auto simp: cap_ok_def split: if_splits)

lemma good_mono: "good src s ms \<Longrightarrow> s \<le> s' \<Longrightarrow> s' \<le> length src \<Longrightarrow> good src s' ms"
  using cap_ok_mono by (auto simp: good_def)

lemma good_same: "good src s ms \<Longrightarrow> same_caps ms ms' \<Longrightarrow> good src s ms'"
  by (simp add: good_def same_caps_def)

lemma same_refl [simp]: "same_caps ms ms"
  by (simp add: same_caps_def)

lemma same_trans: "same_caps ms ms' \<Longrightarrow> same_caps ms' ms'' \<Longrightarrow> same_caps ms ms''"
  by (simp add: same_caps_def)

lemma same_nrep [simp]: "same_caps ms (ms\<lparr>nrep := n\<rparr>)"
  by (simp add: same_caps_def caps_def)

lemma caps_same: "same_caps ms ms' \<Longrightarrow> caps ms' = caps ms"
  by (simp add: same_caps_def)

lemma outcome_from: "outcome src s' ms' L out \<Longrightarrow> same_caps ms ms' \<Longrightarrow> s \<le> s' \<Longrightarrow> outcome src s ms L out"
  by (auto simp: outcome_def intro: same_trans split: sum.splits option.splits prod.splits)

section \<open>Captures\<close>

lemma length_caps: "good src s ms \<Longrightarrow> length (caps ms) = level ms"
  by (simp add: good_def caps_def)

lemma start_capture_ok:
  assumes "rec_ok src pat rec" "good src s ms" "p \<le> length pat" "what = CAP_UNFINISHED \<or> what = CAP_POSITION"
  shows "outcome src s ms
    (if LUA_MAXCAPTURES \<le> length (caps ms) then [] else successes src pat p (caps ms @ [(s, what)]) s)
    (start_capture rec s p what ms)"
proof (cases "LUA_MAXCAPTURES \<le> level ms")
  case True
  then show ?thesis using length_caps [OF assms(2)] by (simp add: start_capture_def prog_simps)
next
  case False
  define ms1 where "ms1 = ms\<lparr>capture := (capture ms)[level ms := (s, what)], level := level ms + 1\<rparr>"
  have len: "level ms < length (capture ms)" using False assms(2) by (simp add: good_def)
  then have caps1: "caps ms1 = caps ms @ [(s, what)]"
    by (simp add: caps_def ms1_def take_Suc_conv_app_nth)
  have "cap_ok src s (s, what)" using assms(2,4) by (auto simp: cap_ok_def good_def)
  then have good1: "good src s ms1"
    using assms(2) False unfolding good_def caps1 by (auto simp: ms1_def)
  obtain r ms2 where r: "rec s p ms1 = (r, ms2)" by fastforce
  have run: "start_capture rec s p what ms =
      (case r of Inl e \<Rightarrow> (Inl e, ms2)
       | Inr None \<Rightarrow> (Inr None, ms2\<lparr>level := level ms2 - 1\<rparr>) | Inr (Some e) \<Rightarrow> (Inr (Some e), ms2))"
    using False r by (simp add: start_capture_def prog_simps ms1_def split: sum.split option.split)
  from rec_okD [OF assms(1) good1 assms(3)] have "outcome src s ms1 (successes src pat p (caps ms @ [(s, what)]) s) (r, ms2)"
    by (simp add: r caps1)
  then show ?thesis
  proof (cases rule: outcomeE)
    case none
    then have "level ms2 = level ms + 1" "length (capture ms2) = length (capture ms)"
      and c2: "caps ms2 = caps ms @ [(s, what)]"
      using caps1 by (simp_all add: same_caps_def ms1_def)
    moreover have "take (level ms) (take (level ms + 1) (capture ms2)) = caps ms"
      using c2 \<open>level ms2 = level ms + 1\<close> length_caps [OF assms(2)] by (simp add: caps_def [of ms2])
    then have "take (level ms) (capture ms2) = caps ms" by (simp add: min_def)
    ultimately have "same_caps ms (ms2\<lparr>level := level ms2 - 1\<rparr>)"
      by (simp add: same_caps_def caps_def [of "ms2\<lparr>level := level ms\<rparr>"])
    then show ?thesis using run none False length_caps [OF assms(2)] by simp
  qed (use run False length_caps [OF assms(2)] in simp_all)
qed

lemma open_below_take: "n \<le> m \<Longrightarrow> open_below (take m cs) n = open_below cs n"
  by (induction n) auto

lemma open_below_Some: "open_below cs n = Some l \<Longrightarrow> l < n \<and> snd (cs ! l) = CAP_UNFINISHED"
  by (induction n) (auto split: if_splits)

lemma end_capture_ok:
  assumes "rec_ok src pat rec" "good src s ms" "p \<le> length pat"
  shows "outcome src s ms
    (case open_below (caps ms) (length (caps ms)) of
       None \<Rightarrow> []
     | Some l \<Rightarrow> successes src pat p ((caps ms)[l := (fst (caps ms ! l), int s - int (fst (caps ms ! l)))]) s)
    (end_capture rec s p ms)"
proof -
  have ob: "open_below (caps ms) (length (caps ms)) = open_below (capture ms) (level ms)"
    using length_caps [OF assms(2)] by (simp add: caps_def open_below_take)
  show ?thesis
  proof (cases "open_below (capture ms) (level ms)")
    case None
    then show ?thesis by (simp add: end_capture_def capture_to_close_def prog_simps)
  next
    case (Some l)
    then have l: "l < level ms" "snd (capture ms ! l) = CAP_UNFINISHED"
      using open_below_Some by blast+
    have len: "level ms \<le> length (capture ms)" using assms(2) by (simp add: good_def)
    have nth: "caps ms ! l = capture ms ! l" using l(1) by (simp add: caps_def)
    have in_caps: "capture ms ! l \<in> set (caps ms)"
      using l(1) length_caps [OF assms(2)] nth by (metis nth_mem)
    let ?init = "fst (capture ms ! l)"
    have init: "?init \<le> s" using in_caps assms(2) l(2) by (auto simp: good_def cap_ok_def)
    define ms1 where "ms1 = set_len l (int s - int ?init) ms"
    have caps1: "caps ms1 = (caps ms)[l := (?init, int s - int ?init)]"
      by (simp add: caps_def ms1_def set_len_def take_update_swap)
    have "cap_ok src s (?init, int s - int ?init)"
      using init assms(2) by (auto simp: cap_ok_def good_def CAP_UNFINISHED_def)
    then have good1: "good src s ms1"
      using assms(2) set_update_subset_insert [of "caps ms" l "(?init, int s - int ?init)"]
      unfolding good_def caps1 by (auto simp: ms1_def set_len_def)
    obtain r ms2 where r: "rec s p ms1 = (r, ms2)" by fastforce
    have run: "end_capture rec s p ms =
        (case r of Inl e \<Rightarrow> (Inl e, ms2)
         | Inr None \<Rightarrow> (Inr None, set_len l CAP_UNFINISHED ms2) | Inr (Some e) \<Rightarrow> (Inr (Some e), ms2))"
      using Some r by (simp add: end_capture_def capture_to_close_def prog_simps ms1_def split: sum.split option.split)
    from rec_okD [OF assms(1) good1 assms(3)]
    have "outcome src s ms1 (successes src pat p ((caps ms)[l := (?init, int s - int ?init)]) s) (r, ms2)"
      by (simp add: r caps1)
    then show ?thesis
    proof (cases rule: outcomeE)
      case none
      then have c2: "caps ms2 = (caps ms)[l := (?init, int s - int ?init)]" "level ms2 = level ms"
        "length (capture ms2) = length (capture ms)"
        using caps1 by (simp_all add: same_caps_def ms1_def set_len_def)
      have "caps ms2 ! l = (?init, int s - int ?init)"
        using c2(1) l(1) length_caps [OF assms(2)] by simp
      then have "capture ms2 ! l = (?init, int s - int ?init)" using l(1) c2(2) by (simp add: caps_def)
      then have "caps (set_len l CAP_UNFINISHED ms2) = (caps ms2)[l := (?init, CAP_UNFINISHED)]"
        by (simp add: caps_def set_len_def take_update_swap)
      also have "\<dots> = (caps ms)[l := capture ms ! l]"
        using c2(1) l(2) by (simp add: prod_eq_iff flip: surjective_pairing) (metis prod.collapse)
      also have "\<dots> = caps ms" using nth by (metis list_update_id)
      finally have "same_caps ms (set_len l CAP_UNFINISHED ms2)"
        using c2 by (simp add: same_caps_def set_len_def)
      then show ?thesis using run none Some ob nth by simp
    qed (use run Some ob nth in simp_all)
  qed
qed

lemma match_capture_ok:
  assumes "good src s ms"
  shows "match_capture src s c ms = match_capture src s c \<lparr>nrep = 0, level = length (caps ms), capture = caps ms\<rparr>"
    and "case match_capture src s c ms of
      Inl e \<Rightarrow> e \<noteq> Overread | Inr r \<Rightarrow> (\<forall>s'. r = Some s' \<longrightarrow> s \<le> s' \<and> s' \<le> length src)"
proof -
  let ?ms = "\<lparr>nrep = 0, level = length (caps ms), capture = caps ms\<rparr>"
  have nth: "caps ms ! l = capture ms ! l" if "l < level ms" for l using that by (simp add: caps_def)
  have check: "check_capture c ms = check_capture c ?ms"
    using nth [of "nat (uint c - 49)"] length_caps [OF assms]
    by (cases "uint c - 49 < int (level ms)") (auto simp: check_capture_def Let_def)
  have less: "check_capture c ms = Inr l \<Longrightarrow> l < level ms" for l
    by (auto simp: check_capture_def Let_def split: if_splits)
  show "match_capture src s c ms = match_capture src s c ?ms"
  proof (cases "check_capture c ms")
    case (Inr l)
    then have "caps ms ! l = capture ms ! l" using less nth by blast
    then show ?thesis unfolding match_capture_def check [symmetric] Inr by simp
  qed (use check in \<open>simp add: match_capture_def\<close>)
  show "case match_capture src s c ms of
      Inl e \<Rightarrow> e \<noteq> Overread | Inr r \<Rightarrow> (\<forall>s'. r = Some s' \<longrightarrow> s \<le> s' \<and> s' \<le> length src)"
    using assms
    by (auto simp: match_capture_def check_capture_def good_def Let_def bind_e_def split: sum.split prod.split)
qed

section \<open>Repetitions\<close>

lemma run_length_step:
  "run_length src pat s p ep =
    (if singlematch src pat s p ep = Inr True then Suc (run_length src pat (s + 1) p ep) else 0)"
proof (cases "s < length src")
  case True
  then have "[s..<length src] = s # [s + 1..<length src]" by (simp add: upt_conv_Cons)
  then show ?thesis by (simp add: run_length_def)
next
  case False
  then show ?thesis using singlematch_less [of src pat s p ep] by (auto simp: run_length_def)
qed

lemma run_length_le: "s \<le> length src \<Longrightarrow> s + run_length src pat s p ep \<le> length src"
  using length_takeWhile_le [of "\<lambda>i. singlematch src pat i p ep = Inr True" "[s..<length src]"]
  by (simp add: run_length_def)

lemma max_count_run:
  assumes "p < length pat" "ep \<le> length pat"
  shows "max_count src pat s p ep i = Inr (i + run_length src pat (s + i) p ep)"
proof (induction "length src - (s + i)" arbitrary: i rule: less_induct)
  case less
  obtain b where b: "singlematch src pat (s + i) p ep = Inr b"
    using singlematch_ok [OF assms] by blast
  show ?case
  proof (cases b)
    case True
    then have "s + i < length src" using singlematch_less b by simp
    then have "max_count src pat s p ep (i + 1) = Inr (i + 1 + run_length src pat (s + (i + 1)) p ep)"
      by (intro less.hyps) simp
    then show ?thesis
      using b True run_length_step [of src pat "s + i" p ep] by (subst max_count.simps) simp
  next
    case False
    then show ?thesis
      using b run_length_step [of src pat "s + i" p ep] by (subst max_count.simps) simp
  qed
qed

lemma try_down_ok:
  assumes "rec_ok src pat rec" "q \<le> length pat"
  shows "good src s ms \<Longrightarrow> s + n \<le> length src \<Longrightarrow>
    outcome src s ms (concat (map (\<lambda>i. successes src pat q (caps ms) (s + i)) (rev [0..<n + 1])))
      (try_down (\<lambda>i. rec (s + i) q) n ms)"
proof (induction n arbitrary: ms)
  case 0
  then show ?case using rec_okD [OF assms(1) _ assms(2), of s ms] by simp
next
  case (Suc n)
  have "good src (s + Suc n) ms" using good_mono [OF Suc.prems(1)] Suc.prems(2) by simp
  from rec_okD [OF assms(1) this assms(2)]
  obtain r ms2 where r: "rec (s + Suc n) q ms = (r, ms2)"
    and out: "outcome src (s + Suc n) ms (successes src pat q (caps ms) (s + Suc n)) (r, ms2)"
    by (cases "rec (s + Suc n) q ms") simp
  have upt: "rev [0..<Suc n + 1] = Suc n # rev [0..<n + 1]" by simp
  from out show ?case
  proof (cases rule: outcomeE)
    case none
    have "outcome src s ms2 (concat (map (\<lambda>i. successes src pat q (caps ms2) (s + i)) (rev [0..<n + 1])))
        (try_down (\<lambda>i. rec (s + i) q) n ms2)"
      using Suc.prems(2) by (intro Suc.IH good_same [OF Suc.prems(1) none(2)]) simp
    then have "outcome src s ms (concat (map (\<lambda>i. successes src pat q (caps ms) (s + i)) (rev [0..<n + 1])))
        (try_down (\<lambda>i. rec (s + i) q) n ms2)"
      using outcome_from [OF _ none(2)] caps_same [OF none(2)] by simp
    then show ?thesis unfolding upt using r none by (simp add: prog_simps)
  qed (unfold upt, use r in \<open>simp_all add: prog_simps\<close>)
qed

lemma max_expand_ok:
  assumes "rec_ok src pat rec" "p < length pat" "ep < length pat" "good src s ms"
  shows "outcome src s ms
    (concat (map (\<lambda>i. successes src pat (ep + 1) (caps ms) (s + i)) (rev [0..<run_length src pat s p ep + 1])))
    (max_expand src pat rec s p ep ms)"
proof -
  have s: "s + run_length src pat s p ep \<le> length src"
    using assms(4) by (intro run_length_le) (simp add: good_def)
  have "ep + 1 \<le> length pat" using assms(3) by simp
  from try_down_ok [OF assms(1) this assms(4) s] show ?thesis
    using max_count_run [OF assms(2), of ep src s 0] assms(3) by (simp add: max_expand_def prog_simps)
qed

lemma min_expand_ok:
  assumes "rec_ok src pat rec" "p < length pat" "ep < length pat"
  shows "good src s ms \<Longrightarrow> outcome src s ms
    (concat (map (\<lambda>i. successes src pat (ep + 1) (caps ms) (s + i)) [0..<run_length src pat s p ep + 1]))
    (min_expand src pat rec s p ep ms)"
proof (induction "length src - s" arbitrary: s ms rule: less_induct)
  case less
  let ?run = "\<lambda>s. run_length src pat s p ep"
  have ep: "ep + 1 \<le> length pat" using assms(3) by simp
  obtain r ms2 where r: "rec s (ep + 1) ms = (r, ms2)" by fastforce
  have upt: "[0..<n + 1] = 0 # map Suc [0..<n]" for n
    using map_Suc_upt [of 0 n] by (simp add: upt_conv_Cons del: upt_Suc)
  obtain b where b: "singlematch src pat s p ep = Inr b"
    using singlematch_ok [OF assms(2)] assms(3) by (meson less_imp_le)
  from rec_okD [OF assms(1) less.prems ep]
  have "outcome src s ms (successes src pat (ep + 1) (caps ms) s) (r, ms2)" unfolding r .
  then show ?case
  proof (cases rule: outcomeE)
    case none
    show ?thesis
    proof (cases b)
      case True
      then have s: "s < length src" using singlematch_less b by simp
      have run: "?run s = Suc (?run (s + 1))" using run_length_step [of src pat s p ep] b True by simp
      have "good src (s + 1) ms2" using good_mono [OF good_same [OF less.prems none(2)]] s by simp
      then have "outcome src (s + 1) ms2
          (concat (map (\<lambda>i. successes src pat (ep + 1) (caps ms2) (s + 1 + i)) [0..<?run (s + 1) + 1]))
          (min_expand src pat rec (s + 1) p ep ms2)"
        using s by (intro less.hyps) simp_all
      then have "outcome src s ms
          (concat (map (\<lambda>i. successes src pat (ep + 1) (caps ms) (s + 1 + i)) [0..<?run (s + 1) + 1]))
          (min_expand src pat rec (s + 1) p ep ms2)"
        using outcome_from [OF _ none(2)] caps_same [OF none(2)] by simp
      then show ?thesis
        unfolding min_expand.simps [of src pat rec s] run upt [of "Suc (?run (s + 1))"]
        using r none b True by (simp add: comp_def del: upt_Suc)
    next
      case False
      then have "?run s = 0" using run_length_step [of src pat s p ep] b by simp
      then show ?thesis using r none b False by (subst min_expand.simps) simp
    qed
  qed (unfold min_expand.simps [of src pat rec s] upt, use r in simp_all)
qed

section \<open>One turn\<close>

definition turn_ok ::
  "bytes \<Rightarrow> bytes \<Rightarrow> nat \<Rightarrow> nat \<Rightarrow> match_state \<Rightarrow> (match_error + turn) \<times> match_state \<Rightarrow> bool" where
  "turn_ok src pat s p ms out \<longleftrightarrow>
     (case out of
        (Inl e, _) \<Rightarrow> e \<noteq> Overread
      | (Inr (Return r), ms') \<Rightarrow> outcome src s ms (successes src pat p (caps ms) s) (Inr r, ms')
      | (Inr (Goto s' p'), ms') \<Rightarrow>
          s \<le> s' \<and> s' \<le> length src \<and> p' \<le> length pat \<and> same_caps ms ms' \<and>
          successes src pat p (caps ms) s = successes src pat p' (caps ms) s')"

lemma turn_ok_simps [simp]:
  "turn_ok src pat s p ms (Inl e, ms') \<longleftrightarrow> e \<noteq> Overread"
  "turn_ok src pat s p ms (Inr (Return r), ms') \<longleftrightarrow>
     outcome src s ms (successes src pat p (caps ms) s) (Inr r, ms')"
  "turn_ok src pat s p ms (Inr (Goto s' p'), ms') \<longleftrightarrow>
     s \<le> s' \<and> s' \<le> length src \<and> p' \<le> length pat \<and> same_caps ms ms' \<and>
     successes src pat p (caps ms) s = successes src pat p' (caps ms) s'"
  by (simp_all add: turn_ok_def)

lemma return_of_ok:
  "outcome src s ms (successes src pat p (caps ms) s) (m ms) \<Longrightarrow> turn_ok src pat s p ms (return_of m ms)"
  by (cases "m ms"; cases "fst (m ms)") (auto simp: return_of_def prog_simps)

text \<open>The positions at which a pattern has a single-character item.\<close>

definition single_item :: "bytes \<Rightarrow> nat \<Rightarrow> bool" where
  "single_item pat p \<longleftrightarrow>
     p < length pat \<and> byte_at pat p \<noteq> 40 \<and> byte_at pat p \<noteq> 41 \<and>
     \<not> (byte_at pat p = 36 \<and> p + 1 = length pat) \<and>
     \<not> (byte_at pat p = L_ESC \<and> (byte_at pat (p + 1) = 98 \<or> byte_at pat (p + 1) = 102 \<or> c_isdigit (byte_at pat (p + 1))))"

lemma successes_single:
  assumes "single_item pat p" "classend pat p = Inr ep" "n = run_length src pat s p ep"
  shows "byte_at pat ep = 63 \<Longrightarrow> successes src pat p c s =
      (if 0 < n then successes src pat (ep + 1) c (s + 1) else []) @ successes src pat (ep + 1) c s"
    and "byte_at pat ep = 42 \<Longrightarrow> successes src pat p c s =
      concat (map (\<lambda>i. successes src pat (ep + 1) c (s + i)) (rev [0..<n + 1]))"
    and "byte_at pat ep = 43 \<Longrightarrow> successes src pat p c s =
      concat (map (\<lambda>i. successes src pat (ep + 1) c (s + i)) (rev [1..<n + 1]))"
    and "byte_at pat ep = 45 \<Longrightarrow> successes src pat p c s =
      concat (map (\<lambda>i. successes src pat (ep + 1) c (s + i)) [0..<n + 1])"
    and "byte_at pat ep \<notin> {63, 42, 43, 45} \<Longrightarrow> successes src pat p c s =
      (if 0 < n then successes src pat ep c (s + 1) else [])"
proof -
  have item: "\<not> length pat \<le> p" "byte_at pat p \<noteq> 40" "byte_at pat p \<noteq> 41"
    "\<not> (byte_at pat p = 36 \<and> p + 1 = length pat)" "\<not> (byte_at pat p = L_ESC \<and> byte_at pat (p + 1) = 98)"
    "\<not> (byte_at pat p = L_ESC \<and> byte_at pat (p + 1) = 102)"
    "\<not> (byte_at pat p = L_ESC \<and> c_isdigit (byte_at pat (p + 1)))"
    using assms(1) by (auto simp: single_item_def)
  have "successes src pat p c s =
     (case classend pat p of
           Inl _ \<Rightarrow> []
         | Inr ep \<Rightarrow>
             let suffix = byte_at pat ep; n = run_length src pat s p ep in
             if suffix = 63 then
               (if 0 < n then successes src pat (ep + 1) c (s + 1) else []) @ successes src pat (ep + 1) c s
             else if suffix = 42 then
               concat (map (\<lambda>i. successes src pat (ep + 1) c (s + i)) (rev [0..<n + 1]))
             else if suffix = 43 then
               concat (map (\<lambda>i. successes src pat (ep + 1) c (s + i)) (rev [1..<n + 1]))
             else if suffix = 45 then
               concat (map (\<lambda>i. successes src pat (ep + 1) c (s + i)) [0..<n + 1])
             else if 0 < n then successes src pat ep c (s + 1) else [])"
    by (subst successes.simps) (simp only: item if_False)
  note eq = this [unfolded assms(2) sum.case Let_def, folded assms(3)]
  show "byte_at pat ep = 63 \<Longrightarrow> successes src pat p c s =
      (if 0 < n then successes src pat (ep + 1) c (s + 1) else []) @ successes src pat (ep + 1) c s"
    "byte_at pat ep = 42 \<Longrightarrow> successes src pat p c s =
      concat (map (\<lambda>i. successes src pat (ep + 1) c (s + i)) (rev [0..<n + 1]))"
    "byte_at pat ep = 43 \<Longrightarrow> successes src pat p c s =
      concat (map (\<lambda>i. successes src pat (ep + 1) c (s + i)) (rev [1..<n + 1]))"
    "byte_at pat ep = 45 \<Longrightarrow> successes src pat p c s =
      concat (map (\<lambda>i. successes src pat (ep + 1) c (s + i)) [0..<n + 1])"
    "byte_at pat ep \<notin> {63, 42, 43, 45} \<Longrightarrow> successes src pat p c s =
      (if 0 < n then successes src pat ep c (s + 1) else [])"
    unfolding eq by (simp_all del: upt_Suc)
qed

lemma rev_upt_1: "rev [1..<n + 2] = map Suc (rev [0..<n + 1])"
proof -
  have "[1..<n + 2] = map Suc [0..<n + 1]" using map_Suc_upt [of 0 "n + 1"] by (simp del: upt_Suc)
  then show ?thesis by (simp only: rev_map)
qed

lemma upt_0: "[0..<Suc 0] = [0]"
  by simp

lemma dflt_ok:
  assumes "rec_ok src pat rec" "good src s ms" "single_item pat p"
  shows "turn_ok src pat s p ms (dflt src pat rec s p ms)"
proof (cases "classend pat p")
  case (Inl e)
  have "p < length pat" using assms(3) by (simp add: single_item_def)
  then show ?thesis using Inl classend_safe by (auto simp: dflt_def prog_simps)
next
  case (Inr ep)
  have p: "p < length pat" using assms(3) by (simp add: single_item_def)
  have ep: "ep \<le> length pat" using classend_end [OF Inr] p by simp
  have ep1: "byte_at pat ep \<noteq> 0 \<Longrightarrow> ep < length pat" by (rule byte_at_less)
  let ?run = "\<lambda>s. run_length src pat s p ep" and ?ms1 = "ms\<lparr>nrep := nrep ms - 1\<rparr>"
  note S = successes_single [OF assms(3) Inr refl, where src = src and s = s and c = "caps ms"]
  obtain b where b: "singlematch src pat s p ep = Inr b" using singlematch_ok [OF p ep] by blast
  have s: "s \<le> length src" using assms(2) by (simp add: good_def)
  have good1: "good src s ?ms1" by (rule good_same [OF assms(2) same_nrep])
  have caps1: "caps ?ms1 = caps ms" by (simp add: caps_def)
  have run: "?run s = (if b then Suc (?run (s + 1)) else 0)" using run_length_step [of src pat s p ep] b by simp
  show ?thesis
  proof (cases b)
    case False
    then show ?thesis
      using Inr b ep ep1 s S run upt_0 by (auto simp: dflt_def prog_simps simp del: upt_Suc)
  next
    case True
    then have s1: "s < length src" using singlematch_less b by simp
    have from1: "outcome src s ?ms1 L out \<Longrightarrow> outcome src s ms L out" for L out
      by (erule outcome_from) simp_all
    show ?thesis
    proof (cases "nrep ms = 0")
      case zero: True
      then show ?thesis using Inr b ep True by (simp add: dflt_def prog_simps)
    next
      case False
      let ?c = "byte_at pat ep"
      consider "?c = 63" | "?c = 43" | "?c = 42" | "?c = 45" | "?c \<notin> {63, 42, 43, 45}" by blast
      then show ?thesis
      proof cases
        case 1
        then have e: "ep + 1 \<le> length pat" using ep1 by simp
        have g: "good src (s + 1) ?ms1" using good_mono [OF good1] s1 by simp
        obtain r ms2 where r: "rec (s + 1) (ep + 1) ?ms1 = (r, ms2)" by fastforce
        from rec_okD [OF assms(1) g e]
        have out: "outcome src (s + 1) ?ms1 (successes src pat (ep + 1) (caps ms) (s + 1)) (r, ms2)"
          unfolding r caps1 .
        have d: "dflt src pat rec s p ms =
            (case r of Inl x \<Rightarrow> (Inl x, ms2) | Inr None \<Rightarrow> (Inr (Goto s (ep + 1)), ms2)
             | Inr (Some x) \<Rightarrow> (Inr (Return (Some x)), ms2))"
          using Inr b ep True False 1 r
          by (simp add: dflt_def prog_simps split: sum.split option.split)
        from out show ?thesis
        proof (cases rule: outcomeE)
          case none
          then show ?thesis using d S(1) [OF 1] run True s e same_trans [OF same_nrep none(2)] by simp
        qed (use d S(1) [OF 1] run True in simp_all)
      next
        case 2
        then have e: "ep < length pat" using ep1 by simp
        have g: "good src (s + 1) ?ms1" using good_mono [OF good1] s1 by simp
        have "concat (map (\<lambda>i. successes src pat (ep + 1) (caps ms) (s + i)) (rev [1..<?run (s + 1) + 2])) =
            concat (map (\<lambda>i. successes src pat (ep + 1) (caps ms) (s + 1 + i)) (rev [0..<?run (s + 1) + 1]))"
          unfolding rev_upt_1 by (simp add: comp_def del: upt_Suc)
        then have L: "successes src pat p (caps ms) s =
            concat (map (\<lambda>i. successes src pat (ep + 1) (caps ms) (s + 1 + i)) (rev [0..<?run (s + 1) + 1]))"
          using S(3) [OF 2] run True by (simp del: upt_Suc)
        have "outcome src s ?ms1 (successes src pat p (caps ms) s) (max_expand src pat rec (s + 1) p ep ?ms1)"
          using outcome_from [OF max_expand_ok [OF assms(1) p e g] same_refl, of s] unfolding L caps1 by simp
        from return_of_ok [where m = "\<lambda>ms. max_expand src pat rec (s + 1) p ep (ms\<lparr>nrep := nrep ms - 1\<rparr>)", OF from1 [OF this]]
        show ?thesis
          using Inr b ep True False 2 by (simp add: dflt_def return_of_def prog_simps)
      next
        case 3
        then have e: "ep < length pat" using ep1 by simp
        have "outcome src s ?ms1 (successes src pat p (caps ms) s) (max_expand src pat rec s p ep ?ms1)"
          using max_expand_ok [OF assms(1) p e good1] unfolding S(2) [OF 3] caps1 .
        from return_of_ok [where m = "\<lambda>ms. max_expand src pat rec s p ep (ms\<lparr>nrep := nrep ms - 1\<rparr>)", OF from1 [OF this]]
        show ?thesis
          using Inr b ep True False 3 by (simp add: dflt_def return_of_def prog_simps)
      next
        case 4
        then have e: "ep < length pat" using ep1 by simp
        have "outcome src s ?ms1 (successes src pat p (caps ms) s) (min_expand src pat rec s p ep ?ms1)"
          using min_expand_ok [OF assms(1) p e good1] unfolding S(4) [OF 4] caps1 .
        from return_of_ok [where m = "\<lambda>ms. min_expand src pat rec s p ep (ms\<lparr>nrep := nrep ms - 1\<rparr>)", OF from1 [OF this]]
        show ?thesis
          using Inr b ep True False 4 by (simp add: dflt_def return_of_def prog_simps)
      next
        case 5
        then show ?thesis
          using Inr b ep True False s1 S(5) run by (simp add: dflt_def prog_simps)
      qed
    qed
  qed
qed

lemma escape_ok:
  assumes "rec_ok src pat rec" "good src s ms" "p < length pat" "byte_at pat p = L_ESC"
  shows "turn_ok src pat s p ms (match_escape src pat rec s p ms)"
proof -
  let ?c = "byte_at pat (p + 1)"
  have s: "s \<le> length src" using assms(2) by (simp add: good_def)
  have p1: "?c \<noteq> 0 \<Longrightarrow> p + 2 \<le> length pat" using byte_at_less [of pat "p + 1"] by simp
  consider "?c = 98" | "?c = 102" | "?c \<noteq> 98" "?c \<noteq> 102" "c_isdigit ?c" | "?c \<noteq> 98" "?c \<noteq> 102" "\<not> c_isdigit ?c"
    by blast
  then show ?thesis
  proof cases
    case 1
    then have "successes src pat p (caps ms) s =
        (case matchbalance src pat s (p + 2) of
           Inr (Some s') \<Rightarrow> successes src pat (p + 4) (caps ms) s' | _ \<Rightarrow> [])"
      using assms(3,4) by (subst successes.simps) (simp add: L_ESC_def)
    then show ?thesis
      using matchbalance_ok [OF s, where pat = pat and p = "p + 2"] 1 assms(3)
      by (auto simp: match_escape_def prog_simps split: sum.splits option.splits)
  next
    case 2
    then have "successes src pat p (caps ms) s =
        (case frontier src pat s (p + 2) of Inr (Goto s' p') \<Rightarrow> successes src pat p' (caps ms) s' | _ \<Rightarrow> [])"
      using assms(3,4) by (subst successes.simps) (simp add: L_ESC_def)
    then show ?thesis
      using frontier_ok [of "p + 2" pat s src] p1 2 assms(3) s
      by (auto simp: match_escape_def prog_simps split: sum.splits turn.splits)
  next
    case 3
    then have "?c \<noteq> 0" by (auto simp: c_isdigit_def)
    have "successes src pat p (caps ms) s =
        (case match_capture src s ?c ms of
           Inr (Some s') \<Rightarrow> successes src pat (p + 2) (caps ms) s' | _ \<Rightarrow> [])"
      unfolding match_capture_ok(1) [OF assms(2)]
      using 3 assms(3,4) by (subst successes.simps) (simp add: L_ESC_def)
    then show ?thesis
      using match_capture_ok(2) [OF assms(2), of ?c] p1 [OF \<open>?c \<noteq> 0\<close>] 3 assms(3)
      by (auto simp: match_escape_def prog_simps split: sum.splits option.splits)
  next
    case 4
    then have "single_item pat p" using assms(3,4) by (simp add: single_item_def L_ESC_def)
    from dflt_ok [OF assms(1,2) this] show ?thesis
      using 4 assms(3) by (simp add: match_escape_def prog_simps)
  qed
qed

lemma turn_outcome:
  assumes "rec_ok src pat rec" "good src s ms" "p < length pat"
  shows "turn_ok src pat s p ms (match_turn src pat rec s p ms)"
proof -
  let ?c = "byte_at pat p"
  have s: "s \<le> length src" using assms(2) by (simp add: good_def)
  consider "?c = 40" | "?c = 41" | "?c = 36" "p + 1 = length pat" | "?c = L_ESC"
    | "?c \<noteq> 40" "?c \<noteq> 41" "\<not> (?c = 36 \<and> p + 1 = length pat)" "?c \<noteq> L_ESC" by blast
  then show ?thesis
  proof cases
    case 1
    define q where "q = (if byte_at pat (p + 1) = 41 then p + 2 else p + 1)"
    define what where "what = (if byte_at pat (p + 1) = 41 then CAP_POSITION else CAP_UNFINISHED)"
    have q: "q \<le> length pat"
      using assms(3) byte_at_less [of pat "p + 1"] by (auto simp: q_def)
    have "successes src pat p (caps ms) s =
        (if LUA_MAXCAPTURES \<le> length (caps ms) then [] else successes src pat q (caps ms @ [(s, what)]) s)"
      using 1 assms(3) by (subst successes.simps) (simp add: q_def what_def)
    then have "outcome src s ms (successes src pat p (caps ms) s) (start_capture rec s q what ms)"
      using start_capture_ok [OF assms(1,2) q, of what] by (simp add: what_def)
    from return_of_ok [where m = "start_capture rec s q what", OF this] show ?thesis
      using 1 assms(3) by (simp add: match_turn_def prog_simps q_def what_def split: if_splits)
  next
    case 2
    have "successes src pat p (caps ms) s =
        (case open_below (caps ms) (length (caps ms)) of
           None \<Rightarrow> []
         | Some l \<Rightarrow> successes src pat (p + 1) ((caps ms)[l := (fst (caps ms ! l), int s - int (fst (caps ms ! l)))]) s)"
      using 2 assms(3) by (subst successes.simps) simp
    then have "outcome src s ms (successes src pat p (caps ms) s) (end_capture rec s (p + 1) ms)"
      using end_capture_ok [OF assms(1,2), of "p + 1"] assms(3) by simp
    from return_of_ok [where m = "end_capture rec s (p + 1)", OF this] show ?thesis
      using 2 assms(3) by (simp add: match_turn_def prog_simps)
  next
    case 3
    have "successes src pat p (caps ms) s = (if s = length src then [(caps ms, s)] else [])"
      using 3 assms(3) by (subst successes.simps) simp
    then show ?thesis using 3 assms(2,3) by (auto simp: match_turn_def prog_simps)
  next
    case 4
    from escape_ok [OF assms 4] show ?thesis
      using 4 assms(3) by (simp add: match_turn_def prog_simps L_ESC_def)
  next
    case 5
    then have "single_item pat p" using assms(3) by (simp add: single_item_def)
    moreover have "match_turn src pat rec s p ms = dflt src pat rec s p ms"
      unfolding match_turn_def andThen_run lift_e_run rd_ok [OF less_imp_le [OF assms(3)]] sum.case prod.case
      by (simp only: 5 if_False)
    ultimately show ?thesis using dflt_ok [OF assms(1,2)] by simp
  qed
qed

section \<open>The matcher\<close>

lemma loop_outcome:
  assumes "rec_ok src pat rec"
  shows "good src s ms \<Longrightarrow> p \<le> length pat \<Longrightarrow>
    outcome src s ms (successes src pat p (caps ms) s) (match_loop src pat rec s p ms)"
proof (induction "length pat - p" arbitrary: s p ms rule: less_induct)
  case less
  show ?case
  proof (cases "p = length pat")
    case True
    then show ?thesis
      using less.prems(1) by (subst match_loop.simps, subst successes.simps) simp
  next
    case False
    then have p: "p < length pat" using less.prems(2) by simp
    obtain r ms2 where r: "match_turn src pat rec s p ms = (r, ms2)" by fastforce
    have ok: "turn_ok src pat s p ms (r, ms2)" using turn_outcome [OF assms less.prems(1) p] by (simp add: r)
    consider e where "r = Inl e" | x where "r = Inr (Return x)" | s' p' where "r = Inr (Goto s' p')"
      by (metis sum.exhaust turn.exhaust)
    then show ?thesis
    proof cases
      case 3
      have prog: "p < p'" using match_turn_progress [of src pat rec s p ms s' p' ms2] r 3 by simp
      have T: "s \<le> s'" "s' \<le> length src" "p' \<le> length pat" "same_caps ms ms2"
        "successes src pat p (caps ms) s = successes src pat p' (caps ms) s'"
        using ok 3 by simp_all
      have "good src s' ms2" using good_mono [OF good_same [OF less.prems(1) T(4)] T(1,2)] .
      then have "outcome src s' ms2 (successes src pat p' (caps ms2) s') (match_loop src pat rec s' p' ms2)"
        using prog p T(3) by (intro less.hyps) simp_all
      then have "outcome src s ms (successes src pat p (caps ms) s) (match_loop src pat rec s' p' ms2)"
        unfolding T(5) using outcome_from [OF _ T(4,1)] caps_same [OF T(4)] by simp
      then show ?thesis using False r 3 by (subst match_loop.simps) simp
    qed (use ok False r in \<open>subst match_loop.simps, simp\<close>)+
  qed
qed

lemma match_outcome: "rec_ok src pat (match_from src pat d)"
proof (induction d)
  case 0
  then show ?case by (simp add: rec_ok_def prog_simps)
next
  case (Suc d)
  then show ?case using loop_outcome by (simp add: rec_ok_def)
qed

lemma good_reprep:
  "length (capture ms) = LUA_MAXCAPTURES \<Longrightarrow> s \<le> length src \<Longrightarrow> good src s (reprepstate ms) \<and> caps (reprepstate ms) = []"
  by (simp add: good_def reprepstate_def caps_def LUA_MAXCAPTURES_def)

text \<open>C17: The matcher never reads outside the subject and the pattern, whatever the pattern is,
  malformed ones included: started anywhere in the subject, \<open>match\<close> ends in an error that is not an
  overread, or without a match, or with a match that ends inside the subject and whose captures lie
  inside it.\<close>

theorem match_in_bounds:
  assumes "length (capture ms) = LUA_MAXCAPTURES" "s \<le> length src" "p \<le> length pat"
  shows "case match_from src pat d s p (reprepstate ms) of
      (Inl e, _) \<Rightarrow> e \<noteq> Overread
    | (Inr None, ms') \<Rightarrow> level ms' = 0
    | (Inr (Some e), ms') \<Rightarrow> s \<le> e \<and> e \<le> length src \<and> level ms' \<le> LUA_MAXCAPTURES \<and>
        (\<forall>i < level ms'. cap_ok src e (capture ms' ! i))"
proof -
  have g: "good src s (reprepstate ms)" using good_reprep assms by blast
  obtain r ms' where r: "match_from src pat d s p (reprepstate ms) = (r, ms')" by fastforce
  from rec_okD [OF match_outcome [of src pat d] g assms(3)]
  have "outcome src s (reprepstate ms) (successes src pat p (caps (reprepstate ms)) s) (r, ms')" by (simp add: r)
  then show ?thesis
  proof (cases rule: outcomeE)
    case none
    then show ?thesis unfolding r by (simp add: same_caps_def reprepstate_def)
  next
    case (some e rest)
    have "capture ms' ! i \<in> set (caps ms')" if "i < level ms'" for i
      using that length_caps [OF some(3)] by (metis caps_def nth_mem nth_take)
    then show ?thesis using some by (auto simp: r good_def)
  qed (simp add: r)
qed

text \<open>The subject and the pattern are both the string \<open>a\<close>.\<close>

lemma match_a:
  "match_from [97] [97] MAXCCALLS 0 0 (reprepstate (prepstate 1)) =
    (Inr (Some 1), reprepstate (prepstate 1)\<lparr>nrep := 100003\<rparr>)"
proof -
  have depth: "MAXCCALLS = Suc 199" by (simp add: MAXCCALLS_def)
  have n: "nrep (reprepstate (prepstate 1)) = 100004"
    by (simp add: reprepstate_def prepstate_def MAX_SIZET_def A_REPS_def B_REPS_def)
  have "classend [97] 0 = Inr 1" by (simp add: classend_def byte_at_def L_ESC_def)
  moreover have "singlematch [97] [97] 0 0 1 = Inr True" by (simp add: singlematch_def byte_at_def L_ESC_def)
  ultimately have "match_turn [97] [97] rec 0 0 (reprepstate (prepstate 1)) =
      (Inr (Goto 1 1), reprepstate (prepstate 1)\<lparr>nrep := 100003\<rparr>)" for rec
    using n by (simp add: match_turn_def dflt_def prog_simps byte_at_def L_ESC_def)
  then show ?thesis
    unfolding depth match_from.simps by (simp add: match_loop.simps)
qed

theorem match_in_bounds_witness:
  "case match_from [97] [97, 42] 200 0 0 (reprepstate (prepstate 1)) of
     (Inl e, _) \<Rightarrow> e \<noteq> Overread | (Inr None, ms') \<Rightarrow> level ms' = 0 | (Inr (Some e), _) \<Rightarrow> e \<le> 1"
proof -
  have "length (capture (prepstate 1)) = LUA_MAXCAPTURES" by (simp add: prepstate_def)
  from match_in_bounds [OF this, of 0 "[97]" 0 "[97, 42]" 200]
  show ?thesis by (auto split: sum.splits option.splits)
qed

text \<open>C16: Backtracking is complete and keeps the order of preference: when \<open>match\<close> returns, it
  returns the first of all the ways in which the pattern matches at that position, with its captures,
  longest repetitions first for \<open>*\<close>, \<open>+\<close> and \<open>?\<close>, shortest first for \<open>-\<close>; it returns nothing only when
  there is none.\<close>

theorem match_first_success:
  assumes "length (capture ms) = LUA_MAXCAPTURES" "s \<le> length src" "p \<le> length pat"
    and "match_from src pat d s p (reprepstate ms) = (Inr r, ms')"
  shows "case successes src pat p [] s of
      [] \<Rightarrow> r = None
    | (c, e) # _ \<Rightarrow> r = Some e \<and> take (level ms') (capture ms') = c"
proof -
  have g: "good src s (reprepstate ms)" "caps (reprepstate ms) = []" using good_reprep assms(1,2) by blast+
  from rec_okD [OF match_outcome [of src pat d] g(1) assms(3)]
  have "outcome src s (reprepstate ms) (successes src pat p [] s) (Inr r, ms')" by (simp add: assms(4) g(2))
  then show ?thesis by (cases rule: outcomeE) (auto simp: caps_def)
qed

theorem match_first_success_witness:
  "\<exists>c rest. successes [97] [97] 0 [] 0 = (c, 1) # rest"
proof -
  have "length (capture (prepstate 1)) = LUA_MAXCAPTURES" by (simp add: prepstate_def)
  from match_first_success [OF this _ _ match_a] show ?thesis by (auto split: list.splits)
qed

end
