(* ===== verification/LuaStrLibProps.thy ===== *)
theory LuaStrLibProps
  imports LuaStrLib LuaMatchProps
begin

text \<open>
  The string library: slices, repetition and its buffer, plain search, and the functions built on
  the matcher, which find the leftmost match and rebuild the subject around what they replace.
\<close>

section \<open>Slices and bytes\<close>

text \<open>Positions cut a string without loss: for every \<open>k\<close> up to its length, the prefix of \<open>k\<close>
  bytes and the rest from position \<open>k + 1\<close> to -1 make up the string, and a negative start takes a
  suffix.\<close>

theorem str_sub_split:
  assumes "k \<le> length s"
  shows "str_sub s 1 (int k) @ str_sub s (int k + 1) (- 1) = s \<and>
    (0 < k \<longrightarrow> str_sub s (- int k) (- 1) = drop (length s - k) s)"
proof -
  have pre: "str_sub s 1 (int k) = take k s"
    using assms by (auto simp: str_sub_def posrelat_def Let_def nat_diff_distrib)
  have post: "str_sub s (int k + 1) (- 1) = drop k s"
    using assms by (auto simp: str_sub_def posrelat_def Let_def nat_diff_distrib)
  have "nat (int (length s) - int k) = length s - k" by simp
  then have "0 < k \<Longrightarrow> str_sub s (- int k) (- 1) = drop (length s - k) s"
    using assms by (auto simp: str_sub_def posrelat_def Let_def)
  then show ?thesis by (simp add: pre post)
qed

theorem str_sub_split_witness:
  "str_sub [1, 2, 3] 1 2 @ str_sub [1, 2, 3] 3 (- 1) = [1, 2, 3]"
  using str_sub_split [of 2 "[1, 2, 3]"] by simp

lemma char_from_bytes:
  "\<forall>c \<in> set cs. 0 \<le> c \<and> c < 256 \<Longrightarrow> char_from i cs = Inr (map word_of_int cs)"
  by (induction i cs rule: char_from.induct) auto

lemma char_from_range: "char_from i cs = Inr b \<Longrightarrow> (\<forall>c \<in> set cs. 0 \<le> c \<and> c < 256)"
  by (induction i cs arbitrary: b rule: char_from.induct)
    (auto simp: bind_e_Inr split: if_splits dest: sym)

text \<open>\<open>string.char\<close> and \<open>string.byte\<close> are inverse: the bytes of the string made of a list of codes
  are the codes, and a list with a value that is not a byte is refused.\<close>

theorem str_char_byte:
  assumes "length cs \<le> INT_MAX" "luaL_checkstack L (int (length cs)) = Some True"
  shows "if \<forall>c \<in> set cs. 0 \<le> c \<and> c < 256
    then \<exists>b. str_char cs = Inr b \<and> str_byte L b 1 (Some (- 1)) = Inr cs
    else \<exists>e. str_char cs = Inl e"
proof (cases "\<forall>c \<in> set cs. 0 \<le> c \<and> c < 256")
  case True
  let ?b = "map word_of_int cs :: bytes"
  have "map (\<lambda>k. uint (byte_at ?b k)) [0..<length cs] = cs"
  proof (rule nth_equalityI)
    fix k
    assume "k < length (map (\<lambda>k. uint (byte_at ?b k)) [0..<length cs])"
    then have "k < length cs" by simp
    then show "map (\<lambda>k. uint (byte_at ?b k)) [0..<length cs] ! k = cs ! k"
      using True by (simp add: byte_at_def uint_word_of_int_eq take_bit_int_eq_self)
  qed simp
  moreover have "nat (int (length cs) - 1) + 1 = length cs" if "cs \<noteq> []"
    using that by (cases cs) (simp_all add: nat_add_distrib)
  ultimately have "str_byte L ?b 1 (Some (- 1)) = Inr cs"
    using assms by (cases "cs = []") (auto simp: str_byte_def posrelat_def Let_def)
  then show ?thesis using True char_from_bytes [OF True] by (simp add: str_char_def)
next
  case False
  then have "str_char cs \<noteq> Inr b" for b using char_from_range [of 1 cs b] by (auto simp: str_char_def)
  then show ?thesis using False by (cases "str_char cs") auto
qed

theorem str_char_byte_witness:
  "\<exists>b. str_char [72, 105] = Inr b \<and>
     str_byte \<lparr>stack_top = 10, stack_last = 40, stack_grows = (\<lambda>_. True)\<rparr> b 1 (Some (- 1)) = Inr [72, 105]"
  using str_char_byte [of "[72, 105]" "\<lparr>stack_top = 10, stack_last = 40, stack_grows = (\<lambda>_. True)\<rparr>"]
  by (simp add: INT_MAX_def luaL_checkstack_def lua_checkstack_def LUA_MINSTACK_def)

section \<open>Repetition\<close>

lemma rep_loop_length: "length (rep_loop s sep n) = n * (length s + length sep)"
  by (induction n) auto

text \<open>\<open>string.rep\<close> fills its buffer exactly: the size it allocates is at most \<open>MAXSIZE\<close>, no product
  or sum wraps on the way, and the copies and separators are as many bytes as that.\<close>

theorem str_rep_fits:
  assumes "str_rep s n sep = Inr (sz, b)" "length s < 2 ^ 63" "length sep < 2 ^ 63"
  shows "length b = sz \<and> sz \<le> MAXSIZE"
proof (cases "n \<le> 0")
  case True
  then show ?thesis using assms(1) by (simp add: str_rep_def Let_def)
next
  case False
  let ?l = "length s" and ?k = "length sep"
  have small: "(?l + ?k) mod 2 ^ 64 = ?l + ?k" using assms(2,3) by simp
  define m where "m = nat n - 1"
  have n: "nat n = m + 1" using False by (simp add: m_def)
  have fits: "?l + ?k \<le> MAXSIZE div nat n"
    and b: "b = rep_loop s sep m @ s" and sz: "sz = (nat n * ?l + m * ?k) mod 2 ^ 64"
    using assms(1) False unfolding str_rep_def Let_def small by (auto simp: m_def split: if_splits)
  have "(?l + ?k) * nat n \<le> MAXSIZE div nat n * nat n" using fits by (intro mult_le_mono1)
  also have "\<dots> \<le> MAXSIZE" by simp
  finally have "nat n * ?l + m * ?k \<le> MAXSIZE" by (simp add: n algebra_simps)
  then have "sz = nat n * ?l + m * ?k" using sz by (simp add: MAXSIZE_def)
  then show ?thesis
    using \<open>nat n * ?l + m * ?k \<le> MAXSIZE\<close> by (simp add: b rep_loop_length n algebra_simps)
qed

theorem str_rep_fits_witness: "length (rep_loop [97, 98] [44] 2 @ [97, 98]) = 8 \<and> (8 :: nat) \<le> MAXSIZE"
proof -
  have "str_rep [97, 98] 3 [44] = Inr (8, rep_loop [97, 98] [44] 2 @ [97, 98])"
    by (simp add: str_rep_def MAXSIZE_def Let_def)
  from str_rep_fits [OF this] show ?thesis by simp
qed

section \<open>Plain search\<close>

definition occurs_at :: "bytes \<Rightarrow> bytes \<Rightarrow> nat \<Rightarrow> bool" where
  "occurs_at s1 s2 i \<longleftrightarrow> i + length s2 \<le> length s1 \<and> take (length s2) (drop i s1) = s2"

lemma occurs_first:
  assumes "s2 \<noteq> []" "i + length s2 \<le> length s1"
  shows "occurs_at s1 s2 i \<longleftrightarrow>
    byte_at s1 i = byte_at s2 0 \<and> take (length s2 - 1) (drop (i + 1) s1) = drop 1 s2"
proof -
  obtain b r where s2: "s2 = b # r" using assms(1) by (cases s2) auto
  have "drop i s1 = s1 ! i # drop (i + 1) s1" using assms s2 by (simp add: Cons_nth_drop_Suc)
  then show ?thesis using assms(2) s2 by (auto simp: occurs_at_def byte_at_def)
qed

lemma find_upt_Some:
  "find P [a..<b] = Some i \<longleftrightarrow> a \<le> i \<and> i < b \<and> P i \<and> (\<forall>j. a \<le> j \<longrightarrow> j < i \<longrightarrow> \<not> P j)"
proof
  assume "find P [a..<b] = Some i"
  then obtain k where k: "k < length [a..<b]" "P ([a..<b] ! k)" "i = [a..<b] ! k"
    "\<forall>j < k. \<not> P ([a..<b] ! j)"
    unfolding find_Some_iff by blast
  then have ik: "a + k < b" "i = a + k" by simp_all
  moreover have "P i" using k by simp
  moreover have "\<not> P j" if "a \<le> j" "j < i" for j
    using k(4) [rule_format, of "j - a"] ik that by simp
  ultimately show "a \<le> i \<and> i < b \<and> P i \<and> (\<forall>j. a \<le> j \<longrightarrow> j < i \<longrightarrow> \<not> P j)" by auto
next
  assume "a \<le> i \<and> i < b \<and> P i \<and> (\<forall>j. a \<le> j \<longrightarrow> j < i \<longrightarrow> \<not> P j)"
  then show "find P [a..<b] = Some i" unfolding find_Some_iff by (intro exI [of _ "i - a"]) auto
qed

lemma lmem_loop_first:
  assumes "s2 \<noteq> []"
  shows "off + l1 + length s2 = length s1 + 1 \<Longrightarrow>
    lmem_loop s1 s2 off l1 = find (occurs_at s1 s2) [off..<off + l1]"
proof (induction l1 arbitrary: off rule: less_induct)
  case (less l1)
  let ?eq = "\<lambda>i. byte_at s1 i = byte_at s2 0"
  show ?case
  proof (cases "l1 > 0")
    case False
    then show ?thesis by (simp add: lmem_loop.simps)
  next
    case True
    have no: "\<not> occurs_at s1 s2 i" if "\<not> ?eq i" "i < off + l1" for i
      using that less.prems occurs_first [OF assms, of i s1] by simp
    show ?thesis
    proof (cases "find ?eq [off..<off + l1]")
      case None
      then have "find (occurs_at s1 s2) [off..<off + l1] = None" using no by (auto simp: find_None_iff)
      then show ?thesis using None True by (subst lmem_loop.simps) simp
    next
      case (Some i)
      then have i: "?eq i" "off \<le> i" "i < off + l1" and before: "\<And>j. off \<le> j \<Longrightarrow> j < i \<Longrightarrow> \<not> ?eq j"
        unfolding find_upt_Some by blast+
      have split: "[off..<off + l1] = [off..<i] @ i # [i + 1..<off + l1]"
        using i(2,3) upt_add_eq_append [of off i "off + l1 - i"] by (simp add: upt_conv_Cons)
      have "find (occurs_at s1 s2) [off..<i] = None" using no before i(3) by (auto simp: find_None_iff)
      then have find: "find (occurs_at s1 s2) [off..<off + l1] =
          (if occurs_at s1 s2 i then Some i else find (occurs_at s1 s2) [i + 1..<off + l1])"
        unfolding split find_append by simp
      show ?thesis
      proof (cases "occurs_at s1 s2 i")
        case True
        then show ?thesis
          using find Some \<open>l1 > 0\<close> i less.prems occurs_first [OF assms, of i s1] by (subst lmem_loop.simps) simp
      next
        case False
        have "lmem_loop s1 s2 (i + 1) (l1 - (i + 1 - off)) =
            find (occurs_at s1 s2) [i + 1..<i + 1 + (l1 - (i + 1 - off))]"
          using i less.prems by (intro less.IH) simp_all
        moreover have "i + 1 + (l1 - (i + 1 - off)) = off + l1" using i by simp
        ultimately show ?thesis
          using find False Some \<open>l1 > 0\<close> i less.prems occurs_first [OF assms, of i s1]
          by (subst lmem_loop.simps) (simp add: add.commute)
      qed
    qed
  qed
qed

text \<open>Plain search finds the first occurrence: \<open>lmemfind\<close>, which skips from one occurrence of the
  first byte to the next, returns the least position at which the searched string stands, and nothing
  when it stands nowhere.\<close>

theorem lmemfind_first:
  "lmemfind s1 s2 = find (occurs_at s1 s2) [0..<length s1 + 1]"
proof (cases "s2 = []")
  case True
  then show ?thesis by (simp add: lmemfind_def occurs_at_def upt_conv_Cons del: upt_Suc)
next
  case False
  show ?thesis
  proof (cases "length s2 > length s1")
    case True
    then have "find (occurs_at s1 s2) [0..<length s1 + 1] = None" by (auto simp: find_None_iff occurs_at_def)
    then show ?thesis using True False by (simp add: lmemfind_def)
  next
    case small: False
    let ?n = "length s1 - (length s2 - 1)"
    have "1 \<le> length s2" using False by (cases s2) auto
    then have n: "?n \<le> length s1 + 1" "0 + ?n + length s2 = length s1 + 1" using small by simp_all
    have "[0..<length s1 + 1] = [0..<?n] @ [?n..<length s1 + 1]"
      using upt_add_eq_append [of 0 ?n "length s1 + 1 - ?n"] n(1) by simp
    moreover have "find (occurs_at s1 s2) [?n..<length s1 + 1] = None"
      using n by (auto simp: find_None_iff occurs_at_def)
    moreover have "find P (xs @ ys) = find P xs" if "find P ys = None" for P and xs ys :: "nat list"
      using that by (induction xs) auto
    ultimately have "find (occurs_at s1 s2) [0..<length s1 + 1] = find (occurs_at s1 s2) [0..<?n]" by simp
    then show ?thesis using lmem_loop_first [OF False n(2)] False small by (simp add: lmemfind_def)
  qed
qed

lemma c_string_next:
  assumes "start + length (c_string p start) < length p"
  shows "drop start p = c_string p start @ 0 # drop (start + length (c_string p start) + 1) p"
proof -
  let ?w = "takeWhile (\<lambda>c. c \<noteq> 0) (drop start p)" and ?d = "dropWhile (\<lambda>c. c \<noteq> 0) (drop start p)"
  have app: "drop start p = ?w @ ?d" by simp
  have "length (drop start p) = length ?w + length ?d" by (simp flip: length_append)
  then have "0 < length ?d" using assms unfolding c_string_def length_drop by linarith
  then have "?d \<noteq> []" unfolding length_greater_0_conv .
  then have "hd ?d = 0" using hd_dropWhile [OF \<open>?d \<noteq> []\<close>] by blast
  then have "?d = 0 # tl ?d" using \<open>?d \<noteq> []\<close> by (metis list.collapse)
  moreover have tl: "tl (drop n xs) = drop (n + 1) xs" for n and xs :: bytes by (simp add: drop_Suc tl_drop)
  have "?d = drop (start + length ?w) p" using dropWhile_eq_drop [of _ "drop start p"] by (simp add: add.commute)
  then have "tl ?d = drop (start + length ?w + 1) p" using tl by metis
  ultimately show ?thesis using app unfolding c_string_def by metis
qed

lemma nospecials_from_all:
  "nospecials_from p start \<longleftrightarrow> (\<forall>c \<in> set (drop start p). c \<notin> set SPECIALS)"
proof (induction p start rule: nospecials_from.induct)
  case (1 p start)
  let ?c = "c_string p start" and ?n = "start + length (c_string p start) + 1"
  show ?case
  proof (cases "list_ex (\<lambda>c. c \<in> set SPECIALS) ?c")
    case True
    then obtain c where "c \<in> set ?c" "c \<in> set SPECIALS" by (auto simp: list_ex_iff)
    moreover have "set ?c \<subseteq> set (drop start p)" unfolding c_string_def by (auto dest: set_takeWhileD)
    ultimately show ?thesis using True by (subst nospecials_from.simps) auto
  next
    case False
    then have no: "\<forall>c \<in> set ?c. c \<notin> set SPECIALS" by (auto simp: list_ex_iff)
    show ?thesis
    proof (cases "?n \<le> length p")
      case True
      have "0 \<notin> set SPECIALS" by (simp add: SPECIALS_def)
      then have "(\<forall>c \<in> set (drop start p). c \<notin> set SPECIALS) \<longleftrightarrow> (\<forall>c \<in> set (drop ?n p). c \<notin> set SPECIALS)"
        using c_string_next [of start p] True no by auto
      moreover have "nospecials_from p ?n \<longleftrightarrow> (\<forall>c \<in> set (drop ?n p). c \<notin> set SPECIALS)"
        using False True by (intro 1) simp_all
      ultimately show ?thesis using False True by (subst nospecials_from.simps) (simp add: Let_def)
    next
      case over: False
      have "length ?c \<le> length (drop start p)" unfolding c_string_def by (rule length_takeWhile_le)
      with over have "length ?c = length (drop start p)" by simp
      then have "?c = drop start p" unfolding c_string_def by (metis append_eq_conv_conj takeWhile_eq_take take_all_iff order_refl)
      then show ?thesis using False over no by (subst nospecials_from.simps) (simp add: Let_def)
    qed
  qed
qed

section \<open>Results of a match\<close>

lemma collect_e_Inr: "collect_e ms = Inr ys \<longleftrightarrow> ms = map Inr ys"
  by (induction ms arbitrary: ys rule: collect_e.induct) (auto simp: bind_e_Inr Cons_eq_map_conv)

lemma collect_e_Inl: "collect_e ms = Inl e \<Longrightarrow> Inl e \<in> set ms"
  by (induction ms rule: collect_e.induct) (auto simp: bind_e_Inl)

definition cap_value :: "bytes \<Rightarrow> capture \<Rightarrow> pushed" where
  "cap_value src c =
     (if snd c = CAP_POSITION then P_int (int (fst c) + 1) else P_str (take (nat (snd c)) (drop (fst c) src)))"

lemma push_captures_values:
  assumes "push_captures src ms se = Inr vs" "level ms \<le> length (capture ms)"
  shows "vs = (if caps ms = [] then (case se of None \<Rightarrow> [] | Some (s, e) \<Rightarrow> [P_str (slice src s e)])
    else map (cap_value src) (caps ms))"
proof (cases "level ms = 0")
  case True
  then show ?thesis
    using assms(1) by (auto simp: push_captures_def collect_e_Inr caps_def push_onecapture_def Let_def split: option.splits)
next
  case False
  then have all: "map (\<lambda>i. push_onecapture src ms i se) [0..<level ms] = map Inr vs"
    using assms(1) by (simp add: push_captures_def collect_e_Inr)
  then have len: "length vs = level ms" by (metis length_map length_upt minus_nat.diff_0)
  have "vs ! i = cap_value src (caps ms ! i)" if "i < level ms" for i
  proof -
    have "map (\<lambda>i. push_onecapture src ms i se) [0..<level ms] ! i = map Inr vs ! i" by (simp only: all)
    then have "push_onecapture src ms i se = Inr (vs ! i)" using that len by simp
    then show ?thesis
      using that by (auto simp: push_onecapture_def cap_value_def caps_def split: prod.splits if_splits)
  qed
  moreover have "length (caps ms) = level ms" using assms(2) by (simp add: caps_def)
  ultimately show ?thesis using len False by (auto intro!: nth_equalityI)
qed

lemma push_captures_error: "push_captures src ms se = Inl e \<Longrightarrow> e \<noteq> Overread"
  by (auto simp: push_captures_def push_onecapture_def Let_def dest!: collect_e_Inl
      split: if_splits option.splits prod.splits)

text \<open>What one run of the matcher gives the loops around it.\<close>

lemma match_run:
  assumes "length (capture ms) = LUA_MAXCAPTURES" "s \<le> length src" "p \<le> length pat"
    and "match_from src pat d s p (reprepstate ms) = (r, ms')"
  obtains (error) e where "r = Inl e" "e \<noteq> Overread"
    | (none) "r = Inr None" "successes src pat p [] s = []" "length (capture ms') = LUA_MAXCAPTURES"
    | (some) e rest where "r = Inr (Some e)" "s \<le> e" "e \<le> length src" "level ms' \<le> length (capture ms')"
        "length (capture ms') = LUA_MAXCAPTURES" "successes src pat p [] s = (caps ms', e) # rest"
proof -
  have g: "good src s (reprepstate ms)" "caps (reprepstate ms) = []" using good_reprep assms(1,2) by blast+
  from rec_okD [OF match_outcome [of src pat d] g(1) assms(3)]
  have "outcome src s (reprepstate ms) (successes src pat p [] s) (r, ms')" by (simp add: assms(4) g(2))
  then show thesis
  proof (cases rule: outcomeE)
    case none
    then show ?thesis
      using g(1) by (intro that(2)) (simp_all add: same_caps_def good_def)
  next
    case (some e rest)
    then show ?thesis by (intro that(3)) (simp_all add: good_def)
  qed (use that(1) in blast)
qed

lemma prepstate_capture [simp]: "length (capture (prepstate n)) = LUA_MAXCAPTURES"
  by (simp add: prepstate_def)

section \<open>Finding\<close>

definition find_values :: "bool \<Rightarrow> bytes \<Rightarrow> nat \<Rightarrow> capture list \<times> nat \<Rightarrow> pushed list" where
  "find_values is_find src k ce =
     (if is_find then P_int (int k + 1) # P_int (int (snd ce)) # map (cap_value src) (fst ce)
      else if fst ce = [] then [P_str (slice src k (snd ce))] else map (cap_value src) (fst ce))"

lemma find_loop_leftmost:
  assumes "p \<le> length pat"
  shows "length (capture ms) = LUA_MAXCAPTURES \<Longrightarrow> s1 \<le> length src \<Longrightarrow>
    case find_loop src pat is_find anchor p s1 ms of
      Inl e \<Rightarrow> e \<noteq> Overread
    | Inr vs \<Rightarrow>
        (case find (\<lambda>k. successes src pat p [] k \<noteq> []) (if anchor then [s1] else [s1..<length src + 1]) of
           None \<Rightarrow> vs = [P_nil]
         | Some k \<Rightarrow> vs = find_values is_find src k (hd (successes src pat p [] k)))"
proof (induction "length src - s1" arbitrary: s1 ms rule: less_induct)
  case less
  obtain r ms' where r: "match_from src pat MAXCCALLS s1 p (reprepstate ms) = (r, ms')" by fastforce
  have upt: "[s1..<length src + 1] = s1 # [s1 + 1..<length src + 1]"
    using less.prems(2) by (simp add: upt_conv_Cons del: upt_Suc)
  from less.prems(1,2) assms r show ?case
  proof (cases rule: match_run)
    case (error e)
    then show ?thesis using r by (subst find_loop.simps) simp
  next
    case none
    show ?thesis
    proof (cases "s1 < length src \<and> \<not> anchor")
      case True
      then have step: "find_loop src pat is_find anchor p s1 ms = find_loop src pat is_find anchor p (s1 + 1) ms'"
        using r none by (subst find_loop.simps) simp
      have later: "find (\<lambda>k. successes src pat p [] k \<noteq> []) [s1..<length src + 1] =
          find (\<lambda>k. successes src pat p [] k \<noteq> []) [s1 + 1..<length src + 1]"
        unfolding upt using none(2) by (simp del: upt_Suc)
      have no: "\<not> anchor" using True by simp
      have "length src - (s1 + 1) < length src - s1" "s1 + 1 \<le> length src" using True by auto
      from less.hyps [OF this(1) none(3) this(2)] show ?thesis
        unfolding step if_not_P [OF no] later .
    next
      case False
      then have "find_loop src pat is_find anchor p s1 ms = Inr [P_nil]"
        using r none by (subst find_loop.simps) auto
      moreover have "\<not> anchor \<Longrightarrow> [s1..<length src + 1] = [s1]" using False less.prems(2) upt by simp
      ultimately show ?thesis using none(2) by (cases anchor) simp_all
    qed
  next
    case (some e rest)
    have hd: "hd (successes src pat p [] s1) = (caps ms', e)" "successes src pat p [] s1 \<noteq> []"
      using some(6) by simp_all
    then have first: "find (\<lambda>k. successes src pat p [] k \<noteq> []) (if anchor then [s1] else [s1..<length src + 1]) = Some s1"
      using upt by (simp del: upt_Suc)
    have run: "find_loop src pat is_find anchor p s1 ms =
        (if is_find then
            bind_e (push_captures src ms' None) (\<lambda>vs. Inr (P_int (int s1 + 1) # P_int (int e) # vs))
          else push_captures src ms' (Some (s1, e)))"
      using r some(1) by (subst find_loop.simps) simp
    show ?thesis
    proof (cases is_find)
      case True
      then show ?thesis
        unfolding first option.case hd run
        using push_captures_values [OF _ some(4), of src None] push_captures_error [of src ms' None]
        by (cases "push_captures src ms' None") (auto simp: find_values_def)
    next
      case False
      then show ?thesis
        unfolding first option.case hd run
        using push_captures_values [OF _ some(4), of src "Some (s1, e)"] push_captures_error [of src ms' "Some (s1, e)"]
        by (cases "push_captures src ms' (Some (s1, e))") (auto simp: find_values_def)
    qed
  qed
qed

text \<open>C18: \<open>string.find\<close> and \<open>string.match\<close> return the leftmost match: when they return for a pattern
  with special characters, the start is the least position from the initial one on at which the pattern
  matches at all (the initial one only, for a pattern anchored with \<open>^\<close>), the end and the captures are
  those of the preferred match there, and \<open>nil\<close> means that the pattern matches nowhere.\<close>

theorem find_leftmost:
  assumes "str_find_aux is_find s p i plain = Inr vs" "\<not> (is_find \<and> (plain \<or> nospecials p))"
    and "1 \<le> i" "i \<le> int (length s) + 1"
  shows "case find (\<lambda>k. successes s p (if byte_at p 0 = 94 then 1 else 0) [] k \<noteq> [])
      (if byte_at p 0 = 94 then [nat i - 1] else [nat i - 1..<length s + 1]) of
      None \<Rightarrow> vs = [P_nil]
    | Some k \<Rightarrow> vs = find_values is_find s k (hd (successes s p (if byte_at p 0 = 94 then 1 else 0) [] k))"
proof -
  let ?p = "if byte_at p 0 = 94 then 1 else 0"
  have p: "?p \<le> length p" using byte_at_less [of p 0] by (auto simp: Suc_le_eq)
  have "posrelat i (length s) = i" using assms(3) by (simp add: posrelat_def)
  then have "find_loop s p is_find (byte_at p 0 = 94) ?p (nat i - 1) (prepstate (length s)) = Inr vs"
    using assms by (simp add: str_find_aux_def Let_def nat_diff_distrib)
  moreover have "nat i - 1 \<le> length s" using assms(4) by simp
  ultimately show ?thesis
    using find_loop_leftmost [OF p, of "prepstate (length s)" "nat i - 1" s is_find "byte_at p 0 = 94"] by simp
qed

theorem find_leftmost_witness:
  "\<exists>vs. str_find_aux False [97] [97] 1 False = Inr vs \<and>
    find (\<lambda>k. successes [97] [97] 0 [] k \<noteq> []) [0..<2] = Some 0 \<and>
    vs = find_values False [97] 0 (hd (successes [97] [97] 0 [] 0))"
proof -
  have "successes [97] [97] 0 [] 0 \<noteq> []"
    using match_first_success [of "prepstate 1" 0 "[97]" 0 "[97]" MAXCCALLS "Some 1"] match_a
    by (auto split: list.splits)
  then have first: "find (\<lambda>k. successes [97] [97] 0 [] k \<noteq> []) [0..<2] = Some 0"
    by (simp add: upt_conv_Cons)
  have "find_loop [97] [97] False False 0 0 (prepstate 1) = Inr [P_str [97]]"
    using match_a
    by (subst find_loop.simps) (simp add: push_captures_def push_onecapture_def reprepstate_def slice_def)
  then have run: "str_find_aux False [97] [97] 1 False = Inr [P_str [97]]"
    by (simp add: str_find_aux_def posrelat_def byte_at_def Let_def)
  have b: "(byte_at [97] 0 = 94) = False" by (simp add: byte_at_def)
  have starts: "[nat 1 - 1..<length [97 :: byte] + 1] = [0..<2]" by (simp add: upt_conv_Cons)
  have "\<not> (False \<and> (False \<or> nospecials [97]))" "(1 :: int) \<le> 1" "(1 :: int) \<le> int (length [97 :: byte]) + 1"
    by simp_all
  from find_leftmost [OF run this] show ?thesis
    unfolding b if_False starts first option.case using run first by blast
qed

section \<open>Iterating\<close>

lemma gmatch_loop_next:
  "length (capture ms) = LUA_MAXCAPTURES \<Longrightarrow> src \<le> length s + 1 \<Longrightarrow>
   case gmatch_loop s p src ms of
     Inl e \<Rightarrow> e \<noteq> Overread
   | Inr None \<Rightarrow> find (\<lambda>k. successes s p 0 [] k \<noteq> []) [src..<length s + 1] = None
   | Inr (Some (vs, gm)) \<Rightarrow>
       (\<exists>k. find (\<lambda>k. successes s p 0 [] k \<noteq> []) [src..<length s + 1] = Some k \<and>
          vs = find_values False s k (hd (successes s p 0 [] k)) \<and>
          gm_src gm = (let e = snd (hd (successes s p 0 [] k)) in if e = k then k + 1 else e) \<and> src < gm_src gm \<and> gm_src gm \<le> length s + 1 \<and>
          length (capture (gm_ms gm)) = LUA_MAXCAPTURES)"
proof (induction "length s + 1 - src" arbitrary: src ms rule: less_induct)
  case less
  show ?case
  proof (cases "src \<le> length s")
    case False
    then show ?thesis using less.prems(2) by (subst gmatch_loop.simps) simp
  next
    case True
    obtain r ms' where r: "match_from s p MAXCCALLS src 0 (reprepstate ms) = (r, ms')" by fastforce
    have upt: "[src..<length s + 1] = src # [src + 1..<length s + 1]"
      using True by (simp add: upt_conv_Cons del: upt_Suc)
    from less.prems(1) True le0 [of "length p"] r show ?thesis
    proof (cases rule: match_run)
      case (error e)
      then show ?thesis using r True by (subst gmatch_loop.simps) simp
    next
      case none
      then have step: "gmatch_loop s p src ms = gmatch_loop s p (src + 1) ms'"
        using r True by (subst gmatch_loop.simps) simp
      have later: "find (\<lambda>k. successes s p 0 [] k \<noteq> []) [src..<length s + 1] =
          find (\<lambda>k. successes s p 0 [] k \<noteq> []) [src + 1..<length s + 1]"
        unfolding upt using none(2) by (simp del: upt_Suc)
      have less': "length s + 1 - (src + 1) < length s + 1 - src" "src + 1 \<le> length s + 1" using True by auto
      from less.hyps [OF less'(1) none(3) less'(2)] show ?thesis
        unfolding step later by (auto split: sum.splits option.splits)
    next
      case (some e rest)
      have first: "find (\<lambda>k. successes s p 0 [] k \<noteq> []) [src..<length s + 1] = Some src"
        unfolding upt using some(6) by simp
      have run: "gmatch_loop s p src ms = bind_e (push_captures s ms' (Some (src, e))) (\<lambda>vs.
          Inr (Some (vs, \<lparr>gm_src = (if e = src then src + 1 else e), gm_ms = ms'\<rparr>)))"
        using r some(1) True by (subst gmatch_loop.simps) simp
      show ?thesis
      proof (cases "push_captures s ms' (Some (src, e))")
        case (Inl x)
        then show ?thesis using run push_captures_error by auto
      next
        case (Inr vs)
        then have "vs = find_values False s src (caps ms', e)"
          using push_captures_values [OF Inr some(4)] by (simp add: find_values_def)
        then show ?thesis using run Inr some first by simp
      qed
    qed
  qed
qed

text \<open>\<open>string.gmatch\<close> walks over the subject: each call of its iterator returns the leftmost match
  from its position on, with its captures, and moves to the end of the match, or one byte further
  after an empty match; so the position always grows and the loop ends, and it ends only when the
  pattern matches nowhere in the rest.\<close>

theorem gmatch_next:
  assumes "length (capture (gm_ms gm)) = LUA_MAXCAPTURES" "gm_src gm \<le> length s + 1"
  shows "case gmatch_aux s p gm of
     Inl e \<Rightarrow> e \<noteq> Overread
   | Inr None \<Rightarrow> find (\<lambda>k. successes s p 0 [] k \<noteq> []) [gm_src gm..<length s + 1] = None
   | Inr (Some (vs, gm')) \<Rightarrow>
       (\<exists>k. find (\<lambda>k. successes s p 0 [] k \<noteq> []) [gm_src gm..<length s + 1] = Some k \<and>
          vs = find_values False s k (hd (successes s p 0 [] k)) \<and>
          gm_src gm' = (let e = snd (hd (successes s p 0 [] k)) in if e = k then k + 1 else e) \<and> gm_src gm < gm_src gm' \<and> gm_src gm' \<le> length s + 1 \<and>
          length (capture (gm_ms gm')) = LUA_MAXCAPTURES)"
  using gmatch_loop_next [OF assms] by (simp add: gmatch_aux_def)

theorem gmatch_next_witness:
  "case gmatch_aux [97] [97] (gmatch [97]) of
     Inl e \<Rightarrow> e \<noteq> Overread | Inr None \<Rightarrow> False | Inr (Some (vs, gm')) \<Rightarrow> 0 < gm_src gm'"
proof -
  have "successes [97] [97] 0 [] 0 \<noteq> []"
    using match_first_success [of "prepstate 1" 0 "[97]" 0 "[97]" MAXCCALLS "Some 1"] match_a
    by (auto split: list.splits)
  then have "find (\<lambda>k. successes [97] [97] 0 [] k \<noteq> []) [0..<2] = Some 0"
    by (simp add: upt_conv_Cons)
  then show ?thesis
    using gmatch_next [of "gmatch [97]" "[97]" "[97]"]
    by (auto simp: gmatch_def numeral_2_eq_2 simp del: upt_Suc split: sum.splits option.splits)
qed

section \<open>Substituting\<close>

lemma add_s_error: "add_s src ms s e news = Inl x \<Longrightarrow> x \<noteq> Overread"
  by (induction src ms s e news rule: add_s.induct)
    (auto simp: bind_e_Inl push_onecapture_def Let_def split: if_splits list.splits option.splits prod.splits)

lemma add_value_error: "add_value src ms s e tr \<noteq> Inl Overread"
proof (cases tr)
  case (Repl_str news)
  then show ?thesis using add_s_error [of src ms s e news] by (auto simp: add_value_def)
next
  case (Repl_table f)
  have "push_onecapture src ms 0 (Some (s, e)) \<noteq> Inl Overread"
    by (auto simp: push_onecapture_def Let_def split: prod.split)
  then show ?thesis
    using Repl_table by (auto simp: add_value_def bind_e_def split: sum.split repl_value.split)
next
  case (Repl_fun f)
  then show ?thesis
    using push_captures_error [of src ms "Some (s, e)"]
    by (auto simp: add_value_def bind_e_def split: sum.split repl_value.split)
qed

text \<open>Replacements that put back what was matched.\<close>

definition keeps_match :: "repl \<Rightarrow> bool" where
  "keeps_match tr \<longleftrightarrow> (\<forall>src ms s e v. add_value src ms s e tr = Inr v \<longrightarrow> v = slice src s e)"

lemma keeps_match_whole: "keeps_match (Repl_str [37, 48])" "keeps_match (Repl_fun (\<lambda>_. R_false))" "keeps_match (Repl_table (\<lambda>_. R_false))"
  by (simp_all add: keeps_match_def add_value_def L_ESC_def c_isdigit_def bind_e_Inr)

lemma slice_drop: "i \<le> j \<Longrightarrow> slice str i j @ drop j str = drop i str"
  using append_take_drop_id [of "j - i" "drop i str"] by (simp add: slice_def)

text \<open>
  The matches that \<open>gsub\<close> takes, at most \<open>k\<close> of them: at each position the first success of the
  pattern, then on from its end, or one byte further after an empty match or none.
\<close>

function taken :: "bytes \<Rightarrow> bytes \<Rightarrow> nat \<Rightarrow> bool \<Rightarrow> nat \<Rightarrow> nat \<Rightarrow> (nat \<times> nat) list" where
  "taken s pat p anchor k src =
     (if k = 0 \<or> length s < src then []
      else case successes s pat p [] src of
        [] \<Rightarrow> if src < length s \<and> \<not> anchor then taken s pat p anchor k (src + 1) else []
      | (c, e) # _ \<Rightarrow>
          (src, e) #
          (if anchor then []
           else if src < e then taken s pat p anchor (k - 1) e
           else if src < length s then taken s pat p anchor (k - 1) (src + 1)
           else []))"
  by pat_completeness auto
termination by (relation "measure (\<lambda>(s, pat, p, anchor, k, src). length s + 1 - src)") auto

declare taken.simps [simp del]

lemma taken_length: "length (taken s pat p anchor k src) \<le> k"
proof (induction s pat p anchor k src rule: taken.induct)
  case (1 s pat p anchor k src)
  show ?case
  proof (cases "k = 0 \<or> length s < src")
    case False
    then show ?thesis
      using 1 by (subst taken.simps) (auto split: list.split, fastforce+)
  qed (simp add: taken.simps)
qed

text \<open>Where an error of \<open>gsub\<close> comes from: the matcher at some position, or a replacement value.\<close>

definition gsub_blames :: "bytes \<Rightarrow> bytes \<Rightarrow> nat \<Rightarrow> repl \<Rightarrow> match_error \<Rightarrow> bool" where
  "gsub_blames s pat p tr x \<longleftrightarrow>
     (\<exists>src ms ms'. src \<le> length s \<and> match_from s pat MAXCCALLS src p (reprepstate ms) = (Inl x, ms')) \<or>
     (\<exists>src e ms. add_value s ms src e tr = Inl x)"

definition gsub_result ::
  "bytes \<Rightarrow> bytes \<Rightarrow> nat \<Rightarrow> bool \<Rightarrow> repl \<Rightarrow> int \<Rightarrow> nat \<Rightarrow> int \<Rightarrow> bytes \<Rightarrow> match_error + bytes \<times> int \<Rightarrow> bool" where
  "gsub_result s pat p anchor tr max_s src n b x \<longleftrightarrow>
     (case x of
        Inl e \<Rightarrow> e \<noteq> Overread \<and> gsub_blames s pat p tr e
      | Inr (r, m) \<Rightarrow>
          m = n + int (length (taken s pat p anchor (nat (max_s - n)) src)) \<and>
          (keeps_match tr \<longrightarrow> r = b @ drop src s))"

lemma gsub_result_simps [simp]:
  "gsub_result s pat p anchor tr max_s src n b (Inl e) \<longleftrightarrow> e \<noteq> Overread \<and> gsub_blames s pat p tr e"
  "gsub_result s pat p anchor tr max_s src n b (Inr (r, m)) \<longleftrightarrow>
     m = n + int (length (taken s pat p anchor (nat (max_s - n)) src)) \<and>
     (keeps_match tr \<longrightarrow> r = b @ drop src s)"
  by (simp_all add: gsub_result_def)

lemma gsub_result_step:
  assumes "gsub_result s pat p anchor tr max_s src' n' b' x"
    and "n' + int (length (taken s pat p anchor (nat (max_s - n')) src')) =
      n + int (length (taken s pat p anchor (nat (max_s - n)) src))"
    and "keeps_match tr \<Longrightarrow> b' @ drop src' s = b @ drop src s"
  shows "gsub_result s pat p anchor tr max_s src n b x"
  using assms by (auto simp: gsub_result_def split: sum.splits)

lemma gsub_loop_ok:
  assumes "p \<le> length pat"
  shows "length (capture ms) = LUA_MAXCAPTURES \<Longrightarrow> src \<le> length s \<Longrightarrow>
    gsub_result s pat p anchor tr max_s src n b (gsub_loop s pat p anchor tr max_s src n b ms)"
proof (induction "length s - src" arbitrary: src n b ms rule: less_induct)
  case less
  show ?case
  proof (cases "n < max_s")
    case False
    then show ?thesis using less.prems(2) by (subst gsub_loop.simps) (simp add: not_less taken.simps)
  next
    case True
    obtain r ms' where r: "match_from s pat MAXCCALLS src p (reprepstate ms) = (r, ms')" by fastforce
    have here: "src < length s \<Longrightarrow> [s ! src] @ drop (src + 1) s = drop src s" by (simp add: Cons_nth_drop_Suc)
    have step: "gsub_result s pat p anchor tr max_s src' n' b' (gsub_loop s pat p anchor tr max_s src' n' b' ms')"
      if "src < src'" "src' \<le> length s" "length (capture ms') = LUA_MAXCAPTURES" for src' n' b'
      using that by (intro less.hyps) simp_all
    note loop = gsub_loop.simps [of s pat p anchor tr max_s src n b ms]
    note tk = taken.simps [of s pat p anchor "nat (max_s - n)" src]
    have k: "nat (max_s - n) \<noteq> 0" "nat (max_s - n) - 1 = nat (max_s - (n + 1))" using True by simp_all
    from less.prems(1,2) assms r show ?thesis
    proof (cases rule: match_run)
      case (error e)
      then have "gsub_blames s pat p tr e" using r less.prems(2) unfolding gsub_blames_def by blast
      with error show ?thesis using r True less.prems(2) loop by simp
    next
      case none
      show ?thesis
      proof (cases "src < length s \<and> \<not> anchor")
        case go: True
        then have eq: "gsub_loop s pat p anchor tr max_s src n b ms =
            gsub_loop s pat p anchor tr max_s (src + 1) n (b @ [s ! src]) ms'"
          using r none True loop by simp
        show ?thesis
          unfolding eq
          by (rule gsub_result_step [OF step [of "src + 1" n "b @ [s ! src]"]])
             (use go none here k tk in simp_all)
      next
        case False
        then have "gsub_loop s pat p anchor tr max_s src n b ms = Inr (b @ drop src s, n)"
          using r none True less.prems(2) here loop by auto
        moreover have "taken s pat p anchor (nat (max_s - n)) src = []" using False none k tk less.prems(2) by auto
        ultimately show ?thesis by simp
      qed
    next
      case (some e rest)
      show ?thesis
      proof (cases "add_value s ms' src e tr")
        case (Inl x)
        then have "gsub_blames s pat p tr x" unfolding gsub_blames_def by blast
        moreover have "gsub_loop s pat p anchor tr max_s src n b ms = Inl x"
          using r some True less.prems(2) Inl loop by simp
        ultimately show ?thesis using add_value_error [of s ms' src e tr] Inl by auto
      next
        case (Inr v)
        have v: "keeps_match tr \<Longrightarrow> v = slice s src e" using Inr by (simp add: keeps_match_def)
        note facts = r some Inr True less.prems(2)
        consider "e > src" "anchor" | "e > src" "\<not> anchor" | "e = src" "src < length s" "anchor"
          | "e = src" "src < length s" "\<not> anchor" | "e = src" "src = length s"
          using some(2,3) by linarith
        then show ?thesis
        proof cases
          case 1
          then have "gsub_loop s pat p anchor tr max_s src n b ms = Inr ((b @ v) @ drop e s, n + 1)"
            using facts loop by simp
          then show ?thesis using v slice_drop [of src e s] 1 some k tk less.prems(2) by simp
        next
          case 2
          then have eq: "gsub_loop s pat p anchor tr max_s src n b ms =
              gsub_loop s pat p anchor tr max_s e (n + 1) (b @ v) ms'"
            using facts loop by simp
          show ?thesis
            unfolding eq
            by (rule gsub_result_step [OF step [OF 2(1) some(3,5), of "n + 1" "b @ v"]])
               (use v slice_drop [of src e s] 2 some k tk less.prems(2) in simp_all)
        next
          case 3
          then have "gsub_loop s pat p anchor tr max_s src n b ms = Inr ((b @ v) @ [s ! src] @ drop (src + 1) s, n + 1)"
            using facts loop by simp
          then show ?thesis using v here [OF 3(2)] 3 some k tk by (simp add: slice_def)
        next
          case 4
          then have eq: "gsub_loop s pat p anchor tr max_s src n b ms =
              gsub_loop s pat p anchor tr max_s (src + 1) (n + 1) ((b @ v) @ [s ! src]) ms'"
            using facts loop by simp
          have "keeps_match tr \<Longrightarrow> ((b @ v) @ [s ! src]) @ drop (src + 1) s = b @ drop src s"
            using v here [OF 4(2)] 4 by (simp add: slice_def)
          then show ?thesis
            unfolding eq
            by (intro gsub_result_step [OF step [of "src + 1" "n + 1" "(b @ v) @ [s ! src]"]])
               (use 4 some k tk in simp_all)
        next
          case 5
          then have "gsub_loop s pat p anchor tr max_s src n b ms = Inr ((b @ v) @ drop src s, n + 1)"
            using facts loop by simp
          then show ?thesis using v 5 some k tk by (simp add: slice_def)
        qed
      qed
    qed
  qed
qed

text \<open>C19: \<open>string.gsub\<close> rebuilds the subject around its replacements. When every replacement is
  what was matched (the string \<open>%0\<close>, or a table or function that gives \<open>nil\<close> or \<open>false\<close>), the call
  fails only with an error of the matcher at some position of the subject, or, for a table or
  function, of reading the captures; otherwise the result is the subject, whatever the pattern, and
  the count is the number of successive leftmost matches that do not overlap, up to the limit asked
  for.\<close>

theorem gsub_identity:
  fixes s p :: bytes and limit :: "int option"
  assumes "tr \<in> {Repl_str [37, 48], Repl_fun (\<lambda>_. R_false), Repl_table (\<lambda>_. R_false)}"
  defines "start \<equiv> if byte_at p 0 = 94 then 1 else 0"
    and "max_s \<equiv> case limit of None \<Rightarrow> int (length s) + 1 | Some k \<Rightarrow> k"
  shows "case str_gsub s p tr limit of
      Inr (r, n) \<Rightarrow> r = s \<and> n = int (length (taken s p start (byte_at p 0 = 94) (nat max_s) 0)) \<and>
        0 \<le> n \<and> n \<le> max 0 max_s
    | Inl x \<Rightarrow>
        (\<exists>src ms ms'. src \<le> length s \<and> match_from s p MAXCCALLS src start (reprepstate ms) = (Inl x, ms')) \<or>
        tr \<noteq> Repl_str [37, 48] \<and> (\<exists>src e ms. add_value s ms src e tr = Inl x)"
proof -
  have p: "start \<le> length p" using byte_at_less [of p 0] by (auto simp: Suc_le_eq start_def)
  have keeps: "keeps_match tr" using assms(1) keeps_match_whole by auto
  have whole: "add_value s ms src e (Repl_str [37, 48]) = Inr (slice s src e)" for ms src e
    by (simp add: add_value_def L_ESC_def c_isdigit_def bind_e_def)
  have run: "str_gsub s p tr limit = gsub_loop s p start (byte_at p 0 = 94) tr max_s 0 0 [] (prepstate (length s))"
    by (simp add: str_gsub_def Let_def start_def max_s_def split: option.split)
  have "gsub_result s p start (byte_at p 0 = 94) tr max_s 0 0 [] (str_gsub s p tr limit)"
    unfolding run by (rule gsub_loop_ok [OF p]) simp_all
  then show ?thesis
    using keeps whole taken_length [of s p start "byte_at p 0 = 94" "nat max_s" 0]
    by (auto simp: gsub_blames_def split: sum.split)
qed

lemma match_a_end:
  "match_from [97] [97] MAXCCALLS 1 0 (reprepstate ms) = (Inr None, reprepstate ms)"
proof -
  have depth: "MAXCCALLS = Suc 199" by (simp add: MAXCCALLS_def)
  have "classend [97] 0 = Inr 1" by (simp add: classend_def byte_at_def L_ESC_def)
  moreover have "singlematch [97] [97] 1 0 1 = Inr False" by (simp add: singlematch_def byte_at_def L_ESC_def)
  ultimately have "match_turn [97] [97] rec 1 0 (reprepstate ms) = (Inr (Return None), reprepstate ms)" for rec
    by (simp add: match_turn_def dflt_def prog_simps byte_at_def L_ESC_def)
  then show ?thesis
    unfolding depth match_from.simps by (simp add: match_loop.simps)
qed

text \<open>One match is replaced, and the search goes on at the end of the subject.\<close>

lemma gsub_a: "str_gsub [97] [97] (Repl_str [37, 48]) None = Inr ([97], 1)"
proof -
  have "add_value [97] ms 0 1 (Repl_str [37, 48]) = Inr [97]" for ms
    by (simp add: add_value_def L_ESC_def c_isdigit_def bind_e_def slice_def)
  then have "gsub_loop [97] [97] 0 False (Repl_str [37, 48]) 2 0 0 [] (prepstate 1) = Inr ([97], 1)"
    using match_a
    by (subst gsub_loop.simps, simp, subst gsub_loop.simps) (simp add: match_a_end [simplified])
  then show ?thesis by (simp add: str_gsub_def byte_at_def)
qed

theorem gsub_identity_witness:
  "\<exists>n. str_gsub [97] [97] (Repl_str [37, 48]) None = Inr ([97], n) \<and>
     n = int (length (taken [97] [97] 0 False 2 0)) \<and> n = 1"
  using gsub_identity [of "Repl_str [37, 48]" "[97]" "[97]" None] by (simp add: gsub_a byte_at_def)

text \<open>No call of \<open>string.find\<close>, \<open>string.match\<close> or \<open>string.gsub\<close> reads outside the subject, the
  pattern or the replacement, whatever bytes they hold.\<close>

theorem strlib_in_bounds:
  "str_find_aux is_find s p i plain \<noteq> Inl Overread \<and> str_gsub s p tr limit \<noteq> Inl Overread"
proof -
  let ?p = "if byte_at p 0 = 94 then 1 else 0"
  have p: "?p \<le> length p" using byte_at_less [of p 0] by (auto simp: Suc_le_eq)
  have "find_loop s p is_find anchor ?p k (prepstate (length s)) \<noteq> Inl Overread" if "k \<le> length s" for anchor k
    using find_loop_leftmost [OF p, of "prepstate (length s)" k s is_find anchor] that by auto
  then have "str_find_aux is_find s p i plain \<noteq> Inl Overread"
    by (auto simp: str_find_aux_def Let_def nat_le_iff split: option.splits)
  moreover have "str_gsub s p tr limit \<noteq> Inl Overread"
    using gsub_loop_ok [OF p, where ms = "prepstate (length s)" and src = 0 and s = s and
        anchor = "byte_at p 0 = 94" and tr = tr and n = 0 and b = "[]" and
        max_s = "case limit of Some k \<Rightarrow> k | None \<Rightarrow> int (length s) + 1"]
    by (auto simp: str_gsub_def Let_def gsub_result_def)
  ultimately show ?thesis by blast
qed

end
