(* ===== verification/LuaOpcodes.thy ===== *)
theory LuaOpcodes
  imports LuaBase
begin

text \<open>
  The instructions of the Lua virtual machine (\<open>lopcodes.h\<close>, \<open>lopcodes.c\<close>): 32-bit words with a
  6-bit opcode and the fields A, B, C, Bx, sBx and Ax. The macros are functions on \<open>u32\<close>; the
  lemmas say that each field can be written and read back and that the fields do not overlap.
\<close>

type_synonym Instruction = u32

section \<open>Operation codes\<close>

datatype OpCode =
    OP_MOVE | OP_LOADK | OP_LOADKX | OP_LOADBOOL | OP_LOADNIL | OP_GETUPVAL | OP_GETTABUP |
    OP_GETTABLE | OP_SETTABUP | OP_SETUPVAL | OP_SETTABLE | OP_NEWTABLE | OP_SELF | OP_ADD |
    OP_SUB | OP_MUL | OP_MOD | OP_POW | OP_DIV | OP_IDIV | OP_BAND | OP_BOR | OP_BXOR | OP_SHL |
    OP_SHR | OP_UNM | OP_BNOT | OP_NOT | OP_LEN | OP_CONCAT | OP_JMP | OP_EQ | OP_LT | OP_LE |
    OP_TEST | OP_TESTSET | OP_CALL | OP_TAILCALL | OP_RETURN | OP_FORLOOP | OP_FORPREP |
    OP_TFORCALL | OP_TFORLOOP | OP_SETLIST | OP_CLOSURE | OP_VARARG | OP_EXTRAARG

text \<open>The value of the enumeration constant, and the cast of an integer to the enumeration.\<close>

primrec op_num :: "OpCode \<Rightarrow> nat" where
  "op_num OP_MOVE = 0"
| "op_num OP_LOADK = 1"
| "op_num OP_LOADKX = 2"
| "op_num OP_LOADBOOL = 3"
| "op_num OP_LOADNIL = 4"
| "op_num OP_GETUPVAL = 5"
| "op_num OP_GETTABUP = 6"
| "op_num OP_GETTABLE = 7"
| "op_num OP_SETTABUP = 8"
| "op_num OP_SETUPVAL = 9"
| "op_num OP_SETTABLE = 10"
| "op_num OP_NEWTABLE = 11"
| "op_num OP_SELF = 12"
| "op_num OP_ADD = 13"
| "op_num OP_SUB = 14"
| "op_num OP_MUL = 15"
| "op_num OP_MOD = 16"
| "op_num OP_POW = 17"
| "op_num OP_DIV = 18"
| "op_num OP_IDIV = 19"
| "op_num OP_BAND = 20"
| "op_num OP_BOR = 21"
| "op_num OP_BXOR = 22"
| "op_num OP_SHL = 23"
| "op_num OP_SHR = 24"
| "op_num OP_UNM = 25"
| "op_num OP_BNOT = 26"
| "op_num OP_NOT = 27"
| "op_num OP_LEN = 28"
| "op_num OP_CONCAT = 29"
| "op_num OP_JMP = 30"
| "op_num OP_EQ = 31"
| "op_num OP_LT = 32"
| "op_num OP_LE = 33"
| "op_num OP_TEST = 34"
| "op_num OP_TESTSET = 35"
| "op_num OP_CALL = 36"
| "op_num OP_TAILCALL = 37"
| "op_num OP_RETURN = 38"
| "op_num OP_FORLOOP = 39"
| "op_num OP_FORPREP = 40"
| "op_num OP_TFORCALL = 41"
| "op_num OP_TFORLOOP = 42"
| "op_num OP_SETLIST = 43"
| "op_num OP_CLOSURE = 44"
| "op_num OP_VARARG = 45"
| "op_num OP_EXTRAARG = 46"

definition all_opcodes :: "OpCode list" where
  "all_opcodes =
     [OP_MOVE, OP_LOADK, OP_LOADKX, OP_LOADBOOL, OP_LOADNIL, OP_GETUPVAL, OP_GETTABUP,
      OP_GETTABLE, OP_SETTABUP, OP_SETUPVAL, OP_SETTABLE, OP_NEWTABLE, OP_SELF, OP_ADD,
      OP_SUB, OP_MUL, OP_MOD, OP_POW, OP_DIV, OP_IDIV, OP_BAND, OP_BOR, OP_BXOR, OP_SHL,
      OP_SHR, OP_UNM, OP_BNOT, OP_NOT, OP_LEN, OP_CONCAT, OP_JMP, OP_EQ, OP_LT, OP_LE,
      OP_TEST, OP_TESTSET, OP_CALL, OP_TAILCALL, OP_RETURN, OP_FORLOOP, OP_FORPREP,
      OP_TFORCALL, OP_TFORLOOP, OP_SETLIST, OP_CLOSURE, OP_VARARG, OP_EXTRAARG]"

definition NUM_OPCODES :: nat where
  "NUM_OPCODES = op_num OP_EXTRAARG + 1"

text \<open>The cast is only defined for the values of the enumeration.\<close>

definition op_of :: "nat \<Rightarrow> OpCode option" where
  "op_of n = (if n < NUM_OPCODES then Some (all_opcodes ! n) else None)"

definition luaP_opnames :: "string list" where
  "luaP_opnames =
     [''MOVE'', ''LOADK'', ''LOADKX'', ''LOADBOOL'', ''LOADNIL'', ''GETUPVAL'', ''GETTABUP'',
      ''GETTABLE'', ''SETTABUP'', ''SETUPVAL'', ''SETTABLE'', ''NEWTABLE'', ''SELF'', ''ADD'',
      ''SUB'', ''MUL'', ''MOD'', ''POW'', ''DIV'', ''IDIV'', ''BAND'', ''BOR'', ''BXOR'',
      ''SHL'', ''SHR'', ''UNM'', ''BNOT'', ''NOT'', ''LEN'', ''CONCAT'', ''JMP'', ''EQ'',
      ''LT'', ''LE'', ''TEST'', ''TESTSET'', ''CALL'', ''TAILCALL'', ''RETURN'', ''FORLOOP'',
      ''FORPREP'', ''TFORCALL'', ''TFORLOOP'', ''SETLIST'', ''CLOSURE'', ''VARARG'',
      ''EXTRAARG'']"

section \<open>Fields\<close>

definition SIZE_C :: nat where "SIZE_C = 9"
definition SIZE_B :: nat where "SIZE_B = 9"
definition SIZE_Bx :: nat where "SIZE_Bx = SIZE_C + SIZE_B"
definition SIZE_A :: nat where "SIZE_A = 8"
definition SIZE_Ax :: nat where "SIZE_Ax = SIZE_C + SIZE_B + SIZE_A"
definition SIZE_OP :: nat where "SIZE_OP = 6"
definition POS_OP :: nat where "POS_OP = 0"
definition POS_A :: nat where "POS_A = POS_OP + SIZE_OP"
definition POS_C :: nat where "POS_C = POS_A + SIZE_A"
definition POS_B :: nat where "POS_B = POS_C + SIZE_C"
definition POS_Bx :: nat where "POS_Bx = POS_C"
definition POS_Ax :: nat where "POS_Ax = POS_A"

lemmas field_defs = SIZE_C_def SIZE_B_def SIZE_Bx_def SIZE_A_def SIZE_Ax_def SIZE_OP_def
  POS_OP_def POS_A_def POS_C_def POS_B_def POS_Bx_def POS_Ax_def

definition MAXARG_Bx :: nat where "MAXARG_Bx = 2 ^ SIZE_Bx - 1"
definition MAXARG_sBx :: nat where "MAXARG_sBx = MAXARG_Bx div 2"
definition MAXARG_Ax :: nat where "MAXARG_Ax = 2 ^ SIZE_Ax - 1"
definition MAXARG_A :: nat where "MAXARG_A = 2 ^ SIZE_A - 1"
definition MAXARG_B :: nat where "MAXARG_B = 2 ^ SIZE_B - 1"
definition MAXARG_C :: nat where "MAXARG_C = 2 ^ SIZE_C - 1"

text \<open>\<open>MASK1 n p\<close> has \<open>n\<close> one bits at position \<open>p\<close>, \<open>MASK0\<close> zero bits there.\<close>

definition MASK1 :: "nat \<Rightarrow> nat \<Rightarrow> u32" where
  "MASK1 n p = push_bit p (NOT (push_bit n (NOT 0)))"

definition MASK0 :: "nat \<Rightarrow> nat \<Rightarrow> u32" where
  "MASK0 n p = NOT (MASK1 n p)"

definition getarg :: "Instruction \<Rightarrow> nat \<Rightarrow> nat \<Rightarrow> u32" where
  "getarg i pos sz = drop_bit pos i AND MASK1 sz 0"

definition setarg :: "Instruction \<Rightarrow> u32 \<Rightarrow> nat \<Rightarrow> nat \<Rightarrow> Instruction" where
  "setarg i v pos sz = (i AND MASK0 sz pos) OR (push_bit pos v AND MASK1 sz pos)"

definition GET_OPCODE :: "Instruction \<Rightarrow> OpCode option" where
  "GET_OPCODE i = op_of (unat (drop_bit POS_OP i AND MASK1 SIZE_OP 0))"

definition SET_OPCODE :: "Instruction \<Rightarrow> OpCode \<Rightarrow> Instruction" where
  "SET_OPCODE i oc = setarg i (of_nat (op_num oc)) POS_OP SIZE_OP"

definition GETARG_A :: "Instruction \<Rightarrow> u32" where "GETARG_A i = getarg i POS_A SIZE_A"
definition GETARG_B :: "Instruction \<Rightarrow> u32" where "GETARG_B i = getarg i POS_B SIZE_B"
definition GETARG_C :: "Instruction \<Rightarrow> u32" where "GETARG_C i = getarg i POS_C SIZE_C"
definition GETARG_Bx :: "Instruction \<Rightarrow> u32" where "GETARG_Bx i = getarg i POS_Bx SIZE_Bx"
definition GETARG_Ax :: "Instruction \<Rightarrow> u32" where "GETARG_Ax i = getarg i POS_Ax SIZE_Ax"
definition GETARG_sBx :: "Instruction \<Rightarrow> int" where
  "GETARG_sBx i = uint (GETARG_Bx i) - int MAXARG_sBx"

definition SETARG_A :: "Instruction \<Rightarrow> u32 \<Rightarrow> Instruction" where
  "SETARG_A i v = setarg i v POS_A SIZE_A"
definition SETARG_B :: "Instruction \<Rightarrow> u32 \<Rightarrow> Instruction" where
  "SETARG_B i v = setarg i v POS_B SIZE_B"
definition SETARG_C :: "Instruction \<Rightarrow> u32 \<Rightarrow> Instruction" where
  "SETARG_C i v = setarg i v POS_C SIZE_C"
definition SETARG_Bx :: "Instruction \<Rightarrow> u32 \<Rightarrow> Instruction" where
  "SETARG_Bx i v = setarg i v POS_Bx SIZE_Bx"
definition SETARG_Ax :: "Instruction \<Rightarrow> u32 \<Rightarrow> Instruction" where
  "SETARG_Ax i v = setarg i v POS_Ax SIZE_Ax"
definition SETARG_sBx :: "Instruction \<Rightarrow> int \<Rightarrow> Instruction" where
  "SETARG_sBx i b = SETARG_Bx i (word_of_int (b + int MAXARG_sBx))"

definition CREATE_ABC :: "OpCode \<Rightarrow> u32 \<Rightarrow> u32 \<Rightarrow> u32 \<Rightarrow> Instruction" where
  "CREATE_ABC oc a b c =
     push_bit POS_OP (of_nat (op_num oc)) OR push_bit POS_A a OR push_bit POS_B b OR push_bit POS_C c"

definition CREATE_ABx :: "OpCode \<Rightarrow> u32 \<Rightarrow> u32 \<Rightarrow> Instruction" where
  "CREATE_ABx oc a bc =
     push_bit POS_OP (of_nat (op_num oc)) OR push_bit POS_A a OR push_bit POS_Bx bc"

definition CREATE_Ax :: "OpCode \<Rightarrow> u32 \<Rightarrow> Instruction" where
  "CREATE_Ax oc a = push_bit POS_OP (of_nat (op_num oc)) OR push_bit POS_Ax a"

section \<open>Operands in registers or constants\<close>

definition BITRK :: u32 where "BITRK = push_bit (SIZE_B - 1) 1"
definition ISK :: "u32 \<Rightarrow> bool" where "ISK x \<longleftrightarrow> x AND BITRK \<noteq> 0"
definition INDEXK :: "u32 \<Rightarrow> u32" where "INDEXK r = r AND NOT BITRK"
definition MAXINDEXRK :: u32 where "MAXINDEXRK = BITRK - 1"
definition RKASK :: "u32 \<Rightarrow> u32" where "RKASK x = x OR BITRK"
definition NO_REG :: u32 where "NO_REG = of_nat MAXARG_A"

section \<open>Modes\<close>

definition iABC :: nat where "iABC = 0"
definition iABx :: nat where "iABx = 1"
definition iAsBx :: nat where "iAsBx = 2"
definition iAx :: nat where "iAx = 3"
definition OpArgN :: nat where "OpArgN = 0"
definition OpArgU :: nat where "OpArgU = 1"
definition OpArgR :: nat where "OpArgR = 2"
definition OpArgK :: nat where "OpArgK = 3"

lemmas mode_defs = iABC_def iABx_def iAsBx_def iAx_def OpArgN_def OpArgU_def OpArgR_def OpArgK_def

definition opmode :: "nat \<Rightarrow> nat \<Rightarrow> nat \<Rightarrow> nat \<Rightarrow> nat \<Rightarrow> nat" where
  "opmode t a b c m = push_bit 7 t OR push_bit 6 a OR push_bit 4 b OR push_bit 2 c OR m"

definition luaP_opmodes :: "nat list" where
  "luaP_opmodes =
     [opmode 0 1 OpArgR OpArgN iABC,
      opmode 0 1 OpArgK OpArgN iABx,
      opmode 0 1 OpArgN OpArgN iABx,
      opmode 0 1 OpArgU OpArgU iABC,
      opmode 0 1 OpArgU OpArgN iABC,
      opmode 0 1 OpArgU OpArgN iABC,
      opmode 0 1 OpArgU OpArgK iABC,
      opmode 0 1 OpArgR OpArgK iABC,
      opmode 0 0 OpArgK OpArgK iABC,
      opmode 0 0 OpArgU OpArgN iABC,
      opmode 0 0 OpArgK OpArgK iABC,
      opmode 0 1 OpArgU OpArgU iABC,
      opmode 0 1 OpArgR OpArgK iABC,
      opmode 0 1 OpArgK OpArgK iABC,
      opmode 0 1 OpArgK OpArgK iABC,
      opmode 0 1 OpArgK OpArgK iABC,
      opmode 0 1 OpArgK OpArgK iABC,
      opmode 0 1 OpArgK OpArgK iABC,
      opmode 0 1 OpArgK OpArgK iABC,
      opmode 0 1 OpArgK OpArgK iABC,
      opmode 0 1 OpArgK OpArgK iABC,
      opmode 0 1 OpArgK OpArgK iABC,
      opmode 0 1 OpArgK OpArgK iABC,
      opmode 0 1 OpArgK OpArgK iABC,
      opmode 0 1 OpArgK OpArgK iABC,
      opmode 0 1 OpArgR OpArgN iABC,
      opmode 0 1 OpArgR OpArgN iABC,
      opmode 0 1 OpArgR OpArgN iABC,
      opmode 0 1 OpArgR OpArgN iABC,
      opmode 0 1 OpArgR OpArgR iABC,
      opmode 0 0 OpArgR OpArgN iAsBx,
      opmode 1 0 OpArgK OpArgK iABC,
      opmode 1 0 OpArgK OpArgK iABC,
      opmode 1 0 OpArgK OpArgK iABC,
      opmode 1 0 OpArgN OpArgU iABC,
      opmode 1 1 OpArgR OpArgU iABC,
      opmode 0 1 OpArgU OpArgU iABC,
      opmode 0 1 OpArgU OpArgU iABC,
      opmode 0 0 OpArgU OpArgN iABC,
      opmode 0 1 OpArgR OpArgN iAsBx,
      opmode 0 1 OpArgR OpArgN iAsBx,
      opmode 0 0 OpArgN OpArgU iABC,
      opmode 0 1 OpArgR OpArgN iAsBx,
      opmode 0 0 OpArgU OpArgU iABC,
      opmode 0 1 OpArgU OpArgN iABx,
      opmode 0 1 OpArgU OpArgN iABC,
      opmode 0 0 OpArgU OpArgU iAx]"

definition getOpMode :: "OpCode \<Rightarrow> nat" where
  "getOpMode m = luaP_opmodes ! op_num m AND 3"
definition getBMode :: "OpCode \<Rightarrow> nat" where
  "getBMode m = drop_bit 4 (luaP_opmodes ! op_num m) AND 3"
definition getCMode :: "OpCode \<Rightarrow> nat" where
  "getCMode m = drop_bit 2 (luaP_opmodes ! op_num m) AND 3"
definition testAMode :: "OpCode \<Rightarrow> bool" where
  "testAMode m \<longleftrightarrow> luaP_opmodes ! op_num m AND push_bit 6 1 \<noteq> 0"
definition testTMode :: "OpCode \<Rightarrow> bool" where
  "testTMode m \<longleftrightarrow> luaP_opmodes ! op_num m AND push_bit 7 1 \<noteq> 0"

section \<open>Laws of the fields\<close>

lemma bit_MASK1 [bit_simps]: "bit (MASK1 n p) k \<longleftrightarrow> p \<le> k \<and> k < p + n \<and> k < 32"
  by (auto simp: MASK1_def bit_simps)

lemma bit_MASK0 [bit_simps]: "bit (MASK0 n p) k \<longleftrightarrow> \<not> (p \<le> k \<and> k < p + n) \<and> k < 32"
  by (auto simp: MASK0_def bit_simps)

lemma bit_getarg [bit_simps]: "bit (getarg i p s) k \<longleftrightarrow> k < s \<and> bit i (p + k)"
  by (auto simp: getarg_def bit_simps ac_simps dest: bit_imp_le_length)

lemma bit_setarg [bit_simps]:
  "bit (setarg i v p s) k \<longleftrightarrow> k < 32 \<and> (if p \<le> k \<and> k < p + s then bit v (k - p) else bit i k)"
  by (auto simp: setarg_def bit_simps)

lemma getarg_setarg: "p + s \<le> 32 \<Longrightarrow> getarg (setarg i v p s) p s = take_bit s v"
  by (rule bit_word_eqI) (auto simp: bit_simps)

lemma getarg_setarg_other:
  "p + s \<le> q \<or> q + t \<le> p \<Longrightarrow> getarg (setarg i v p s) q t = getarg i q t"
  by (rule bit_word_eqI) (auto simp: bit_simps dest: bit_imp_le_length)

lemma setarg_getarg: "setarg i (getarg i p s) p s = i"
  by (rule bit_word_eqI) (auto simp: bit_simps)

lemma setarg_setarg: "setarg (setarg i u p s) v p s = setarg i v p s"
  by (rule bit_word_eqI) (auto simp: bit_simps)

lemma small_bit: "unat (v :: u32) < 2 ^ s \<Longrightarrow> bit v k \<Longrightarrow> k < s"
proof (rule ccontr)
  assume v: "unat v < 2 ^ s" and b: "bit v k" and "\<not> k < s"
  then have "take_bit s v = v"
    by (metis take_bit_nat_eq_self unsigned_take_bit_eq word_unat_eq_iff)
  then show False using b \<open>\<not> k < s\<close> by (metis bit_take_bit_iff)
qed

lemma small_take: "unat (v :: u32) < 2 ^ s \<Longrightarrow> take_bit s v = v"
  by (rule bit_word_eqI) (auto simp: bit_simps dest: small_bit)

lemma all_opcodes_num: "all_opcodes ! op_num oc = oc"
  by (cases oc) (simp_all add: all_opcodes_def)

lemma op_num_less: "op_num oc < 47"
  by (cases oc) simp_all

lemma op_of_num [simp]: "op_of (op_num oc) = Some oc"
  using op_num_less [of oc] by (simp add: op_of_def NUM_OPCODES_def all_opcodes_num)

lemma op_word: "unat (of_nat (op_num oc) :: u32) = op_num oc"
  using op_num_less [of oc] by (simp add: unat_of_nat)

lemma op_word_small: "unat (of_nat (op_num oc) :: u32) < 2 ^ 6"
  using op_num_less [of oc] by (simp add: op_word)

lemma GET_OPCODE_getarg: "GET_OPCODE i = op_of (unat (getarg i POS_OP SIZE_OP))"
  by (simp add: GET_OPCODE_def getarg_def)

lemmas getarg_defs = GETARG_A_def GETARG_B_def GETARG_C_def GETARG_Bx_def GETARG_Ax_def
  GET_OPCODE_getarg
lemmas setarg_defs = SETARG_A_def SETARG_B_def SETARG_C_def SETARG_Bx_def SETARG_Ax_def
  SET_OPCODE_def

text \<open>Words assembled from parts that fit their fields.\<close>

lemma abc_fields:
  fixes w a b c :: u32
  assumes "unat w < 2 ^ 6" "unat a < 2 ^ 8" "unat b < 2 ^ 9" "unat c < 2 ^ 9"
  defines "i \<equiv> w OR push_bit 6 a OR push_bit 23 b OR push_bit 14 c"
  shows "getarg i 0 6 = w" "getarg i 6 8 = a" "getarg i 14 9 = c" "getarg i 23 9 = b"
  by (rule bit_word_eqI,
      auto simp: i_def bit_simps dest: small_bit [OF assms(1)] small_bit [OF assms(2)]
        small_bit [OF assms(3)] small_bit [OF assms(4)])+

lemma abx_fields:
  fixes w a b :: u32
  assumes "unat w < 2 ^ 6" "unat a < 2 ^ 8" "unat b < 2 ^ 18"
  defines "i \<equiv> w OR push_bit 6 a OR push_bit 14 b"
  shows "getarg i 0 6 = w" "getarg i 6 8 = a" "getarg i 14 18 = b"
  by (rule bit_word_eqI,
      auto simp: i_def bit_simps dest: small_bit [OF assms(1)] small_bit [OF assms(2)]
        small_bit [OF assms(3)])+

lemma ax_fields:
  fixes w a :: u32
  assumes "unat w < 2 ^ 6" "unat a < 2 ^ 26"
  defines "i \<equiv> w OR push_bit 6 a"
  shows "getarg i 0 6 = w" "getarg i 6 26 = a"
  by (rule bit_word_eqI,
      auto simp: i_def bit_simps dest: small_bit [OF assms(1)] small_bit [OF assms(2)])+

lemma GETARG_sBx_SETARG: "- 131071 \<le> b \<Longrightarrow> b \<le> 131072 \<Longrightarrow> GETARG_sBx (SETARG_sBx i b) = b"
proof -
  assume b: "- 131071 \<le> b" "b \<le> 131072"
  let ?v = "word_of_int (b + 131071) :: u32"
  have v: "uint ?v = b + 131071" using b by (subst uint_word_of_int) simp
  then have "unat ?v < 2 ^ 18" using b by (simp add: unat_eq_nat_uint)
  then have "take_bit 18 ?v = ?v" by (rule small_take)
  then show ?thesis
    using v by (simp add: GETARG_sBx_def SETARG_sBx_def GETARG_Bx_def SETARG_Bx_def field_defs
        getarg_setarg MAXARG_sBx_def MAXARG_Bx_def)
qed

text \<open>C39: An instruction keeps its parts: the opcode and the operands that \<open>CREATE_ABC\<close>,
  \<open>CREATE_ABx\<close> and \<open>CREATE_Ax\<close> pack are read back by the field macros whenever they are within
  their maxima. In any instruction, \<open>SET_OPCODE\<close> stores the opcode and keeps every operand;
  each of \<open>SETARG_A\<close>, \<open>SETARG_B\<close>, \<open>SETARG_C\<close>, \<open>SETARG_Bx\<close>, \<open>SETARG_Ax\<close> stores the low bits of
  its value, and keeps the opcode and all the operands that share no bit with the one written;
  \<open>SETARG_sBx\<close> does so with a signed operand, which it keeps over its whole excess-K range.\<close>

theorem instruction_roundtrip:
  assumes "unat a \<le> MAXARG_A" "unat b \<le> MAXARG_B" "unat c \<le> MAXARG_C" "unat bx \<le> MAXARG_Bx"
    and "unat ax \<le> MAXARG_Ax" "- int MAXARG_sBx \<le> sbx" "sbx \<le> int MAXARG_sBx + 1"
  shows "GET_OPCODE (CREATE_ABC oc a b c) = Some oc \<and> GETARG_A (CREATE_ABC oc a b c) = a \<and>
      GETARG_B (CREATE_ABC oc a b c) = b \<and> GETARG_C (CREATE_ABC oc a b c) = c \<and>
      GET_OPCODE (CREATE_ABx oc a bx) = Some oc \<and> GETARG_A (CREATE_ABx oc a bx) = a \<and>
      GETARG_Bx (CREATE_ABx oc a bx) = bx \<and>
      GET_OPCODE (CREATE_Ax oc ax) = Some oc \<and> GETARG_Ax (CREATE_Ax oc ax) = ax \<and>
      GET_OPCODE (SET_OPCODE i oc) = Some oc \<and> GETARG_Ax (SET_OPCODE i oc) = GETARG_Ax i \<and>
      GETARG_A (SET_OPCODE i oc) = GETARG_A i \<and> GETARG_Bx (SET_OPCODE i oc) = GETARG_Bx i \<and>
      GETARG_B (SET_OPCODE i oc) = GETARG_B i \<and> GETARG_C (SET_OPCODE i oc) = GETARG_C i \<and>
      GETARG_A (SETARG_A i v) = take_bit SIZE_A v \<and> GET_OPCODE (SETARG_A i v) = GET_OPCODE i \<and>
      GETARG_Bx (SETARG_A i v) = GETARG_Bx i \<and>
      GETARG_B (SETARG_A i v) = GETARG_B i \<and> GETARG_C (SETARG_A i v) = GETARG_C i \<and>
      GETARG_B (SETARG_B i v) = take_bit SIZE_B v \<and> GET_OPCODE (SETARG_B i v) = GET_OPCODE i \<and>
      GETARG_A (SETARG_B i v) = GETARG_A i \<and> GETARG_C (SETARG_B i v) = GETARG_C i \<and>
      GETARG_C (SETARG_C i v) = take_bit SIZE_C v \<and> GET_OPCODE (SETARG_C i v) = GET_OPCODE i \<and>
      GETARG_A (SETARG_C i v) = GETARG_A i \<and> GETARG_B (SETARG_C i v) = GETARG_B i \<and>
      GETARG_Bx (SETARG_Bx i v) = take_bit SIZE_Bx v \<and>
      GET_OPCODE (SETARG_Bx i v) = GET_OPCODE i \<and> GETARG_A (SETARG_Bx i v) = GETARG_A i \<and>
      GETARG_Ax (SETARG_Ax i v) = take_bit SIZE_Ax v \<and>
      GET_OPCODE (SETARG_Ax i v) = GET_OPCODE i \<and>
      GETARG_sBx (SETARG_sBx i sbx) = sbx \<and> GET_OPCODE (SETARG_sBx i sbx) = GET_OPCODE i \<and>
      GETARG_A (SETARG_sBx i sbx) = GETARG_A i"
proof -
  have r: "unat a < 2 ^ 8" "unat b < 2 ^ 9" "unat c < 2 ^ 9" "unat bx < 2 ^ 18" "unat ax < 2 ^ 26"
    using assms by (simp_all add: MAXARG_A_def MAXARG_B_def MAXARG_C_def MAXARG_Bx_def
        MAXARG_Ax_def field_defs)
  have sbx: "GETARG_sBx (SETARG_sBx i sbx) = sbx"
    using assms(6,7) by (intro GETARG_sBx_SETARG) (simp_all add: MAXARG_sBx_def MAXARG_Bx_def field_defs)
  show ?thesis
    by (intro conjI sbx; simp add: CREATE_ABC_def CREATE_ABx_def CREATE_Ax_def getarg_defs setarg_defs
        SETARG_sBx_def field_defs getarg_setarg getarg_setarg_other op_word
        small_take [OF op_word_small] abc_fields [OF op_word_small r(1,2,3)]
        abx_fields [OF op_word_small r(1,4)] ax_fields [OF op_word_small r(5)])
qed

theorem instruction_roundtrip_witness:
  "GETARG_B (CREATE_ABC OP_ADD 3 300 511) = 300 \<and> GETARG_sBx (SETARG_sBx 0 (- 7)) = - 7 \<and>
   GETARG_A (SETARG_B 4294967295 0) = GETARG_A 4294967295"
  using instruction_roundtrip [of 3 300 511 0 0 "- 7" OP_ADD 4294967295 0]
    instruction_roundtrip [of 3 300 511 0 0 "- 7" OP_ADD 0 0]
  by (simp add: MAXARG_A_def MAXARG_B_def MAXARG_C_def MAXARG_Bx_def MAXARG_Ax_def
      MAXARG_sBx_def field_defs)

text \<open>Operands: a constant index up to \<open>MAXINDEXRK\<close> is marked, recognised and recovered.\<close>

lemma rk_roundtrip:
  "unat x \<le> unat MAXINDEXRK \<Longrightarrow> ISK (RKASK x) \<and> INDEXK (RKASK x) = x \<and> \<not> ISK x"
proof -
  assume "unat x \<le> unat MAXINDEXRK"
  then have x: "unat x < 2 ^ 8" by (simp add: MAXINDEXRK_def BITRK_def field_defs)
  note s = small_bit [OF x]
  have e: "BITRK = 2 ^ 8" by (simp add: BITRK_def field_defs)
  have b8: "bit BITRK k \<longleftrightarrow> k = 8" for k
    unfolding e bit_exp_iff by auto
  have "bit (RKASK x AND BITRK) 8" by (simp add: RKASK_def bit_simps b8)
  then have "ISK (RKASK x)" by (auto simp: ISK_def)
  moreover have "INDEXK (RKASK x) = x"
    by (rule bit_word_eqI) (auto simp: INDEXK_def RKASK_def bit_simps b8 dest: s)
  moreover have "x AND BITRK = 0"
    by (rule bit_word_eqI) (auto simp: bit_simps b8 dest: s)
  ultimately show ?thesis by (simp add: ISK_def)
qed

text \<open>The tests, whose next instruction must be a jump, and the jumps among the opcodes.\<close>

lemma opmodes_num:
  "luaP_opmodes =
     [96, 113, 65, 84, 80, 80, 92, 108, 60, 16, 60, 84, 108, 124, 124, 124, 124, 124, 124,
      124, 124, 124, 124, 124, 124, 96, 96, 96, 96, 104, 34, 188, 188, 188, 132, 228, 84, 84,
      16, 98, 98, 4, 98, 20, 81, 80, 23]"
  by code_simp

lemma test_opcodes:
  "testTMode oc \<longleftrightarrow> oc \<in> {OP_EQ, OP_LT, OP_LE, OP_TEST, OP_TESTSET}"
  by (cases oc; simp add: testTMode_def opmodes_num)

lemma sbx_opcodes:
  "getOpMode oc = iAsBx \<longleftrightarrow> oc \<in> {OP_JMP, OP_FORLOOP, OP_FORPREP, OP_TFORLOOP}"
  by (cases oc; simp add: getOpMode_def iAsBx_def opmodes_num)

end
