(* ===== verification/LuaZio.thy ===== *)
theory LuaZio
  imports LuaBase
begin

text \<open>
  Buffered input streams (\<open>lzio.c\<close>, \<open>lzio.h\<close>). The reader is a C function of the embedding
  program; it is represented by the blocks it returns, in order, and \<open>NULL\<close> after them. A call
  for an empty block also means the end of the stream.

  \<open>zp\<close> are the bytes from the current position to the end of the block in memory; \<open>zn\<close> is the
  counter of the code, a \<open>size_t\<close> of its own, which \<open>zgetc\<close> decrements even when it is 0.
\<close>

text \<open>
  What ends a load early: a syntax error or a memory error thrown to the caller, or a point at which the behaviour
  of the C code is undefined.
\<close>

datatype load_stop = Throw_syntax bytes | Throw_memory | Undefined string

record zio =
  zn :: u64
  zp :: bytes
  zdata :: "bytes list"

definition EOZ :: int where
  "EOZ = - 1"

definition luaZ_init :: "bytes list \<Rightarrow> zio" where
  "luaZ_init reader = \<lparr>zn = 0, zp = [], zdata = reader\<rparr>"

definition luaZ_fill :: "zio \<Rightarrow> int \<times> zio" where
  "luaZ_fill z =
     (case zdata z of
        [] \<Rightarrow> (EOZ, z)
      | buff # later \<Rightarrow>
          (case buff of
             [] \<Rightarrow> (EOZ, z\<lparr>zdata := later\<rparr>)
           | c # cs \<Rightarrow>
               (uint c, z\<lparr>zn := of_nat (length buff) - 1, zp := cs, zdata := later\<rparr>)))"

definition zgetc :: "(zio, load_stop, int) prog" where
  "zgetc z =
     (let z' = z\<lparr>zn := zn z - 1\<rparr> in
      if zn z > 0 then
        (case zp z of
           [] \<Rightarrow> (Inl (Undefined ''read past the end of the block''), z')
         | c # cs \<Rightarrow> (Inr (uint c), z'\<lparr>zp := cs\<rparr>))
      else case luaZ_fill z' of (c, z'') \<Rightarrow> (Inr c, z''))"

text \<open>
  The first half of the loop body of \<open>luaZ_read\<close>: make sure that the buffer holds a byte. The
  byte that \<open>luaZ_fill\<close> consumed is put back.
\<close>

definition z_refill :: "zio \<Rightarrow> bool \<times> zio" where
  "z_refill z =
     (if zn z = 0 then
        case luaZ_fill z of (c, z') \<Rightarrow>
          if c = EOZ then (False, z')
          else (True, z'\<lparr>zn := zn z' + 1, zp := word_of_int c # zp z'\<rparr>)
      else (True, z))"

text \<open>The result is the number of missing bytes; the bytes copied so far come with it.\<close>

function luaZ_read :: "nat \<Rightarrow> bytes \<Rightarrow> (zio, load_stop, nat \<times> bytes) prog" where
  "luaZ_read n b z =
     (if n = 0 then (Inr (0, b), z)
      else case z_refill z of
        (False, z') \<Rightarrow> (Inr (n, b), z')
      | (True, z') \<Rightarrow>
          let m = (if n \<le> unat (zn z') then n else unat (zn z')) in
          if m = 0 \<or> length (zp z') < m then
            (Inl (Undefined ''read past the end of the block''), z')
          else
            luaZ_read (n - m) (b @ take m (zp z'))
              (z'\<lparr>zn := zn z' - of_nat m, zp := drop m (zp z')\<rparr>))"
  by pat_completeness auto
termination by (relation "measure (\<lambda>(n, b, z). n)") (auto simp: Let_def split: if_splits)

declare luaZ_read.simps [simp del]

section \<open>The stream as a list of bytes\<close>

text \<open>What can still be read, and the consistency of counter and buffer.\<close>

definition zrest :: "zio \<Rightarrow> bytes" where
  "zrest z = zp z @ concat (takeWhile (\<lambda>b. b \<noteq> []) (zdata z))"

definition zok :: "zio \<Rightarrow> bool" where
  "zok z \<longleftrightarrow> zn z = of_nat (length (zp z)) \<and> length (zp z) < 2 ^ 64 \<and>
     (\<forall>b \<in> set (zdata z). length b < 2 ^ 64)"

lemma zok_n: "zok z \<Longrightarrow> unat (zn z) = length (zp z)"
  by (simp add: zok_def unat_of_nat)

lemma zok_zero: "zok z \<Longrightarrow> zn z = 0 \<longleftrightarrow> zp z = []"
  using zok_n [of z] by (metis length_0_conv unat_eq_0)

lemma zok_init:
  "(\<And>b. b \<in> set bs \<Longrightarrow> length b < 2 ^ 64) \<Longrightarrow> zok (luaZ_init bs)"
  by (simp add: zok_def luaZ_init_def)

lemma zrest_init: "[] \<notin> set bs \<Longrightarrow> zrest (luaZ_init bs) = concat bs"
proof -
  assume "[] \<notin> set bs"
  then have "takeWhile (\<lambda>b. b \<noteq> []) bs = bs" by (auto simp: takeWhile_eq_all_conv)
  then show ?thesis unfolding zrest_def luaZ_init_def by (simp del: takeWhile_eq_all_conv)
qed

lemma zfill_spec:
  assumes "\<forall>b \<in> set (zdata z). length b < 2 ^ 64" "zp z = []"
  shows "(zrest z = [] \<and> fst (luaZ_fill z) = EOZ \<and> zn (snd (luaZ_fill z)) = zn z
            \<and> zp (snd (luaZ_fill z)) = zp z \<and> set (zdata (snd (luaZ_fill z))) \<subseteq> set (zdata z)) \<or>
         (\<exists>c cs. zrest z = c # cs \<and> fst (luaZ_fill z) = uint c \<and> zok (snd (luaZ_fill z)) \<and>
            zrest (snd (luaZ_fill z)) = cs \<and> length (zp (snd (luaZ_fill z))) + 1 < 2 ^ 64)"
  using assms
  by (auto simp: luaZ_fill_def zrest_def zok_def split: list.splits)

text \<open>\<open>zgetc\<close> takes the next byte of the stream, or finds its end.\<close>

lemma zgetc_Cons:
  assumes "zok z" "zrest z = c # cs"
  obtains z' where "zgetc z = (Inr (uint c), z')" "zok z'" "zrest z' = cs"
proof (cases "zp z")
  case Nil
  then have n: "zn z = 0" using assms(1) by (simp add: zok_zero)
  let ?z = "z\<lparr>zn := zn z - 1\<rparr>"
  have "\<forall>b \<in> set (zdata ?z). length b < 2 ^ 64" "zp ?z = []" "zrest ?z = c # cs"
    using assms Nil by (auto simp: zok_def zrest_def)
  with zfill_spec [of ?z] have "fst (luaZ_fill ?z) = uint c" "zok (snd (luaZ_fill ?z))"
    "zrest (snd (luaZ_fill ?z)) = cs" by auto
  then show thesis
    using n that [of "snd (luaZ_fill ?z)"] by (simp add: zgetc_def case_prod_beta)
next
  case (Cons a as)
  then have "zn z > 0" using assms(1) by (metis list.distinct(1) word_gt_0 zok_zero)
  with Cons that [of "z\<lparr>zn := zn z - 1, zp := as\<rparr>"] assms show thesis
    by (auto simp: zgetc_def zrest_def zok_def)
qed

lemma zgetc_Nil:
  assumes "zok z" "zrest z = []"
  obtains z' where "zgetc z = (Inr EOZ, z')" "zn z' = - 1" "zp z' = []"
proof -
  from assms(2) have p: "zp z = []" by (simp add: zrest_def)
  then have n: "zn z = 0" using assms(1) by (simp add: zok_zero)
  let ?z = "z\<lparr>zn := zn z - 1\<rparr>"
  have "\<forall>b \<in> set (zdata ?z). length b < 2 ^ 64" "zp ?z = []" "zrest ?z = []"
    using assms p by (auto simp: zok_def zrest_def)
  with zfill_spec [of ?z] have "fst (luaZ_fill ?z) = EOZ" "zn (snd (luaZ_fill ?z)) = - 1"
    "zp (snd (luaZ_fill ?z)) = []" using n by auto
  then show thesis
    using n that [of "snd (luaZ_fill ?z)"] by (simp add: zgetc_def case_prod_beta)
qed

text \<open>
  The counter wraps when \<open>zgetc\<close> meets the end: a second call would read memory past the
  last block. Every client has to stop at the first \<open>EOZ\<close>.
\<close>

lemma zgetc_after_end:
  assumes "zn z = - 1" "zp z = []"
  shows "fst (zgetc z) = Inl (Undefined ''read past the end of the block'')"
  using assms by (simp add: zgetc_def word_gt_0)

lemma refill_spec:
  assumes "zok z"
  shows "(zrest z = [] \<and> fst (z_refill z) = False) \<or>
         (fst (z_refill z) \<and> zok (snd (z_refill z)) \<and> zp (snd (z_refill z)) \<noteq> [] \<and>
          zrest (snd (z_refill z)) = zrest z)"
proof (cases "zn z = 0")
  case True
  then have p: "zp z = []" using assms by (simp add: zok_zero)
  have "\<forall>b \<in> set (zdata z). length b < 2 ^ 64" using assms by (simp add: zok_def)
  from zfill_spec [OF this p] show ?thesis
  proof (elim disjE exE conjE)
    fix c cs
    assume c: "zrest z = c # cs" "fst (luaZ_fill z) = uint c" "zok (snd (luaZ_fill z))"
      "zrest (snd (luaZ_fill z)) = cs" "length (zp (snd (luaZ_fill z))) + 1 < 2 ^ 64"
    have "uint c \<noteq> EOZ" using uint_ge_0 [of c] unfolding EOZ_def by linarith
    with c True show ?thesis
      by (simp add: z_refill_def case_prod_beta zok_def) (simp add: zrest_def)
  qed (use True in \<open>simp add: z_refill_def case_prod_beta\<close>)
next
  case False
  then show ?thesis using assms by (auto simp: z_refill_def zok_zero)
qed

lemma zread_acc:
  assumes "zok z"
  shows "\<exists>z'. luaZ_read n b z = (Inr (n - length (zrest z), b @ take n (zrest z)), z') \<and>
     (n \<le> length (zrest z) \<longrightarrow> zok z' \<and> zrest z' = drop n (zrest z))"
  using assms
proof (induction n b z rule: luaZ_read.induct)
  case (1 n b z)
  show ?case
  proof (cases "n = 0")
    case True
    then show ?thesis using 1(2) by (subst luaZ_read.simps) auto
  next
    case n: False
    obtain ok z1 where r: "z_refill z = (ok, z1)" by force
    show ?thesis
    proof (cases "zrest z = []")
      case True
      then have "\<not> ok" using refill_spec [OF 1(2)] r by (auto simp del: concat_eq_Nil_conv simp: zrest_def)
      with True n r show ?thesis by (subst luaZ_read.simps) simp
    next
      case False
      then have ok: "ok" "zok z1" "zp z1 \<noteq> []" "zrest z1 = zrest z"
        using refill_spec [OF 1(2)] r by auto
      define m where "m = (if n \<le> unat (zn z1) then n else unat (zn z1))"
      have m: "m = min n (length (zp z1))" using zok_n [OF ok(2)] by (simp add: m_def)
      then have m0: "m \<noteq> 0" "\<not> length (zp z1) < m" using n ok(3) by auto
      let ?z = "z1\<lparr>zn := zn z1 - of_nat m, zp := drop m (zp z1)\<rparr>"
      have "zok ?z"
        using ok(2) m by (auto simp: zok_def of_nat_diff)
      from 1(1) [OF n r [symmetric], of m, OF _ m_def _ this] ok(1) m0
      obtain z' where z': "luaZ_read (n - m) (b @ take m (zp z1)) ?z =
            (Inr (n - m - length (zrest ?z), (b @ take m (zp z1)) @ take (n - m) (zrest ?z)), z')"
          "n - m \<le> length (zrest ?z) \<longrightarrow> zok z' \<and> zrest z' = drop (n - m) (zrest ?z)"
        by auto
      have "zrest ?z = drop m (zrest z1)" "take m (zp z1) = take m (zrest z1)"
        "m \<le> length (zrest z1)" "m \<le> n"
        using m by (simp_all add: zrest_def)
      then have zr: "zrest ?z = drop m (zrest z)" and tk: "take m (zp z1) = take m (zrest z)"
        and mle: "m \<le> length (zrest z)" "m \<le> n"
        by (simp_all only: ok(4))
      have "luaZ_read n b z = luaZ_read (n - m) (b @ take m (zp z1)) ?z"
        using n r ok(1) m0 by (subst luaZ_read.simps) (simp add: m_def [symmetric])
      moreover have "take m (zrest z) @ take (n - m) (drop m (zrest z)) = take n (zrest z)"
        using mle(2) by (metis add_diff_inverse_nat not_less take_add)
      ultimately show ?thesis
        using z' mle unfolding zr tk by auto
    qed
  qed
qed

text \<open>However the reader cuts its input into blocks, \<open>luaZ_read\<close> delivers the next \<open>n\<close> bytes
  of the stream, or all that are left and the number of missing ones, and leaves the stream at
  the byte after them; it never touches memory outside the blocks.\<close>

theorem zread_refines:
  assumes "zok z"
  shows "fst (luaZ_read n [] z) = Inr (n - length (zrest z), take n (zrest z)) \<and>
     (n \<le> length (zrest z) \<longrightarrow>
        zok (snd (luaZ_read n [] z)) \<and> zrest (snd (luaZ_read n [] z)) = drop n (zrest z))"
  using zread_acc [OF assms, of n "[]"] by auto

theorem zread_refines_witness:
  "fst (luaZ_read 4 [] (luaZ_init [[1, 2], [3], [4, 5]])) = Inr (0, [1, 2, 3, 4])"
proof -
  have "zok (luaZ_init [[1, 2], [3], [4, 5]])" by (rule zok_init) auto
  from zread_refines [OF this, of 4] show ?thesis
    by (simp add: zrest_init zrest_def luaZ_init_def)
qed

end
