(* ===== verification/LuaDump.thy ===== *)
theory LuaDump
  imports LuaZio
begin

text \<open>
  Precompiled chunks: writing a function prototype (\<open>ldump.c\<close>) and loading it back
  (\<open>lundump.c\<close>), with the dispatch between binary and text chunks of \<open>ldo.c\<close>.

  A prototype refers to its strings through a type \<open>'s\<close>: pointers to \<open>TString\<close>s in a running
  state, plain byte strings in a prototype just loaded. \<open>str\<close> gives the bytes behind a
  pointer; only the dumper compares pointers (a source shared with the enclosing function).
  Integers are written in the byte order of the machine, taken to be little endian, with the
  sizes of a 64-bit platform.
\<close>

section \<open>Prototypes\<close>

datatype 's kconst = K_nil | K_bool byte | K_flt u64 | K_int u64 | K_shr 's | K_lng 's

datatype 's upvaldesc = Upvaldesc (up_name: "'s option") (instack: byte) (up_idx: byte)

datatype 's locvar = LocVar (varname: "'s option") (startpc: u32) (endpc: u32)

datatype 's proto =
  Proto (source: "'s option") (linedefined: u32) (lastlinedefined: u32) (numparams: byte)
    (is_vararg: byte) (maxstacksize: byte) (code: "u32 list") (kst: "'s kconst list")
    (upvalues: "'s upvaldesc list") (protos: "'s proto list") (lineinfo: "u32 list")
    (locvars: "'s locvar list")

section \<open>Machine representation\<close>

primrec le_bytes :: "nat \<Rightarrow> nat \<Rightarrow> bytes" where
  "le_bytes 0 n = []"
| "le_bytes (Suc k) n = of_nat (n mod 256) # le_bytes k (n div 256)"

primrec le_value :: "bytes \<Rightarrow> nat" where
  "le_value [] = 0"
| "le_value (b # bs) = unat b + 256 * le_value bs"

section \<open>Dumping\<close>

text \<open>
  The writer is a function of the embedding program: it takes a block and its own data, and
  returns a status.
\<close>

type_synonym 'd writer = "bytes \<Rightarrow> 'd \<Rightarrow> int \<times> 'd"

record 'd dump_state =
  d_data :: 'd
  d_strip :: bool
  d_status :: int

definition DumpBlock :: "bytes \<Rightarrow> 'd writer \<Rightarrow> 'd dump_state \<Rightarrow> 'd dump_state" where
  "DumpBlock b w D =
     (if d_status D = 0 \<and> b \<noteq> [] then
        case w b (d_data D) of (st, d) \<Rightarrow> D\<lparr>d_status := st, d_data := d\<rparr>
      else D)"

definition DumpByte :: "byte \<Rightarrow> 'd writer \<Rightarrow> 'd dump_state \<Rightarrow> 'd dump_state" where
  "DumpByte y = DumpBlock [y]"

definition DumpInt :: "u32 \<Rightarrow> 'd writer \<Rightarrow> 'd dump_state \<Rightarrow> 'd dump_state" where
  "DumpInt x = DumpBlock (le_bytes 4 (unat x))"

definition DumpNumber :: "u64 \<Rightarrow> 'd writer \<Rightarrow> 'd dump_state \<Rightarrow> 'd dump_state" where
  "DumpNumber x = DumpBlock (le_bytes 8 (unat x))"

definition DumpInteger :: "u64 \<Rightarrow> 'd writer \<Rightarrow> 'd dump_state \<Rightarrow> 'd dump_state" where
  "DumpInteger x = DumpBlock (le_bytes 8 (unat x))"

text \<open>\<open>size\<close> is a \<open>size_t\<close>: the length with the final NUL.\<close>

definition DumpString ::
  "('s \<Rightarrow> bytes) \<Rightarrow> 's option \<Rightarrow> 'd writer \<Rightarrow> 'd dump_state \<Rightarrow> 'd dump_state" where
  "DumpString str s w D =
     (case s of
        None \<Rightarrow> DumpByte 0 w D
      | Some p \<Rightarrow>
          let sz = (length (str p) + 1) mod 2 ^ 64;
              D1 = (if sz < 0xFF then DumpByte (of_nat sz) w D
                    else DumpBlock (le_bytes 8 sz) w (DumpByte 0xFF w D))
          in DumpBlock (str p) w D1)"

text \<open>The loops of the dumper: a dump function on each element of an array.\<close>

primrec dump_each ::
  "('a \<Rightarrow> 'd writer \<Rightarrow> 'd dump_state \<Rightarrow> 'd dump_state) \<Rightarrow> 'a list \<Rightarrow>
   'd writer \<Rightarrow> 'd dump_state \<Rightarrow> 'd dump_state" where
  "dump_each f [] w D = D"
| "dump_each f (x # xs) w D = dump_each f xs w (f x w D)"

definition size_int :: "'a list \<Rightarrow> u32" where
  "size_int xs = of_nat (length xs)"

definition DumpCode :: "'s proto \<Rightarrow> 'd writer \<Rightarrow> 'd dump_state \<Rightarrow> 'd dump_state" where
  "DumpCode f w D =
     DumpBlock (concat (map (\<lambda>i. le_bytes 4 (unat i)) (code f))) w (DumpInt (size_int (code f)) w D)"

fun DumpConstant ::
  "('s \<Rightarrow> bytes) \<Rightarrow> 's kconst \<Rightarrow> 'd writer \<Rightarrow> 'd dump_state \<Rightarrow> 'd dump_state" where
  "DumpConstant str K_nil w D = DumpByte 0 w D"
| "DumpConstant str (K_bool b) w D = DumpByte b w (DumpByte 1 w D)"
| "DumpConstant str (K_flt n) w D = DumpNumber n w (DumpByte 3 w D)"
| "DumpConstant str (K_int i) w D = DumpInteger i w (DumpByte 19 w D)"
| "DumpConstant str (K_shr s) w D = DumpString str (Some s) w (DumpByte 4 w D)"
| "DumpConstant str (K_lng s) w D = DumpString str (Some s) w (DumpByte 20 w D)"

definition DumpConstants ::
  "('s \<Rightarrow> bytes) \<Rightarrow> 's proto \<Rightarrow> 'd writer \<Rightarrow> 'd dump_state \<Rightarrow> 'd dump_state" where
  "DumpConstants str f w D =
     dump_each (DumpConstant str) (kst f) w (DumpInt (size_int (kst f)) w D)"

definition DumpUpvalues :: "'s proto \<Rightarrow> 'd writer \<Rightarrow> 'd dump_state \<Rightarrow> 'd dump_state" where
  "DumpUpvalues f w D =
     dump_each (\<lambda>u w D. DumpByte (up_idx u) w (DumpByte (instack u) w D)) (upvalues f) w
       (DumpInt (size_int (upvalues f)) w D)"

definition DumpLocvar ::
  "('s \<Rightarrow> bytes) \<Rightarrow> 's locvar \<Rightarrow> 'd writer \<Rightarrow> 'd dump_state \<Rightarrow> 'd dump_state" where
  "DumpLocvar str v w D =
     DumpInt (endpc v) w (DumpInt (startpc v) w (DumpString str (varname v) w D))"

definition DumpDebug ::
  "('s \<Rightarrow> bytes) \<Rightarrow> 's proto \<Rightarrow> 'd writer \<Rightarrow> 'd dump_state \<Rightarrow> 'd dump_state" where
  "DumpDebug str f w D =
     (let lines = (if d_strip D then [] else lineinfo f);
          vars = (if d_strip D then [] else locvars f);
          ups = (if d_strip D then [] else upvalues f);
          D1 = DumpInt (size_int lines) w D;
          D2 = DumpBlock (concat (map (\<lambda>l. le_bytes 4 (unat l)) lines)) w D1;
          D3 = DumpInt (size_int vars) w D2;
          D4 = dump_each (DumpLocvar str) vars w D3;
          D5 = DumpInt (size_int ups) w D4
      in dump_each (\<lambda>u. DumpString str (up_name u)) ups w D5)"

text \<open>\<open>DumpProtos\<close> is the loop over the nested functions.\<close>

fun DumpFunction ::
  "('s \<Rightarrow> bytes) \<Rightarrow> 's proto \<Rightarrow> 's option \<Rightarrow> 'd writer \<Rightarrow> 'd dump_state \<Rightarrow> 'd dump_state"
and DumpProtos ::
  "('s \<Rightarrow> bytes) \<Rightarrow> 's proto list \<Rightarrow> 's option \<Rightarrow> 'd writer \<Rightarrow> 'd dump_state \<Rightarrow> 'd dump_state" where
  "DumpFunction str (Proto src ld lld np va mss cd ks ups ps li lv) psource w D =
     (let f = Proto src ld lld np va mss cd ks ups ps li lv;
          D1 = (if d_strip D \<or> src = psource then DumpString str None w D
                else DumpString str src w D);
          D2 = DumpInt ld w D1;
          D3 = DumpInt lld w D2;
          D4 = DumpByte np w D3;
          D5 = DumpByte va w D4;
          D6 = DumpByte mss w D5;
          D7 = DumpCode f w D6;
          D8 = DumpConstants str f w D7;
          D9 = DumpUpvalues f w D8;
          D10 = DumpProtos str ps src w (DumpInt (size_int ps) w D9)
      in DumpDebug str f w D10)"
| "DumpProtos str [] src w D = D"
| "DumpProtos str (p # ps) src w D = DumpProtos str ps src w (DumpFunction str p src w D)"

definition LUA_SIGNATURE :: bytes where
  "LUA_SIGNATURE = 0x1b # bytes_of ''Lua''"

definition LUAC_DATA :: bytes where
  "LUAC_DATA = [0x19, 0x93, 0x0d, 0x0a, 0x1a, 0x0a]"

definition LUAC_VERSION :: byte where "LUAC_VERSION = 0x53"
definition LUAC_FORMAT :: byte where "LUAC_FORMAT = 0"
definition LUAC_INT :: u64 where "LUAC_INT = 0x5678"

text \<open>The double 370.5.\<close>

definition LUAC_NUM :: u64 where "LUAC_NUM = 0x4077280000000000"

definition DumpHeader :: "'d writer \<Rightarrow> 'd dump_state \<Rightarrow> 'd dump_state" where
  "DumpHeader w D =
     (let D1 = DumpBlock LUA_SIGNATURE w D;
          D2 = DumpByte LUAC_VERSION w D1;
          D3 = DumpByte LUAC_FORMAT w D2;
          D4 = DumpBlock LUAC_DATA w D3;
          D5 = DumpByte 4 w D4;
          D6 = DumpByte 8 w D5;
          D7 = DumpByte 4 w D6;
          D8 = DumpByte 8 w D7;
          D9 = DumpByte 8 w D8;
          D10 = DumpInteger LUAC_INT w D9
      in DumpNumber LUAC_NUM w D10)"

definition luaU_dump ::
  "('s \<Rightarrow> bytes) \<Rightarrow> 's proto \<Rightarrow> 'd writer \<Rightarrow> 'd \<Rightarrow> bool \<Rightarrow> int \<times> 'd" where
  "luaU_dump str f w d strip =
     (let D = \<lparr>d_data = d, d_strip = strip, d_status = 0\<rparr>;
          D1 = DumpHeader w D;
          D2 = DumpByte (of_nat (length (upvalues f))) w D1;
          D3 = DumpFunction str f None w D2
      in (d_status D3, d_data D3))"

end
