(* ===== verification/LuaUndump.thy ===== *)
theory LuaUndump
  imports LuaDump
begin

text \<open>
  Loading precompiled chunks (\<open>lundump.c\<close>) from a buffered stream, and \<open>f_parser\<close> of \<open>ldo.c\<close>,
  which tells binary chunks from source text. The parser of source text is a parameter.

  \<open>depth\<close> is the number of nested \<open>LoadFunction\<close> calls the C stack has room for. The code itself
  sets no limit; the compiler never nests functions deeper than 200 levels (\<open>LUAI_MAXCCALLS\<close>).
  Allocation is taken to succeed, also for a size in a hostile chunk that exceeds the memory. The
  result is the number of upvalues of the closure and its prototype; \<open>luaF_initupvals\<close>, which gives
  the closure that many upvalues with the value nil after the load, is not modelled.
\<close>

definition load_error :: "bytes \<Rightarrow> bytes \<Rightarrow> (zio, load_stop, 'a) prog" where
  "load_error name why =
     stop (Throw_syntax (name @ bytes_of '': '' @ why @ bytes_of '' precompiled chunk''))"

definition LoadBlock :: "bytes \<Rightarrow> nat \<Rightarrow> (zio, load_stop, bytes) prog" where
  "LoadBlock name sz =
     andThen (luaZ_read sz [])
       (\<lambda>(missing, b). if missing \<noteq> 0 then load_error name (bytes_of ''truncated'') else ret b)"

definition LoadByte :: "bytes \<Rightarrow> (zio, load_stop, byte) prog" where
  "LoadByte name = andThen (LoadBlock name 1) (\<lambda>b. ret (hd b))"

definition LoadInt :: "bytes \<Rightarrow> (zio, load_stop, u32) prog" where
  "LoadInt name = andThen (LoadBlock name 4) (\<lambda>b. ret (of_nat (le_value b)))"

definition LoadNumber :: "bytes \<Rightarrow> (zio, load_stop, u64) prog" where
  "LoadNumber name = andThen (LoadBlock name 8) (\<lambda>b. ret (of_nat (le_value b)))"

definition LoadInteger :: "bytes \<Rightarrow> (zio, load_stop, u64) prog" where
  "LoadInteger name = andThen (LoadBlock name 8) (\<lambda>b. ret (of_nat (le_value b)))"

definition LUAI_MAXSHORTLEN :: nat where "LUAI_MAXSHORTLEN = 40"

text \<open>
  A long string is read into an object of \<open>sizelstring\<close> bytes, a \<open>size_t\<close> sum that can wrap: the
  bytes then do not fit.
\<close>

definition sizelstring :: "nat \<Rightarrow> nat" where
  "sizelstring l = (24 + (l + 1)) mod 2 ^ 64"

definition load_size :: "bytes \<Rightarrow> (zio, load_stop, nat) prog" where
  "load_size name =
     andThen (LoadByte name) (\<lambda>b.
       if b = 0xFF then andThen (LoadBlock name 8) (\<lambda>v. ret (le_value v)) else ret (unat b))"

definition LoadString :: "bytes \<Rightarrow> (zio, load_stop, bytes option) prog" where
  "LoadString name =
     andThen (load_size name) (\<lambda>sz.
       if sz = 0 then ret None
       else if sz - 1 \<le> LUAI_MAXSHORTLEN then
         andThen (LoadBlock name (sz - 1)) (\<lambda>s. ret (Some s))
       else if sizelstring (sz - 1) < sz - 1 then stop (Undefined ''string object too small'')
       else andThen (LoadBlock name (sz - 1)) (\<lambda>s. ret (Some s)))"

text \<open>
  A count: \<open>luaM_newvector\<close> with a negative number of elements asks for almost \<open>2 ^ 64\<close> bytes.
\<close>

definition LoadCount :: "bytes \<Rightarrow> (zio, load_stop, nat) prog" where
  "LoadCount name =
     andThen (LoadInt name) (\<lambda>n. if n <s 0 then stop Throw_memory else ret (unat n))"

primrec load_list :: "nat \<Rightarrow> (zio, load_stop, 'a) prog \<Rightarrow> (zio, load_stop, 'a list) prog" where
  "load_list 0 m = ret []"
| "load_list (Suc n) m = andThen m (\<lambda>x. andThen (load_list n m) (\<lambda>xs. ret (x # xs)))"

fun words4 :: "bytes \<Rightarrow> u32 list" where
  "words4 (a # b # c # d # r) = of_nat (le_value [a, b, c, d]) # words4 r"
| "words4 _ = []"

definition LoadCode :: "bytes \<Rightarrow> (zio, load_stop, u32 list) prog" where
  "LoadCode name =
     andThen (LoadCount name) (\<lambda>n. andThen (LoadBlock name (n * 4)) (\<lambda>b. ret (words4 b)))"

text \<open>
  \<open>setsvalue2n\<close> takes the type tag from the string object, so a short string gives a short one
  whatever the tag in the chunk; without a string it dereferences \<open>NULL\<close>. A tag that is not known
  leaves the constant nil.
\<close>

definition LoadConstant :: "bytes \<Rightarrow> (zio, load_stop, bytes kconst) prog" where
  "LoadConstant name =
     andThen (LoadByte name) (\<lambda>t.
       if t = 0 then ret K_nil
       else if t = 1 then andThen (LoadByte name) (\<lambda>b. ret (K_bool b))
       else if t = 3 then andThen (LoadNumber name) (\<lambda>n. ret (K_flt n))
       else if t = 19 then andThen (LoadInteger name) (\<lambda>i. ret (K_int i))
       else if t = 4 \<or> t = 20 then
         andThen (LoadString name) (\<lambda>s.
           case s of
             None \<Rightarrow> stop (Undefined ''null string'')
           | Some b \<Rightarrow> ret (if length b \<le> LUAI_MAXSHORTLEN then K_shr b else K_lng b))
       else ret K_nil)"

definition LoadConstants :: "bytes \<Rightarrow> (zio, load_stop, bytes kconst list) prog" where
  "LoadConstants name = andThen (LoadCount name) (\<lambda>n. load_list n (LoadConstant name))"

definition LoadUpvalues :: "bytes \<Rightarrow> (zio, load_stop, bytes upvaldesc list) prog" where
  "LoadUpvalues name =
     andThen (LoadCount name) (\<lambda>n.
       load_list n
         (andThen (LoadByte name) (\<lambda>ins. andThen (LoadByte name) (\<lambda>i. ret (Upvaldesc None ins i)))))"

definition LoadLocvar :: "bytes \<Rightarrow> (zio, load_stop, bytes locvar) prog" where
  "LoadLocvar name =
     andThen (LoadString name) (\<lambda>v.
     andThen (LoadInt name) (\<lambda>s.
     andThen (LoadInt name) (\<lambda>e. ret (LocVar v s e))))"

text \<open>The names are stored in the array of \<open>LoadUpvalues\<close>, whose size nobody compares with \<open>n\<close>.\<close>

fun load_names ::
  "bytes \<Rightarrow> nat \<Rightarrow> bytes upvaldesc list \<Rightarrow> (zio, load_stop, bytes upvaldesc list) prog" where
  "load_names name 0 us = ret us"
| "load_names name (Suc n) [] =
     andThen (LoadString name) (\<lambda>_. stop (Undefined ''write past the upvalue array''))"
| "load_names name (Suc n) (u # us) =
     andThen (LoadString name) (\<lambda>s.
     andThen (load_names name n us) (\<lambda>vs. ret (Upvaldesc s (instack u) (up_idx u) # vs)))"

text \<open>An \<open>int\<close> count that is negative makes a loop over it empty.\<close>

definition LoadDebug ::
  "bytes \<Rightarrow> bytes upvaldesc list \<Rightarrow>
   (zio, load_stop, u32 list \<times> bytes locvar list \<times> bytes upvaldesc list) prog" where
  "LoadDebug name us =
     andThen (LoadCode name) (\<lambda>lines.
     andThen (LoadCount name) (\<lambda>n.
     andThen (load_list n (LoadLocvar name)) (\<lambda>vars.
     andThen (LoadInt name) (\<lambda>m.
     andThen (load_names name (if m <s 0 then 0 else unat m) us) (\<lambda>us'.
       ret (lines, vars, us'))))))"

primrec LoadFunction ::
  "nat \<Rightarrow> bytes \<Rightarrow> bytes option \<Rightarrow> (zio, load_stop, bytes proto) prog" where
  "LoadFunction 0 name psource = stop (Undefined ''C stack overflow'')"
| "LoadFunction (Suc depth) name psource =
     andThen (LoadString name) (\<lambda>src0.
     let src = (case src0 of None \<Rightarrow> psource | Some s \<Rightarrow> Some s) in
     andThen (LoadInt name) (\<lambda>ld.
     andThen (LoadInt name) (\<lambda>lld.
     andThen (LoadByte name) (\<lambda>np.
     andThen (LoadByte name) (\<lambda>va.
     andThen (LoadByte name) (\<lambda>mss.
     andThen (LoadCode name) (\<lambda>cd.
     andThen (LoadConstants name) (\<lambda>ks.
     andThen (LoadUpvalues name) (\<lambda>us.
     andThen (andThen (LoadCount name) (\<lambda>n. load_list n (LoadFunction depth name src))) (\<lambda>ps.
     andThen (LoadDebug name us) (\<lambda>(li, lv, us').
       ret (Proto src ld lld np va mss cd ks us' ps li lv))))))))))))"

definition checkliteral :: "bytes \<Rightarrow> bytes \<Rightarrow> bytes \<Rightarrow> (zio, load_stop, unit) prog" where
  "checkliteral name s msg =
     andThen (LoadBlock name (length s)) (\<lambda>b. if b \<noteq> s then load_error name msg else ret ())"

definition fchecksize :: "bytes \<Rightarrow> byte \<Rightarrow> string \<Rightarrow> (zio, load_stop, unit) prog" where
  "fchecksize name sz tname =
     andThen (LoadByte name) (\<lambda>b.
       if b \<noteq> sz then load_error name (bytes_of (tname @ '' size mismatch in'')) else ret ())"

definition checkHeader :: "bytes \<Rightarrow> (zio, load_stop, unit) prog" where
  "checkHeader name =
     thenDo (checkliteral name (tl LUA_SIGNATURE) (bytes_of ''not a''))
     (andThen (LoadByte name) (\<lambda>v.
      thenDo (if v \<noteq> LUAC_VERSION then load_error name (bytes_of ''version mismatch in'') else ret ())
     (andThen (LoadByte name) (\<lambda>fm.
      thenDo (if fm \<noteq> LUAC_FORMAT then load_error name (bytes_of ''format mismatch in'') else ret ())
     (thenDo (checkliteral name LUAC_DATA (bytes_of ''corrupted''))
     (thenDo (fchecksize name 4 ''int'')
     (thenDo (fchecksize name 8 ''size_t'')
     (thenDo (fchecksize name 4 ''Instruction'')
     (thenDo (fchecksize name 8 ''lua_Integer'')
     (thenDo (fchecksize name 8 ''lua_Number'')
     (andThen (LoadInteger name) (\<lambda>i.
      thenDo (if i \<noteq> LUAC_INT then load_error name (bytes_of ''endianness mismatch in'') else ret ())
     (andThen (LoadNumber name) (\<lambda>x.
      if x \<noteq> LUAC_NUM then load_error name (bytes_of ''float format mismatch in'')
      else ret ()))))))))))))))"

text \<open>The closure is its number of upvalues, a byte of the chunk, and its prototype.\<close>

definition chunk_name :: "bytes \<Rightarrow> bytes" where
  "chunk_name name =
     (if byte_at name 0 = of_char (CHR ''@'') \<or> byte_at name 0 = of_char (CHR ''='') then tl name
      else if byte_at name 0 = hd LUA_SIGNATURE then bytes_of ''binary string''
      else name)"

definition luaU_undump :: "nat \<Rightarrow> bytes \<Rightarrow> (zio, load_stop, byte \<times> bytes proto) prog" where
  "luaU_undump depth name =
     (let S = chunk_name name in
      thenDo (checkHeader S)
     (andThen (LoadByte S) (\<lambda>n.
      andThen (LoadFunction depth S None) (\<lambda>p. ret (n, p)))))"

text \<open>\<open>mode\<close> is \<open>NULL\<close> or a C string of the letters allowed.\<close>

definition checkmode :: "bytes option \<Rightarrow> string \<Rightarrow> (zio, load_stop, unit) prog" where
  "checkmode mode x =
     (case mode of
        None \<Rightarrow> ret ()
      | Some m \<Rightarrow>
          if of_char (hd x) \<notin> set m then
            stop (Throw_syntax (bytes_of (''attempt to load a '' @ x @ '' chunk (mode is '') @
              [0x27] @ m @ [0x27] @ bytes_of '')''))
          else ret ())"

definition f_parser ::
  "(int \<Rightarrow> (zio, load_stop, byte \<times> bytes proto) prog) \<Rightarrow> nat \<Rightarrow> bytes option \<Rightarrow> bytes \<Rightarrow>
   (zio, load_stop, byte \<times> bytes proto) prog" where
  "f_parser luaY_parser depth mode name =
     andThen zgetc (\<lambda>c.
       if c = uint (hd LUA_SIGNATURE) then
         thenDo (checkmode mode ''binary'') (luaU_undump depth name)
       else thenDo (checkmode mode ''text'') (luaY_parser c))"

end
