(* ===== verification/LuaDumpProps.thy ===== *)
theory LuaDumpProps
  imports LuaUndump "HOL-Library.Sublist"
begin

text \<open>
  Dumping a prototype and loading it back. The dumper is described by the bytes it hands to the
  writer (\<open>writes\<close>), the loader by the bytes it turns into a value (\<open>reads\<close>); both notions
  compose, so that each dump function meets its load function in one lemma.
\<close>

section \<open>What the dumper writes\<close>

text \<open>Handing blocks to the writer, as far as its status allows.\<close>

primrec hand :: "bytes list \<Rightarrow> 'd writer \<Rightarrow> 'd dump_state \<Rightarrow> 'd dump_state" where
  "hand [] w D = D"
| "hand (b # bs) w D = hand bs w (DumpBlock b w D)"

lemma hand_append: "hand (bs @ cs) w D = hand cs w (hand bs w D)"
  by (induction bs arbitrary: D) simp_all

lemma DumpBlock_strip [simp]: "d_strip (DumpBlock b w D) = d_strip D"
  by (simp add: DumpBlock_def split: prod.splits)

lemma hand_strip [simp]: "d_strip (hand bs w D) = d_strip D"
  by (induction bs arbitrary: D) simp_all

lemma hand_stopped: "d_status D \<noteq> 0 \<Longrightarrow> hand bs w D = D"
  by (induction bs arbitrary: D) (simp_all add: DumpBlock_def)

text \<open>A writer that appends what it gets.\<close>

definition appending :: "bytes writer" where
  "appending b d = (0, d @ b)"

lemma hand_appending:
  "d_status D = 0 \<Longrightarrow> hand bs appending D = D\<lparr>d_data := d_data D @ concat bs\<rparr>"
  by (induction bs arbitrary: D) (auto simp: DumpBlock_def appending_def)

definition writes ::
  "bool \<Rightarrow> ('d writer \<Rightarrow> 'd dump_state \<Rightarrow> 'd dump_state) \<Rightarrow> bytes \<Rightarrow> bool" where
  "writes st m bs \<longleftrightarrow>
     (\<exists>bl. concat bl = bs \<and> (\<forall>w D. d_strip D = st \<longrightarrow> m w D = hand bl w D))"

named_theorems writes_rules

lemma writes_nil [writes_rules]: "writes st (\<lambda>w D. D) []"
  unfolding writes_def by (rule exI [of _ "[]"]) simp

lemma writes_block [writes_rules]: "writes st (DumpBlock b) b"
  unfolding writes_def by (rule exI [of _ "[b]"]) simp

lemma writes_seq:
  assumes "writes st m bs" "writes st n cs"
  shows "writes st (\<lambda>w D. n w (m w D)) (bs @ cs)"
proof -
  from assms obtain bl cl where "concat bl = bs" "concat cl = cs"
    "\<And>w D. d_strip D = st \<Longrightarrow> m w D = hand bl w D"
    "\<And>w D. d_strip D = st \<Longrightarrow> n w D = hand cl w D"
    unfolding writes_def by blast
  then show ?thesis
    unfolding writes_def by (intro exI [of _ "bl @ cl"]) (simp add: hand_append)
qed

lemma writes_cong:
  assumes "writes st m bs" and "\<And>w D. d_strip D = st \<Longrightarrow> n w D = m w D" and "cs = bs"
  shows "writes st n cs"
  using assms unfolding writes_def by simp

lemma writes_byte [writes_rules]: "writes st (DumpByte y) [y]"
  unfolding DumpByte_def by (rule writes_block)

lemma writes_int [writes_rules]: "writes st (DumpInt x) (le_bytes 4 (unat x))"
  unfolding DumpInt_def by (rule writes_block)

lemma writes_number [writes_rules]: "writes st (DumpNumber x) (le_bytes 8 (unat x))"
  unfolding DumpNumber_def by (rule writes_block)

lemma writes_integer [writes_rules]: "writes st (DumpInteger x) (le_bytes 8 (unat x))"
  unfolding DumpInteger_def by (rule writes_block)

text \<open>The text of a chunk, part by part.\<close>

definition enc_size :: "nat \<Rightarrow> bytes" where
  "enc_size n = (if n < 0xFF then [of_nat n] else 0xFF # le_bytes 8 n)"

definition enc_string :: "bytes option \<Rightarrow> bytes" where
  "enc_string s = (case s of None \<Rightarrow> [0] | Some b \<Rightarrow> enc_size (length b + 1) @ b)"

definition enc_int :: "u32 \<Rightarrow> bytes" where
  "enc_int x = le_bytes 4 (unat x)"

definition enc_long :: "u64 \<Rightarrow> bytes" where
  "enc_long x = le_bytes 8 (unat x)"

definition enc_list :: "('a \<Rightarrow> bytes) \<Rightarrow> 'a list \<Rightarrow> bytes" where
  "enc_list f xs = enc_int (size_int xs) @ concat (map f xs)"

lemma enc_list_cong [fundef_cong]:
  "xs = ys \<Longrightarrow> (\<And>x. x \<in> set ys \<Longrightarrow> f x = g x) \<Longrightarrow> enc_list f xs = enc_list g ys"
  by (auto simp: enc_list_def intro!: arg_cong [of _ _ concat])

fun enc_const :: "bytes kconst \<Rightarrow> bytes" where
  "enc_const K_nil = [0]"
| "enc_const (K_bool b) = [1, b]"
| "enc_const (K_flt n) = 3 # enc_long n"
| "enc_const (K_int i) = 19 # enc_long i"
| "enc_const (K_shr s) = 4 # enc_string (Some s)"
| "enc_const (K_lng s) = 20 # enc_string (Some s)"

definition enc_locvar :: "bytes locvar \<Rightarrow> bytes" where
  "enc_locvar v = enc_string (varname v) @ enc_int (startpc v) @ enc_int (endpc v)"

definition enc_upvalue :: "'s upvaldesc \<Rightarrow> bytes" where
  "enc_upvalue u = [instack u, up_idx u]"

lemma writes_string [writes_rules]:
  assumes "\<And>p. s = Some p \<Longrightarrow> length (str p) + 1 < 2 ^ 64"
  shows "writes st (DumpString str s) (enc_string (map_option str s))"
proof (cases s)
  case None
  then show ?thesis
    by (auto simp: enc_string_def DumpString_def intro!: writes_cong [OF writes_byte])
next
  case (Some p)
  define n where "n = length (str p) + 1"
  have n: "n mod 2 ^ 64 = n" using assms [OF Some] by (simp add: n_def)
  show ?thesis
  proof (cases "n < 0xFF")
    case True
    then have "writes st (\<lambda>w D. DumpBlock (str p) w (DumpByte (of_nat n) w D)) ([of_nat n] @ str p)"
      by (intro writes_seq writes_rules)
    then show ?thesis
      by (rule writes_cong)
        (use Some n True in \<open>simp_all add: DumpString_def n_def enc_string_def enc_size_def\<close>)
  next
    case False
    then have "writes st (\<lambda>w D. DumpBlock (str p) w (DumpBlock (le_bytes 8 n) w (DumpByte 0xFF w D)))
        (([0xFF] @ le_bytes 8 n) @ str p)"
      by (intro writes_seq writes_rules)
    then show ?thesis
      by (rule writes_cong)
        (use Some n False in \<open>simp_all add: DumpString_def n_def enc_string_def enc_size_def\<close>)
  qed
qed

lemma writes_each:
  assumes "\<And>x. x \<in> set xs \<Longrightarrow> writes st (f x) (g x)"
  shows "writes st (dump_each f xs) (concat (map g xs))"
  using assms
proof (induction xs)
  case Nil
  show ?case by (rule writes_cong [OF writes_nil]) simp_all
next
  case (Cons x xs)
  then have "writes st (\<lambda>w D. dump_each f xs w (f x w D)) (g x @ concat (map g xs))"
    by (intro writes_seq) auto
  then show ?case by (rule writes_cong) simp_all
qed

text \<open>The strings of a prototype are within the address space, its arrays within \<open>int\<close>.\<close>

definition str_ok :: "('s \<Rightarrow> bytes) \<Rightarrow> 's option \<Rightarrow> bool" where
  "str_ok str s \<longleftrightarrow> (\<forall>p. s = Some p \<longrightarrow> length (str p) + 26 < 2 ^ 64)"

definition len_ok :: "'a list \<Rightarrow> bool" where
  "len_ok xs \<longleftrightarrow> length xs < 2 ^ 31"

fun const_ok :: "('s \<Rightarrow> bytes) \<Rightarrow> 's kconst \<Rightarrow> bool" where
  "const_ok str (K_shr s) \<longleftrightarrow> length (str s) \<le> LUAI_MAXSHORTLEN"
| "const_ok str (K_lng s) \<longleftrightarrow> LUAI_MAXSHORTLEN < length (str s) \<and> length (str s) + 26 < 2 ^ 64"
| "const_ok str _ \<longleftrightarrow> True"

text \<open>A nested function without a source of its own is only found below one without.\<close>

fun proto_ok :: "('s \<Rightarrow> bytes) \<Rightarrow> 's proto \<Rightarrow> bool" where
  "proto_ok str (Proto src ld lld np va mss cd ks us ps li lv) \<longleftrightarrow>
     str_ok str src \<and> len_ok cd \<and> len_ok ks \<and> len_ok us \<and> len_ok ps \<and> len_ok li \<and> len_ok lv \<and>
     list_all (const_ok str) ks \<and> list_all (\<lambda>u. str_ok str (up_name u)) us \<and>
     list_all (\<lambda>v. str_ok str (varname v)) lv \<and>
     list_all (\<lambda>p. proto_ok str p \<and> (src \<noteq> None \<longrightarrow> source p \<noteq> None)) ps"

fun proto_depth :: "'s proto \<Rightarrow> nat" where
  "proto_depth (Proto src ld lld np va mss cd ks us ps li lv) =
     Suc (fold (\<lambda>p n. max (proto_depth p) n) ps 0)"

definition enc_debug :: "bytes upvaldesc list \<Rightarrow> u32 list \<Rightarrow> bytes locvar list \<Rightarrow> bytes" where
  "enc_debug us li lv =
     enc_list enc_int li @ enc_list enc_locvar lv @ enc_list (\<lambda>u. enc_string (up_name u)) us"

lemma writes_const [writes_rules]:
  "const_ok str k \<Longrightarrow> writes st (DumpConstant str k) (enc_const (map_kconst str k))"
proof (cases k)
  case K_nil
  then show ?thesis by (auto intro!: writes_cong [OF writes_byte])
next
  case (K_bool b)
  have "writes st (\<lambda>w D. DumpByte b w (DumpByte 1 w D)) ([1] @ [b])"
    by (intro writes_seq writes_rules)
  then show ?thesis by (rule writes_cong) (simp_all add: K_bool)
next
  case (K_flt n)
  have "writes st (\<lambda>w D. DumpNumber n w (DumpByte 3 w D)) ([3] @ le_bytes 8 (unat n))"
    by (intro writes_seq writes_rules)
  then show ?thesis by (rule writes_cong) (simp_all add: K_flt enc_long_def)
next
  case (K_int n)
  have "writes st (\<lambda>w D. DumpInteger n w (DumpByte 19 w D)) ([19] @ le_bytes 8 (unat n))"
    by (intro writes_seq writes_rules)
  then show ?thesis by (rule writes_cong) (simp_all add: K_int enc_long_def)
next
  case (K_shr s)
  assume "const_ok str k"
  then have "writes st (\<lambda>w D. DumpString str (Some s) w (DumpByte 4 w D))
      ([4] @ enc_string (map_option str (Some s)))"
    by (intro writes_seq writes_rules) (simp add: K_shr LUAI_MAXSHORTLEN_def)
  then show ?thesis by (rule writes_cong) (simp_all add: K_shr)
next
  case (K_lng s)
  assume "const_ok str k"
  then have "writes st (\<lambda>w D. DumpString str (Some s) w (DumpByte 20 w D))
      ([20] @ enc_string (map_option str (Some s)))"
    by (intro writes_seq writes_rules) (simp add: K_lng)
  then show ?thesis by (rule writes_cong) (simp_all add: K_lng)
qed

lemma writes_code [writes_rules]: "writes st (DumpCode f) (enc_list enc_int (code f))"
proof -
  note writes_seq [OF writes_int [of st "size_int (code f)"]
      writes_block [of st "concat (map (\<lambda>i. le_bytes 4 (unat i)) (code f))"]]
  then show ?thesis
    by (rule writes_cong) (simp_all add: DumpCode_def enc_list_def enc_int_def [abs_def])
qed

lemma writes_list:
  assumes "\<And>x. x \<in> set xs \<Longrightarrow> writes st (f x) (g x)"
  shows "writes st (\<lambda>w D. dump_each f xs w (DumpInt (size_int xs) w D)) (enc_list g xs)"
  unfolding enc_list_def
  by (intro writes_seq writes_each assms) (auto simp: enc_int_def intro!: writes_int)

lemma writes_consts [writes_rules]:
  assumes "list_all (const_ok str) (kst f)"
  shows "writes st (DumpConstants str f) (enc_list (\<lambda>k. enc_const (map_kconst str k)) (kst f))"
proof -
  have "writes st (\<lambda>w D. dump_each (DumpConstant str) (kst f) w (DumpInt (size_int (kst f)) w D))
      (enc_list (\<lambda>k. enc_const (map_kconst str k)) (kst f))"
    using assms by (intro writes_list writes_const) (auto simp: list_all_iff)
  then show ?thesis by (rule writes_cong) (simp_all add: DumpConstants_def)
qed

lemma writes_upvalues [writes_rules]:
  "writes st (DumpUpvalues f) (enc_list enc_upvalue (upvalues f))"
proof -
  have "writes st (\<lambda>w D. DumpByte (up_idx u) w (DumpByte (instack u) w D)) (enc_upvalue u)" for u :: "'s upvaldesc"
  proof -
    have "writes st (\<lambda>w D. DumpByte (up_idx u) w (DumpByte (instack u) w D)) ([instack u] @ [up_idx u])"
      by (intro writes_seq writes_rules)
    then show ?thesis by (rule writes_cong) (simp_all add: enc_upvalue_def)
  qed
  from writes_list [of "upvalues f", OF this] show ?thesis
    by (rule writes_cong) (simp_all add: DumpUpvalues_def)
qed

lemma writes_locvar:
  assumes "str_ok str (varname v)"
  shows "writes st (DumpLocvar str v) (enc_locvar (map_locvar str v))"
proof -
  have "writes st (DumpString str (varname v)) (enc_string (map_option str (varname v)))"
    using assms by (intro writes_string) (auto simp: str_ok_def)
  from writes_seq [OF writes_seq [OF this writes_int [of st "startpc v"]] writes_int [of st "endpc v"]]
  show ?thesis
    by (rule writes_cong)
      (simp_all add: DumpLocvar_def enc_locvar_def enc_int_def locvar.map_sel)
qed

definition enc_lines :: "bool \<Rightarrow> 's proto \<Rightarrow> bytes" where
  "enc_lines st f = enc_list enc_int (if st then [] else lineinfo f)"

definition enc_vars :: "bool \<Rightarrow> ('s \<Rightarrow> bytes) \<Rightarrow> 's proto \<Rightarrow> bytes" where
  "enc_vars st str f = enc_list (\<lambda>v. enc_locvar (map_locvar str v)) (if st then [] else locvars f)"

definition enc_names :: "bool \<Rightarrow> ('s \<Rightarrow> bytes) \<Rightarrow> 's proto \<Rightarrow> bytes" where
  "enc_names st str f =
     enc_list (\<lambda>u. enc_string (map_option str (up_name u))) (if st then [] else upvalues f)"

lemma writes_debug:
  assumes "list_all (\<lambda>v. str_ok str (varname v)) (locvars f)"
    and "list_all (\<lambda>u. str_ok str (up_name u)) (upvalues f)"
  shows "writes st (DumpDebug str f) (enc_lines st f @ enc_vars st str f @ enc_names st str f)"
proof -
  let ?li = "if st then [] else lineinfo f" and ?lv = "if st then [] else locvars f"
  let ?us = "if st then [] else upvalues f"
  have v: "writes st (\<lambda>w D. dump_each (DumpLocvar str) ?lv w (DumpInt (size_int ?lv) w D))
      (enc_vars st str f)"
    unfolding enc_vars_def
    using assms(1) by (intro writes_list writes_locvar) (auto simp: list_all_iff split: if_splits)
  have u: "writes st (\<lambda>w D. dump_each (\<lambda>u. DumpString str (up_name u)) ?us w (DumpInt (size_int ?us) w D))
      (enc_names st str f)"
    unfolding enc_names_def using assms(2)
    by (intro writes_list writes_string) (auto simp: list_all_iff str_ok_def split: if_splits)
  note writes_seq [OF writes_seq [OF writes_seq [OF writes_int [of st "size_int ?li"]
      writes_block [of st "concat (map (\<lambda>i. le_bytes 4 (unat i)) ?li)"]] v] u]
  then show ?thesis
    by (rule writes_cong)
      (simp_all add: DumpDebug_def enc_lines_def enc_list_def enc_int_def [abs_def] Let_def)
qed

fun enc_function :: "bool \<Rightarrow> ('s \<Rightarrow> bytes) \<Rightarrow> 's option \<Rightarrow> 's proto \<Rightarrow> bytes" where
  "enc_function st str psrc (Proto src ld lld np va mss cd ks us ps li lv) =
     enc_string (if st \<or> src = psrc then None else map_option str src) @
     enc_int ld @ enc_int lld @ [np] @ [va] @ [mss] @ enc_list enc_int cd @
     enc_list (\<lambda>k. enc_const (map_kconst str k)) ks @ enc_list enc_upvalue us @
     enc_list (enc_function st str src) ps @
     (let f = Proto src ld lld np va mss cd ks us ps li lv
      in enc_lines st f @ enc_vars st str f @ enc_names st str f)"

lemma DumpProtos_each: "DumpProtos str ps src w D = dump_each (\<lambda>p. DumpFunction str p src) ps w D"
  by (induction ps arbitrary: D) simp_all

lemma writes_function:
  "proto_ok str f \<Longrightarrow> writes st
     (DumpFunction str f psrc :: 'd writer \<Rightarrow> 'd dump_state \<Rightarrow> 'd dump_state)
     (enc_function st str psrc f)"
proof (induction f arbitrary: psrc)
  case (Proto src ld lld np va mss cd ks us ps li lv)
  let ?f = "Proto src ld lld np va mss cd ks us ps li lv"
  let ?src = "if st \<or> src = psrc then None else src"
  have src: "writes st (DumpString str ?src :: 'd writer \<Rightarrow> 'd dump_state \<Rightarrow> 'd dump_state) (enc_string (map_option str ?src))"
    using Proto.prems by (intro writes_string) (auto simp: str_ok_def split: if_splits)
  have nested: "writes st (\<lambda>(w :: 'd writer) D. dump_each (\<lambda>p. DumpFunction str p src) ps w
      (DumpInt (size_int ps) w D)) (enc_list (enc_function st str src) ps)"
    using Proto.prems by (intro writes_list) (auto simp: list_all_iff intro: Proto.IH)
  have ks: "writes st (DumpConstants str ?f :: 'd writer \<Rightarrow> _ \<Rightarrow> _) (enc_list (\<lambda>k. enc_const (map_kconst str k)) ks)"
    using writes_consts [of str ?f] Proto.prems by simp
  have dbg: "writes st (DumpDebug str ?f :: 'd writer \<Rightarrow> _ \<Rightarrow> _)
      (enc_lines st ?f @ enc_vars st str ?f @ enc_names st str ?f)"
    using Proto.prems by (intro writes_debug) auto
  note src
  note writes_seq [OF this writes_int [of st ld]]
  note writes_seq [OF this writes_int [of st lld]]
  note writes_seq [OF this writes_byte [of st np]]
  note writes_seq [OF this writes_byte [of st va]]
  note writes_seq [OF this writes_byte [of st mss]]
  note writes_seq [OF this writes_code [of st ?f]]
  note writes_seq [OF this ks]
  note writes_seq [OF this writes_upvalues [of st ?f]]
  note writes_seq [OF this nested]
  note writes_seq [OF this dbg]
  then show ?case
    by (rule writes_cong) (auto simp: DumpProtos_each Let_def enc_int_def)
qed

definition enc_header :: bytes where
  "enc_header =
     LUA_SIGNATURE @ [LUAC_VERSION] @ [LUAC_FORMAT] @ LUAC_DATA @ [4] @ [8] @ [4] @ [8] @ [8] @
     enc_long LUAC_INT @ enc_long LUAC_NUM"

definition enc_chunk :: "bool \<Rightarrow> ('s \<Rightarrow> bytes) \<Rightarrow> 's proto \<Rightarrow> bytes" where
  "enc_chunk st str f =
     enc_header @ [of_nat (length (upvalues f))] @ enc_function st str None f"

lemma writes_header: "writes st DumpHeader enc_header"
proof -
  note writes_block [of st LUA_SIGNATURE]
  note writes_seq [OF this writes_byte [of st LUAC_VERSION]]
  note writes_seq [OF this writes_byte [of st LUAC_FORMAT]]
  note writes_seq [OF this writes_block [of st LUAC_DATA]]
  note writes_seq [OF this writes_byte [of st 4]]
  note writes_seq [OF this writes_byte [of st 8]]
  note writes_seq [OF this writes_byte [of st 4]]
  note writes_seq [OF this writes_byte [of st 8]]
  note writes_seq [OF this writes_byte [of st 8]]
  note writes_seq [OF this writes_integer [of st LUAC_INT]]
  note writes_seq [OF this writes_number [of st LUAC_NUM]]
  then show ?thesis
    by (rule writes_cong) (simp_all add: DumpHeader_def enc_header_def enc_long_def Let_def)
qed

text \<open>Feeding blocks to a writer until it refuses one.\<close>

primrec feed :: "'d writer \<Rightarrow> bytes list \<Rightarrow> 'd \<Rightarrow> int \<times> 'd" where
  "feed w [] d = (0, d)"
| "feed w (b # bs) d = (case w b d of (st, d') \<Rightarrow> if st \<noteq> 0 then (st, d') else feed w bs d')"

lemma hand_feed:
  "(let D = hand bl w \<lparr>d_data = d, d_strip = st, d_status = 0\<rparr> in (d_status D, d_data D)) =
   feed w (filter (\<lambda>b. b \<noteq> []) bl) d"
proof (induction bl arbitrary: d)
  case (Cons b bl)
  show ?case
  proof (cases "b = []")
    case True
    with Cons show ?thesis by (simp add: DumpBlock_def)
  next
    case False
    obtain s d' where w: "w b d = (s, d')" by force
    show ?thesis
    proof (cases "s = 0")
      case True
      with False w Cons [of d'] show ?thesis by (simp add: DumpBlock_def)
    next
      case s: False
      with False w show ?thesis by (simp add: DumpBlock_def hand_stopped Let_def)
    qed
  qed
qed simp

lemma concat_nonempty: "concat (filter (\<lambda>b. b \<noteq> []) bl) = concat bl"
  by (induction bl) auto

lemma dump_blocks:
  assumes "proto_ok str f"
  shows "\<exists>bl. [] \<notin> set bl \<and> concat bl = enc_chunk st str f \<and>
    (\<forall>w (d :: 'd). luaU_dump str f w d st = feed w bl d)"
proof -
  have "writes st (\<lambda>(w :: 'd writer) D. DumpFunction str f None w
        (DumpByte (of_nat (length (upvalues f))) w (DumpHeader w D)))
      ((enc_header @ [of_nat (length (upvalues f))]) @ enc_function st str None f)"
    by (rule writes_seq [OF writes_seq [OF writes_header writes_byte] writes_function [OF assms]])
  then obtain bl where bl: "concat bl = enc_chunk st str f"
    "\<And>(w :: 'd writer) D. d_strip D = st \<Longrightarrow> DumpFunction str f None w
        (DumpByte (of_nat (length (upvalues f))) w (DumpHeader w D)) = hand bl w D"
    by (auto simp: writes_def enc_chunk_def)
  then have "luaU_dump str f w d st = feed w (filter (\<lambda>b. b \<noteq> []) bl) d" for w and d :: 'd
    using hand_feed [of bl w d st] by (simp add: luaU_dump_def Let_def)
  with bl(1) show ?thesis
    by (intro exI [of _ "filter (\<lambda>b. b \<noteq> []) bl"]) (simp add: concat_nonempty)
qed

lemma feed_appending: "feed appending bl d = (0, d @ concat bl)"
  by (induction bl arbitrary: d) (simp_all add: appending_def)

lemma dump_appending:
  "proto_ok str f \<Longrightarrow> luaU_dump str f appending [] st = (0, enc_chunk st str f)"
  using dump_blocks [of str f st, where 'd = bytes] by (auto simp: feed_appending)

section \<open>What the loader reads\<close>

text \<open>
  \<open>reads name m bs a\<close>: from a stream that starts with \<open>bs\<close>, \<open>m\<close> takes exactly \<open>bs\<close> and returns
  \<open>a\<close>; from a stream that ends inside \<open>bs\<close> it reports a truncated chunk.
\<close>

definition truncated :: "bytes \<Rightarrow> load_stop" where
  "truncated name = Throw_syntax (name @ bytes_of '': truncated precompiled chunk'')"

definition reads :: "bytes \<Rightarrow> (zio, load_stop, 'a) prog \<Rightarrow> bytes \<Rightarrow> 'a \<Rightarrow> bool" where
  "reads name m bs a \<longleftrightarrow>
     (\<forall>z r. zok z \<longrightarrow> zrest z = bs @ r \<longrightarrow> (\<exists>z'. m z = (Inr a, z') \<and> zok z' \<and> zrest z' = r)) \<and>
     (\<forall>z. zok z \<longrightarrow> strict_prefix (zrest z) bs \<longrightarrow> fst (m z) = Inl (truncated name))"

named_theorems reads_rules

lemma reads_ret: "reads name (ret a) [] a"
  by (auto simp: reads_def ret_def)

lemma strict_prefix_append_cases:
  assumes "strict_prefix xs (bs @ cs)"
  shows "strict_prefix xs bs \<or> (\<exists>r. xs = bs @ r \<and> strict_prefix r cs)"
proof (cases "length xs < length bs")
  case True
  with assms show ?thesis
    by (metis nat_less_le prefix_append prefix_length_le strict_prefix_def strict_prefixE
        prefixI append_prefixD prefix_same_cases prefix_order.le_less)
next
  case False
  obtain ys where ys: "bs @ cs = xs @ ys" "ys \<noteq> []"
    using assms by (metis append_Nil2 prefix_def strict_prefix_def)
  then have "xs = bs @ drop (length bs) xs"
    using False by (metis append_eq_append_conv_if not_less append_take_drop_id)
  with ys show ?thesis
    by (metis append_assoc prefix_def same_append_eq strict_prefixI' append_self_conv strict_prefix_def)
qed

lemma reads_bind:
  assumes "reads name m bs a" "reads name (f a) cs b"
  shows "reads name (andThen m f) (bs @ cs) b"
proof -
  have "\<exists>z'. andThen m f z = (Inr b, z') \<and> zok z' \<and> zrest z' = r"
    if z: "zok z" "zrest z = (bs @ cs) @ r" for z r
  proof -
    from assms(1) z obtain z1 where "m z = (Inr a, z1)" "zok z1" "zrest z1 = cs @ r"
      unfolding reads_def by (metis append_assoc)
    with assms(2) show ?thesis by (auto simp: reads_def andThen_def)
  qed
  moreover have "fst (andThen m f z) = Inl (truncated name)"
    if z: "zok z" "strict_prefix (zrest z) (bs @ cs)" for z
    using strict_prefix_append_cases [OF z(2)]
  proof
    assume "strict_prefix (zrest z) bs"
    with assms(1) z(1) have "fst (m z) = Inl (truncated name)" by (simp add: reads_def)
    then show ?thesis by (simp add: andThen_def case_prod_beta)
  next
    assume "\<exists>r. zrest z = bs @ r \<and> strict_prefix r cs"
    then obtain r where r: "zrest z = bs @ r" "strict_prefix r cs" by blast
    with assms(1) z(1) obtain z1 where "m z = (Inr a, z1)" "zok z1" "zrest z1 = r"
      unfolding reads_def by blast
    with assms(2) r(2) show ?thesis by (simp add: reads_def andThen_def)
  qed
  ultimately show ?thesis unfolding reads_def by blast
qed

lemma reads_bind': "reads name m bs a \<Longrightarrow> reads name (f a) cs b \<Longrightarrow> ds = bs @ cs \<Longrightarrow>
    reads name (andThen m f) ds b"
  using reads_bind by fast

lemma reads_thenDo:
  "reads name m bs () \<Longrightarrow> reads name n cs b \<Longrightarrow> reads name (thenDo m n) (bs @ cs) b"
  unfolding thenDo_def by (rule reads_bind)

lemma reads_map:
  assumes "reads name m bs a" "f a = b"
  shows "reads name (andThen m (\<lambda>x. ret (f x))) bs b"
  using reads_bind [OF assms(1), where f = "\<lambda>x. ret (f x)" and cs = "[]" and b = b]
    reads_ret [of name b] assms(2) by simp

lemma reads_block: "reads name (LoadBlock name (length bs)) bs bs"
proof -
  have "\<exists>z'. LoadBlock name (length bs) z = (Inr bs, z') \<and> zok z' \<and> zrest z' = r"
    if z: "zok z" "zrest z = bs @ r" for z r
    using zread_acc [OF z(1), of "length bs" "[]"] z(2) by (auto simp: LoadBlock_def andThen_def ret_def)
  moreover have "fst (LoadBlock name (length bs) z) = Inl (truncated name)"
    if z: "zok z" "strict_prefix (zrest z) bs" for z
  proof -
    have "length (zrest z) < length bs" using z(2) by (rule prefix_length_less)
    moreover obtain z' where "luaZ_read (length bs) [] z =
        (Inr (length bs - length (zrest z), take (length bs) (zrest z)), z')"
      using zread_acc [OF z(1), of "length bs" "[]"] by auto
    ultimately show ?thesis
      by (simp add: LoadBlock_def andThen_def load_error_def truncated_def stop_def bytes_of_def)
  qed
  ultimately show ?thesis unfolding reads_def by blast
qed

lemma length_le_bytes [simp]: "length (le_bytes k n) = k"
  by (induction k arbitrary: n) simp_all

lemma le_value_le_bytes: "n < 256 ^ k \<Longrightarrow> le_value (le_bytes k n) = n"
proof (induction k arbitrary: n)
  case (Suc k)
  then have "n div 256 < 256 ^ k" by (simp add: less_mult_imp_div_less mult.commute)
  with Suc show ?case by (simp add: unat_of_nat)
qed simp

lemma le_value_word32: "of_nat (le_value (le_bytes 4 (unat x))) = (x :: u32)"
  using unsigned_less [of x, where 'a = nat] by (simp add: le_value_le_bytes)

lemma le_value_word64: "of_nat (le_value (le_bytes 8 (unat x))) = (x :: u64)"
  using unsigned_less [of x, where 'a = nat] by (simp add: le_value_le_bytes)

lemma reads_block_n: "length bs = n \<Longrightarrow> reads name (LoadBlock name n) bs bs"
  using reads_block by blast

lemma reads_byte: "reads name (LoadByte name) [b] b"
  unfolding LoadByte_def by (rule reads_map [OF reads_block_n]) simp_all

lemma reads_int: "reads name (LoadInt name) (enc_int x) x"
  unfolding LoadInt_def enc_int_def
  by (rule reads_map [OF reads_block_n]) (simp_all add: le_value_word32)

lemma reads_number: "reads name (LoadNumber name) (enc_long x) x"
  unfolding LoadNumber_def enc_long_def
  by (rule reads_map [OF reads_block_n]) (simp_all add: le_value_word64)

lemma reads_integer: "reads name (LoadInteger name) (enc_long x) x"
  unfolding LoadInteger_def enc_long_def
  by (rule reads_map [OF reads_block_n]) (simp_all add: le_value_word64)

lemma reads_count: "n < 2 ^ 31 \<Longrightarrow> reads name (LoadCount name) (enc_int (of_nat n)) n"
proof -
  assume n: "n < 2 ^ 31"
  then have u: "unat (of_nat n :: u32) = n" by (simp add: unat_of_nat)
  have "\<not> (of_nat n :: u32) <s 0"
    using n by (simp add: word_sless_alt signed_of_nat signed_take_bit_int_eq_self)
  then show ?thesis
    unfolding LoadCount_def using u
    by (intro reads_bind' [OF reads_int, where cs = "[]"]) (simp_all add: reads_ret)
qed

lemma reads_size:
  assumes "n < 2 ^ 64"
  shows "reads name (load_size name) (enc_size n) n"
proof (cases "n < 0xFF")
  case True
  then have u: "unat (of_nat n :: byte) = n" by (simp add: unat_of_nat)
  then have "(of_nat n :: byte) \<noteq> 0xFF" using True by auto
  then have "reads name (if of_nat n = (0xFF :: byte) then andThen (LoadBlock name 8) (\<lambda>v. ret (le_value v))
      else ret (unat (of_nat n :: byte))) [] n"
    using u reads_ret [of name n] by simp
  then show ?thesis
    unfolding load_size_def
    by (rule reads_bind' [OF reads_byte]) (use True in \<open>simp add: enc_size_def\<close>)
next
  case False
  have "reads name (andThen (LoadBlock name 8) (\<lambda>v. ret (le_value v))) (le_bytes 8 n) n"
    using assms by (intro reads_map [OF reads_block_n]) (simp_all add: le_value_le_bytes)
  then have "reads name (if (0xFF :: byte) = 0xFF then andThen (LoadBlock name 8) (\<lambda>v. ret (le_value v))
      else ret (unat (0xFF :: byte))) (le_bytes 8 n) n"
    by simp
  then show ?thesis
    unfolding load_size_def
    by (rule reads_bind' [OF reads_byte]) (use False in \<open>simp add: enc_size_def\<close>)
qed

lemma reads_string:
  assumes "str_ok (\<lambda>b. b) s"
  shows "reads name (LoadString name) (enc_string s) s"
proof (cases s)
  case None
  have "reads name (load_size name) (enc_size 0) 0" by (rule reads_size) simp
  then show ?thesis
    unfolding LoadString_def enc_string_def None
    by (rule reads_bind') (simp_all add: enc_size_def reads_ret)
next
  case (Some b)
  define n where "n = length b + 1"
  have n: "n < 2 ^ 64 - 25" "n \<noteq> 0" using assms Some by (simp_all add: str_ok_def n_def)
  have "reads name (andThen (LoadBlock name (n - 1)) (\<lambda>s. ret (Some s))) b (Some b)"
    by (rule reads_map [OF reads_block_n]) (simp_all add: n_def)
  moreover have "\<not> sizelstring (n - 1) < n - 1"
    using n by (simp add: sizelstring_def)
  ultimately have body: "reads name (if n = 0 then ret None
       else if n - 1 \<le> LUAI_MAXSHORTLEN then andThen (LoadBlock name (n - 1)) (\<lambda>s. ret (Some s))
       else if sizelstring (n - 1) < n - 1 then stop (Undefined ''string object too small'')
       else andThen (LoadBlock name (n - 1)) (\<lambda>s. ret (Some s))) b (Some b)"
    using n(2) by simp
  from n have sz: "reads name (load_size name) (enc_size n) n" by (intro reads_size) simp
  from body show ?thesis
    unfolding LoadString_def Some
    by (rule reads_bind' [OF sz]) (simp add: enc_string_def n_def)
qed

lemma reads_load_list:
  "(\<And>x. x \<in> set xs \<Longrightarrow> reads name m (g x) (h x)) \<Longrightarrow>
   reads name (load_list (length xs) m) (concat (map g xs)) (map h xs)"
proof (induction xs)
  case Nil
  show ?case by (simp add: reads_ret)
next
  case (Cons x xs)
  then have "reads name (load_list (length xs) m) (concat (map g xs)) (map h xs)" by simp
  then have "reads name (andThen (load_list (length xs) m) (\<lambda>xs. ret (h x # xs)))
      (concat (map g xs)) (h x # map h xs)"
    by (rule reads_map) simp
  with Cons.prems show ?case
    by (auto intro: reads_bind)
qed

lemma reads_enc_list:
  assumes "len_ok xs" and "\<And>x. x \<in> set xs \<Longrightarrow> reads name m (g x) (h x)"
  shows "reads name (andThen (LoadCount name) (\<lambda>n. load_list n m)) (enc_list g xs) (map h xs)"
  unfolding enc_list_def size_int_def
  using assms by (intro reads_bind [OF reads_count] reads_load_list) (auto simp: len_ok_def)

lemma words4_enc: "words4 (concat (map enc_int xs)) = xs"
proof (induction xs)
  case (Cons x xs)
  have "length (enc_int x) = 4" by (simp add: enc_int_def)
  then obtain a b c d where e: "enc_int x = [a, b, c, d]"
    by (auto simp: numeral_eq_Suc length_Suc_conv)
  then have "of_nat (le_value [a, b, c, d]) = x"
    using le_value_word32 [of x] by (simp add: enc_int_def)
  with Cons e show ?case by simp
qed simp

lemma length_enc_ints: "length (concat (map enc_int xs)) = length xs * 4"
  by (induction xs) (simp_all add: enc_int_def)

lemma reads_code: "len_ok xs \<Longrightarrow> reads name (LoadCode name) (enc_list enc_int xs) xs"
  unfolding LoadCode_def enc_list_def size_int_def
  by (intro reads_bind [OF reads_count] reads_map [OF reads_block_n])
    (simp_all add: len_ok_def words4_enc length_enc_ints)

lemma const_ok_map: "const_ok str k = const_ok (\<lambda>b. b) (map_kconst str k)"
  by (cases k) simp_all

lemma str_ok_map: "str_ok str s = str_ok (\<lambda>b. b) (map_option str s)"
  by (auto simp: str_ok_def)

lemma reads_string_const:
  assumes "str_ok (\<lambda>b. b) (Some s)" "f s = k"
  shows "reads name (andThen (LoadString name) (\<lambda>s. case s of None \<Rightarrow> stop (Undefined ''null string'')
    | Some b \<Rightarrow> ret (f b))) (enc_string (Some s)) k"
  by (rule reads_bind' [OF reads_string [OF assms(1)], where cs = "[]"])
    (simp_all add: assms(2) [symmetric] reads_ret)

lemma reads_tag:
  "reads name (f t) bs a \<Longrightarrow> reads name (andThen (LoadByte name) f) (t # bs) a"
  by (rule reads_bind' [OF reads_byte]) simp_all

lemma reads_const:
  assumes "const_ok (\<lambda>b. b) k"
  shows "reads name (LoadConstant name) (enc_const k) k"
proof (cases k)
  case K_nil
  then show ?thesis unfolding LoadConstant_def by (auto intro!: reads_tag reads_ret)
next
  case (K_bool b)
  then show ?thesis unfolding LoadConstant_def by (auto intro!: reads_tag reads_ret)
next
  case (K_flt n)
  have "reads name (andThen (LoadNumber name) (\<lambda>n. ret (K_flt n))) (enc_long n) (K_flt n)"
    by (rule reads_map [OF reads_number]) simp
  then show ?thesis unfolding LoadConstant_def K_flt by (auto intro!: reads_tag)
next
  case (K_int n)
  have "reads name (andThen (LoadInteger name) (\<lambda>n. ret (K_int n))) (enc_long n) (K_int n)"
    by (rule reads_map [OF reads_integer]) simp
  then show ?thesis unfolding LoadConstant_def K_int by (auto intro!: reads_tag)
next
  case (K_shr s)
  with assms have "length s \<le> LUAI_MAXSHORTLEN" "str_ok (\<lambda>b. b) (Some s)"
    by (simp_all add: str_ok_def LUAI_MAXSHORTLEN_def)
  then have "reads name (andThen (LoadString name) (\<lambda>s. case s of None \<Rightarrow> stop (Undefined ''null string'')
    | Some b \<Rightarrow> ret (if length b \<le> LUAI_MAXSHORTLEN then K_shr b else K_lng b))) (enc_string (Some s))
    (K_shr s)"
    by (intro reads_string_const) simp_all
  then show ?thesis unfolding LoadConstant_def K_shr by (auto intro!: reads_tag)
next
  case (K_lng s)
  with assms have "\<not> length s \<le> LUAI_MAXSHORTLEN" "str_ok (\<lambda>b. b) (Some s)"
    by (simp_all add: str_ok_def)
  then have "reads name (andThen (LoadString name) (\<lambda>s. case s of None \<Rightarrow> stop (Undefined ''null string'')
    | Some b \<Rightarrow> ret (if length b \<le> LUAI_MAXSHORTLEN then K_shr b else K_lng b))) (enc_string (Some s))
    (K_lng s)"
    by (intro reads_string_const) simp_all
  then show ?thesis unfolding LoadConstant_def K_lng by (auto intro!: reads_tag)
qed

lemma reads_consts:
  "len_ok ks \<Longrightarrow> list_all (const_ok str) ks \<Longrightarrow>
   reads name (LoadConstants name) (enc_list (\<lambda>k. enc_const (map_kconst str k)) ks)
     (map (map_kconst str) ks)"
  unfolding LoadConstants_def
  by (intro reads_enc_list reads_const) (auto simp: list_all_iff const_ok_map [of str])

text \<open>Upvalue descriptions come in two parts: without names first.\<close>

definition unnamed :: "'s upvaldesc \<Rightarrow> 't upvaldesc" where
  "unnamed u = Upvaldesc None (instack u) (up_idx u)"

lemma unnamed_simps [simp]:
  "up_name (unnamed u) = None" "instack (unnamed u) = instack u" "up_idx (unnamed u) = up_idx u"
  by (simp_all add: unnamed_def)

lemma reads_upvalues:
  "len_ok us \<Longrightarrow> reads name (LoadUpvalues name) (enc_list enc_upvalue us) (map unnamed us)"
  unfolding LoadUpvalues_def
  by (intro reads_enc_list) (auto simp: enc_upvalue_def unnamed_def intro!: reads_tag reads_ret)

lemma reads_locvar:
  "str_ok str (varname v) \<Longrightarrow>
   reads name (LoadLocvar name) (enc_locvar (map_locvar str v)) (map_locvar str v)"
  unfolding LoadLocvar_def enc_locvar_def
  by (intro reads_bind [OF reads_string] reads_bind [OF reads_int] reads_map [OF reads_int])
    (auto simp: str_ok_map [of str] locvar.map_sel locvar.expand)

lemma reads_names:
  "list_all (\<lambda>u. str_ok str (up_name u)) us \<Longrightarrow>
   reads name (load_names name (length us) (map unnamed us))
     (concat (map (\<lambda>u. enc_string (map_option str (up_name u))) us)) (map (map_upvaldesc str) us)"
proof (induction us)
  case Nil
  show ?case by (simp add: reads_ret)
next
  case (Cons u us)
  then have s: "reads name (LoadString name) (enc_string (map_option str (up_name u)))
      (map_option str (up_name u))"
    by (intro reads_string) (simp add: str_ok_map [of str])
  have "Upvaldesc (map_option str (up_name u)) (instack u) (up_idx u) = map_upvaldesc str u"
    by (simp add: upvaldesc.expand upvaldesc.map_sel)
  then have "reads name (andThen (load_names name (length us) (map unnamed us)) (\<lambda>vs.
      ret (Upvaldesc (map_option str (up_name u)) (instack u) (up_idx u) # vs)))
      (concat (map (\<lambda>u. enc_string (map_option str (up_name u))) us))
      (map (map_upvaldesc str) (u # us))"
    using Cons by (intro reads_map) auto
  from reads_bind [OF s, where f = "\<lambda>s. andThen (load_names name (length us) (map unnamed us))
      (\<lambda>vs. ret (Upvaldesc s (instack u) (up_idx u) # vs))", OF this]
  show ?case by simp
qed

text \<open>What a prototype is after a round trip.\<close>

fun loaded :: "bool \<Rightarrow> ('s \<Rightarrow> bytes) \<Rightarrow> bytes option \<Rightarrow> 's proto \<Rightarrow> bytes proto" where
  "loaded st str psrc (Proto src ld lld np va mss cd ks us ps li lv) =
     (let s = (if st \<or> src = None then psrc else map_option str src) in
      Proto s ld lld np va mss cd (map (map_kconst str) ks)
        (if st then map unnamed us else map (map_upvaldesc str) us)
        (map (loaded st str s) ps)
        (if st then [] else li) (if st then [] else map (map_locvar str) lv))"

lemma reads_names_count:
  assumes "len_ok us" "reads name (load_names name (length us) vs) (concat (map g us)) vs'"
  shows "reads name (andThen (LoadInt name) (\<lambda>m. andThen
      (load_names name (if m <s 0 then 0 else unat m) vs) (\<lambda>us'. ret (li, lv, us'))))
      (enc_list g us) (li, lv, vs')"
proof -
  have u: "unat (size_int us) = length us" "\<not> size_int us <s 0"
    using assms(1)
    by (simp_all add: len_ok_def size_int_def unat_of_nat word_sless_alt signed_of_nat
        signed_take_bit_int_eq_self)
  have "reads name (andThen (load_names name (if size_int us <s 0 then 0 else unat (size_int us)) vs)
      (\<lambda>us'. ret (li, lv, us'))) (concat (map g us)) (li, lv, vs')"
    using assms(2) u by (intro reads_map) simp_all
  then show ?thesis
    unfolding enc_list_def by (rule reads_bind [OF reads_int])
qed

lemma reads_debug:
  assumes "len_ok li" "len_ok lv" "len_ok us" "list_all (\<lambda>v. str_ok str (varname v)) lv"
    and "reads name (load_names name (length us) vs) (concat (map g us)) vs'"
  shows "reads name (LoadDebug name vs)
    (enc_list enc_int li @ enc_list (\<lambda>v. enc_locvar (map_locvar str v)) lv @ enc_list g us)
    (li, map (map_locvar str) lv, vs')"
proof -
  note names = reads_names_count [OF assms(3,5), of li "map (map_locvar str) lv"]
  have vars: "reads name (load_list (length lv) (LoadLocvar name))
      (concat (map (\<lambda>v. enc_locvar (map_locvar str v)) lv)) (map (map_locvar str) lv)"
    using assms(4) by (intro reads_load_list reads_locvar) (auto simp: list_all_iff)
  have n: "reads name (LoadCount name) (enc_int (size_int lv)) (length lv)"
    unfolding size_int_def using assms(2) by (intro reads_count) (simp add: len_ok_def)
  show ?thesis
    unfolding LoadDebug_def
    by (rule reads_bind' [OF reads_code [OF assms(1)]],
        rule reads_bind' [OF n], rule reads_bind' [OF vars], rule names)
      (simp_all add: enc_list_def)
qed

lemma fold_max_le: "p \<in> set ps \<Longrightarrow> (g p :: nat) \<le> fold (\<lambda>p n. max (g p) n) ps k"
proof (induction ps arbitrary: k)
  case (Cons q ps)
  have mono: "k \<le> fold (\<lambda>p n. max (g p) n) ps k" for k
    by (induction ps arbitrary: k) (auto intro: order_trans [OF max.cobounded2])
  from Cons show ?case
    using mono [of "max (g q) k"] by (auto intro: order_trans [OF max.cobounded1])
qed simp

lemma reads_function:
  "proto_ok str f \<Longrightarrow> proto_depth f \<le> d \<Longrightarrow>
   (\<not> st \<longrightarrow> psrc \<noteq> None \<longrightarrow> psrc' = map_option str psrc) \<Longrightarrow>
   reads name (LoadFunction d name psrc') (enc_function st str psrc f) (loaded st str psrc' f)"
proof (induction f arbitrary: d psrc psrc')
  case (Proto src ld lld np va mss cd ks us ps li lv)
  let ?f = "Proto src ld lld np va mss cd ks us ps li lv"
  from Proto.prems(2) obtain e where d: "d = Suc e" by (cases d) auto
  let ?s0 = "if st \<or> src = psrc then None else map_option str src"
  define s where "s = (if st \<or> src = None then psrc' else map_option str src)"
  have s: "(case ?s0 of None \<Rightarrow> psrc' | Some b \<Rightarrow> Some b) = s"
    using Proto.prems(3) by (cases src) (auto simp: s_def)
  have "str_ok (\<lambda>b. b) ?s0" using Proto.prems(1) by (auto simp: str_ok_map [of str] str_ok_def)
  then have r0: "reads name (LoadString name) (enc_string ?s0) ?s0" by (rule reads_string)
  have sub: "reads name (LoadFunction e name s) (enc_function st str src p) (loaded st str s p)"
    if "p \<in> set ps" for p
  proof (rule Proto.IH)
    show "p \<in> set ps" by fact
    show "proto_ok str p" using Proto.prems(1) that by (auto simp: list_all_iff)
    show "proto_depth p \<le> e"
      using Proto.prems(2) d fold_max_le [OF that, of proto_depth 0] by simp
    show "\<not> st \<longrightarrow> src \<noteq> None \<longrightarrow> s = map_option str src" by (simp add: s_def)
  qed
  have ok: "len_ok cd" "len_ok ks" "len_ok us" "len_ok ps" "len_ok li" "len_ok lv"
    "list_all (const_ok str) ks" "list_all (\<lambda>u. str_ok str (up_name u)) us"
    "list_all (\<lambda>v. str_ok str (varname v)) lv"
    using Proto.prems(1) by auto
  let ?li = "if st then [] else li" and ?lv = "if st then [] else lv"
  let ?us = "if st then [] else us" and ?us' = "if st then map unnamed us else map (map_upvaldesc str) us"
  have names: "reads name (load_names name (length ?us) (map unnamed us))
      (concat (map (\<lambda>u. enc_string (map_option str (up_name u))) ?us)) ?us'"
    using reads_names [OF ok(8), of name] by (simp add: reads_ret)
  have dbg: "reads name (LoadDebug name (map unnamed us))
      (enc_lines st ?f @ enc_vars st str ?f @ enc_names st str ?f)
      (?li, map (map_locvar str) ?lv, ?us')"
    unfolding enc_lines_def enc_vars_def enc_names_def
    using reads_debug [of ?li ?lv ?us str, OF _ _ _ _ names] ok
    by (cases st) (simp_all add: len_ok_def)
  have nested: "reads name (andThen (LoadCount name) (\<lambda>n. load_list n (LoadFunction e name s)))
      (enc_list (enc_function st str src) ps) (map (loaded st str s) ps)"
    using ok(4) sub by (rule reads_enc_list)
  have dbg': "reads name (andThen (LoadDebug name (map unnamed us)) (\<lambda>(li, lv, us').
      ret (Proto s ld lld np va mss cd (map (map_kconst str) ks) us'
        (map (loaded st str s) ps) li lv)))
      (enc_lines st ?f @ enc_vars st str ?f @ enc_names st str ?f) (loaded st str psrc' ?f)"
    by (rule reads_bind' [OF dbg, where cs = "[]"]) (auto simp: s_def reads_ret Let_def)
  show ?case
    unfolding d LoadFunction.simps enc_function.simps Let_def
    by (rule reads_bind [OF r0], unfold s, rule reads_bind [OF reads_int],
        rule reads_bind [OF reads_int], rule reads_bind [OF reads_byte],
        rule reads_bind [OF reads_byte], rule reads_bind [OF reads_byte],
        rule reads_bind [OF reads_code [OF ok(1)]], rule reads_bind [OF reads_consts [OF ok(2,7)]],
        rule reads_bind [OF reads_upvalues [OF ok(3)]], rule reads_bind [OF nested], rule dbg')
qed

section \<open>Whole chunks\<close>

lemma reads_check:
  "b = c \<Longrightarrow> reads name n bs a \<Longrightarrow>
   reads name (thenDo (if b \<noteq> c then load_error name why else ret ()) n) bs a"
  using reads_thenDo [OF reads_ret] by force

lemma reads_literal:
  "reads name n bs a \<Longrightarrow> reads name (thenDo (checkliteral name s msg) n) (s @ bs) a"
proof (rule reads_thenDo)
  show "reads name (checkliteral name s msg) s ()"
    unfolding checkliteral_def
    by (rule reads_bind' [OF reads_block, where cs = "[]"]) (simp_all add: reads_ret)
qed

lemma reads_checksize:
  "reads name n bs a \<Longrightarrow> reads name (thenDo (fchecksize name t tn) n) (t # bs) a"
proof -
  assume n: "reads name n bs a"
  have "reads name (fchecksize name t tn) [t] ()"
    unfolding fchecksize_def by (rule reads_tag) (simp add: reads_ret)
  from reads_thenDo [OF this n] show ?thesis by simp
qed

lemma reads_header: "reads name (checkHeader name) (tl enc_header) ()"
proof -
  have num: "reads name (andThen (LoadNumber name) (\<lambda>x. if x \<noteq> LUAC_NUM then
      load_error name (bytes_of ''float format mismatch in'') else ret ())) (enc_long LUAC_NUM) ()"
    by (rule reads_bind' [OF reads_number, where cs = "[]"]) (simp_all add: reads_ret)
  have "reads name (checkHeader name) (tl LUA_SIGNATURE @ LUAC_VERSION # LUAC_FORMAT # LUAC_DATA @
      4 # 8 # 4 # 8 # 8 # enc_long LUAC_INT @ enc_long LUAC_NUM) ()"
    unfolding checkHeader_def
    by (intro reads_literal reads_tag reads_check reads_checksize refl
        reads_bind [OF reads_integer] num)
  then show ?thesis
    by (simp add: enc_header_def LUA_SIGNATURE_def)
qed

lemma reads_undump:
  assumes "proto_ok str f" "proto_depth f \<le> d"
  shows "reads (chunk_name name) (luaU_undump d name) (tl (enc_chunk st str f))
    (of_nat (length (upvalues f)), loaded st str None f)"
proof -
  have "enc_header \<noteq> []" by (simp add: enc_header_def LUA_SIGNATURE_def)
  then have e: "tl (enc_chunk st str f) =
      tl enc_header @ of_nat (length (upvalues f)) # enc_function st str None f"
    by (simp add: enc_chunk_def)
  have fn: "reads (chunk_name name) (andThen (LoadFunction d (chunk_name name) None)
      (\<lambda>p. ret (of_nat (length (upvalues f)), p))) (enc_function st str None f)
      (of_nat (length (upvalues f)), loaded st str None f)"
    using reads_function [OF assms, of st None None] by (intro reads_map) simp_all
  show ?thesis
    unfolding luaU_undump_def Let_def e by (intro reads_thenDo [OF reads_header] reads_tag fn)
qed

lemma checkmode_ok:
  "(\<And>m. mode = Some m \<Longrightarrow> of_char (hd x) \<in> set m) \<Longrightarrow> checkmode mode x = ret ()"
  by (auto simp: checkmode_def split: option.splits)

text \<open>The binary branch of \<open>f_parser\<close> on a stream that starts with the signature byte.\<close>

lemma f_parser_binary:
  assumes "zok z" "zrest z = hd LUA_SIGNATURE # cs"
    and "\<And>m. mode = Some m \<Longrightarrow> of_char (CHR ''b'') \<in> set m"
  obtains z' where "f_parser P d mode name z = luaU_undump d name z'" "zok z'" "zrest z' = cs"
proof -
  obtain z' where "zgetc z = (Inr (uint (hd LUA_SIGNATURE)), z')" "zok z'" "zrest z' = cs"
    using assms(1,2) by (rule zgetc_Cons)
  with checkmode_ok [of mode "''binary''"] assms(3) show thesis
    by (intro that [of z']) (simp_all add: f_parser_def andThen_def thenDo_def ret_def)
qed

lemma enc_chunk_signature: "enc_chunk st str f = hd LUA_SIGNATURE # tl (enc_chunk st str f)"
  by (simp add: enc_chunk_def enc_header_def LUA_SIGNATURE_def)

text \<open>Without stripping the prototype itself comes back, with its strings in place of pointers.\<close>

fun stripped :: "'s proto \<Rightarrow> 's proto" where
  "stripped (Proto src ld lld np va mss cd ks us ps li lv) =
     Proto None ld lld np va mss cd ks (map unnamed us) (map stripped ps) [] []"

lemma loaded_whole:
  "proto_ok str f \<Longrightarrow> (source f = None \<Longrightarrow> psrc = None) \<Longrightarrow> loaded False str psrc f = map_proto str f"
proof (induction f arbitrary: psrc)
  case (Proto src ld lld np va mss cd ks us ps li lv)
  have "loaded False str (if src = None then psrc else map_option str src) p = map_proto str p"
    if p: "p \<in> set ps" for p
  proof (rule Proto.IH)
    show "p \<in> set ps" by fact
    show "proto_ok str p" using Proto.prems(1) p by (auto simp: list_all_iff)
    show "source p = None \<Longrightarrow> (if src = None then psrc else map_option str src) = None"
      using Proto.prems p by (auto simp: list_all_iff)
  qed
  with Proto.prems(2) show ?case by (auto simp: Let_def)
qed

lemma loaded_strip: "loaded True str None f = stripped (map_proto str f)"
proof (induction f)
  case (Proto src ld lld np va mss cd ks us ps li lv)
  have "unnamed (map_upvaldesc str u) = (unnamed u :: bytes upvaldesc)" for u
    by (simp add: unnamed_def upvaldesc.map_sel)
  with Proto show ?case by (auto simp: Let_def)
qed

text \<open>C37: A dumped function loads as itself. Whatever blocks the reader cuts the dump into, \<open>f_parser\<close>
  takes the binary branch, accepts the header and returns a closure with the same number of
  upvalues and the same prototype, nested functions, constants, strings and debug information
  included; a stripped dump gives the prototype without its debug information. The hypotheses
  bound array lengths by \<open>int\<close>, the mode has to allow binary chunks and the C stack must have
  room for the nesting of the functions.\<close>

theorem dump_load_roundtrip:
  assumes "proto_ok str f" "proto_depth f \<le> d"
    and "luaU_dump str f appending [] st = (0, concat bs)"
    and "[] \<notin> set bs" "\<And>b. b \<in> set bs \<Longrightarrow> length b < 2 ^ 64"
    and "\<And>m. mode = Some m \<Longrightarrow> of_char (CHR ''b'') \<in> set m"
  shows "fst (f_parser P d mode name (luaZ_init bs)) =
     Inr (of_nat (length (upvalues f)),
          if st then stripped (map_proto str f) else map_proto str f)"
proof -
  have e: "concat bs = enc_chunk st str f" using dump_appending [OF assms(1)] assms(3) by simp
  have z: "zok (luaZ_init bs)" "zrest (luaZ_init bs) = hd LUA_SIGNATURE # tl (enc_chunk st str f)"
    using assms(4,5) e enc_chunk_signature [of st str f] by (simp_all add: zok_init zrest_init)
  from z assms(6) obtain z' where z': "f_parser P d mode name (luaZ_init bs) = luaU_undump d name z'"
    "zok z'" "zrest z' = tl (enc_chunk st str f) @ []"
    using f_parser_binary [of "luaZ_init bs" _ mode P d name] by (metis append_Nil2)
  with reads_undump [OF assms(1,2)] have "fst (luaU_undump d name z') =
      Inr (of_nat (length (upvalues f)), loaded st str None f)"
    unfolding reads_def by (metis fst_conv)
  then show ?thesis
    using z'(1) loaded_whole [OF assms(1), of None] loaded_strip [of str f] by (cases st) simp_all
qed

text \<open>C38: A dump that was cut off anywhere after its first byte is never taken for a function: the
  loader reports "truncated precompiled chunk" under the display name of the chunk.\<close>

theorem truncated_dump:
  assumes "proto_ok str f" "proto_depth f \<le> d" "luaU_dump str f appending [] st = (0, whole)"
    and "strict_prefix (concat bs) whole" "bs \<noteq> []" "[] \<notin> set bs"
    and "\<And>b. b \<in> set bs \<Longrightarrow> length b < 2 ^ 64"
    and "\<And>m. mode = Some m \<Longrightarrow> of_char (CHR ''b'') \<in> set m"
  shows "fst (f_parser P d mode name (luaZ_init bs)) = Inl (truncated (chunk_name name))"
proof -
  have "strict_prefix (concat bs) (hd LUA_SIGNATURE # tl (enc_chunk st str f))"
    using dump_appending [OF assms(1)] assms(3,4) enc_chunk_signature [of st str f] by simp
  moreover have "concat bs \<noteq> []" using assms(5,6) by (cases bs) auto
  ultimately obtain cs where cs: "concat bs = hd LUA_SIGNATURE # cs"
    "strict_prefix cs (tl (enc_chunk st str f))"
    by (cases "concat bs") auto
  have z: "zok (luaZ_init bs)" "zrest (luaZ_init bs) = hd LUA_SIGNATURE # cs"
    using assms(6,7) cs by (simp_all add: zok_init zrest_init)
  from z assms(8) obtain z' where z': "f_parser P d mode name (luaZ_init bs) = luaU_undump d name z'"
    "zok z'" "zrest z' = cs"
    using f_parser_binary [of "luaZ_init bs" _ mode P d name] by metis
  with reads_undump [OF assms(1,2), of name st] cs(2) show ?thesis
    unfolding reads_def by simp
qed

text \<open>The dumper hands the writer the bytes of the chunk in order, in non-empty blocks, and stops
  for good at the first block the writer refuses: its status is the result of the dump.\<close>

theorem dump_stops:
  assumes "proto_ok str f"
  shows "\<exists>bl. [] \<notin> set bl \<and> luaU_dump str f appending [] st = (0, concat bl) \<and>
    (\<forall>w (d :: 'd). luaU_dump str f w d st = feed w bl d)"
  using dump_blocks [OF assms, of st] dump_appending [OF assms, of st] by metis

text \<open>A small function for the witnesses: \<open>return "hi", 7\<close> with one upvalue and a nested function.\<close>

definition sample_proto :: "bytes proto" where
  "sample_proto =
     Proto (Some [0x40]) 0 0 0 2 2 [0x1, 0x4041, 0x26] [K_shr [0x68, 0x69], K_int 7]
       [Upvaldesc (Some [0x5f]) 1 0]
       [Proto (Some [0x40]) 1 2 0 0 2 [0x26] [] [] [] [1] []] [1, 1, 2] [LocVar None 1 2]"

lemma sample_ok: "proto_ok (\<lambda>b. b) sample_proto" "proto_depth sample_proto \<le> 2"
  by (simp_all add: sample_proto_def str_ok_def len_ok_def LUAI_MAXSHORTLEN_def)

lemma sample_dump: "luaU_dump (\<lambda>b. b) sample_proto appending [] True = (0, enc_chunk True (\<lambda>b. b) sample_proto)"
  by (rule dump_appending [OF sample_ok(1)])

lemma sample_length: "length (enc_chunk True (\<lambda>b. b) sample_proto) < 2 ^ 64"
  by (simp add: sample_proto_def enc_chunk_def enc_header_def LUA_SIGNATURE_def LUAC_DATA_def
      bytes_of_def enc_long_def enc_int_def enc_list_def enc_lines_def enc_vars_def enc_names_def
      enc_string_def enc_size_def enc_upvalue_def Let_def)

theorem dump_load_roundtrip_witness:
  "fst (f_parser undefined 2 None [] (luaZ_init [enc_chunk True (\<lambda>b. b) sample_proto])) =
     Inr (1, stripped sample_proto)"
proof -
  have "concat [enc_chunk True (\<lambda>b. b) sample_proto] = enc_chunk True (\<lambda>b. b) sample_proto" by simp
  then have "fst (f_parser undefined 2 None [] (luaZ_init [enc_chunk True (\<lambda>b. b) sample_proto])) =
     Inr (of_nat (length (upvalues sample_proto)), if True then stripped (map_proto (\<lambda>b. b) sample_proto)
       else map_proto (\<lambda>b. b) sample_proto)"
    by (intro dump_load_roundtrip [OF sample_ok]) 
      (use sample_dump sample_length enc_chunk_signature [of True "\<lambda>b. b" sample_proto] in auto)
  then show ?thesis
    by (simp add: proto.map_ident) (simp add: sample_proto_def)
qed

theorem truncated_dump_witness:
  "fst (f_parser undefined 2 None (bytes_of ''=x'') (luaZ_init [[0x1b, 0x4c], [0x75]])) =
     Inl (Throw_syntax (bytes_of ''x: truncated precompiled chunk''))"
proof -
  have "strict_prefix (concat [[0x1b, 0x4c], [0x75 :: byte]]) (enc_chunk True (\<lambda>b. b) sample_proto)"
    by (simp add: enc_chunk_def enc_header_def LUA_SIGNATURE_def bytes_of_def)
  then have "fst (f_parser undefined 2 None (bytes_of ''=x'') (luaZ_init [[0x1b, 0x4c], [0x75]])) =
     Inl (truncated (chunk_name (bytes_of ''=x'')))"
    by (rule truncated_dump [OF sample_ok sample_dump]) auto
  then show ?thesis
    by (simp add: truncated_def chunk_name_def bytes_of_def byte_at_def)
qed

theorem dump_stops_witness:
  "\<exists>bl. [] \<notin> set bl \<and> (\<forall>w d. luaU_dump (\<lambda>b. b) sample_proto w (d :: nat) False = feed w bl d)"
  using dump_stops [OF sample_ok(1), of False, where 'd = nat] by blast

end
