(* ===== verification/LuaTabLib.thy ===== *)
theory LuaTabLib
  imports LuaTable
begin

text \<open>
  The table library (\<open>ltablib.c\<close>). Its functions see tables through the C interface of Lua
  (\<open>lua_geti\<close>, \<open>lua_seti\<close>, \<open>luaL_len\<close>, \<dots>), which is the record \<open>lua_api\<close> of operations on an
  abstract state here: a table with metamethods may run any code behind them. Values the C code
  keeps on the Lua stack are ordinary variables; \<open>set2\<close> gets the two topmost values, the top one
  first. The arguments of the library functions come as values, absent ones as \<open>None\<close>.
\<close>

section \<open>The interface\<close>

text \<open>
  \<open>Arg_error\<close> is \<open>luaL_argerror\<close>, \<open>Lib_error\<close> is \<open>luaL_error\<close>, \<open>Api\<close> an error raised behind the
  interface. \<open>Endless\<close> marks a loop that exceeds the number of turns it is given here.
\<close>

datatype 'e lib_error = Arg_error nat bytes | Lib_error bytes | Api 'e | Endless

record ('s, 'e) lua_api =
  geti :: "addr \<Rightarrow> lua_Integer \<Rightarrow> ('s, 'e lib_error, tvalue) prog"
  seti :: "addr \<Rightarrow> lua_Integer \<Rightarrow> tvalue \<Rightarrow> ('s, 'e lib_error, unit) prog"
  setfield :: "addr \<Rightarrow> string \<Rightarrow> tvalue \<Rightarrow> ('s, 'e lib_error, unit) prog"
  luaL_len :: "addr \<Rightarrow> ('s, 'e lib_error, lua_Integer) prog"
  createtable :: "32 word \<Rightarrow> 32 word \<Rightarrow> ('s, 'e lib_error, addr) prog"
  checkstack :: "nat \<Rightarrow> ('s, 'e lib_error, bool) prog"
  to_integer :: "tvalue \<Rightarrow> lua_Integer option"
  is_number :: "tvalue \<Rightarrow> bool"
  to_bytes :: "tvalue \<Rightarrow> bytes option"
  type_name :: "tvalue \<Rightarrow> bytes"

definition interror :: "('s, 'e) lua_api \<Rightarrow> nat \<Rightarrow> tvalue \<Rightarrow> ('s, 'e lib_error, 'a) prog" where
  "interror A arg v =
     stop (Arg_error arg
       (if is_number A v then bytes_of ''number has no integer representation''
        else bytes_of ''number expected, got '' @ type_name A v))"

definition luaL_checkinteger ::
  "('s, 'e) lua_api \<Rightarrow> nat \<Rightarrow> tvalue \<Rightarrow> ('s, 'e lib_error, lua_Integer) prog" where
  "luaL_checkinteger A arg v =
     (case to_integer A v of
        Some i \<Rightarrow> ret i
      | None \<Rightarrow> interror A arg v)"

definition luaL_optinteger ::
  "('s, 'e) lua_api \<Rightarrow> nat \<Rightarrow> tvalue option \<Rightarrow> lua_Integer \<Rightarrow> ('s, 'e lib_error, lua_Integer) prog" where
  "luaL_optinteger A arg v d =
     (case v of
        None \<Rightarrow> ret d
      | Some x \<Rightarrow> if x = Nil_v then ret d else luaL_checkinteger A arg x)"

definition luaL_argcheck :: "bool \<Rightarrow> nat \<Rightarrow> string \<Rightarrow> ('s, 'e lib_error, unit) prog" where
  "luaL_argcheck c arg msg = (if c then ret () else stop (Arg_error arg (bytes_of msg)))"

section \<open>Loops over indices\<close>

lemma sint_dec: "x <s y \<Longrightarrow> sint (y - 1) = sint (y :: lua_Integer) - 1"
  using sint_ge [of x] sint_lt [of y]
  by (simp add: word_sless_alt sint_word_ariths signed_take_bit_int_eq_self)

lemma sint_inc: "x <s y \<Longrightarrow> sint (x + 1) = sint (x :: lua_Integer) + 1"
  using sint_ge [of x] sint_lt [of y]
  by (simp add: word_sless_alt sint_word_ariths signed_take_bit_int_eq_self)

section \<open>Insertion and removal\<close>

text \<open>\<open>for (i = e; i > pos; i--) t[i] = t[i - 1]\<close>.\<close>

function shift_up ::
  "('s, 'e) lua_api \<Rightarrow> addr \<Rightarrow> lua_Integer \<Rightarrow> lua_Integer \<Rightarrow> ('s, 'e lib_error, unit) prog" where
  "shift_up A t pos i =
     (if pos <s i then
        andThen (geti A t (i - 1)) (\<lambda>v.
        thenDo (seti A t i v) (shift_up A t pos (i - 1)))
      else ret ())"
  by pat_completeness auto
termination
  by (relation "measure (\<lambda>(A, t, pos, i). nat (sint i - sint pos))")
    (auto simp: sint_dec word_sless_alt)

text \<open>\<open>for ( ; pos < size; pos++) t[pos] = t[pos + 1]\<close>; the result is the final \<open>pos\<close>.\<close>

function shift_down ::
  "('s, 'e) lua_api \<Rightarrow> addr \<Rightarrow> lua_Integer \<Rightarrow> lua_Integer \<Rightarrow> ('s, 'e lib_error, lua_Integer) prog" where
  "shift_down A t sz pos =
     (if pos <s sz then
        andThen (geti A t (pos + 1)) (\<lambda>v.
        thenDo (seti A t pos v) (shift_down A t sz (pos + 1)))
      else ret pos)"
  by pat_completeness auto
termination
  by (relation "measure (\<lambda>(A, t, sz, pos). nat (sint sz - sint pos))")
    (auto simp: sint_inc word_sless_alt)

declare shift_up.simps [simp del] shift_down.simps [simp del]

text \<open>The arguments after the table: a value, or a position and a value.\<close>

definition tinsert ::
  "('s, 'e) lua_api \<Rightarrow> addr \<Rightarrow> tvalue list \<Rightarrow> ('s, 'e lib_error, unit) prog" where
  "tinsert A t args =
     andThen (luaL_len A t) (\<lambda>n.
       let e = n + 1 in
       case args of
         [v] \<Rightarrow> seti A t e v
       | [p, v] \<Rightarrow>
           andThen (luaL_checkinteger A 2 p) (\<lambda>pos.
           thenDo (luaL_argcheck (1 \<le>s pos \<and> pos \<le>s e) 2 ''position out of bounds'')
           (thenDo (shift_up A t pos e) (seti A t pos v)))
       | _ \<Rightarrow> stop (Lib_error (bytes_of ''wrong number of arguments to '' @ [0x27] @ bytes_of ''insert'' @ [0x27])))"

definition tremove ::
  "('s, 'e) lua_api \<Rightarrow> addr \<Rightarrow> tvalue option \<Rightarrow> ('s, 'e lib_error, tvalue) prog" where
  "tremove A t p =
     andThen (luaL_len A t) (\<lambda>sz.
     andThen (luaL_optinteger A 2 p sz) (\<lambda>pos.
     thenDo (if pos \<noteq> sz then luaL_argcheck (1 \<le>s pos \<and> pos \<le>s sz + 1) 1 ''position out of bounds''
             else ret ())
     (andThen (geti A t pos) (\<lambda>result.
      andThen (shift_down A t sz pos) (\<lambda>pos'.
      thenDo (seti A t pos' Nil_v) (ret result))))))"

section \<open>Moving\<close>

text \<open>The two loops of \<open>tmove\<close>: \<open>i\<close> from 0 below \<open>n\<close>, and from \<open>n - 1\<close> down to 0.\<close>

function move_up ::
  "('s, 'e) lua_api \<Rightarrow> addr \<Rightarrow> addr \<Rightarrow> lua_Integer \<Rightarrow> lua_Integer \<Rightarrow> lua_Integer \<Rightarrow> lua_Integer \<Rightarrow>
   ('s, 'e lib_error, unit) prog" where
  "move_up A a b f t n i =
     (if i <s n then
        andThen (geti A a (f + i)) (\<lambda>v.
        thenDo (seti A b (t + i) v) (move_up A a b f t n (i + 1)))
      else ret ())"
  by pat_completeness auto
termination
  by (relation "measure (\<lambda>(A, a, b, f, t, n, i). nat (sint n - sint i))")
    (auto simp: sint_inc word_sless_alt)

function move_down ::
  "('s, 'e) lua_api \<Rightarrow> addr \<Rightarrow> addr \<Rightarrow> lua_Integer \<Rightarrow> lua_Integer \<Rightarrow> lua_Integer \<Rightarrow>
   ('s, 'e lib_error, unit) prog" where
  "move_down A a b f t i =
     (if 0 \<le>s i then
        andThen (geti A a (f + i)) (\<lambda>v.
        thenDo (seti A b (t + i) v) (move_down A a b f t (i - 1)))
      else ret ())"
  by pat_completeness auto
termination
proof (relation "measure (\<lambda>(A, a, b, f, t, i). nat (sint i + 1))", goal_cases)
  case (2 A a b f t i)
  then have "-1 <s i" by (simp add: word_sless_alt word_sle_eq)
  from sint_dec [OF this] 2 show ?case by (simp add: word_sle_eq)
qed simp

declare move_up.simps [simp del] move_down.simps [simp del]

definition LUA_MAXINTEGER :: lua_Integer where
  "LUA_MAXINTEGER = 2 ^ 63 - 1"

text \<open>\<open>b\<close> is the destination given as the fifth argument, if there is one.\<close>

definition tmove ::
  "('s, 'e) lua_api \<Rightarrow> addr \<Rightarrow> tvalue \<Rightarrow> tvalue \<Rightarrow> tvalue \<Rightarrow> addr option \<Rightarrow>
   ('s, 'e lib_error, addr) prog" where
  "tmove A a fv ev tv b =
     andThen (luaL_checkinteger A 2 fv) (\<lambda>f.
     andThen (luaL_checkinteger A 3 ev) (\<lambda>e.
     andThen (luaL_checkinteger A 4 tv) (\<lambda>t.
     let tt = (case b of Some x \<Rightarrow> x | None \<Rightarrow> a) in
     thenDo
       (if f \<le>s e then
          thenDo (luaL_argcheck (0 <s f \<or> e <s LUA_MAXINTEGER + f) 3 ''too many elements to move'')
          (let n = e - f + 1 in
           thenDo (luaL_argcheck (t \<le>s LUA_MAXINTEGER - n + 1) 4 ''destination wrap around'')
           (if e <s t \<or> t \<le>s f \<or> b \<noteq> None then move_up A a tt f t n 0
            else move_down A a tt f t (n - 1)))
        else ret ())
     (ret tt))))"

section \<open>Concatenation\<close>

text \<open>
  \<open>luaL_error\<close> with \<open>%d\<close> takes an \<open>int\<close> from the argument list where \<open>addfield\<close> passes a
  \<open>lua_Integer\<close>: the message shows its low 32 bits.
\<close>

definition addfield ::
  "('s, 'e) lua_api \<Rightarrow> addr \<Rightarrow> bytes \<Rightarrow> lua_Integer \<Rightarrow> ('s, 'e lib_error, bytes) prog" where
  "addfield A t b i =
     andThen (geti A t i) (\<lambda>v.
       case to_bytes A v of
         Some x \<Rightarrow> ret (b @ x)
       | None \<Rightarrow>
           stop (Lib_error (bytes_of ''invalid value ('' @ type_name A v @ bytes_of '') at index '' @
             lua_integer2str (scast (ucast i :: u32)) @ bytes_of '' in table for '' @ [0x27] @
             bytes_of ''concat'' @ [0x27])))"

function concat_loop ::
  "('s, 'e) lua_api \<Rightarrow> addr \<Rightarrow> bytes \<Rightarrow> lua_Integer \<Rightarrow> lua_Integer \<Rightarrow> bytes \<Rightarrow>
   ('s, 'e lib_error, bytes) prog" where
  "concat_loop A t sep upb i b =
     (if i <s upb then
        andThen (addfield A t b i) (\<lambda>b'. concat_loop A t sep upb (i + 1) (b' @ sep))
      else if i = upb then addfield A t b i
      else ret b)"
  by pat_completeness auto
termination
  by (relation "measure (\<lambda>(A, t, sep, upb, i, b). nat (sint upb - sint i))")
    (auto simp: sint_inc word_sless_alt)

declare concat_loop.simps [simp del]

definition tconcat ::
  "('s, 'e) lua_api \<Rightarrow> addr \<Rightarrow> bytes option \<Rightarrow> tvalue option \<Rightarrow> tvalue option \<Rightarrow>
   ('s, 'e lib_error, bytes) prog" where
  "tconcat A t sep iv lastv =
     andThen (luaL_len A t) (\<lambda>n.
     andThen (luaL_optinteger A 3 iv 1) (\<lambda>i.
     andThen (luaL_optinteger A 4 lastv n) (\<lambda>upb.
       concat_loop A t (case sep of None \<Rightarrow> [] | Some s \<Rightarrow> s) upb i [])))"

section \<open>Packing and unpacking\<close>

primrec pack_loop ::
  "('s, 'e) lua_api \<Rightarrow> addr \<Rightarrow> tvalue list \<Rightarrow> nat \<Rightarrow> ('s, 'e lib_error, unit) prog" where
  "pack_loop A t args 0 = ret ()"
| "pack_loop A t args (Suc i) =
     thenDo (seti A t (of_nat (Suc i)) (args ! i)) (pack_loop A t args i)"

definition pack :: "('s, 'e) lua_api \<Rightarrow> tvalue list \<Rightarrow> ('s, 'e lib_error, addr) prog" where
  "pack A args =
     andThen (createtable A (of_nat (length args)) 1) (\<lambda>t.
     thenDo (pack_loop A t args (length args))
     (thenDo (setfield A t ''n'' (Int_v (of_nat (length args)))) (ret t)))"

function unpack_loop ::
  "('s, 'e) lua_api \<Rightarrow> addr \<Rightarrow> lua_Integer \<Rightarrow> lua_Integer \<Rightarrow> ('s, 'e lib_error, tvalue list) prog" where
  "unpack_loop A t i e =
     (if i <s e then
        andThen (geti A t i) (\<lambda>v. andThen (unpack_loop A t (i + 1) e) (\<lambda>vs. ret (v # vs)))
      else andThen (geti A t e) (\<lambda>v. ret [v]))"
  by pat_completeness auto
termination
  by (relation "measure (\<lambda>(A, t, i, e). nat (sint e - sint i))")
    (auto simp: sint_inc word_sless_alt)

declare unpack_loop.simps [simp del]

definition unpack ::
  "('s, 'e) lua_api \<Rightarrow> addr \<Rightarrow> tvalue option \<Rightarrow> tvalue option \<Rightarrow>
   ('s, 'e lib_error, tvalue list) prog" where
  "unpack A t iv ev =
     andThen (luaL_optinteger A 2 iv 1) (\<lambda>i.
     andThen (case ev of
                None \<Rightarrow> luaL_len A t
              | Some x \<Rightarrow> if x = Nil_v then luaL_len A t else luaL_checkinteger A 3 x) (\<lambda>e.
       if e <s i then ret []
       else
         let n = unat (e - i) in
         if n \<ge> INT_MAX then stop (Lib_error (bytes_of ''too many results to unpack''))
         else andThen (checkstack A (n + 1)) (\<lambda>fits.
           if \<not> fits then stop (Lib_error (bytes_of ''too many results to unpack''))
           else unpack_loop A t i e)))"

end
