(* ===== verification/LuaHeap.thy ===== *)
theory LuaHeap
  imports LuaTableWalk LuaTabLib
begin

text \<open>
  The C interface of Lua on tables without metatables (\<open>lua_geti\<close>, \<open>lua_seti\<close>, \<open>lua_setfield\<close> and
  \<open>lua_createtable\<close> of \<open>lapi.c\<close>, \<open>luaL_len\<close> of \<open>lauxlib.c\<close>, with the parts of \<open>luaV_finishset\<close> and
  \<open>luaV_objlen\<close> they reach): a heap of the tables of \<open>LuaTable\<close>, and the record \<open>lua_api\<close> of
  \<open>LuaTabLib\<close> on it. Collection and write barriers do not change the contents and are left out.
  After an error the heap is the one before the failing operation.
\<close>

section \<open>The heap\<close>

record heap =
  tabs :: "addr \<Rightarrow> table"
  fresh :: addr

text \<open>
  What the interface needs of the rest of the state: the string objects, the address of the string
  that \<open>luaS_new\<close> gives for a C string, whether the stack can grow by a number of slots, and the
  conversions of strings to numbers (\<open>luaO_str2num\<close>) and of floats to strings, which go through
  \<open>strtod\<close> and \<open>printf\<close>.
\<close>

record lua_env =
  strs :: strings
  luaS_new :: "string \<Rightarrow> addr"
  c_stack :: "nat \<Rightarrow> bool"
  str2num :: "bytes \<Rightarrow> tvalue option"
  flt2str :: "lua_Number \<Rightarrow> bytes"
  typename :: "tvalue \<Rightarrow> bytes"

type_synonym 'a on_heap = "(heap, tab_error lib_error, 'a) prog"

definition raise_tab :: "tab_error \<Rightarrow> 'a on_heap" where
  "raise_tab e = stop (Api e)"

definition put_table :: "addr \<Rightarrow> table \<Rightarrow> unit on_heap" where
  "put_table a t = (\<lambda>h. (Inr (), h\<lparr>tabs := (tabs h)(a := t)\<rparr>))"

section \<open>Access\<close>

definition lua_geti :: "addr \<Rightarrow> lua_Integer \<Rightarrow> tvalue on_heap" where
  "lua_geti a n = (\<lambda>h.
     (case luaH_getint (tabs h a) n of
        None \<Rightarrow> raise_tab Stuck h
      | Some c \<Rightarrow> ret (read_cell (tabs h a) c) h))"

text \<open>
  \<open>luaV_fastset\<close> stores over a value that is not \<open>nil\<close>; otherwise \<open>luaV_finishset\<close> stores in the
  previous entry, or makes one. Two nested calls of \<open>luaH_newkey\<close> are enough for any table.
\<close>

definition luaV_finishset :: "strings \<Rightarrow> table \<Rightarrow> tvalue \<Rightarrow> tvalue \<Rightarrow> cell \<Rightarrow> tab_error + table" where
  "luaV_finishset st t k v oldval =
     (if oldval \<noteq> Nilobject then Inr (write_cell t oldval v)
      else
        case luaH_newkey st 2 t k of
          Inl e \<Rightarrow> Inl e
        | Inr (t', c) \<Rightarrow> Inr (write_cell t' c v))"

definition luaV_set :: "strings \<Rightarrow> table \<Rightarrow> cell option \<Rightarrow> tvalue \<Rightarrow> tvalue \<Rightarrow> tab_error + table" where
  "luaV_set st t slot k v =
     (case slot of
        None \<Rightarrow> Inl Stuck
      | Some c \<Rightarrow>
          if read_cell t c \<noteq> Nil_v then Inr (write_cell t c v)
          else luaV_finishset st t k v c)"

definition store :: "addr \<Rightarrow> (table \<Rightarrow> tab_error + table) \<Rightarrow> unit on_heap" where
  "store a f = (\<lambda>h.
     (case f (tabs h a) of
        Inl e \<Rightarrow> raise_tab e h
      | Inr t \<Rightarrow> put_table a t h))"

definition lua_seti :: "lua_env \<Rightarrow> addr \<Rightarrow> lua_Integer \<Rightarrow> tvalue \<Rightarrow> unit on_heap" where
  "lua_seti E a n v = store a (\<lambda>t. luaV_set (strs E) t (luaH_getint t n) (Int_v n) v)"

definition auxsetstr :: "lua_env \<Rightarrow> addr \<Rightarrow> string \<Rightarrow> tvalue \<Rightarrow> unit on_heap" where
  "auxsetstr E a k v =
     (let str = luaS_new E k;
          key = (if ts_short (strs E str) then Shr_v str else Lng_v str)
      in store a (\<lambda>t. luaV_set (strs E) t (luaH_getstr (strs E) t str) key v))"

definition lua_createtable :: "lua_env \<Rightarrow> 32 word \<Rightarrow> 32 word \<Rightarrow> addr on_heap" where
  "lua_createtable E narray nrec = (\<lambda>h.
     let a = fresh h;
         h' = h\<lparr>tabs := (tabs h)(a := luaH_new), fresh := Suc a\<rparr>
     in if 0 <s narray \<or> 0 <s nrec
        then thenDo (store a (\<lambda>t. luaH_resize (strs E) 2 t (unat narray) (unat nrec))) (ret a) h'
        else ret a h')"

section \<open>Length\<close>

text \<open>\<open>luaH_getn\<close> returns its unsigned result as an \<open>int\<close>.\<close>

definition primitive_len :: "nat \<Rightarrow> lua_Integer" where
  "primitive_len n = scast (word_of_nat n :: 32 word)"

definition luaV_objlen :: "addr \<Rightarrow> lua_Integer on_heap" where
  "luaV_objlen a = (\<lambda>h.
     (case luaH_getn (tabs h a) of
        None \<Rightarrow> raise_tab Stuck h
      | Some n \<Rightarrow> ret (primitive_len n) h))"

section \<open>Conversions and the interface\<close>

definition cvt_tointeger :: "lua_env \<Rightarrow> tvalue \<Rightarrow> lua_Integer option" where
  "cvt_tointeger E v =
     (case v of
        Shr_v s \<Rightarrow> Option.bind (str2num E (ts_bytes (strs E s))) tointeger
      | Lng_v s \<Rightarrow> Option.bind (str2num E (ts_bytes (strs E s))) tointeger
      | _ \<Rightarrow> tointeger v)"

definition cvt_isnumber :: "lua_env \<Rightarrow> tvalue \<Rightarrow> bool" where
  "cvt_isnumber E v =
     (case v of
        Int_v i \<Rightarrow> True
      | Flt_v x \<Rightarrow> True
      | Shr_v s \<Rightarrow> str2num E (ts_bytes (strs E s)) \<noteq> None
      | Lng_v s \<Rightarrow> str2num E (ts_bytes (strs E s)) \<noteq> None
      | _ \<Rightarrow> False)"

definition cvt_tolstring :: "lua_env \<Rightarrow> tvalue \<Rightarrow> bytes option" where
  "cvt_tolstring E v =
     (case v of
        Shr_v s \<Rightarrow> Some (ts_bytes (strs E s))
      | Lng_v s \<Rightarrow> Some (ts_bytes (strs E s))
      | Int_v i \<Rightarrow> Some (lua_integer2str i)
      | Flt_v x \<Rightarrow> Some (flt2str E x)
      | _ \<Rightarrow> None)"

definition plain_api :: "lua_env \<Rightarrow> (heap, tab_error) lua_api" where
  "plain_api E =
     \<lparr>geti = lua_geti, seti = lua_seti E, setfield = auxsetstr E, luaL_len = luaV_objlen,
      createtable = lua_createtable E, checkstack = (\<lambda>n. ret (c_stack E n)),
      to_integer = cvt_tointeger E, is_number = cvt_isnumber E, to_bytes = cvt_tolstring E, type_name = typename E\<rparr>"

lemma plain_api_simps [simp]:
  "geti (plain_api E) = lua_geti" "seti (plain_api E) = lua_seti E"
  "setfield (plain_api E) = auxsetstr E" "luaL_len (plain_api E) = luaV_objlen"
  "createtable (plain_api E) = lua_createtable E" "checkstack (plain_api E) = (\<lambda>n. ret (c_stack E n))"
  "to_integer (plain_api E) = cvt_tointeger E" "is_number (plain_api E) = cvt_isnumber E" "to_bytes (plain_api E) = cvt_tolstring E"
  "type_name (plain_api E) = typename E"
  by (simp_all add: plain_api_def)

end
