(* ===== verification/LuaSort.thy ===== *)
theory LuaSort
  imports LuaTabLib
begin

text \<open>
  \<open>table.sort\<close> (\<open>ltablib.c\<close>): Sedgewick's quicksort with the median of three, in place, over an
  order function that may be any code. Indices are \<open>unsigned int\<close>s. \<open>lt\<close> is \<open>sort_comp\<close>, \<open>rnd\<close> the
  pivot randomisation by clock and time.

  The loops \<open>for (;;)\<close> get a number of turns; the lemmas of \<open>LuaSortProps\<close> show that the numbers
  given are enough whatever the order function answers.
\<close>

text \<open>
  The second argument of the library function: absent or nil, a function, or a value of another
  type, given by the name of its type.
\<close>

datatype ('s, 'e) sort_arg =
    No_order
  | Order "tvalue \<Rightarrow> tvalue \<Rightarrow> ('s, 'e lib_error, bool) prog"
  | Not_function bytes

text \<open>The check in \<open>sort\<close> keeps \<open>sort_comp\<close> from calling a value that is not a function.\<close>

definition sort_comp ::
  "('s, 'e) sort_arg \<Rightarrow>
   (tvalue \<Rightarrow> tvalue \<Rightarrow> ('s, 'e lib_error, bool) prog) \<Rightarrow>
   tvalue \<Rightarrow> tvalue \<Rightarrow> ('s, 'e lib_error, bool) prog" where
  "sort_comp f lua_lessthan a b =
     (case f of
        No_order \<Rightarrow> lua_lessthan a b
      | Order g \<Rightarrow> g a b
      | Not_function ty \<Rightarrow> stop (Lib_error (bytes_of ''attempt to call a '' @ ty @ bytes_of '' value'')))"

definition get_u :: "('s, 'e) lua_api \<Rightarrow> addr \<Rightarrow> u32 \<Rightarrow> ('s, 'e lib_error, tvalue) prog" where
  "get_u A t i = geti A t (ucast i)"

text \<open>\<open>vtop\<close> is the value on the top of the stack, \<open>below\<close> the one under it.\<close>

definition set2 ::
  "('s, 'e) lua_api \<Rightarrow> addr \<Rightarrow> u32 \<Rightarrow> u32 \<Rightarrow> tvalue \<Rightarrow> tvalue \<Rightarrow> ('s, 'e lib_error, unit) prog" where
  "set2 A t i j vtop below = thenDo (seti A t (ucast i) vtop) (seti A t (ucast j) below)"

definition invalid_order :: "('s, 'e lib_error, 'a) prog" where
  "invalid_order = stop (Lib_error (bytes_of ''invalid order function for sorting''))"

text \<open>\<open>while (lua_geti(L, 1, ++i), sort_comp(L, -1, -2))\<close>: the index reached and \<open>a[i]\<close>.\<close>

primrec scan_up ::
  "('s, 'e) lua_api \<Rightarrow> (tvalue \<Rightarrow> tvalue \<Rightarrow> ('s, 'e lib_error, bool) prog) \<Rightarrow> addr \<Rightarrow> tvalue \<Rightarrow> u32 \<Rightarrow>
   nat \<Rightarrow> u32 \<Rightarrow> ('s, 'e lib_error, u32 \<times> tvalue) prog" where
  "scan_up A lt t P up 0 i = stop Endless"
| "scan_up A lt t P up (Suc turns) i =
     (let i' = i + 1 in
      andThen (get_u A t i') (\<lambda>v.
      andThen (lt v P) (\<lambda>less.
        if less then
          (if i' = up - 1 then invalid_order else scan_up A lt t P up turns i')
        else ret (i', v))))"

text \<open>\<open>while (lua_geti(L, 1, --j), sort_comp(L, -3, -1))\<close>.\<close>

primrec scan_down ::
  "('s, 'e) lua_api \<Rightarrow> (tvalue \<Rightarrow> tvalue \<Rightarrow> ('s, 'e lib_error, bool) prog) \<Rightarrow> addr \<Rightarrow> tvalue \<Rightarrow> u32 \<Rightarrow>
   nat \<Rightarrow> u32 \<Rightarrow> ('s, 'e lib_error, u32 \<times> tvalue) prog" where
  "scan_down A lt t P i 0 j = stop Endless"
| "scan_down A lt t P i (Suc turns) j =
     (let j' = j - 1 in
      andThen (get_u A t j') (\<lambda>v.
      andThen (lt P v) (\<lambda>less.
        if less then
          (if j' < i then invalid_order else scan_down A lt t P i turns j')
        else ret (j', v))))"

primrec partition_loop ::
  "('s, 'e) lua_api \<Rightarrow> (tvalue \<Rightarrow> tvalue \<Rightarrow> ('s, 'e lib_error, bool) prog) \<Rightarrow> addr \<Rightarrow> tvalue \<Rightarrow> u32 \<Rightarrow>
   nat \<Rightarrow> u32 \<Rightarrow> u32 \<Rightarrow> ('s, 'e lib_error, u32) prog" where
  "partition_loop A lt t P up 0 i j = stop Endless"
| "partition_loop A lt t P up (Suc turns) i j =
     andThen (scan_up A lt t P up (unat up) i) (\<lambda>(i', vi).
     andThen (scan_down A lt t P i' (unat up) j) (\<lambda>(j', vj).
       if j' < i' then
         thenDo (set2 A t (up - 1) i' vi P) (ret i')
       else
         thenDo (set2 A t i' j' vj vi) (partition_loop A lt t P up turns i' j')))"

definition partition_u ::
  "('s, 'e) lua_api \<Rightarrow> (tvalue \<Rightarrow> tvalue \<Rightarrow> ('s, 'e lib_error, bool) prog) \<Rightarrow> addr \<Rightarrow> tvalue \<Rightarrow> u32 \<Rightarrow>
   u32 \<Rightarrow> ('s, 'e lib_error, u32) prog" where
  "partition_u A lt t P lo up = partition_loop A lt t P up (unat up) lo (up - 1)"

definition RANLIMIT :: u32 where
  "RANLIMIT = 100"

definition choosePivot :: "u32 \<Rightarrow> u32 \<Rightarrow> u32 \<Rightarrow> u32" where
  "choosePivot lo up rnd =
     (let r4 = (up - lo) div 4 in rnd mod (r4 * 2) + (lo + r4))"

text \<open>The first part of the loop body of \<open>auxsort\<close>: sort \<open>a[lo]\<close> and \<open>a[up]\<close>.\<close>

definition order_ends ::
  "('s, 'e) lua_api \<Rightarrow> (tvalue \<Rightarrow> tvalue \<Rightarrow> ('s, 'e lib_error, bool) prog) \<Rightarrow> addr \<Rightarrow> u32 \<Rightarrow> u32 \<Rightarrow>
   ('s, 'e lib_error, unit) prog" where
  "order_ends A lt t lo up =
     andThen (get_u A t lo) (\<lambda>vlo.
     andThen (get_u A t up) (\<lambda>vup.
     andThen (lt vup vlo) (\<lambda>less. if less then set2 A t lo up vup vlo else ret ())))"

text \<open>The second part: put \<open>a[p]\<close> between them.\<close>

definition order_middle ::
  "('s, 'e) lua_api \<Rightarrow> (tvalue \<Rightarrow> tvalue \<Rightarrow> ('s, 'e lib_error, bool) prog) \<Rightarrow> addr \<Rightarrow> u32 \<Rightarrow> u32 \<Rightarrow> u32 \<Rightarrow>
   ('s, 'e lib_error, unit) prog" where
  "order_middle A lt t lo p up =
     andThen (get_u A t p) (\<lambda>vp.
     andThen (get_u A t lo) (\<lambda>vlo.
     andThen (lt vp vlo) (\<lambda>less.
       if less then set2 A t p lo vlo vp
       else
         andThen (get_u A t up) (\<lambda>vup.
         andThen (lt vup vp) (\<lambda>less'. if less' then set2 A t p up vup vp else ret ())))))"

text \<open>
  \<open>auxsort\<close>: one turn of the loop, the recursive call on the smaller interval and the next turn
  on the larger one.
\<close>

primrec auxsort ::
  "('s, 'e) lua_api \<Rightarrow> (tvalue \<Rightarrow> tvalue \<Rightarrow> ('s, 'e lib_error, bool) prog) \<Rightarrow>
   ('s, 'e lib_error, u32) prog \<Rightarrow> addr \<Rightarrow> nat \<Rightarrow> u32 \<Rightarrow> u32 \<Rightarrow> u32 \<Rightarrow>
   ('s, 'e lib_error, unit) prog" where
  "auxsort A lt l_randomizePivot t 0 lo up rnd = (if lo < up then stop Endless else ret ())"
| "auxsort A lt l_randomizePivot t (Suc turns) lo up rnd =
     (if lo < up then
        thenDo (order_ends A lt t lo up)
        (if up - lo = 1 then ret ()
         else
           let p = (if up - lo < RANLIMIT \<or> rnd = 0 then (lo + up) div 2 else choosePivot lo up rnd) in
           thenDo (order_middle A lt t lo p up)
           (if up - lo = 2 then ret ()
            else
              andThen (get_u A t p) (\<lambda>P.
              andThen (get_u A t (up - 1)) (\<lambda>v.
              thenDo (set2 A t p (up - 1) v P)
              (andThen (partition_u A lt t P lo up) (\<lambda>q.
                 let lower = q - lo < up - q;
                     n = (if lower then q - lo else up - q);
                     lo' = (if lower then q + 1 else lo);
                     up' = (if lower then up else q - 1)
                 in thenDo (if lower then auxsort A lt l_randomizePivot t turns lo (q - 1) rnd
                            else auxsort A lt l_randomizePivot t turns (q + 1) up rnd)
                    (andThen (if n < (up' - lo') div 128 then l_randomizePivot else ret rnd)
                      (auxsort A lt l_randomizePivot t turns lo' up'))))))))
      else ret ())"

definition tsort ::
  "('s, 'e) lua_api \<Rightarrow> (tvalue \<Rightarrow> tvalue \<Rightarrow> ('s, 'e lib_error, bool) prog) \<Rightarrow>
   ('s, 'e) sort_arg \<Rightarrow> ('s, 'e lib_error, u32) prog \<Rightarrow> addr \<Rightarrow> ('s, 'e lib_error, unit) prog" where
  "tsort A lua_lessthan f l_randomizePivot t =
     andThen (luaL_len A t) (\<lambda>n.
       if 1 <s n then
         thenDo (luaL_argcheck (n <s of_nat INT_MAX) 1 ''array too big'')
         (andThen (checkstack A 40) (\<lambda>fits.
          if \<not> fits then stop (Lib_error (bytes_of ''stack overflow ()''))
          else
            thenDo (case f of
                      Not_function ty \<Rightarrow> stop (Arg_error 2 (bytes_of ''function expected, got '' @ ty))
                    | _ \<Rightarrow> ret ())
            (auxsort A (sort_comp f lua_lessthan) l_randomizePivot t (unat n) 1 (ucast n) 0)))
       else ret ())"

end
