(* ===== verification/LuaTabLibProps.thy ===== *)
theory LuaTabLibProps
  imports LuaTabLib
begin

text \<open>
  The table library over any tables that behave like arrays: the contract \<open>lua_tables\<close> between
  the library and the C interface, and what insertion, removal, moving, packing and unpacking do
  to a table under it. \<open>LuaHeap\<close> discharges the contract for the tables of \<open>ltable.c\<close>.
\<close>

section \<open>Indices\<close>

text \<open>Positive indices as natural numbers.\<close>

abbreviation at :: "nat \<Rightarrow> lua_Integer" where
  "at k \<equiv> of_nat k"

lemma sint_at: "k < 2 ^ 63 \<Longrightarrow> sint (at k) = int k"
  by (simp add: signed_of_nat signed_take_bit_int_eq_self)

lemma at_less: "j < 2 ^ 63 \<Longrightarrow> k < 2 ^ 63 \<Longrightarrow> (at j <s at k) = (j < k)"
  by (simp add: word_sless_alt sint_at)

lemma at_le: "j < 2 ^ 63 \<Longrightarrow> k < 2 ^ 63 \<Longrightarrow> (at j \<le>s at k) = (j \<le> k)"
  by (simp add: word_sle_eq sint_at)

lemma at_inj: "j < 2 ^ 63 \<Longrightarrow> k < 2 ^ 63 \<Longrightarrow> (at j = at k) = (j = k)"
  by (metis sint_at of_nat_eq_iff)

lemma at_Suc: "at (Suc k) = at k + 1"
  by simp

lemma at_pred: "0 < k \<Longrightarrow> at k - 1 = at (k - 1)"
  by (cases k) simp_all

lemma at_cover: "0 \<le>s i \<Longrightarrow> \<exists>k < 2 ^ 63. i = at k"
proof -
  assume i: "0 \<le>s i"
  then have "0 \<le> sint i" by (simp add: word_sle_eq)
  moreover have "sint i < 2 ^ 63" using sint_lt [of i] by simp
  ultimately have "nat (sint i) < 2 ^ 63" "at (nat (sint i)) = i"
    by (simp_all add: nat_less_iff of_nat_nat)
  then show ?thesis by (intro exI [of _ "nat (sint i)"]) simp
qed

lemma sint_add_at: "sint x + int k < 2 ^ 63 \<Longrightarrow> sint (x + at k) = sint x + int k"
  for x :: lua_Integer
proof -
  assume h: "sint x + int k < 2 ^ 63"
  then have "k < 2 ^ 64" using sint_ge [of x] by simp
  have "sint (x + at k) = signed_take_bit 63 (sint x + int k)"
  proof -
    have "x + at k = word_of_int (sint x + int k)" by simp
    then show ?thesis by (simp only: signed_of_int) simp
  qed
  also have "\<dots> = sint x + int k"
    using h sint_ge [of x] by (intro signed_take_bit_int_eq_self) simp_all
  finally show ?thesis .
qed

lemma mod_step: "0 < d \<Longrightarrow> 0 < m \<Longrightarrow>
    (if Suc ((m - 1) mod d) = d then 0 else Suc ((m - 1) mod d)) = m mod (d :: nat)"
  by (cases m) (simp_all add: mod_Suc)

lemma thenDo_ret: "thenDo (ret a) m = m"
  by (rule ext) (simp add: prog_simps)

section \<open>The contract\<close>

text \<open>
  \<open>view\<close> is what a table maps an index to, \<open>slot\<close> whether an assignment finds a place for the
  index, \<open>room\<close> whether the table can make a new one, \<open>space\<close> whether it can make a number of
  them one after the other.
\<close>

locale lua_tables =
  fixes A :: "('s, 'e) lua_api"
    and ok :: "'s \<Rightarrow> bool"
    and view :: "'s \<Rightarrow> addr \<Rightarrow> lua_Integer \<Rightarrow> tvalue"
    and slot :: "'s \<Rightarrow> addr \<Rightarrow> lua_Integer \<Rightarrow> bool"
    and room :: "'s \<Rightarrow> addr \<Rightarrow> bool"
    and space :: "'s \<Rightarrow> addr \<Rightarrow> nat \<Rightarrow> bool"
  assumes geti_law: "ok s \<Longrightarrow> geti A t i s = (Inr (view s t i), s)"
    and seti_law: "ok s \<Longrightarrow> slot s t i \<or> room s t \<Longrightarrow>
      \<exists>s'. seti A t i v s = (Inr (), s') \<and> ok s' \<and> view s' = (view s)(t := (view s t)(i := v))"
    and slot_law: "ok s \<Longrightarrow> slot s t i \<Longrightarrow> seti A t i v s = (Inr (), s') \<Longrightarrow>
      slot s' = slot s \<and> room s' = room s"
    and space_room: "space s t (Suc m) \<Longrightarrow> room s t"
    and space_law: "ok s \<Longrightarrow> space s t (Suc m) \<Longrightarrow> seti A t i v s = (Inr (), s') \<Longrightarrow> space s' t m"
    and slot_present: "ok s \<Longrightarrow> view s t i \<noteq> Nil_v \<Longrightarrow> slot s t i"
    and len_law: "ok s \<Longrightarrow> \<exists>l. luaL_len A t s = (Inr l, s) \<and> (\<forall>n < 2 ^ 31. l = at n \<longrightarrow>
      (n = 0 \<or> view s t (at n) \<noteq> Nil_v) \<and> view s t (at (Suc n)) = Nil_v)"
begin

text \<open>An assignment to a place that is there.\<close>

lemma seti_slot:
  assumes "ok s" "slot s t i"
  obtains s' where "seti A t i v s = (Inr (), s')" "ok s'"
    "view s' = (view s)(t := (view s t)(i := v))" "slot s' = slot s" "room s' = room s"
  using seti_law [of s t i v] slot_law [of s t i v] assms by metis

lemma seti_room:
  assumes "ok s" "slot s t i \<or> room s t"
  obtains s' where "seti A t i v s = (Inr (), s')" "ok s'"
    "view s' = (view s)(t := (view s t)(i := v))"
  using seti_law [OF assms] by blast

lemma len_border:
  assumes "ok s" "luaL_len A t s = (Inr (at n), s)" "n < 2 ^ 31"
  shows "n = 0 \<or> view s t (at n) \<noteq> Nil_v" "view s t (at (Suc n)) = Nil_v"
  using len_law [OF assms(1), of t] assms(2,3) by auto

section \<open>Insertion and removal\<close>

lemma shift_up_spec:
  "ok s \<Longrightarrow> p \<le> i \<Longrightarrow> i < 2 ^ 63 \<Longrightarrow> (\<And>k. p \<le> k \<Longrightarrow> k < i \<Longrightarrow> view s t (at k) \<noteq> Nil_v) \<Longrightarrow>
   slot s t (at i) \<or> room s t \<Longrightarrow>
   \<exists>s'. shift_up A t (at p) (at i) s = (Inr (), s') \<and> ok s' \<and>
     (\<forall>u. u \<noteq> t \<longrightarrow> view s' u = view s u) \<and>
     (\<forall>k. p < k \<longrightarrow> k \<le> i \<longrightarrow> view s' t (at k) = view s t (at (k - 1))) \<and>
     (\<forall>j. j \<notin> at ` {p<..i} \<longrightarrow> view s' t j = view s t j) \<and> (p = i \<longrightarrow> s' = s)"
proof (induction "i - p" arbitrary: i s)
  case 0
  then show ?case
    by (subst shift_up.simps) (auto simp: at_less ret_def)
next
  case (Suc d)
  then have i: "p < i" by simp
  have pred: "at i - 1 = at (i - 1)" using i by (intro at_pred) simp
  obtain s1 where s1: "seti A t (at i) (view s t (at (i - 1))) s = (Inr (), s1)" "ok s1"
    "view s1 = (view s)(t := (view s t)(at i := view s t (at (i - 1))))"
    using Suc.prems(1,5) by (rule seti_room)
  have keep: "view s1 t (at k) = view s t (at k)" if "k < i" for k
    using that Suc.prems(3) by (simp add: at_inj s1(3))
  have sl: "slot s1 t (at (i - 1)) \<or> room s1 t"
    using slot_present [OF s1(2), of t "at (i - 1)"] keep [of "i - 1"] Suc.prems(4) [of "i - 1"] i by simp
  have "\<exists>s'. shift_up A t (at p) (at (i - 1)) s1 = (Inr (), s') \<and> ok s' \<and>
     (\<forall>u. u \<noteq> t \<longrightarrow> view s' u = view s1 u) \<and>
     (\<forall>k. p < k \<longrightarrow> k \<le> i - 1 \<longrightarrow> view s' t (at k) = view s1 t (at (k - 1))) \<and>
     (\<forall>j. j \<notin> at ` {p<..i - 1} \<longrightarrow> view s' t j = view s1 t j) \<and> (p = i - 1 \<longrightarrow> s' = s1)"
  proof (rule Suc.hyps(1) [OF _ s1(2)])
    show "view s1 t (at k) \<noteq> Nil_v" if "p \<le> k" "k < i - 1" for k
      using that Suc.prems(4) [of k] keep [of k] by simp
  qed (use Suc.hyps(2) Suc.prems(3) i sl in simp_all)
  then obtain s' where s': "shift_up A t (at p) (at (i - 1)) s1 = (Inr (), s')" "ok s'"
    "\<forall>u. u \<noteq> t \<longrightarrow> view s' u = view s1 u"
    "\<forall>k. p < k \<longrightarrow> k \<le> i - 1 \<longrightarrow> view s' t (at k) = view s1 t (at (k - 1))"
    "\<forall>j. j \<notin> at ` {p<..i - 1} \<longrightarrow> view s' t j = view s1 t j"
    by blast
  have run: "shift_up A t (at p) (at i) s = (Inr (), s')"
    using i Suc.prems(1,3) s1(1) s'(1)
    by (subst shift_up.simps) (simp add: at_less pred prog_simps geti_law del: of_nat_diff)
  have "view s' t (at k) = view s t (at (k - 1))" if "p < k" "k \<le> i" for k
  proof (cases "k = i")
    case True
    then have "at k \<notin> at ` {p<..i - 1}" using Suc.prems(3) by (auto simp: at_inj)
    then show ?thesis using s'(5) True by (simp add: s1(3))
  next
    case False
    then show ?thesis using s'(4) that keep [of "k - 1"] by simp
  qed
  moreover have "view s' t j = view s t j" if j: "j \<notin> at ` {p<..i}" for j
  proof -
    have "j \<noteq> at i" "j \<notin> at ` {p<..i - 1}" using j i by auto
    then show ?thesis using s'(5) by (simp add: s1(3))
  qed
  ultimately show ?case using run s'(2,3) i by (auto simp: s1(3))
qed

lemma shift_down_spec:
  "ok s \<Longrightarrow> p \<le> n \<Longrightarrow> n < 2 ^ 62 \<Longrightarrow> (\<And>k. p \<le> k \<Longrightarrow> k \<le> n \<Longrightarrow> view s t (at k) \<noteq> Nil_v) \<Longrightarrow>
   \<exists>s'. shift_down A t (at n) (at p) s = (Inr (at n), s') \<and> ok s' \<and>
     slot s' = slot s \<and> room s' = room s \<and> (\<forall>u. u \<noteq> t \<longrightarrow> view s' u = view s u) \<and>
     (\<forall>k. p \<le> k \<longrightarrow> k < n \<longrightarrow> view s' t (at k) = view s t (at (Suc k))) \<and>
     (\<forall>j. j \<notin> at ` {p..<n} \<longrightarrow> view s' t j = view s t j)"
proof (induction "n - p" arbitrary: p s)
  case 0
  then show ?case
    by (subst shift_down.simps) (auto simp: at_less ret_def)
next
  case (Suc d)
  then have p: "p < n" by simp
  obtain s1 where s1: "seti A t (at p) (view s t (at (Suc p))) s = (Inr (), s1)" "ok s1"
    "view s1 = (view s)(t := (view s t)(at p := view s t (at (Suc p))))"
    "slot s1 = slot s" "room s1 = room s"
    using Suc.prems(1) slot_present [of s t "at p"] Suc.prems(4) [of p] p by (metis order_refl less_imp_le seti_slot)
  have keep: "view s1 t (at k) = view s t (at k)" if "p < k" "k \<le> n" for k
    using that Suc.prems(3) by (simp add: at_inj s1(3))
  have "\<exists>s'. shift_down A t (at n) (at (Suc p)) s1 = (Inr (at n), s') \<and> ok s' \<and>
     slot s' = slot s1 \<and> room s' = room s1 \<and> (\<forall>u. u \<noteq> t \<longrightarrow> view s' u = view s1 u) \<and>
     (\<forall>k. Suc p \<le> k \<longrightarrow> k < n \<longrightarrow> view s' t (at k) = view s1 t (at (Suc k))) \<and>
     (\<forall>j. j \<notin> at ` {Suc p..<n} \<longrightarrow> view s' t j = view s1 t j)"
  proof (rule Suc.hyps(1) [OF _ s1(2)])
    show "view s1 t (at k) \<noteq> Nil_v" if "Suc p \<le> k" "k \<le> n" for k
      using that Suc.prems(4) [of k] keep [of k] by simp
  qed (use Suc.hyps(2) Suc.prems(3) p in simp_all)
  then obtain s' where s': "shift_down A t (at n) (at (Suc p)) s1 = (Inr (at n), s')" "ok s'"
    "slot s' = slot s" "room s' = room s" "\<forall>u. u \<noteq> t \<longrightarrow> view s' u = view s1 u"
    "\<forall>k. Suc p \<le> k \<longrightarrow> k < n \<longrightarrow> view s' t (at k) = view s1 t (at (Suc k))"
    "\<forall>j. j \<notin> at ` {Suc p..<n} \<longrightarrow> view s' t j = view s1 t j"
    using s1(4,5) by metis
  have run: "shift_down A t (at n) (at p) s = (Inr (at n), s')"
    using p Suc.prems(1,3) s1(1) s'(1)
    by (subst shift_down.simps) (simp add: at_less prog_simps geti_law add.commute)
  have "view s' t (at k) = view s t (at (Suc k))" if "p \<le> k" "k < n" for k
  proof (cases "k = p")
    case True
    then have "at k \<notin> at ` {Suc p..<n}" using Suc.prems(3) p by (auto simp: at_inj simp del: of_nat_Suc)
    then show ?thesis using s'(7) True by (simp add: s1(3))
  next
    case False
    then show ?thesis using s'(6) that keep [of "Suc k"] by simp
  qed
  moreover have "view s' t j = view s t j" if j: "j \<notin> at ` {p..<n}" for j
  proof -
    have "j \<noteq> at p" "j \<notin> at ` {Suc p..<n}" using j p by auto
    then show ?thesis using s'(7) by (simp add: s1(3))
  qed
  ultimately show ?case using run s'(2-5) by (auto simp: s1(3))
qed

text \<open>The elements \<open>1 .. n\<close> of a table as a list.\<close>

definition elems :: "'s \<Rightarrow> addr \<Rightarrow> nat \<Rightarrow> tvalue list" where
  "elems s t n = map (\<lambda>k. view s t (at (Suc k))) [0..<n]"

lemma elems_length [simp]: "length (elems s t n) = n"
  by (simp add: elems_def)

lemma elems_nth: "k < n \<Longrightarrow> elems s t n ! k = view s t (at (Suc k))"
  by (simp add: elems_def)

definition proper_seq :: "'s \<Rightarrow> addr \<Rightarrow> nat \<Rightarrow> bool" where
  "proper_seq s t n \<longleftrightarrow> Nil_v \<notin> set (elems s t n)"

lemma proper_seqD: "proper_seq s t n \<Longrightarrow> 0 < k \<Longrightarrow> k \<le> n \<Longrightarrow> view s t (at k) \<noteq> Nil_v"
proof
  assume h: "proper_seq s t n" "0 < k" "k \<le> n" "view s t (at k) = Nil_v"
  then have "elems s t n ! (k - 1) = Nil_v" "k - 1 < length (elems s t n)"
    using elems_nth [of "k - 1" n s t] by simp_all
  then show False using h(1) nth_mem [of "k - 1" "elems s t n"] by (simp add: proper_seq_def)
qed

lemma insert_spec:
  assumes "ok s" "luaL_len A t s = (Inr (at n), s)" "n < 2 ^ 62" "proper_seq s t n"
    and "slot s t (at (Suc n)) \<or> room s t" "to_integer A p = Some (at q)" "1 \<le> q" "q \<le> Suc n"
  shows "\<exists>s'. tinsert A t [p, v] s = (Inr (), s') \<and> ok s' \<and>
    elems s' t (Suc n) = take (q - 1) (elems s t n) @ v # drop (q - 1) (elems s t n) \<and>
    (\<forall>j. j \<notin> at ` {1..Suc n} \<longrightarrow> view s' t j = view s t j) \<and> (\<forall>u. u \<noteq> t \<longrightarrow> view s' u = view s u)"
proof -
  have pres: "view s t (at k) \<noteq> Nil_v" if "q \<le> k" "k < Suc n" for k
    using that assms(7) by (intro proper_seqD [OF assms(4)]) simp_all
  obtain s1 where s1: "shift_up A t (at q) (at (Suc n)) s = (Inr (), s1)" "ok s1"
    "\<forall>u. u \<noteq> t \<longrightarrow> view s1 u = view s u"
    "\<forall>k. q < k \<longrightarrow> k \<le> Suc n \<longrightarrow> view s1 t (at k) = view s t (at (k - 1))"
    "\<forall>j. j \<notin> at ` {q<..Suc n} \<longrightarrow> view s1 t j = view s t j" "q = Suc n \<longrightarrow> s1 = s"
    using shift_up_spec [OF assms(1,8) _ pres assms(5)] assms(3) by auto
  have "at q \<notin> at ` {q<..Suc n}"
    using assms(3) by (auto simp: at_inj simp del: of_nat_Suc)
  then have q1: "view s1 t (at q) = view s t (at q)" using s1(5) by blast
  have "slot s1 t (at q) \<or> room s1 t"
    using s1(2,6) assms(5,8) pres [of q] q1 slot_present [of s1 t "at q"] by (cases "q = Suc n") auto
  then obtain s2 where s2: "seti A t (at q) v s1 = (Inr (), s2)" "ok s2"
    "view s2 = (view s1)(t := (view s1 t)(at q := v))"
    using s1(2) by (meson seti_room)
  have "1 \<le>s at q" "at q \<le>s at (Suc n)"
    using assms(3,7,8) at_le [of 1 q] at_le [of q "Suc n"] by simp_all
  then have run: "tinsert A t [p, v] s = (Inr (), s2)"
    using assms(2,6) s1(1) s2(1)
    by (simp add: tinsert_def prog_simps luaL_checkinteger_def luaL_argcheck_def add.commute Let_def)
  have "elems s2 t (Suc n) = take (q - 1) (elems s t n) @ v # drop (q - 1) (elems s t n)"
  proof (rule nth_equalityI)
    show "length (elems s2 t (Suc n)) = length (take (q - 1) (elems s t n) @ v # drop (q - 1) (elems s t n))"
      using assms(7,8) by simp
    fix k assume "k < length (elems s2 t (Suc n))"
    then have k: "k < Suc n" by simp
    have e: "elems s2 t (Suc n) ! k = (if Suc k = q then v else view s1 t (at (Suc k)))"
      using k assms(3,8) by (simp add: elems_nth s2(3) at_inj del: of_nat_Suc)
    consider "Suc k < q" | "Suc k = q" | "q < Suc k" by linarith
    then show "elems s2 t (Suc n) ! k = (take (q - 1) (elems s t n) @ v # drop (q - 1) (elems s t n)) ! k"
    proof cases
      case 1
      then have "at (Suc k) \<notin> at ` {q<..Suc n}"
        using k assms(3) by (auto simp: at_inj simp del: of_nat_Suc)
      moreover have "k < q - 1" using 1 by linarith
      ultimately show ?thesis using e 1 assms(8) s1(5) by (simp add: nth_append elems_nth del: of_nat_Suc)
    next
      case 2
      then have "length (take (q - 1) (elems s t n)) = k" using assms(8) by simp
      with 2 e show ?thesis by (simp add: nth_append)
    next
      case 3
      then obtain m where m: "k = Suc m" using assms(7) by (cases k) auto
      then have "elems s2 t (Suc n) ! k = elems s t n ! m"
        using 3 e k s1(4) by (simp add: elems_nth del: of_nat_Suc)
      then show ?thesis using 3 m k assms(7,8) by (auto simp: nth_append min_def)
    qed
  qed
  moreover have "view s2 t j = view s t j" if "j \<notin> at ` {1..Suc n}" for j
  proof -
    have "at ` {q<..Suc n} \<subseteq> at ` {1..Suc n}" by (intro image_mono) auto
    then have "j \<notin> at ` {q<..Suc n}" using that by blast
    moreover have "j \<noteq> at q" using that assms(7,8) by auto
    ultimately show ?thesis using s1(5) by (simp add: s2(3))
  qed
  ultimately show ?thesis using run s2(2) s1(3) by (intro exI [of _ s2]) (auto simp: s2(3))
qed

lemma remove_spec:
  assumes "ok s" "luaL_len A t s = (Inr (at n), s)" "n < 2 ^ 62" "proper_seq s t n"
    and "p = Some i" "i \<noteq> Nil_v" "to_integer A i = Some (at q)" "1 \<le> q" "q \<le> n"
  shows "\<exists>s'. tremove A t p s = (Inr (elems s t n ! (q - 1)), s') \<and> ok s' \<and>
    elems s' t (n - 1) = take (q - 1) (elems s t n) @ drop q (elems s t n) \<and>
    view s' t (at n) = Nil_v \<and> slot s' = slot s \<and> room s' = room s \<and>
    (\<forall>j. j \<notin> at ` {1..n} \<longrightarrow> view s' t j = view s t j) \<and> (\<forall>u. u \<noteq> t \<longrightarrow> view s' u = view s u)"
proof -
  have pres: "view s t (at k) \<noteq> Nil_v" if "q \<le> k" "k \<le> n" for k
    using that assms(8) by (intro proper_seqD [OF assms(4)]) simp_all
  obtain s1 where s1: "shift_down A t (at n) (at q) s = (Inr (at n), s1)" "ok s1"
    "slot s1 = slot s" "room s1 = room s" "\<forall>u. u \<noteq> t \<longrightarrow> view s1 u = view s u"
    "\<forall>k. q \<le> k \<longrightarrow> k < n \<longrightarrow> view s1 t (at k) = view s t (at (Suc k))"
    "\<forall>j. j \<notin> at ` {q..<n} \<longrightarrow> view s1 t j = view s t j"
    using shift_down_spec [OF assms(1,9,3) pres] by auto
  have "slot s1 t (at n)"
    using slot_present [OF assms(1), of t "at n"] pres [of n] assms(9) s1(3) by simp
  then obtain s2 where s2: "seti A t (at n) Nil_v s1 = (Inr (), s2)" "ok s2"
    "view s2 = (view s1)(t := (view s1 t)(at n := Nil_v))" "slot s2 = slot s1" "room s2 = room s1"
    using s1(2) by (meson seti_slot)
  have "1 \<le>s at q" "at q \<le>s at n + 1"
    using assms(3,8,9) at_le [of 1 q] at_le [of q "Suc n"] by (simp_all add: add.commute)
  moreover have "at q = at n \<longleftrightarrow> q = n" using assms(3,9) by (intro at_inj) simp_all
  ultimately have run: "tremove A t p s = (Inr (view s t (at q)), s2)"
    using assms(1,2,5-7) s1(1) s2(1)
    by (auto simp: tremove_def prog_simps luaL_optinteger_def luaL_checkinteger_def luaL_argcheck_def geti_law)
  have q: "elems s t n ! (q - 1) = view s t (at q)"
    using elems_nth [of "q - 1" n s t] assms(8,9) by simp
  have "elems s2 t (n - 1) = take (q - 1) (elems s t n) @ drop q (elems s t n)"
  proof (rule nth_equalityI)
    show "length (elems s2 t (n - 1)) = length (take (q - 1) (elems s t n) @ drop q (elems s t n))"
      using assms(8,9) by simp
    fix k assume "k < length (elems s2 t (n - 1))"
    then have k: "Suc k < n" by simp
    have e: "elems s2 t (n - 1) ! k = view s1 t (at (Suc k))"
      using k assms(3) by (simp add: elems_nth s2(3) at_inj del: of_nat_Suc)
    show "elems s2 t (n - 1) ! k = (take (q - 1) (elems s t n) @ drop q (elems s t n)) ! k"
    proof (cases "Suc k < q")
      case True
      then have "at (Suc k) \<notin> at ` {q..<n}"
        using k assms(3) by (auto simp: at_inj simp del: of_nat_Suc)
      moreover have "k < q - 1" using True by linarith
      ultimately show ?thesis using e assms(9) s1(7) by (simp add: nth_append elems_nth del: of_nat_Suc)
    next
      case False
      then have "elems s2 t (n - 1) ! k = elems s t n ! Suc k"
        using e k s1(6) by (simp add: elems_nth del: of_nat_Suc)
      then show ?thesis using False k assms(8,9) by (auto simp: nth_append min_def)
    qed
  qed
  moreover have "view s2 t j = view s t j" if "j \<notin> at ` {1..n}" for j
  proof -
    have "at ` {q..<n} \<subseteq> at ` {1..n}" using assms(8) by (intro image_mono) auto
    then have "j \<notin> at ` {q..<n}" using that by blast
    moreover have "j \<noteq> at n" using that assms(8,9) by auto
    ultimately show ?thesis using s1(7) by (simp add: s2(3))
  qed
  ultimately show ?thesis
    using run q s2(2,4,5) s1(3-5) by (intro exI [of _ s2]) (auto simp: s2(3))
qed

section \<open>Moving\<close>

text \<open>
  The loops of \<open>tmove\<close> copy what was there before, as long as no element is overwritten before
  it has been read.
\<close>

text \<open>The destinations still to be written have their places, or there is space for them all.\<close>

definition fits :: "'s \<Rightarrow> addr \<Rightarrow> lua_Integer \<Rightarrow> nat set \<Rightarrow> bool" where
  "fits s b t I \<longleftrightarrow> (\<forall>k \<in> I. slot s b (t + at k)) \<or> space s b (card I)"

lemma fits_seti:
  assumes "ok s" "fits s b t I" "finite I" "k \<in> I"
  obtains s' where "seti A b (t + at k) v s = (Inr (), s')" "ok s'"
    "view s' = (view s)(b := (view s b)(t + at k := v))" "fits s' b t (I - {k})"
proof (cases "\<forall>k \<in> I. slot s b (t + at k)")
  case True
  then obtain s' where s': "seti A b (t + at k) v s = (Inr (), s')" "ok s'"
    "view s' = (view s)(b := (view s b)(t + at k := v))" "slot s' = slot s"
    using assms(1,4) seti_slot by metis
  moreover have "fits s' b t (I - {k})" using True s'(4) by (simp add: fits_def)
  ultimately show ?thesis using that by blast
next
  case False
  have "card I = Suc (card (I - {k}))" by (rule card.remove [OF assms(3,4)])
  then have sp: "space s b (Suc (card (I - {k})))" using False assms(2) by (auto simp: fits_def)
  then obtain s' where s': "seti A b (t + at k) v s = (Inr (), s')" "ok s'"
    "view s' = (view s)(b := (view s b)(t + at k := v))"
    using assms(1) space_room seti_room by metis
  moreover have "fits s' b t (I - {k})" using space_law [OF assms(1) sp s'(1)] by (simp add: fits_def)
  ultimately show ?thesis using that by blast
qed

lemma up_rest: "{i..<n} - {i} = {Suc i..<n}"
  by auto

lemma down_rest: "{..<Suc n} - {n} = {..<n}"
  by auto

lemma move_up_spec:
  "ok s \<Longrightarrow> i \<le> n \<Longrightarrow> n < 2 ^ 63 \<Longrightarrow> fits s b t {i..<n} \<Longrightarrow>
   (\<And>j k. a = b \<Longrightarrow> i \<le> j \<Longrightarrow> j < k \<Longrightarrow> k < n \<Longrightarrow> t + at j \<noteq> f + at k) \<Longrightarrow>
   \<exists>s'. move_up A a b f t (at n) (at i) s = (Inr (), s') \<and> ok s' \<and>
     (\<forall>k. i \<le> k \<longrightarrow> k < n \<longrightarrow> view s' b (t + at k) = view s a (f + at k)) \<and>
     (\<forall>u j. u \<noteq> b \<or> j \<notin> (\<lambda>k. t + at k) ` {i..<n} \<longrightarrow> view s' u j = view s u j)"
proof (induction "n - i" arbitrary: i s)
  case 0
  then show ?case by (subst move_up.simps) (auto simp: at_less ret_def)
next
  case (Suc d)
  then have i: "i < n" by simp
  obtain s1 where s1: "seti A b (t + at i) (view s a (f + at i)) s = (Inr (), s1)" "ok s1"
    "view s1 = (view s)(b := (view s b)(t + at i := view s a (f + at i)))"
    "fits s1 b t {Suc i..<n}"
    using fits_seti [OF Suc.prems(1,4), of i] i unfolding up_rest by auto
  have source: "view s1 a (f + at k) = view s a (f + at k)" if "i < k" "k < n" for k
    using Suc.prems(5) [of i k] that by (auto simp: s1(3))
  have "\<exists>s'. move_up A a b f t (at n) (at (Suc i)) s1 = (Inr (), s') \<and> ok s' \<and>
     (\<forall>k. Suc i \<le> k \<longrightarrow> k < n \<longrightarrow> view s' b (t + at k) = view s1 a (f + at k)) \<and>
     (\<forall>u j. u \<noteq> b \<or> j \<notin> (\<lambda>k. t + at k) ` {Suc i..<n} \<longrightarrow> view s' u j = view s1 u j)"
  proof (rule Suc.hyps(1) [OF _ s1(2)])
    show "t + at j \<noteq> f + at k" if "a = b" "Suc i \<le> j" "j < k" "k < n" for j k
      using that Suc.prems(5) [of j k] by simp
  qed (use Suc.hyps(2) Suc.prems(3) i s1(4) in simp_all)
  then obtain s' where s': "move_up A a b f t (at n) (at (Suc i)) s1 = (Inr (), s')" "ok s'"
    "\<forall>k. Suc i \<le> k \<longrightarrow> k < n \<longrightarrow> view s' b (t + at k) = view s1 a (f + at k)"
    "\<forall>u j. u \<noteq> b \<or> j \<notin> (\<lambda>k. t + at k) ` {Suc i..<n} \<longrightarrow> view s' u j = view s1 u j"
    by metis
  have run: "move_up A a b f t (at n) (at i) s = (Inr (), s')"
    using i Suc.prems(1,3) s1(1) s'(1)
    by (subst move_up.simps) (simp add: at_less prog_simps geti_law add.commute)
  have "view s' b (t + at k) = view s a (f + at k)" if "i \<le> k" "k < n" for k
  proof (cases "k = i")
    case True
    then have "t + at k \<notin> (\<lambda>k. t + at k) ` {Suc i..<n}"
      using Suc.prems(3) i by (auto simp: at_inj simp del: of_nat_Suc)
    then show ?thesis using s'(4) True by (simp add: s1(3))
  next
    case False
    then show ?thesis using s'(3) that source [of k] by simp
  qed
  moreover have "view s' u j = view s u j" if "u \<noteq> b \<or> j \<notin> (\<lambda>k. t + at k) ` {i..<n}" for u j
  proof -
    have "u \<noteq> b \<or> j \<notin> (\<lambda>k. t + at k) ` {Suc i..<n}" "u \<noteq> b \<or> j \<noteq> t + at i" using that i by auto
    then show ?thesis using s'(4) by (auto simp: s1(3))
  qed
  ultimately show ?case using run s'(2) by blast
qed

lemma move_down_spec:
  "ok s \<Longrightarrow> n < 2 ^ 63 \<Longrightarrow> fits s b t {..<n} \<Longrightarrow>
   (\<And>j k. a = b \<Longrightarrow> k < j \<Longrightarrow> j < n \<Longrightarrow> t + at j \<noteq> f + at k) \<Longrightarrow>
   \<exists>s'. move_down A a b f t (at n - 1) s = (Inr (), s') \<and> ok s' \<and>
     (\<forall>k < n. view s' b (t + at k) = view s a (f + at k)) \<and>
     (\<forall>u j. u \<noteq> b \<or> j \<notin> (\<lambda>k. t + at k) ` {..<n} \<longrightarrow> view s' u j = view s u j)"
proof (induction n arbitrary: s)
  case 0
  then show ?case by (subst move_down.simps) (auto simp: word_sle_eq ret_def)
next
  case (Suc n)
  obtain s1 where s1: "seti A b (t + at n) (view s a (f + at n)) s = (Inr (), s1)" "ok s1"
    "view s1 = (view s)(b := (view s b)(t + at n := view s a (f + at n)))"
    "fits s1 b t {..<n}"
    using fits_seti [OF Suc.prems(1,3), of n] unfolding down_rest by auto
  have source: "view s1 a (f + at k) = view s a (f + at k)" if "k < n" for k
    using Suc.prems(4) [of k n] that by (auto simp: s1(3))
  have "\<exists>s'. move_down A a b f t (at n - 1) s1 = (Inr (), s') \<and> ok s' \<and>
     (\<forall>k < n. view s' b (t + at k) = view s1 a (f + at k)) \<and>
     (\<forall>u j. u \<noteq> b \<or> j \<notin> (\<lambda>k. t + at k) ` {..<n} \<longrightarrow> view s' u j = view s1 u j)"
  proof (rule Suc.IH [OF s1(2)])
    show "t + at j \<noteq> f + at k" if "a = b" "k < j" "j < n" for j k
      using that Suc.prems(4) [of k j] by simp
  qed (use Suc.prems(2) s1(4) in simp_all)
  then obtain s' where s': "move_down A a b f t (at n - 1) s1 = (Inr (), s')" "ok s'"
    "\<forall>k < n. view s' b (t + at k) = view s1 a (f + at k)"
    "\<forall>u j. u \<noteq> b \<or> j \<notin> (\<lambda>k. t + at k) ` {..<n} \<longrightarrow> view s' u j = view s1 u j"
    by metis
  have "0 \<le>s at n" using at_le [of 0 n] Suc.prems(2) by simp
  then have run: "move_down A a b f t (at (Suc n) - 1) s = (Inr (), s')"
    using Suc.prems(1) s1(1) s'(1) by (subst move_down.simps) (simp add: prog_simps geti_law)
  have "view s' b (t + at k) = view s a (f + at k)" if "k < Suc n" for k
  proof (cases "k = n")
    case True
    then have "t + at k \<notin> (\<lambda>k. t + at k) ` {..<n}" using Suc.prems(2) by (auto simp: at_inj)
    then show ?thesis using s'(4) True by (simp add: s1(3))
  next
    case False
    then show ?thesis using s'(3) that source [of k] by simp
  qed
  moreover have "view s' u j = view s u j" if "u \<noteq> b \<or> j \<notin> (\<lambda>k. t + at k) ` {..<Suc n}" for u j
  proof -
    have "u \<noteq> b \<or> j \<notin> (\<lambda>k. t + at k) ` {..<n}" "u \<noteq> b \<or> j \<noteq> t + at n" using that by auto
    then show ?thesis using s'(4) by (auto simp: s1(3))
  qed
  ultimately show ?case using run s'(2) by blast
qed

text \<open>
  Copying upwards onto a later part of the same range repeats the first elements.
\<close>

lemma move_up_smear:
  "ok s \<Longrightarrow> i \<le> n \<Longrightarrow> n + d < 2 ^ 63 \<Longrightarrow> 0 < d \<Longrightarrow>
   fits s a (f + at d) {i..<n} \<Longrightarrow>
   \<exists>s'. move_up A a a f (f + at d) (at n) (at i) s = (Inr (), s') \<and> ok s' \<and>
     (\<forall>k. i \<le> k \<longrightarrow> k < n \<longrightarrow> view s' a (f + at d + at k) = view s a (f + at (i + (k - i) mod d))) \<and>
     (\<forall>j. j \<notin> (\<lambda>k. f + at d + at k) ` {i..<n} \<longrightarrow> view s' a j = view s a j)"
proof (induction "n - i" arbitrary: i s)
  case 0
  then show ?case by (subst move_up.simps) (auto simp: at_less ret_def)
next
  case (Suc c)
  then have i: "i < n" by simp
  let ?t = "f + at d"
  obtain s1 where s1: "seti A a (?t + at i) (view s a (f + at i)) s = (Inr (), s1)" "ok s1"
    "view s1 = (view s)(a := (view s a)(?t + at i := view s a (f + at i)))" "fits s1 a ?t {Suc i..<n}"
    using fits_seti [OF Suc.prems(1,5), of i] i unfolding up_rest by auto
  have "\<exists>s'. move_up A a a f ?t (at n) (at (Suc i)) s1 = (Inr (), s') \<and> ok s' \<and>
     (\<forall>k. Suc i \<le> k \<longrightarrow> k < n \<longrightarrow> view s' a (?t + at k) = view s1 a (f + at (Suc i + (k - Suc i) mod d))) \<and>
     (\<forall>j. j \<notin> (\<lambda>k. ?t + at k) ` {Suc i..<n} \<longrightarrow> view s' a j = view s1 a j)"
  proof (rule Suc.hyps(1) [OF _ s1(2)])
  qed (use Suc.hyps(2) Suc.prems(3,4) i s1(4) in simp_all)
  then obtain s' where s': "move_up A a a f ?t (at n) (at (Suc i)) s1 = (Inr (), s')" "ok s'"
    "\<And>k. Suc i \<le> k \<Longrightarrow> k < n \<Longrightarrow> view s' a (?t + at k) = view s1 a (f + at (Suc i + (k - Suc i) mod d))"
    "\<forall>j. j \<notin> (\<lambda>k. ?t + at k) ` {Suc i..<n} \<longrightarrow> view s' a j = view s1 a j"
    by blast
  have run: "move_up A a a f ?t (at n) (at i) s = (Inr (), s')"
    using i Suc.prems(1,3) s1(1) s'(1)
    by (subst move_up.simps) (simp add: at_less prog_simps geti_law add.commute)
  have "view s' a (?t + at k) = view s a (f + at (i + (k - i) mod d))" if k: "i \<le> k" "k < n" for k
  proof (cases "k = i")
    case True
    then have "?t + at k \<notin> (\<lambda>k. ?t + at k) ` {Suc i..<n}"
      using Suc.prems(3) i by (auto simp: at_inj simp del: of_nat_Suc)
    then show ?thesis using s'(4) True by (simp add: s1(3))
  next
    case False
    define r where "r = (k - Suc i) mod d"
    have r: "r < d" using Suc.prems(4) by (simp add: r_def)
    have m: "(if Suc r = d then 0 else Suc r) = (k - i) mod d"
      using mod_step [OF Suc.prems(4), of "k - i"] k(1) False by (auto simp: r_def split: if_splits)
    have "?t + at i = f + at (i + d)" by (simp add: ac_simps)
    moreover have "f + at (Suc i + r) = f + at (i + d) \<longleftrightarrow> Suc r = d"
      using at_inj [of "Suc i + r" "i + d"] r Suc.prems(3) i by (auto simp del: of_nat_Suc of_nat_add)
    ultimately have "view s1 a (f + at (Suc i + r)) = view s a (f + at (i + (k - i) mod d))"
      by (simp add: s1(3) m [symmetric] del: of_nat_Suc of_nat_add)
    then show ?thesis using s'(3) [of k] k False by (simp add: r_def)
  qed
  moreover have "view s' a j = view s a j" if "j \<notin> (\<lambda>k. ?t + at k) ` {i..<n}" for j
  proof -
    have "j \<notin> (\<lambda>k. ?t + at k) ` {Suc i..<n}" "j \<noteq> ?t + at i" using that i by auto
    then show ?thesis using s'(4) by (simp add: s1(3))
  qed
  ultimately show ?case using run s'(2) by blast
qed

text \<open>The range that a call of \<open>tmove\<close> copies, when its arguments pass the checks.\<close>

definition move_args :: "tvalue \<Rightarrow> tvalue \<Rightarrow> tvalue \<Rightarrow> lua_Integer \<Rightarrow> lua_Integer \<Rightarrow> nat \<Rightarrow> bool" where
  "move_args fv ev tv f t n \<longleftrightarrow>
     to_integer A fv = Some f \<and> to_integer A ev = Some (f + at n - 1) \<and> to_integer A tv = Some t \<and>
     0 < n \<and> n < 2 ^ 63 \<and> sint f + int n \<le> 2 ^ 63 \<and> sint t + int n \<le> 2 ^ 63"

lemma move_end:
  assumes "move_args fv ev tv f t n"
  shows "sint (f + at n - 1) = sint f + int n - 1"
proof -
  obtain m where n: "n = Suc m" using assms by (cases n) (auto simp: move_args_def)
  then have "sint (f + at m) = sint f + int m"
    using assms by (intro sint_add_at) (simp add: move_args_def)
  then show ?thesis by (simp add: n)
qed

lemma sint_range: "- (2 ^ 63) \<le> sint x" "sint x < 2 ^ 63" for x :: lua_Integer
  using sint_ge [of x] sint_lt [of x] by simp_all

lemma sint_plus: "- (2 ^ 63) \<le> sint x + sint y \<Longrightarrow> sint x + sint y < 2 ^ 63 \<Longrightarrow>
    sint (x + y) = sint x + sint y" for x y :: lua_Integer
  by (simp add: sint_word_ariths signed_take_bit_int_eq_self)

lemma sint_minus: "- (2 ^ 63) \<le> sint x - sint y \<Longrightarrow> sint x - sint y < 2 ^ 63 \<Longrightarrow>
    sint (x - y) = sint x - sint y" for x y :: lua_Integer
  by (simp add: sint_word_ariths signed_take_bit_int_eq_self)

lemma move_checks:
  assumes "move_args fv ev tv f t n"
  shows "f \<le>s f + at n - 1" "0 <s f \<or> f + at n - 1 <s LUA_MAXINTEGER + f"
    and "t \<le>s LUA_MAXINTEGER - at n + 1" "f + at n - 1 - f + 1 = at n"
proof -
  note e = move_end [OF assms]
  have n: "0 < n" "n < 2 ^ 63" "sint t + int n \<le> 2 ^ 63" "sint (at n) = int n"
    using assms by (simp_all add: move_args_def sint_at)
  show "f \<le>s f + at n - 1" using e n by (simp add: word_sle_eq)
  have M: "sint LUA_MAXINTEGER = 2 ^ 63 - 1" by (simp add: LUA_MAXINTEGER_def)
  show "0 <s f \<or> f + at n - 1 <s LUA_MAXINTEGER + f"
  proof (cases "0 < sint f")
    case False
    then have "sint (LUA_MAXINTEGER + f) = 2 ^ 63 - 1 + sint f"
      using M sint_range [of f] by (subst sint_plus) simp_all
    then show ?thesis using e n by (simp add: word_sless_alt)
  qed (simp add: word_sless_alt)
  have "sint (LUA_MAXINTEGER - at n) = 2 ^ 63 - 1 - int n"
    using M n by (subst sint_minus) simp_all
  then have "sint (LUA_MAXINTEGER - at n + 1) = 2 ^ 63 - int n"
    using n sint_plus [of "LUA_MAXINTEGER - at n" 1] by simp
  then show "t \<le>s LUA_MAXINTEGER - at n + 1" using n by (simp add: word_sle_eq)
  show "f + at n - 1 - f + 1 = at n" by simp
qed

lemma tmove_run:
  assumes "move_args fv ev tv f t n"
  shows "tmove A a fv ev tv b =
    (let tt = (case b of Some x \<Rightarrow> x | None \<Rightarrow> a) in
     thenDo (if f + at n - 1 <s t \<or> t \<le>s f \<or> b \<noteq> None then move_up A a tt f t (at n) 0
             else move_down A a tt f t (at n - 1)) (ret tt))"
proof -
  have i: "to_integer A fv = Some f" "to_integer A ev = Some (f + at n - 1)" "to_integer A tv = Some t"
    using assms by (simp_all add: move_args_def)
  show ?thesis
    using i move_checks [OF assms]
    by (simp add: tmove_def luaL_checkinteger_def luaL_argcheck_def andThen_ret thenDo_ret Let_def)
qed

lemma move_disjoint:
  assumes "move_args fv ev tv f t n" "j < n" "k < n"
  shows "sint (t + at j) = sint t + int j" "sint (f + at k) = sint f + int k"
  using assms by (simp_all add: move_args_def sint_add_at)

lemma tmove_copies:
  assumes "ok s" "move_args fv ev tv f t n"
    and "tt = (case b of Some x \<Rightarrow> x | None \<Rightarrow> a)"
    and "fits s tt t {..<n}"
    and "b = None \<or> tt \<noteq> a \<or> t \<le>s f \<or> f + at n - 1 <s t"
  shows "\<exists>s'. tmove A a fv ev tv b s = (Inr tt, s') \<and> ok s' \<and>
    (\<forall>k < n. view s' tt (t + at k) = view s a (f + at k)) \<and>
    (\<forall>u j. u \<noteq> tt \<or> j \<notin> (\<lambda>k. t + at k) ` {..<n} \<longrightarrow> view s' u j = view s u j)"
proof -
  have n: "n < 2 ^ 63" using assms(2) by (simp add: move_args_def)
  note d = move_disjoint [OF assms(2)] and e = move_end [OF assms(2)]
  show ?thesis
  proof (cases "f + at n - 1 <s t \<or> t \<le>s f \<or> b \<noteq> None")
    case True
    then have run: "tmove A a fv ev tv b = thenDo (move_up A a tt f t (at n) (at 0)) (ret tt)"
      unfolding tmove_run [OF assms(2)] Let_def assms(3) by simp
    show ?thesis
    proof (rule move_up_spec [of s 0 n tt t a f, THEN exE])
      show "t + at j \<noteq> f + at k" if "a = tt" "0 \<le> j" "j < k" "k < n" for j k
      proof -
        have "t \<le>s f \<or> f + at n - 1 <s t" using assms(5) True that by auto
        then have "sint t + int j \<noteq> sint f + int k"
          using that e by (auto simp: word_sle_eq word_sless_alt)
        then show ?thesis using d [of j k] that by (metis order.strict_trans)
      qed
      fix s'
      assume "move_up A a tt f t (at n) (at 0) s = (Inr (), s') \<and> ok s' \<and>
        (\<forall>k. 0 \<le> k \<longrightarrow> k < n \<longrightarrow> view s' tt (t + at k) = view s a (f + at k)) \<and>
        (\<forall>u j. u \<noteq> tt \<or> j \<notin> (\<lambda>k. t + at k) ` {0..<n} \<longrightarrow> view s' u j = view s u j)"
      then show ?thesis
        unfolding lessThan_atLeast0 run by (intro exI [of _ s']) (simp add: prog_simps)
    qed (use assms(1,4) n in \<open>simp_all add: lessThan_atLeast0\<close>)
  next
    case False
    then have run: "tmove A a fv ev tv b = thenDo (move_down A a tt f t (at n - 1)) (ret tt)"
      unfolding tmove_run [OF assms(2)] Let_def assms(3) by simp
    show ?thesis
    proof (rule move_down_spec [of s n tt t a f, THEN exE])
      show "t + at j \<noteq> f + at k" if "a = tt" "k < j" "j < n" for j k
      proof -
        have "sint f < sint t" using False by (simp add: word_sle_eq)
        then have "sint (t + at j) \<noteq> sint (f + at k)" using d [of j k] that by simp
        then show ?thesis by metis
      qed
      fix s'
      assume "move_down A a tt f t (at n - 1) s = (Inr (), s') \<and> ok s' \<and>
        (\<forall>k < n. view s' tt (t + at k) = view s a (f + at k)) \<and>
        (\<forall>u j. u \<noteq> tt \<or> j \<notin> (\<lambda>k. t + at k) ` {..<n} \<longrightarrow> view s' u j = view s u j)"
      then show ?thesis unfolding run by (intro exI [of _ s']) (simp add: prog_simps)
    qed (use assms(1,4) n in simp_all)
  qed
qed

text \<open>
  The destination given explicitly as the same table is treated as another one: when it
  lies inside the range, the copy goes upwards and repeats the elements before it.
\<close>

lemma tmove_smears:
  assumes "ok s" "move_args fv ev tv f (f + at d) n" "0 < d" "d < n" "n + d < 2 ^ 63"
    and "fits s a (f + at d) {..<n}"
  shows "\<exists>s'. tmove A a fv ev tv (Some a) s = (Inr a, s') \<and> ok s' \<and>
    (\<forall>k < n. view s' a (f + at d + at k) = view s a (f + at (k mod d)))"
proof -
  obtain s' where "move_up A a a f (f + at d) (at n) (at 0) s = (Inr (), s')" "ok s'"
    "\<forall>k. 0 \<le> k \<longrightarrow> k < n \<longrightarrow> view s' a (f + at d + at k) = view s a (f + at (0 + (k - 0) mod d))"
    using move_up_smear [OF assms(1), of 0 n d a f] assms(3-6) by (auto simp: lessThan_atLeast0)
  then show ?thesis
    by (intro exI [of _ s']) (simp add: tmove_run [OF assms(2)] prog_simps)
qed

end

end
