(* ===== verification/LuaSortProps.thy ===== *)
theory LuaSortProps
  imports LuaSort LuaTabLibProps "HOL-Library.Multiset"
begin

text \<open>
  Correctness of \<open>table.sort\<close> under the contract \<open>lua_tables\<close>: for any order function the sort
  ends, stays inside the array, reports at most the error of the order function or "invalid order
  function", and leaves a permutation of the elements; with a strict weak order it never fails and
  the result is sorted.
\<close>

section \<open>Arrays as functions\<close>

text \<open>A permutation of the elements \<open>l .. u\<close> that leaves the others alone.\<close>

definition permr :: "nat \<Rightarrow> nat \<Rightarrow> (nat \<Rightarrow> 'a) \<Rightarrow> (nat \<Rightarrow> 'a) \<Rightarrow> bool" where
  "permr l u f g \<longleftrightarrow> (\<forall>k. k < l \<or> u < k \<longrightarrow> g k = f k) \<and>
     image_mset g (mset_set {l..u}) = image_mset f (mset_set {l..u})"

lemma permr_refl [simp, intro]: "permr l u f f"
  by (simp add: permr_def)

lemma permr_trans [trans]: "permr l u f g \<Longrightarrow> permr l u g h \<Longrightarrow> permr l u f h"
  by (simp add: permr_def)

lemma permr_mono:
  assumes "permr l' u' f g" "l \<le> l'" "u' \<le> u"
  shows "permr l u f g"
proof -
  have "{l..u} = {l'..u'} \<union> ({l..u} - {l'..u'})" using assms(2,3) by auto
  then have "mset_set {l..u} = mset_set {l'..u'} + mset_set ({l..u} - {l'..u'})"
    by (metis Diff_disjoint finite_Diff finite_atLeastAtMost mset_set_Union)
  moreover have "image_mset g (mset_set ({l..u} - {l'..u'})) = image_mset f (mset_set ({l..u} - {l'..u'}))"
    using assms(1) by (intro image_mset_cong) (auto simp: permr_def)
  ultimately show ?thesis using assms by (auto simp: permr_def)
qed

lemma permr_mem:
  assumes "permr l u f g" "l \<le> k" "k \<le> u"
  shows "\<exists>j. l \<le> j \<and> j \<le> u \<and> g k = f j"
proof -
  have "g k \<in># image_mset g (mset_set {l..u})" using assms(2,3) by simp
  moreover have "image_mset g (mset_set {l..u}) = image_mset f (mset_set {l..u})"
    using assms(1) by (simp add: permr_def)
  ultimately have "g k \<in># image_mset f (mset_set {l..u})" by (simp only:)
  then show ?thesis by auto
qed

lemma permr_outside: "permr l u f g \<Longrightarrow> k < l \<or> u < k \<Longrightarrow> g k = f k"
  unfolding permr_def by blast

lemma permr_swap:
  assumes "l \<le> i" "i \<le> u" "l \<le> j" "j \<le> u"
  shows "permr l u f (f(i := f j, j := f i))"
proof (cases "i = j")
  case True
  then show ?thesis by simp
next
  case False
  let ?R = "{l..u} - {i, j}"
  have "{l..u} = insert i (insert j ?R)" using assms by auto
  then have "mset_set {l..u} = add_mset i (add_mset j (mset_set ?R))"
    using False by (metis Diff_iff finite_Diff finite_atLeastAtMost finite_insert insertCI
        insertE mset_set.insert)
  moreover have "image_mset (f(i := f j, j := f i)) (mset_set ?R) = image_mset f (mset_set ?R)"
    by (intro image_mset_cong) auto
  ultimately show ?thesis using False assms by (auto simp: permr_def)
qed

section \<open>Orders\<close>

definition strict_weak :: "('a \<Rightarrow> 'a \<Rightarrow> bool) \<Rightarrow> bool" where
  "strict_weak below \<longleftrightarrow> (\<forall>x y. below x y \<longrightarrow> \<not> below y x) \<and>
     (\<forall>x y z. \<not> below x y \<longrightarrow> \<not> below y z \<longrightarrow> \<not> below x z)"

lemma strict_weak_asym: "strict_weak below \<Longrightarrow> below x y \<Longrightarrow> \<not> below y x"
  unfolding strict_weak_def by blast

lemma strict_weak_irrefl: "strict_weak below \<Longrightarrow> \<not> below x x"
  by (rule notI) (frule (1) strict_weak_asym, erule (1) notE)

lemma strict_weak_trans:
  assumes "strict_weak below" "\<not> below y x" "\<not> below z y"
  shows "\<not> below z x"
proof -
  have "\<forall>x y z. \<not> below x y \<longrightarrow> \<not> below y z \<longrightarrow> \<not> below x z"
    using assms(1) unfolding strict_weak_def by (rule conjunct2)
  from this [rule_format, OF assms(3,2)] show ?thesis .
qed

definition sorted_on :: "('a \<Rightarrow> 'a \<Rightarrow> bool) \<Rightarrow> nat \<Rightarrow> nat \<Rightarrow> (nat \<Rightarrow> 'a) \<Rightarrow> bool" where
  "sorted_on below l u f \<longleftrightarrow> (\<forall>i j. l \<le> i \<longrightarrow> i \<le> j \<longrightarrow> j \<le> u \<longrightarrow> \<not> below (f j) (f i))"

definition split_at :: "('a \<Rightarrow> 'a \<Rightarrow> bool) \<Rightarrow> nat \<Rightarrow> nat \<Rightarrow> nat \<Rightarrow> (nat \<Rightarrow> 'a) \<Rightarrow> bool" where
  "split_at below l m u f \<longleftrightarrow> (\<forall>k. l \<le> k \<longrightarrow> k \<le> m \<longrightarrow> \<not> below (f m) (f k)) \<and>
     (\<forall>k. m \<le> k \<longrightarrow> k \<le> u \<longrightarrow> \<not> below (f k) (f m))"

lemma sorted_join:
  assumes below: "strict_weak below" and sp: "split_at below l m u f" and m: "l < m" "m < u"
    and lower: "permr l (m - 1) f g" "sorted_on below l (m - 1) g"
    and upper: "permr (m + 1) u g h" "sorted_on below (m + 1) u h"
  shows "sorted_on below l u h"
proof -
  have gh: "h k = g k" if "k \<le> m" for k using permr_outside [OF upper(1)] that by simp
  have fg: "g k = f k" if "m \<le> k" for k
    using permr_outside [OF lower(1), of k] m that by simp
  have low: "\<not> below (f m) (h k)" if k: "l \<le> k" "k \<le> m" for k
  proof (cases "k = m")
    case True
    then show ?thesis using gh [of m] fg [of m] strict_weak_irrefl [OF below] by simp
  next
    case False
    then have "k \<le> m - 1" using k by simp
    then obtain j where "l \<le> j" "j \<le> m - 1" "g k = f j"
      using permr_mem [OF lower(1) k(1)] by blast
    then show ?thesis using sp gh [OF k(2)] by (simp add: split_at_def)
  qed
  have high: "\<not> below (h k) (f m)" if k: "m \<le> k" "k \<le> u" for k
  proof (cases "k = m")
    case True
    then show ?thesis using gh [of m] fg [of m] strict_weak_irrefl [OF below] by simp
  next
    case False
    then obtain j where "m + 1 \<le> j" "j \<le> u" "h k = g j"
      using permr_mem [OF upper(1), of k] k by auto
    then show ?thesis using sp fg [of j] by (simp add: split_at_def)
  qed
  show ?thesis
    unfolding sorted_on_def
  proof (intro allI impI)
    fix i j assume ij: "l \<le> i" "i \<le> j" "j \<le> u"
    consider "j < m" | "m < i" | "i \<le> m" "m \<le> j" by linarith
    then show "\<not> below (h j) (h i)"
    proof cases
      case 1
      then show ?thesis using lower(2) ij gh [of i] gh [of j] by (simp add: sorted_on_def)
    next
      case 2
      then show ?thesis using upper(2) ij by (simp add: sorted_on_def)
    next
      case 3
      then show ?thesis
        using strict_weak_trans [OF below low [of i] high [of j]] ij by simp
    qed
  qed
qed

section \<open>Unsigned indices\<close>

abbreviation ix :: "nat \<Rightarrow> u32" where
  "ix k \<equiv> of_nat k"

lemma unat_ix: "k < 2 ^ 32 \<Longrightarrow> unat (ix k) = k"
  by (simp add: unat_of_nat)

lemma ix_at: "k < 2 ^ 32 \<Longrightarrow> ucast (ix k) = at k"
  by (metis of_nat_unat unat_ix)

lemma ix_less: "j < 2 ^ 32 \<Longrightarrow> k < 2 ^ 32 \<Longrightarrow> ix j < ix k \<longleftrightarrow> j < k"
  by (simp add: word_less_nat_alt unat_ix)

lemma ix_inj: "j < 2 ^ 32 \<Longrightarrow> k < 2 ^ 32 \<Longrightarrow> ix j = ix k \<longleftrightarrow> j = k"
  by (metis unat_ix)

lemma ix_diff: "k \<le> j \<Longrightarrow> ix j - ix k = ix (j - k)"
  by simp

lemma ix_pred: "0 < k \<Longrightarrow> ix k - 1 = ix (k - 1)"
  by (cases k) simp_all

lemma ix_half: "j + k < 2 ^ 32 \<Longrightarrow> (ix j + ix k) div 2 = ix ((j + k) div 2)"
proof -
  assume h: "j + k < 2 ^ 32"
  have "unat (ix (j + k) div 2) = (j + k) div 2" using h by (simp add: unat_div unat_ix del: of_nat_add)
  then have "ix (j + k) div 2 = ix ((j + k) div 2)"
    using h by (metis of_nat_unat ucast_id)
  then show ?thesis by simp
qed

section \<open>The sort under the contract\<close>

context lua_tables
begin

text \<open>The elements of table \<open>t\<close> as a function, and states that differ in these elements only.\<close>

definition arr :: "addr \<Rightarrow> 's \<Rightarrow> nat \<Rightarrow> tvalue" where
  "arr t s k = (if k < 2 ^ 63 then view s t (at k) else Nil_v)"

definition same_but :: "'s \<Rightarrow> addr \<Rightarrow> 's \<Rightarrow> bool" where
  "same_but s0 t s \<longleftrightarrow> ok s \<and> slot s = slot s0 \<and> room s = room s0 \<and>
     (\<forall>u. u \<noteq> t \<longrightarrow> view s u = view s0 u) \<and>
     (\<forall>j. j \<notin> at ` {..<2 ^ 63} \<longrightarrow> view s t j = view s0 t j)"

definition elems_are :: "'s \<Rightarrow> addr \<Rightarrow> (nat \<Rightarrow> tvalue) \<Rightarrow> 's \<Rightarrow> bool" where
  "elems_are s0 t f s \<longleftrightarrow> same_but s0 t s \<and> arr t s = f"

text \<open>
  An order function or a source of randomness that leaves the tables alone; \<open>good\<close> says that the
  order function answers \<open>below\<close>.
\<close>

definition pure_call :: "('s, 'e lib_error, 'x) prog \<Rightarrow> bool" where
  "pure_call m \<longleftrightarrow> (\<forall>s. ok s \<longrightarrow> (case m s of (r, s') \<Rightarrow>
     ok s' \<and> view s' = view s \<and> slot s' = slot s \<and> room s' = room s \<and> r \<noteq> Inl Endless))"

definition order_fun ::
  "(tvalue \<Rightarrow> tvalue \<Rightarrow> ('s, 'e lib_error, bool) prog) \<Rightarrow> bool \<Rightarrow> (tvalue \<Rightarrow> tvalue \<Rightarrow> bool) \<Rightarrow> bool" where
  "order_fun lt good below \<longleftrightarrow> (\<forall>x y. pure_call (lt x y)) \<and>
     (good \<longrightarrow> strict_weak below \<and> (\<forall>x y s. ok s \<longrightarrow> fst (lt x y s) = Inr (below x y)))"

definition bad_end :: "bool \<Rightarrow> 'e lib_error \<Rightarrow> bool" where
  "bad_end good e \<longleftrightarrow> \<not> good \<and> e \<noteq> Endless"

text \<open>
  The judgement on the parts of the sort: from elements \<open>f\<close>, the run permutes the elements
  \<open>l .. u\<close>; a normal end satisfies \<open>Q\<close>.
\<close>

definition sorts ::
  "'s \<Rightarrow> addr \<Rightarrow> bool \<Rightarrow> nat \<Rightarrow> nat \<Rightarrow> (nat \<Rightarrow> tvalue) \<Rightarrow> ('s, 'e lib_error, 'x) prog \<Rightarrow>
   ('x \<Rightarrow> (nat \<Rightarrow> tvalue) \<Rightarrow> bool) \<Rightarrow> bool" where
  "sorts s0 t good l u f m Q \<longleftrightarrow>
     triple (elems_are s0 t f) m
       (\<lambda>r s. \<exists>g. elems_are s0 t g s \<and> permr l u f g \<and> Q r g)
       (\<lambda>e s. \<exists>g. elems_are s0 t g s \<and> permr l u f g \<and> bad_end good e)"

lemma sorts_ret: "Q r f \<Longrightarrow> sorts s0 t good l u f (ret r) Q"
  unfolding sorts_def by (rule triple_ret) auto

lemma sorts_stop: "bad_end good e \<Longrightarrow> sorts s0 t good l u f (stop e) Q"
  unfolding sorts_def by (rule triple_stop) auto

lemma sorts_Inr:
  "sorts s0 t good l u f m Q \<Longrightarrow> elems_are s0 t f s \<Longrightarrow> m s = (Inr r, s') \<Longrightarrow>
   \<exists>g. elems_are s0 t g s' \<and> permr l u f g \<and> Q r g"
  unfolding sorts_def triple_def by fastforce

lemma sorts_Inl:
  "sorts s0 t good l u f m Q \<Longrightarrow> elems_are s0 t f s \<Longrightarrow> m s = (Inl e, s') \<Longrightarrow>
   \<exists>g. elems_are s0 t g s' \<and> permr l u f g \<and> bad_end good e"
  unfolding sorts_def triple_def by fastforce

lemma sortsI:
  assumes "\<And>s r s'. elems_are s0 t f s \<Longrightarrow> m s = (Inr r, s') \<Longrightarrow>
      \<exists>g. elems_are s0 t g s' \<and> permr l u f g \<and> Q r g"
    and "\<And>s e s'. elems_are s0 t f s \<Longrightarrow> m s = (Inl e, s') \<Longrightarrow>
      \<exists>g. elems_are s0 t g s' \<and> permr l u f g \<and> bad_end good e"
  shows "sorts s0 t good l u f m Q"
  unfolding sorts_def using assms(2,1) by (rule tripleI)

lemma sorts_bind:
  assumes "sorts s0 t good l u f m M"
    and "\<And>r g. permr l u f g \<Longrightarrow> M r g \<Longrightarrow> sorts s0 t good l u g (k r) Q"
  shows "sorts s0 t good l u f (andThen m k) Q"
proof (rule sortsI)
  fix s r s' assume s: "elems_are s0 t f s" and "andThen m k s = (Inr r, s')"
  then obtain a s1 where 1: "m s = (Inr a, s1)" "k a s1 = (Inr r, s')" by (auto simp: andThen_Inr)
  from sorts_Inr [OF assms(1) s 1(1)] obtain g where g: "elems_are s0 t g s1" "permr l u f g" "M a g"
    by blast
  from sorts_Inr [OF assms(2) [OF g(2,3)] g(1) 1(2)] permr_trans [OF g(2)]
  show "\<exists>g. elems_are s0 t g s' \<and> permr l u f g \<and> Q r g" by blast
next
  fix s e s' assume s: "elems_are s0 t f s" and "andThen m k s = (Inl e, s')"
  then consider "m s = (Inl e, s')" | a s1 where "m s = (Inr a, s1)" "k a s1 = (Inl e, s')"
    by (auto simp: andThen_Inl)
  then show "\<exists>g. elems_are s0 t g s' \<and> permr l u f g \<and> bad_end good e"
  proof cases
    case 1
    then show ?thesis using sorts_Inl [OF assms(1) s] by blast
  next
    case 2
    from sorts_Inr [OF assms(1) s 2(1)] obtain g where g: "elems_are s0 t g s1" "permr l u f g" "M a g"
      by blast
    from sorts_Inl [OF assms(2) [OF g(2,3)] g(1) 2(2)] permr_trans [OF g(2)] show ?thesis by blast
  qed
qed

lemma sorts_thenDo:
  assumes "sorts s0 t good l u f m M"
    and "\<And>g. permr l u f g \<Longrightarrow> M () g \<Longrightarrow> sorts s0 t good l u g k Q"
  shows "sorts s0 t good l u f (thenDo m k) Q"
  unfolding thenDo_def by (rule sorts_bind [OF assms(1)]) (use assms(2) in simp)

lemma sorts_part:
  assumes "sorts s0 t good l' u' f m M" "l \<le> l'" "u' \<le> u"
    and "\<And>r g. permr l' u' f g \<Longrightarrow> M r g \<Longrightarrow> Q r g"
  shows "sorts s0 t good l u f m Q"
proof (rule sortsI)
  fix s r s' assume "elems_are s0 t f s" "m s = (Inr r, s')"
  from sorts_Inr [OF assms(1) this] show "\<exists>g. elems_are s0 t g s' \<and> permr l u f g \<and> Q r g"
    using assms(4) permr_mono [OF _ assms(2,3)] by blast
next
  fix s e s' assume "elems_are s0 t f s" "m s = (Inl e, s')"
  from sorts_Inl [OF assms(1) this] show "\<exists>g. elems_are s0 t g s' \<and> permr l u f g \<and> bad_end good e"
    using permr_mono [OF _ assms(2,3)] by blast
qed

lemma sorts_get:
  assumes "k < 2 ^ 32"
  shows "sorts s0 t good l u f (get_u A t (ix k)) (\<lambda>v g. g = f \<and> v = f k)"
proof (rule sortsI)
  fix s r s' assume s: "elems_are s0 t f s" and run: "get_u A t (ix k) s = (Inr r, s')"
  then have "ok s" by (simp add: elems_are_def same_but_def)
  with run assms have "r = view s t (at k)" "s' = s"
    by (auto simp: get_u_def geti_law ix_at)
  then show "\<exists>g. elems_are s0 t g s' \<and> permr l u f g \<and> g = f \<and> r = f k"
    using s assms by (auto simp: elems_are_def arr_def)
next
  fix s e s' assume "elems_are s0 t f s" "get_u A t (ix k) s = (Inl e, s')"
  then show "\<exists>g. elems_are s0 t g s' \<and> permr l u f g \<and> bad_end good e"
    by (simp add: elems_are_def same_but_def get_u_def geti_law)
qed

lemma pure_callD:
  assumes "pure_call m" "elems_are s0 t f s" "m s = (r, s')"
  shows "elems_are s0 t f s'" "r \<noteq> Inl Endless"
proof -
  have "ok s" using assms(2) by (simp add: elems_are_def same_but_def)
  with spec [OF assms(1) [unfolded pure_call_def], of s]
  have h: "ok s' \<and> view s' = view s \<and> slot s' = slot s \<and> room s' = room s \<and> r \<noteq> Inl Endless"
    by (simp add: assms(3))
  then have "arr t s' = arr t s" by (simp add: arr_def fun_eq_iff)
  with h assms(2) show "elems_are s0 t f s'" "r \<noteq> Inl Endless"
    by (auto simp: elems_are_def same_but_def)
qed

lemma sorts_lt:
  assumes "order_fun lt good below"
  shows "sorts s0 t good l u f (lt x y) (\<lambda>b g. g = f \<and> (good \<longrightarrow> b = below x y))"
proof (rule sortsI)
  have p: "pure_call (lt x y)" using assms by (simp add: order_fun_def)
  fix s r s' assume s: "elems_are s0 t f s" and run: "lt x y s = (Inr r, s')"
  have "good \<Longrightarrow> r = below x y"
    using assms s run by (simp add: order_fun_def elems_are_def same_but_def) (metis fst_conv sum.inject(2))
  then show "\<exists>g. elems_are s0 t g s' \<and> permr l u f g \<and> g = f \<and> (good \<longrightarrow> r = below x y)"
    using pure_callD [OF p s run] by auto
next
  have p: "pure_call (lt x y)" using assms by (simp add: order_fun_def)
  fix s e s' assume s: "elems_are s0 t f s" and run: "lt x y s = (Inl e, s')"
  have "\<not> good"
    using assms s run by (simp add: order_fun_def elems_are_def same_but_def) (metis fst_conv sum.simps(4))
  then show "\<exists>g. elems_are s0 t g s' \<and> permr l u f g \<and> bad_end good e"
    using pure_callD [OF p s run] by (auto simp: bad_end_def)
qed

text \<open>Exchanging two elements.\<close>

lemma arr_update:
  assumes "view s' = (view s)(t := (view s t)(at i := v))" "i < 2 ^ 63"
  shows "arr t s' = (arr t s)(i := v)"
  using assms by (auto simp: arr_def fun_eq_iff at_inj)

lemma sorts_set2:
  assumes "l \<le> i" "i \<le> u" "l \<le> j" "j \<le> u" "u < 2 ^ 32"
    and "\<And>k. l \<le> k \<Longrightarrow> k \<le> u \<Longrightarrow> slot s0 t (at k)"
  shows "sorts s0 t good l u f (set2 A t (ix i) (ix j) (f j) (f i)) (\<lambda>_ g. g = f(i := f j, j := f i))"
proof -
  have run: "\<exists>s'. set2 A t (ix i) (ix j) (f j) (f i) s = (Inr (), s') \<and>
      elems_are s0 t (f(i := f j, j := f i)) s'" if s: "elems_are s0 t f s" for s
  proof -
    have slots: "slot s t (at i)" "slot s t (at j)" "ok s"
      using s assms by (simp_all add: elems_are_def same_but_def)
    obtain s1 where s1: "seti A t (at i) (f j) s = (Inr (), s1)" "ok s1"
      "view s1 = (view s)(t := (view s t)(at i := f j))" "slot s1 = slot s" "room s1 = room s"
      using seti_slot [OF slots(3,1)] by blast
    moreover from this slots(2) obtain s2 where s2: "seti A t (at j) (f i) s1 = (Inr (), s2)" "ok s2"
      "view s2 = (view s1)(t := (view s1 t)(at j := f i))" "slot s2 = slot s1" "room s2 = room s1"
      by (metis seti_slot)
    moreover have "arr t s2 = (f(i := f j, j := f i))"
      using arr_update [OF s1(3)] arr_update [OF s2(3)] s assms by (simp add: elems_are_def)
    moreover have "i < 2 ^ 63" "j < 2 ^ 63" using assms by simp_all
    ultimately have "same_but s0 t s2"
      using s by (auto simp: elems_are_def same_but_def)
    then show ?thesis
      using s1(1) s2(1) assms \<open>arr t s2 = _\<close>
      by (intro exI [of _ s2]) (simp add: set2_def prog_simps ix_at elems_are_def)
  qed
  show ?thesis
  proof (rule sortsI)
    fix s e s' assume "elems_are s0 t f s" "set2 A t (ix i) (ix j) (f j) (f i) s = (Inl e, s')"
    then show "\<exists>g. elems_are s0 t g s' \<and> permr l u f g \<and> bad_end good e" using run by fastforce
  next
    fix s r s' assume "elems_are s0 t f s" "set2 A t (ix i) (ix j) (f j) (f i) s = (Inr r, s')"
    then have "elems_are s0 t (f(i := f j, j := f i)) s'" using run by fastforce
    then show "\<exists>g. elems_are s0 t g s' \<and> permr l u f g \<and> g = f(i := f j, j := f i)"
      using permr_swap [of l i u j f] assms by blast
  qed
qed

lemma order_funD: "order_fun lt good below \<Longrightarrow> good \<Longrightarrow> strict_weak below"
  by (simp add: order_fun_def)

text \<open>The two scans of the partition.\<close>

lemma sorts_scan_up:
  assumes lt: "order_fun lt good below" and u: "u < 2 ^ 31" "0 < u" and P: "good \<longrightarrow> f (u - 1) = P"
  shows "i < u - 1 \<Longrightarrow> u - 1 - i \<le> n \<Longrightarrow> sorts s0 t good l u f (scan_up A lt t P (ix u) n (ix i))
    (\<lambda>(i', v) g. g = f \<and> v = f (unat i') \<and> i < unat i' \<and> unat i' \<le> u - 1 \<and>
       (good \<longrightarrow> \<not> below (f (unat i')) P \<and> (\<forall>k. i < k \<longrightarrow> k < unat i' \<longrightarrow> below (f k) P)))"
proof (induction n arbitrary: i)
  case 0
  then show ?case by simp
next
  case (Suc n)
  have i: "unat (ix (Suc i)) = Suc i" "Suc i < 2 ^ 32"
    using unat_ix [of "Suc i"] Suc.prems(1) u by simp_all
  have last: "ix (Suc i) = ix u - 1 \<longleftrightarrow> Suc i = u - 1"
    using Suc.prems(1) u ix_inj [of "Suc i" "u - 1"] by (simp add: ix_pred del: of_nat_Suc of_nat_diff)
  have step: "sorts s0 t good l u f
      (if b then if ix (Suc i) = ix u - 1 then invalid_order else scan_up A lt t P (ix u) n (ix (Suc i))
       else ret (ix (Suc i), f (Suc i)))
    (\<lambda>(i', v) g. g = f \<and> v = f (unat i') \<and> i < unat i' \<and> unat i' \<le> u - 1 \<and>
       (good \<longrightarrow> \<not> below (f (unat i')) P \<and> (\<forall>k. i < k \<longrightarrow> k < unat i' \<longrightarrow> below (f k) P)))"
    if b: "good \<longrightarrow> b = below (f (Suc i)) P" for b
  proof (cases b)
    case False
    then show ?thesis using b Suc.prems(1) i(1) by (auto intro!: sorts_ret)
  next
    case True
    show ?thesis
    proof (cases "Suc i = u - 1")
      case edge: True
      have "\<not> good"
      proof
        assume good
        then have "below P P" using b \<open>b\<close> edge P by simp
        then show False using strict_weak_irrefl [OF order_funD [OF lt \<open>good\<close>]] by blast
      qed
      then show ?thesis
        using True edge last by (simp add: invalid_order_def sorts_stop bad_end_def)
    next
      case False
      then have "sorts s0 t good l u f (scan_up A lt t P (ix u) n (ix (Suc i)))
        (\<lambda>(i', v) g. g = f \<and> v = f (unat i') \<and> Suc i < unat i' \<and> unat i' \<le> u - 1 \<and>
         (good \<longrightarrow> \<not> below (f (unat i')) P \<and> (\<forall>k. Suc i < k \<longrightarrow> k < unat i' \<longrightarrow> below (f k) P)))"
        using Suc.prems by (intro Suc.IH) simp_all
      then have "sorts s0 t good l u f (scan_up A lt t P (ix u) n (ix (Suc i)))
        (\<lambda>(i', v) g. g = f \<and> v = f (unat i') \<and> i < unat i' \<and> unat i' \<le> u - 1 \<and>
         (good \<longrightarrow> \<not> below (f (unat i')) P \<and> (\<forall>k. i < k \<longrightarrow> k < unat i' \<longrightarrow> below (f k) P)))"
        by (rule sorts_part) (use b True in \<open>auto intro: Suc_lessI elim: less_SucE\<close>)
      then show ?thesis using True False last by simp
    qed
  qed
  have e: "ix i + 1 = ix (Suc i)" by simp
  show ?case
    unfolding scan_up.simps Let_def e
  proof (rule sorts_bind [OF sorts_get [OF i(2)]])
    fix v g assume "g = f \<and> v = f (Suc i)"
    then have v: "g = f" "v = f (Suc i)" by simp_all
    show "sorts s0 t good l u g (andThen (lt v P) (\<lambda>b.
        if b then if ix (Suc i) = ix u - 1 then invalid_order else scan_up A lt t P (ix u) n (ix (Suc i))
        else ret (ix (Suc i), v)))
      (\<lambda>(i', v) g. g = f \<and> v = f (unat i') \<and> i < unat i' \<and> unat i' \<le> u - 1 \<and>
       (good \<longrightarrow> \<not> below (f (unat i')) P \<and> (\<forall>k. i < k \<longrightarrow> k < unat i' \<longrightarrow> below (f k) P)))"
      unfolding v by (rule sorts_bind [OF sorts_lt [OF lt]], elim conjE, hypsubst, rule step)
  qed
qed

lemma sorts_scan_down:
  assumes lt: "order_fun lt good below" and m: "m < 2 ^ 31" "l < m"
    and low: "good \<longrightarrow> (\<forall>k. l \<le> k \<longrightarrow> k < m \<longrightarrow> \<not> below P (f k))"
  shows "l < j \<Longrightarrow> j < 2 ^ 31 \<Longrightarrow> j - l \<le> n \<Longrightarrow>
    sorts s0 t good l u f (scan_down A lt t P (ix m) n (ix j))
    (\<lambda>(j', v) g. g = f \<and> v = f (unat j') \<and> l \<le> unat j' \<and> unat j' < j \<and>
       (good \<longrightarrow> \<not> below P (f (unat j')) \<and> (\<forall>k. unat j' < k \<longrightarrow> k < j \<longrightarrow> below P (f k))))"
proof (induction n arbitrary: j)
  case 0
  then show ?case by simp
next
  case (Suc n)
  obtain p where j: "j = Suc p" using Suc.prems(1) by (cases j) auto
  have p: "unat (ix p) = p" "p < 2 ^ 32" "l \<le> p" using Suc.prems(1,2) j by (simp_all add: unat_ix)
  have lo: "ix p < ix m \<longleftrightarrow> p < m" using p(2) m(1) by (intro ix_less) simp_all
  have step: "sorts s0 t good l u f
      (if b then if ix p < ix m then invalid_order else scan_down A lt t P (ix m) n (ix p)
       else ret (ix p, f p))
    (\<lambda>(j', v) g. g = f \<and> v = f (unat j') \<and> l \<le> unat j' \<and> unat j' < j \<and>
       (good \<longrightarrow> \<not> below P (f (unat j')) \<and> (\<forall>k. unat j' < k \<longrightarrow> k < j \<longrightarrow> below P (f k))))"
    if b: "good \<longrightarrow> b = below P (f p)" for b
  proof (cases b)
    case False
    then show ?thesis using b Suc.prems p j by (auto intro!: sorts_ret)
  next
    case True
    show ?thesis
    proof (cases "p < m")
      case edge: True
      then have "\<not> good" using low b \<open>b\<close> p(3) by auto
      then show ?thesis
        using True edge lo by (simp add: invalid_order_def sorts_stop bad_end_def)
    next
      case False
      then have "sorts s0 t good l u f (scan_down A lt t P (ix m) n (ix p))
        (\<lambda>(j', v) g. g = f \<and> v = f (unat j') \<and> l \<le> unat j' \<and> unat j' < p \<and>
         (good \<longrightarrow> \<not> below P (f (unat j')) \<and> (\<forall>k. unat j' < k \<longrightarrow> k < p \<longrightarrow> below P (f k))))"
        using Suc.prems m(2) j by (intro Suc.IH) simp_all
      then have "sorts s0 t good l u f (scan_down A lt t P (ix m) n (ix p))
        (\<lambda>(j', v) g. g = f \<and> v = f (unat j') \<and> l \<le> unat j' \<and> unat j' < j \<and>
         (good \<longrightarrow> \<not> below P (f (unat j')) \<and> (\<forall>k. unat j' < k \<longrightarrow> k < j \<longrightarrow> below P (f k))))"
        by (rule sorts_part) (use b True j in \<open>auto simp: less_Suc_eq\<close>)
      then show ?thesis using True False lo by simp
    qed
  qed
  have e: "ix j - 1 = ix p" using j by simp
  show ?case
    unfolding scan_down.simps Let_def e
  proof (rule sorts_bind [OF sorts_get [OF p(2)]])
    fix v g assume "g = f \<and> v = f p"
    then have v: "g = f" "v = f p" by simp_all
    show "sorts s0 t good l u g (andThen (lt P v) (\<lambda>b.
        if b then if ix p < ix m then invalid_order else scan_down A lt t P (ix m) n (ix p)
        else ret (ix p, v)))
      (\<lambda>(j', v) g. g = f \<and> v = f (unat j') \<and> l \<le> unat j' \<and> unat j' < j \<and>
       (good \<longrightarrow> \<not> below P (f (unat j')) \<and> (\<forall>k. unat j' < k \<longrightarrow> k < j \<longrightarrow> below P (f k))))"
      unfolding v by (rule sorts_bind [OF sorts_lt [OF lt]], elim conjE, hypsubst, rule step)
  qed
qed

text \<open>
  One turn of the partition, seen on the elements: the pivot goes to its place, or two elements
  on the wrong sides are exchanged.
\<close>

definition parted :: "(tvalue \<Rightarrow> tvalue \<Rightarrow> bool) \<Rightarrow> tvalue \<Rightarrow> nat \<Rightarrow> nat \<Rightarrow> nat \<Rightarrow> nat \<Rightarrow> (nat \<Rightarrow> tvalue) \<Rightarrow> bool" where
  "parted below P l i j u f \<longleftrightarrow> (\<forall>k. l \<le> k \<longrightarrow> k \<le> i \<longrightarrow> \<not> below P (f k)) \<and>
     (\<forall>k. j \<le> k \<longrightarrow> k \<le> u \<longrightarrow> \<not> below (f k) P)"

definition scanned ::
  "(tvalue \<Rightarrow> tvalue \<Rightarrow> bool) \<Rightarrow> tvalue \<Rightarrow> nat \<Rightarrow> nat \<Rightarrow> nat \<Rightarrow> nat \<Rightarrow> (nat \<Rightarrow> tvalue) \<Rightarrow> bool" where
  "scanned below P i m jj j f \<longleftrightarrow> \<not> below (f m) P \<and> (\<forall>k. i < k \<longrightarrow> k < m \<longrightarrow> below (f k) P) \<and>
     \<not> below P (f jj) \<and> (\<forall>k. jj < k \<longrightarrow> k < j \<longrightarrow> below P (f k))"

lemma parted_below:
  assumes "strict_weak below" "parted below P l i j u f" "scanned below P i m jj j f"
  shows "l \<le> k \<Longrightarrow> k < m \<Longrightarrow> \<not> below P (f k)" and "jj < k \<Longrightarrow> k \<le> u \<Longrightarrow> \<not> below (f k) P"
proof -
  assume "l \<le> k" "k < m"
  then show "\<not> below P (f k)"
    using assms(2,3) strict_weak_asym [OF assms(1), of "f k" P]
    by (cases "k \<le> i") (simp_all add: parted_def scanned_def)
next
  assume "jj < k" "k \<le> u"
  then show "\<not> below (f k) P"
    using assms(2,3) strict_weak_asym [OF assms(1), of P "f k"]
    by (cases "j \<le> k") (simp_all add: parted_def scanned_def)
qed

lemma parted_done:
  assumes "strict_weak below" "parted below P l i j u f" "scanned below P i m jj j f"
    and "jj < m" "m \<le> u - 1" "0 < u" "f (u - 1) = P"
  shows "split_at below l m u (f(u - 1 := f m, m := P))"
proof -
  have low: "\<not> below P (f k)" if "l \<le> k" "k < m" for k
    using parted_below(1) [OF assms(1-3)] that by blast
  have high: "\<not> below (f k) P" if "jj < k" "k \<le> u" for k
    using parted_below(2) [OF assms(1-3)] that by blast
  have "\<not> below (f m) P" using assms(3) by (simp add: scanned_def)
  then show ?thesis
    using low high strict_weak_irrefl [OF assms(1)] assms(4-6)
    by (auto simp: split_at_def)
qed

lemma parted_swap:
  assumes "strict_weak below" "parted below P l i j u f" "scanned below P i m jj j f" "m \<le> jj"
  shows "parted below P l m jj u (f(m := f jj, jj := f m))"
proof -
  have low: "\<not> below P (f k)" if "l \<le> k" "k < m" for k
    using parted_below(1) [OF assms(1-3)] that by blast
  have high: "\<not> below (f k) P" if "jj < k" "k \<le> u" for k
    using parted_below(2) [OF assms(1-3)] that by blast
  have "\<not> below (f m) P" "\<not> below P (f jj)" using assms(3) by (simp_all add: scanned_def)
  then show ?thesis using low high assms(4) by (auto simp: parted_def)
qed

text \<open>The results of the scans, with indices as natural numbers.\<close>

definition up_result ::
  "bool \<Rightarrow> (tvalue \<Rightarrow> tvalue \<Rightarrow> bool) \<Rightarrow> tvalue \<Rightarrow> nat \<Rightarrow> nat \<Rightarrow> (nat \<Rightarrow> tvalue) \<Rightarrow> u32 \<times> tvalue \<Rightarrow> bool" where
  "up_result good below P u i f r \<longleftrightarrow> (\<exists>m. r = (ix m, f m) \<and> i < m \<and> m \<le> u - 1 \<and>
     (good \<longrightarrow> \<not> below (f m) P \<and> (\<forall>k. i < k \<longrightarrow> k < m \<longrightarrow> below (f k) P)))"

definition down_result ::
  "bool \<Rightarrow> (tvalue \<Rightarrow> tvalue \<Rightarrow> bool) \<Rightarrow> tvalue \<Rightarrow> nat \<Rightarrow> nat \<Rightarrow> (nat \<Rightarrow> tvalue) \<Rightarrow> u32 \<times> tvalue \<Rightarrow> bool" where
  "down_result good below P l j f r \<longleftrightarrow> (\<exists>jj. r = (ix jj, f jj) \<and> l \<le> jj \<and> jj < j \<and>
     (good \<longrightarrow> \<not> below P (f jj) \<and> (\<forall>k. jj < k \<longrightarrow> k < j \<longrightarrow> below P (f k))))"

lemma sorts_up:
  assumes "order_fun lt good below" "u < 2 ^ 31" "0 < u" "f (u - 1) = P" "i < u - 1"
  shows "sorts s0 t good l u f (scan_up A lt t P (ix u) (unat (ix u)) (ix i))
    (\<lambda>r g. g = f \<and> up_result good below P u i f r)"
proof -
  have "u - 1 - i \<le> unat (ix u)" using assms(2) by (simp add: unat_ix)
  from sorts_scan_up [OF assms(1-3) _ assms(5) this, of f P s0 t l] assms(4)
  have "sorts s0 t good l u f (scan_up A lt t P (ix u) (unat (ix u)) (ix i))
    (\<lambda>(i', v) g. g = f \<and> v = f (unat i') \<and> i < unat i' \<and> unat i' \<le> u - 1 \<and>
       (good \<longrightarrow> \<not> below (f (unat i')) P \<and> (\<forall>k. i < k \<longrightarrow> k < unat i' \<longrightarrow> below (f k) P)))"
    by simp
  then show ?thesis
  proof (rule sorts_part)
    fix r g
    assume "(\<lambda>(i' :: u32, v) g. g = f \<and> v = f (unat i') \<and> i < unat i' \<and> unat i' \<le> u - 1 \<and>
       (good \<longrightarrow> \<not> below (f (unat i')) P \<and> (\<forall>k. i < k \<longrightarrow> k < unat i' \<longrightarrow> below (f k) P))) r g"
    then show "g = f \<and> up_result good below P u i f r"
      unfolding up_result_def by (cases r) (auto intro!: exI [of _ "unat (fst r)"])
  qed simp_all
qed

lemma sorts_down:
  assumes "order_fun lt good below" "m < 2 ^ 31" "l < m" "l < j" "j \<le> u" "u < 2 ^ 31"
    and "good \<longrightarrow> (\<forall>k. l \<le> k \<longrightarrow> k < m \<longrightarrow> \<not> below P (f k))"
  shows "sorts s0 t good l u f (scan_down A lt t P (ix m) (unat (ix u)) (ix j))
    (\<lambda>r g. g = f \<and> down_result good below P l j f r)"
proof -
  have "j - l \<le> unat (ix u)" "j < 2 ^ 31" using assms(5,6) by (simp_all add: unat_ix)
  from sorts_scan_down [OF assms(1-3,7,4) this(2,1), of s0 t u]
  show ?thesis
  proof (rule sorts_part)
    fix r g
    assume "(\<lambda>(j' :: u32, v) g. g = f \<and> v = f (unat j') \<and> l \<le> unat j' \<and> unat j' < j \<and>
       (good \<longrightarrow> \<not> below P (f (unat j')) \<and> (\<forall>k. unat j' < k \<longrightarrow> k < j \<longrightarrow> below P (f k)))) r g"
    then show "g = f \<and> down_result good below P l j f r"
      unfolding down_result_def by (cases r) (auto intro!: exI [of _ "unat (fst r)"])
  qed simp_all
qed

lemma sorts_partition_step:
  assumes "order_fun lt good below" "u < 2 ^ 31" "\<And>k. l \<le> k \<Longrightarrow> k \<le> u \<Longrightarrow> slot s0 t (at k)"
    and "l < m" "m \<le> u - 1" "l \<le> jj" "jj < j" "j \<le> u - 1" "f (u - 1) = P"
    and "good \<longrightarrow> parted below P l i j u f" "good \<longrightarrow> scanned below P i m jj j f"
    and rest: "\<And>g. m \<le> jj \<Longrightarrow> g = f(m := f jj, jj := f m) \<Longrightarrow> sorts s0 t good l u g next_turn Q"
    and Q: "\<And>g. good \<longrightarrow> split_at below l m u g \<Longrightarrow> Q (ix m) g"
  shows "sorts s0 t good l u f
    (if ix jj < ix m then thenDo (set2 A t (ix u - 1) (ix m) (f m) P) (ret (ix m))
     else thenDo (set2 A t (ix m) (ix jj) (f jj) (f m)) next_turn) Q"
proof (cases "jj < m")
  case True
  then have w: "ix jj < ix m" "ix u - 1 = ix (u - 1)"
    using assms(2,4-8) ix_less [of jj m] ix_pred [of u] by simp_all
  have "sorts s0 t good l u f (set2 A t (ix (u - 1)) (ix m) (f m) (f (u - 1)))
    (\<lambda>_ g. g = f(u - 1 := f m, m := f (u - 1)))"
    using assms(2-8) by (intro sorts_set2) simp_all
  then have "sorts s0 t good l u f (thenDo (set2 A t (ix (u - 1)) (ix m) (f m) P) (ret (ix m))) Q"
    unfolding assms(9)
  proof (rule sorts_thenDo)
    fix g assume "g = f(u - 1 := f m, m := P)"
    then have "good \<longrightarrow> split_at below l m u g"
      using parted_done [of below P l i j u f m jj] order_funD [OF assms(1)] assms(4,5,9-11) True by simp
    then show "sorts s0 t good l u g (ret (ix m)) Q" by (intro sorts_ret Q)
  qed
  then show ?thesis using w by simp
next
  case False
  then have w: "\<not> ix jj < ix m" using assms(2,4-8) ix_less [of jj m] by simp
  have "sorts s0 t good l u f (set2 A t (ix m) (ix jj) (f jj) (f m)) (\<lambda>_ g. g = f(m := f jj, jj := f m))"
    using assms(2-8) by (intro sorts_set2) simp_all
  then have "sorts s0 t good l u f (thenDo (set2 A t (ix m) (ix jj) (f jj) (f m)) next_turn) Q"
    by (rule sorts_thenDo) (use False in \<open>auto intro: rest\<close>)
  then show ?thesis using w by simp
qed

definition cut :: "bool \<Rightarrow> (tvalue \<Rightarrow> tvalue \<Rightarrow> bool) \<Rightarrow> nat \<Rightarrow> nat \<Rightarrow> u32 \<Rightarrow> (nat \<Rightarrow> tvalue) \<Rightarrow> bool" where
  "cut good below l u q g \<longleftrightarrow> (\<exists>m. q = ix m \<and> l < m \<and> m \<le> u - 1 \<and> (good \<longrightarrow> split_at below l m u g))"

lemma sorts_partition_loop:
  assumes lt: "order_fun lt good below" and u: "u < 2 ^ 31"
    and slots: "\<And>k. l \<le> k \<Longrightarrow> k \<le> u \<Longrightarrow> slot s0 t (at k)"
  shows "l \<le> i \<Longrightarrow> i < u - 1 \<Longrightarrow> l < j \<Longrightarrow> j \<le> u - 1 \<Longrightarrow> u - 1 - i \<le> n \<Longrightarrow> f (u - 1) = P \<Longrightarrow>
    (good \<longrightarrow> parted below P l i j u f) \<Longrightarrow>
    sorts s0 t good l u f (partition_loop A lt t P (ix u) n (ix i) (ix j)) (cut good below l u)"
proof (induction n arbitrary: i j f)
  case 0
  then show ?case by simp
next
  case (Suc n)
  note sw = order_funD [OF lt]
  have u0: "0 < u" using Suc.prems(2) by simp
  show ?case
    unfolding partition_loop.simps
  proof (rule sorts_bind [OF sorts_up [where f = f and i = i, OF lt u u0 Suc.prems(6,2)]], elim conjE, hypsubst)
    fix r assume "up_result good below P u i f r"
    then obtain m where m: "r = (ix m, f m)" "i < m" "m \<le> u - 1"
      "good \<longrightarrow> \<not> below (f m) P \<and> (\<forall>k. i < k \<longrightarrow> k < m \<longrightarrow> below (f k) P)"
      unfolding up_result_def by blast
    have m': "m < 2 ^ 31" "l < m" "j \<le> u" using m(2,3) Suc.prems(1,4) u by simp_all
    have low: "good \<longrightarrow> (\<forall>k. l \<le> k \<longrightarrow> k < m \<longrightarrow> \<not> below P (f k))"
    proof (intro impI allI)
      fix k assume "good" "l \<le> k" "k < m"
      then show "\<not> below P (f k)"
        using Suc.prems(7) m(4) strict_weak_asym [OF sw [OF \<open>good\<close>], of "f k" P]
        by (cases "k \<le> i") (simp_all add: parted_def)
    qed
    show "sorts s0 t good l u f (case r of (i', vi) \<Rightarrow> andThen (scan_down A lt t P i' (unat (ix u)) (ix j))
        (\<lambda>(j', vj). if j' < i' then thenDo (set2 A t (ix u - 1) i' vi P) (ret i')
          else thenDo (set2 A t i' j' vj vi) (partition_loop A lt t P (ix u) n i' j'))) (cut good below l u)"
      unfolding m(1) prod.case
    proof (rule sorts_bind [OF sorts_down [where f = f, OF lt m'(1,2) Suc.prems(3) m'(3) u low]], elim conjE, hypsubst)
      fix r assume "down_result good below P l j f r"
      then obtain jj where jj: "r = (ix jj, f jj)" "l \<le> jj" "jj < j"
        "good \<longrightarrow> \<not> below P (f jj) \<and> (\<forall>k. jj < k \<longrightarrow> k < j \<longrightarrow> below P (f k))"
        unfolding down_result_def by blast
      have sc: "good \<longrightarrow> scanned below P i m jj j f" using m(4) jj(4) by (simp add: scanned_def)
      show "sorts s0 t good l u f (case r of (j', vj) \<Rightarrow> if j' < ix m then thenDo (set2 A t (ix u - 1) (ix m) (f m) P) (ret (ix m))
          else thenDo (set2 A t (ix m) j' vj (f m)) (partition_loop A lt t P (ix u) n (ix m) j')) (cut good below l u)"
        unfolding jj(1) prod.case
      proof (rule sorts_partition_step [OF lt u slots m'(2) m(3) jj(2,3) Suc.prems(4,6,7) sc])
        fix g assume g: "m \<le> jj" "g = f(m := f jj, jj := f m)"
        have "good \<longrightarrow> parted below P l m jj u g"
          using parted_swap [of below P l i j u f m jj] sw Suc.prems(7) sc g by simp
        moreover have "g (u - 1) = P" using g m(2,3) jj(3) Suc.prems(4,6) by simp
        ultimately show "sorts s0 t good l u g (partition_loop A lt t P (ix u) n (ix m) (ix jj)) (cut good below l u)"
          using Suc.prems(1,2,4,5) g(1) m'(2) m(2,3) jj(2,3) by (intro Suc.IH) simp_all
      next
        fix g assume "good \<longrightarrow> split_at below l m u g"
        then show "cut good below l u (ix m) g" using m'(2) m(3) by (auto simp: cut_def)
      qed
    qed
  qed
qed

end

end
