(* ===== verification/LuaSortAux.thy ===== *)
theory LuaSortAux
  imports LuaSortProps
begin

text \<open>
  The recursion of \<open>table.sort\<close>: the choice of the pivot, \<open>auxsort\<close> and the library function, under
  the contract \<open>lua_tables\<close>. The lemmas on the parts of one turn are in \<open>LuaSortProps\<close>.
\<close>

section \<open>Putting sorted parts together\<close>

lemma sorted_on_cong:
  "sorted_on below l u f \<Longrightarrow> (\<And>k. l \<le> k \<Longrightarrow> k \<le> u \<Longrightarrow> g k = f k) \<Longrightarrow> sorted_on below l u g"
  by (simp add: sorted_on_def)

lemma permr_upper_lower:
  assumes "permr l' u' f g" "permr l u g h" "u < l' \<or> u' < l" "l \<le> k" "k \<le> u"
  shows "\<exists>j. l \<le> j \<and> j \<le> u \<and> h k = f j"
proof -
  obtain j where j: "l \<le> j" "j \<le> u" "h k = g j" using permr_mem [OF assms(2,4,5)] by blast
  moreover have "g j = f j" using permr_outside [OF assms(1), of j] j(1,2) assms(3) by linarith
  ultimately show ?thesis by auto
qed

lemma sorted_join_upper:
  assumes below: "strict_weak below" and sp: "split_at below l m u f" and m: "l < m" "m < u"
    and upper: "permr (m + 1) u f g" "sorted_on below (m + 1) u g"
    and lower: "permr l (m - 1) g h" "sorted_on below l (m - 1) h"
  shows "sorted_on below l u h"
proof -
  have sp': "split_at below l m u g"
    unfolding split_at_def
  proof (intro conjI allI impI)
    fix k assume "l \<le> k" "k \<le> m"
    then show "\<not> below (g m) (g k)"
      using sp permr_outside [OF upper(1), of k] permr_outside [OF upper(1), of m]
      by (simp add: split_at_def)
  next
    fix k assume k: "m \<le> k" "k \<le> u"
    have gm: "g m = f m" using permr_outside [OF upper(1), of m] by simp
    show "\<not> below (g k) (g m)"
    proof (cases "k = m")
      case True
      then show ?thesis using strict_weak_irrefl [OF below] by simp
    next
      case False
      then obtain j where "m + 1 \<le> j" "j \<le> u" "g k = f j"
        using permr_mem [OF upper(1), of k] k by auto
      then show ?thesis using sp gm by (simp add: split_at_def)
    qed
  qed
  have same: "h k = g k" if "m + 1 \<le> k" for k
    using permr_outside [OF lower(1), of k] m that by auto
  have "sorted_on below (m + 1) u h" by (rule sorted_on_cong [OF upper(2)]) (use same in simp)
  then show ?thesis using sorted_join [OF below sp' m lower permr_refl] by blast
qed

section \<open>The choice of the pivot\<close>

lemma choosePivot_inside:
  assumes "l + 100 \<le> u" "u < 2 ^ 31"
  obtains p where "choosePivot (ix l) (ix u) rnd = ix p" "l < p" "p < u"
proof -
  define r where "r = (u - l) div 4"
  have r: "25 \<le> r" "4 * r \<le> u - l" using assms(1) by (simp_all add: r_def)
  have d: "ix u - ix l = ix (u - l)" using assms(1) by (intro ix_diff) simp
  have "unat (ix (u - l) div 4) = r" using assms(2) unat_ix [of "u - l"] by (simp add: unat_div r_def del: of_nat_diff)
  then have r4: "ix (u - l) div 4 = ix r" by (metis of_nat_unat ucast_id)
  define q where "q = unat rnd mod (2 * r)"
  have "2 * r < 2 ^ 32" using r(2) assms(2) by simp
  then have "unat (ix r * 2) = 2 * r" using unat_ix [of "2 * r"] by (simp add: mult.commute)
  then have "unat (rnd mod (ix r * 2)) = q" by (simp add: unat_mod q_def)
  then have "rnd mod (ix r * 2) = ix q" by (metis of_nat_unat ucast_id)
  then have "choosePivot (ix l) (ix u) rnd = ix (q + (l + r))"
    by (simp add: choosePivot_def Let_def d r4 del: of_nat_diff)
  moreover have "q < 2 * r" using r(1) by (simp add: q_def)
  ultimately show ?thesis using r assms that [of "q + (l + r)"] by simp
qed

lemma pivot_inside:
  assumes "l + 2 \<le> u" "u < 2 ^ 31"
  obtains p where "(if ix u - ix l < RANLIMIT \<or> rnd = 0 then (ix l + ix u) div 2
      else choosePivot (ix l) (ix u) rnd) = ix p" "l < p" "p < u"
proof (cases "ix u - ix l < RANLIMIT \<or> rnd = 0")
  case True
  have "(ix l + ix u) div 2 = ix ((l + u) div 2)" using assms by (intro ix_half) simp
  then show ?thesis using True assms that [of "(l + u) div 2"] by auto
next
  case False
  then have "\<not> ix (u - l) < ix 100"
    using assms ix_diff [of l u] by (simp add: RANLIMIT_def del: of_nat_diff)
  moreover have "ix (u - l) < ix 100" if "u - l < 100"
    using assms that ix_less [of "u - l" 100] by (simp del: of_nat_diff of_nat_numeral)
  ultimately have "l + 100 \<le> u" using assms(1) by linarith
  then obtain p where "choosePivot (ix l) (ix u) rnd = ix p" "l < p" "p < u"
    using choosePivot_inside assms(2) by blast
  then show ?thesis using False that by auto
qed

context lua_tables
begin

section \<open>The steps of one turn\<close>

lemma sorts_order_ends:
  assumes "order_fun lt good below" "l < u" "u < 2 ^ 32"
    and "\<And>k. l \<le> k \<Longrightarrow> k \<le> u \<Longrightarrow> slot s0 t (at k)"
  shows "sorts s0 t good l u f (order_ends A lt t (ix l) (ix u))
    (\<lambda>_ g. good \<longrightarrow> \<not> below (g u) (g l))"
  unfolding order_ends_def
proof (rule sorts_bind [OF sorts_get], use assms(2,3) in simp, elim conjE, hypsubst)
  note sw = order_funD [OF assms(1)]
  show "sorts s0 t good l u f
     (andThen (get_u A t (ix u)) (\<lambda>vup. andThen (lt vup (f l))
        (\<lambda>b. if b then set2 A t (ix l) (ix u) vup (f l) else ret ()))) (\<lambda>_ g. good \<longrightarrow> \<not> below (g u) (g l))"
  proof (rule sorts_bind [OF sorts_get [OF assms(3)]], elim conjE, hypsubst)
    show "sorts s0 t good l u f (andThen (lt (f u) (f l))
        (\<lambda>b. if b then set2 A t (ix l) (ix u) (f u) (f l) else ret ())) (\<lambda>_ g. good \<longrightarrow> \<not> below (g u) (g l))"
    proof (rule sorts_bind [OF sorts_lt [OF assms(1)]], elim conjE, hypsubst)
      fix b assume b: "good \<longrightarrow> b = below (f u) (f l)"
      have "sorts s0 t good l u f (set2 A t (ix l) (ix u) (f u) (f l)) (\<lambda>_ g. good \<longrightarrow> \<not> below (g u) (g l))" if "b"
        by (rule sorts_part [OF sorts_set2 [of l l u u]])
          (use assms b that strict_weak_asym [OF sw] in auto)
      moreover have "sorts s0 t good l u f (ret ()) (\<lambda>_ g. good \<longrightarrow> \<not> below (g u) (g l))" if "\<not> b"
        using b that by (intro sorts_ret) simp
      ultimately show "sorts s0 t good l u f (if b then set2 A t (ix l) (ix u) (f u) (f l) else ret ())
          (\<lambda>_ g. good \<longrightarrow> \<not> below (g u) (g l))" by simp
    qed
  qed
qed

definition middle :: "bool \<Rightarrow> (tvalue \<Rightarrow> tvalue \<Rightarrow> bool) \<Rightarrow> nat \<Rightarrow> nat \<Rightarrow> nat \<Rightarrow> (nat \<Rightarrow> tvalue) \<Rightarrow> bool" where
  "middle good below l p u g \<longleftrightarrow> (good \<longrightarrow> \<not> below (g p) (g l) \<and> \<not> below (g u) (g p))"

lemma sorts_order_middle:
  assumes lt: "order_fun lt good below" and p: "l < p" "p < u" and u: "u < 2 ^ 32"
    and slots: "\<And>k. l \<le> k \<Longrightarrow> k \<le> u \<Longrightarrow> slot s0 t (at k)"
    and ends: "good \<longrightarrow> \<not> below (f u) (f l)"
  shows "sorts s0 t good l u f (order_middle A lt t (ix l) (ix p) (ix u)) (\<lambda>_. middle good below l p u)"
proof -
  note sw = order_funD [OF lt]
  have b: "l < 2 ^ 32" "p < 2 ^ 32" using p u by simp_all
  have up: "sorts s0 t good l u f (if c then set2 A t (ix p) (ix u) (f u) (f p) else ret ())
      (\<lambda>_. middle good below l p u)"
    if "good \<longrightarrow> c = below (f u) (f p)" "good \<longrightarrow> \<not> below (f p) (f l)" for c
  proof (cases c)
    case True
    have "sorts s0 t good l u f (set2 A t (ix p) (ix u) (f u) (f p)) (\<lambda>_. middle good below l p u)"
      by (rule sorts_part [OF sorts_set2 [of l p u u]])
        (use p u slots that True ends strict_weak_asym [OF sw] in \<open>auto simp: middle_def\<close>)
    then show ?thesis using True by simp
  qed (use that in \<open>auto simp: middle_def intro: sorts_ret\<close>)
  have low: "sorts s0 t good l u f (set2 A t (ix p) (ix l) (f l) (f p)) (\<lambda>_. middle good below l p u)"
    if "good \<longrightarrow> below (f p) (f l)"
    by (rule sorts_part [OF sorts_set2 [of l p u l]])
      (use p u slots that ends strict_weak_asym [OF sw] in \<open>auto simp: middle_def\<close>)
  have rest: "sorts s0 t good l u f (if c then set2 A t (ix p) (ix l) (f l) (f p)
      else andThen (get_u A t (ix u)) (\<lambda>vup. andThen (lt vup (f p))
        (\<lambda>c'. if c' then set2 A t (ix p) (ix u) vup (f p) else ret ()))) (\<lambda>_. middle good below l p u)"
    if c: "good \<longrightarrow> c = below (f p) (f l)" for c
  proof (cases c)
    case False
    have "sorts s0 t good l u f (andThen (get_u A t (ix u)) (\<lambda>vup. andThen (lt vup (f p))
        (\<lambda>c'. if c' then set2 A t (ix p) (ix u) vup (f p) else ret ()))) (\<lambda>_. middle good below l p u)"
    proof (rule sorts_bind [OF sorts_get [OF u]], elim conjE, hypsubst)
      show "sorts s0 t good l u f (andThen (lt (f u) (f p))
        (\<lambda>c'. if c' then set2 A t (ix p) (ix u) (f u) (f p) else ret ())) (\<lambda>_. middle good below l p u)"
        by (rule sorts_bind [OF sorts_lt [OF lt]], elim conjE, hypsubst, rule up) (use c False in auto)
    qed
    then show ?thesis using False by simp
  qed (use c low in auto)
  show ?thesis
    unfolding order_middle_def
  proof (rule sorts_bind [OF sorts_get [OF b(2)]], elim conjE, hypsubst)
    show "sorts s0 t good l u f (andThen (get_u A t (ix l)) (\<lambda>vlo. andThen (lt (f p) vlo)
       (\<lambda>c. if c then set2 A t (ix p) (ix l) vlo (f p)
            else andThen (get_u A t (ix u)) (\<lambda>vup. andThen (lt vup (f p))
              (\<lambda>c'. if c' then set2 A t (ix p) (ix u) vup (f p) else ret ()))))) (\<lambda>_. middle good below l p u)"
    proof (rule sorts_bind [OF sorts_get [OF b(1)]], elim conjE, hypsubst)
      show "sorts s0 t good l u f (andThen (lt (f p) (f l))
       (\<lambda>c. if c then set2 A t (ix p) (ix l) (f l) (f p)
            else andThen (get_u A t (ix u)) (\<lambda>vup. andThen (lt vup (f p))
              (\<lambda>c'. if c' then set2 A t (ix p) (ix u) vup (f p) else ret ())))) (\<lambda>_. middle good below l p u)"
        by (rule sorts_bind [OF sorts_lt [OF lt]], elim conjE, hypsubst, rule rest)
    qed
  qed
qed

lemma sorts_partition:
  assumes lt: "order_fun lt good below" and u: "l + 3 \<le> u" "u < 2 ^ 31"
    and slots: "\<And>k. l \<le> k \<Longrightarrow> k \<le> u \<Longrightarrow> slot s0 t (at k)"
    and P: "f (u - 1) = P" "good \<longrightarrow> \<not> below P (f l) \<and> \<not> below (f u) P"
  shows "sorts s0 t good l u f (partition_u A lt t P (ix l) (ix u)) (cut good below l u)"
proof -
  have "good \<longrightarrow> parted below P l l (u - 1) u f"
  proof
    assume good
    have "\<not> below P P" using strict_weak_irrefl [OF order_funD [OF lt \<open>good\<close>]] .
    moreover have "k = u - 1 \<or> k = u" if "u - 1 \<le> k" "k \<le> u" for k using that by linarith
    ultimately have "\<not> below (f k) P" if "u - 1 \<le> k" "k \<le> u" for k
      using P \<open>good\<close> that by metis
    then show "parted below P l l (u - 1) u f" using P(2) \<open>good\<close> by (simp add: parted_def)
  qed
  note parted = this
  have ge: "l \<le> l" "l < u - 1" "u - 1 \<le> u - 1" "u - 1 - l \<le> unat (ix u)"
    using u by (simp_all add: unat_ix)
  from sorts_partition_loop [OF lt u(2) slots ge(1,2,2,3,4) P(1) parted]
  have "sorts s0 t good l u f (partition_loop A lt t P (ix u) (unat (ix u)) (ix l) (ix (u - 1))) (cut good below l u)" .
  moreover have "0 < u" using u by simp
  ultimately show ?thesis unfolding partition_u_def by (simp only: ix_pred)
qed

section \<open>The recursion\<close>

definition randomizer :: "('s, 'e lib_error, u32) prog \<Rightarrow> bool" where
  "randomizer m \<longleftrightarrow> pure_call m \<and> (\<forall>s e s'. ok s \<longrightarrow> m s \<noteq> (Inl e, s'))"

lemma sorts_random:
  assumes "randomizer R"
  shows "sorts s0 t good l u f (if b then R else ret r) (\<lambda>_ g. g = f)"
proof (rule sortsI)
  fix s r' s' assume s: "elems_are s0 t f s" and run: "(if b then R else ret r) s = (Inr r', s')"
  have "elems_are s0 t f s'"
  proof (cases b)
    case True
    then show ?thesis using pure_callD(1) [OF _ s, of R] assms run by (auto simp: randomizer_def)
  qed (use run s in \<open>simp add: ret_def\<close>)
  then show "\<exists>g. elems_are s0 t g s' \<and> permr l u f g \<and> g = f" by blast
next
  fix s e s' assume "elems_are s0 t f s" "(if b then R else ret r) s = (Inl e, s')"
  then show "\<exists>g. elems_are s0 t g s' \<and> permr l u f g \<and> bad_end good e"
    using assms by (auto simp: randomizer_def ret_def elems_are_def same_but_def split: if_splits)
qed

definition sorts_interval ::
  "'s \<Rightarrow> addr \<Rightarrow> bool \<Rightarrow> (tvalue \<Rightarrow> tvalue \<Rightarrow> bool) \<Rightarrow> nat \<Rightarrow> nat \<Rightarrow>
   (u32 \<Rightarrow> u32 \<Rightarrow> u32 \<Rightarrow> ('s, 'e lib_error, unit) prog) \<Rightarrow> bool" where
  "sorts_interval s0 t good below l u aux \<longleftrightarrow>
     (\<forall>f r. sorts s0 t good l u f (aux (ix l) (ix u) r) (\<lambda>_ g. good \<longrightarrow> sorted_on below l u g))"

text \<open>The recursive call on the smaller part and the next turn on the larger one.\<close>

definition halves ::
  "('s, 'e lib_error, u32) prog \<Rightarrow> (u32 \<Rightarrow> u32 \<Rightarrow> u32 \<Rightarrow> ('s, 'e lib_error, unit) prog) \<Rightarrow>
   u32 \<Rightarrow> u32 \<Rightarrow> u32 \<Rightarrow> u32 \<Rightarrow> ('s, 'e lib_error, unit) prog" where
  "halves R aux lo up rnd q =
     (let lower = q - lo < up - q;
          n = (if lower then q - lo else up - q);
          lo' = (if lower then q + 1 else lo);
          up' = (if lower then up else q - 1)
      in thenDo (if lower then aux lo (q - 1) rnd else aux (q + 1) up rnd)
        (andThen (if n < (up' - lo') div 128 then R else ret rnd) (aux lo' up')))"

lemma sorts_halves:
  assumes lt: "order_fun lt good below" and R: "randomizer R"
    and m: "l < m" "m < u" and sp: "good \<longrightarrow> split_at below l m u f"
    and lower: "sorts_interval s0 t good below l (m - 1) aux"
    and upper: "sorts_interval s0 t good below (m + 1) u aux"
  shows "sorts s0 t good l u f (halves R aux (ix l) (ix u) r (ix m))
    (\<lambda>_ g. good \<longrightarrow> sorted_on below l u g)"
proof -
  note sw = order_funD [OF lt]
  have w: "ix m - 1 = ix (m - 1)" "ix m + 1 = ix (m + 1)"
    using m ix_pred [of m] by simp_all
  let ?low = "\<lambda>g. good \<longrightarrow> sorted_on below l (m - 1) g"
  let ?high = "\<lambda>g. good \<longrightarrow> sorted_on below (m + 1) u g"
  have low: "sorts s0 t good l u g (aux (ix l) (ix (m - 1)) r) (\<lambda>_ h. permr l (m - 1) g h \<and> ?low h)" for g r
    by (rule sorts_part [OF lower [unfolded sorts_interval_def, rule_format]]) (use m in auto)
  have high: "sorts s0 t good l u g (aux (ix (m + 1)) (ix u) r) (\<lambda>_ h. permr (m + 1) u g h \<and> ?high h)" for g r
    by (rule sorts_part [OF upper [unfolded sorts_interval_def, rule_format]]) (use m in auto)
  have first: "sorts s0 t good l u f (thenDo (aux (ix l) (ix (m - 1)) r)
      (andThen (if b then R else ret r) (aux (ix (m + 1)) (ix u)))) (\<lambda>_ g. good \<longrightarrow> sorted_on below l u g)" for b
  proof (rule sorts_thenDo [OF low])
    fix g assume g: "permr l (m - 1) f g \<and> ?low g"
    show "sorts s0 t good l u g (andThen (if b then R else ret r) (aux (ix (m + 1)) (ix u)))
      (\<lambda>_ g. good \<longrightarrow> sorted_on below l u g)"
      by (rule sorts_bind [OF sorts_random [OF R]], hypsubst, rule sorts_part [OF high order.refl order.refl])
        (use g sorted_join [OF sw _ m] sp in blast)
  qed
  have second: "sorts s0 t good l u f (thenDo (aux (ix (m + 1)) (ix u) r)
      (andThen (if b then R else ret r) (aux (ix l) (ix (m - 1))))) (\<lambda>_ g. good \<longrightarrow> sorted_on below l u g)" for b
  proof (rule sorts_thenDo [OF high])
    fix g assume g: "permr (m + 1) u f g \<and> ?high g"
    show "sorts s0 t good l u g (andThen (if b then R else ret r) (aux (ix l) (ix (m - 1))))
      (\<lambda>_ g. good \<longrightarrow> sorted_on below l u g)"
      by (rule sorts_bind [OF sorts_random [OF R]], hypsubst, rule sorts_part [OF low order.refl order.refl])
        (use g sorted_join_upper [OF sw _ m] sp in blast)
  qed
  show ?thesis
    unfolding halves_def Let_def w using first second by (cases "ix m - ix l < ix u - ix m") (simp_all only: if_True if_False)
qed

lemma auxsort_turn:
  "auxsort A lt R t (Suc n) lo up rnd =
     (if lo < up then
        thenDo (order_ends A lt t lo up)
        (if up - lo = 1 then ret ()
         else
           let p = (if up - lo < RANLIMIT \<or> rnd = 0 then (lo + up) div 2 else choosePivot lo up rnd) in
           thenDo (order_middle A lt t lo p up)
           (if up - lo = 2 then ret ()
            else
              andThen (get_u A t p) (\<lambda>P.
              andThen (get_u A t (up - 1)) (\<lambda>v.
              thenDo (set2 A t p (up - 1) v P)
              (andThen (partition_u A lt t P lo up) (halves R (auxsort A lt R t n) lo up rnd))))))
      else ret ())"
  by (simp add: halves_def [abs_def] Let_def)

lemma sorted_single: "strict_weak below \<Longrightarrow> sorted_on below u u g"
  unfolding sorted_on_def by (metis le_antisym le_trans strict_weak_irrefl)

lemma sorted_small:
  assumes "strict_weak below" "l < u" "u \<le> l + 2" "\<not> below (g u) (g l)"
    and "u = l + 2 \<longrightarrow> \<not> below (g (l + 1)) (g l) \<and> \<not> below (g u) (g (l + 1))"
  shows "sorted_on below l u g"
  unfolding sorted_on_def
proof (intro allI impI)
  fix i j assume "l \<le> i" "i \<le> j" "j \<le> u"
  then have "i = j \<or> i = l \<and> j = u \<or> u = l + 2 \<and> (i = l \<and> j = l + 1 \<or> i = l + 1 \<and> j = u)"
    using assms(2,3) by linarith
  then show "\<not> below (g j) (g i)"
    using strict_weak_irrefl [OF assms(1)] assms(4,5) by auto
qed

text \<open>A turn after the three elements are in order: the partition and the two parts.\<close>

lemma sorts_rest:
  assumes lt: "order_fun lt good below" and R: "randomizer R"
    and u: "l + 3 \<le> u" "u < 2 ^ 31" and p: "l < p" "p < u"
    and slots: "\<And>k. l \<le> k \<Longrightarrow> k \<le> u \<Longrightarrow> slot s0 t (at k)"
    and mid: "middle good below l p u f"
    and parts: "\<And>m. l < m \<Longrightarrow> m < u \<Longrightarrow> sorts_interval s0 t good below l (m - 1) aux"
      "\<And>m. l < m \<Longrightarrow> m < u \<Longrightarrow> sorts_interval s0 t good below (m + 1) u aux"
  shows "sorts s0 t good l u f
    (andThen (get_u A t (ix p)) (\<lambda>P. andThen (get_u A t (ix u - 1)) (\<lambda>v.
       thenDo (set2 A t (ix p) (ix u - 1) v P)
       (andThen (partition_u A lt t P (ix l) (ix u)) (halves R aux (ix l) (ix u) r)))))
    (\<lambda>_ g. good \<longrightarrow> sorted_on below l u g)"
proof -
  have w: "p < 2 ^ 32" "u - 1 < 2 ^ 32" "ix u - 1 = ix (u - 1)" "u < 2 ^ 32"
    using u p ix_pred [of u] by simp_all
  show ?thesis
    unfolding w(3)
  proof (rule sorts_bind [OF sorts_get [OF w(1)]], elim conjE, hypsubst,
      rule sorts_bind [OF sorts_get [OF w(2)]], elim conjE, hypsubst,
      rule sorts_thenDo [OF sorts_set2])
    fix g assume g: "g = f(p := f (u - 1), u - 1 := f p)"
    have P: "g (u - 1) = f p" "good \<longrightarrow> \<not> below (f p) (g l) \<and> \<not> below (g u) (f p)"
      using g mid p u by (auto simp: middle_def)
    show "sorts s0 t good l u g (andThen (partition_u A lt t (f p) (ix l) (ix u)) (halves R aux (ix l) (ix u) r))
      (\<lambda>_ g. good \<longrightarrow> sorted_on below l u g)"
    proof (rule sorts_bind [OF sorts_partition [OF lt u slots P]])
      fix q h assume "cut good below l u q h"
      then obtain m where m: "q = ix m" "l < m" "m < u" "good \<longrightarrow> split_at below l m u h"
        using u by (auto simp: cut_def)
      show "sorts s0 t good l u h (halves R aux (ix l) (ix u) r q) (\<lambda>_ g. good \<longrightarrow> sorted_on below l u g)"
        unfolding m(1) by (rule sorts_halves [OF lt R m(2-4) parts [OF m(2,3)]])
    qed
  qed (use p u w slots in auto)
qed

theorem sorts_auxsort:
  assumes lt: "order_fun lt good below" and R: "randomizer R"
  shows "l \<le> u \<Longrightarrow> u < 2 ^ 31 \<Longrightarrow> (\<And>k. l \<le> k \<Longrightarrow> k \<le> u \<Longrightarrow> slot s0 t (at k)) \<Longrightarrow> u - l \<le> n \<Longrightarrow>
    sorts_interval s0 t good below l u (auxsort A lt R t n)"
proof (induction n arbitrary: l u)
  case 0
  then have "l = u" by simp
  then show ?case
    using sorted_single [OF order_funD [OF lt]]
    by (auto simp: sorts_interval_def intro!: sorts_ret)
next
  case (Suc n)
  note sw = order_funD [OF lt]
  have u: "u < 2 ^ 32" "l < 2 ^ 32" using Suc.prems by simp_all
  show ?case
  proof (cases "l < u")
    case False
    then have "l = u" using Suc.prems by simp
    then show ?thesis
      using sorted_single [OF sw]
      by (auto simp: sorts_interval_def intro!: sorts_ret)
  next
    case lu: True
    have parts: "sorts_interval s0 t good below l (m - 1) (auxsort A lt R t n)"
      "sorts_interval s0 t good below (m + 1) u (auxsort A lt R t n)" if "l < m" "m < u" for m
      using that Suc.prems by (auto intro!: Suc.IH)
    have diff: "ix u - ix l = ix (u - l)" using lu by (intro ix_diff) simp
    have step: "sorts s0 t good l u g
        (if ix u - ix l = 1 then ret ()
         else let p = (if ix u - ix l < RANLIMIT \<or> r = 0 then (ix l + ix u) div 2 else choosePivot (ix l) (ix u) r) in
           thenDo (order_middle A lt t (ix l) p (ix u))
           (if ix u - ix l = 2 then ret ()
            else andThen (get_u A t p) (\<lambda>P. andThen (get_u A t (ix u - 1)) (\<lambda>v.
              thenDo (set2 A t p (ix u - 1) v P)
              (andThen (partition_u A lt t P (ix l) (ix u)) (halves R (auxsort A lt R t n) (ix l) (ix u) r))))))
        (\<lambda>_ g. good \<longrightarrow> sorted_on below l u g)" (is "sorts _ _ _ _ _ _ (if _ then _ else ?rest) _")
      if ends: "good \<longrightarrow> \<not> below (g u) (g l)" for g r
    proof (cases "u = l + 1")
      case True
      then have "ix u - ix l = 1" by simp
      moreover have "good \<longrightarrow> sorted_on below l u g"
        using sorted_small [of below l u g] sw ends True by simp
      ultimately show ?thesis by (simp add: sorts_ret)
    next
      case False
      have ne: "ix u - ix l \<noteq> 1"
        unfolding diff using False lu u ix_inj [of "u - l" 1] by (simp del: of_nat_diff)
      obtain p where p: "(if ix u - ix l < RANLIMIT \<or> r = 0 then (ix l + ix u) div 2
          else choosePivot (ix l) (ix u) r) = ix p" "l < p" "p < u"
        using pivot_inside [of l u r] False lu Suc.prems(2) by auto
      have "sorts s0 t good l u g ?rest (\<lambda>_ g. good \<longrightarrow> sorted_on below l u g)"
        unfolding Let_def p(1)
      proof (rule sorts_thenDo [OF sorts_order_middle [OF lt p(2,3) u(1) Suc.prems(3) ends]], assumption, assumption)
        fix h assume mid: "middle good below l p u h"
        show "sorts s0 t good l u h
           (if ix u - ix l = 2 then ret ()
            else andThen (get_u A t (ix p)) (\<lambda>P. andThen (get_u A t (ix u - 1)) (\<lambda>v.
              thenDo (set2 A t (ix p) (ix u - 1) v P)
              (andThen (partition_u A lt t P (ix l) (ix u)) (halves R (auxsort A lt R t n) (ix l) (ix u) r)))))
           (\<lambda>_ g. good \<longrightarrow> sorted_on below l u g)"
        proof (cases "u = l + 2")
          case True
          then have "p = l + 1" "ix u - ix l = 2" using p(2,3) by simp_all
          moreover have "good \<longrightarrow> sorted_on below l u h"
          proof
            assume good
            then have m: "\<not> below (h (l + 1)) (h l)" "\<not> below (h u) (h (l + 1))"
              using mid \<open>p = l + 1\<close> by (simp_all add: middle_def)
            then have "\<not> below (h u) (h l)" by (rule strict_weak_trans [OF sw [OF \<open>good\<close>]])
            then show "sorted_on below l u h"
              using sorted_small [of below l u h, OF sw [OF \<open>good\<close>]] True m by simp
          qed
          ultimately show ?thesis by (simp add: sorts_ret)
        next
          case big: False
          have "ix u - ix l \<noteq> 2"
            unfolding diff using big False lu u ix_inj [of "u - l" 2] by (simp del: of_nat_diff)
          moreover have "l + 3 \<le> u" using big False lu by linarith
          ultimately show ?thesis
            using sorts_rest [OF lt R _ Suc.prems(2) p(2,3) Suc.prems(3) mid parts] by simp
        qed
      qed
      then show ?thesis using ne by (simp only: if_False)
    qed
    have "ix l < ix u" using lu u ix_less by blast
    then show ?thesis
      unfolding sorts_interval_def auxsort_turn if_P [OF \<open>ix l < ix u\<close>]
      by (intro allI sorts_thenDo [OF sorts_order_ends [OF lt lu u(1) Suc.prems(3)]] step) assumption+
  qed
qed

section \<open>The library function\<close>

theorem tsort_spec:
  assumes lt: "order_fun (sort_comp f lua_lessthan) good below" and R: "randomizer R"
    and s: "ok s" "luaL_len A t s = (Inr (at n), s)" "n < INT_MAX" "proper_seq s t n"
    and stack: "checkstack A 40 s = (Inr True, s)"
    and run: "tsort A lua_lessthan f R t s = (r, s')"
  shows "same_but s t s' \<and> permr 1 n (arr t s) (arr t s') \<and>
    (case r of Inr u \<Rightarrow> good \<longrightarrow> sorted_on below 1 n (arr t s') | Inl e \<Rightarrow> bad_end good e)"
proof -
  have n: "n < 2 ^ 31" "n < 2 ^ 63" using s(3) by (simp_all add: INT_MAX_def)
  have start: "elems_are s t (arr t s) s" using s(1) by (simp add: elems_are_def same_but_def)
  have slots: "\<And>k. 1 \<le> k \<Longrightarrow> k \<le> n \<Longrightarrow> slot s t (at k)"
    using proper_seqD [OF s(4)] slot_present [OF s(1)] by simp
  show ?thesis
  proof (cases "1 < n")
    case False
    then have "\<not> (1 :: lua_Integer) <s at n" using at_less [of 1 n] n by simp
    then have "r = Inr ()" "s' = s"
      using run s(2) by (simp_all add: tsort_def prog_simps ret_def)
    moreover have "good \<longrightarrow> sorted_on below 1 n (arr t s)"
      using sorted_single [OF order_funD [OF lt], of 1 "arr t s"] False
      by (cases "n = 1") (auto simp: sorted_on_def)
    ultimately show ?thesis using start by (simp add: elems_are_def)
  next
    case True
    then have c: "(1 :: lua_Integer) <s at n" "at n <s of_nat INT_MAX"
      using at_less [of 1 n] at_less [of n INT_MAX] n s(3) by (simp_all add: INT_MAX_def)
    have u: "unat (at n) = n" "ucast (at n) = ix n"
      using n by (simp_all add: unsigned_of_nat take_bit_nat_eq_self)
    show ?thesis
    proof (cases "\<exists>ty. f = Not_function ty")
      case bad: True
      then obtain ty where f: "f = Not_function ty" ..
      have "r = Inl (Arg_error 2 (bytes_of ''function expected, got '' @ ty))" "s' = s"
        using run s(2) c stack u by (simp_all add: f tsort_def prog_simps luaL_argcheck_def stop_def)
      moreover have "\<not> good"
        using lt s(1) by (auto simp: f order_fun_def sort_comp_def stop_def)
      ultimately show ?thesis using start by (simp add: elems_are_def bad_end_def)
    next
      case False
      have "auxsort A (sort_comp f lua_lessthan) R t n (ix 1) (ix n) 0 s = (r, s')"
        using run s(2) c stack u False
        by (cases f) (simp_all add: tsort_def prog_simps luaL_argcheck_def)
      moreover have "sorts_interval s t good below 1 n (auxsort A (sort_comp f lua_lessthan) R t n)"
        by (rule sorts_auxsort [OF lt R _ n(1) slots]) (use True in simp_all)
      then have "sorts s t good 1 n (arr t s) (auxsort A (sort_comp f lua_lessthan) R t n (ix 1) (ix n) 0)
        (\<lambda>_ g. good \<longrightarrow> sorted_on below 1 n g)"
        unfolding sorts_interval_def by blast
      ultimately show ?thesis
        using sorts_Inr [OF _ start] sorts_Inl [OF _ start] by (cases r) (fastforce simp: elems_are_def)+
    qed
  qed
qed

theorem tsort_too_big:
  assumes "luaL_len A t s = (Inr (at n), s)" "INT_MAX \<le> n" "n < 2 ^ 62"
  shows "tsort A lua_lessthan f R t s = (Inl (Arg_error 1 (bytes_of ''array too big'')), s)"
proof -
  have "(1 :: lua_Integer) <s at n" "\<not> at n <s of_nat INT_MAX"
    using at_less [of 1 n] at_less [of n INT_MAX] assms(2,3) by (simp_all add: INT_MAX_def)
  then show ?thesis using assms(1) by (simp add: tsort_def prog_simps luaL_argcheck_def)
qed

end

end
