(* ===== verification/LuaTableGrow.thy ===== *)
theory LuaTableGrow
  imports LuaTableWalk
begin

text \<open>
  How much a table grows: an assignment adds at most one entry, and a table that grows is sized by
  the number of its entries. A table below the limit therefore takes a known number of assignments.
\<close>

section \<open>The number of entries\<close>

lemma filled_entries: "filled t = length (entries t 0)"
proof -
  have split: "[0..<slots t] = [0..<sizearray t] @ map (\<lambda>i. sizearray t + i) [0..<sizenode t]"
    by (rule nth_equalityI) (auto simp: slots_def nth_append)
  have "map (slot_pair t) [0..<sizearray t] =
      map (\<lambda>i. (Int_v (word_of_nat (i + 1)), array t ! i)) [0..<length (array t)]"
    by (simp add: slot_pair_def sizearray_def)
  then have "map snd (map (slot_pair t) [0..<sizearray t]) = array t"
    by (simp add: comp_def map_nth)
  then have "length (filter (\<lambda>p. snd p \<noteq> Nil_v) (map (slot_pair t) [0..<sizearray t])) =
      length (filter (\<lambda>v. v \<noteq> Nil_v) (array t))"
    by (metis (no_types, lifting) comp_apply filter_cong filter_map length_map)
  moreover have "length (filter (\<lambda>v. v \<noteq> Nil_v) (array t)) = length (array_indices (array t))"
    using used_above [of "array t" 0] by (simp add: array_indices_def)
  moreover have "map snd (map (slot_pair t) (map (\<lambda>i. sizearray t + i) [0..<sizenode t])) =
      map val (nodes t)"
    by (rule nth_equalityI) (simp_all add: slot_pair_def sizenode_def)
  then have "length (filter (\<lambda>p. snd p \<noteq> Nil_v) (map (slot_pair t) (map (\<lambda>i. sizearray t + i) [0..<sizenode t]))) =
      length (filter (\<lambda>v. v \<noteq> Nil_v) (map val (nodes t)))"
    by (metis (no_types, lifting) comp_apply filter_cong filter_map length_map)
  then have "length (filter (\<lambda>p. snd p \<noteq> Nil_v) (map (slot_pair t) (map (\<lambda>i. sizearray t + i) [0..<sizenode t]))) =
      length (live_nodes (nodes t))"
    by (simp add: live_nodes_def filter_map comp_def)
  ultimately show ?thesis by (simp add: filled_def entries_def split)
qed

lemma filled_le: "filled t \<le> sizearray t + sizenode t"
  using length_filter_le [of "\<lambda>p. snd p \<noteq> Nil_v" "map (slot_pair t) [0..<slots t]"]
  by (simp add: filled_entries entries_def slots_def)

text \<open>A map that has at most one entry more fills at most one entry more.\<close>

lemma filled_step:
  assumes "table_ok st t" "table_ok st t'" "proper k"
    and "\<And>q. proper q \<Longrightarrow> key_typed st q \<Longrightarrow> lookup st t' q \<noteq> Nil_v \<Longrightarrow>
      lookup st t q \<noteq> Nil_v \<or> luaV_rawequalobj st k q"
  shows "filled t' \<le> filled t + 1"
proof -
  define es where "es = entries t 0"
  define es' where "es' = entries t' 0"
  define raw where "raw = luaV_rawequalobj st"
  let ?key = "\<lambda>j. if j < length es then fst (es ! j) else k"
  have "\<exists>j \<le> length es. proper (?key j) \<and> raw (?key j) (fst (es' ! i))" if "i < length es'" for i
  proof -
    let ?q = "fst (es' ! i)"
    have q: "proper ?q" "key_typed st ?q" "lookup st t' ?q \<noteq> Nil_v"
      using entries_lookup [OF assms(2), of "es' ! i"] that by (auto simp: es'_def)
    show ?thesis
    proof (cases "raw k ?q")
      case True
      then show ?thesis using assms(3) by (intro exI [of _ "length es"]) simp
    next
      case False
      then have "lookup st t ?q \<noteq> Nil_v" using assms(4) [OF q] by (simp add: raw_def)
      then obtain p where "(p, lookup st t ?q) \<in> set es" "raw p ?q"
        using lookup_entries [OF assms(1) q(1)] unfolding raw_def es_def by blast
      then obtain j where "j < length es" "fst (es ! j) = p" by (metis fst_conv in_set_conv_nth)
      moreover have "proper p"
        using entries_lookup [OF assms(1)] \<open>(p, lookup st t ?q) \<in> set es\<close> by (auto simp: es_def)
      ultimately show ?thesis using \<open>raw p ?q\<close> by (intro exI [of _ j]) simp
    qed
  qed
  then obtain f where f: "f i \<le> length es" "proper (?key (f i))" "raw (?key (f i)) (fst (es' ! i))"
    if "i < length es'" for i
    by metis
  have "inj_on f {..<length es'}"
  proof (rule inj_onI)
    fix i j
    assume ij: "i \<in> {..<length es'}" "j \<in> {..<length es'}" "f i = f j"
    have pr: "proper (fst (es' ! i))" "proper (fst (es' ! j))"
      using entries_lookup [OF assms(2)] ij by (auto simp: es'_def)
    have "raw (fst (es' ! i)) (fst (es' ! j))"
      using rawequal_trans [OF pr(1) f(2) pr(2)] rawequal_sym [OF f(2) pr(1)] f(3) ij
      unfolding raw_def by (metis lessThan_iff)
    then show "i = j" using entries_keys [OF assms(2)] ij by (simp add: raw_def es'_def)
  qed
  moreover have "f ` {..<length es'} \<subseteq> {..length es}" using f(1) by auto
  ultimately have "length es' \<le> length es + 1"
    using card_inj_on_le [of f "{..<length es'}" "{..length es}"] by simp
  then show ?thesis by (simp add: filled_entries es_def es'_def)
qed

section \<open>Space for assignments\<close>

text \<open>\<open>m\<close> more entries leave the table below its limit.\<close>

definition space_for :: "table \<Rightarrow> nat \<Rightarrow> bool" where
  "space_for t m \<longleftrightarrow> m = 0 \<or> sizearray t + sizenode t < 2 ^ 30 \<and> 2 * (filled t + m) + 1 < 2 ^ 30"

lemma space_sizes: "sizearray t + sizenode t + m < 2 ^ 29 \<Longrightarrow> space_for t m"
  using filled_le [of t] by (simp add: space_for_def)

lemma space_step:
  "space_for t (Suc m) \<Longrightarrow> grown t t' \<Longrightarrow> filled t' \<le> filled t + 1 \<Longrightarrow> space_for t' m"
  by (auto simp: space_for_def grown_def)

lemma grown_write: "grown t t' \<Longrightarrow> grown t (write_cell t' c v)"
  by (simp add: grown_def)

end
