(* ===== verification/LuaHeapProps.thy ===== *)
theory LuaHeapProps
  imports LuaHeap LuaSortAux LuaTableGrow
begin

text \<open>
  The heap of tables provides the contract \<open>lua_tables\<close>, so that the lemmas on the table library
  hold of the real tables of \<open>LuaTable\<close>, with their array parts, hash parts and rehashes.
\<close>

section \<open>The contract\<close>

definition heap_ok :: "lua_env \<Rightarrow> heap \<Rightarrow> bool" where
  "heap_ok E h \<longleftrightarrow> (\<exists>seed. strings_ok (strs E) seed) \<and> (\<forall>a. table_ok (strs E) (tabs h a))"

definition heap_view :: "lua_env \<Rightarrow> heap \<Rightarrow> addr \<Rightarrow> lua_Integer \<Rightarrow> tvalue" where
  "heap_view E h a i = lookup (strs E) (tabs h a) (Int_v i)"

definition heap_slot :: "lua_env \<Rightarrow> heap \<Rightarrow> addr \<Rightarrow> lua_Integer \<Rightarrow> bool" where
  "heap_slot E h a i \<longleftrightarrow> cell_of (strs E) (tabs h a) (Int_v i) \<noteq> Nilobject"

definition heap_room :: "heap \<Rightarrow> addr \<Rightarrow> bool" where
  "heap_room h a \<longleftrightarrow> sizearray (tabs h a) + sizenode (tabs h a) < 2 ^ 30"

definition heap_space :: "heap \<Rightarrow> addr \<Rightarrow> nat \<Rightarrow> bool" where
  "heap_space h a m \<longleftrightarrow> space_for (tabs h a) m"

lemma heap_okD:
  assumes "heap_ok E h"
  obtains seed where "strings_ok (strs E) seed" "\<And>a. table_ok (strs E) (tabs h a)"
  using assms unfolding heap_ok_def by blast

lemma heap_getint: "heap_ok E h \<Longrightarrow> luaH_getint (tabs h a) i = Some (cell_of (strs E) (tabs h a) (Int_v i))"
  by (metis heap_okD getint_spec)

lemma heap_geti: "heap_ok E h \<Longrightarrow> lua_geti a i h = (Inr (heap_view E h a i), h)"
  by (simp add: lua_geti_def heap_getint heap_view_def lookup_def ret_def)

text \<open>An assignment at an integer is \<open>luaH_setint\<close>.\<close>

lemma luaV_set_setint:
  "luaV_set st t (luaH_getint t i) (Int_v i) v = luaH_setint st 2 t i v"
  by (simp add: luaV_set_def luaV_finishset_def luaH_setint_def setint_with_def read_cell_def
      split: option.split cell.split)

lemma heap_setint:
  assumes "heap_ok E h" "heap_slot E h a i \<or> heap_room h a"
  shows "\<exists>t. luaH_setint (strs E) 2 (tabs h a) i v = Inr t \<and> table_ok (strs E) t \<and>
    (\<forall>j. lookup (strs E) t (Int_v j) = (if j = i then v else heap_view E h a j)) \<and>
    grown (tabs h a) t \<and> filled t \<le> filled (tabs h a) + 1 \<and>
    (heap_slot E h a i \<longrightarrow> t = write_cell (tabs h a) (cell_of (strs E) (tabs h a) (Int_v i)) v)"
proof -
  let ?st = "strs E" and ?t = "tabs h a"
  obtain seed where ok: "strings_ok ?st seed" "table_ok ?st ?t" using assms(1) by (metis heap_okD)
  have "\<exists>t' c. luaH_set ?st 2 ?t (Int_v i) = Inr (t', c) \<and> has_cell ?st ?t (Int_v i) t' c \<and>
      grown ?t t' \<and> (heap_slot E h a i \<longrightarrow> t' = ?t \<and> c = cell_of ?st ?t (Int_v i))"
  proof (cases "heap_slot E h a i")
    case True
    have "luaH_get ?st ?t (Int_v i) = Some (cell_of ?st ?t (Int_v i))"
      using get_proper [OF ok, of "Int_v i"] by (simp add: key_typed_def)
    then show ?thesis
      using True ok(2)
      by (auto simp: luaH_set_def set_with_def has_cell_def heap_slot_def grown_def split: cell.split)
  next
    case False
    then have "sizearray ?t + sizenode ?t < 2 ^ 30" using assms(2) by (simp add: heap_room_def)
    then show ?thesis
      using set_any [OF ok, of "Int_v i" 0] False by (auto simp: key_typed_def numeral_2_eq_2)
  qed
  then obtain t' c where t': "luaH_set ?st 2 ?t (Int_v i) = Inr (t', c)" "has_cell ?st ?t (Int_v i) t' c"
    "grown ?t t'" "heap_slot E h a i \<longrightarrow> t' = ?t \<and> c = cell_of ?st ?t (Int_v i)"
    by blast
  moreover have "filled (write_cell t' c v) \<le> filled ?t + 1"
    using has_cell_write [OF t'(2)] by (intro filled_step [OF ok(2), of _ "Int_v i"]) (auto split: if_splits)
  ultimately show ?thesis
    using has_cell_write [OF t'(2)] rawequal_Int
    by (auto simp: setint_any heap_view_def key_typed_def grown_write)
qed

lemma heap_seti:
  assumes "heap_ok E h" "heap_slot E h a i \<or> heap_room h a"
  shows "\<exists>h'. lua_seti E a i v h = (Inr (), h') \<and> heap_ok E h' \<and>
    heap_view E h' = (heap_view E h)(a := (heap_view E h a)(i := v)) \<and>
    (heap_slot E h a i \<longrightarrow> heap_slot E h' = heap_slot E h \<and> heap_room h' = heap_room h) \<and>
    (\<forall>m. heap_space h a (Suc m) \<longrightarrow> heap_space h' a m)"
proof -
  obtain t where t: "luaH_setint (strs E) 2 (tabs h a) i v = Inr t" "table_ok (strs E) t"
    "\<forall>j. lookup (strs E) t (Int_v j) = (if j = i then v else heap_view E h a j)"
    "grown (tabs h a) t" "filled t \<le> filled (tabs h a) + 1"
    "heap_slot E h a i \<longrightarrow> t = write_cell (tabs h a) (cell_of (strs E) (tabs h a) (Int_v i)) v"
    using heap_setint [OF assms] by blast
  let ?h = "h\<lparr>tabs := (tabs h)(a := t)\<rparr>"
  have "lua_seti E a i v h = (Inr (), ?h)"
    using t(1) by (simp add: lua_seti_def store_def luaV_set_setint put_table_def)
  moreover have "heap_ok E ?h" using assms(1) t(2) by (auto simp: heap_ok_def)
  moreover have "heap_view E ?h = (heap_view E h)(a := (heap_view E h a)(i := v))"
    using t(3) by (auto simp: fun_eq_iff heap_view_def)
  moreover have "heap_slot E ?h = heap_slot E h \<and> heap_room ?h = heap_room h" if "heap_slot E h a i"
    using t(6) that by (auto simp: fun_eq_iff heap_slot_def heap_room_def)
  moreover have "heap_space ?h a m" if "heap_space h a (Suc m)" for m
    using space_step [OF _ t(4,5)] that by (simp add: heap_space_def)
  ultimately show ?thesis by blast
qed

lemma heap_len:
  assumes "heap_ok E h"
  shows "\<exists>n < 2 ^ 32. luaH_getn (tabs h a) = Some n \<and> luaV_objlen a h = (Inr (primitive_len n), h) \<and>
    border (strs E) (tabs h a) n"
proof -
  obtain seed where ok: "strings_ok (strs E) seed" "table_ok (strs E) (tabs h a)" using assms by (metis heap_okD)
  show ?thesis using getn_result [OF ok] by (auto simp: luaV_objlen_def ret_def)
qed

lemma sint_int: "n < 2 ^ 31 \<Longrightarrow> sint (word_of_nat n :: 32 word) = int n"
  by (simp add: signed_of_nat signed_take_bit_int_eq_self)

lemma primitive_len_at: "n < 2 ^ 31 \<Longrightarrow> primitive_len n = at n"
  by (simp add: primitive_len_def scast_eq sint_int)

lemma primitive_len_inj:
  assumes "primitive_len m = at n" "m < 2 ^ 32" "n < 2 ^ 31"
  shows "m = n"
proof -
  have "sint (primitive_len m) = sint (word_of_nat m :: 32 word)"
    unfolding primitive_len_def by (rule sint_up_scast) (simp add: is_up)
  then have "sint (word_of_nat m :: 32 word) = sint (word_of_nat n :: 32 word)"
    using assms(1,3) by (simp add: sint_at sint_int)
  then have "(word_of_nat m :: 32 word) = word_of_nat n" by (rule signed_word_eqI)
  then show ?thesis using assms(2,3) ix_inj [of m n] by simp
qed

interpretation plain: lua_tables "plain_api E" "heap_ok E" "heap_view E" "heap_slot E" heap_room heap_space
proof unfold_locales
  fix h a i v
  show "heap_ok E h \<Longrightarrow> geti (plain_api E) a i h = (Inr (heap_view E h a i), h)"
    by (simp add: heap_geti)
  show "heap_ok E h \<Longrightarrow> heap_slot E h a i \<or> heap_room h a \<Longrightarrow>
      \<exists>h'. seti (plain_api E) a i v h = (Inr (), h') \<and> heap_ok E h' \<and>
        heap_view E h' = (heap_view E h)(a := (heap_view E h a)(i := v))"
    using heap_seti [of E h a i v] by auto
  show "heap_slot E h' = heap_slot E h \<and> heap_room h' = heap_room h"
    if "heap_ok E h" "heap_slot E h a i" "seti (plain_api E) a i v h = (Inr (), h')" for h'
    using heap_seti [of E h a i v] that by auto
  show "heap_space h a (Suc m) \<Longrightarrow> heap_room h a" for m
    by (simp add: heap_space_def space_for_def heap_room_def)
  show "heap_space h' a m"
    if "heap_ok E h" "heap_space h a (Suc m)" "seti (plain_api E) a i v h = (Inr (), h')" for h' m
  proof -
    have "heap_room h a" using that(2) by (simp add: heap_space_def space_for_def heap_room_def)
    then show ?thesis using heap_seti [of E h a i v] that by auto
  qed
  show "heap_view E h a i \<noteq> Nil_v \<Longrightarrow> heap_slot E h a i"
    by (auto simp: heap_view_def heap_slot_def lookup_def read_cell_def)
  show "\<exists>l. luaL_len (plain_api E) a h = (Inr l, h) \<and> (\<forall>n < 2 ^ 31. l = at n \<longrightarrow>
      (n = 0 \<or> heap_view E h a (at n) \<noteq> Nil_v) \<and> heap_view E h a (at (Suc n)) = Nil_v)"
    if "heap_ok E h"
  proof -
    obtain m where m: "m < 2 ^ 32" "luaV_objlen a h = (Inr (primitive_len m), h)" "border (strs E) (tabs h a) m"
      using heap_len [OF \<open>heap_ok E h\<close>] by blast
    have "m = n" if "n < 2 ^ 31" "primitive_len m = at n" for n
      using that m(1) primitive_len_inj by blast
    then show ?thesis using m(2,3) by (auto simp: border_def heap_view_def)
  qed
qed

section \<open>Tables that hold lists\<close>

text \<open>
  The abstract view of the library: the positive integer keys of table \<open>a\<close> hold exactly the
  list \<open>l\<close>, without holes. Other integer keys and other tables are \<open>elsewhere\<close>.
\<close>

definition seq_is :: "lua_env \<Rightarrow> heap \<Rightarrow> addr \<Rightarrow> tvalue list \<Rightarrow> bool" where
  "seq_is E h a l \<longleftrightarrow> heap_ok E h \<and> length l < INT_MAX \<and> Nil_v \<notin> set l \<and>
     (\<forall>k. 1 \<le> k \<longrightarrow> k < 2 ^ 63 \<longrightarrow>
       heap_view E h a (at k) = (if k \<le> length l then l ! (k - 1) else Nil_v))"

definition elsewhere :: "lua_env \<Rightarrow> heap \<Rightarrow> addr \<Rightarrow> heap \<Rightarrow> bool" where
  "elsewhere E h a h' \<longleftrightarrow>
     (\<forall>u j. u \<noteq> a \<or> sint j \<le> 0 \<longrightarrow> heap_view E h' u j = heap_view E h u j)"

lemma seq_len:
  assumes "seq_is E h a l"
  shows "luaH_getn (tabs h a) = Some (length l)" "luaV_objlen a h = (Inr (at (length l)), h)"
proof -
  have l: "heap_ok E h" "length l < 2 ^ 31" "Nil_v \<notin> set l" "\<And>k. 1 \<le> k \<Longrightarrow> k < 2 ^ 63 \<Longrightarrow>
      heap_view E h a (at k) = (if k \<le> length l then l ! (k - 1) else Nil_v)"
    using assms by (simp_all add: seq_is_def INT_MAX_def)
  obtain m where m: "m < 2 ^ 32" "luaH_getn (tabs h a) = Some m" "luaV_objlen a h = (Inr (primitive_len m), h)"
    "border (strs E) (tabs h a) m"
    using heap_len [OF l(1)] by blast
  have b: "m = 0 \<or> heap_view E h a (at m) \<noteq> Nil_v" "heap_view E h a (at (Suc m)) = Nil_v"
    using m(4) by (simp_all add: border_def heap_view_def)
  have "m \<le> length l"
    using b(1) l(4) [of m] m(1) by (cases "m = 0") (auto split: if_splits)
  moreover have "\<not> Suc m \<le> length l"
  proof
    assume h: "Suc m \<le> length l"
    then have "l ! m = Nil_v" using b(2) l(4) [of "Suc m"] m(1) by (simp del: of_nat_Suc)
    then show False using l(3) h nth_mem [of m l] by simp
  qed
  ultimately have "m = length l" by simp
  then show "luaH_getn (tabs h a) = Some (length l)" "luaV_objlen a h = (Inr (at (length l)), h)"
    using m(2,3) l(2) by (simp_all add: primitive_len_at)
qed

lemma seq_elems:
  assumes "seq_is E h a l"
  shows "heap_ok E h" "plain.elems E h a (length l) = l" "plain.proper_seq E h a (length l)"
    "length l < 2 ^ 62" "luaL_len (plain_api E) a h = (Inr (at (length l)), h)"
proof -
  have l: "heap_ok E h" "length l < 2 ^ 62" "Nil_v \<notin> set l" "\<And>k. 1 \<le> k \<Longrightarrow> k < 2 ^ 63 \<Longrightarrow>
      heap_view E h a (at k) = (if k \<le> length l then l ! (k - 1) else Nil_v)"
    using assms by (simp_all add: seq_is_def INT_MAX_def)
  show e: "plain.elems E h a (length l) = l"
    by (rule nth_equalityI) (use l(2) l(4) in \<open>simp_all add: plain.elems_nth del: of_nat_Suc\<close>)
  show "heap_ok E h" "length l < 2 ^ 62" by (fact l)+
  show "plain.proper_seq E h a (length l)" using l(3) by (simp add: plain.proper_seq_def e)
  show "luaL_len (plain_api E) a h = (Inr (at (length l)), h)" using seq_len(2) [OF assms] by simp
qed

lemma seq_isI:
  assumes "heap_ok E h" "length l < INT_MAX" "Nil_v \<notin> set l" "plain.elems E h a (length l) = l"
    and "\<And>k. length l < k \<Longrightarrow> k < 2 ^ 63 \<Longrightarrow> heap_view E h a (at k) = Nil_v"
  shows "seq_is E h a l"
proof -
  have "heap_view E h a (at k) = l ! (k - 1)" if "1 \<le> k" "k \<le> length l" for k
    using plain.elems_nth [of "k - 1" "length l" E h a] assms(4) that by simp
  then show ?thesis using assms(1-3,5) by (simp add: seq_is_def)
qed

lemma positive_at:
  assumes "0 < sint (j :: lua_Integer)"
  obtains k where "j = at k" "1 \<le> k" "k < 2 ^ 63"
proof -
  have "0 \<le>s j" using assms by (simp add: word_sle_eq)
  then obtain k where k: "k < 2 ^ 63" "j = at k" using at_cover by blast
  then have "1 \<le> k" using assms sint_at [of k] by (cases k) auto
  then show ?thesis using that k by blast
qed

lemma not_index: "j \<notin> at ` {1..n}" if "n < 2 ^ 63" "sint j \<le> 0"
  using that by (auto simp: sint_at)

lemma seq_after:
  assumes "seq_is E h a l" "length l < k" "k < 2 ^ 63"
  shows "heap_view E h a (at k) = Nil_v"
proof -
  have "1 \<le> k" using assms(2) by linarith
  then show ?thesis using assms unfolding seq_is_def by auto
qed

end
