(* ===== verification/LuaTabRefine.thy ===== *)
theory LuaTabRefine
  imports LuaHeapProps
begin

text \<open>
  The table library on real tables, as operations on lists: \<open>table.insert\<close>, \<open>table.remove\<close>,
  \<open>table.sort\<close> and \<open>table.move\<close> run over the heap of \<open>LuaHeap\<close>. The lemmas of the contract
  \<open>lua_tables\<close> are used through its interpretation \<open>plain\<close>.
\<close>

section \<open>Example tables\<close>

text \<open>An environment and heaps whose tables hold a list in their array part, for the examples.\<close>

definition example_env :: lua_env where
  "example_env = \<lparr>strs = short_strings, luaS_new = (\<lambda>_. 0), c_stack = (\<lambda>n. n \<le> 1000),
     str2num = (\<lambda>_. None), flt2str = (\<lambda>_. []), typename = (\<lambda>_. [])\<rparr>"

definition array_table :: "tvalue list \<Rightarrow> table" where
  "array_table l = \<lparr>array = l, nodes = [dummynode], isdummy = True, lastfree = 0\<rparr>"

definition example_heap :: "tvalue list \<Rightarrow> heap" where
  "example_heap l = \<lparr>tabs = (\<lambda>_. array_table l), fresh = 0\<rparr>"

lemma example_sizes [simp]: "sizearray (array_table l) = length l" "sizenode (array_table l) = 1"
  by (simp_all add: array_table_def sizearray_def sizenode_def)

lemma example_env_simps [simp]: "strs example_env = short_strings" "c_stack example_env n \<longleftrightarrow> n \<le> 1000"
  by (simp_all add: example_env_def)

lemma example_heap_ok: "length l \<le> 2 ^ 20 \<Longrightarrow> heap_ok example_env (example_heap l)"
proof -
  assume l: "length l \<le> 2 ^ 20"
  have "table_ok short_strings (array_table l)"
  proof -
    have "array_table l = fresh_table (array_table l) (length l) 0"
      by (simp add: array_table_def fresh_table_def sizearray_def)
    moreover have "table_ok short_strings (fresh_table (array_table l) (length l) 0)"
      using l by (intro fresh_table_ok(1)) (simp_all add: MAXASIZE_def MAXABITS_def)
    ultimately show ?thesis by simp
  qed
  then show ?thesis using short_strings_ok by (auto simp: heap_ok_def example_heap_def)
qed

lemma example_view:
  assumes "1 \<le> k" "k < 2 ^ 63"
  shows "heap_view example_env (example_heap l) a (at k) = (if k \<le> length l then l ! (k - 1) else Nil_v)"
proof -
  have "at k - 1 = at (k - 1)" using assms(1) by (intro at_pred) simp
  moreover have "unat (at (k - 1)) = k - 1" using assms(2) by (simp add: unat_of_nat del: of_nat_diff)
  ultimately have i: "unat (at k - 1) = k - 1" by simp
  have "find_node short_strings (array_table l) (Int_v (at k)) = None"
    by (simp add: find_node_def array_table_def sizenode_def dummynode_def luaV_rawequalobj_def)
  then have "cell_of short_strings (array_table l) (Int_v (at k)) = (if k \<le> length l then Arr (k - 1) else Nilobject)"
    using i assms(1) by (auto simp: cell_of_def array_slot_def to_cell_def)
  then show ?thesis by (simp add: heap_view_def example_heap_def lookup_def read_cell_def array_table_def)
qed

lemma example_seq:
  assumes "length l \<le> 2 ^ 20" "Nil_v \<notin> set l"
  shows "seq_is example_env (example_heap l) a l"
  using example_heap_ok [OF assms(1)] example_view assms by (auto simp: seq_is_def INT_MAX_def)

lemma example_room: "length l \<le> 2 ^ 20 \<Longrightarrow> heap_room (example_heap l) a"
  by (simp add: heap_room_def example_heap_def)

definition rank :: "tvalue \<Rightarrow> int" where
  "rank v = (case v of Int_v i \<Rightarrow> sint i | _ \<Rightarrow> 0)"

lemma rank_weak: "strict_weak (\<lambda>x y. rank x < rank y)"
  by (auto simp: strict_weak_def)

section \<open>Insertion and removal\<close>

lemma conv_int [simp]: "cvt_tointeger E (Int_v i) = Some i"
  by (simp add: cvt_tointeger_def)

lemma elsewhereI:
  assumes "\<forall>u. u \<noteq> a \<longrightarrow> heap_view E h' u = heap_view E h u"
    and "\<And>j. sint j \<le> 0 \<Longrightarrow> heap_view E h' a j = heap_view E h a j"
  shows "elsewhere E h a h'"
  unfolding elsewhere_def
proof (intro allI impI)
  fix u j assume "u \<noteq> a \<or> sint (j :: lua_Integer) \<le> 0"
  then show "heap_view E h' u j = heap_view E h u j"
    using assms by (cases "u = a") auto
qed

text \<open>C29: \<open>table.insert(t, pos, v)\<close> implements insertion into a list: on a table that holds the list
  \<open>l\<close> without holes and is not at the limit of the table size, and for a position from 1 to one
  after the end, the call succeeds, whatever growing and rehashing the table needs, the table then
  holds \<open>l\<close> with the value at this position, and all other integer keys and all other tables are as
  before.\<close>

theorem insert_refines:
  assumes "seq_is E h a l" "Suc (length l) < INT_MAX" "heap_room h a" "v \<noteq> Nil_v"
    and "cvt_tointeger E p = Some (word_of_nat q)" "1 \<le> q" "q \<le> Suc (length l)"
  shows "\<exists>h'. tinsert (plain_api E) a [p, v] h = (Inr (), h') \<and>
    seq_is E h' a (take (q - 1) l @ v # drop (q - 1) l) \<and> elsewhere E h a h'"
proof -
  note e = seq_elems [OF assms(1)]
  have p: "to_integer (plain_api E) p = Some (at q)" using assms(5) by simp
  obtain h' where h': "tinsert (plain_api E) a [p, v] h = (Inr (), h')" "heap_ok E h'"
    "plain.elems E h' a (Suc (length l)) = take (q - 1) l @ v # drop (q - 1) l"
    "\<forall>j. j \<notin> at ` {1..Suc (length l)} \<longrightarrow> heap_view E h' a j = heap_view E h a j"
    "\<forall>u. u \<noteq> a \<longrightarrow> heap_view E h' u = heap_view E h u"
    using plain.insert_spec [OF e(1,5,4,3) disjI2 [OF assms(3)] p assms(6,7), of v] unfolding e(2) by blast
  let ?l = "take (q - 1) l @ v # drop (q - 1) l"
  have len: "length ?l = Suc (length l)" using assms(6,7) by simp
  have after: "heap_view E h' a (at k) = Nil_v" if "Suc (length l) < k" "k < 2 ^ 63" for k
  proof -
    have "at k \<notin> at ` {1..Suc (length l)}"
      using that e(4) by (auto simp: at_inj simp del: of_nat_Suc)
    then show ?thesis using h'(4) seq_after [OF assms(1), of k] that by simp
  qed
  have "Nil_v \<notin> set ?l"
    using assms(1,4) set_take_subset [of "q - 1" l] set_drop_subset [of "q - 1" l] by (auto simp: seq_is_def)
  then have "seq_is E h' a ?l"
    using h'(2,3) after assms(2) len by (intro seq_isI) simp_all
  moreover have "elsewhere E h a h'"
    using h'(4) not_index [of "Suc (length l)"] e(4) by (intro elsewhereI [OF h'(5)]) simp
  ultimately show ?thesis using h'(1) by blast
qed

theorem insert_refines_witness:
  "\<exists>h'. tinsert (plain_api example_env) 7 [Int_v 2, Bool_v True] (example_heap [Int_v 5, Int_v 6]) = (Inr (), h') \<and>
     seq_is example_env h' 7 [Int_v 5, Bool_v True, Int_v 6]"
  using insert_refines [OF example_seq [of "[Int_v 5, Int_v 6]" 7] _ example_room, where p = "Int_v 2" and q = 2
      and v = "Bool_v True"]
  by (auto simp: INT_MAX_def)

text \<open>C30: \<open>table.remove(t, pos)\<close> implements removal from a list: on a table that holds the list \<open>l\<close>,
  with a position inside it, the call returns the element at this position, the table then holds
  \<open>l\<close> without it, and everything else is as before.\<close>

theorem remove_refines:
  assumes "seq_is E h a l" "p \<noteq> Nil_v" "cvt_tointeger E p = Some (word_of_nat q)"
    and "1 \<le> q" "q \<le> length l"
  shows "\<exists>h'. tremove (plain_api E) a (Some p) h = (Inr (l ! (q - 1)), h') \<and>
    seq_is E h' a (take (q - 1) l @ drop q l) \<and> elsewhere E h a h' \<and> heap_room h' = heap_room h"
proof -
  note e = seq_elems [OF assms(1)]
  have p: "to_integer (plain_api E) p = Some (at q)" using assms(3) by simp
  obtain h' where h': "tremove (plain_api E) a (Some p) h = (Inr (l ! (q - 1)), h')" "heap_ok E h'"
    "plain.elems E h' a (length l - 1) = take (q - 1) l @ drop q l"
    "heap_view E h' a (at (length l)) = Nil_v" "heap_room h' = heap_room h"
    "\<forall>j. j \<notin> at ` {1..length l} \<longrightarrow> heap_view E h' a j = heap_view E h a j"
    "\<forall>u. u \<noteq> a \<longrightarrow> heap_view E h' u = heap_view E h u"
    using plain.remove_spec [OF e(1,5,4,3) refl assms(2) p assms(4,5)] unfolding e(2) by blast
  let ?l = "take (q - 1) l @ drop q l"
  have len: "length ?l = length l - 1" using assms(4,5) by simp
  have after: "heap_view E h' a (at k) = Nil_v" if "length l - 1 < k" "k < 2 ^ 63" for k
  proof (cases "k = length l")
    case False
    then have "length l < k" using that by linarith
    then have "at k \<notin> at ` {1..length l}" using that e(4) by (auto simp: at_inj)
    then show ?thesis using h'(6) seq_after [OF assms(1) \<open>length l < k\<close>] that by simp
  qed (use h'(4) in simp)
  have "Nil_v \<notin> set ?l"
    using assms(1) set_take_subset [of "q - 1" l] set_drop_subset [of q l] by (auto simp: seq_is_def)
  then have "seq_is E h' a ?l"
    using h'(2,3) after len assms(1) by (intro seq_isI) (auto simp: seq_is_def)
  moreover have "elsewhere E h a h'"
    using h'(6) not_index [of "length l"] e(4) by (intro elsewhereI [OF h'(7)]) simp
  ultimately show ?thesis using h'(1,5) by blast
qed

theorem remove_refines_witness:
  "\<exists>h'. tremove (plain_api example_env) 7 (Some (Int_v 1)) (example_heap [Int_v 5, Int_v 6]) = (Inr (Int_v 5), h') \<and>
     seq_is example_env h' 7 [Int_v 6]"
  using remove_refines [OF example_seq [of "[Int_v 5, Int_v 6]" 7], where p = "Int_v 1" and q = 1]
  by auto

section \<open>Sorting\<close>

text \<open>Code called back by the sort that leaves the tables alone.\<close>

definition leaves_tables :: "'a on_heap \<Rightarrow> bool" where
  "leaves_tables m \<longleftrightarrow> (\<forall>h. tabs (snd (m h)) = tabs h \<and> fst (m h) \<noteq> Inl Endless)"

definition random_source :: "u32 on_heap \<Rightarrow> bool" where
  "random_source R \<longleftrightarrow> (\<forall>h. \<exists>i h'. R h = (Inr i, h') \<and> tabs h' = tabs h)"

lemma tabs_same: "tabs h' = tabs h \<Longrightarrow> heap_view E h' = heap_view E h \<and> heap_slot E h' = heap_slot E h \<and>
    heap_room h' = heap_room h \<and> (heap_ok E h' \<longleftrightarrow> heap_ok E h)"
  by (simp add: heap_view_def heap_slot_def heap_room_def heap_ok_def fun_eq_iff)

lemma leaves_pure: "leaves_tables m \<Longrightarrow> plain.pure_call E m"
  unfolding plain.pure_call_def
proof (intro allI impI)
  fix h assume m: "leaves_tables m" and h: "heap_ok E h"
  obtain r h' where run: "m h = (r, h')" by fastforce
  then have "tabs h' = tabs h" "r \<noteq> Inl Endless"
    using spec [OF m [unfolded leaves_tables_def], of h] by simp_all
  then show "case m h of (r, h') \<Rightarrow> heap_ok E h' \<and> heap_view E h' = heap_view E h \<and>
      heap_slot E h' = heap_slot E h \<and> heap_room h' = heap_room h \<and> r \<noteq> Inl Endless"
    using tabs_same [of h' h E] h run by simp
qed

lemma random_pure: "random_source R \<Longrightarrow> plain.randomizer E R"
proof -
  assume h: "random_source R"
  have "leaves_tables R"
    unfolding leaves_tables_def
  proof
    fix h
    obtain i h' where "R h = (Inr i, h')" "tabs h' = tabs h" using \<open>random_source R\<close> unfolding random_source_def by blast
    then show "tabs (snd (R h)) = tabs h \<and> fst (R h) \<noteq> Inl Endless" by simp
  qed
  moreover have "R s \<noteq> (Inl e, s')" for s e s' using h unfolding random_source_def by (metis Pair_inject sum.distinct(1))
  ultimately show ?thesis using leaves_pure by (auto simp: plain.randomizer_def)
qed

lemma image_mset_elems:
  "image_mset (plain.arr E a h) (mset_set {1..n}) = mset (plain.elems E h a n)" if "n < 2 ^ 63"
proof -
  have "plain.elems E h a n = map (plain.arr E a h) (map Suc [0..<n])"
    by (rule nth_equalityI) (use that in \<open>simp_all add: plain.elems_nth plain.arr_def del: of_nat_Suc\<close>)
  then have "mset (plain.elems E h a n) = mset (map (plain.arr E a h) (map Suc [0..<n]))" by simp
  also have "map Suc [0..<n] = [1..<Suc n]" by (simp add: map_Suc_upt)
  also have "mset (map (plain.arr E a h) [1..<Suc n]) = image_mset (plain.arr E a h) (mset_set {1..n})"
    by (simp add: mset_upt atLeastLessThanSuc_atLeastAtMost del: upt_Suc)
  finally show ?thesis by simp
qed

text \<open>What the sort leaves, whether it succeeds or not.\<close>

lemma sort_result:
  assumes "seq_is E h a l" "plain.same_but E h a h'" "permr 1 (length l) (plain.arr E a h) (plain.arr E a h')"
  obtains l' where "seq_is E h' a l'" "mset l' = mset l" "elsewhere E h a h'" "length l' = length l"
    "\<And>k. k < length l \<Longrightarrow> l' ! k = plain.arr E a h' (Suc k)"
proof -
  note e = seq_elems [OF assms(1)]
  have n: "length l < 2 ^ 63" using e(4) by simp
  let ?l = "plain.elems E h' a (length l)"
  have ok: "heap_ok E h'" and other: "\<forall>u. u \<noteq> a \<longrightarrow> heap_view E h' u = heap_view E h u"
    and out: "\<forall>j. j \<notin> at ` {..<2 ^ 63} \<longrightarrow> heap_view E h' a j = heap_view E h a j"
    using assms(2) by (simp_all add: plain.same_but_def)
  have m: "mset ?l = mset l"
    using assms(3) image_mset_elems [OF n, where a = a and E = E] e(2) by (simp add: permr_def)
  have same: "heap_view E h' a (at k) = heap_view E h a (at k)" if "k < 1 \<or> length l < k" "k < 2 ^ 63" for k
    using permr_outside [OF assms(3) that(1)] that(2) by (simp add: plain.arr_def)
  have "seq_is E h' a ?l"
  proof (rule seq_isI)
    show "heap_view E h' a (at k) = Nil_v" if "length ?l < k" "k < 2 ^ 63" for k
      using same [of k] seq_after [OF assms(1), of k] that by simp
    show "Nil_v \<notin> set ?l" using m assms(1) by (metis seq_is_def set_mset_mset)
  qed (use ok assms(1) in \<open>simp_all add: seq_is_def\<close>)
  moreover have "heap_view E h' a j = heap_view E h a j" if "sint j \<le> 0" for j
  proof (cases "j = at 0")
    case True
    then show ?thesis using same [of 0] by simp
  next
    case False
    have "j \<notin> at ` {..<2 ^ 63}"
    proof
      assume "j \<in> at ` {..<2 ^ 63}"
      then obtain k where "j = at k" "k < 2 ^ 63" by blast
      then show False using that False sint_at [of k] by (cases k) auto
    qed
    then show ?thesis using out by blast
  qed
  then have "elsewhere E h a h'" by (rule elsewhereI [OF other])
  moreover have "?l ! k = plain.arr E a h' (Suc k)" if "k < length l" for k
    using that n by (simp add: plain.elems_nth plain.arr_def)
  ultimately show ?thesis using that [of ?l] m by simp
qed

text \<open>C28: \<open>table.sort\<close> is safe with any order function: as long as the function leaves the tables
  alone, however inconsistent its answers, the sort ends, stays inside the array, and the table
  holds a permutation of its elements afterwards, also when the sort stops with an error of
  the order function or with "invalid order function for sorting".\<close>

theorem sort_any_order:
  assumes "seq_is E h a l" "c_stack E 40" "random_source R"
    and "\<And>x y. leaves_tables (sort_comp f lua_lessthan x y)"
  shows "\<exists>r h' l'. tsort (plain_api E) lua_lessthan f R a h = (r, h') \<and> r \<noteq> Inl Endless \<and>
    seq_is E h' a l' \<and> mset l' = mset l \<and> elsewhere E h a h'"
proof -
  note e = seq_elems [OF assms(1)]
  have lt: "plain.order_fun E (sort_comp f lua_lessthan) False (\<lambda>_ _. False)"
    by (simp add: plain.order_fun_def leaves_pure assms(4))
  obtain r h' where run: "tsort (plain_api E) lua_lessthan f R a h = (r, h')" by fastforce
  have s: "plain.same_but E h a h'" "permr 1 (length l) (plain.arr E a h) (plain.arr E a h')"
    "case r of Inr u \<Rightarrow> False \<longrightarrow> sorted_on (\<lambda>_ _. False) 1 (length l) (plain.arr E a h') | Inl e \<Rightarrow> plain.bad_end False e"
    using plain.tsort_spec [OF lt random_pure [OF assms(3)] e(1,5) _ e(3) _ run] assms(1,2)
    by (simp_all add: seq_is_def ret_def)
  have "r \<noteq> Inl Endless" using s(3) by (auto simp: plain.bad_end_def)
  then show ?thesis using run sort_result [OF assms(1) s(1,2)] by metis
qed

theorem sort_any_order_witness:
  "\<exists>r h' l'. tsort (plain_api example_env) (\<lambda>x y. ret True) No_order (ret 5) 7
       (example_heap [Int_v 3, Int_v 1, Int_v 2, Int_v 9]) = (r, h') \<and>
     seq_is example_env h' 7 l' \<and> mset l' = mset [Int_v 3, Int_v 1, Int_v 2, Int_v 9]"
proof -
  have "leaves_tables (sort_comp No_order (\<lambda>x y. ret True) x y)" for x y
    by (simp add: leaves_tables_def sort_comp_def ret_def)
  moreover have "random_source (ret 5)" by (simp add: random_source_def ret_def)
  ultimately show ?thesis
    using sort_any_order [OF example_seq [of "[Int_v 3, Int_v 1, Int_v 2, Int_v 9]" 7], of "ret 5" No_order "\<lambda>x y. ret True"]
    by (simp; blast)
qed

text \<open>C27: \<open>table.sort\<close> sorts: with an order function that answers a strict weak order on all values, the sort
  succeeds and the table holds its elements in ascending order, whatever pivots the random source
  makes it choose.\<close>

theorem sort_sorts:
  assumes "seq_is E h a l" "c_stack E 40" "random_source R" "strict_weak before"
    and "\<And>x y h. \<exists>h'. sort_comp f lua_lessthan x y h = (Inr (before x y), h') \<and> tabs h' = tabs h"
  shows "\<exists>h' l'. tsort (plain_api E) lua_lessthan f R a h = (Inr (), h') \<and> seq_is E h' a l' \<and>
    mset l' = mset l \<and> sorted_wrt (\<lambda>x y. \<not> before y x) l' \<and> elsewhere E h a h'"
proof -
  note e = seq_elems [OF assms(1)]
  have ans: "fst (sort_comp f lua_lessthan x y h) = Inr (before x y)"
    "tabs (snd (sort_comp f lua_lessthan x y h)) = tabs h" for x y h
    using assms(5) [of x y h] by auto
  have "leaves_tables (sort_comp f lua_lessthan x y)" for x y
    unfolding leaves_tables_def by (simp add: ans)
  then have lt: "plain.order_fun E (sort_comp f lua_lessthan) True before"
    by (simp add: plain.order_fun_def leaves_pure assms(4) ans(1))
  obtain r h' where run: "tsort (plain_api E) lua_lessthan f R a h = (r, h')" by fastforce
  have s: "plain.same_but E h a h'" "permr 1 (length l) (plain.arr E a h) (plain.arr E a h')"
    "case r of Inr u \<Rightarrow> True \<longrightarrow> sorted_on before 1 (length l) (plain.arr E a h') | Inl e \<Rightarrow> plain.bad_end True e"
    using plain.tsort_spec [OF lt random_pure [OF assms(3)] e(1,5) _ e(3) _ run] assms(1,2)
    by (simp_all add: seq_is_def ret_def)
  then have r: "r = Inr ()" "sorted_on before 1 (length l) (plain.arr E a h')"
    by (auto simp: plain.bad_end_def split: sum.splits)
  obtain l' where l': "seq_is E h' a l'" "mset l' = mset l" "elsewhere E h a h'" "length l' = length l"
    "\<And>k. k < length l \<Longrightarrow> l' ! k = plain.arr E a h' (Suc k)"
    using sort_result [OF assms(1) s(1,2)] by metis
  have "sorted_wrt (\<lambda>x y. \<not> before y x) l'"
    unfolding sorted_wrt_iff_nth_less using r(2) l'(4,5) by (simp add: sorted_on_def)
  then show ?thesis using run r(1) l'(1-3) by blast
qed

theorem sort_sorts_witness:
  "\<exists>h' l'. tsort (plain_api example_env) (\<lambda>x y. ret (rank x < rank y)) No_order (ret 5) 7
       (example_heap [Int_v 3, Int_v 1, Int_v 2, Int_v 9]) = (Inr (), h') \<and>
     seq_is example_env h' 7 l' \<and> mset l' = mset [Int_v 3, Int_v 1, Int_v 2, Int_v 9] \<and>
     sorted_wrt (\<lambda>x y. \<not> rank y < rank x) l'"
proof -
  have ans: "\<exists>h'. sort_comp No_order (\<lambda>x y. ret (rank x < rank y)) x y h = (Inr (rank x < rank y), h') \<and> tabs h' = tabs h"
    for x y h by (simp add: sort_comp_def ret_def)
  have "random_source (ret 5)" by (simp add: random_source_def ret_def)
  then show ?thesis
    using sort_sorts [OF example_seq [of "[Int_v 3, Int_v 1, Int_v 2, Int_v 9]" 7] _ _ rank_weak ans, of "ret 5"]
    by (simp; blast)
qed

section \<open>Moving\<close>

text \<open>The arguments of \<open>table.move\<close>: \<open>n\<close> elements from \<open>f\<close> to \<open>t\<close>, without overflow.\<close>

definition moves :: "lua_env \<Rightarrow> tvalue \<Rightarrow> tvalue \<Rightarrow> tvalue \<Rightarrow> lua_Integer \<Rightarrow> lua_Integer \<Rightarrow> nat \<Rightarrow> bool" where
  "moves E fv ev tv f t n \<longleftrightarrow>
     cvt_tointeger E fv = Some f \<and> cvt_tointeger E ev = Some (f + at n - 1) \<and> cvt_tointeger E tv = Some t \<and>
     0 < n \<and> n < 2 ^ 63 \<and> sint f + int n \<le> 2 ^ 63 \<and> sint t + int n \<le> 2 ^ 63"

lemma moves_args: "moves E fv ev tv f t n \<Longrightarrow> lua_tables.move_args (plain_api E) fv ev tv f t n"
  by (simp add: moves_def plain.move_args_def)

text \<open>
  Whether the table at \<open>a\<close> takes assignments to \<open>n\<close> indices from \<open>t\<close> on: all of them have a place
  in it, or the table stays under half the limit of the table size with \<open>n\<close> slots more, so that it
  can grow for each of them.
\<close>

definition heap_fits :: "lua_env \<Rightarrow> heap \<Rightarrow> addr \<Rightarrow> lua_Integer \<Rightarrow> nat \<Rightarrow> bool" where
  "heap_fits E h a t n \<longleftrightarrow>
     (\<forall>k < n. heap_slot E h a (t + word_of_nat k)) \<or>
     sizearray (tabs h a) + sizenode (tabs h a) + n < 2 ^ 29"

lemma heap_fits_plain: "heap_fits E h a t n \<Longrightarrow> plain.fits E h a t {..<n}"
  by (auto simp: heap_fits_def plain.fits_def heap_space_def space_sizes)

lemma example_fits: "length l \<le> 2 ^ 20 \<Longrightarrow> n \<le> 2 ^ 20 \<Longrightarrow> heap_fits E (example_heap l) a t n"
  by (simp add: heap_fits_def example_heap_def)

text \<open>C31: \<open>table.move\<close> copies: when no destination is given, or it is another table, or the
  destination does not start inside the source, the call succeeds, every element at the destination
  is what the source held before the call, overlapping ranges included, and nothing else changes.
  The destination indices need not be in the table before: it gets new keys and is rehashed as
  often as it must, as long as it stays under half the limit of the table size (\<open>heap_fits\<close>).\<close>

theorem move_copies:
  assumes "heap_ok E h" "moves E fv ev tv f t n" "tt = (case b of Some x \<Rightarrow> x | None \<Rightarrow> a)"
    and "heap_fits E h tt t n"
    and "b = None \<or> tt \<noteq> a \<or> t \<le>s f \<or> f + word_of_nat n - 1 <s t"
  shows "\<exists>h'. tmove (plain_api E) a fv ev tv b h = (Inr tt, h') \<and> heap_ok E h' \<and>
    (\<forall>k < n. heap_view E h' tt (t + word_of_nat k) = heap_view E h a (f + word_of_nat k)) \<and>
    (\<forall>u j. u \<noteq> tt \<or> j \<notin> (\<lambda>k. t + word_of_nat k) ` {..<n} \<longrightarrow> heap_view E h' u j = heap_view E h u j)"
  using plain.tmove_copies [OF assms(1) moves_args [OF assms(2)] assms(3) heap_fits_plain [OF assms(4)] assms(5)]
  by blast

text \<open>The indices 5 and 6 are new: the table, an array of four, has to grow for them.\<close>

theorem move_copies_witness:
  "\<exists>h'. tmove (plain_api example_env) 7 (Int_v 1) (Int_v 3) (Int_v 4) None
       (example_heap [Int_v 5, Int_v 6, Int_v 7, Int_v 8]) = (Inr 7, h') \<and>
     heap_view example_env h' 7 4 = Int_v 5 \<and> heap_view example_env h' 7 6 = Int_v 7 \<and>
     heap_view example_env h' 7 1 = Int_v 5"
proof -
  let ?h = "example_heap [Int_v 5, Int_v 6, Int_v 7, Int_v 8]"
  have m: "moves example_env (Int_v 1) (Int_v 3) (Int_v 4) 1 4 3" by (simp add: moves_def)
  obtain h' where h': "tmove (plain_api example_env) 7 (Int_v 1) (Int_v 3) (Int_v 4) None ?h = (Inr 7, h')"
    "\<forall>k < 3. heap_view example_env h' 7 (4 + word_of_nat k) = heap_view example_env ?h 7 (1 + word_of_nat k)"
    "\<forall>u j. u \<noteq> 7 \<or> j \<notin> (\<lambda>k. 4 + word_of_nat k) ` {..<3} \<longrightarrow>
      heap_view example_env h' u j = heap_view example_env ?h u j"
    using move_copies [OF example_heap_ok [of "[Int_v 5, Int_v 6, Int_v 7, Int_v 8]"] m, where b = None and tt = 7 and a = 7]
      example_fits [of "[Int_v 5, Int_v 6, Int_v 7, Int_v 8]" 3] by auto
  have "(1 :: lua_Integer) \<notin> (\<lambda>k. 4 + word_of_nat k) ` {..<3}"
    by (auto simp: lessThan_nat_numeral numeral_3_eq_3 less_Suc_eq)
  then show ?thesis
    using h'(1,3) spec [OF h'(2), of 0] spec [OF h'(2), of 2]
      example_view [of 1 "[Int_v 5, Int_v 6, Int_v 7, Int_v 8]" 7]
      example_view [of 3 "[Int_v 5, Int_v 6, Int_v 7, Int_v 8]" 7]
    by simp
qed

text \<open>C40: A copy to a later, overlapping range of one table loses elements when the table is also
  given as the destination: \<open>table.move(t, f, e, f + d, t)\<close> with \<open>0 < d < n\<close> takes it for another
  table, copies upwards and repeats the first \<open>d\<close> elements over the whole destination, where the
  same call without the last argument moves the range as it was. (The destination need not be in the
  table before, as in \<open>heap_fits\<close>; the two ranges together are shorter than 2 to the 63.)\<close>

theorem move_same_table_smears:
  assumes "heap_ok E h" "moves E fv ev tv f (f + word_of_nat d) n" "0 < d" "d < n" "n + d < 2 ^ 63"
    and "heap_fits E h a (f + word_of_nat d) n"
  shows "(\<exists>h'. tmove (plain_api E) a fv ev tv (Some a) h = (Inr a, h') \<and> heap_ok E h' \<and>
      (\<forall>k < n. heap_view E h' a (f + word_of_nat d + word_of_nat k) = heap_view E h a (f + word_of_nat (k mod d)))) \<and>
    (\<exists>h'. tmove (plain_api E) a fv ev tv None h = (Inr a, h') \<and> heap_ok E h' \<and>
      (\<forall>k < n. heap_view E h' a (f + word_of_nat d + word_of_nat k) = heap_view E h a (f + word_of_nat k)))"
  using plain.tmove_smears [OF assms(1) moves_args [OF assms(2)] assms(3-5) heap_fits_plain [OF assms(6)]]
    plain.tmove_copies [OF assms(1) moves_args [OF assms(2)] _ heap_fits_plain [OF assms(6)], where b = None and a = a]
  by (simp; blast)

theorem move_same_table_smears_witness:
  "\<exists>h'. tmove (plain_api example_env) 7 (Int_v 1) (Int_v 4) (Int_v 2) (Some 7)
       (example_heap [Int_v 5, Int_v 6, Int_v 7, Int_v 8]) = (Inr 7, h') \<and>
     heap_view example_env h' 7 5 = Int_v 5"
proof -
  let ?h = "example_heap [Int_v 5, Int_v 6, Int_v 7, Int_v 8]"
  have m: "moves example_env (Int_v 1) (Int_v 4) (Int_v 2) 1 (1 + word_of_nat 1) 4" by (simp add: moves_def)
  obtain h' where "tmove (plain_api example_env) 7 (Int_v 1) (Int_v 4) (Int_v 2) (Some 7) ?h = (Inr 7, h')"
    "\<forall>k < 4. heap_view example_env h' 7 (1 + word_of_nat 1 + word_of_nat k) =
      heap_view example_env ?h 7 (1 + word_of_nat (k mod 1))"
    using move_same_table_smears [OF example_heap_ok [of "[Int_v 5, Int_v 6, Int_v 7, Int_v 8]"] m,
        where a = 7] example_fits [of "[Int_v 5, Int_v 6, Int_v 7, Int_v 8]" 4] by auto
  moreover from spec [OF this(2), of 3] have "heap_view example_env h' 7 5 = Int_v 5"
    using example_view [of 1 "[Int_v 5, Int_v 6, Int_v 7, Int_v 8]" 7] by simp
  ultimately show ?thesis by blast
qed

end
