(* ===== verification/LuaHeapReach.thy ===== *)
theory LuaHeapReach
  imports LuaTabRefine
begin

text \<open>
  Type soundness of the heap of tables: the heaps that the C interface can build, as an inductive
  relation, are well formed, and its operations never get stuck on them.
\<close>

inductive heap_reach :: "lua_env \<Rightarrow> heap \<Rightarrow> bool" for E where
  start: "heap_reach E \<lparr>tabs = (\<lambda>_. luaH_new), fresh = 0\<rparr>"
| create: "heap_reach E h \<Longrightarrow> 0 \<le>s narray \<Longrightarrow> 0 \<le>s nrec \<Longrightarrow> lua_createtable E narray nrec h = (Inr a, h') \<Longrightarrow>
    heap_reach E h'"
| seti: "heap_reach E h \<Longrightarrow> heap_room h a \<Longrightarrow> lua_seti E a n v h = (r, h') \<Longrightarrow> heap_reach E h'"
| setfield: "heap_reach E h \<Longrightarrow> heap_room h a \<Longrightarrow> auxsetstr E a k v h = (r, h') \<Longrightarrow> heap_reach E h'"

section \<open>Single operations\<close>

lemma luaV_set_ok:
  assumes "strings_ok st seed" "table_ok st t" "proper k" "key_typed st k"
    and "sizearray t + sizenode t < 2 ^ 30"
  shows "\<exists>t'. luaV_set st t (Some (cell_of st t k)) k v = Inr t' \<and> table_ok st t' \<and>
    (\<forall>q. proper q \<longrightarrow> key_typed st q \<longrightarrow>
      lookup st t' q = (if luaV_rawequalobj st k q then v else lookup st t q))"
proof (cases "cell_of st t k = Nilobject")
  case True
  then obtain t' c where t': "luaH_newkey st 2 t k = Inr (t', c)" "has_cell st t k t' c"
    using newkey_any [OF assms(1-4) _ assms(5), of 0] by (auto simp: numeral_2_eq_2)
  then show ?thesis
    using True has_cell_write [OF t'(2) assms(3)] by (simp add: luaV_set_def luaV_finishset_def read_cell_def)
next
  case False
  then have "has_cell st t k t (cell_of st t k)" using assms(2) by (simp add: has_cell_def)
  then show ?thesis
    using False has_cell_write [of st t k t] assms(3) by (simp add: luaV_set_def luaV_finishset_def)
qed

lemma getstr_spec:
  assumes "strings_ok st seed" "table_ok st t"
  shows "luaH_getstr st t s = Some (cell_of st t (if ts_short (st s) then Shr_v s else Lng_v s))"
  using getshortstr_spec [OF assms] getgeneric_spec [OF assms, of "Lng_v s"]
  by (simp add: luaH_getstr_def key_typed_def)

lemma heap_update_ok: "heap_ok E h \<Longrightarrow> table_ok (strs E) t \<Longrightarrow> heap_ok E (h\<lparr>tabs := (tabs h)(a := t)\<rparr>)"
  by (simp add: heap_ok_def)

text \<open>\<open>lua_setfield\<close> maps the name to the value and keeps the rest.\<close>

lemma heap_setfield:
  assumes "heap_ok E h" "heap_room h a"
  shows "\<exists>h'. auxsetstr E a k v h = (Inr (), h') \<and> heap_ok E h' \<and>
    (\<forall>u i. heap_view E h' u i = heap_view E h u i)"
proof -
  let ?st = "strs E" and ?s = "luaS_new E k"
  let ?key = "if ts_short (?st ?s) then Shr_v ?s else Lng_v ?s"
  obtain seed where ok: "strings_ok ?st seed" "table_ok ?st (tabs h a)" using assms(1) by (metis heap_okD)
  have key: "proper ?key" "key_typed ?st ?key" "\<And>i. \<not> luaV_rawequalobj ?st ?key (Int_v i)"
    by (simp_all add: key_typed_def luaV_rawequalobj_def)
  obtain t where t: "luaV_set ?st (tabs h a) (Some (cell_of ?st (tabs h a) ?key)) ?key v = Inr t" "table_ok ?st t"
    "\<forall>q. proper q \<longrightarrow> key_typed ?st q \<longrightarrow>
      lookup ?st t q = (if luaV_rawequalobj ?st ?key q then v else lookup ?st (tabs h a) q)"
    using luaV_set_ok [OF ok key(1,2)] assms(2) unfolding heap_room_def by blast
  have "auxsetstr E a k v h = (Inr (), h\<lparr>tabs := (tabs h)(a := t)\<rparr>)"
    using t(1) by (simp add: auxsetstr_def Let_def store_def getstr_spec [OF ok] put_table_def)
  moreover have "heap_view E (h\<lparr>tabs := (tabs h)(a := t)\<rparr>) u i = heap_view E h u i" for u i
    using t(3) key(3) by (simp add: heap_view_def key_typed_def del: if_split)
  ultimately show ?thesis using heap_update_ok [OF assms(1) t(2)] by blast
qed

lemma int_nonneg:
  assumes "0 \<le>s (n :: 32 word)"
  shows "unat n < 2 ^ 31"
proof -
  have s: "0 \<le> sint n" "sint n < 2 ^ 31" using assms sint_lt [of n] by (simp_all add: word_sle_eq)
  define k where "k = sint n"
  have "n = word_of_int k" by (simp add: k_def)
  moreover have "uint (word_of_int k :: 32 word) = k" using s by (simp add: uint_word_of_int k_def [symmetric])
  ultimately have "uint n = sint n" by (simp add: k_def)
  then show ?thesis using s by (simp add: unat_eq_nat_uint nat_less_iff)
qed

lemma heap_createtable:
  assumes "heap_ok E h" "0 \<le>s narray" "lua_createtable E narray nrec h = (Inr a, h')"
    and "0 \<le>s nrec"
  shows "heap_ok E h' \<and> a = fresh h \<and> fresh h' = Suc a \<and> (\<forall>u. u \<noteq> a \<longrightarrow> tabs h' u = tabs h u) \<and>
    (\<forall>i. heap_view E h' a i = Nil_v)"
proof -
  let ?st = "strs E" and ?a = "fresh h"
  let ?h = "h\<lparr>tabs := (tabs h)(?a := luaH_new), fresh := Suc ?a\<rparr>"
  obtain seed where st: "strings_ok ?st seed" using assms(1) by (metis heap_okD)
  have h: "heap_ok E ?h" using assms(1) luaH_new_ok by (simp add: heap_ok_def)
  have new: "lookup ?st luaH_new (Int_v i) = Nil_v" for i by (rule luaH_new_lookup) simp
  show ?thesis
  proof (cases "0 <s narray \<or> 0 <s nrec")
    case True
    show ?thesis
    proof (cases "luaH_resize ?st 2 luaH_new (unat narray) (unat nrec)")
      case (Inl e)
      then show ?thesis
        using assms(3) True by (simp add: lua_createtable_def Let_def store_def raise_tab_def prog_simps stop_def)
    next
      case (Inr t)
      have "unat narray < 2 ^ 31" "unat nrec < 2 ^ 31"
        using assms(2,4) int_nonneg by blast+
      then have i: "unat narray \<le> MAX_INT" "unat nrec \<le> MAX_INT" by (simp_all add: MAX_INT_def)
      have n: "unat nrec \<le> 2 ^ MAXHBITS"
        using Inr table_overflow [of "unat nrec" ?st 2 luaH_new "unat narray"] i(2)
        by (cases "2 ^ MAXHBITS < unat nrec") (simp_all add: MAX_INT_def)
      have a: "unat narray \<le> MAXASIZE" using i(1) by (simp add: MAX_INT_def MAXASIZE_def MAXABITS_def)
      have "length (filter (hashed (unat narray)) (old_nodes luaH_new (unat narray))) \<le> unat nrec"
        by (simp add: luaH_new_def hashed_def dummynode_def)
      from luaH_resize_any [OF st luaH_new_ok a n this, of 1] Inr
      have t: "table_ok ?st t" "same_map ?st luaH_new t" by (auto simp: numeral_2_eq_2)
      have e: "a = ?a" "h' = ?h\<lparr>tabs := (tabs ?h)(?a := t)\<rparr>"
        using assms(3) True Inr
        by (auto simp: lua_createtable_def Let_def store_def prog_simps put_table_def ret_def)
      then show ?thesis
        using heap_update_ok [OF h t(1), of ?a] t(2) new
        by (simp add: e heap_view_def same_map_def key_typed_def)
    qed
  next
    case False
    then have "a = ?a" "h' = ?h" using assms(3) by (auto simp: lua_createtable_def Let_def ret_def)
    then show ?thesis using h new by (simp add: heap_view_def)
  qed
qed

section \<open>Soundness\<close>

lemma heap_reach_ok:
  assumes "strings_ok (strs E) seed"
  shows "heap_reach E h \<Longrightarrow> heap_ok E h"
proof (induction rule: heap_reach.induct)
  case start
  then show ?case using assms luaH_new_ok by (auto simp: heap_ok_def)
next
  case (create h narray nrec a h')
  then show ?case using heap_createtable by blast
next
  case (seti h a n v r h')
  then show ?case using heap_seti [of E h a n v] by auto
next
  case (setfield h a k v r h')
  then show ?case using heap_setfield [of E h a k v] by auto
qed

text \<open>C26: Type soundness of the tables behind the C interface: every table of every heap built by
  \<open>lua_createtable\<close> with sizes that are not negative, \<open>lua_seti\<close> and \<open>lua_setfield\<close> is well formed (chains, main positions, free pointer,
  array bounds), and on such a heap no operation is stuck: reads and the length return, assignments
  below the table limit succeed and do to the integer keys what they say.\<close>

theorem heap_well_formed:
  assumes "strings_ok (strs E) seed" "heap_reach E h"
  shows "(\<forall>a. table_ok (strs E) (tabs h a)) \<and>
    (\<forall>a i. lua_geti a i h = (Inr (heap_view E h a i), h)) \<and>
    (\<forall>a. \<exists>l. luaV_objlen a h = (Inr l, h)) \<and>
    (\<forall>a. heap_room h a \<longrightarrow>
      (\<forall>i v. \<exists>h'. lua_seti E a i v h = (Inr (), h') \<and>
        heap_view E h' = (heap_view E h)(a := (heap_view E h a)(i := v))) \<and>
      (\<forall>k v. \<exists>h'. auxsetstr E a k v h = (Inr (), h') \<and> heap_view E h' = heap_view E h))"
proof (intro conjI allI impI)
  have ok: "heap_ok E h" by (rule heap_reach_ok [OF assms])
  fix a
  show "table_ok (strs E) (tabs h a)" using ok by (simp add: heap_ok_def)
  show "lua_geti a i h = (Inr (heap_view E h a i), h)" for i by (rule heap_geti [OF ok])
  show "\<exists>l. luaV_objlen a h = (Inr l, h)" using heap_len [OF ok, of a] by blast
  assume room: "heap_room h a"
  show "\<exists>h'. lua_seti E a i v h = (Inr (), h') \<and>
      heap_view E h' = (heap_view E h)(a := (heap_view E h a)(i := v))" for i v
    using heap_seti [OF ok disjI2 [OF room], of i v] by blast
  show "\<exists>h'. auxsetstr E a k v h = (Inr (), h') \<and> heap_view E h' = heap_view E h" for k v
    using heap_setfield [OF ok room, of k v] by (auto simp: fun_eq_iff)
qed

theorem heap_well_formed_witness:
  "\<exists>h'. lua_seti example_env 3 1 (Bool_v True) \<lparr>tabs = (\<lambda>_. luaH_new), fresh = 0\<rparr> = (Inr (), h') \<and>
     heap_view example_env h' 3 1 = Bool_v True"
proof -
  have st: "strings_ok (strs example_env) 0" using short_strings_ok by simp
  have "heap_room \<lparr>tabs = (\<lambda>_. luaH_new), fresh = 0\<rparr> 3" by (simp add: heap_room_def)
  then obtain h' where "lua_seti example_env 3 1 (Bool_v True) \<lparr>tabs = (\<lambda>_. luaH_new), fresh = 0\<rparr> = (Inr (), h')"
    "heap_view example_env h' = (heap_view example_env \<lparr>tabs = (\<lambda>_. luaH_new), fresh = 0\<rparr>)
      (3 := (heap_view example_env \<lparr>tabs = (\<lambda>_. luaH_new), fresh = 0\<rparr> 3)(1 := Bool_v True))"
    using heap_well_formed [OF st heap_reach.start] by blast
  then show ?thesis by auto
qed

end
