(* ===== verification/LuaPack.thy ===== *)
theory LuaPack
  imports LuaStrLib LuaValue
begin

text \<open>
  \<open>string.pack\<close>, \<open>string.packsize\<close> and \<open>string.unpack\<close> (\<open>lstrlib.c\<close>). A format is the bytes before the
  final NUL of its C string. \<open>size_t\<close> values that are added up (\<open>totalsize\<close>, \<open>pos\<close>) are words; sizes
  and alignments, which are non-negative \<open>int\<close>s below their limit, are natural numbers. The machine is
  a little-endian one with the sizes of the 64-bit ABI.
\<close>

datatype pack_error =
    Arg_type nat
  | Bad_arg nat string
  | Bad_format string
  | Integral_size nat
  | No_fit nat
  | Too_big
  | Too_many_results
  | Out_of_bounds

text \<open>
  The conversions of the arguments (\<open>luaL_checkinteger\<close>, \<open>luaL_checknumber\<close>, \<open>luaL_checklstring\<close>,
  whose failure is \<open>Arg_type\<close>) and those between the two float types of C.
\<close>

record 'v conv =
  as_int :: "'v \<Rightarrow> lua_Integer option"
  as_num :: "'v \<Rightarrow> lua_Number option"
  as_str :: "'v \<Rightarrow> bytes option"
  single_of :: "lua_Number \<Rightarrow> u32"
  number_of :: "u32 \<Rightarrow> lua_Number"

definition MAXINTSIZE :: nat where "MAXINTSIZE = 16"
definition SZINT :: nat where "SZINT = 8"
definition MAXALIGN :: nat where "MAXALIGN = 8"
definition nativelittle :: bool where "nativelittle = True"

record pack_header =
  islittle :: bool
  maxalign :: nat

datatype KOption = Kint | Kuint | Kfloat | Kchar | Kstring | Kzstr | Kpadding | Kpaddalign | Knop

section \<open>Reading the format\<close>

definition digit :: "byte \<Rightarrow> bool" where
  "digit c \<longleftrightarrow> 48 \<le> c \<and> c \<le> 57"

fun getnum_loop :: "bytes \<Rightarrow> nat \<Rightarrow> nat \<times> bytes" where
  "getnum_loop [] a = (a, [])"
| "getnum_loop (c # cs) a =
     (if digit c \<and> a \<le> (MAXSIZE - 9) div 10 then getnum_loop cs (a * 10 + (unat c - 48))
      else (a, c # cs))"

definition getnum :: "bytes \<Rightarrow> nat option \<Rightarrow> nat option \<times> bytes" where
  "getnum fmt df =
     (case fmt of
        c # cs \<Rightarrow> if digit c then let (a, rest) = getnum_loop fmt 0 in (Some a, rest) else (df, fmt)
      | [] \<Rightarrow> (df, []))"

definition getnumlimit :: "bytes \<Rightarrow> nat \<Rightarrow> pack_error + (nat \<times> bytes)" where
  "getnumlimit fmt df =
     (case getnum fmt (Some df) of
        (Some sz, rest) \<Rightarrow> if sz > MAXINTSIZE \<or> sz = 0 then Inl (Integral_size sz) else Inr (sz, rest)
      | (None, rest) \<Rightarrow> Inl (Integral_size 0))"

definition initheader :: pack_header where
  "initheader = \<lparr>islittle = nativelittle, maxalign = 1\<rparr>"

type_synonym option_read = "pack_header \<times> KOption \<times> nat \<times> bytes"

definition limited :: "pack_header \<Rightarrow> KOption \<Rightarrow> bytes \<Rightarrow> nat \<Rightarrow> pack_error + option_read" where
  "limited h k rest df =
     (case getnumlimit rest df of Inl e \<Rightarrow> Inl e | Inr (sz, rest') \<Rightarrow> Inr (h, k, sz, rest'))"

abbreviation c_char :: "char \<Rightarrow> byte" where
  "c_char \<equiv> of_char"

definition getoption :: "pack_header \<Rightarrow> bytes \<Rightarrow> pack_error + option_read" where
  "getoption h fmt =
     (let opt = hd fmt; rest = tl fmt in
      if opt = c_char CHR ''b'' then Inr (h, Kint, 1, rest)
      else if opt = c_char CHR ''B'' then Inr (h, Kuint, 1, rest)
      else if opt = c_char CHR ''h'' then Inr (h, Kint, 2, rest)
      else if opt = c_char CHR ''H'' then Inr (h, Kuint, 2, rest)
      else if opt = c_char CHR ''l'' then Inr (h, Kint, 8, rest)
      else if opt = c_char CHR ''L'' then Inr (h, Kuint, 8, rest)
      else if opt = c_char CHR ''j'' then Inr (h, Kint, SZINT, rest)
      else if opt = c_char CHR ''J'' then Inr (h, Kuint, SZINT, rest)
      else if opt = c_char CHR ''T'' then Inr (h, Kuint, 8, rest)
      else if opt = c_char CHR ''f'' then Inr (h, Kfloat, 4, rest)
      else if opt = c_char CHR ''d'' then Inr (h, Kfloat, 8, rest)
      else if opt = c_char CHR ''n'' then Inr (h, Kfloat, 8, rest)
      else if opt = c_char CHR ''i'' then limited h Kint rest 4
      else if opt = c_char CHR ''I'' then limited h Kuint rest 4
      else if opt = c_char CHR ''s'' then limited h Kstring rest 8
      else if opt = c_char CHR ''c'' then
        (case getnum rest None of
           (None, _) \<Rightarrow> Inl (Bad_format ''missing size for format option c'')
         | (Some sz, rest') \<Rightarrow> Inr (h, Kchar, sz, rest'))
      else if opt = c_char CHR ''z'' then Inr (h, Kzstr, 0, rest)
      else if opt = c_char CHR ''x'' then Inr (h, Kpadding, 1, rest)
      else if opt = c_char CHR ''X'' then Inr (h, Kpaddalign, 0, rest)
      else if opt = c_char CHR '' '' then Inr (h, Knop, 0, rest)
      else if opt = c_char CHR ''<'' then Inr (h\<lparr>islittle := True\<rparr>, Knop, 0, rest)
      else if opt = c_char CHR ''>'' then Inr (h\<lparr>islittle := False\<rparr>, Knop, 0, rest)
      else if opt = c_char CHR ''='' then Inr (h\<lparr>islittle := nativelittle\<rparr>, Knop, 0, rest)
      else if opt = c_char CHR ''!'' then
        (case getnumlimit rest MAXALIGN of
           Inl e \<Rightarrow> Inl e
         | Inr (sz, rest') \<Rightarrow> Inr (h\<lparr>maxalign := sz\<rparr>, Knop, 0, rest'))
      else Inl (Bad_format ''invalid format option''))"

text \<open>The padding that brings \<open>totalsize\<close> to a multiple of the alignment, a power of two.\<close>

definition align_for :: "pack_header \<Rightarrow> KOption \<Rightarrow> u64 \<Rightarrow> nat \<Rightarrow> pack_error + nat" where
  "align_for h opt totalsize align =
     (if align \<le> 1 \<or> opt = Kchar then Inr 0
      else
        let a = (if align > maxalign h then maxalign h else align) in
        if a AND (a - 1) \<noteq> 0 then Inl (Bad_arg 1 ''format asks for alignment not power of 2'')
        else Inr ((a - unat (totalsize AND of_nat (a - 1))) AND (a - 1)))"

definition getdetails ::
  "pack_header \<Rightarrow> u64 \<Rightarrow> bytes \<Rightarrow> pack_error + (pack_header \<times> KOption \<times> nat \<times> nat \<times> bytes)" where
  "getdetails h totalsize fmt =
     (case getoption h fmt of
        Inl e \<Rightarrow> Inl e
      | Inr (h1, opt, sz, rest) \<Rightarrow>
          (case (if opt = Kpaddalign then
                   if rest = [] then Inl (Bad_arg 1 ''invalid next option for option X'')
                   else
                     (case getoption h1 rest of
                        Inl e \<Rightarrow> Inl e
                      | Inr (h2, opt2, align, rest2) \<Rightarrow>
                          if opt2 = Kchar \<or> align = 0 then Inl (Bad_arg 1 ''invalid next option for option X'')
                          else Inr (h2, align, rest2))
                 else Inr (h1, sz, rest)) of
             Inl e \<Rightarrow> Inl e
           | Inr (h3, align, rest3) \<Rightarrow>
               (case align_for h3 opt totalsize align of
                  Inl e \<Rightarrow> Inl e
                | Inr ntoalign \<Rightarrow> Inr (h3, opt, sz, ntoalign, rest3))))"

section \<open>Integers\<close>

primrec byte_loop :: "nat \<Rightarrow> u64 \<Rightarrow> bytes" where
  "byte_loop 0 n = []"
| "byte_loop (Suc k) n = ucast (n AND 0xFF) # byte_loop k (drop_bit 8 n)"

definition packint :: "u64 \<Rightarrow> bool \<Rightarrow> nat \<Rightarrow> bool \<Rightarrow> bytes" where
  "packint n little sz neg =
     (let b = byte_loop sz n;
          b' = (if neg \<and> sz > SZINT then take SZINT b @ replicate (sz - SZINT) 0xFF else b)
      in if little then b' else rev b')"

primrec word_loop :: "bytes \<Rightarrow> u64" where
  "word_loop [] = 0"
| "word_loop (b # bs) = push_bit 8 (word_loop bs) OR ucast b"

text \<open>\<open>str\<close> is the \<open>size\<close> bytes at the position of the integer.\<close>

definition unpackint :: "bytes \<Rightarrow> bool \<Rightarrow> nat \<Rightarrow> bool \<Rightarrow> pack_error + lua_Integer" where
  "unpackint str little sz issigned =
     (let b = (if little then str else rev str);
          limit = (if sz \<le> SZINT then sz else SZINT);
          res = word_loop (take limit b)
      in if sz < SZINT then
           (if issigned then
              let mask = push_bit (sz * 8 - 1) 1 in Inr ((res XOR mask) - mask)
            else Inr res)
         else if sz > SZINT then
           let mask = (if \<not> issigned \<or> 0 \<le>s res then 0 else 0xFF) in
           if list_ex (\<lambda>c. c \<noteq> mask) (drop limit b) then Inl (No_fit sz) else Inr res
         else Inr res)"

text \<open>\<open>copywithendian\<close> from or to a float in the native order.\<close>

definition copywithendian :: "bytes \<Rightarrow> bool \<Rightarrow> bytes" where
  "copywithendian src little = (if little = nativelittle then src else rev src)"

section \<open>Packing\<close>

text \<open>The bytes of one value, and what a string adds to \<open>totalsize\<close> beyond \<open>size\<close>.\<close>

definition check_arg :: "nat \<Rightarrow> ('v \<Rightarrow> 'a option) \<Rightarrow> 'v option \<Rightarrow> pack_error + 'a" where
  "check_arg arg f v =
     (case Option.bind v f of None \<Rightarrow> Inl (Arg_type arg) | Some a \<Rightarrow> Inr a)"

definition andGo :: "pack_error + 'a \<Rightarrow> ('a \<Rightarrow> pack_error + 'b) \<Rightarrow> pack_error + 'b" where
  "andGo m f = (case m of Inl e \<Rightarrow> Inl e | Inr a \<Rightarrow> f a)"

definition pack_value ::
  "'v conv \<Rightarrow> bool \<Rightarrow> KOption \<Rightarrow> nat \<Rightarrow> nat \<Rightarrow> 'v option \<Rightarrow> pack_error + (bytes \<times> nat)" where
  "pack_value C little opt sz arg v =
     (case opt of
        Kint \<Rightarrow>
          andGo (check_arg arg (as_int C) v) (\<lambda>n.
            let lim = 2 ^ (sz * 8 - 1) in
            if sz < SZINT \<and> \<not> (- lim \<le> sint n \<and> sint n < lim) then Inl (Bad_arg arg ''integer overflow'')
            else Inr (packint n little sz (n <s 0), 0))
      | Kuint \<Rightarrow>
          andGo (check_arg arg (as_int C) v) (\<lambda>n.
            if sz < SZINT \<and> \<not> n < push_bit (sz * 8) 1 then Inl (Bad_arg arg ''unsigned overflow'')
            else Inr (packint n little sz False, 0))
      | Kfloat \<Rightarrow>
          andGo (check_arg arg (as_num C) v) (\<lambda>n.
            Inr (copywithendian (if sz = 4 then byte_loop 4 (ucast (single_of C n)) else byte_loop 8 n) little, 0))
      | Kchar \<Rightarrow>
          andGo (check_arg arg (as_str C) v) (\<lambda>s.
            Inr (if sz \<le> length s then take sz s else s @ replicate (sz - length s) 0, 0))
      | Kstring \<Rightarrow>
          andGo (check_arg arg (as_str C) v) (\<lambda>s.
            if \<not> (sz \<ge> 8 \<or> length s < 2 ^ (sz * 8))
            then Inl (Bad_arg arg ''string length does not fit in given size'')
            else Inr (packint (of_nat (length s)) little sz False @ s, length s))
      | Kzstr \<Rightarrow>
          andGo (check_arg arg (as_str C) v) (\<lambda>s.
            if 0 \<in> set s then Inl (Bad_arg arg ''string contains zeros'')
            else Inr (s @ [0], length s + 1))
      | _ \<Rightarrow> Inr ([], 0))"

lemma getnum_loop_length: "length (snd (getnum_loop fmt a)) \<le> length fmt"
  by (induction fmt a rule: getnum_loop.induct) auto

lemma getnum_length: "length (snd (getnum fmt df)) \<le> length fmt"
  using getnum_loop_length [of fmt 0] by (auto simp: getnum_def split: list.split prod.splits)

lemma getnumlimit_length: "getnumlimit fmt df = Inr (sz, rest) \<Longrightarrow> length rest \<le> length fmt"
  using getnum_length [of fmt "Some df"]
  by (auto simp: getnumlimit_def split: prod.splits option.splits if_splits)

lemma limited_length: "limited h k fmt df = Inr (h', k', sz, rest) \<Longrightarrow> length rest \<le> length fmt"
  by (auto simp: limited_def split: sum.splits dest: getnumlimit_length)

lemma getoption_shorter:
  assumes "getoption h fmt = Inr (h', opt, sz, rest)" "fmt \<noteq> []"
  shows "length rest < length fmt"
proof -
  have "length rest \<le> length (tl fmt)"
    using assms(1) getnum_length [of "tl fmt" None] unfolding getoption_def Let_def
    by (auto simp del: length_tl split: if_splits prod.splits option.splits sum.splits
        dest: limited_length getnumlimit_length)
  then show ?thesis using assms(2) by (cases fmt) auto
qed

lemma getdetails_shorter:
  assumes "getdetails h n fmt = Inr (h', opt, sz, nta, rest)" "fmt \<noteq> []"
  shows "length rest < length fmt"
  using assms unfolding getdetails_def
  by (auto split: sum.splits prod.splits if_splits dest!: getoption_shorter)

function pack_items ::
  "'v conv \<Rightarrow> pack_header \<Rightarrow> bytes \<Rightarrow> 'v list \<Rightarrow> nat \<Rightarrow> u64 \<Rightarrow> bytes \<Rightarrow> pack_error + bytes" where
  "pack_items C h fmt args arg totalsize b =
     (if fmt = [] then Inr b
      else
        (case getdetails h totalsize fmt of
           Inl e \<Rightarrow> Inl e
         | Inr (h', opt, sz, ntoalign, rest) \<Rightarrow>
             let total' = totalsize + of_nat (ntoalign + sz);
                 b' = b @ replicate ntoalign 0
             in if opt = Kpadding then pack_items C h' rest args arg total' (b' @ [0])
                else if opt = Kpaddalign \<or> opt = Knop then pack_items C h' rest args arg total' b'
                else
                  (case pack_value C (islittle h') opt sz (Suc arg) (case args of [] \<Rightarrow> None | v # _ \<Rightarrow> Some v) of
                     Inl e \<Rightarrow> Inl e
                   | Inr (bs, extra) \<Rightarrow>
                       pack_items C h' rest (tl args) (Suc arg) (total' + of_nat extra) (b' @ bs))))"
  by pat_completeness auto
termination
  by (relation "measure (\<lambda>(C, h, fmt, args, arg, totalsize, b). length fmt)")
    (auto dest: getdetails_shorter)

declare pack_items.simps [simp del]

definition str_pack :: "'v conv \<Rightarrow> bytes \<Rightarrow> 'v list \<Rightarrow> pack_error + bytes" where
  "str_pack C fmt args = pack_items C initheader fmt args 1 0 []"

function packsize_loop :: "pack_header \<Rightarrow> bytes \<Rightarrow> u64 \<Rightarrow> pack_error + u64" where
  "packsize_loop h fmt totalsize =
     (if fmt = [] then Inr totalsize
      else
        (case getdetails h totalsize fmt of
           Inl e \<Rightarrow> Inl e
         | Inr (h', opt, sz, ntoalign, rest) \<Rightarrow>
             let n = sz + ntoalign in
             if \<not> totalsize \<le> of_nat MAXSIZE - of_nat n then Inl (Bad_arg 1 ''format result too large'')
             else if opt = Kstring \<or> opt = Kzstr then Inl (Bad_arg 1 ''variable-length format'')
             else packsize_loop h' rest (totalsize + of_nat n)))"
  by pat_completeness auto
termination
  by (relation "measure (\<lambda>(h, fmt, totalsize). length fmt)") (auto dest: getdetails_shorter)

declare packsize_loop.simps [simp del]

definition str_packsize :: "bytes \<Rightarrow> pack_error + u64" where
  "str_packsize fmt = packsize_loop initheader fmt 0"

section \<open>Unpacking\<close>

datatype unpacked = U_int lua_Integer | U_num lua_Number | U_str bytes

text \<open>The data is a C string too: a NUL follows its last byte.\<close>

definition read_at :: "bytes \<Rightarrow> u64 \<Rightarrow> nat \<Rightarrow> pack_error + bytes" where
  "read_at data pos len =
     (if unat pos + len \<le> length data + 1 then Inr (take len (drop (unat pos) (data @ [0])))
      else Inl Out_of_bounds)"

text \<open>\<open>lua_pushlstring\<close>: \<open>luaS_newlstr\<close> refuses lengths from \<open>MAX_SIZE - sizeof(TString)\<close> on.\<close>

definition pushlstring :: "bytes \<Rightarrow> u64 \<Rightarrow> u64 \<Rightarrow> pack_error + bytes" where
  "pushlstring data pos len =
     (if unat len \<ge> 2 ^ 63 - 1 - 24 then Inl Too_big else read_at data pos (unat len))"

text \<open>\<open>(size_t)(int)strlen(data + pos)\<close>.\<close>

definition zstr_len :: "bytes \<Rightarrow> u64 \<Rightarrow> pack_error + u64" where
  "zstr_len data pos =
     (if unat pos > length data then Inl Out_of_bounds
      else Inr (scast (of_nat (length (takeWhile (\<lambda>c. c \<noteq> 0) (drop (unat pos) data))) :: 32 word)))"

text \<open>One value at \<open>pos\<close>, and the number of bytes it takes beyond \<open>size\<close>.\<close>

definition unpack_value ::
  "'v conv \<Rightarrow> bool \<Rightarrow> bytes \<Rightarrow> u64 \<Rightarrow> KOption \<Rightarrow> nat \<Rightarrow> pack_error + (unpacked \<times> u64)" where
  "unpack_value C little data pos opt sz =
     (case opt of
        Kint \<Rightarrow>
          andGo (read_at data pos sz) (\<lambda>s. andGo (unpackint s little sz True) (\<lambda>n. Inr (U_int n, 0)))
      | Kuint \<Rightarrow>
          andGo (read_at data pos sz) (\<lambda>s. andGo (unpackint s little sz False) (\<lambda>n. Inr (U_int n, 0)))
      | Kfloat \<Rightarrow>
          andGo (read_at data pos sz) (\<lambda>s.
            let x = word_loop (copywithendian s little)
            in Inr (U_num (if sz = 4 then number_of C (ucast x) else x), 0))
      | Kchar \<Rightarrow> andGo (pushlstring data pos (of_nat sz)) (\<lambda>s. Inr (U_str s, 0))
      | Kstring \<Rightarrow>
          andGo (read_at data pos sz) (\<lambda>s. andGo (unpackint s little sz False) (\<lambda>len.
            if \<not> pos + len + of_nat sz \<le> of_nat (length data) then Inl (Bad_arg 2 ''data string too short'')
            else andGo (pushlstring data (pos + of_nat sz) len) (\<lambda>v. Inr (U_str v, len))))
      | _ \<Rightarrow>
          andGo (zstr_len data pos) (\<lambda>len.
            andGo (pushlstring data pos len) (\<lambda>v. Inr (U_str v, len + 1))))"

function unpack_items ::
  "'v conv \<Rightarrow> (nat \<Rightarrow> bool) \<Rightarrow> pack_header \<Rightarrow> bytes \<Rightarrow> bytes \<Rightarrow> u64 \<Rightarrow> unpacked list \<Rightarrow>
   pack_error + (unpacked list \<times> u64)" where
  "unpack_items C checkstack h fmt data pos vs =
     (if fmt = [] then Inr (vs, pos + 1)
      else
        (case getdetails h pos fmt of
           Inl e \<Rightarrow> Inl e
         | Inr (h', opt, sz, ntoalign, rest) \<Rightarrow>
             if of_nat ntoalign + of_nat sz > NOT pos \<or> pos + of_nat ntoalign + of_nat sz > of_nat (length data)
             then Inl (Bad_arg 2 ''data string too short'')
             else if \<not> checkstack (length vs) then Inl Too_many_results
             else
               let pos' = pos + of_nat ntoalign in
               if opt = Kpaddalign \<or> opt = Kpadding \<or> opt = Knop
               then unpack_items C checkstack h' rest data (pos' + of_nat sz) vs
               else
                 (case unpack_value C (islittle h') data pos' opt sz of
                    Inl e \<Rightarrow> Inl e
                  | Inr (v, extra) \<Rightarrow>
                      unpack_items C checkstack h' rest data (pos' + extra + of_nat sz) (vs @ [v]))))"
  by pat_completeness auto
termination
  by (relation "measure (\<lambda>(C, checkstack, h, fmt, data, pos, vs). length fmt)")
    (auto dest: getdetails_shorter)

declare unpack_items.simps [simp del]

definition str_unpack ::
  "'v conv \<Rightarrow> (nat \<Rightarrow> bool) \<Rightarrow> bytes \<Rightarrow> bytes \<Rightarrow> int \<Rightarrow> pack_error + (unpacked list \<times> u64)" where
  "str_unpack C checkstack fmt data i =
     (let pos = of_int (posrelat i (length data)) - 1 in
      if \<not> pos \<le> of_nat (length data) then Inl (Bad_arg 3 ''initial position out of string'')
      else unpack_items C checkstack initheader fmt data pos [])"

end
