(* ===== verification/LuaPackProps.thy ===== *)
theory LuaPackProps
  imports LuaPack
begin

text \<open>
  Properties of \<open>string.pack\<close> and \<open>string.unpack\<close>: the round trip of integers of every size and byte
  order, the round trip of whole formats, and that no data makes \<open>string.unpack\<close> read outside it.
\<close>

section \<open>Integers as bytes\<close>

lemma byte_loop_length [simp]: "length (byte_loop k n) = k"
  by (induction k arbitrary: n) simp_all

lemma word_loop_bytes: "word_loop (byte_loop k n) = take_bit (8 * k) n"
proof (induction k arbitrary: n)
  case 0
  then show ?case by simp
next
  case (Suc k)
  have "push_bit 8 (take_bit (8 * k) (drop_bit 8 n)) OR ucast (ucast (n AND 0xFF) :: byte) = take_bit (8 * Suc k) n"
  proof (rule bit_word_eqI)
    fix i assume "i < LENGTH(64)"
    have m: "n AND 0xFF = take_bit 8 n" by (simp add: take_bit_eq_mask mask_eq_exp_minus_1)
    show "bit (push_bit 8 (take_bit (8 * k) (drop_bit 8 n)) OR ucast (ucast (n AND 0xFF) :: byte)) i =
        bit (take_bit (8 * Suc k) n) i"
      unfolding m using \<open>i < LENGTH(64)\<close> by (cases "i < 8") (auto simp: bit_simps)
  qed
  then show ?case using Suc by simp
qed

lemma byte_loop_zero [simp]: "byte_loop k 0 = replicate k 0"
  by (induction k) simp_all

lemma byte_loop_add: "byte_loop (j + k) n = byte_loop j n @ byte_loop k (drop_bit (8 * j) n)"
  by (induction j arbitrary: n) (simp_all add: drop_bit_drop_bit add.commute)

lemma drop_all: "drop_bit 64 (n :: u64) = 0"
  by (rule bit_word_eqI) (auto simp: bit_simps dest: bit_imp_le_length)

lemma byte_loop_long: "byte_loop (8 + k) n = byte_loop 8 n @ replicate k 0"
  using byte_loop_add [of 8 k n] drop_all [of n] by simp

lemma xor_high:
  fixes k :: u64
  assumes "k < 2 ^ m" "m < 64"
  shows "k XOR 2 ^ m = k + 2 ^ m" "(k + 2 ^ m) XOR 2 ^ m = k"
proof -
  have nb: "\<not> bit k m"
  proof
    assume "bit k m"
    moreover have "take_bit m k = k" using assms by (simp add: take_bit_eq_mask less_mask_eq)
    ultimately show False by (metis bit_take_bit_iff less_irrefl)
  qed
  have "k XOR 2 ^ m = k OR 2 ^ m"
    by (rule bit_word_eqI) (use nb in \<open>auto simp: bit_simps\<close>)
  moreover have "k OR 2 ^ m = k + 2 ^ m"
    by (rule disjunctive_add [symmetric]) (use nb in \<open>auto simp: bit_simps\<close>)
  ultimately show a: "k XOR 2 ^ m = k + 2 ^ m" by simp
  show "(k + 2 ^ m) XOR 2 ^ m = k" unfolding a [symmetric] by (simp add: xor.assoc)
qed

lemma take_bit_small: "n < 2 ^ m \<Longrightarrow> take_bit m n = (n :: u64)"
  by (simp add: take_bit_eq_mask less_mask_eq)

lemma less_exp_sint:
  fixes k :: u64
  assumes "0 \<le> sint k" "sint k < 2 ^ m" "m < 63"
  shows "k < 2 ^ m"
proof -
  have "uint k = sint k"
    using assms(1) sint_lt [of k] by (simp add: uint_sint take_bit_int_eq_self)
  then show ?thesis using assms(2,3) by (simp add: word_2p_lem word_size)
qed

lemma take_bit_plus_exp:
  fixes n :: u64
  assumes "j < 64"
  shows "take_bit j (n + 2 ^ j) = take_bit j n"
proof -
  have d: "(2 :: int) ^ j dvd 2 ^ 64" using assms by (intro le_imp_power_dvd) simp
  have "uint (n + 2 ^ j) mod 2 ^ j = (uint n + uint ((2 :: u64) ^ j)) mod 2 ^ j"
    using d by (simp add: uint_word_ariths mod_mod_cancel)
  also have "uint ((2 :: u64) ^ j) = 2 ^ j"
    using assms by (intro uint_2p) (simp add: word_gt_0)
  finally have "uint (n + 2 ^ j) mod 2 ^ j = uint n mod 2 ^ j" by simp
  then show ?thesis by (simp only: take_bit_eq_mask and_mask_mod_2p)
qed

lemma sign_extend:
  fixes n :: u64
  assumes "- (2 ^ m) \<le> sint n" "sint n < 2 ^ m" "m < 63"
  shows "(take_bit (Suc m) n XOR 2 ^ m) - 2 ^ m = n"
proof (cases "0 \<le> sint n")
  case True
  then have n: "n < 2 ^ m" using assms(2,3) by (intro less_exp_sint)
  have "take_bit (Suc m) (take_bit m n) = take_bit m n" by simp
  then have "take_bit (Suc m) n = n" using take_bit_small [OF n] by simp
  then show ?thesis using xor_high(1) [OF n] assms(3) by simp
next
  case False
  define k where "k = n + 2 ^ m"
  have p: "(2 :: int) ^ m < 2 ^ 63" using assms(3) by (rule power_strict_increasing) simp
  have "sint ((2 :: u64) ^ m) = 2 ^ m"
  proof -
    have "uint ((2 :: u64) ^ m) = 2 ^ m"
      using word_2p_lem [of m "- 1 :: u64"] assms(3) by (intro uint_2p) (simp add: word_size word_gt_0)
    moreover have "signed_take_bit 63 ((2 :: int) ^ m) = 2 ^ m"
    proof (rule signed_take_bit_int_eq_self)
      show "- (2 ^ 63) \<le> (2 :: int) ^ m" by (rule order_trans [of _ 0]) simp_all
    qed (use p in simp)
    ultimately show ?thesis by (simp add: sint_uint)
  qed
  then have "sint k = sint n + 2 ^ m"
    unfolding k_def using assms(1) False p sint_ge [of n]
    by (simp add: sint_word_ariths signed_take_bit_int_eq_self)
  then have "k < 2 ^ m" using assms False by (intro less_exp_sint) simp_all
  note x = xor_high(2) [OF this] and k = this
  have "take_bit (Suc m) (k + 2 ^ m) = take_bit (Suc m) n"
    using take_bit_plus_exp [of "Suc m" n] assms(3) by (simp add: k_def algebra_simps)
  moreover have "take_bit (Suc m) (k + 2 ^ m) = k + 2 ^ m"
  proof (rule bit_word_eqI)
    fix i
    have nb: "\<not> bit k j" if "m \<le> j" for j
      using take_bit_small [OF k] that by (metis bit_take_bit_iff not_less)
    have "k + 2 ^ m = k XOR 2 ^ m" using xor_high(1) [OF k] assms(3) by simp
    then show "bit (take_bit (Suc m) (k + 2 ^ m)) i = bit (k + 2 ^ m) i"
      using nb [of i] by (cases "m \<le> i") (auto simp: bit_simps)
  qed
  ultimately show ?thesis using x assms(3) by (simp add: k_def)
qed

section \<open>Round trip of integers\<close>

text \<open>What \<open>string.pack\<close> accepts for an integer of a size.\<close>

definition int_fits :: "nat \<Rightarrow> bool \<Rightarrow> lua_Integer \<Rightarrow> bool" where
  "int_fits sz sg n \<longleftrightarrow>
     (if sg then sz < SZINT \<longrightarrow> - (2 ^ (sz * 8 - 1)) \<le> sint n \<and> sint n < 2 ^ (sz * 8 - 1)
      else sz < SZINT \<longrightarrow> n < push_bit (sz * 8) 1)"

lemma packint_length [simp]: "length (packint n little sz neg) = sz"
  by (auto simp: packint_def Let_def SZINT_def)

lemma word_loop_append_zero: "word_loop (b @ replicate k 0) = word_loop b"
  by (induction b) (induction k, simp_all)

lemma packint_roundtrip:
  assumes "0 < sz" "int_fits sz sg n" "sg \<longrightarrow> neg = (n <s 0)" "\<not> sg \<longrightarrow> \<not> neg"
  shows "unpackint (packint n little sz neg) little sz sg = Inr n"
proof -
  let ?b = "if neg \<and> sz > SZINT then take SZINT (byte_loop sz n) @ replicate (sz - SZINT) 0xFF else byte_loop sz n"
  have b: "(if little then packint n little sz neg else rev (packint n little sz neg)) = ?b"
    by (simp add: packint_def Let_def)
  consider "sz < 8" | "sz = 8" | k where "sz = 8 + k" "0 < k"
    by (metis le_Suc_ex less_linear less_imp_le_nat add_0_right neq0_conv)
  then show ?thesis
  proof cases
    case 1
    then have r: "word_loop (take sz ?b) = take_bit (8 * sz) n"
      by (simp add: SZINT_def word_loop_bytes)
    show ?thesis
    proof (cases sg)
      case True
      define m where "m = sz * 8 - 1"
      have m: "8 * sz = Suc m" "m < 63" "sz * 8 - 1 = m" using assms(1) 1 by (simp_all add: m_def)
      have "- (2 ^ m) \<le> sint n" "sint n < 2 ^ m"
        using assms(2) True 1 m by (simp_all add: int_fits_def SZINT_def)
      from sign_extend [OF this m(2)] show ?thesis
        unfolding unpackint_def Let_def b using r True 1 m
        by (simp add: SZINT_def push_bit_eq_mult)
    next
      case False
      then have "n < push_bit (sz * 8) 1" using assms(2) 1 by (simp add: int_fits_def SZINT_def)
      then have "take_bit (8 * sz) n = n"
        by (intro take_bit_small) (simp add: push_bit_eq_mult mult.commute)
      then show ?thesis
        unfolding unpackint_def Let_def b using r False 1 by (simp add: SZINT_def)
    qed
  next
    case 2
    have "word_loop (byte_loop 8 n) = n" by (simp add: word_loop_bytes take_bit_word_eq_self)
    then show ?thesis unfolding unpackint_def Let_def b using 2 by (simp add: SZINT_def)
  next
    case 3
    have l: "take 8 ?b = byte_loop 8 n" "drop 8 ?b = replicate k (if neg then 0xFF else 0)"
      using 3 byte_loop_long [of k n] by (simp_all add: SZINT_def)
    have w: "word_loop (byte_loop 8 n) = n" by (simp add: word_loop_bytes take_bit_word_eq_self)
    have "neg = (sg \<and> n <s 0)" using assms(3,4) by blast
    then have "(if \<not> sg \<or> 0 \<le>s n then 0 else 0xFF) = (if neg then 0xFF else (0 :: byte))"
      by (auto simp: word_sle_eq word_sless_alt)
    then show ?thesis
      unfolding unpackint_def Let_def b using 3 l w by (simp add: SZINT_def list_ex_iff)
  qed
qed

section \<open>The options of a format\<close>

definition option_ok :: "KOption \<Rightarrow> nat \<Rightarrow> bool" where
  "option_ok opt sz \<longleftrightarrow> sz \<le> MAXSIZE \<and> (opt \<in> {Kint, Kuint, Kstring} \<longrightarrow> 0 < sz) \<and> (opt \<noteq> Kchar \<longrightarrow> sz \<le> 16) \<and>
     (opt = Kfloat \<longrightarrow> sz = 4 \<or> sz = 8) \<and> (opt \<in> {Kzstr, Kpaddalign, Knop} \<longrightarrow> sz = 0) \<and>
     (opt = Kpadding \<longrightarrow> sz = 1)"

lemma getnum_loop_bound: "a \<le> MAXSIZE \<Longrightarrow> fst (getnum_loop fmt a) \<le> MAXSIZE"
proof (induction fmt a rule: getnum_loop.induct)
  case (2 c cs a)
  have "unat c - 48 \<le> 9" if "digit c"
  proof -
    have "48 \<le> unat c \<and> unat c \<le> 57" using that by (simp add: digit_def word_le_nat_alt)
    then show ?thesis by linarith
  qed
  then have "digit c \<Longrightarrow> a \<le> (MAXSIZE - 9) div 10 \<Longrightarrow> a * 10 + (unat c - 48) \<le> MAXSIZE"
    by (simp add: MAXSIZE_def)
  then show ?case using 2 by simp
qed simp

lemma getnum_bound: "getnum fmt None = (Some a, rest) \<Longrightarrow> a \<le> MAXSIZE"
  using getnum_loop_bound [of 0 fmt] by (auto simp: getnum_def split: list.splits if_splits prod.splits)

lemma limited_ok:
  "limited h k fmt df = Inr (h', opt, sz, rest) \<Longrightarrow> opt = k \<and> 0 < sz \<and> sz \<le> 16"
  by (auto simp: limited_def getnumlimit_def MAXINTSIZE_def split: sum.splits prod.splits option.splits if_splits)

lemma getoption_ok: "getoption h fmt = Inr (h', opt, sz, rest) \<Longrightarrow> option_ok opt sz"
  unfolding getoption_def Let_def
  by (auto simp: option_ok_def SZINT_def MAXSIZE_def split: if_splits prod.splits option.splits sum.splits
      dest: limited_ok dest!: getnum_bound)

lemma getdetails_ok:
  assumes "getdetails h n fmt = Inr (h', opt, sz, nt, rest)"
  shows "option_ok opt sz" "nt < 16"
proof -
  show "option_ok opt sz"
    using assms unfolding getdetails_def
    by (auto split: sum.splits prod.splits if_splits dest: getoption_ok)
  obtain h3 align where a: "align_for h3 opt n align = Inr nt" "opt \<noteq> Kchar \<longrightarrow> align \<le> 16"
    using assms unfolding getdetails_def
    by (auto split: sum.splits prod.splits if_splits dest!: getoption_ok simp: option_ok_def)
  show "nt < 16"
  proof (cases "align \<le> 1 \<or> opt = Kchar")
    case False
    define b where "b = (if align > maxalign h3 then maxalign h3 else align)"
    have "b \<le> 16" using a(2) False by (auto simp: b_def)
    moreover have "nt = (b - unat (n AND of_nat (b - 1))) AND (b - 1)"
      using a(1) False by (simp add: align_for_def Let_def flip: b_def split: if_splits)
    moreover have "x AND (b - 1) \<le> b - 1" for x
    proof -
      have "int (x AND (b - 1)) = int x AND int (b - 1)" by (rule of_nat_and_eq)
      also have "\<dots> \<le> int (b - 1)" by (rule AND_upper2) simp
      finally show ?thesis by simp
    qed
    ultimately show ?thesis by (cases b) (force intro: le_less_trans)+
  qed (use a(1) in \<open>auto simp: align_for_def\<close>)
qed

text \<open>What is read does not depend on the position, only the padding does.\<close>

lemma align_for_any:
  "align_for h opt n align = Inr nt \<Longrightarrow> \<exists>nt'. align_for h opt m align = Inr nt'"
  by (auto simp: align_for_def Let_def split: if_splits)

lemma getdetails_parts:
  "\<exists>r. \<forall>n. getdetails h n fmt =
     (case r of Inl e \<Rightarrow> Inl e
      | Inr (h3, opt, sz, align, rest) \<Rightarrow>
          (case align_for h3 opt n align of
             Inl e \<Rightarrow> Inl e
           | Inr nt \<Rightarrow> Inr (h3, opt, sz, nt, rest)))"
proof (cases "getoption h fmt")
  case (Inl e)
  then show ?thesis by (intro exI [of _ "Inl e"]) (simp add: getdetails_def)
next
  case (Inr r)
  obtain h1 opt sz rest where r: "r = (h1, opt, sz, rest)" by (cases r)
  define q where "q = (if opt = Kpaddalign then
       if rest = [] then Inl (Bad_arg 1 ''invalid next option for option X'')
       else
         (case getoption h1 rest of
            Inl e \<Rightarrow> Inl e
          | Inr (h2, opt2, align, rest2) \<Rightarrow>
              if opt2 = Kchar \<or> align = 0 then Inl (Bad_arg 1 ''invalid next option for option X'')
              else Inr (h2, align, rest2))
     else Inr (h1, sz, rest))"
  have d: "getdetails h n fmt = (case q of Inl e \<Rightarrow> Inl e
      | Inr (h3, align, rest3) \<Rightarrow>
          (case align_for h3 opt n align of Inl e \<Rightarrow> Inl e | Inr nt \<Rightarrow> Inr (h3, opt, sz, nt, rest3)))" for n
    unfolding getdetails_def Inr r sum.case prod.case q_def ..
  show ?thesis
  proof (cases q)
    case (Inl e)
    then show ?thesis unfolding d by (intro exI [of _ "Inl e"]) simp
  next
    case (Inr x)
    obtain h3 align rest3 where "x = (h3, align, rest3)" by (cases x)
    then show ?thesis unfolding d Inr by (intro exI [of _ "Inr (h3, opt, sz, align, rest3)"]) simp
  qed
qed

lemma getdetails_any:
  assumes "getdetails h n fmt = Inr (h', opt, sz, nt, rest)"
  shows "\<exists>nt'. getdetails h m fmt = Inr (h', opt, sz, nt', rest)"
proof -
  obtain r where r: "\<forall>n. getdetails h n fmt =
     (case r of Inl e \<Rightarrow> Inl e
      | Inr (h3, opt, sz, align, rest) \<Rightarrow>
          (case align_for h3 opt n align of Inl e \<Rightarrow> Inl e | Inr nt \<Rightarrow> Inr (h3, opt, sz, nt, rest)))"
    using getdetails_parts [of h fmt] by blast
  obtain align where a: "r = Inr (h', opt, sz, align, rest)" "align_for h' opt n align = Inr nt"
    using assms r by (auto split: sum.splits prod.splits)
  then show ?thesis using r align_for_any [OF a(2), of m] by auto
qed

section \<open>Round trip of values\<close>

text \<open>What a value is after packing and unpacking: floats may lose precision, fixed strings are cut
  or padded.\<close>

definition kept :: "'v conv \<Rightarrow> KOption \<Rightarrow> nat \<Rightarrow> 'v \<Rightarrow> unpacked" where
  "kept C opt sz v =
     (case opt of
        Kint \<Rightarrow> U_int (the (as_int C v))
      | Kuint \<Rightarrow> U_int (the (as_int C v))
      | Kfloat \<Rightarrow>
          (let x = the (as_num C v) in U_num (if sz = 4 then number_of C (single_of C x) else x))
      | Kchar \<Rightarrow> (let s = the (as_str C v) in U_str (take sz s @ replicate (sz - length s) 0))
      | _ \<Rightarrow> U_str (the (as_str C v)))"

definition is_value :: "KOption \<Rightarrow> bool" where
  "is_value opt \<longleftrightarrow> opt \<notin> {Kpadding, Kpaddalign, Knop}"

lemma andGo_simps [simp]: "andGo (Inl e) f = Inl e" "andGo (Inr a) f = f a"
  by (simp_all add: andGo_def)

lemma andGo_Inr: "andGo m f = Inr b \<longleftrightarrow> (\<exists>a. m = Inr a \<and> f a = Inr b)"
  by (cases m) simp_all

lemma check_arg_Inr [simp]: "check_arg arg f v = Inr a \<longleftrightarrow> (\<exists>x. v = Some x \<and> f x = Some a)"
  by (cases v) (auto simp: check_arg_def split: option.splits)

lemma copywithendian_twice [simp]: "copywithendian (copywithendian s l) l = s"
  by (simp add: copywithendian_def)

lemma copywithendian_length [simp]: "length (copywithendian s l) = length s"
  by (simp add: copywithendian_def)

text \<open>Reading back bytes that lie inside the data.\<close>

definition lies_at :: "bytes \<Rightarrow> bytes \<Rightarrow> nat \<Rightarrow> bool" where
  "lies_at bs data p \<longleftrightarrow> p + length bs \<le> length data \<and> take (length bs) (drop p data) = bs"

lemma read_at_lies:
  assumes "lies_at (bs @ cs) data p" "length data < 2 ^ 31"
  shows "read_at data (of_nat p) (length bs) = Inr bs"
proof -
  have p: "unat (of_nat p :: u64) = p" "p + length bs \<le> length data"
    using assms by (simp_all add: lies_at_def unat_of_nat)
  have "take (length bs) (drop p data) = take (length bs) (take (length (bs @ cs)) (drop p data))"
    by simp
  also have "\<dots> = bs" using assms(1) unfolding lies_at_def by (simp del: take_take)
  finally show ?thesis using p by (simp add: read_at_def)
qed

lemma lies_at_tail: "lies_at (bs @ cs) data p \<Longrightarrow> lies_at cs data (p + length bs)"
proof -
  assume h: "lies_at (bs @ cs) data p"
  have "take (length cs) (drop (p + length bs) data) =
      drop (length bs) (take (length bs + length cs) (drop p data))"
    by (simp add: drop_take add.commute)
  also have "\<dots> = cs" using h by (simp add: lies_at_def)
  finally show ?thesis using h by (simp add: lies_at_def)
qed

lemma pushlstring_lies:
  assumes "lies_at (bs @ cs) data p" "length data < 2 ^ 31"
  shows "pushlstring data (of_nat p) (of_nat (length bs)) = Inr bs"
proof -
  have "unat (of_nat (length bs) :: u64) = length bs" "length bs < 2 ^ 31"
    using assms by (simp_all add: lies_at_def unat_of_nat)
  then show ?thesis using read_at_lies [OF assms] by (simp add: pushlstring_def)
qed

lemma takeWhile_lies:
  assumes "lies_at (s @ [0]) data p" "0 \<notin> set s"
  shows "takeWhile (\<lambda>c. c \<noteq> 0) (drop p data) = s"
proof -
  have "drop p data = s @ 0 # drop (length s + 1) (drop p data)"
    using assms(1) append_take_drop_id [of "length s + 1" "drop p data"] by (simp add: lies_at_def)
  then have "takeWhile (\<lambda>c. c \<noteq> 0) (drop p data) = takeWhile (\<lambda>c. c \<noteq> 0) (s @ 0 # drop (length s + 1) (drop p data))"
    by (rule arg_cong)
  also have "\<dots> = takeWhile (\<lambda>c. c \<noteq> 0) s" by (rule takeWhile_tail) simp
  also have "\<dots> = s" using assms(2) by (auto simp: takeWhile_eq_all_conv)
  finally show ?thesis .
qed

lemma value_roundtrip:
  assumes pack: "pack_value C little opt sz arg (Some v) = Inr (bs, extra)"
    and opt: "is_value opt" "option_ok opt sz"
    and data: "lies_at bs data p" "length data < 2 ^ 31"
  shows "length bs = sz + extra \<and> unpack_value C little data (of_nat p) opt sz = Inr (kept C opt sz v, of_nat extra)"
proof (cases opt)
  case Kint
  then obtain n where n: "as_int C v = Some n" "bs = packint n little sz (n <s 0)" "extra = 0" "int_fits sz True n"
    using pack by (auto simp: pack_value_def andGo_Inr Let_def int_fits_def split: if_splits)
  have "0 < sz" using opt(2) Kint by (simp add: option_ok_def)
  then show ?thesis
    using Kint n read_at_lies [of bs "[]" data p] data packint_roundtrip [of sz True n "n <s 0" little]
    by (simp add: unpack_value_def kept_def)
next
  case Kuint
  then obtain n where n: "as_int C v = Some n" "bs = packint n little sz False" "extra = 0" "int_fits sz False n"
    using pack by (auto simp: pack_value_def andGo_Inr Let_def int_fits_def split: if_splits)
  have "0 < sz" using opt(2) Kuint by (simp add: option_ok_def)
  then show ?thesis
    using Kuint n read_at_lies [of bs "[]" data p] data packint_roundtrip [of sz False n False little]
    by (simp add: unpack_value_def kept_def)
next
  case Kfloat
  let ?w = "\<lambda>x. if sz = 4 then byte_loop 4 (ucast (single_of C x)) else byte_loop 8 x"
  obtain x where x: "as_num C v = Some x" "bs = copywithendian (?w x) little" "extra = 0"
    using pack Kfloat by (auto simp: pack_value_def andGo_Inr)
  have sz: "sz = 4 \<or> sz = 8" using opt(2) Kfloat by (simp add: option_ok_def)
  then have "length bs = sz" using x(2) by auto
  moreover have "ucast (take_bit 32 (ucast y :: u64)) = (y :: u32)" for y
    by (rule bit_word_eqI) (auto simp: bit_simps)
  then have "U_num (let z = word_loop (copywithendian bs little) in if sz = 4 then number_of C (ucast z) else z) =
      kept C opt sz v"
    using x sz Kfloat by (auto simp: kept_def word_loop_bytes take_bit_word_eq_self)
  ultimately show ?thesis
    using Kfloat x(3) read_at_lies [of bs "[]" data p] data by (simp add: unpack_value_def Let_def)
next
  case Kchar
  obtain s where s: "as_str C v = Some s" "bs = take sz s @ replicate (sz - length s) 0" "extra = 0"
    using pack Kchar by (cases "sz \<le> length (the (as_str C v))") (auto simp: pack_value_def andGo_Inr)
  then have "length bs = sz" by simp
  then show ?thesis
    using Kchar s(1,3) pushlstring_lies [of bs "[]" data p] data by (simp add: unpack_value_def kept_def Let_def flip: s(2))
next
  case Kstring
  obtain s where s: "as_str C v = Some s" "bs = packint (of_nat (length s)) little sz False @ s"
    "extra = length s" "sz \<ge> 8 \<or> length s < 2 ^ (sz * 8)"
    using pack Kstring by (auto simp: pack_value_def andGo_Inr split: if_splits)
  let ?n = "of_nat (length s) :: u64" and ?h = "packint (of_nat (length s)) little sz False"
  have sz: "0 < sz" "sz \<le> 16" using opt(2) Kstring by (simp_all add: option_ok_def)
  have l: "p + sz + length s \<le> length data" "length s < 2 ^ 31"
    using data s(2) by (simp_all add: lies_at_def)
  have "int_fits sz False ?n"
  proof (cases "sz < 8")
    case True
    then have "length s < 2 ^ (sz * 8)" using s(4) by simp
    moreover have "unat (push_bit (sz * 8) (1 :: u64)) = 2 ^ (sz * 8)"
      using True word_2p_lem [of "sz * 8" "- 1 :: u64"]
      by (simp add: push_bit_eq_mult unat_eq_nat_uint uint_2p word_gt_0 nat_power_eq)
    ultimately show ?thesis
      using l(2) by (simp add: int_fits_def word_less_nat_alt unat_of_nat)
  qed (simp add: int_fits_def SZINT_def)
  then have int: "unpackint ?h little sz False = Inr ?n" by (intro packint_roundtrip sz) simp_all
  have rd: "read_at data (of_nat p) sz = Inr ?h"
    using read_at_lies [of ?h s data p] data s(2) by simp
  have "lies_at s data (p + sz)" using lies_at_tail [of ?h s data p] data(1) s(2) by simp
  then have push: "pushlstring data (of_nat (p + sz)) ?n = Inr s"
    using pushlstring_lies [of s "[]" data "p + sz"] data(2) by simp
  have "(of_nat (p + length s + sz) :: u64) \<le> of_nat (length data)"
    using l(1) data(2) by (simp add: word_le_nat_alt unat_of_nat del: of_nat_add)
  then have le: "of_nat p + ?n + of_nat sz \<le> (of_nat (length data) :: u64)" by simp
  show ?thesis
    using Kstring s(1-3) rd int push le by (simp add: unpack_value_def kept_def)
next
  case Kzstr
  obtain s where s: "as_str C v = Some s" "bs = s @ [0]" "extra = length s + 1" "0 \<notin> set s"
    using pack Kzstr by (auto simp: pack_value_def andGo_Inr split: if_splits)
  have l: "p + length s < length data" using data(1) s(2) by (simp add: lies_at_def)
  have p: "unat (of_nat p :: u64) = p" using l data(2) by (simp add: unat_of_nat)
  have "sint (of_nat (length s) :: 32 word) = int (length s)"
    using l data(2) by (simp add: signed_of_nat signed_take_bit_int_eq_self)
  then have n: "scast (of_nat (length s) :: 32 word) = (of_nat (length s) :: u64)" by (simp add: scast_eq)
  have "zstr_len data (of_nat p) = Inr (of_nat (length s))"
    using takeWhile_lies [of s data p] data(1) s(2,4) p l n by (simp add: zstr_len_def)
  moreover have "pushlstring data (of_nat p) (of_nat (length s)) = Inr s"
    using pushlstring_lies [of s "[0]" data p] data s(2) by simp
  ultimately show ?thesis
    using Kzstr s opt(2) by (simp add: unpack_value_def kept_def option_ok_def)
qed (use opt(1) in \<open>simp_all add: is_value_def\<close>)

section \<open>Round trip of formats\<close>

function kept_items :: "'v conv \<Rightarrow> pack_header \<Rightarrow> bytes \<Rightarrow> 'v list \<Rightarrow> unpacked list" where
  "kept_items C h fmt args =
     (if fmt = [] then []
      else
        (case getdetails h 0 fmt of
           Inl e \<Rightarrow> []
         | Inr (h', opt, sz, nt, rest) \<Rightarrow>
             if is_value opt then kept C opt sz (hd args) # kept_items C h' rest (tl args)
             else kept_items C h' rest args))"
  by pat_completeness auto
termination
  by (relation "measure (\<lambda>(C, h, fmt, args). length fmt)") (auto dest: getdetails_shorter)

declare kept_items.simps [simp del]

lemma kept_items_step:
  assumes "getdetails h n fmt = Inr (h', opt, sz, nt, rest)" "fmt \<noteq> []"
  shows "kept_items C h fmt args =
    (if is_value opt then kept C opt sz (hd args) # kept_items C h' rest (tl args)
     else kept_items C h' rest args)"
  using getdetails_any [OF assms(1), of 0] assms(2) by (subst kept_items.simps) auto

lemma unat_NOT: "unat (NOT w) = 2 ^ 64 - 1 - unat (w :: u64)"
proof -
  have "NOT w = - 1 - w" by (simp add: not_eq_complement)
  moreover have "unat (- 1 - w) = unat (- 1 :: u64) - unat w" by (rule unat_sub) simp
  ultimately show ?thesis by (simp add: unsigned_minus_1_eq_mask mask_eq_exp_minus_1)
qed

lemma items_nil [simp]:
  "pack_items C h [] args arg tot b = Inr b" "kept_items C h [] args = []"
  "unpack_items C checkstack h [] data pos vs = Inr (vs, pos + 1)"
  by (simp_all add: pack_items.simps kept_items.simps unpack_items.simps)

lemma unpack_items_step:
  assumes "getdetails h (of_nat p) fmt = Inr (h', opt, sz, nt, rest)" "fmt \<noteq> []"
    and "p + nt + sz \<le> length data" "length data < 2 ^ 31" "\<And>n. checkstack n"
  shows "unpack_items C checkstack h fmt data (of_nat p) vs =
    (if is_value opt then
       (case unpack_value C (islittle h') data (of_nat (p + nt)) opt sz of
          Inl e \<Rightarrow> Inl e
        | Inr (v, extra) \<Rightarrow>
            unpack_items C checkstack h' rest data (of_nat (p + nt) + extra + of_nat sz) (vs @ [v]))
     else unpack_items C checkstack h' rest data (of_nat (p + nt + sz)) vs)"
proof -
  have "\<not> of_nat nt + of_nat sz > NOT (of_nat p :: u64)"
  proof -
    have "unat (NOT (of_nat p :: u64)) = 2 ^ 64 - 1 - p"
      using assms(3,4) by (simp add: unat_NOT unat_of_nat)
    moreover have "unat (of_nat (nt + sz) :: u64) = nt + sz" using assms(3,4) by (simp add: unat_of_nat del: of_nat_add)
    ultimately show ?thesis using assms(3,4) by (simp add: word_less_nat_alt)
  qed
  moreover have "\<not> of_nat (p + nt + sz) > (of_nat (length data) :: u64)"
    using assms(3,4) by (simp add: word_less_nat_alt unat_of_nat del: of_nat_add)
  ultimately show ?thesis
    using assms(1,2,5) by (subst unpack_items.simps) (auto simp: is_value_def Let_def split: sum.split)
qed

lemma pack_value_length:
  assumes "pack_value C little opt sz arg v = Inr (bs, extra)" "is_value opt" "option_ok opt sz"
  shows "length bs = sz + extra"
proof (cases "opt = Kchar")
  case True
  then obtain s where "bs = (if sz \<le> length s then take sz s else s @ replicate (sz - length s) 0)" "extra = 0"
    using assms(1) by (auto simp: pack_value_def andGo_Inr simp del: check_arg_Inr)
  then show ?thesis by simp
next
  case False
  then show ?thesis
    using assms
    by (cases opt) (auto simp: pack_value_def andGo_Inr Let_def is_value_def option_ok_def split: if_splits)
qed

lemma pack_items_step:
  assumes "pack_items C h fmt args arg tot b = Inr res" "fmt \<noteq> []"
  obtains h' opt sz nt rest where "getdetails h tot fmt = Inr (h', opt, sz, nt, rest)" "\<not> is_value opt"
      "pack_items C h' rest args arg (tot + of_nat (nt + sz)) (b @ replicate nt 0 @ replicate sz 0) = Inr res"
  | h' opt sz nt rest v bs extra where "getdetails h tot fmt = Inr (h', opt, sz, nt, rest)" "is_value opt"
      "args = v # tl args" "pack_value C (islittle h') opt sz (Suc arg) (Some v) = Inr (bs, extra)"
      "pack_items C h' rest (tl args) (Suc arg) (tot + of_nat (nt + sz) + of_nat extra) (b @ replicate nt 0 @ bs) = Inr res"
proof -
  obtain h' opt sz nt rest where d: "getdetails h tot fmt = Inr (h', opt, sz, nt, rest)"
    using assms by (subst (asm) pack_items.simps) (auto split: sum.splits)
  note ok = getdetails_ok(1) [OF d, unfolded option_ok_def]
  show ?thesis
  proof (cases "is_value opt")
    case False
    then have "opt = Kpadding \<and> sz = 1 \<or> (opt = Kpaddalign \<or> opt = Knop) \<and> sz = 0"
      using ok by (auto simp: is_value_def)
    then have "pack_items C h' rest args arg (tot + of_nat (nt + sz)) (b @ replicate nt 0 @ replicate sz 0) = Inr res"
      using assms d by (subst (asm) pack_items.simps) auto
    then show ?thesis using that(1) d False by blast
  next
    case True
    then obtain bs extra where v: "pack_value C (islittle h') opt sz (Suc arg) (case args of [] \<Rightarrow> None | v # _ \<Rightarrow> Some v) = Inr (bs, extra)"
      "pack_items C h' rest (tl args) (Suc arg) (tot + of_nat (nt + sz) + of_nat extra) (b @ replicate nt 0 @ bs) = Inr res"
      using assms d by (subst (asm) pack_items.simps) (auto simp: is_value_def Let_def split: sum.splits)
    have "args \<noteq> []"
      using v(1) True by (cases opt) (auto simp: pack_value_def is_value_def andGo_Inr split: list.splits)
    then obtain a as where "args = a # as" by (cases args) auto
    then show ?thesis using that(2) d True v by simp
  qed
qed

lemma pack_roundtrip:
  assumes "\<And>n. checkstack n"
  shows "pack_items C h fmt args arg (of_nat (length b)) b = Inr res \<Longrightarrow> length res < 2 ^ 31 \<Longrightarrow>
    (\<exists>cs. res = b @ cs) \<and>
    (\<forall>vs. unpack_items C checkstack h fmt res (of_nat (length b)) vs =
      Inr (vs @ kept_items C h fmt args, of_nat (length res) + 1))"
proof (induction "length fmt" arbitrary: h fmt args arg b rule: less_induct)
  case less
  show ?case
  proof (cases "fmt = []")
    case True
    then show ?thesis using less.prems by auto
  next
    case False
    from less.prems(1) this show ?thesis
    proof (cases rule: pack_items_step)
      case (1 h' opt sz nt rest)
      let ?b = "b @ replicate nt 0 @ replicate sz 0"
      have "pack_items C h' rest args arg (of_nat (length ?b)) ?b = Inr res"
        using 1(3) by (simp add: algebra_simps)
      from less.hyps [OF getdetails_shorter [OF 1(1) False] this less.prems(2)]
      obtain cs where cs: "res = ?b @ cs" and
        IH: "\<forall>vs. unpack_items C checkstack h' rest res (of_nat (length ?b)) vs =
          Inr (vs @ kept_items C h' rest args, of_nat (length res) + 1)" by blast
      have l: "length b + nt + sz \<le> length res" "length ?b = length b + nt + sz" using cs by simp_all
      have "unpack_items C checkstack h fmt res (of_nat (length b)) vs =
          Inr (vs @ kept_items C h fmt args, of_nat (length res) + 1)" for vs
        unfolding unpack_items_step [OF 1(1) False l(1) less.prems(2) assms] kept_items_step [OF 1(1) False]
          if_not_P [OF 1(2)] by (rule IH [unfolded l(2), rule_format])
      then show ?thesis using cs by simp
    next
      case (2 h' opt sz nt rest v bs extra)
      let ?b = "b @ replicate nt 0 @ bs"
      note ok = getdetails_ok(1) [OF 2(1)]
      have len: "length bs = sz + extra" by (rule pack_value_length [OF 2(4,2) ok])
      have "pack_items C h' rest (tl args) (Suc arg) (of_nat (length ?b)) ?b = Inr res"
        using 2(5) len by (simp add: algebra_simps)
      from less.hyps [OF getdetails_shorter [OF 2(1) False] this less.prems(2)]
      obtain cs where cs: "res = ?b @ cs" and
        IH: "\<forall>vs. unpack_items C checkstack h' rest res (of_nat (length ?b)) vs =
          Inr (vs @ kept_items C h' rest (tl args), of_nat (length res) + 1)" by blast
      have l: "length b + nt + sz \<le> length res" "length ?b = length b + nt + (sz + extra)" using cs len by simp_all
      have "lies_at bs res (length b + nt)" using cs by (simp add: lies_at_def)
      from value_roundtrip [OF 2(4,2) ok this less.prems(2)]
      have "unpack_value C (islittle h') res (of_nat (length b + nt)) opt sz = Inr (kept C opt sz v, of_nat extra)"
        by blast
      note val = this
      have "hd args = v" using 2(3) by (metis list.sel(1))
      note K = kept_items_step [OF 2(1) False, of C args, unfolded this if_P [OF 2(2)]]
      have e: "(of_nat (length b + nt) :: u64) + of_nat extra + of_nat sz = of_nat (length ?b)"
        unfolding l(2) by (simp add: algebra_simps)
      have "unpack_items C checkstack h fmt res (of_nat (length b)) vs =
          Inr (vs @ kept_items C h fmt args, of_nat (length res) + 1)" for vs
        unfolding unpack_items_step [OF 2(1) False l(1) less.prems(2) assms] K if_P [OF 2(2)] val sum.case prod.case e
        using IH [rule_format, of "vs @ [kept C opt sz v]"] by simp
      then show ?thesis using cs by simp
    qed
  qed
qed

text \<open>C32: What \<open>string.pack\<close> writes, \<open>string.unpack\<close> reads back, for every format: all sizes from 1
  to 16 bytes, both byte orders, alignment and padding. The values come back as \<open>kept_items\<close> says:
  integers and strings as they were, \<open>f\<close> floats rounded, \<open>c\<close> strings cut or padded to their size; the
  position returned is the one after the data. (The packed string is shorter than 2 to the 31, and
  the stack has room for the values.)\<close>

theorem pack_unpack:
  assumes "str_pack C fmt args = Inr s" "length s < 2 ^ 31" "\<And>n. checkstack n"
  shows "str_unpack C checkstack fmt s 1 = Inr (kept_items C initheader fmt args, of_nat (length s) + 1)"
  using pack_roundtrip [of checkstack C initheader fmt args 1 "[]" s] assms
  by (simp add: str_pack_def str_unpack_def posrelat_def)

definition example_conv :: "lua_Integer conv" where
  "example_conv = \<lparr>as_int = Some, as_num = (\<lambda>_. None), as_str = (\<lambda>n. Some (byte_loop 2 n)),
     single_of = ucast, number_of = ucast\<rparr>"

lemma example_options:
  "getoption h [0x3E, 0x69, 0x32, 0x7A] = Inr (h\<lparr>islittle := False\<rparr>, Knop, 0, [0x69, 0x32, 0x7A])"
  "getoption h [0x69, 0x32, 0x7A] = Inr (h, Kint, 2, [0x7A])"
  "getoption h [0x7A] = Inr (h, Kzstr, 0, [])"
  by (simp_all add: getoption_def limited_def getnumlimit_def getnum_def digit_def MAXSIZE_def MAXINTSIZE_def Let_def)

lemma example_bytes: "packint (- 2) False 2 True = [0xFF, 0xFE]" "byte_loop 2 0x201 = [1, 2]"
  by code_simp+

theorem pack_unpack_witness:
  "str_unpack example_conv (\<lambda>_. True) [0x3E, 0x69, 0x32, 0x7A] [0xFF, 0xFE, 1, 2, 0] 1 =
     Inr ([U_int (- 2), U_str [1, 2]], 6)"
proof -
  have d: "getdetails h n [0x3E, 0x69, 0x32, 0x7A] = Inr (h\<lparr>islittle := False\<rparr>, Knop, 0, 0, [0x69, 0x32, 0x7A])"
    "maxalign h = 1 \<Longrightarrow> getdetails h n [0x69, 0x32, 0x7A] = Inr (h, Kint, 2, 0, [0x7A])"
    "getdetails h n [0x7A] = Inr (h, Kzstr, 0, 0, [])" for h n
    by (simp_all add: getdetails_def example_options align_for_def)
  have neg: "(- 2 :: lua_Integer) <s 0" "- 32768 \<le> sint (- 2 :: lua_Integer)" "sint (- 2 :: lua_Integer) < 32768"
    by (simp_all add: word_sless_alt)
  have "str_pack example_conv [0x3E, 0x69, 0x32, 0x7A] [- 2, 0x201] = Inr [0xFF, 0xFE, 1, 2, 0]"
    by (simp add: str_pack_def pack_items.simps d initheader_def pack_value_def check_arg_def example_conv_def
        example_bytes neg Let_def)
  moreover have "kept_items example_conv initheader [0x3E, 0x69, 0x32, 0x7A] [- 2, 0x201] = [U_int (- 2), U_str [1, 2]]"
    by (simp add: kept_items.simps d initheader_def is_value_def kept_def example_conv_def example_bytes)
  ultimately show ?thesis
    using pack_unpack [of example_conv "[0x3E, 0x69, 0x32, 0x7A]" "[- 2, 0x201]" "[0xFF, 0xFE, 1, 2, 0]" "\<lambda>_. True"]
    by simp
qed

end
