(* ===== verification/LuaPackBounds.thy ===== *)
theory LuaPackBounds
  imports LuaPackProps
begin

text \<open>
  \<open>string.unpack\<close> never reads outside its data, and \<open>string.packsize\<close> is the length of what
  \<open>string.pack\<close> writes.
\<close>

section \<open>Reads\<close>

lemma read_at_inside:
  "unat pos + n \<le> length data \<Longrightarrow> read_at data pos n \<noteq> Inl Out_of_bounds"
  by (simp add: read_at_def)

lemma pushlstring_inside:
  "unat n < 2 ^ 63 - 25 \<Longrightarrow> unat pos + unat n \<le> length data \<Longrightarrow> pushlstring data pos n \<noteq> Inl Out_of_bounds"
  by (simp add: pushlstring_def read_at_def)

lemma pushlstring_huge: "2 ^ 63 - 25 \<le> unat n \<Longrightarrow> pushlstring data pos n \<noteq> Inl Out_of_bounds"
  by (simp add: pushlstring_def)

lemma unpackint_errors: "unpackint s little sz sg \<noteq> Inl Out_of_bounds"
  by (simp add: unpackint_def Let_def)

lemma andGo_Inl: "andGo m f = Inl e \<longleftrightarrow> m = Inl e \<or> (\<exists>a. m = Inr a \<and> f a = Inl e)"
  by (cases m) simp_all

text \<open>The length of a zero-terminated string as an \<open>int\<close> is its length, a smaller number, or so large
  as a \<open>size_t\<close> that no string is made.\<close>

lemma negative_mod: "- (2 ^ 31) \<le> i \<Longrightarrow> i < 0 \<Longrightarrow> i mod 2 ^ 64 = i + (2 ^ 64 :: int)"
proof -
  assume h: "- (2 ^ 31) \<le> i" "i < 0"
  have "i mod 2 ^ 64 = (i + 2 ^ 64) mod 2 ^ 64" by simp
  also have "\<dots> = i + 2 ^ 64" by (rule mod_pos_pos_trivial) (use h in simp_all)
  finally show ?thesis .
qed

lemma negative_large: "- (2 ^ 31) \<le> i \<Longrightarrow> 2 ^ 63 \<le> i + (2 ^ 64 :: int)"
  by simp

lemma unat_large: "2 ^ 63 \<le> uint (x :: u64) \<Longrightarrow> 2 ^ 63 - 25 \<le> unat x"
proof -
  assume "2 ^ 63 \<le> uint x"
  then have "nat (2 ^ 63) \<le> unat x" unfolding unat_eq_nat_uint by (rule nat_mono)
  then show ?thesis by simp
qed

lemma uint_scast: "uint (scast (w :: 32 word) :: u64) = sint w mod 2 ^ 64"
proof -
  have L: "LENGTH(64) = 64" by simp
  have "(scast w :: u64) = word_of_int (sint w)" by (rule scast_eq)
  then have "uint (scast w :: u64) = uint (word_of_int (sint w) :: u64)" by (rule arg_cong)
  also have "\<dots> = sint w mod 2 ^ LENGTH(64)" by (rule uint_word_of_int)
  finally show ?thesis unfolding L .
qed

lemma int_len:
  assumes "n < 2 ^ 62"
  shows "unat (scast (of_nat n :: 32 word) :: u64) \<le> n \<or> 2 ^ 63 - 25 \<le> unat (scast (of_nat n :: 32 word) :: u64)"
proof -
  let ?w = "of_nat n :: 32 word"
  show ?thesis
  proof (cases "0 \<le> sint ?w")
    case True
    have "sint ?w = uint ?w"
      using True sint_lt [of ?w] by (simp add: uint_sint take_bit_int_eq_self)
    then have "(scast ?w :: u64) = of_nat (unat ?w)" by (simp add: scast_eq)
    moreover have "unat ?w \<le> n" by (simp add: unat_of_nat)
    ultimately have "unat (scast ?w :: u64) \<le> n" using assms by (simp add: unat_of_nat)
    then show ?thesis ..
  next
    case False
    have r: "- (2 ^ 31) \<le> sint ?w" using sint_ge [of ?w] by simp
    have "uint (scast ?w :: u64) = sint ?w mod 2 ^ 64" by (rule uint_scast)
    also have "\<dots> = sint ?w + 2 ^ 64" by (rule negative_mod [OF r]) (use False in linarith)
    also have "2 ^ 63 \<le> \<dots>" by (rule negative_large [OF r])
    finally have "2 ^ 63 \<le> uint (scast ?w :: u64)" .
    then show ?thesis by (intro disjI2 unat_large)
  qed
qed

lemma unpack_value_safe:
  assumes "unat pos + sz \<le> length data" "length data < 2 ^ 62" "option_ok opt sz" "is_value opt"
  shows "unpack_value C little data pos opt sz \<noteq> Inl Out_of_bounds"
proof (cases opt)
  case Kchar
  have "unat (of_nat sz :: u64) = sz" using assms(1,2) by (simp add: unat_of_nat)
  then show ?thesis
    using assms(1,2) pushlstring_inside [of "of_nat sz" pos data] Kchar
    by (simp add: unpack_value_def andGo_Inl)
next
  case Kstring
  have push: "pushlstring data (pos + of_nat sz) n \<noteq> Inl Out_of_bounds"
    if h: "pos + n + of_nat sz \<le> of_nat (length data)" for n :: u64
  proof (cases "unat n < 2 ^ 63 - 25")
    case True
    have u: "unat (pos + of_nat sz) = unat pos + sz"
      using assms(1,2) by (simp add: unat_word_ariths unat_of_nat)
    have "unat (pos + n + of_nat sz) = unat pos + unat n + sz"
      using assms(1,2) True by (simp add: unat_word_ariths unat_of_nat)
    moreover have "unat (of_nat (length data) :: u64) = length data" using assms(2) by (simp add: unat_of_nat)
    ultimately have "unat pos + unat n + sz \<le> length data" using h by (simp add: word_le_nat_alt)
    then show ?thesis using True u by (intro pushlstring_inside) simp_all
  qed (simp add: pushlstring_huge)
  show ?thesis
    using Kstring assms(1) push unpackint_errors
    by (auto simp: unpack_value_def andGo_Inl read_at_inside)
next
  case Kzstr
  let ?n = "length (takeWhile (\<lambda>c. c \<noteq> 0) (drop (unat pos) data))"
  have n: "?n \<le> length data - unat pos" by (metis length_drop length_takeWhile_le)
  then have "unat (scast (of_nat ?n :: 32 word) :: u64) \<le> ?n \<or> 2 ^ 63 - 25 \<le> unat (scast (of_nat ?n :: 32 word) :: u64)"
    using assms(2) by (intro int_len) simp
  then have "pushlstring data pos (scast (of_nat ?n :: 32 word)) \<noteq> Inl Out_of_bounds"
    using n assms(1,2) pushlstring_huge by (elim disjE, intro pushlstring_inside) auto
  then show ?thesis
    using Kzstr assms(1) by (simp add: unpack_value_def zstr_len_def andGo_Inl)
qed (use assms unpackint_errors in \<open>auto simp: unpack_value_def Let_def is_value_def andGo_Inl read_at_inside\<close>)

lemma getoption_errors: "getoption h fmt \<noteq> Inl Out_of_bounds"
  unfolding getoption_def Let_def limited_def getnumlimit_def
  by (auto split: if_splits prod.splits option.splits sum.splits)

lemma getdetails_errors: "getdetails h n fmt \<noteq> Inl Out_of_bounds"
  using getoption_errors unfolding getdetails_def align_for_def Let_def
  by (auto split: if_splits prod.splits option.splits sum.splits)

lemma unat_less: "unat (w :: u64) < 2 ^ 64"
  by (rule order.strict_trans2 [OF unsigned_less]) simp

lemma unpack_items_safe:
  "length data < 2 ^ 62 \<Longrightarrow> unpack_items C checkstack h fmt data pos vs \<noteq> Inl Out_of_bounds"
proof (induction "length fmt" arbitrary: h fmt pos vs rule: less_induct)
  case less
  show ?case
  proof (cases "fmt = []")
    case False
    show ?thesis
    proof (cases "getdetails h pos fmt")
      case (Inl e)
      then show ?thesis using getdetails_errors [of h pos fmt] False by (simp add: unpack_items.simps [of C checkstack h fmt])
    next
      case (Inr r)
      obtain h' opt sz nt rest where r: "r = (h', opt, sz, nt, rest)" by (cases r)
      note d = Inr [unfolded r]
      note IH = less.hyps [OF getdetails_shorter [OF d False] less.prems]
      note ok = getdetails_ok [OF d]
      let ?bad = "of_nat nt + of_nat sz > NOT pos \<or> pos + of_nat nt + of_nat sz > of_nat (length data)"
      have inside: "unat (pos + of_nat nt) + sz \<le> length data" if "\<not> ?bad"
      proof -
        have s: "unat (of_nat nt + of_nat sz :: u64) = nt + sz"
          using ok by (simp add: option_ok_def MAXSIZE_def unat_word_ariths unat_of_nat)
        then have "\<not> 2 ^ 64 - 1 - unat pos < nt + sz"
          using that by (simp add: word_less_nat_alt unat_NOT)
        then have "nt + sz + unat pos < 2 ^ 64" using unat_less [of pos] by linarith
        then have "unat (pos + of_nat nt + of_nat sz) = unat pos + nt + sz" "unat (pos + of_nat nt) = unat pos + nt"
          using ok by (simp_all add: option_ok_def MAXSIZE_def unat_word_ariths unat_of_nat)
        moreover have "unat (of_nat (length data) :: u64) = length data" using less.prems by (simp add: unat_of_nat)
        ultimately show ?thesis using that by (simp add: word_less_nat_alt)
      qed
      show ?thesis
      proof (cases "?bad \<or> \<not> checkstack (length vs) \<or> \<not> is_value opt")
        case True
        then show ?thesis
          using IH False by (subst unpack_items.simps) (auto simp: d is_value_def Let_def)
      next
        case good: False
        then have "unpack_value C (islittle h') data (pos + of_nat nt) opt sz \<noteq> Inl Out_of_bounds"
          using inside ok less.prems by (intro unpack_value_safe) simp_all
        then show ?thesis
          using IH False good by (subst unpack_items.simps) (auto simp: d is_value_def Let_def split: sum.splits)
      qed
    qed
  qed simp
qed

text \<open>C33: No format and no data make \<open>string.unpack\<close> read outside the data, from any start position:
  lengths that come from the data itself, that wrap around the test against the end, or that
  overflow the \<open>int\<close> they pass through are all caught.\<close>

theorem unpack_in_bounds:
  assumes "length data < 2 ^ 62"
  shows "str_unpack C checkstack fmt data i \<noteq> Inl Out_of_bounds"
  by (simp add: str_unpack_def Let_def unpack_items_safe [OF assms])

theorem unpack_in_bounds_witness:
  "str_unpack example_conv (\<lambda>_. True) [0x73] (replicate 8 0xFF) 1 \<noteq> Inl Out_of_bounds"
  by (rule unpack_in_bounds) simp

section \<open>The size of a format\<close>

lemma packsize_step:
  assumes "packsize_loop h fmt tot = Inr n" "fmt \<noteq> []" "getdetails h tot fmt = Inr (h', opt, sz, nt, rest)"
  shows "opt \<noteq> Kstring \<and> opt \<noteq> Kzstr \<and> packsize_loop h' rest (tot + of_nat (nt + sz)) = Inr n"
  using assms by (subst (asm) packsize_loop.simps) (auto simp: Let_def add.commute split: if_splits)

lemma packsize_items:
  "packsize_loop h fmt tot = Inr n \<Longrightarrow> pack_items C h fmt args arg tot b = Inr s \<Longrightarrow>
   n = tot + of_nat (length s) - of_nat (length b)"
proof (induction "length fmt" arbitrary: h fmt args arg tot b rule: less_induct)
  case less
  show ?case
  proof (cases "fmt = []")
    case True
    then show ?thesis using less.prems by (auto simp: packsize_loop.simps)
  next
    case False
    from less.prems(2) this show ?thesis
    proof (cases rule: pack_items_step)
      case (1 h' opt sz nt rest)
      note st = packsize_step [OF less.prems(1) False 1(1)]
      from less.hyps [OF getdetails_shorter [OF 1(1) False] conjunct2 [OF conjunct2 [OF st]] 1(3)]
      show ?thesis by (simp add: algebra_simps)
    next
      case (2 h' opt sz nt rest v bs extra)
      note st = packsize_step [OF less.prems(1) False 2(1)]
      have len: "length bs = sz + extra"
        by (rule pack_value_length [OF 2(4,2) getdetails_ok(1) [OF 2(1)]])
      have x: "extra = 0"
        using 2(2,4) st by (cases opt) (auto simp: pack_value_def andGo_Inr is_value_def Let_def split: if_splits)
      have "pack_items C h' rest (tl args) (Suc arg) (tot + of_nat (nt + sz)) (b @ replicate nt 0 @ bs) = Inr s"
        using 2(5) x by simp
      from less.hyps [OF getdetails_shorter [OF 2(1) False] conjunct2 [OF conjunct2 [OF st]] this]
      show ?thesis using len x by (simp add: algebra_simps)
    qed
  qed
qed

text \<open>For formats of fixed length, \<open>string.packsize\<close> is the number of bytes \<open>string.pack\<close> writes,
  alignment included.\<close>

theorem packsize_is_length:
  assumes "str_packsize fmt = Inr n" "str_pack C fmt args = Inr s"
  shows "n = of_nat (length s)"
  using packsize_items [of initheader fmt 0 n C args 1 "[]" s] assms
  by (simp add: str_packsize_def str_pack_def)

end
