(* ===== verification/LuaLex.thy ===== *)
theory LuaLex
  imports LuaZio LuaObject
begin

text \<open>
  The scanner (\<open>llex.c\<close>, \<open>llex.h\<close>). Its state is the part of \<open>LexState\<close> that the scanner uses;
  the parser's fields are not there. A character is an \<open>int\<close>: a byte or \<open>EOZ\<close>. The buffer \<open>buff\<close>
  is a list of its \<open>n\<close> bytes with the size that was allocated for it. Strings are their contents;
  \<open>anchored\<close> are the keys of the scanner's table \<open>h\<close>.

  \<open>l_str2d\<close> and the decimal point of the locale, which the C library decides, are parameters. An
  allocation of plausible size does not fail.
\<close>

section \<open>Tokens\<close>

definition FIRST_RESERVED :: int where
  "FIRST_RESERVED = 257"

datatype RESERVED =
    TK_AND | TK_BREAK | TK_DO | TK_ELSE | TK_ELSEIF | TK_END | TK_FALSE | TK_FOR | TK_FUNCTION |
    TK_GOTO | TK_IF | TK_IN | TK_LOCAL | TK_NIL | TK_NOT | TK_OR | TK_REPEAT | TK_RETURN | TK_THEN |
    TK_TRUE | TK_UNTIL | TK_WHILE | TK_IDIV | TK_CONCAT | TK_DOTS | TK_EQ | TK_GE | TK_LE | TK_NE |
    TK_SHL | TK_SHR | TK_DBCOLON | TK_EOS | TK_FLT | TK_INT | TK_NAME | TK_STRING

text \<open>The value of an enumeration constant.\<close>

primrec tk :: "RESERVED \<Rightarrow> int" where
  "tk TK_AND = 257"
| "tk TK_BREAK = 258"
| "tk TK_DO = 259"
| "tk TK_ELSE = 260"
| "tk TK_ELSEIF = 261"
| "tk TK_END = 262"
| "tk TK_FALSE = 263"
| "tk TK_FOR = 264"
| "tk TK_FUNCTION = 265"
| "tk TK_GOTO = 266"
| "tk TK_IF = 267"
| "tk TK_IN = 268"
| "tk TK_LOCAL = 269"
| "tk TK_NIL = 270"
| "tk TK_NOT = 271"
| "tk TK_OR = 272"
| "tk TK_REPEAT = 273"
| "tk TK_RETURN = 274"
| "tk TK_THEN = 275"
| "tk TK_TRUE = 276"
| "tk TK_UNTIL = 277"
| "tk TK_WHILE = 278"
| "tk TK_IDIV = 279"
| "tk TK_CONCAT = 280"
| "tk TK_DOTS = 281"
| "tk TK_EQ = 282"
| "tk TK_GE = 283"
| "tk TK_LE = 284"
| "tk TK_NE = 285"
| "tk TK_SHL = 286"
| "tk TK_SHR = 287"
| "tk TK_DBCOLON = 288"
| "tk TK_EOS = 289"
| "tk TK_FLT = 290"
| "tk TK_INT = 291"
| "tk TK_NAME = 292"
| "tk TK_STRING = 293"

definition NUM_RESERVED :: nat where
  "NUM_RESERVED = nat (tk TK_WHILE - FIRST_RESERVED + 1)"

definition luaX_tokens :: "string list" where
  "luaX_tokens =
     [''and'', ''break'', ''do'', ''else'', ''elseif'', ''end'', ''false'', ''for'', ''function'',
      ''goto'', ''if'', ''in'', ''local'', ''nil'', ''not'', ''or'', ''repeat'', ''return'',
      ''then'', ''true'', ''until'', ''while'', ''//'', ''..'', ''...'', ''=='', ''>='', ''<='',
      ''~='', ''<<'', ''>>'', ''::'', ''<eof>'', ''<number>'', ''<integer>'', ''<name>'',
      ''<string>'']"

text \<open>The reserved words with the value of \<open>extra\<close> that \<open>luaX_init\<close> stores in their strings.\<close>

definition luaX_init :: "(bytes \<times> nat) list" where
  "luaX_init = map (\<lambda>i. (bytes_of (luaX_tokens ! i), i + 1)) [0..<NUM_RESERVED]"

text \<open>\<open>extra\<close> of a string, 0 for one that is not reserved.\<close>

definition extra_of :: "bytes \<Rightarrow> nat" where
  "extra_of ts = (case map_of luaX_init ts of None \<Rightarrow> 0 | Some n \<Rightarrow> n)"

text \<open>The union \<open>SemInfo\<close>: a float is its 64 bits.\<close>

datatype SemInfo = Sem_r u64 | Sem_i lua_Integer | Sem_ts bytes

record Token =
  token :: int
  seminfo :: SemInfo

section \<open>State\<close>

record lex_env =
  l_str2d :: "bytes \<Rightarrow> u64 option"
  locale_point :: byte

record LexState =
  current :: int
  linenumber :: int
  lastline :: int
  tok :: Token
  lookahead :: Token
  zin :: zio
  buff :: bytes
  buffsize :: nat
  anchored :: "bytes set"
  chunk :: bytes
  decpoint :: byte

type_synonym 'a lexer = "(LexState, load_stop, 'a) prog"

text \<open>The characters of the source code of the scanner, and its string constants.\<close>

abbreviation ch :: "char \<Rightarrow> int" where
  "ch c \<equiv> of_char c"

definition MAX_SIZE :: nat where "MAX_SIZE = 2 ^ 63 - 1"
definition LUA_MINBUFFER :: nat where "LUA_MINBUFFER = 32"
definition LUA_IDSIZE :: nat where "LUA_IDSIZE = 60"

text \<open>A C string that starts at the first byte of a list.\<close>

definition c_str :: "bytes \<Rightarrow> bytes" where
  "c_str s = takeWhile (\<lambda>b. b \<noteq> 0) s"

text \<open>A program that looks at the state.\<close>

definition look :: "('s \<Rightarrow> ('s, 'e, 'a) prog) \<Rightarrow> ('s, 'e, 'a) prog" where
  "look f = (\<lambda>s. f s s)"

lemma look_run [prog_simps]: "look f s = f s s"
  by (simp add: look_def)

text \<open>What \<open>function\<close> may assume of the state after the first of two programs.\<close>

lemma andThen_cong [fundef_cong]:
  assumes "m s = m' s'" and "\<And>a t. m' s' = (Inr a, t) \<Longrightarrow> f a t = f' a t"
  shows "andThen m f s = andThen m' f' s'"
  using assms by (auto simp: andThen_def split: prod.splits sum.splits)

lemma thenDo_cong [fundef_cong]:
  assumes "m s = m' s'" and "\<And>a t. m' s' = (Inr a, t) \<Longrightarrow> n t = n' t"
  shows "thenDo m n s = thenDo m' n' s'"
  using assms unfolding thenDo_def by (rule andThen_cong)

lemma look_cong [fundef_cong]:
  assumes "s = s'" and "f s' s' = f' s' s'"
  shows "look f s = look f' s'"
  using assms by (simp add: look_def)

section \<open>Characters and errors\<close>

definition lnext :: "unit lexer" where
  "lnext ls =
     (case zgetc (zin ls) of
        (Inl e, z) \<Rightarrow> (Inl e, ls\<lparr>zin := z\<rparr>)
      | (Inr c, z) \<Rightarrow> (Inr (), ls\<lparr>zin := z, current := c\<rparr>))"

definition currIsNewline :: "LexState \<Rightarrow> bool" where
  "currIsNewline ls \<longleftrightarrow> current ls = 10 \<or> current ls = 13"

definition luaG_addinfo :: "bytes \<Rightarrow> bytes \<Rightarrow> int \<Rightarrow> bytes" where
  "luaG_addinfo msg src line =
     c_str (luaO_chunkid (c_str src) LUA_IDSIZE) @ bytes_of '':'' @
     lua_integer2str (word_of_int line) @ bytes_of '': '' @ msg"

text \<open>\<open>lexerror\<close> with token 0: the message has no "near" part.\<close>

definition lexerror_plain :: "string \<Rightarrow> 'a lexer" where
  "lexerror_plain msg =
     look (\<lambda>ls. stop (Throw_syntax (luaG_addinfo (bytes_of msg) (chunk ls) (linenumber ls))))"

definition save :: "int \<Rightarrow> unit lexer" where
  "save c = look (\<lambda>ls.
     if length (buff ls) + 1 > buffsize ls then
       if buffsize ls \<ge> MAX_SIZE div 2 then lexerror_plain ''lexical element too long''
       else if length (buff ls) + 1 > buffsize ls * 2 then stop (Undefined ''write past the buffer'')
       else modify (\<lambda>ls. ls\<lparr>buffsize := buffsize ls * 2, buff := buff ls @ [word_of_int c]\<rparr>)
     else modify (\<lambda>ls. ls\<lparr>buff := buff ls @ [word_of_int c]\<rparr>))"

definition save_and_next :: "unit lexer" where
  "save_and_next = look (\<lambda>ls. thenDo (save (current ls)) lnext)"

definition luaZ_resetbuffer :: "unit lexer" where
  "luaZ_resetbuffer = modify (\<lambda>ls. ls\<lparr>buff := []\<rparr>)"

definition luaZ_buffremove :: "nat \<Rightarrow> unit lexer" where
  "luaZ_buffremove i = look (\<lambda>ls.
     if i \<le> length (buff ls) then modify (\<lambda>ls. ls\<lparr>buff := take (length (buff ls) - i) (buff ls)\<rparr>)
     else stop (Undefined ''buffer length below zero''))"

definition squote :: "string \<Rightarrow> string" where
  "squote s = [CHR 0x27] @ s @ [CHR 0x27]"

definition quoted :: "bytes \<Rightarrow> bytes" where
  "quoted s = [39] @ s @ [39]"

definition luaX_token2str :: "int \<Rightarrow> bytes" where
  "luaX_token2str t =
     (if t < FIRST_RESERVED then quoted [word_of_int t]
      else
        let s = bytes_of (luaX_tokens ! nat (t - FIRST_RESERVED))
        in if t < tk TK_EOS then quoted s else s)"

definition txtToken :: "int \<Rightarrow> bytes lexer" where
  "txtToken t =
     (if t \<in> {tk TK_NAME, tk TK_STRING, tk TK_FLT, tk TK_INT} then
        thenDo (save 0) (gets (\<lambda>ls. quoted (c_str (buff ls))))
      else ret (luaX_token2str t))"

definition lexerror :: "bytes \<Rightarrow> int \<Rightarrow> 'a lexer" where
  "lexerror msg t = look (\<lambda>ls.
     let msg' = luaG_addinfo msg (chunk ls) (linenumber ls) in
     if t = 0 then stop (Throw_syntax msg')
     else andThen (txtToken t) (\<lambda>n. stop (Throw_syntax (msg' @ bytes_of '' near '' @ n))))"

lemma lexerror_Inr [simp]: "lexerror msg t ls = (Inr a, ls') \<longleftrightarrow> False"
  by (simp add: lexerror_def look_run Let_def stop_run andThen_Inr)

definition luaX_syntaxerror :: "bytes \<Rightarrow> 'a lexer" where
  "luaX_syntaxerror msg = look (\<lambda>ls. lexerror msg (token (tok ls)))"

text \<open>
  \<open>luaX_newstring\<close> on the \<open>n\<close> bytes of the buffer from index \<open>i\<close>: the string is anchored in the
  scanner's table, or found there. Lengths beyond \<open>luaS_newlstr\<close>'s limit are memory errors.
\<close>

definition luaX_newstring :: "nat \<Rightarrow> int \<Rightarrow> bytes lexer" where
  "luaX_newstring i n = look (\<lambda>ls.
     if n < 0 \<or> int i + n > int (length (buff ls)) then stop (Undefined ''string outside the buffer'')
     else
       let ts = take (nat n) (drop i (buff ls)) in
       if length ts \<ge> MAX_SIZE - 24 then stop Throw_memory
       else thenDo (modify (\<lambda>ls. ls\<lparr>anchored := insert ts (anchored ls)\<rparr>)) (ret ts))"

definition inclinenumber :: "unit lexer" where
  "inclinenumber =
     andThen (gets current) (\<lambda>old.
     thenDo lnext
     (thenDo (look (\<lambda>ls. when_p (currIsNewline ls \<and> current ls \<noteq> old) lnext))
     (thenDo (modify (\<lambda>ls. ls\<lparr>linenumber := linenumber ls + 1\<rparr>))
     (look (\<lambda>ls. when_p (linenumber ls \<ge> int INT_MAX) (lexerror_plain ''chunk has too many lines''))))))"

text \<open>\<open>luaX_setinput\<close> on a new state; tokens start out with any semantic value.\<close>

definition luaX_setinput :: "zio \<Rightarrow> bytes \<Rightarrow> int \<Rightarrow> SemInfo \<Rightarrow> LexState" where
  "luaX_setinput z source firstchar sem =
     \<lparr>current = firstchar, linenumber = 1, lastline = 1, tok = \<lparr>token = 0, seminfo = sem\<rparr>,
      lookahead = \<lparr>token = tk TK_EOS, seminfo = sem\<rparr>, zin = z, buff = [],
      buffsize = LUA_MINBUFFER, anchored = {}, chunk = source, decpoint = 46\<rparr>"

definition check_next1 :: "int \<Rightarrow> bool lexer" where
  "check_next1 c = look (\<lambda>ls. if current ls = c then thenDo lnext (ret True) else ret False)"

definition check_next2 :: "char \<times> char \<Rightarrow> bool lexer" where
  "check_next2 cs = look (\<lambda>ls.
     if current ls = ch (fst cs) \<or> current ls = ch (snd cs) then thenDo save_and_next (ret True)
     else ret False)"

section \<open>Progress\<close>

text \<open>
  A measure of what is left to read: no step adds to it, and a step that reads takes from it,
  except at the end of the input.
\<close>

definition left :: "LexState \<Rightarrow> nat" where
  "left ls = length (zp (zin ls)) + sum_list (map length (zdata (zin ls)))"

definition todo :: "LexState \<Rightarrow> nat" where
  "todo ls = 2 * left ls + (if current ls = EOZ then 0 else 1)"

lemma zgetc_left:
  assumes "zgetc z = (Inr c, z')"
  shows "length (zp z') + sum_list (map length (zdata z')) + (if c = EOZ then 0 else 1) \<le>
         length (zp z) + sum_list (map length (zdata z))"
  using assms
  by (auto simp: zgetc_def luaZ_fill_def Let_def split: if_splits list.splits prod.splits)

definition shrinks :: "'a lexer \<Rightarrow> bool" where
  "shrinks m \<longleftrightarrow> (\<forall>ls a ls'. m ls = (Inr a, ls') \<longrightarrow> todo ls' \<le> todo ls)"

definition consumes :: "'a lexer \<Rightarrow> bool" where
  "consumes m \<longleftrightarrow> (\<forall>ls a ls'. m ls = (Inr a, ls') \<longrightarrow> todo ls' \<le> todo ls \<and>
     (current ls \<noteq> EOZ \<or> current ls' \<noteq> EOZ \<longrightarrow> todo ls' < todo ls))"

named_theorems shrink_rules

lemma shrinksD: "shrinks m \<Longrightarrow> m ls = (Inr a, ls') \<Longrightarrow> todo ls' \<le> todo ls"
  by (simp add: shrinks_def)

lemma consumesD:
  "consumes m \<Longrightarrow> m ls = (Inr a, ls') \<Longrightarrow> current ls \<noteq> EOZ \<Longrightarrow> todo ls' < todo ls"
  "consumes m \<Longrightarrow> m ls = (Inr a, ls') \<Longrightarrow> current ls' \<noteq> EOZ \<Longrightarrow> todo ls' < todo ls"
  by (simp_all add: consumes_def)

lemma consumes_shrinks: "consumes m \<Longrightarrow> shrinks m"
  by (simp add: consumes_def shrinks_def)

lemma shrinks_ret [shrink_rules]: "shrinks (ret a)"
  by (simp add: shrinks_def ret_def)

lemma shrinks_stop [shrink_rules]: "shrinks (stop e)"
  by (simp add: shrinks_def stop_def)

lemma shrinks_gets [shrink_rules]: "shrinks (gets f)"
  by (simp add: shrinks_def gets_def)

lemma shrinks_modify [shrink_rules]: "(\<And>ls. todo (f ls) \<le> todo ls) \<Longrightarrow> shrinks (modify f)"
  by (simp add: shrinks_def modify_def)

lemma shrinks_andThen [shrink_rules]:
  "shrinks m \<Longrightarrow> (\<And>a. shrinks (f a)) \<Longrightarrow> shrinks (andThen m f)"
  unfolding shrinks_def andThen_Inr by (meson order_trans)

lemma shrinks_thenDo [shrink_rules]: "shrinks m \<Longrightarrow> shrinks n \<Longrightarrow> shrinks (thenDo m n)"
  unfolding thenDo_def by (rule shrinks_andThen)

lemma shrinks_look [shrink_rules]: "(\<And>ls. shrinks (f ls)) \<Longrightarrow> shrinks (look f)"
  by (simp add: shrinks_def look_def)

lemma shrinks_prod: "(\<And>a b. shrinks (f a b)) \<Longrightarrow> shrinks (case x of (a, b) \<Rightarrow> f a b)"
  by (cases x) simp

lemma shrinks_if [shrink_rules]: "(b \<Longrightarrow> shrinks m) \<Longrightarrow> (\<not> b \<Longrightarrow> shrinks n) \<Longrightarrow> shrinks (if b then m else n)"
  by simp

lemma shrinks_when [shrink_rules]: "shrinks m \<Longrightarrow> shrinks (when_p b m)"
  by (simp add: when_p_def shrinks_ret)

lemma shrinks_option [shrink_rules]:
  "shrinks m \<Longrightarrow> (\<And>a. shrinks (f a)) \<Longrightarrow> shrinks (case x of None \<Rightarrow> m | Some a \<Rightarrow> f a)"
  by (cases x) simp_all

lemma lnext_left:
  assumes "lnext ls = (Inr a, ls')"
  shows "left ls' + (if current ls' = EOZ then 0 else 1) \<le> left ls"
  using assms zgetc_left [of "zin ls"]
  by (auto simp: lnext_def left_def split: prod.splits sum.splits)

lemma lnext_consumes: "consumes lnext"
  unfolding consumes_def
proof (intro allI impI)
  fix ls a ls'
  assume "lnext ls = (Inr a, ls')"
  from lnext_left [OF this]
  show "todo ls' \<le> todo ls \<and> (current ls \<noteq> EOZ \<or> current ls' \<noteq> EOZ \<longrightarrow> todo ls' < todo ls)"
    by (simp add: todo_def split: if_splits)
qed

lemma lexerror_plain_shrinks [shrink_rules]: "shrinks (lexerror_plain msg)"
  unfolding lexerror_plain_def by (intro shrink_rules)

lemma lexerror_shrinks [shrink_rules]: "shrinks (lexerror msg t)"
  by (simp add: shrinks_def)

lemma save_todo: "save c ls = (r, ls') \<Longrightarrow> todo ls' = todo ls \<and> current ls' = current ls"
  by (auto simp: save_def lexerror_plain_def prog_simps todo_def left_def split: if_splits)

lemma save_next_consumes: "consumes save_and_next"
proof -
  have "todo ls' \<le> todo ls \<and> (current ls \<noteq> EOZ \<or> current ls' \<noteq> EOZ \<longrightarrow> todo ls' < todo ls)"
    if "save_and_next ls = (Inr a, ls')" for ls a ls'
  proof -
    from that obtain u t where "save (current ls) ls = (Inr u, t)" "lnext t = (Inr a, ls')"
      by (auto simp: save_and_next_def look_run thenDo_Inr)
    then show ?thesis using lnext_consumes save_todo by (metis consumes_def)
  qed
  then show ?thesis by (simp add: consumes_def)
qed

lemmas [shrink_rules] = consumes_shrinks [OF lnext_consumes] consumes_shrinks [OF save_next_consumes]

lemmas consume_steps = consumesD [OF lnext_consumes] consumesD [OF save_next_consumes]

lemmas shrink_steps =
  shrinksD [OF consumes_shrinks [OF lnext_consumes]] shrinksD [OF consumes_shrinks [OF save_next_consumes]]

lemma save_shrinks [shrink_rules]: "shrinks (save c)"
  using save_todo by (auto simp: shrinks_def)

lemma inclinenumber_consumes: "inclinenumber ls = (Inr a, ls') \<Longrightarrow> current ls \<noteq> EOZ \<Longrightarrow> todo ls' < todo ls"
proof -
  assume m: "inclinenumber ls = (Inr a, ls')" and c: "current ls \<noteq> EOZ"
  let ?rest = "\<lambda>old. thenDo (look (\<lambda>ls. when_p (currIsNewline ls \<and> current ls \<noteq> old) lnext))
     (thenDo (modify (\<lambda>ls. ls\<lparr>linenumber := linenumber ls + 1\<rparr>))
     (look (\<lambda>ls. when_p (linenumber ls \<ge> int INT_MAX) (lexerror_plain ''chunk has too many lines''))))"
  have r: "shrinks (?rest old)" for old
    by (intro shrink_rules) (simp add: todo_def left_def)
  from m obtain t where "lnext ls = (Inr (), t)" "?rest (current ls) t = (Inr a, ls')"
    by (auto simp: inclinenumber_def gets_run andThen_Inr thenDo_Inr)
  then show ?thesis using consume_steps(1) [OF _ c] shrinksD [OF r] by (meson le_less_trans)
qed

lemma inclinenumber_shrinks [shrink_rules]: "shrinks inclinenumber"
  unfolding inclinenumber_def by (intro shrink_rules) (simp add: todo_def left_def)

lemma check_next1_shrinks [shrink_rules]: "shrinks (check_next1 c)"
  unfolding check_next1_def by (intro shrink_rules)

lemma check_next2_shrinks [shrink_rules]: "shrinks (check_next2 cs)"
  unfolding check_next2_def by (intro shrink_rules)

lemma EOZ_class: "\<not> lisxdigit EOZ" "\<not> lisdigit EOZ" "\<not> lisspace EOZ" "\<not> lislalnum EOZ" "\<not> lislalpha EOZ"
  using ctype_classes [of EOZ] by (simp_all add: EOZ_def)

section \<open>Numerals\<close>

text \<open>\<open>luaO_str2num\<close> on the C string at the start of the buffer.\<close>

definition luaO_str2num :: "lex_env \<Rightarrow> bytes \<Rightarrow> SemInfo option" where
  "luaO_str2num E s =
     (case l_str2int (c_str s) of
        Some i \<Rightarrow> Some (Sem_i i)
      | None \<Rightarrow> (case l_str2d E (c_str s) of Some r \<Rightarrow> Some (Sem_r r) | None \<Rightarrow> None))"

definition buffreplace :: "byte \<Rightarrow> byte \<Rightarrow> unit lexer" where
  "buffreplace c d =
     when_p (c \<noteq> d) (modify (\<lambda>ls. ls\<lparr>buff := map (\<lambda>b. if b = c then d else b) (buff ls)\<rparr>))"

definition trydecpoint :: "lex_env \<Rightarrow> SemInfo lexer" where
  "trydecpoint E =
     andThen (gets decpoint) (\<lambda>old.
     thenDo (modify (\<lambda>ls. ls\<lparr>decpoint := locale_point E\<rparr>))
     (thenDo (look (\<lambda>ls. buffreplace old (decpoint ls)))
     (look (\<lambda>ls. case luaO_str2num E (buff ls) of
        None \<Rightarrow>
          thenDo (buffreplace (decpoint ls) 46) (lexerror (bytes_of ''malformed number'') (tk TK_FLT))
      | Some obj \<Rightarrow> ret obj))))"

function numeral_loop :: "char \<times> char \<Rightarrow> unit lexer" where
  "numeral_loop expo ls =
     andThen (check_next2 expo) (\<lambda>e.
     thenDo (if e then check_next2 (CHR ''-'', CHR ''+'') else ret False)
     (\<lambda>ls.
        if lisxdigit (current ls) then thenDo save_and_next (numeral_loop expo) ls
        else if current ls = ch CHR ''.'' then thenDo save_and_next (numeral_loop expo) ls
        else ret () ls)) ls"
  by pat_completeness auto
termination
proof (relation "measure (\<lambda>(expo, ls). todo ls)", goal_cases)
  case (2 expo ls e t d u a v)
  have "shrinks (if e then check_next2 (CHR ''-'', CHR ''+'') else ret False)" by (intro shrink_rules)
  from shrinksD [OF check_next2_shrinks 2(1)] shrinksD [OF this 2(2)] consume_steps(3) [OF 2(4)] 2(3)
  show ?case using EOZ_class(1) by fastforce
next
  case (3 expo ls e t d u a v)
  have "shrinks (if e then check_next2 (CHR ''-'', CHR ''+'') else ret False)" by (intro shrink_rules)
  from shrinksD [OF check_next2_shrinks 3(1)] shrinksD [OF this 3(2)] consume_steps(3) [OF 3(5)] 3(4)
  show ?case by (auto simp: EOZ_def)
qed simp

declare numeral_loop.simps [simp del]

definition read_numeral :: "lex_env \<Rightarrow> (int \<times> SemInfo) lexer" where
  "read_numeral E = look (\<lambda>ls.
     let first = current ls in
     thenDo save_and_next
     (andThen (if first = ch CHR ''0'' then check_next2 (CHR ''x'', CHR ''X'') else ret False) (\<lambda>hex.
     thenDo (numeral_loop (if hex then (CHR ''P'', CHR ''p'') else (CHR ''E'', CHR ''e'')))
     (thenDo (save 0)
     (thenDo (look (\<lambda>ls. buffreplace 46 (decpoint ls)))
     (andThen (look (\<lambda>ls. case luaO_str2num E (buff ls) of Some obj \<Rightarrow> ret obj | None \<Rightarrow> trydecpoint E))
     (\<lambda>obj. ret (case obj of Sem_i i \<Rightarrow> tk TK_INT | _ \<Rightarrow> tk TK_FLT, obj))))))))"

section \<open>Long strings and comments\<close>

function sep_loop :: "int \<Rightarrow> int lexer" where
  "sep_loop count ls =
     (if current ls = ch CHR ''='' then
        if count = int INT_MAX then stop (Undefined ''count overflows'') ls
        else thenDo save_and_next (sep_loop (count + 1)) ls
      else ret count ls)"
  by pat_completeness auto
termination
  by (relation "measure (\<lambda>(count, ls). todo ls)")
    (auto simp: EOZ_def intro!: consume_steps(3) [unfolded EOZ_def])

declare sep_loop.simps [simp del]

definition skip_sep :: "int lexer" where
  "skip_sep = look (\<lambda>ls.
     let s = current ls in
     thenDo save_and_next
     (andThen (sep_loop 0) (\<lambda>count. gets (\<lambda>ls. if current ls = s then count else - count - 1))))"

lemma sep_loop_shrinks [shrink_rules]: "shrinks (sep_loop count)"
proof -
  have "\<forall>count a ls'. sep_loop count ls = (Inr a, ls') \<longrightarrow> todo ls' \<le> todo ls" for ls
  proof (induction "todo ls" arbitrary: ls rule: less_induct)
    case less
    show ?case
    proof (intro allI impI)
      fix count a ls'
      assume m: "sep_loop count ls = (Inr a, ls')"
      show "todo ls' \<le> todo ls"
      proof (cases "current ls = ch CHR ''='' \<and> count \<noteq> int INT_MAX")
        case True
        with m obtain t where "save_and_next ls = (Inr (), t)" "sep_loop (count + 1) t = (Inr a, ls')"
          by (auto simp: sep_loop.simps [of count ls] thenDo_Inr)
        moreover from this(1) have "todo t < todo ls"
          using consume_steps(3) True by (simp add: EOZ_def)
        ultimately show ?thesis using less by fastforce
      qed (use m in \<open>auto simp: sep_loop.simps [of count ls] prog_simps split: if_splits\<close>)
    qed
  qed
  then show ?thesis by (simp add: shrinks_def)
qed

lemma skip_sep_consumes: "skip_sep ls = (Inr n, ls') \<Longrightarrow> current ls \<noteq> EOZ \<Longrightarrow> todo ls' < todo ls"
proof -
  assume m: "skip_sep ls = (Inr n, ls')" and c: "current ls \<noteq> EOZ"
  let ?rest = "\<lambda>s. andThen (sep_loop 0) (\<lambda>count. gets (\<lambda>ls. if current ls = s then count else - count - 1))"
  have r: "shrinks (?rest s)" for s by (intro shrink_rules)
  from m obtain t where "save_and_next ls = (Inr (), t)" "?rest (current ls) t = (Inr n, ls')"
    by (auto simp: skip_sep_def look_run Let_def thenDo_Inr)
  then show ?thesis using consume_steps(3) [OF _ c] shrinksD [OF r] by (meson le_less_trans)
qed

lemma skip_sep_shrinks [shrink_rules]: "shrinks skip_sep"
  unfolding skip_sep_def Let_def by (intro shrink_rules)

text \<open>
  The loop of \<open>read_long_string\<close>; \<open>is_str\<close> says that \<open>seminfo\<close> is not \<open>NULL\<close>, \<open>line\<close> is the line
  where the string started.
\<close>

function long_loop :: "bool \<Rightarrow> int \<Rightarrow> int \<Rightarrow> unit lexer" where
  "long_loop is_str line sep ls =
     (if current ls = EOZ then
        lexerror (bytes_of (''unfinished long '' @ (if is_str then ''string'' else ''comment'') @
                    '' (starting at line '') @ lua_integer2str (word_of_int line) @ bytes_of '')'')
          (tk TK_EOS) ls
      else if current ls = ch CHR '']'' then
        andThen skip_sep (\<lambda>n ls. if n = sep then save_and_next ls else long_loop is_str line sep ls) ls
      else if currIsNewline ls then
        thenDo (save 10)
        (thenDo inclinenumber
        (thenDo (when_p (\<not> is_str) luaZ_resetbuffer) (long_loop is_str line sep))) ls
      else if is_str then thenDo save_and_next (long_loop is_str line sep) ls
      else thenDo lnext (long_loop is_str line sep) ls)"
  by pat_completeness auto
termination
proof (relation "measure (\<lambda>(is_str, line, sep, ls). todo ls)", goal_cases)
  case (2 is_str line sep ls n t)
  then show ?case by (auto dest: skip_sep_consumes)
next
  case (3 is_str line sep ls a t b u c v)
  then have "todo u < todo t" "todo t = todo ls"
    using save_todo inclinenumber_consumes by metis+
  moreover have "todo v \<le> todo u"
    using 3(6) by (auto simp: luaZ_resetbuffer_def prog_simps todo_def left_def split: if_splits)
  ultimately show ?case by simp
qed (auto dest: consume_steps)

declare long_loop.simps [simp del]

lemma long_loop_shrinks [shrink_rules]: "shrinks (long_loop is_str line sep)"
proof -
  have "long_loop is_str line sep ls = (Inr a, ls') \<Longrightarrow> todo ls' \<le> todo ls" for ls a ls'
  proof (induction is_str line sep ls rule: long_loop.induct)
    case (1 is_str line sep ls)
    show ?case
    proof (cases "current ls = EOZ")
      case False
      note eq = long_loop.simps [of is_str line sep ls]
      consider (sep) "current ls = ch CHR '']''" | (line) "current ls \<noteq> ch CHR '']''" "currIsNewline ls"
        | (other) "current ls \<noteq> ch CHR '']''" "\<not> currIsNewline ls" by blast
      then show ?thesis
      proof cases
        case sep
        with 1(5) False obtain n t where t: "skip_sep ls = (Inr n, t)"
          "(if n = sep then save_and_next t else long_loop is_str line sep t) = (Inr a, ls')"
          by (auto simp: eq andThen_Inr)
        from shrinksD [OF skip_sep_shrinks t(1)] 1(1) [OF False sep t(1)] t(2) shrink_steps(2) [of t a ls']
        show ?thesis by (auto split: if_splits)
      next
        case line
        with 1(5) False obtain t u v where t: "save 10 ls = (Inr (), t)" "inclinenumber t = (Inr (), u)"
          "when_p (\<not> is_str) luaZ_resetbuffer u = (Inr (), v)" "long_loop is_str line sep v = (Inr a, ls')"
          by (auto simp: eq thenDo_Inr)
        have "todo v \<le> todo u"
          using t(3) by (auto simp: luaZ_resetbuffer_def prog_simps todo_def left_def split: if_splits)
        with shrinksD [OF save_shrinks t(1)] shrinksD [OF inclinenumber_shrinks t(2)]
          1(2) [OF False line t]
        show ?thesis by simp
      next
        case other
        with 1(5) False obtain t where t: "(if is_str then save_and_next else lnext) ls = (Inr (), t)"
          "long_loop is_str line sep t = (Inr a, ls')"
          by (auto simp: eq thenDo_Inr split: if_splits)
        with 1(3,4) [OF False other] shrink_steps [of ls "()" t] show ?thesis
          by (auto split: if_splits)
      qed
    qed (use 1(5) in \<open>simp add: long_loop.simps [of is_str line sep ls]\<close>)
  qed
  then show ?thesis by (simp add: shrinks_def)
qed

definition read_long_string :: "bool \<Rightarrow> int \<Rightarrow> bytes option lexer" where
  "read_long_string is_str sep = look (\<lambda>ls.
     let line = linenumber ls in
     thenDo save_and_next
     (thenDo (look (\<lambda>ls. when_p (currIsNewline ls) inclinenumber))
     (thenDo (long_loop is_str line sep)
     (if is_str then
        look (\<lambda>ls. andThen (luaX_newstring (nat (2 + sep)) (int (length (buff ls)) - 2 * (2 + sep)))
          (\<lambda>ts. ret (Some ts)))
      else ret None))))"

section \<open>Escape sequences\<close>

definition esccheck :: "bool \<Rightarrow> string \<Rightarrow> unit lexer" where
  "esccheck c msg =
     when_p (\<not> c)
       (thenDo (look (\<lambda>ls. when_p (current ls \<noteq> EOZ) save_and_next))
       (lexerror (bytes_of msg) (tk TK_STRING)))"

lemma esccheck_Inr: "esccheck c msg ls = (Inr a, ls') \<longleftrightarrow> c \<and> ls' = ls"
  by (auto simp: esccheck_def when_p_run thenDo_Inr)

definition gethexa :: "int lexer" where
  "gethexa =
     thenDo save_and_next
     (thenDo (look (\<lambda>ls. esccheck (lisxdigit (current ls)) ''hexadecimal digit expected''))
     (gets (\<lambda>ls. luaO_hexavalue (word_of_int (current ls)))))"

definition readhexaesc :: "int lexer" where
  "readhexaesc =
     andThen gethexa (\<lambda>r. andThen gethexa (\<lambda>r'.
       thenDo (luaZ_buffremove 2) (ret (push_bit 4 r + r'))))"

function utf8esc_loop :: "nat \<Rightarrow> int \<Rightarrow> (nat \<times> int) lexer" where
  "utf8esc_loop i r ls =
     thenDo save_and_next (\<lambda>ls.
       if lisxdigit (current ls) then
         let r' = push_bit 4 r + luaO_hexavalue (word_of_int (current ls)) in
         thenDo (esccheck (r' \<le> 0x10FFFF) ''UTF-8 value too large'') (utf8esc_loop (i + 1) r') ls
       else ret (i, r) ls) ls"
  by pat_completeness auto
termination
proof (relation "measure (\<lambda>(i, r, ls). todo ls)", goal_cases)
  case (2 i r ls a t r' b u)
  have "current t \<noteq> EOZ" using 2(2) EOZ_class(1) by fastforce
  with 2(1) have "todo t < todo ls" by (rule consume_steps(4))
  moreover have "todo u = todo t"
    using 2(4) by (simp add: esccheck_Inr)
  ultimately show ?case by simp
qed simp

declare utf8esc_loop.simps [simp del]

definition readutf8esc :: "int lexer" where
  "readutf8esc =
     thenDo save_and_next
     (thenDo (look (\<lambda>ls. esccheck (current ls = ch CHR ''{'') (''missing '' @ squote ''{'')))
     (andThen gethexa (\<lambda>r.
     andThen (utf8esc_loop 4 r) (\<lambda>(i, r).
     thenDo (look (\<lambda>ls. esccheck (current ls = ch CHR ''}'') (''missing '' @ squote ''}'')))
     (thenDo lnext
     (thenDo (luaZ_buffremove i) (ret r)))))))"

primrec save_all :: "bytes \<Rightarrow> unit lexer" where
  "save_all [] = ret ()"
| "save_all (b # bs) = thenDo (save (uint b)) (save_all bs)"

definition utf8esc :: "unit lexer" where
  "utf8esc = andThen readutf8esc (\<lambda>x. save_all (luaO_utf8esc (nat x)))"

function dec_loop :: "nat \<Rightarrow> int \<Rightarrow> (nat \<times> int) lexer" where
  "dec_loop i r ls =
     (if i < 3 \<and> lisdigit (current ls) then
        let r' = 10 * r + current ls - ch CHR ''0'' in
        thenDo save_and_next (dec_loop (i + 1) r') ls
      else ret (i, r) ls)"
  by pat_completeness auto
termination by (relation "measure (\<lambda>(i, r, ls). 3 - i)") auto

declare dec_loop.simps [simp del]

definition readdecesc :: "int lexer" where
  "readdecesc =
     andThen (dec_loop 0 0) (\<lambda>(i, r).
     thenDo (esccheck (r \<le> 255) ''decimal escape too large'')
     (thenDo (luaZ_buffremove i) (ret r)))"

function zap_loop :: "unit lexer" where
  "zap_loop ls =
     (if lisspace (current ls) then
        if currIsNewline ls then thenDo inclinenumber zap_loop ls
        else thenDo lnext zap_loop ls
      else ret () ls)"
  by pat_completeness auto
termination
proof (relation "measure todo", goal_cases)
  case (2 ls a t)
  then show ?case using inclinenumber_consumes EOZ_class(3) by fastforce
next
  case (3 ls a t)
  then show ?case using consume_steps(1) EOZ_class(3) by fastforce
qed simp

declare zap_loop.simps [simp del]

section \<open>Short strings\<close>

text \<open>The labels \<open>only_save\<close> and \<open>read_save\<close> of \<open>read_string\<close>.\<close>

definition only_save :: "int \<Rightarrow> unit lexer" where
  "only_save c = thenDo (luaZ_buffremove 1) (save c)"

definition read_save :: "int \<Rightarrow> unit lexer" where
  "read_save c = thenDo lnext (only_save c)"

text \<open>The case \<open>'\\'\<close> of \<open>read_string\<close>: the inner switch, and the whole.\<close>

definition escape_case :: "unit lexer" where
  "escape_case = look (\<lambda>ls.
       let c = current ls in
       if c = ch CHR ''a'' then read_save 7
       else if c = ch CHR ''b'' then read_save 8
       else if c = ch CHR ''f'' then read_save 12
       else if c = ch CHR ''n'' then read_save 10
       else if c = ch CHR ''r'' then read_save 13
       else if c = ch CHR ''t'' then read_save 9
       else if c = ch CHR ''v'' then read_save 11
       else if c = ch CHR ''x'' then andThen readhexaesc read_save
       else if c = ch CHR ''u'' then utf8esc
       else if currIsNewline ls then thenDo inclinenumber (only_save 10)
       else if c = 92 \<or> c = 34 \<or> c = 39 then read_save c
       else if c = EOZ then ret ()
       else if c = ch CHR ''z'' then thenDo (luaZ_buffremove 1) (thenDo lnext zap_loop)
       else
         thenDo (esccheck (lisdigit c) ''invalid escape sequence'')
         (andThen readdecesc only_save))"

definition escape :: "unit lexer" where
  "escape = thenDo save_and_next escape_case"

lemma buffremove_shrinks [shrink_rules]: "shrinks (luaZ_buffremove i)"
  unfolding luaZ_buffremove_def by (intro shrink_rules) (simp add: todo_def left_def)

lemma esccheck_shrinks [shrink_rules]: "shrinks (esccheck c msg)"
  by (simp add: shrinks_def esccheck_Inr)

lemma newstring_shrinks [shrink_rules]: "shrinks (luaX_newstring i n)"
  unfolding luaX_newstring_def Let_def by (intro shrink_rules) (simp add: todo_def left_def)

lemma save_all_shrinks [shrink_rules]: "shrinks (save_all bs)"
  by (induction bs) (auto intro: shrink_rules)

lemma gethexa_shrinks [shrink_rules]: "shrinks gethexa"
  unfolding gethexa_def by (intro shrink_rules)

lemma readhexaesc_shrinks [shrink_rules]: "shrinks readhexaesc"
  unfolding readhexaesc_def by (intro shrink_rules)

lemma dec_loop_shrinks [shrink_rules]: "shrinks (dec_loop i r)"
proof -
  have "dec_loop i r ls = (Inr a, ls') \<Longrightarrow> todo ls' \<le> todo ls" for ls a ls'
  proof (induction i r ls rule: dec_loop.induct)
    case (1 i r ls)
    show ?case
    proof (cases "i < 3 \<and> lisdigit (current ls)")
      case True
      with 1(2) obtain t where t: "save_and_next ls = (Inr (), t)"
        "dec_loop (i + 1) (10 * r + current ls - ch CHR ''0'') t = (Inr a, ls')"
        by (auto simp: dec_loop.simps [of i r ls] thenDo_Inr Let_def)
      from shrink_steps(2) [OF t(1)] have "todo t \<le> todo ls" .
      with 1(1) [OF True refl t(1) t(2)] show ?thesis by simp
    qed (use 1(2) in \<open>auto simp: dec_loop.simps [of i r ls] prog_simps split: if_splits\<close>)
  qed
  then show ?thesis by (simp add: shrinks_def)
qed

lemma zap_loop_shrinks [shrink_rules]: "shrinks zap_loop"
proof -
  have "zap_loop ls = (Inr a, ls') \<Longrightarrow> todo ls' \<le> todo ls" for ls a ls'
  proof (induction ls rule: zap_loop.induct)
    case (1 ls)
    show ?case
    proof (cases "lisspace (current ls)")
      case True
      with 1(3) obtain t where t: "(if currIsNewline ls then inclinenumber else lnext) ls = (Inr (), t)"
        "zap_loop t = (Inr a, ls')"
        by (auto simp: zap_loop.simps [of ls] thenDo_Inr split: if_splits)
      have "shrinks (if currIsNewline ls then inclinenumber else lnext)" by (intro shrink_rules)
      from shrinksD [OF this t(1)] 1(1,2) True t show ?thesis
        by (auto split: if_splits)
    qed (use 1(3) in \<open>auto simp: zap_loop.simps [of ls] prog_simps split: if_splits\<close>)
  qed
  then show ?thesis by (simp add: shrinks_def)
qed

lemma utf8esc_loop_shrinks [shrink_rules]: "shrinks (utf8esc_loop i r)"
proof -
  have "utf8esc_loop i r ls = (Inr a, ls') \<Longrightarrow> todo ls' \<le> todo ls" for ls a ls'
  proof (induction i r ls rule: utf8esc_loop.induct)
    case (1 i r ls)
    from 1(2) obtain t where t: "save_and_next ls = (Inr (), t)"
      by (auto simp: utf8esc_loop.simps [of i r ls] thenDo_Inr)
    from shrink_steps(2) [OF t] have le: "todo t \<le> todo ls" .
    show ?case
    proof (cases "lisxdigit (current t)")
      case True
      with 1(2) t have "esccheck (push_bit 4 r + luaO_hexavalue (word_of_int (current t)) \<le> 0x10FFFF)
          ''UTF-8 value too large'' t = (Inr (), t)"
        "utf8esc_loop (i + 1) (push_bit 4 r + luaO_hexavalue (word_of_int (current t))) t = (Inr a, ls')"
        by (auto simp: utf8esc_loop.simps [of i r ls] thenDo_Inr Let_def esccheck_Inr)
      from 1(1) [OF t True refl this] le show ?thesis by simp
    qed (use 1(2) t le in \<open>auto simp: utf8esc_loop.simps [of i r ls] prog_simps\<close>)
  qed
  then show ?thesis by (simp add: shrinks_def)
qed

lemma escape_less: "escape ls = (Inr a, ls') \<Longrightarrow> current ls \<noteq> EOZ \<Longrightarrow> todo ls' < todo ls"
proof -
  assume m: "escape ls = (Inr a, ls')" and c: "current ls \<noteq> EOZ"
  have r: "shrinks escape_case"
    unfolding escape_case_def Let_def read_save_def only_save_def utf8esc_def readutf8esc_def readdecesc_def
    by (intro shrink_rules shrinks_prod)
  from m obtain t where "save_and_next ls = (Inr (), t)" "escape_case t = (Inr a, ls')"
    by (auto simp: escape_def thenDo_Inr)
  then show ?thesis using consume_steps(3) [OF _ c] shrinksD [OF r] by (meson le_less_trans)
qed

function string_loop :: "int \<Rightarrow> unit lexer" where
  "string_loop del ls =
     (if current ls = del then ret () ls
      else if current ls = EOZ then lexerror (bytes_of ''unfinished string'') (tk TK_EOS) ls
      else if currIsNewline ls then lexerror (bytes_of ''unfinished string'') (tk TK_STRING) ls
      else if current ls = 92 then thenDo escape (string_loop del) ls
      else thenDo save_and_next (string_loop del) ls)"
  by pat_completeness auto
termination
proof (relation "measure (\<lambda>(del, ls). todo ls)", goal_cases)
  case (2 del ls a t)
  then show ?case using escape_less by simp
next
  case (3 del ls a t)
  then show ?case using consume_steps(3) by simp
qed simp

declare string_loop.simps [simp del]

definition read_string :: "int \<Rightarrow> bytes lexer" where
  "read_string del =
     thenDo save_and_next
     (thenDo (string_loop del)
     (thenDo save_and_next
     (look (\<lambda>ls. luaX_newstring 1 (int (length (buff ls)) - 2)))))"

section \<open>The scanner\<close>

text \<open>The loop over a short comment.\<close>

function skip_line :: "unit lexer" where
  "skip_line ls =
     (if \<not> currIsNewline ls \<and> current ls \<noteq> EOZ then thenDo lnext skip_line ls else ret () ls)"
  by pat_completeness auto
termination by (relation "measure todo") (auto dest: consume_steps)

declare skip_line.simps [simp del]

lemma skip_line_shrinks [shrink_rules]: "shrinks skip_line"
proof -
  have "skip_line ls = (Inr a, ls') \<Longrightarrow> todo ls' \<le> todo ls" for ls a ls'
  proof (induction ls rule: skip_line.induct)
    case (1 ls)
    show ?case
    proof (cases "\<not> currIsNewline ls \<and> current ls \<noteq> EOZ")
      case True
      with 1(2) obtain t where t: "lnext ls = (Inr (), t)" "skip_line t = (Inr a, ls')"
        by (auto simp: skip_line.simps [of ls] thenDo_Inr)
      from shrink_steps(1) [OF t(1)] 1(1) [OF True t] show ?thesis by simp
    qed (use 1(2) in \<open>auto simp: skip_line.simps [of ls] prog_simps split: if_splits\<close>)
  qed
  then show ?thesis by (simp add: shrinks_def)
qed

text \<open>A comment, from the character after \<open>--\<close> on.\<close>

definition comment :: "unit lexer" where
  "comment = look (\<lambda>ls.
     if current ls = ch CHR ''['' then
       andThen skip_sep (\<lambda>sep.
       thenDo luaZ_resetbuffer
       (if sep \<ge> 0 then thenDo (read_long_string False sep) luaZ_resetbuffer
        else skip_line))
     else skip_line)"

lemma comment_shrinks [shrink_rules]: "shrinks comment"
  unfolding comment_def read_long_string_def Let_def luaZ_resetbuffer_def
  by (intro shrink_rules) (simp_all add: todo_def left_def)

function name_loop :: "unit lexer" where
  "name_loop ls =
     thenDo save_and_next
       (\<lambda>ls. if lislalnum (current ls) then name_loop ls else ret () ls) ls"
  by pat_completeness auto
termination
proof (relation "measure todo", goal_cases)
  case (2 ls a t)
  have "current t \<noteq> EOZ" using 2(2) EOZ_class(4) by fastforce
  with 2(1) show ?case using consume_steps(4) by simp
qed simp

declare name_loop.simps [simp del]

text \<open>
  The cases of \<open>llex\<close> that return a token: its number, and the semantic value where the code
  stores one.
\<close>

definition llex_name :: "(int \<times> SemInfo option) lexer" where
  "llex_name =
     thenDo name_loop
     (look (\<lambda>ls. andThen (luaX_newstring 0 (int (length (buff ls)))) (\<lambda>ts.
        ret (if extra_of ts > 0 then int (extra_of ts) - 1 + FIRST_RESERVED else tk TK_NAME,
             Some (Sem_ts ts)))))"

definition llex_operator :: "int \<Rightarrow> (int \<times> RESERVED) list \<Rightarrow> (int \<times> SemInfo option) lexer" where
  "llex_operator c alts =
     thenDo lnext
       (foldr (\<lambda>(d, t) other. andThen (check_next1 d) (\<lambda>b. if b then ret (tk t, None) else other))
          alts (ret (c, None)))"

definition llex_numeral :: "lex_env \<Rightarrow> (int \<times> SemInfo option) lexer" where
  "llex_numeral E = andThen (read_numeral E) (\<lambda>(t, s). ret (t, Some s))"

definition llex_token :: "lex_env \<Rightarrow> (int \<times> SemInfo option) lexer" where
  "llex_token E = look (\<lambda>ls.
     let c = current ls in
     if c = ch CHR ''['' then
       andThen skip_sep (\<lambda>sep.
         if sep \<ge> 0 then
           andThen (read_long_string True sep) (\<lambda>s. ret (tk TK_STRING, map_option Sem_ts s))
         else if sep \<noteq> - 1 then lexerror (bytes_of ''invalid long string delimiter'') (tk TK_STRING)
         else ret (c, None))
     else if c = ch CHR ''='' then llex_operator c [(ch CHR ''='', TK_EQ)]
     else if c = ch CHR ''<'' then llex_operator c [(ch CHR ''='', TK_LE), (ch CHR ''<'', TK_SHL)]
     else if c = ch CHR ''>'' then llex_operator c [(ch CHR ''='', TK_GE), (ch CHR ''>'', TK_SHR)]
     else if c = ch CHR ''/'' then llex_operator c [(ch CHR ''/'', TK_IDIV)]
     else if c = ch CHR ''~'' then llex_operator c [(ch CHR ''='', TK_NE)]
     else if c = ch CHR '':'' then llex_operator c [(ch CHR '':'', TK_DBCOLON)]
     else if c = 34 \<or> c = 39 then andThen (read_string c) (\<lambda>s. ret (tk TK_STRING, Some (Sem_ts s)))
     else if c = ch CHR ''.'' then
       thenDo save_and_next
       (andThen (check_next1 (ch CHR ''.'')) (\<lambda>two.
          if two then
            andThen (check_next1 (ch CHR ''.'')) (\<lambda>three.
              ret (if three then tk TK_DOTS else tk TK_CONCAT, None))
          else look (\<lambda>ls. if \<not> lisdigit (current ls) then ret (c, None) else llex_numeral E)))
     else if c \<in> {48..57} then llex_numeral E
     else if c = EOZ then ret (tk TK_EOS, None)
     else if lislalpha c then llex_name
     else thenDo lnext (ret (c, None)))"

text \<open>The loop of \<open>llex\<close>: white space and comments are skipped.\<close>

function llex_loop :: "lex_env \<Rightarrow> (int \<times> SemInfo option) lexer" where
  "llex_loop E ls =
     (if currIsNewline ls then thenDo inclinenumber (llex_loop E) ls
      else if current ls \<in> {32, 12, 9, 11} then thenDo lnext (llex_loop E) ls
      else if current ls = ch CHR ''-'' then
        thenDo lnext (\<lambda>ls.
          if current ls \<noteq> ch CHR ''-'' then ret (ch CHR ''-'', None) ls
          else thenDo lnext (thenDo comment (llex_loop E)) ls) ls
      else llex_token E ls)"
  by pat_completeness auto
termination
proof (relation "measure (\<lambda>(E, ls). todo ls)", goal_cases)
  case (2 E ls a t)
  then show ?case using inclinenumber_consumes by (fastforce simp: currIsNewline_def EOZ_def)
next
  case (3 E ls a t)
  then show ?case using consume_steps(1) [of ls a t] by (auto simp: EOZ_def)
next
  case (4 E ls a t b u c v)
  then have "todo t < todo ls" using consume_steps(1) [of ls a t] by (simp add: EOZ_def)
  moreover have "todo u \<le> todo t" using 4 shrink_steps(1) by blast
  moreover have "todo v \<le> todo u" using 4 shrinksD [OF comment_shrinks] by blast
  ultimately show ?case by simp
qed simp

declare llex_loop.simps [simp del]

definition llex :: "lex_env \<Rightarrow> (int \<times> SemInfo option) lexer" where
  "llex E = thenDo luaZ_resetbuffer (llex_loop E)"

text \<open>\<open>llex\<close> into the token at the address of \<open>seminfo\<close>, which keeps a value that is not stored.\<close>

definition llex_into :: "lex_env \<Rightarrow> Token \<Rightarrow> Token lexer" where
  "llex_into E t =
     andThen (llex E) (\<lambda>(n, s).
       ret \<lparr>token = n, seminfo = (case s of None \<Rightarrow> seminfo t | Some v \<Rightarrow> v)\<rparr>)"

definition luaX_next :: "lex_env \<Rightarrow> unit lexer" where
  "luaX_next E =
     thenDo (modify (\<lambda>ls. ls\<lparr>lastline := linenumber ls\<rparr>))
     (look (\<lambda>ls.
        if token (lookahead ls) \<noteq> tk TK_EOS then
          modify (\<lambda>ls. ls\<lparr>tok := lookahead ls, lookahead := (lookahead ls)\<lparr>token := tk TK_EOS\<rparr>\<rparr>)
        else andThen (llex_into E (tok ls)) (\<lambda>t. modify (\<lambda>ls. ls\<lparr>tok := t\<rparr>))))"

definition luaX_lookahead :: "lex_env \<Rightarrow> int lexer" where
  "luaX_lookahead E = look (\<lambda>ls.
     andThen (llex_into E (lookahead ls)) (\<lambda>t.
     thenDo (modify (\<lambda>ls. ls\<lparr>lookahead := t\<rparr>)) (ret (token t))))"

end
