(* ===== verification/LuaLexProps.thy ===== *)
theory LuaLexProps
  imports LuaLex
begin

text \<open>
  Properties of the scanner. The reader's blocks are hidden behind \<open>inp\<close>, the bytes still to be
  scanned; \<open>agree\<close> says of a step from a state that it gives the same result, and leaves the same
  input, on every state with that input, without undefined behaviour. All loops are handled by
  rules for it, in the style of weakest preconditions.
\<close>

section \<open>States that differ in the blocks of the reader\<close>

definition lok :: "LexState \<Rightarrow> bool" where
  "lok ls \<longleftrightarrow> 0 < buffsize ls \<and> length (buff ls) \<le> buffsize ls \<and>
     (current ls = EOZ \<or> 0 \<le> current ls \<and> current ls < 256 \<and> zok (zin ls))"

definition inp :: "LexState \<Rightarrow> bytes" where
  "inp ls = (if current ls = EOZ then [] else word_of_int (current ls) # zrest (zin ls))"

definition same :: "LexState \<Rightarrow> LexState \<Rightarrow> bool" where
  "same ls ls' \<longleftrightarrow> lok ls \<and> lok ls' \<and> inp ls = inp ls' \<and> ls\<lparr>zin := zin ls'\<rparr> = ls'"

lemma sameI: "lok ls \<Longrightarrow> lok (ls\<lparr>zin := z\<rparr>) \<Longrightarrow> inp ls = inp (ls\<lparr>zin := z\<rparr>) \<Longrightarrow> same ls (ls\<lparr>zin := z\<rparr>)"
  by (simp add: same_def)

lemma sameE:
  assumes "same ls ls'"
  obtains z where "ls' = ls\<lparr>zin := z\<rparr>" "lok (ls\<lparr>zin := z\<rparr>)" "inp (ls\<lparr>zin := z\<rparr>) = inp ls"
  using assms unfolding same_def by metis

lemma lex_same_refl: "lok ls \<Longrightarrow> same ls ls"
  by (simp add: same_def)

lemma inp_Nil: "inp ls = [] \<longleftrightarrow> current ls = EOZ"
  by (simp add: inp_def)

lemma inp_current: "lok ls \<Longrightarrow> inp ls = c # cs \<Longrightarrow> current ls = uint c"
  by (auto simp: lok_def inp_def uint_word_of_int split: if_splits)

lemma uint_EOZ: "uint (b :: byte) \<noteq> EOZ" "0 \<le> uint b \<and> uint b < 256"
proof -
  show "0 \<le> uint b \<and> uint b < 256" using uint_lt2p [of b] by simp
  then show "uint b \<noteq> EOZ" unfolding EOZ_def by linarith
qed

lemma lnext_run:
  assumes "lok ls" "inp ls = c # cs"
  shows "\<exists>z. lnext ls = (Inr (), ls\<lparr>zin := z, current := (if cs = [] then EOZ else uint (hd cs))\<rparr>) \<and>
     lok (ls\<lparr>zin := z, current := (if cs = [] then EOZ else uint (hd cs))\<rparr>) \<and>
     inp (ls\<lparr>zin := z, current := (if cs = [] then EOZ else uint (hd cs))\<rparr>) = cs"
proof -
  from assms have z: "zok (zin ls)" "zrest (zin ls) = cs"
    by (auto simp: lok_def inp_def split: if_splits)
  show ?thesis
  proof (cases cs)
    case Nil
    with z zgetc_Nil [of "zin ls"] obtain z' where "zgetc (zin ls) = (Inr EOZ, z')" by metis
    with Nil assms(1) show ?thesis by (auto simp: lnext_def lok_def inp_def)
  next
    case (Cons d ds)
    with z zgetc_Cons [of "zin ls" d ds] obtain z' where
      "zgetc (zin ls) = (Inr (uint d), z')" "zok z'" "zrest z' = ds" by metis
    with Cons assms(1) uint_EOZ [of d] show ?thesis
      by (auto simp: lnext_def lok_def inp_def)
  qed
qed

section \<open>Steps that agree\<close>

text \<open>Two results that differ in the blocks of the reader at most; errors only if \<open>err\<close>.\<close>

definition agrees ::
  "bool \<Rightarrow> ('a \<Rightarrow> LexState \<Rightarrow> bool) \<Rightarrow> (load_stop + 'a) \<times> LexState \<Rightarrow> (load_stop + 'a) \<times> LexState \<Rightarrow> bool" where
  "agrees err Q x y \<longleftrightarrow>
     (case x of
        (Inl e, t) \<Rightarrow> err \<and> (\<forall>u. e \<noteq> Undefined u) \<and> fst y = Inl e
      | (Inr a, t) \<Rightarrow> fst y = Inr a \<and> same t (snd y) \<and> Q a t)"

definition agree :: "bool \<Rightarrow> LexState \<Rightarrow> 'a lexer \<Rightarrow> ('a \<Rightarrow> LexState \<Rightarrow> bool) \<Rightarrow> bool" where
  "agree err ls m Q \<longleftrightarrow> (\<forall>ls'. same ls ls' \<longrightarrow> agrees err Q (m ls) (m ls'))"

lemma agrees_Inr [simp]: "agrees err Q (Inr a, t) y \<longleftrightarrow> fst y = Inr a \<and> same t (snd y) \<and> Q a t"
  by (simp add: agrees_def)

lemma agrees_Inl [simp]: "agrees err Q (Inl e, t) y \<longleftrightarrow> err \<and> (\<forall>u. e \<noteq> Undefined u) \<and> fst y = Inl e"
  by (simp add: agrees_def)

lemma agreeI: "(\<And>ls'. same ls ls' \<Longrightarrow> agrees err Q (m ls) (m ls')) \<Longrightarrow> agree err ls m Q"
  by (simp add: agree_def)

lemma agreeD: "agree err ls m Q \<Longrightarrow> same ls ls' \<Longrightarrow> agrees err Q (m ls) (m ls')"
  by (simp add: agree_def)

lemma agrees_weaken:
  "agrees err Q x y \<Longrightarrow> (\<And>a t. Q a t \<Longrightarrow> Q' a t) \<Longrightarrow> (err \<Longrightarrow> err') \<Longrightarrow> agrees err' Q' x y"
  by (auto simp: agrees_def split: prod.splits sum.splits)

lemma agree_weaken:
  "agree err ls m Q \<Longrightarrow> (\<And>a t. Q a t \<Longrightarrow> Q' a t) \<Longrightarrow> agree err ls m Q'"
  using agrees_weaken unfolding agree_def by metis

lemma agree_err: "agree err ls m Q \<Longrightarrow> agree True ls m Q"
  using agrees_weaken unfolding agree_def by metis

lemma agree_andThen:
  assumes "agree err ls m (\<lambda>a t. agree err t (f a) Q)"
  shows "agree err ls (andThen m f) Q"
proof (rule agreeI)
  fix ls'
  assume "same ls ls'"
  from agreeD [OF assms this] have m: "agrees err (\<lambda>a t. agree err t (f a) Q) (m ls) (m ls')" .
  obtain r t r' t' where e: "m ls = (r, t)" "m ls' = (r', t')" by fastforce
  show "agrees err Q (andThen m f ls) (andThen m f ls')"
  proof (cases r)
    case (Inr a)
    with m e have "r' = Inr a" "same t t'" "agree err t (f a) Q" by auto
    then show ?thesis using agreeD Inr e by (simp add: andThen_run)
  qed (use m e in \<open>simp add: andThen_run\<close>)
qed

lemma agree_thenDo:
  "agree err ls m (\<lambda>_ t. agree err t n Q) \<Longrightarrow> agree err ls (thenDo m n) Q"
  unfolding thenDo_def by (rule agree_andThen)

lemma agree_ret: "Q a ls \<Longrightarrow> agree err ls (ret a) Q"
  by (simp add: agree_def ret_run)

lemma agree_look:
  assumes "\<And>z. f (ls\<lparr>zin := z\<rparr>) = f ls" "agree err ls (f ls) Q"
  shows "agree err ls (look f) Q"
proof (rule agreeI)
  fix ls'
  assume s: "same ls ls'"
  then have "f ls' = f ls" using assms(1) by (metis sameE)
  then show "agrees err Q (look f ls) (look f ls')"
    using agreeD [OF assms(2) s] by (simp add: look_run)
qed

lemma agree_gets:
  assumes "\<And>z. f (ls\<lparr>zin := z\<rparr>) = f ls" "Q (f ls) ls"
  shows "agree err ls (gets f) Q"
proof -
  have "(gets f :: _ lexer) = look (\<lambda>s. ret (f s))" by (simp add: gets_def look_def ret_def)
  then show ?thesis by (simp only:) (rule agree_look, simp_all add: assms agree_ret)
qed

lemma agree_modify:
  assumes "\<And>z. f (ls\<lparr>zin := z\<rparr>) = (f ls)\<lparr>zin := z\<rparr>"
    and "lok ls \<Longrightarrow> lok (f ls)" "zin (f ls) = zin ls" "current (f ls) = current ls"
    and "lok ls \<Longrightarrow> Q () (f ls)"
  shows "agree err ls (modify f) Q"
proof (rule agreeI)
  fix ls'
  assume s: "same ls ls'"
  then obtain z where z: "ls' = ls\<lparr>zin := z\<rparr>" "lok (ls\<lparr>zin := z\<rparr>)" "inp (ls\<lparr>zin := z\<rparr>) = inp ls"
    by (rule sameE)
  have l: "lok ls" using s by (simp add: same_def)
  from assms(2) [OF l] assms(3,4) z(2,3) have "lok ((f ls)\<lparr>zin := z\<rparr>)" "inp ((f ls)\<lparr>zin := z\<rparr>) = inp (f ls)"
    by (auto simp: lok_def inp_def split: if_splits)
  with assms(2) [OF l] have "same (f ls) ((f ls)\<lparr>zin := z\<rparr>)" by (intro sameI) simp_all
  with assms(1) assms(5) [OF l] z(1) show "agrees err Q (modify f ls) (modify f ls')"
    by (simp add: modify_run)
qed

lemma agree_lok: "(lok ls \<Longrightarrow> agree err ls m Q) \<Longrightarrow> agree err ls m Q"
  by (auto simp: agree_def same_def)

lemma agree_throw: "err \<Longrightarrow> (\<And>u. e \<noteq> Undefined u) \<Longrightarrow> agree err ls (stop e) Q"
  by (simp add: agree_def stop_run)

lemma agree_lnext:
  assumes "lok ls \<Longrightarrow> inp ls \<noteq> []"
    and "\<And>z c. lok ls \<Longrightarrow> lok (ls\<lparr>zin := z, current := c\<rparr>) \<Longrightarrow> inp (ls\<lparr>zin := z, current := c\<rparr>) = tl (inp ls) \<Longrightarrow>
      Q () (ls\<lparr>zin := z, current := c\<rparr>)"
  shows "agree err ls lnext Q"
proof (rule agreeI)
  fix ls'
  assume s: "same ls ls'"
  then have l: "lok ls" "lok ls'" "inp ls' = inp ls" by (simp_all add: same_def)
  from assms(1) [OF l(1)] obtain c cs where c: "inp ls = c # cs" by (cases "inp ls") auto
  let ?c = "if cs = [] then EOZ else uint (hd cs)"
  from lnext_run [OF l(1) c] obtain z where z: "lnext ls = (Inr (), ls\<lparr>zin := z, current := ?c\<rparr>)"
    "lok (ls\<lparr>zin := z, current := ?c\<rparr>)" "inp (ls\<lparr>zin := z, current := ?c\<rparr>) = cs" by blast
  from lnext_run [OF l(2), of c cs] l(3) c obtain z' where z':
    "lnext ls' = (Inr (), ls'\<lparr>zin := z', current := ?c\<rparr>)"
    "lok (ls'\<lparr>zin := z', current := ?c\<rparr>)" "inp (ls'\<lparr>zin := z', current := ?c\<rparr>) = cs" by auto
  from s have "ls\<lparr>zin := zin ls'\<rparr> = ls'" by (simp add: same_def)
  from arg_cong [OF this, of "\<lambda>s. s\<lparr>zin := z', current := ?c\<rparr>"]
  have "ls'\<lparr>zin := z', current := ?c\<rparr> = ls\<lparr>zin := z', current := ?c\<rparr>" by simp
  with z z' have "same (ls\<lparr>zin := z, current := ?c\<rparr>) (ls'\<lparr>zin := z', current := ?c\<rparr>)"
    by (simp add: same_def)
  moreover have "Q () (ls\<lparr>zin := z, current := ?c\<rparr>)" using assms(2) [OF l(1) z(2)] z(3) c by simp
  ultimately show "agrees err Q (lnext ls) (lnext ls')" using z(1) z'(1) by simp
qed

text \<open>What the other fields keep.\<close>

lemma inp_simps [simp]:
  "inp (ls\<lparr>buff := b\<rparr>) = inp ls" "inp (ls\<lparr>buffsize := n\<rparr>) = inp ls"
  "inp (ls\<lparr>linenumber := l\<rparr>) = inp ls" "inp (ls\<lparr>anchored := h\<rparr>) = inp ls"
  "inp (ls\<lparr>lastline := l\<rparr>) = inp ls" "inp (ls\<lparr>tok := t\<rparr>) = inp ls"
  "inp (ls\<lparr>lookahead := t\<rparr>) = inp ls" "inp (ls\<lparr>decpoint := d\<rparr>) = inp ls"
  by (simp_all add: inp_def)

lemma lok_simps [simp]:
  "lok (ls\<lparr>linenumber := l\<rparr>) = lok ls" "lok (ls\<lparr>anchored := h\<rparr>) = lok ls"
  "lok (ls\<lparr>lastline := l\<rparr>) = lok ls" "lok (ls\<lparr>tok := t\<rparr>) = lok ls"
  "lok (ls\<lparr>lookahead := t\<rparr>) = lok ls" "lok (ls\<lparr>decpoint := d\<rparr>) = lok ls"
  by (simp_all add: lok_def)

lemma lok_buff: "lok ls \<Longrightarrow> length b \<le> length (buff ls) \<Longrightarrow> lok (ls\<lparr>buff := b\<rparr>)"
  by (auto simp: lok_def)

definition fixed :: "LexState \<Rightarrow> Token \<times> Token \<times> int \<times> bytes" where
  "fixed ls = (tok ls, lookahead ls, lastline ls, chunk ls)"

lemma fixed_simps [simp]:
  "fixed (ls\<lparr>buff := b\<rparr>) = fixed ls" "fixed (ls\<lparr>buffsize := n\<rparr>) = fixed ls"
  "fixed (ls\<lparr>linenumber := l\<rparr>) = fixed ls" "fixed (ls\<lparr>anchored := h\<rparr>) = fixed ls"
  "fixed (ls\<lparr>zin := z\<rparr>) = fixed ls" "fixed (ls\<lparr>current := c\<rparr>) = fixed ls"
  "fixed (ls\<lparr>decpoint := d\<rparr>) = fixed ls"
  by (simp_all add: fixed_def)

section \<open>The steps of the scanner\<close>

lemma agree_lexerror_plain: "err \<Longrightarrow> agree err ls (lexerror_plain msg) Q"
  unfolding lexerror_plain_def by (auto intro!: agree_look agree_throw)

lemma agree_save:
  assumes "err \<or> length (buff ls) < 2 ^ 61"
    and "\<And>n. lok (ls\<lparr>buffsize := n, buff := buff ls @ [word_of_int c]\<rparr>) \<Longrightarrow>
      Q () (ls\<lparr>buffsize := n, buff := buff ls @ [word_of_int c]\<rparr>)"
  shows "agree err ls (save c) Q"
  unfolding save_def
proof (rule agree_lok, rule agree_look)
  assume l: "lok ls"
  let ?f = "\<lambda>ls :: LexState. ls\<lparr>buffsize := buffsize ls * 2, buff := buff ls @ [word_of_int c]\<rparr>"
  let ?g = "\<lambda>ls :: LexState. ls\<lparr>buff := buff ls @ [word_of_int c]\<rparr>"
  have grow: "agree err ls (modify ?f) Q"
    using l assms(2) [of "buffsize ls * 2"] by (intro agree_modify) (auto simp: lok_def)
  have keep: "agree err ls (modify ?g) Q" if "length (buff ls) < buffsize ls"
    using that assms(2) [of "buffsize ls"] by (intro agree_modify) (auto simp: lok_def)
  have "length (buff ls) + 1 \<le> buffsize ls * 2" using l by (auto simp: lok_def)
  moreover have "err" if "length (buff ls) + 1 > buffsize ls" "buffsize ls \<ge> MAX_SIZE div 2"
    using that assms(1) by (auto simp: MAX_SIZE_def)
  ultimately show "agree err ls (if length (buff ls) + 1 > buffsize ls then
       if buffsize ls \<ge> MAX_SIZE div 2 then lexerror_plain ''lexical element too long''
       else if length (buff ls) + 1 > buffsize ls * 2 then stop (Undefined ''write past the buffer'')
       else modify ?f
     else modify ?g) Q"
    using grow keep by (simp add: agree_lexerror_plain)
qed simp

lemma agree_save_next:
  assumes "lok ls \<Longrightarrow> inp ls \<noteq> []" "err \<or> length (buff ls) < 2 ^ 61"
    and "\<And>n z c. lok (ls\<lparr>buffsize := n, buff := buff ls @ [hd (inp ls)], zin := z, current := c\<rparr>) \<Longrightarrow>
      inp (ls\<lparr>buffsize := n, buff := buff ls @ [hd (inp ls)], zin := z, current := c\<rparr>) = tl (inp ls) \<Longrightarrow>
      Q () (ls\<lparr>buffsize := n, buff := buff ls @ [hd (inp ls)], zin := z, current := c\<rparr>)"
  shows "agree err ls save_and_next Q"
  unfolding save_and_next_def
proof (rule agree_lok, rule agree_look)
  assume l: "lok ls"
  then have "word_of_int (current ls) = hd (inp ls)" using assms(1) by (auto simp: inp_def)
  with assms l show "agree err ls (thenDo (save (current ls)) lnext) Q"
    by (intro agree_thenDo agree_save agree_lnext) auto
qed simp

lemma agree_txtToken: "agree True ls (txtToken t) (\<lambda>_ _. True)"
  unfolding txtToken_def by (auto intro!: agree_thenDo agree_save agree_gets agree_ret)

lemma agree_lexerror: "err \<Longrightarrow> agree err ls (lexerror msg t) Q"
  unfolding lexerror_def Let_def
  by (auto intro!: agree_look agree_throw agree_andThen agree_weaken [OF agree_txtToken])

lemma agree_resetbuffer:
  "(lok ls \<Longrightarrow> lok (ls\<lparr>buff := []\<rparr>) \<Longrightarrow> Q () (ls\<lparr>buff := []\<rparr>)) \<Longrightarrow> agree err ls luaZ_resetbuffer Q"
  unfolding luaZ_resetbuffer_def by (auto intro!: agree_modify simp: lok_buff)

lemma agree_buffremove:
  assumes "i \<le> length (buff ls)"
    and "lok (ls\<lparr>buff := take (length (buff ls) - i) (buff ls)\<rparr>) \<Longrightarrow>
      Q () (ls\<lparr>buff := take (length (buff ls) - i) (buff ls)\<rparr>)"
  shows "agree err ls (luaZ_buffremove i) Q"
  unfolding luaZ_buffremove_def using assms by (auto intro!: agree_look agree_modify simp: lok_buff)

lemma agree_newstring:
  assumes "0 \<le> n" "int i + n \<le> int (length (buff ls))" "err \<or> length (buff ls) < 2 ^ 61"
    and "Q (take (nat n) (drop i (buff ls)))
      (ls\<lparr>anchored := insert (take (nat n) (drop i (buff ls))) (anchored ls)\<rparr>)"
  shows "agree err ls (luaX_newstring i n) Q"
  unfolding luaX_newstring_def
proof (rule agree_look)
  have "err" if "\<not> length (take (nat n) (drop i (buff ls))) < MAX_SIZE - 24"
    using that assms(3) by (auto simp: MAX_SIZE_def)
  with assms(1,2,4) show "agree err ls (if n < 0 \<or> int i + n > int (length (buff ls))
      then stop (Undefined ''string outside the buffer'')
      else let ts = take (nat n) (drop i (buff ls)) in
        if length ts \<ge> MAX_SIZE - 24 then stop Throw_memory
        else thenDo (modify (\<lambda>ls. ls\<lparr>anchored := insert ts (anchored ls)\<rparr>)) (ret ts)) Q"
    by (auto simp: Let_def intro!: agree_throw agree_thenDo agree_modify agree_ret)
qed simp

text \<open>What is left after a line break of one or two characters.\<close>

fun skip_newline :: "bytes \<Rightarrow> bytes" where
  "skip_newline (c # d # cs) = (if (d = 10 \<or> d = 13) \<and> d \<noteq> c then cs else d # cs)"
| "skip_newline cs = []"

lemma skip_newline_length: "cs \<noteq> [] \<Longrightarrow> length (skip_newline cs) < length cs"
  by (cases cs rule: skip_newline.cases) auto

lemma current_hd: "lok ls \<Longrightarrow> inp ls \<noteq> [] \<Longrightarrow> current ls = uint (hd (inp ls))"
  using inp_current by (cases "inp ls") auto

lemma byte_is: "0 \<le> k \<Longrightarrow> k < 256 \<Longrightarrow> uint (b :: byte) = k \<longleftrightarrow> b = word_of_int k"
  by (auto simp: uint_word_of_int)

text \<open>Comparing the current character is comparing the first byte of the input.\<close>

lemma current_is:
  "lok ls \<Longrightarrow> 0 \<le> k \<Longrightarrow> k < 256 \<Longrightarrow> current ls = k \<longleftrightarrow> inp ls \<noteq> [] \<and> hd (inp ls) = word_of_int k"
  using inp_Nil [of ls] inp_current [of ls] byte_is [of k] by (cases "inp ls") (auto simp: EOZ_def)

lemma newline_hd:
  "lok ls \<Longrightarrow> currIsNewline ls \<longleftrightarrow> inp ls \<noteq> [] \<and> (hd (inp ls) = 10 \<or> hd (inp ls) = 13)"
  by (auto simp: currIsNewline_def current_is)

lemma currIsNewline_simps [simp]:
  "currIsNewline (ls\<lparr>zin := z\<rparr>) = currIsNewline ls" "currIsNewline (ls\<lparr>buff := b\<rparr>) = currIsNewline ls"
  "currIsNewline (ls\<lparr>linenumber := n\<rparr>) = currIsNewline ls"
  by (simp_all add: currIsNewline_def)

lemma agree_inclinenumber:
  assumes "lok ls \<Longrightarrow> currIsNewline ls" "err \<or> linenumber ls + 1 < int INT_MAX"
    and "\<And>z c. lok (ls\<lparr>zin := z, current := c, linenumber := linenumber ls + 1\<rparr>) \<Longrightarrow>
      inp (ls\<lparr>zin := z, current := c, linenumber := linenumber ls + 1\<rparr>) = skip_newline (inp ls) \<Longrightarrow>
      Q () (ls\<lparr>zin := z, current := c, linenumber := linenumber ls + 1\<rparr>)"
  shows "agree err ls inclinenumber Q"
  unfolding inclinenumber_def
proof (rule agree_lok, intro agree_andThen agree_gets agree_thenDo agree_lnext agree_look agree_modify)
  fix z c
  assume l: "lok ls" and t: "lok (ls\<lparr>zin := z, current := c\<rparr>)" "inp (ls\<lparr>zin := z, current := c\<rparr>) = tl (inp ls)"
  let ?t = "ls\<lparr>zin := z, current := c\<rparr>"
  from assms(1) [OF l] newline_hd [OF l] obtain d ds where d: "inp ls = d # ds" by (cases "inp ls") auto
  let ?P = "\<lambda>(_ :: unit) s. s = ls\<lparr>zin := zin s, current := current s\<rparr> \<and> lok s \<and> inp s = skip_newline (inp ls)"
  have "agree err ?t (when_p (currIsNewline ?t \<and> current ?t \<noteq> current ls) lnext) ?P"
  proof (cases "currIsNewline ?t \<and> current ?t \<noteq> current ls")
    case True
    with newline_hd [OF t(1)] t(2) d obtain e es where e: "ds = e # es" "e = 10 \<or> e = 13"
      by (cases ds) auto
    with True current_hd [OF t(1)] current_hd [OF l] t(2) d have "e \<noteq> d" by auto
    with e d True t show ?thesis
      by (auto simp: when_p_def intro!: agree_lnext)
  next
    case False
    have "skip_newline (inp ls) = ds"
    proof (cases ds)
      case (Cons e es)
      with current_hd [OF t(1)] current_hd [OF l] t(2) d
      have "current ?t \<noteq> current ls \<longleftrightarrow> e \<noteq> d" by (simp add: word_uint_eq_iff)
      moreover have "currIsNewline ?t \<longleftrightarrow> e = 10 \<or> e = 13"
        using newline_hd [OF t(1)] t(2) d Cons by simp
      ultimately show ?thesis using False d Cons by auto
    qed (simp add: d)
    with False t d show ?thesis by (auto simp: when_p_def intro!: agree_ret)
  qed
  then show "agree err ?t (when_p (currIsNewline ?t \<and> current ?t \<noteq> current ls) lnext)
     (\<lambda>_ t. agree err t (thenDo (modify (\<lambda>ls. ls\<lparr>linenumber := linenumber ls + 1\<rparr>))
       (look (\<lambda>ls. when_p (linenumber ls \<ge> int INT_MAX) (lexerror_plain ''chunk has too many lines'')))) Q)"
  proof (rule agree_weaken, intro agree_thenDo agree_modify agree_look)
    fix a s
    assume s: "?P a s"
    then have lin: "linenumber s = linenumber ls" by (metis LexState.ext_inject LexState.surjective LexState.update_convs(1,6))
    have "s\<lparr>linenumber := linenumber s + 1\<rparr> = ls\<lparr>zin := zin s, current := current s, linenumber := linenumber ls + 1\<rparr>"
      unfolding lin using s arg_cong [of s "ls\<lparr>zin := zin s, current := current s\<rparr>" "\<lambda>s. s\<lparr>linenumber := linenumber ls + 1\<rparr>"]
      by simp
    moreover from this s have "lok (ls\<lparr>zin := zin s, current := current s, linenumber := linenumber ls + 1\<rparr>)"
      "inp (ls\<lparr>zin := zin s, current := current s, linenumber := linenumber ls + 1\<rparr>) = skip_newline (inp ls)"
      by (metis lok_simps(1), metis inp_simps(3))
    ultimately show "agree err (s\<lparr>linenumber := linenumber s + 1\<rparr>)
       (when_p (linenumber (s\<lparr>linenumber := linenumber s + 1\<rparr>) \<ge> int INT_MAX)
         (lexerror_plain ''chunk has too many lines'')) Q"
      using assms(2,3) lin by (auto simp: when_p_def intro!: agree_ret agree_lexerror_plain)
  qed auto
qed (use assms(1) newline_hd [of ls] in \<open>auto simp: currIsNewline_def\<close>)

section \<open>The scanner on any input\<close>

text \<open>
  \<open>moved k j ls t\<close>: at least \<open>k\<close> bytes were read since \<open>ls\<close> and at least \<open>j\<close> saved.
\<close>

definition moved :: "nat \<Rightarrow> nat \<Rightarrow> LexState \<Rightarrow> LexState \<Rightarrow> bool" where
  "moved k j ls t \<longleftrightarrow> lok t \<and> length (inp t) + k \<le> length (inp ls) \<and>
     length (buff ls) + j \<le> length (buff t) \<and> fixed t = fixed ls"

named_theorems scan_rules

lemmas [scan_rules] = agree_thenDo agree_andThen agree_look agree_ret agree_gets

lemma scan_next [scan_rules]:
  "(lok ls \<Longrightarrow> inp ls \<noteq> []) \<Longrightarrow> (\<And>t. lok ls \<Longrightarrow> moved 1 0 ls t \<Longrightarrow> Q () t) \<Longrightarrow> agree True ls lnext Q"
  by (rule agree_lok) (auto intro!: agree_lnext simp: moved_def Suc_le_eq)

lemma scan_save [scan_rules]:
  "(\<And>t. lok ls \<Longrightarrow> moved 0 1 ls t \<Longrightarrow> inp t = inp ls \<Longrightarrow> current t = current ls \<Longrightarrow> Q () t) \<Longrightarrow>
   agree True ls (save c) Q"
  by (rule agree_lok) (auto intro!: agree_save simp: moved_def)

lemma scan_save_next [scan_rules]:
  "(lok ls \<Longrightarrow> inp ls \<noteq> []) \<Longrightarrow> (\<And>t. lok ls \<Longrightarrow> moved 1 1 ls t \<Longrightarrow> Q () t) \<Longrightarrow> agree True ls save_and_next Q"
  by (rule agree_lok) (auto intro!: agree_save_next simp: moved_def Suc_le_eq)

lemma scan_inclinenumber [scan_rules]:
  assumes "lok ls \<Longrightarrow> currIsNewline ls" "\<And>t. lok ls \<Longrightarrow> moved 1 0 ls t \<Longrightarrow> Q () t"
  shows "agree True ls inclinenumber Q"
proof (rule agree_lok)
  assume l: "lok ls"
  with assms(1) have "length (skip_newline (inp ls)) < length (inp ls)"
    using newline_hd skip_newline_length by blast
  with assms l show ?thesis
    by (auto intro!: agree_inclinenumber simp: moved_def Suc_le_eq)
qed

lemma scan_error [scan_rules]: "agree True ls (lexerror msg t) Q"
  by (rule agree_lexerror) simp

lemma scan_reset [scan_rules]:
  "(\<And>t. lok ls \<Longrightarrow> lok t \<Longrightarrow> inp t = inp ls \<Longrightarrow> current t = current ls \<Longrightarrow> fixed t = fixed ls \<Longrightarrow> Q () t) \<Longrightarrow>
   agree True ls luaZ_resetbuffer Q"
  by (rule agree_lok) (auto intro!: agree_resetbuffer)

lemma scan_remove [scan_rules]:
  "(lok ls \<Longrightarrow> i \<le> length (buff ls)) \<Longrightarrow>
   (\<And>t. lok ls \<Longrightarrow> lok t \<Longrightarrow> inp t = inp ls \<Longrightarrow> current t = current ls \<Longrightarrow> fixed t = fixed ls \<Longrightarrow>
      length (buff t) + i = length (buff ls) \<Longrightarrow> Q () t) \<Longrightarrow>
   agree True ls (luaZ_buffremove i) Q"
  by (rule agree_lok) (auto intro!: agree_buffremove)

lemma scan_newstring [scan_rules]:
  "(lok ls \<Longrightarrow> 0 \<le> n \<and> int i + n \<le> int (length (buff ls))) \<Longrightarrow>
   (\<And>a t. lok ls \<Longrightarrow> lok t \<Longrightarrow> inp t = inp ls \<Longrightarrow> fixed t = fixed ls \<Longrightarrow> Q a t) \<Longrightarrow>
   agree True ls (luaX_newstring i n) Q"
  by (rule agree_lok) (auto intro!: agree_newstring)

lemma scan_esccheck [scan_rules]:
  "(c \<Longrightarrow> Q () ls) \<Longrightarrow> agree True ls (esccheck c msg) Q"
  unfolding esccheck_def when_p_def
  by (auto intro!: scan_rules simp: inp_Nil)

lemma not_end:
  "lisxdigit (current ls) \<Longrightarrow> inp ls \<noteq> []" "lisdigit (current ls) \<Longrightarrow> inp ls \<noteq> []"
  "lisspace (current ls) \<Longrightarrow> inp ls \<noteq> []" "lislalnum (current ls) \<Longrightarrow> inp ls \<noteq> []"
  "lislalpha (current ls) \<Longrightarrow> inp ls \<noteq> []" "currIsNewline ls \<Longrightarrow> inp ls \<noteq> []"
  "0 \<le> current ls \<Longrightarrow> inp ls \<noteq> []"
  using EOZ_class by (auto simp: inp_Nil currIsNewline_def EOZ_def)

lemma scan_gethexa [scan_rules]:
  "(lok ls \<Longrightarrow> inp ls \<noteq> []) \<Longrightarrow>
   (\<And>a t. lok ls \<Longrightarrow> moved 1 1 ls t \<Longrightarrow> lisxdigit (current t) \<Longrightarrow> Q a t) \<Longrightarrow> agree True ls gethexa Q"
  unfolding gethexa_def
  by (auto intro!: scan_rules)

lemma moved_trans: "moved k j ls t \<Longrightarrow> moved k' j' t u \<Longrightarrow> moved (k + k') (j + j') ls u"
  by (auto simp: moved_def)

lemma scan_readhexaesc [scan_rules]:
  "(lok ls \<Longrightarrow> inp ls \<noteq> []) \<Longrightarrow>
   (\<And>a t. lok ls \<Longrightarrow> moved 2 0 ls t \<Longrightarrow> inp t \<noteq> [] \<Longrightarrow> Q a t) \<Longrightarrow> agree True ls readhexaesc Q"
  unfolding readhexaesc_def
  by (auto intro!: scan_rules dest: not_end simp: moved_def)

text \<open>The loops as programs.\<close>

lemma utf8esc_loop_look:
  "utf8esc_loop i r = thenDo save_and_next (look (\<lambda>ls.
     if lisxdigit (current ls) then
       thenDo (esccheck (push_bit 4 r + luaO_hexavalue (word_of_int (current ls)) \<le> 0x10FFFF) ''UTF-8 value too large'')
         (utf8esc_loop (i + 1) (push_bit 4 r + luaO_hexavalue (word_of_int (current ls))))
     else ret (i, r)))"
  by (rule ext, subst utf8esc_loop.simps)
    (simp add: thenDo_run look_run Let_def split: prod.splits sum.splits)

lemma dec_loop_look:
  "dec_loop i r = look (\<lambda>ls.
     if i < 3 \<and> lisdigit (current ls) then
       thenDo save_and_next (dec_loop (i + 1) (10 * r + current ls - ch CHR ''0''))
     else ret (i, r))"
  by (rule ext, subst dec_loop.simps) (simp add: look_run Let_def)

lemma zap_loop_look:
  "zap_loop = look (\<lambda>ls.
     if lisspace (current ls) then
       if currIsNewline ls then thenDo inclinenumber zap_loop else thenDo lnext zap_loop
     else ret ())"
  by (rule ext, subst zap_loop.simps) (simp add: look_run)

lemma string_loop_look:
  "string_loop del = look (\<lambda>ls.
     if current ls = del then ret ()
     else if current ls = EOZ then lexerror (bytes_of ''unfinished string'') (tk TK_EOS)
     else if currIsNewline ls then lexerror (bytes_of ''unfinished string'') (tk TK_STRING)
     else if current ls = 92 then thenDo escape (string_loop del)
     else thenDo save_and_next (string_loop del))"
  by (rule ext, subst string_loop.simps) (simp add: look_run)

lemma sep_loop_look:
  "sep_loop count = look (\<lambda>ls.
     if current ls = ch CHR ''='' then
       if count = int INT_MAX then stop (Undefined ''count overflows'')
       else thenDo save_and_next (sep_loop (count + 1))
     else ret count)"
  by (rule ext, subst sep_loop.simps) (simp add: look_run)

lemma long_loop_look:
  "long_loop is_str line sep = look (\<lambda>ls.
     if current ls = EOZ then
        lexerror (bytes_of (''unfinished long '' @ (if is_str then ''string'' else ''comment'') @
                    '' (starting at line '') @ lua_integer2str (word_of_int line) @ bytes_of '')'')
          (tk TK_EOS)
     else if current ls = ch CHR '']'' then
       andThen skip_sep (\<lambda>n. if n = sep then save_and_next else long_loop is_str line sep)
     else if currIsNewline ls then
       thenDo (save 10)
       (thenDo inclinenumber
       (thenDo (when_p (\<not> is_str) luaZ_resetbuffer) (long_loop is_str line sep)))
     else if is_str then thenDo save_and_next (long_loop is_str line sep)
     else thenDo lnext (long_loop is_str line sep))"
proof (rule ext)
  have e: "(\<lambda>n ls. if n = sep then save_and_next ls else long_loop is_str line sep ls) =
     (\<lambda>n. if n = sep then save_and_next else long_loop is_str line sep)" by (simp add: fun_eq_iff)
  show "long_loop is_str line sep ls = look (\<lambda>ls.
     if current ls = EOZ then
        lexerror (bytes_of (''unfinished long '' @ (if is_str then ''string'' else ''comment'') @
                    '' (starting at line '') @ lua_integer2str (word_of_int line) @ bytes_of '')'')
          (tk TK_EOS)
     else if current ls = ch CHR '']'' then
       andThen skip_sep (\<lambda>n. if n = sep then save_and_next else long_loop is_str line sep)
     else if currIsNewline ls then
       thenDo (save 10)
       (thenDo inclinenumber
       (thenDo (when_p (\<not> is_str) luaZ_resetbuffer) (long_loop is_str line sep)))
     else if is_str then thenDo save_and_next (long_loop is_str line sep)
     else thenDo lnext (long_loop is_str line sep)) ls" for ls
    by (subst long_loop.simps) (simp add: look_run e)
qed

lemma skip_line_look:
  "skip_line = look (\<lambda>ls. if \<not> currIsNewline ls \<and> current ls \<noteq> EOZ then thenDo lnext skip_line else ret ())"
  by (rule ext, subst skip_line.simps) (simp add: look_run)

lemma name_loop_look:
  "name_loop = thenDo save_and_next (look (\<lambda>ls. if lislalnum (current ls) then name_loop else ret ()))"
  by (rule ext, subst name_loop.simps)
    (simp add: thenDo_run look_run split: prod.splits sum.splits)

lemma numeral_loop_look:
  "numeral_loop expo =
     andThen (check_next2 expo) (\<lambda>e.
     thenDo (if e then check_next2 (CHR ''-'', CHR ''+'') else ret False)
     (look (\<lambda>ls.
        if lisxdigit (current ls) \<or> current ls = ch CHR ''.'' then thenDo save_and_next (numeral_loop expo)
        else ret ())))"
  by (rule ext, subst numeral_loop.simps)
    (auto simp: andThen_run thenDo_run look_run split: prod.splits sum.splits)

lemma llex_loop_look:
  "llex_loop E = look (\<lambda>ls.
     if currIsNewline ls then thenDo inclinenumber (llex_loop E)
     else if current ls \<in> {32, 12, 9, 11} then thenDo lnext (llex_loop E)
     else if current ls = ch CHR ''-'' then
       thenDo lnext (look (\<lambda>ls.
         if current ls \<noteq> ch CHR ''-'' then ret (ch CHR ''-'', None)
         else thenDo lnext (thenDo comment (llex_loop E))))
     else llex_token E)"
  by (rule ext, subst llex_loop.simps)
    (simp add: look_run thenDo_run split: prod.splits sum.splits)

text \<open>Induction on what is left of the input.\<close>

lemma inp_induct:
  assumes "\<And>ls. (\<And>t. length (inp t) < length (inp ls) \<Longrightarrow> P t) \<Longrightarrow> P ls"
  shows "P ls"
  by (induction "length (inp ls)" arbitrary: ls rule: less_induct) (rule assms, blast)

lemma scan_utf8esc_loop:
  assumes "inp ls \<noteq> []"
    and "\<And>i' r' t. moved 1 1 ls t \<Longrightarrow> i \<le> i' \<Longrightarrow> length (buff ls) + 1 + i' \<le> length (buff t) + i \<Longrightarrow>
      Q (i', r') t"
  shows "agree True ls (utf8esc_loop i r) Q"
  using assms
proof (induction ls arbitrary: i r rule: inp_induct)
  case (1 ls)
  show ?case
    unfolding utf8esc_loop_look [of i r]
  proof (rule agree_thenDo, rule scan_save_next)
    fix t
    assume t: "moved 1 1 ls t"
    show "agree True t (look (\<lambda>ls.
       if lisxdigit (current ls) then
         thenDo (esccheck (push_bit 4 r + luaO_hexavalue (word_of_int (current ls)) \<le> 0x10FFFF) ''UTF-8 value too large'')
           (utf8esc_loop (i + 1) (push_bit 4 r + luaO_hexavalue (word_of_int (current ls))))
       else ret (i, r))) Q"
    proof (rule agree_look)
      have rec: "agree True t (utf8esc_loop (i + 1) r') Q" if "lisxdigit (current t)" for r'
        using t that by (intro 1(1) 1(3)) (auto simp: moved_def dest: not_end)
      show "agree True t (if lisxdigit (current t) then
         thenDo (esccheck (push_bit 4 r + luaO_hexavalue (word_of_int (current t)) \<le> 0x10FFFF) ''UTF-8 value too large'')
           (utf8esc_loop (i + 1) (push_bit 4 r + luaO_hexavalue (word_of_int (current t))))
         else ret (i, r)) Q"
        using rec 1(3) [OF t] t by (auto intro!: scan_rules simp: moved_def)
    qed simp
  qed (use 1(2) in simp)
qed

lemma scan_readutf8esc [scan_rules]:
  assumes "lok ls \<Longrightarrow> inp ls \<noteq> [] \<and> 1 \<le> length (buff ls)"
    and "\<And>r t. lok ls \<Longrightarrow> lok t \<Longrightarrow> length (inp t) \<le> length (inp ls) \<Longrightarrow> fixed t = fixed ls \<Longrightarrow>
      length (buff ls) \<le> length (buff t) + 1 \<Longrightarrow> Q r t"
  shows "agree True ls readutf8esc Q"
  unfolding readutf8esc_def
  using assms
  by (auto intro!: scan_rules scan_utf8esc_loop dest: not_end simp: moved_def current_is)

lemma scan_save_all [scan_rules]:
  assumes "\<And>t. lok ls \<Longrightarrow> moved 0 0 ls t \<Longrightarrow> inp t = inp ls \<Longrightarrow> current t = current ls \<Longrightarrow> Q () t"
  shows "agree True ls (save_all bs) Q"
  using assms
proof (induction bs arbitrary: ls)
  case Nil
  show ?case by (rule agree_lok) (use Nil in \<open>simp add: agree_ret moved_def\<close>)
next
  case (Cons b bs)
  then show ?case
    by (auto intro!: agree_thenDo scan_save Cons.IH simp: moved_def)
qed

lemma scan_utf8esc [scan_rules]:
  assumes "lok ls \<Longrightarrow> inp ls \<noteq> [] \<and> 1 \<le> length (buff ls)"
    and "\<And>t. lok ls \<Longrightarrow> lok t \<Longrightarrow> length (inp t) \<le> length (inp ls) \<Longrightarrow> fixed t = fixed ls \<Longrightarrow>
      length (buff ls) \<le> length (buff t) + 1 \<Longrightarrow> Q () t"
  shows "agree True ls utf8esc Q"
  unfolding utf8esc_def
  using assms by (auto intro!: scan_rules simp: moved_def)

lemma scan_dec_loop:
  assumes "\<And>i' r' t. lok ls \<Longrightarrow> moved 0 0 ls t \<Longrightarrow> i \<le> i' \<Longrightarrow> length (buff ls) + i' \<le> length (buff t) + i \<Longrightarrow>
      Q (i', r') t"
  shows "agree True ls (dec_loop i r) Q"
  using assms
proof (induction ls arbitrary: i r rule: inp_induct)
  case (1 ls)
  show ?case
    unfolding dec_loop_look [of i r]
  proof (rule agree_lok, rule agree_look)
    assume l: "lok ls"
    have "agree True t (dec_loop (i + 1) r') Q" if "moved 1 1 ls t" for t r'
      using that by (intro 1(1) 1(2) l) (auto simp: moved_def)
    with 1(2) l show "agree True ls (if i < 3 \<and> lisdigit (current ls) then
       thenDo save_and_next (dec_loop (i + 1) (10 * r + current ls - ch CHR ''0'')) else ret (i, r)) Q"
      by (auto intro!: scan_rules dest: not_end simp: moved_def)
  qed simp
qed

lemma scan_readdecesc [scan_rules]:
  assumes "\<And>r t. lok ls \<Longrightarrow> lok t \<Longrightarrow> length (inp t) \<le> length (inp ls) \<Longrightarrow> fixed t = fixed ls \<Longrightarrow>
      length (buff ls) \<le> length (buff t) \<Longrightarrow> Q r t"
  shows "agree True ls readdecesc Q"
  unfolding readdecesc_def
  using assms by (auto intro!: scan_rules scan_dec_loop simp: moved_def)

lemma scan_zap_loop [scan_rules]:
  assumes "\<And>t. lok ls \<Longrightarrow> moved 0 0 ls t \<Longrightarrow> Q () t"
  shows "agree True ls zap_loop Q"
  using assms
proof (induction ls rule: inp_induct)
  case (1 ls)
  show ?case
  proof (subst zap_loop_look, rule agree_lok, rule agree_look)
    assume l: "lok ls"
    have "agree True t zap_loop Q" if "moved 1 0 ls t" for t
      using that by (intro 1(1) 1(2) l) (auto simp: moved_def)
    with 1(2) l show "agree True ls (if lisspace (current ls) then
       if currIsNewline ls then thenDo inclinenumber zap_loop else thenDo lnext zap_loop
       else ret ()) Q"
      by (auto intro!: scan_rules dest: not_end simp: moved_def)
  qed (simp add: currIsNewline_def)
qed

lemma scan_only_save [scan_rules]:
  assumes "lok ls \<Longrightarrow> 1 \<le> length (buff ls)"
    and "\<And>t. lok ls \<Longrightarrow> lok t \<Longrightarrow> inp t = inp ls \<Longrightarrow> fixed t = fixed ls \<Longrightarrow>
      length (buff ls) \<le> length (buff t) \<Longrightarrow> Q () t"
  shows "agree True ls (only_save c) Q"
  unfolding only_save_def using assms by (auto intro!: scan_rules simp: moved_def)

lemma scan_read_save [scan_rules]:
  assumes "lok ls \<Longrightarrow> inp ls \<noteq> [] \<and> 1 \<le> length (buff ls)"
    and "\<And>t. lok ls \<Longrightarrow> lok t \<Longrightarrow> length (inp t) < length (inp ls) \<Longrightarrow> fixed t = fixed ls \<Longrightarrow>
      length (buff ls) \<le> length (buff t) \<Longrightarrow> Q () t"
  shows "agree True ls (read_save c) Q"
  unfolding read_save_def using assms by (auto intro!: scan_rules simp: moved_def)

lemma scan_escape_case:
  assumes "1 \<le> length (buff ls)"
    and "\<And>t. lok ls \<Longrightarrow> lok t \<Longrightarrow> length (inp t) \<le> length (inp ls) \<Longrightarrow> fixed t = fixed ls \<Longrightarrow>
      length (buff ls) \<le> length (buff t) + 1 \<Longrightarrow> Q () t"
  shows "agree True ls escape_case Q"
  unfolding escape_case_def Let_def
proof (rule agree_lok, rule agree_look)
  assume l: "lok ls"
  have c: "current ls \<noteq> EOZ \<Longrightarrow> inp ls \<noteq> []" by (simp add: inp_Nil)
  have q: "Q () t" if "lok t" "length (inp t) \<le> length (inp ls)" "fixed t = fixed ls"
    "length (buff ls) \<le> length (buff t) + 1" for t
    using assms(2) [OF l that] .
  show "agree True ls
    (if current ls = ch CHR ''a'' then read_save 7
       else if current ls = ch CHR ''b'' then read_save 8
       else if current ls = ch CHR ''f'' then read_save 12
       else if current ls = ch CHR ''n'' then read_save 10
       else if current ls = ch CHR ''r'' then read_save 13
       else if current ls = ch CHR ''t'' then read_save 9
       else if current ls = ch CHR ''v'' then read_save 11
       else if current ls = ch CHR ''x'' then andThen readhexaesc read_save
       else if current ls = ch CHR ''u'' then utf8esc
       else if currIsNewline ls then thenDo inclinenumber (only_save 10)
       else if current ls = 92 \<or> current ls = 34 \<or> current ls = 39 then read_save (current ls)
       else if current ls = EOZ then ret ()
       else if current ls = ch CHR ''z'' then thenDo (luaZ_buffremove 1) (thenDo lnext zap_loop)
       else
         thenDo (esccheck (lisdigit (current ls)) ''invalid escape sequence'')
         (andThen readdecesc only_save)) Q"
    using assms(1) c q l by (auto intro!: scan_rules simp: moved_def EOZ_def)
qed (simp add: currIsNewline_def)

lemma scan_escape [scan_rules]:
  assumes "lok ls \<Longrightarrow> inp ls \<noteq> []"
    and "\<And>t. lok ls \<Longrightarrow> moved 1 0 ls t \<Longrightarrow> Q () t"
  shows "agree True ls escape Q"
  unfolding escape_def
  using assms by (auto intro!: scan_rules scan_escape_case simp: moved_def)

lemma scan_string_loop:
  assumes "\<And>t. lok ls \<Longrightarrow> moved 0 0 ls t \<Longrightarrow> current t = del \<Longrightarrow> Q () t"
  shows "agree True ls (string_loop del) Q"
  using assms
proof (induction ls rule: inp_induct)
  case (1 ls)
  show ?case
  proof (subst string_loop_look, rule agree_lok, rule agree_look)
    assume l: "lok ls"
    have "agree True t (string_loop del) Q" if "moved 1 0 ls t" for t
      using that by (intro 1(1) 1(2) l) (auto simp: moved_def)
    with 1(2) l show "agree True ls (if current ls = del then ret ()
     else if current ls = EOZ then lexerror (bytes_of ''unfinished string'') (tk TK_EOS)
     else if currIsNewline ls then lexerror (bytes_of ''unfinished string'') (tk TK_STRING)
     else if current ls = 92 then thenDo escape (string_loop del)
     else thenDo save_and_next (string_loop del)) Q"
      by (auto intro!: scan_rules dest: not_end simp: moved_def inp_Nil)
  qed (simp add: currIsNewline_def)
qed

lemma scan_read_string [scan_rules]:
  assumes "lok ls \<Longrightarrow> inp ls \<noteq> []" "0 \<le> del"
    and "\<And>s t. lok ls \<Longrightarrow> lok t \<Longrightarrow> length (inp t) < length (inp ls) \<Longrightarrow> fixed t = fixed ls \<Longrightarrow> Q s t"
  shows "agree True ls (read_string del) Q"
  unfolding read_string_def
  using assms by (auto intro!: scan_rules scan_string_loop dest: not_end simp: moved_def)

lemma scan_sep_loop:
  assumes "0 \<le> n" "n + int (length (inp ls)) \<le> int INT_MAX"
    and "\<And>k t. lok ls \<Longrightarrow> n \<le> k \<Longrightarrow> moved (nat (k - n)) (nat (k - n)) ls t \<Longrightarrow> Q k t"
  shows "agree True ls (sep_loop n) Q"
  using assms
proof (induction ls arbitrary: n rule: inp_induct)
  case (1 ls)
  show ?case
    unfolding sep_loop_look [of n]
  proof (rule agree_lok, rule agree_look)
    assume l: "lok ls"
    have rec: "agree True t (sep_loop (n + 1)) Q" if "moved 1 1 ls t" for t
      using that 1(2,3) by (intro 1(1) 1(4) l) (auto simp: moved_def)
    have "n \<noteq> int INT_MAX" if "inp ls \<noteq> []"
      using 1(3) that by (cases "inp ls") auto
    with rec 1(4) [OF l, of n ls] l show "agree True ls (if current ls = ch CHR ''='' then
       if n = int INT_MAX then stop (Undefined ''count overflows'')
       else thenDo save_and_next (sep_loop (n + 1))
     else ret n) Q"
      by (auto intro!: scan_rules simp: moved_def current_is)
  qed simp
qed

lemma scan_skip_sep [scan_rules]:
  assumes "lok ls \<Longrightarrow> inp ls \<noteq> [] \<and> 0 \<le> current ls \<and> length (inp ls) \<le> INT_MAX"
    and "\<And>n t. lok ls \<Longrightarrow> moved 1 0 ls t \<Longrightarrow>
      (0 \<le> n \<longrightarrow> inp t \<noteq> [] \<and> length (buff ls) + 1 + nat n \<le> length (buff t)) \<Longrightarrow> Q n t"
  shows "agree True ls skip_sep Q"
  unfolding skip_sep_def Let_def
  using assms(1)
  by (auto intro!: scan_rules scan_sep_loop assms(2) simp: moved_def inp_Nil EOZ_def)

lemma scan_long_loop:
  assumes "0 \<le> sep" "length (inp ls) \<le> INT_MAX"
    and "\<And>t. lok ls \<Longrightarrow> lok t \<Longrightarrow> length (inp t) \<le> length (inp ls) \<Longrightarrow> fixed t = fixed ls \<Longrightarrow>
      (is_str \<longrightarrow> length (buff ls) + 2 + nat sep \<le> length (buff t)) \<Longrightarrow> Q () t"
  shows "agree True ls (long_loop is_str line sep) Q"
  using assms
proof (induction ls rule: inp_induct)
  case (1 ls)
  show ?case
  proof (subst long_loop_look, rule agree_lok, rule agree_look)
    assume l: "lok ls"
    have rec: "agree True t (long_loop is_str line sep) Q"
      if "lok t" "length (inp t) < length (inp ls)" "fixed t = fixed ls"
        "is_str \<longrightarrow> length (buff ls) \<le> length (buff t)" for t
      using that 1(3) by (intro 1(1) 1(2) 1(4) l) auto
    show "agree True ls (if current ls = EOZ then
        lexerror (bytes_of (''unfinished long '' @ (if is_str then ''string'' else ''comment'') @
                    '' (starting at line '') @ lua_integer2str (word_of_int line) @ bytes_of '')'')
          (tk TK_EOS)
     else if current ls = ch CHR '']'' then
       andThen skip_sep (\<lambda>n. if n = sep then save_and_next else long_loop is_str line sep)
     else if currIsNewline ls then
       thenDo (save 10)
       (thenDo inclinenumber
       (thenDo (when_p (\<not> is_str) luaZ_resetbuffer) (long_loop is_str line sep)))
     else if is_str then thenDo save_and_next (long_loop is_str line sep)
     else thenDo lnext (long_loop is_str line sep)) Q"
      using l 1(2,3) 1(4) [OF l] rec
      by (auto intro!: scan_rules simp: moved_def when_p_def inp_Nil currIsNewline_def)
  qed (simp add: currIsNewline_def)
qed

lemma scan_read_long_string [scan_rules]:
  assumes "lok ls \<Longrightarrow> inp ls \<noteq> [] \<and> length (inp ls) \<le> INT_MAX \<and>
      (is_str \<longrightarrow> 1 + nat sep \<le> length (buff ls))" "0 \<le> sep"
    and "\<And>s t. lok ls \<Longrightarrow> lok t \<Longrightarrow> length (inp t) < length (inp ls) \<Longrightarrow> fixed t = fixed ls \<Longrightarrow> Q s t"
  shows "agree True ls (read_long_string is_str sep) Q"
proof -
  from assms(2) obtain k where "sep = int k" by (rule nonneg_int_cases)
  then show ?thesis
    unfolding read_long_string_def Let_def
    using assms by (auto intro!: scan_rules scan_long_loop simp: moved_def when_p_def currIsNewline_def)
qed

lemma scan_skip_line [scan_rules]:
  assumes "\<And>t. lok ls \<Longrightarrow> lok t \<Longrightarrow> length (inp t) \<le> length (inp ls) \<Longrightarrow> fixed t = fixed ls \<Longrightarrow> Q () t"
  shows "agree True ls skip_line Q"
  using assms
proof (induction ls rule: inp_induct)
  case (1 ls)
  show ?case
  proof (subst skip_line_look, rule agree_lok, rule agree_look)
    assume l: "lok ls"
    have "agree True t skip_line Q" if "moved 1 0 ls t" for t
      using that by (intro 1(1) 1(2) l) (auto simp: moved_def)
    with 1(2) l show "agree True ls
       (if \<not> currIsNewline ls \<and> current ls \<noteq> EOZ then thenDo lnext skip_line else ret ()) Q"
      by (auto intro!: scan_rules simp: inp_Nil)
  qed (simp add: currIsNewline_def)
qed

lemma scan_comment [scan_rules]:
  assumes "lok ls \<Longrightarrow> length (inp ls) \<le> INT_MAX"
    and "\<And>t. lok ls \<Longrightarrow> lok t \<Longrightarrow> length (inp t) \<le> length (inp ls) \<Longrightarrow> fixed t = fixed ls \<Longrightarrow> Q () t"
  shows "agree True ls comment Q"
  unfolding comment_def
  using assms by (auto intro!: scan_rules simp: moved_def inp_Nil EOZ_def)

lemma scan_name_loop:
  assumes "lok ls \<Longrightarrow> inp ls \<noteq> []" "\<And>t. lok ls \<Longrightarrow> moved 1 1 ls t \<Longrightarrow> Q () t"
  shows "agree True ls name_loop Q"
  using assms
proof (induction ls rule: inp_induct)
  case (1 ls)
  show ?case
  proof (subst name_loop_look, rule agree_thenDo, rule scan_save_next, rule 1(2), assumption, rule agree_look)
    fix t
    assume l: "lok ls" and t: "moved 1 1 ls t"
    have "agree True t name_loop Q" if "inp t \<noteq> []"
      using t that by (intro 1(1) 1(3) l) (auto simp: moved_def)
    with 1(3) [OF l t] show "agree True t (if lislalnum (current t) then name_loop else ret ()) Q"
      by (auto intro!: scan_rules dest: not_end)
  qed simp
qed

lemma ch_bounds: "0 \<le> ch c" "ch c < 256"
  using pos_mod_bound [of 256 "ch c"] pos_mod_sign [of 256 "ch c"] unfolding of_char_mod_256 by simp_all

lemma scan_check_next1 [scan_rules]:
  assumes "0 \<le> c"
    and "\<And>b t. lok ls \<Longrightarrow> moved 0 0 ls t \<Longrightarrow> Q b t"
  shows "agree True ls (check_next1 c) Q"
  unfolding check_next1_def
proof (rule agree_lok, rule agree_look)
  assume l: "lok ls"
  have "Q b t" if "moved 1 0 ls t" for b t using that by (intro assms(2) l) (simp add: moved_def)
  moreover have "Q False ls" using l by (intro assms(2)) (simp_all add: moved_def)
  ultimately show "agree True ls (if current ls = c then thenDo lnext (ret True) else ret False) Q"
    using assms(1) by (auto intro!: scan_rules dest: not_end)
qed simp

lemma scan_check_next2 [scan_rules]:
  assumes "\<And>b t. lok ls \<Longrightarrow> moved 0 0 ls t \<Longrightarrow> Q b t"
  shows "agree True ls (check_next2 cs) Q"
  unfolding check_next2_def
proof (rule agree_lok, rule agree_look)
  assume l: "lok ls"
  have "Q b t" if "moved 1 1 ls t" for b t using that by (intro assms(1) l) (simp add: moved_def)
  moreover have "Q False ls" using l by (intro assms(1)) (simp_all add: moved_def)
  moreover have "current ls = ch d \<Longrightarrow> inp ls \<noteq> []" for d
    using ch_bounds(1) [of d] not_end(7) [of ls] by simp
  ultimately show "agree True ls (if current ls = ch (fst cs) \<or> current ls = ch (snd cs)
      then thenDo save_and_next (ret True) else ret False) Q"
    by (auto intro!: scan_rules)
qed simp

lemma scan_numeral_loop:
  assumes "\<And>t. lok ls \<Longrightarrow> moved 0 0 ls t \<Longrightarrow> Q () t"
  shows "agree True ls (numeral_loop expo) Q"
  using assms
proof (induction ls rule: inp_induct)
  case (1 ls)
  show ?case
  proof (subst numeral_loop_look, rule agree_lok, intro agree_andThen scan_check_next2 agree_thenDo)
    fix e t
    assume l: "lok ls" and t: "moved 0 0 ls t"
    have body: "agree True u (look (\<lambda>ls. if lisxdigit (current ls) \<or> current ls = ch CHR ''.''
        then thenDo save_and_next (numeral_loop expo) else ret ())) Q" if u: "moved 0 0 ls u" for u
    proof (rule agree_look)
      have "agree True v (numeral_loop expo) Q" if "moved 1 1 ls v" for v
        using that by (intro 1(1) 1(2) l) (auto simp: moved_def)
      then show "agree True u (if lisxdigit (current u) \<or> current u = ch CHR ''.''
          then thenDo save_and_next (numeral_loop expo) else ret ()) Q"
        using 1(2) [OF l u] u by (auto intro!: scan_rules dest: not_end simp: moved_def inp_Nil EOZ_def)
    qed simp
    show "agree True t (if e then check_next2 (CHR ''-'', CHR ''+'') else ret False) (\<lambda>_ t.
       agree True t (look (\<lambda>ls. if lisxdigit (current ls) \<or> current ls = ch CHR ''.''
        then thenDo save_and_next (numeral_loop expo) else ret ())) Q)"
    proof (cases e)
      case True
      then show ?thesis using t by (simp only: if_True) (rule scan_check_next2, rule body, simp add: moved_def)
    next
      case False
      then show ?thesis by (simp only: if_False) (rule agree_ret, rule body, rule t)
    qed
  qed
qed

lemma scan_buffreplace [scan_rules]:
  assumes "\<And>t. lok ls \<Longrightarrow> moved 0 0 ls t \<Longrightarrow> inp t = inp ls \<Longrightarrow> Q () t"
  shows "agree True ls (buffreplace c d) Q"
  unfolding buffreplace_def when_p_def
  by (rule agree_lok) (auto intro!: agree_modify agree_ret assms simp: moved_def lok_buff)

lemma scan_trydecpoint [scan_rules]:
  assumes "\<And>a t. lok ls \<Longrightarrow> moved 0 0 ls t \<Longrightarrow> Q a t"
  shows "agree True ls (trydecpoint E) Q"
proof (rule agree_lok)
  assume l: "lok ls"
  have "agree True t (look (\<lambda>ls. case luaO_str2num E (buff ls) of
        None \<Rightarrow> thenDo (buffreplace (decpoint ls) 46) (lexerror (bytes_of ''malformed number'') (tk TK_FLT))
      | Some obj \<Rightarrow> ret obj)) Q" if "moved 0 0 ls t" for t
    using assms [OF l that]
    by (cases "luaO_str2num E (buff t)") (auto intro!: scan_rules)
  then show ?thesis
    unfolding trydecpoint_def
    using l by (auto intro!: agree_andThen agree_gets agree_thenDo agree_modify agree_look [of "\<lambda>ls. buffreplace _ (decpoint ls)"]
        scan_buffreplace simp: moved_def)
qed

lemma scan_read_numeral [scan_rules]:
  assumes "lok ls \<Longrightarrow> inp ls \<noteq> []"
    and "\<And>n s t. lok ls \<Longrightarrow> lok t \<Longrightarrow> length (inp t) < length (inp ls) \<Longrightarrow> fixed t = fixed ls \<Longrightarrow>
      n \<in> {tk TK_INT, tk TK_FLT} \<Longrightarrow> Q (n, s) t"
  shows "agree True ls (read_numeral E) Q"
proof (rule agree_lok)
  assume l: "lok ls"
  have num: "agree True t (look (\<lambda>ls. case luaO_str2num E (buff ls) of
      Some obj \<Rightarrow> ret obj | None \<Rightarrow> trydecpoint E))
     (\<lambda>obj t. agree True t (ret (case obj of Sem_i i \<Rightarrow> tk TK_INT | _ \<Rightarrow> tk TK_FLT, obj)) Q)"
    if "moved 1 0 ls t" for t
    using assms(2) [OF l] that
    by (cases "luaO_str2num E (buff t)") (auto intro!: scan_rules simp: moved_def split: SemInfo.split)
  show ?thesis
    unfolding read_numeral_def Let_def
  proof (rule agree_look)
    show "agree True ls (thenDo save_and_next
     (andThen (if current ls = ch CHR ''0'' then check_next2 (CHR ''x'', CHR ''X'') else ret False) (\<lambda>hex.
     thenDo (numeral_loop (if hex then (CHR ''P'', CHR ''p'') else (CHR ''E'', CHR ''e'')))
     (thenDo (save 0)
     (thenDo (look (\<lambda>ls. buffreplace 46 (decpoint ls)))
     (andThen (look (\<lambda>ls. case luaO_str2num E (buff ls) of Some obj \<Rightarrow> ret obj | None \<Rightarrow> trydecpoint E))
     (\<lambda>obj. ret (case obj of Sem_i i \<Rightarrow> tk TK_INT | _ \<Rightarrow> tk TK_FLT, obj)))))))) Q"
      using assms(1) l
      by (auto intro!: agree_andThen agree_thenDo agree_look [of "\<lambda>ls. buffreplace _ (decpoint ls)"]
          scan_save_next scan_check_next2 agree_ret scan_numeral_loop scan_save scan_buffreplace num
          simp: moved_def)
  qed simp
qed

lemma extra_bound: "extra_of ts \<le> NUM_RESERVED"
proof -
  have "n \<le> NUM_RESERVED" if "(b, n) \<in> set luaX_init" for b n
    using that by (auto simp: luaX_init_def)
  then show ?thesis by (auto simp: extra_of_def dest: map_of_SomeD split: option.split)
qed

lemma NUM_RESERVED_val: "NUM_RESERVED = 22"
  by (simp add: NUM_RESERVED_def FIRST_RESERVED_def)

text \<open>A token other than the end of the stream was read.\<close>

definition read_token :: "LexState \<Rightarrow> int \<Rightarrow> LexState \<Rightarrow> bool" where
  "read_token ls n t \<longleftrightarrow>
     lok t \<and> fixed t = fixed ls \<and> n \<noteq> tk TK_EOS \<and> length (inp t) < length (inp ls)"

lemma scan_operator_alts:
  assumes "\<And>d r. (d, r) \<in> set alts \<Longrightarrow> 0 \<le> d \<and> r \<noteq> TK_EOS" "c < 256"
    and "\<And>n t. lok ls \<Longrightarrow> moved 0 0 ls t \<Longrightarrow> n \<noteq> tk TK_EOS \<Longrightarrow> Q (n, None) t"
  shows "agree True ls
     (foldr (\<lambda>(d, t) other. andThen (check_next1 d) (\<lambda>b. if b then ret (tk t, None) else other))
        alts (ret (c, None))) Q"
  using assms
proof (induction alts arbitrary: ls)
  case Nil
  show ?case by (rule agree_lok) (use Nil in \<open>auto intro!: agree_ret simp: moved_def\<close>)
next
  case (Cons x alts)
  obtain d r where x: "x = (d, r)" by fastforce
  have r: "0 \<le> d" "r \<noteq> TK_EOS" using Cons.prems(1) [of d r] x by auto
  then have "tk r \<noteq> tk TK_EOS" by (cases r) simp_all
  then have "agree True t (if b then ret (tk r, None) else
     foldr (\<lambda>(d, t) other. andThen (check_next1 d) (\<lambda>b. if b then ret (tk t, None) else other))
        alts (ret (c, None))) Q" if "lok ls" "moved 0 0 ls t" for b t
    using that Cons.prems by (auto intro!: agree_ret Cons.IH simp: moved_def)
  with r(1) show ?case
    unfolding x by (auto intro!: agree_andThen scan_check_next1)
qed

lemma scan_operator [scan_rules]:
  assumes "lok ls \<Longrightarrow> inp ls \<noteq> []" "\<And>d r. (d, r) \<in> set alts \<Longrightarrow> 0 \<le> d \<and> r \<noteq> TK_EOS" "c < 256"
    and "\<And>n t. lok ls \<Longrightarrow> read_token ls n t \<Longrightarrow> Q (n, None) t"
  shows "agree True ls (llex_operator c alts) Q"
  unfolding llex_operator_def
  using assms(1,2,3)
  by (auto intro!: agree_thenDo scan_next scan_operator_alts assms(4) simp: moved_def read_token_def)

lemma scan_llex_numeral [scan_rules]:
  assumes "lok ls \<Longrightarrow> inp ls \<noteq> []" "\<And>n s t. lok ls \<Longrightarrow> read_token ls n t \<Longrightarrow> Q (n, s) t"
  shows "agree True ls (llex_numeral E) Q"
  unfolding llex_numeral_def
  using assms by (auto intro!: agree_andThen scan_read_numeral agree_ret simp: read_token_def)

lemma scan_llex_name [scan_rules]:
  assumes "lok ls \<Longrightarrow> inp ls \<noteq> []" "\<And>n s t. lok ls \<Longrightarrow> read_token ls n t \<Longrightarrow> Q (n, s) t"
  shows "agree True ls llex_name Q"
proof -
  have "int (extra_of ts) - 1 + FIRST_RESERVED \<noteq> tk TK_EOS" for ts
    using extra_bound [of ts] by (simp add: NUM_RESERVED_val FIRST_RESERVED_def)
  then show ?thesis
    unfolding llex_name_def
    using assms(1)
    by (auto intro!: agree_thenDo scan_name_loop agree_look agree_andThen scan_newstring agree_ret assms(2)
        simp: moved_def read_token_def)
qed

lemma scan_llex_token:
  assumes "inp ls \<noteq> []" "length (inp ls) \<le> INT_MAX"
    and "\<And>n s t. read_token ls n t \<Longrightarrow> Q (n, s) t"
  shows "agree True ls (llex_token E) Q"
  unfolding llex_token_def Let_def
proof (rule agree_lok, rule agree_look, goal_cases)
  case 2
  have c: "current ls = uint (hd (inp ls))" using 2 assms(1) by (simp add: current_hd)
  then have b: "0 \<le> current ls" "current ls < 256" using uint_EOZ(2) [of "hd (inp ls)"] by simp_all
  then have e: "current ls \<noteq> EOZ" "current ls \<noteq> tk TK_EOS" by (simp_all add: EOZ_def)
  have step: "agree True ls (thenDo lnext (ret (current ls, None))) Q"
    using assms(1) e b by (auto intro!: scan_rules assms(3) simp: moved_def read_token_def)
  have sep: "agree True ls (andThen skip_sep (\<lambda>sep.
         if sep \<ge> 0 then
           andThen (read_long_string True sep) (\<lambda>s. ret (tk TK_STRING, map_option Sem_ts s))
         else if sep \<noteq> - 1 then lexerror (bytes_of ''invalid long string delimiter'') (tk TK_STRING)
         else ret (current ls, None))) Q"
    using assms(1,2) e b
    by (auto intro!: scan_rules assms(3) simp: moved_def read_token_def)
  have str: "agree True ls (andThen (read_string (current ls)) (\<lambda>s. ret (tk TK_STRING, Some (Sem_ts s)))) Q"
    using assms(1) b by (auto intro!: scan_rules assms(3) simp: read_token_def)
  have num: "agree True t (llex_numeral E) Q" if "lok t" "length (inp t) < length (inp ls)" "fixed t = fixed ls"
    "lisdigit (current t)" for t
    using that not_end(2) by (auto intro!: scan_llex_numeral assms(3) simp: read_token_def)
  have dot: "agree True ls (thenDo save_and_next
       (andThen (check_next1 (ch CHR ''.'')) (\<lambda>two.
          if two then
            andThen (check_next1 (ch CHR ''.'')) (\<lambda>three.
              ret (if three then tk TK_DOTS else tk TK_CONCAT, None))
          else look (\<lambda>ls'. if \<not> lisdigit (current ls') then ret (current ls, None) else llex_numeral E)))) Q"
    using assms(1) e b
    by (auto intro!: agree_thenDo agree_andThen agree_look scan_save_next scan_check_next1 agree_ret num assms(3)
        simp: moved_def read_token_def)
  show ?case
    using step sep str dot e b assms(1)
    by (auto intro!: scan_operator scan_llex_numeral scan_llex_name assms(3))
qed (simp cong: if_cong)

lemma scan_llex_end:
  assumes "current ls = EOZ" "Q (tk TK_EOS, None) ls"
  shows "agree True ls (llex_token E) Q"
  unfolding llex_token_def
  using assms by (intro agree_look) (auto simp: EOZ_def intro!: agree_ret)

lemma scan_llex_loop:
  assumes "length (inp ls) \<le> INT_MAX"
    and "\<And>n s t. lok ls \<Longrightarrow> read_token ls n t \<or> n = tk TK_EOS \<and> lok t \<and> inp t = [] \<and> fixed t = fixed ls \<Longrightarrow>
      Q (n, s) t"
  shows "agree True ls (llex_loop E) Q"
  using assms
proof (induction ls rule: inp_induct)
  case (1 ls)
  show ?case
  proof (subst llex_loop_look, rule agree_lok, rule agree_look, goal_cases)
    case 2
    have rec: "agree True t (llex_loop E) Q"
      if "lok t" "length (inp t) < length (inp ls)" "fixed t = fixed ls" for t
      using that 1(2) 2 by (intro 1(1) 1(3)) (auto simp: read_token_def)
    have tok: "agree True ls (llex_token E) Q"
    proof (cases "inp ls = []")
      case True
      then show ?thesis using 2 1(3) by (auto intro!: scan_llex_end simp: inp_Nil)
    next
      case False
      then show ?thesis using 1(2,3) 2 by (auto intro!: scan_llex_token)
    qed
    have minus: "Q (ch CHR ''-'', None) t" if "moved 1 0 ls t" for t
      using that 2 by (intro 1(3)) (auto simp: moved_def read_token_def)
    show ?case
      using tok rec minus 1(2)
      by (auto intro!: scan_next scan_inclinenumber agree_thenDo agree_look agree_ret scan_comment
          simp: moved_def inp_Nil EOZ_def)
  qed (simp add: currIsNewline_def)
qed

lemma scan_llex:
  assumes "length (inp ls) \<le> INT_MAX"
    and "\<And>n s t. lok ls \<Longrightarrow> read_token ls n t \<or> n = tk TK_EOS \<and> lok t \<and> inp t = [] \<and> fixed t = fixed ls \<Longrightarrow>
      Q (n, s) t"
  shows "agree True ls (llex E) Q"
  unfolding llex_def
  using assms by (auto intro!: agree_thenDo scan_reset scan_llex_loop simp: read_token_def)

lemma scan_luaX_next:
  assumes "token (lookahead ls) = tk TK_EOS" "length (inp ls) \<le> INT_MAX"
    and "\<And>t. lok ls \<Longrightarrow> lok t \<Longrightarrow> lookahead t = lookahead ls \<Longrightarrow>
      length (inp t) < length (inp ls) \<or> token (tok t) = tk TK_EOS \<and> inp t = [] \<Longrightarrow> Q () t"
  shows "agree True ls (luaX_next E) Q"
  unfolding luaX_next_def llex_into_def
proof (rule agree_lok, intro agree_thenDo agree_modify agree_look, goal_cases)
  case 6
  let ?ls = "ls\<lparr>lastline := linenumber ls\<rparr>"
  have "agree True ?ls (llex E) (\<lambda>a t. agree True t (case a of (n, s) \<Rightarrow>
      ret \<lparr>token = n, seminfo = (case s of None \<Rightarrow> seminfo (tok ?ls) | Some v \<Rightarrow> v)\<rparr>)
     (\<lambda>a t. agree True t (modify (\<lambda>ls. ls\<lparr>tok := a\<rparr>)) Q))"
    using assms(2) 6
    by (auto intro!: scan_llex agree_ret agree_modify assms(3) simp: read_token_def fixed_def)
  then show ?case using assms(1) by (auto intro!: agree_andThen)
qed (simp_all cong: if_cong option.case_cong)

section \<open>A whole chunk\<close>

text \<open>The first tokens of the input, and the scanner that \<open>f_parser\<close> opens on a reader.\<close>

primrec lex_tokens :: "lex_env \<Rightarrow> nat \<Rightarrow> Token list lexer" where
  "lex_tokens E 0 = ret []"
| "lex_tokens E (Suc n) =
     thenDo (luaX_next E)
     (andThen (gets tok) (\<lambda>t. andThen (lex_tokens E n) (\<lambda>ts. ret (t # ts))))"

definition lex_open :: "bytes list \<Rightarrow> bytes \<Rightarrow> SemInfo \<Rightarrow> LexState" where
  "lex_open bs source sem =
     (case zgetc (luaZ_init bs) of
        (Inr c, z) \<Rightarrow> luaX_setinput z source c sem
      | (Inl e, z) \<Rightarrow> luaX_setinput z source EOZ sem)"

lemma agree_lex_tokens:
  assumes "token (lookahead ls) = tk TK_EOS" "length (inp ls) \<le> INT_MAX"
  shows "agree True ls (lex_tokens E n) (\<lambda>ts t. length ts = n \<and>
     (length (inp ls) < n \<longrightarrow> token (last ts) = tk TK_EOS))"
  using assms
proof (induction n arbitrary: ls)
  case (Suc n)
  show ?case
    unfolding lex_tokens.simps
  proof (intro agree_thenDo scan_luaX_next Suc.prems agree_andThen agree_gets, goal_cases)
    case (2 t)
    then have "agree True t (lex_tokens E n) (\<lambda>ts u. length ts = n \<and>
        (length (inp t) < n \<longrightarrow> token (last ts) = tk TK_EOS))"
      using Suc.prems by (intro Suc.IH) auto
    then show ?case
    proof (rule agree_weaken, intro agree_ret)
      fix ts :: "Token list" and u
      assume ts: "length ts = n \<and> (length (inp t) < n \<longrightarrow> token (last ts) = tk TK_EOS)"
      then show "length (tok t # ts) = Suc n \<and>
          (length (inp ls) < Suc n \<longrightarrow> token (last (tok t # ts)) = tk TK_EOS)"
        using 2(4) by (cases ts) auto
    qed
  qed simp
qed (simp add: agree_ret)

lemma lex_open_ok:
  assumes "[] \<notin> set bs" "length (concat bs) \<le> INT_MAX"
  shows "lok (lex_open bs source sem)" "inp (lex_open bs source sem) = concat bs"
    "token (lookahead (lex_open bs source sem)) = tk TK_EOS"
    "lex_open bs source sem = (lex_open bs' source sem)\<lparr>zin := zin (lex_open bs source sem),
       current := current (lex_open bs source sem)\<rparr>"
proof -
  have "length b \<le> length (concat bs)" if "b \<in> set bs" for b
    using that by (induction bs) auto
  then have "zok (luaZ_init bs)"
    using assms(2) by (intro zok_init) (force simp: INT_MAX_def)
  moreover have "zrest (luaZ_init bs) = concat bs" using assms(1) by (rule zrest_init)
  moreover obtain c z where "zgetc (luaZ_init bs) = (Inr c, z) \<and>
      (if concat bs = [] then c = EOZ else c = uint (hd (concat bs)) \<and> zok z \<and> zrest z = tl (concat bs))"
    using calculation zgetc_Nil [of "luaZ_init bs"] zgetc_Cons [of "luaZ_init bs"]
    by (cases "concat bs") (metis, metis list.sel(1,3) list.distinct(1))
  ultimately have o: "lex_open bs source sem = luaX_setinput z source c sem"
    "if concat bs = [] then c = EOZ else c = uint (hd (concat bs)) \<and> zok z \<and> zrest z = tl (concat bs)"
    by (simp_all add: lex_open_def)
  from o show "lok (lex_open bs source sem)" "inp (lex_open bs source sem) = concat bs"
    using uint_EOZ [of "hd (concat bs)"]
    by (auto simp: lok_def inp_def luaX_setinput_def LUA_MINBUFFER_def split: if_splits)
  show "token (lookahead (lex_open bs source sem)) = tk TK_EOS"
    by (simp add: o luaX_setinput_def)
  show "lex_open bs source sem = (lex_open bs' source sem)\<lparr>zin := zin (lex_open bs source sem),
       current := current (lex_open bs source sem)\<rparr>"
    by (simp add: lex_open_def luaX_setinput_def split: prod.splits sum.splits)
qed

lemma lex_open_same:
  assumes "[] \<notin> set bs" "[] \<notin> set bs'" "concat bs = concat bs'" "length (concat bs) \<le> INT_MAX"
  shows "same (lex_open bs source sem) (lex_open bs' source sem)"
proof -
  have l: "lok (lex_open bs source sem)" "lok (lex_open bs' source sem)"
    "inp (lex_open bs source sem) = inp (lex_open bs' source sem)"
    using lex_open_ok(1,2) assms by simp_all
  then have "current (lex_open bs source sem) = current (lex_open bs' source sem)"
    using current_hd inp_Nil by metis
  with l lex_open_ok(4) [OF assms(2), of source sem bs] assms(3,4) show ?thesis
    by (simp add: same_def) (metis LexState.surjective LexState.update_convs(1,6))
qed

text \<open>C35: The tokens of a chunk do not depend on how the reader cuts the text into blocks: two readers
  that deliver the same text (below 2 GiB) give the same tokens, with the same values,
  or the same error message, however many tokens are asked for.\<close>

theorem lex_any_blocks:
  assumes "[] \<notin> set bs" "[] \<notin> set bs'" "concat bs = concat bs'" "length (concat bs) \<le> INT_MAX"
  shows "fst (lex_tokens E n (lex_open bs source sem)) = fst (lex_tokens E n (lex_open bs' source sem))"
proof -
  have "agree True (lex_open bs source sem) (lex_tokens E n) (\<lambda>ts t. length ts = n \<and>
     (length (inp (lex_open bs source sem)) < n \<longrightarrow> token (last ts) = tk TK_EOS))"
    using assms lex_open_ok by (intro agree_lex_tokens) simp_all
  from agreeD [OF this lex_open_same [OF assms]] show ?thesis
    by (auto simp: agrees_def split: prod.splits sum.splits)
qed

definition example_lex :: lex_env where
  "example_lex = \<lparr>l_str2d = (\<lambda>s. None), locale_point = 46\<rparr>"

theorem lex_any_blocks_witness:
  "fst (lex_tokens example_lex 4 (lex_open [[120], [61, 49]] [] (Sem_i 0))) =
   fst (lex_tokens example_lex 4 (lex_open [[120, 61], [49]] [] (Sem_i 0)))"
  by (rule lex_any_blocks) (simp_all add: INT_MAX_def)

text \<open>C36: Scanning ends without undefined behaviour: for every text below 2 GiB, in whatever blocks,
  asking for one token more than there are bytes gives a list of tokens that ends with \<open>TK_EOS\<close>
  or an error thrown to the parser. No step reads past the end of the stream, writes outside the
  buffer, takes more bytes off it than it holds or overflows its counters.\<close>

theorem lex_ends:
  assumes "[] \<notin> set bs" "length (concat bs) \<le> INT_MAX"
  shows "(\<exists>ts. fst (lex_tokens E (length (concat bs) + 1) (lex_open bs source sem)) = Inr ts \<and>
             token (last ts) = tk TK_EOS) \<or>
         (\<exists>msg. fst (lex_tokens E (length (concat bs) + 1) (lex_open bs source sem)) = Inl (Throw_syntax msg)) \<or>
         fst (lex_tokens E (length (concat bs) + 1) (lex_open bs source sem)) = Inl Throw_memory"
proof -
  note o = lex_open_ok [OF assms]
  have "agree True (lex_open bs source sem) (lex_tokens E (length (concat bs) + 1)) (\<lambda>ts t. length ts = length (concat bs) + 1 \<and>
     (length (inp (lex_open bs source sem)) < length (concat bs) + 1 \<longrightarrow> token (last ts) = tk TK_EOS))"
    using assms o by (intro agree_lex_tokens) simp_all
  from agreeD [OF this lex_same_refl [OF o(1)]] show ?thesis
    using o(2)
    by (cases "lex_tokens E (length (concat bs) + 1) (lex_open bs source sem)")
      (auto simp: agrees_def split: sum.splits; metis load_stop.exhaust)
qed

theorem lex_ends_witness:
  "(\<exists>ts. fst (lex_tokens example_lex (length (concat [[120 :: byte, 61], [34]]) + 1)
        (lex_open [[120, 61], [34]] [] (Sem_i 0))) = Inr ts \<and> token (last ts) = tk TK_EOS) \<or>
   (\<exists>msg. fst (lex_tokens example_lex (length (concat [[120 :: byte, 61], [34]]) + 1)
        (lex_open [[120, 61], [34]] [] (Sem_i 0))) = Inl (Throw_syntax msg)) \<or>
   fst (lex_tokens example_lex (length (concat [[120 :: byte, 61], [34]]) + 1)
        (lex_open [[120, 61], [34]] [] (Sem_i 0))) = Inl Throw_memory"
  by (rule lex_ends) (simp_all add: INT_MAX_def)

end
