(* ===== verification/LuaFormat.thy ===== *)
theory LuaFormat
  imports LuaStrLib
begin

text \<open>
  \<open>string.format\<close> (\<open>lstrlib.c\<close>). The format and the strings are the bytes before the final NUL of
  their C strings. The conversions of the arguments and \<open>l_sprintf\<close> (\<open>snprintf\<close> into a buffer of
  \<open>MAX_ITEM\<close> bytes; \<open>lua_number2strx\<close> is the same function in the default configuration) are
  parameters.
\<close>

datatype 'f sprintf_arg = As_int "32 word" | As_integer lua_Integer | As_number 'f | As_string bytes

record ('v, 'f) format_conv =
  to_integer :: "'v \<Rightarrow> lua_Integer option"
  to_number :: "'v \<Rightarrow> 'f option"
  to_string :: "'v \<Rightarrow> bytes option"
  luaL_tolstring :: "'v \<Rightarrow> bytes"
  l_sprintf :: "bytes \<Rightarrow> 'f sprintf_arg \<Rightarrow> bytes"

definition FLAGS :: bytes where "FLAGS = bytes_of ''-+ #0''"
definition MAX_FORMAT :: nat where "MAX_FORMAT = 32"
definition LUA_INTEGER_FRMLEN :: bytes where "LUA_INTEGER_FRMLEN = bytes_of ''ll''"
definition LUA_NUMBER_FRMLEN :: bytes where "LUA_NUMBER_FRMLEN = []"

section \<open>Quoted strings\<close>

text \<open>\<open>sprintf\<close> with \<open>%d\<close> and with \<open>%03d\<close> of a byte.\<close>

definition three_digits :: "byte \<Rightarrow> bytes" where
  "three_digits c =
     (let d = decimal_bytes (unat c) in replicate (3 - length d) 48 @ d)"

fun quoted_bytes :: "bytes \<Rightarrow> bytes" where
  "quoted_bytes [] = []"
| "quoted_bytes (c # s) =
     (if c = 34 \<or> c = 92 \<or> c = 10 then [92, c]
      else if c = 0 \<or> c_iscntrl c then
        92 # (if \<not> c_isdigit (byte_at s 0) then decimal_bytes (unat c) else three_digits c)
      else [c]) @ quoted_bytes s"

definition addquoted :: "bytes \<Rightarrow> bytes" where
  "addquoted s = 34 # quoted_bytes s @ [34]"

section \<open>Format items\<close>

text \<open>The flag of an optional character or group at a position: how far to move.\<close>

definition digit_at :: "bytes \<Rightarrow> nat \<Rightarrow> nat" where
  "digit_at s p = (if c_isdigit (byte_at s p) then p + 1 else p)"

text \<open>The result is the format of the item and the index of its conversion character.\<close>

definition scanformat :: "bytes \<Rightarrow> match_error + (bytes \<times> nat)" where
  "scanformat strfrmt =
     (let p = length (takeWhile (\<lambda>c. c \<noteq> 0 \<and> c \<in> set FLAGS) strfrmt) in
      if p \<ge> length FLAGS + 1 then Inl (Match_error ''invalid format (repeated flags)'')
      else
        let p2 = digit_at strfrmt (digit_at strfrmt p);
            p3 = (if byte_at strfrmt p2 = 46 then digit_at strfrmt (digit_at strfrmt (p2 + 1)) else p2)
        in if c_isdigit (byte_at strfrmt p3) then
             Inl (Match_error ''invalid format (width or precision too long)'')
           else Inr (37 # map (byte_at strfrmt) [0..<p3 + 1], p3))"

definition addlenmod :: "bytes \<Rightarrow> bytes \<Rightarrow> bytes" where
  "addlenmod form lenmod = butlast form @ lenmod @ [List.last form]"

definition check_item :: "nat \<Rightarrow> 'a option \<Rightarrow> match_error + 'a" where
  "check_item arg v =
     (case v of None \<Rightarrow> Inl (Arg_failure arg ''wrong type'') | Some x \<Rightarrow> Inr x)"

text \<open>The switch of \<open>str_format\<close>: \<open>c\<close> is the conversion character.\<close>

definition format_item :: "('v, 'f) format_conv \<Rightarrow> bytes \<Rightarrow> byte \<Rightarrow> nat \<Rightarrow> 'v \<Rightarrow> match_error + bytes" where
  "format_item C form c arg v =
     (if c = of_char CHR ''c'' then
        bind_e (check_item arg (to_integer C v)) (\<lambda>n. Inr (l_sprintf C form (As_int (ucast n))))
      else if c \<in> set (bytes_of ''diouxX'') then
        bind_e (check_item arg (to_integer C v)) (\<lambda>n.
          Inr (l_sprintf C (addlenmod form LUA_INTEGER_FRMLEN) (As_integer n)))
      else if c \<in> set (bytes_of ''aAeEfgG'') then
        bind_e (check_item arg (to_number C v)) (\<lambda>n.
          Inr (l_sprintf C (addlenmod form LUA_NUMBER_FRMLEN) (As_number n)))
      else if c = of_char CHR ''q'' then
        bind_e (check_item arg (to_string C v)) (\<lambda>s. Inr (addquoted s))
      else if c = of_char CHR ''s'' then
        let s = luaL_tolstring C v in
        if length form = 2 then Inr s
        else if 0 \<in> set s then Inl (Arg_failure arg ''string contains zeros'')
        else if 46 \<notin> set form \<and> length s \<ge> 100 then Inr s
        else Inr (l_sprintf C form (As_string s))
      else Inl (Match_error (''invalid option '' @ [CHR 0x27, CHR ''%'', char_of (unat c), CHR 0x27] @ '' to '' @
              [CHR 0x27] @ ''format'' @ [CHR 0x27])))"

function format_loop ::
  "('v, 'f) format_conv \<Rightarrow> bytes \<Rightarrow> nat \<Rightarrow> 'v list \<Rightarrow> bytes \<Rightarrow> match_error + bytes" where
  "format_loop C strfrmt arg args b =
     (case strfrmt of
        [] \<Rightarrow> Inr b
      | c # rest \<Rightarrow>
          if c \<noteq> L_ESC then format_loop C rest arg args (b @ [c])
          else if byte_at rest 0 = L_ESC then format_loop C (drop 1 rest) arg args (b @ [L_ESC])
          else
            (case args of
               [] \<Rightarrow> Inl (Arg_failure (arg + 1) ''no value'')
             | v # vs \<Rightarrow>
                 bind_e (scanformat rest) (\<lambda>(form, p).
                 bind_e (format_item C form (byte_at rest p) (arg + 1) v) (\<lambda>s.
                   format_loop C (drop (p + 1) rest) (arg + 1) vs (b @ s)))))"
  by pat_completeness auto
termination by (relation "measure (\<lambda>(C, f, arg, args, b). length f)") auto

declare format_loop.simps [simp del]

definition str_format :: "('v, 'f) format_conv \<Rightarrow> bytes \<Rightarrow> 'v list \<Rightarrow> match_error + bytes" where
  "str_format C strfrmt args = format_loop C strfrmt 1 args []"

text \<open>
  The buffer for the format of an item never overflows: what \<open>scanformat\<close> and then \<open>addlenmod\<close>
  write fits in \<open>MAX_FORMAT\<close> bytes with its final NUL.
\<close>

lemma digit_at_le: "digit_at s p \<le> p + 1"
  by (simp add: digit_at_def)

theorem format_spec_fits:
  assumes "scanformat strfrmt = Inr (form, p)"
  shows "length (addlenmod form LUA_INTEGER_FRMLEN) + 1 \<le> MAX_FORMAT"
proof -
  define k where "k = length (takeWhile (\<lambda>c. c \<noteq> 0 \<and> c \<in> set FLAGS) strfrmt)"
  define p2 where "p2 = digit_at strfrmt (digit_at strfrmt k)"
  define p3 where "p3 = (if byte_at strfrmt p2 = 46 then digit_at strfrmt (digit_at strfrmt (p2 + 1)) else p2)"
  have "length FLAGS = 5" by (simp add: FLAGS_def bytes_of_def)
  moreover from assms have "\<not> k \<ge> length FLAGS + 1" "form = 37 # map (byte_at strfrmt) [0..<p3 + 1]"
    unfolding scanformat_def Let_def k_def [symmetric] p2_def [symmetric] p3_def [symmetric]
    by (auto split: if_splits)
  ultimately have k: "k < 6" and f: "form = 37 # map (byte_at strfrmt) [0..<p3 + 1]" by simp_all
  have "p2 \<le> k + 2"
    using digit_at_le [of strfrmt k] digit_at_le [of strfrmt "digit_at strfrmt k"] by (simp add: p2_def)
  moreover have "p3 \<le> p2 + 3"
    using digit_at_le [of strfrmt "p2 + 1"] digit_at_le [of strfrmt "digit_at strfrmt (p2 + 1)"]
    by (simp add: p3_def)
  ultimately show ?thesis
    using k by (simp add: f addlenmod_def LUA_INTEGER_FRMLEN_def bytes_of_def MAX_FORMAT_def)
qed

theorem format_spec_fits_witness:
  "length (addlenmod (37 # bytes_of ''-+5.2d'') LUA_INTEGER_FRMLEN) + 1 \<le> MAX_FORMAT"
proof -
  have "scanformat (bytes_of ''-+5.2d'') = Inr (37 # bytes_of ''-+5.2d'', 5)"
    by (simp add: scanformat_def bytes_of_def FLAGS_def digit_at_def byte_at_def c_isdigit_def upt_rec Let_def)
  then show ?thesis by (rule format_spec_fits)
qed

lemma format_quoted:
  "to_string C v = Some s \<Longrightarrow> str_format C (bytes_of ''%q'') [v] = Inr (addquoted s)"
  by (simp add: str_format_def format_loop.simps bytes_of_def L_ESC_def byte_at_def scanformat_def
      FLAGS_def digit_at_def c_isdigit_def format_item_def check_item_def Let_def)

end
