(* ===== verification/LuaLexRound.thy ===== *)
theory LuaLexRound
  imports LuaLexProps LuaFormat LuaObjectProps
begin

text \<open>
  The scanner against a printer: tokens written with \<open>luaX_token2str\<close>, \<open>lua_integer2str\<close> and the
  \<open>%q\<close> option of \<open>string.format\<close> are scanned back.
\<close>

section \<open>Quoted strings\<close>

definition digits_value :: "int \<Rightarrow> bytes \<Rightarrow> int" where
  "digits_value r ds = foldl (\<lambda>r d. 10 * r + uint d - 48) r ds"

lemma digits_value_simps [simp]:
  "digits_value r [] = r"
  "digits_value r (d # ds) = digits_value (10 * r + uint d - 48) ds"
  "digits_value r (ds @ es) = digits_value (digits_value r ds) es"
  by (simp_all add: digits_value_def)

lemma unat_byte: "m < 256 \<Longrightarrow> unat (word_of_nat m :: byte) = m"
  by (simp add: unat_of_nat)

lemma uint_digit: "k < 10 \<Longrightarrow> uint (word_of_nat (48 + k) :: byte) = 48 + int k"
  using unat_byte [of "48 + k"] by (simp add: uint_nat)

lemma digits_value_digit: "k < 10 \<Longrightarrow> digits_value r [word_of_nat (48 + k)] = 10 * r + int k"
  unfolding digits_value_def foldl_Cons foldl_Nil by (subst uint_digit) simp_all

lemma decimal_bytes_value: "digits_value 0 (decimal_bytes n) = int n"
proof (induction n rule: decimal_bytes.induct)
  case (1 n)
  show ?case
  proof (cases "n < 10")
    case True
    then have "decimal_bytes n = [word_of_nat (48 + n)]" by (subst decimal_bytes.simps) (simp only: if_True)
    then show ?thesis using digits_value_digit [OF True] by simp
  next
    case False
    then have "decimal_bytes n = decimal_bytes (n div 10) @ [word_of_nat (48 + n mod 10)]"
      by (subst decimal_bytes.simps) (simp only: if_False)
    moreover have "int n = 10 * int (n div 10) + int (n mod 10)" by presburger
    ultimately show ?thesis
      using 1 [OF False] digits_value_digit [of "n mod 10"] by simp
  qed
qed

lemma decimal_bytes_digits: "d \<in> set (decimal_bytes n) \<Longrightarrow> 48 \<le> uint d \<and> uint d \<le> 57"
proof (induction n rule: decimal_bytes.induct)
  case (1 n)
  have u: "uint (word_of_nat (48 + n mod 10) :: byte) = 48 + int (n mod 10)" by (rule uint_digit) simp
  show ?case
  proof (cases "n < 10")
    case True
    with 1(2) u show ?thesis by (subst (asm) decimal_bytes.simps) auto
  next
    case False
    with 1(2) u 1(1) show ?thesis
      by (subst (asm) decimal_bytes.simps) (auto simp del: of_nat_add; presburger)
  qed
qed

lemma decimal_bytes_length: "n < 1000 \<Longrightarrow> 1 \<le> length (decimal_bytes n) \<and> length (decimal_bytes n) \<le> 3"
  by (simp add: decimal_bytes.simps [of n] decimal_bytes.simps [of "n div 10"]
      decimal_bytes.simps [of "n div 10 div 10"])

lemma uint_le_iff: "uint (b :: byte) \<le> 57 \<longleftrightarrow> b \<le> 57" "48 \<le> uint (b :: byte) \<longleftrightarrow> 48 \<le> b"
  by (simp_all add: word_le_def)

lemma lisdigit_uint: "lisdigit (uint (b :: byte)) \<longleftrightarrow> c_isdigit b"
  using ctype_classes(1) [of "uint b"] uint_EOZ(2) [of b]
  by (simp add: c_isdigit_def uint_le_iff)

section \<open>Exact steps\<close>

text \<open>The state after a step without errors: the input, the buffer and the line that it leaves.\<close>

definition after :: "LexState \<Rightarrow> bytes \<Rightarrow> bytes \<Rightarrow> int \<Rightarrow> LexState \<Rightarrow> bool" where
  "after ls cs b l t \<longleftrightarrow> lok t \<and> inp t = cs \<and> buff t = b \<and> linenumber t = l \<and>
     fixed t = fixed ls \<and> decpoint t = decpoint ls"

named_theorems exact_rules

lemmas [exact_rules] = agree_thenDo agree_andThen agree_look agree_ret agree_gets

lemma exact_next [exact_rules]:
  "inp ls = c # cs \<Longrightarrow> (\<And>t. after ls cs (buff ls) (linenumber ls) t \<Longrightarrow> Q () t) \<Longrightarrow> agree False ls lnext Q"
  by (rule agree_lnext) (auto simp: after_def)

lemma exact_save [exact_rules]:
  "length (buff ls) < 2 ^ 61 \<Longrightarrow>
   (\<And>t. after ls (inp ls) (buff ls @ [word_of_int c]) (linenumber ls) t \<Longrightarrow> Q () t) \<Longrightarrow>
   agree False ls (save c) Q"
  by (rule agree_save) (auto simp: after_def)

lemma exact_save_next [exact_rules]:
  "inp ls = c # cs \<Longrightarrow> length (buff ls) < 2 ^ 61 \<Longrightarrow>
   (\<And>t. after ls cs (buff ls @ [c]) (linenumber ls) t \<Longrightarrow> Q () t) \<Longrightarrow> agree False ls save_and_next Q"
  by (rule agree_save_next) (auto simp: after_def)

lemma exact_inclinenumber [exact_rules]:
  "inp ls = c # cs \<Longrightarrow> c = 10 \<or> c = 13 \<Longrightarrow> linenumber ls + 1 < int INT_MAX \<Longrightarrow>
   (\<And>t. after ls (skip_newline (c # cs)) (buff ls) (linenumber ls + 1) t \<Longrightarrow> Q () t) \<Longrightarrow>
   agree False ls inclinenumber Q"
  by (rule agree_inclinenumber) (auto simp: after_def newline_hd)

lemma exact_remove [exact_rules]:
  "i \<le> length (buff ls) \<Longrightarrow>
   (\<And>t. after ls (inp ls) (take (length (buff ls) - i) (buff ls)) (linenumber ls) t \<Longrightarrow> Q () t) \<Longrightarrow>
   agree False ls (luaZ_buffremove i) Q"
  by (rule agree_buffremove) (auto simp: after_def)

lemma exact_reset [exact_rules]:
  "(\<And>t. after ls (inp ls) [] (linenumber ls) t \<Longrightarrow> Q () t) \<Longrightarrow> agree False ls luaZ_resetbuffer Q"
  by (rule agree_resetbuffer) (auto simp: after_def)

lemma exact_newstring [exact_rules]:
  assumes "0 \<le> n" "int i + n \<le> int (length (buff ls))" "length (buff ls) < 2 ^ 61"
    and "\<And>t. after ls (inp ls) (buff ls) (linenumber ls) t \<Longrightarrow> Q (take (nat n) (drop i (buff ls))) t"
  shows "agree False ls (luaX_newstring i n) Q"
  by (rule agree_lok) (use assms in \<open>auto intro!: agree_newstring simp: after_def\<close>)

lemma exact_esccheck [exact_rules]: "c \<Longrightarrow> Q () ls \<Longrightarrow> agree False ls (esccheck c msg) Q"
  by (simp add: esccheck_def when_p_def agree_ret)

text \<open>The current character is the first of the input.\<close>

lemma current_inp: "lok ls \<Longrightarrow> current ls = (case inp ls of [] \<Rightarrow> EOZ | c # cs \<Rightarrow> uint c)"
  using inp_current [of ls] inp_Nil [of ls] by (cases "inp ls") auto

lemma exact_dec_loop:
  assumes "inp ls = ds @ cs" "\<And>d. d \<in> set ds \<Longrightarrow> c_isdigit d" "length ds + i \<le> 3"
    and "length ds + i = 3 \<or> cs = [] \<or> \<not> c_isdigit (hd cs)" "length (buff ls) + length ds < 2 ^ 61"
    and "\<And>t. after ls cs (buff ls @ ds) (linenumber ls) t \<Longrightarrow> Q (i + length ds, digits_value r ds) t"
  shows "agree False ls (dec_loop i r) Q"
  using assms
proof (induction ds arbitrary: ls i r)
  case Nil
  show ?case
  proof (subst dec_loop_look, rule agree_lok, rule agree_look)
    assume l: "lok ls"
    have "\<not> (i < 3 \<and> lisdigit (current ls))"
      using Nil(1,4) EOZ_class(2) by (auto simp: current_inp [OF l] lisdigit_uint split: list.splits)
    then show "agree False ls (if i < 3 \<and> lisdigit (current ls) then
       thenDo save_and_next (dec_loop (i + 1) (10 * r + current ls - ch CHR ''0'')) else ret (i, r)) Q"
      using Nil(6) [of ls] Nil(1) l by (auto intro!: agree_ret simp: after_def)
  qed simp
next
  case (Cons d ds)
  show ?case
  proof (subst dec_loop_look, rule agree_lok, rule agree_look)
    assume l: "lok ls"
    have c: "current ls = uint d" "lisdigit (current ls)" "i < 3"
      using Cons.prems(1-3) by (auto simp: current_inp [OF l] lisdigit_uint)
    have "agree False t (dec_loop (i + 1) (10 * r + uint d - 48)) Q"
      if t: "after ls (ds @ cs) (buff ls @ [d]) (linenumber ls) t" for t
      using t Cons.prems
      by (intro Cons.IH) (auto simp: after_def)
    then show "agree False ls (if i < 3 \<and> lisdigit (current ls) then
       thenDo save_and_next (dec_loop (i + 1) (10 * r + current ls - ch CHR ''0'')) else ret (i, r)) Q"
      using c Cons.prems(1,5) by (auto intro!: agree_thenDo exact_save_next)
  qed simp
qed

text \<open>The escape that \<open>%q\<close> writes for a control character.\<close>

lemma exact_readdecesc:
  assumes "inp ls = ds @ cs" "\<And>d. d \<in> set ds \<Longrightarrow> c_isdigit d" "length ds \<le> 3"
    and "length ds = 3 \<or> cs = [] \<or> \<not> c_isdigit (hd cs)" "length (buff ls) + length ds < 2 ^ 61"
    and "digits_value 0 ds \<le> 255"
    and "\<And>t. after ls cs (buff ls) (linenumber ls) t \<Longrightarrow> Q (digits_value 0 ds) t"
  shows "agree False ls readdecesc Q"
  unfolding readdecesc_def
proof (rule agree_andThen, rule exact_dec_loop [OF assms(1,2)])
  fix t
  assume t: "after ls cs (buff ls @ ds) (linenumber ls) t"
  show "agree False t (case (0 + length ds, digits_value 0 ds) of
      (i, r) \<Rightarrow> thenDo (esccheck (r \<le> 255) ''decimal escape too large'')
        (thenDo (luaZ_buffremove i) (ret r))) Q"
    using t assms(6) by (auto intro!: exact_rules assms(7) simp: after_def)
qed (use assms in simp_all)

lemma exact_only_save:
  assumes "buff ls = b @ [x]" "length b < 2 ^ 61"
    and "\<And>t. after ls (inp ls) (b @ [word_of_int c]) (linenumber ls) t \<Longrightarrow> Q () t"
  shows "agree False ls (only_save c) Q"
  unfolding only_save_def
  using assms by (auto intro!: exact_rules simp: after_def)

lemma exact_read_save:
  assumes "inp ls = x # cs" "buff ls = b @ [y]" "length b < 2 ^ 61"
    and "\<And>t. after ls cs (b @ [word_of_int c]) (linenumber ls) t \<Longrightarrow> Q () t"
  shows "agree False ls (read_save c) Q"
  unfolding read_save_def
  using assms by (auto intro!: exact_next agree_thenDo exact_only_save simp: after_def)

text \<open>The escapes of \<open>%q\<close>: a character that stands for itself, a line break, digits.\<close>

lemma exact_escape_char:
  assumes "inp ls = 92 # c # cs" "c = 34 \<or> c = 92" "length (buff ls) < 2 ^ 60"
    and "\<And>t. after ls cs (buff ls @ [c]) (linenumber ls) t \<Longrightarrow> Q () t"
  shows "agree False ls escape Q"
  unfolding escape_def
proof (rule agree_thenDo, rule exact_save_next [OF assms(1)])
  fix t
  assume t: "after ls (c # cs) (buff ls @ [92]) (linenumber ls) t"
  have rs: "agree False t (read_save (uint c)) Q"
    using t assms(3) by (auto intro!: exact_read_save assms(4) simp: after_def)
  show "agree False t escape_case Q"
    unfolding escape_case_def Let_def
  proof (rule agree_lok, rule agree_look, goal_cases)
    case 2
    then have "current t = uint c" using t by (simp add: current_inp after_def)
    then show ?case using rs assms(2) by (auto simp: currIsNewline_def)
  qed (simp add: currIsNewline_def)
qed (use assms in simp)

lemma exact_escape_newline:
  assumes "inp ls = 92 # 10 # cs" "cs = [] \<or> hd cs \<noteq> 13" "length (buff ls) < 2 ^ 60"
    and "linenumber ls + 1 < int INT_MAX"
    and "\<And>t. after ls cs (buff ls @ [10]) (linenumber ls + 1) t \<Longrightarrow> Q () t"
  shows "agree False ls escape Q"
  unfolding escape_def
proof (rule agree_thenDo, rule exact_save_next [OF assms(1)])
  fix t
  assume t: "after ls (10 # cs) (buff ls @ [92]) (linenumber ls) t"
  have "skip_newline (10 # cs) = cs" using assms(2) by (cases cs) auto
  then have rs: "agree False t (thenDo inclinenumber (only_save 10)) Q"
    using t assms(3,4)
    by (auto intro!: agree_thenDo exact_inclinenumber exact_only_save assms(5) simp: after_def)
  show "agree False t escape_case Q"
    unfolding escape_case_def Let_def
  proof (rule agree_lok, rule agree_look, goal_cases)
    case 2
    then have "current t = 10" using t by (simp add: current_inp after_def)
    then show ?case using rs by (simp add: currIsNewline_def)
  qed (simp add: currIsNewline_def)
qed (use assms in simp)

lemma exact_escape_digits:
  assumes "inp ls = 92 # ds @ cs" "ds \<noteq> []" "\<And>d. d \<in> set ds \<Longrightarrow> c_isdigit d" "length ds \<le> 3"
    and "length ds = 3 \<or> cs = [] \<or> \<not> c_isdigit (hd cs)" "length (buff ls) < 2 ^ 60"
    and "digits_value 0 ds = uint c"
    and "\<And>t. after ls cs (buff ls @ [c]) (linenumber ls) t \<Longrightarrow> Q () t"
  shows "agree False ls escape Q"
  unfolding escape_def
proof (rule agree_thenDo, rule exact_save_next [OF assms(1)])
  fix t
  assume t: "after ls (ds @ cs) (buff ls @ [92]) (linenumber ls) t"
  have u: "uint c \<le> 255" using uint_EOZ(2) [of c] by simp
  have rs: "agree False t (andThen readdecesc only_save) Q"
    using t assms(2-7) u
    by (auto intro!: agree_andThen exact_readdecesc [of t ds cs] exact_only_save assms(8) simp: after_def)
  show "agree False t escape_case Q"
    unfolding escape_case_def Let_def
  proof (rule agree_lok, rule agree_look, goal_cases)
    case 2
    obtain d es where d: "ds = d # es" using assms(2) by (cases ds) auto
    with 2 have c: "current t = uint d" using t by (simp add: current_inp after_def)
    have "c_isdigit d" using assms(3) d by simp
    then have b: "48 \<le> uint d" "uint d \<le> 57" "lisdigit (uint d)"
      by (auto simp: lisdigit_uint c_isdigit_def uint_le_iff)
    show ?case
      using rs b unfolding c currIsNewline_def
      by (auto intro!: agree_thenDo exact_esccheck simp: EOZ_def)
  qed (simp add: currIsNewline_def)
qed (use assms in simp)

lemma c_isdigit_decimal: "d \<in> set (decimal_bytes n) \<Longrightarrow> c_isdigit d"
  using decimal_bytes_digits [of d n] by (simp add: c_isdigit_def uint_le_iff)

lemma unat_lt_256: "unat (c :: byte) < 256"
  using unsigned_less [of c, where 'a = nat] by simp

lemma three_digits_props:
  "length (three_digits c) = 3" "d \<in> set (three_digits c) \<Longrightarrow> c_isdigit d"
  "digits_value 0 (three_digits c) = uint c"
proof -
  have c: "unat c < 256" by (rule unat_lt_256)
  have len: "length (decimal_bytes (unat c)) \<le> 3" using decimal_bytes_length [of "unat c"] c by simp
  then show "length (three_digits c) = 3" by (simp add: three_digits_def Let_def)
  show "c_isdigit d" if "d \<in> set (three_digits c)"
    using that c_isdigit_decimal [of d "unat c"]
    by (auto simp: three_digits_def Let_def c_isdigit_def)
  have z: "digits_value 0 (replicate k 48) = 0" for k
  proof (induction k)
    case (Suc k)
    then show ?case by (simp only: replicate_Suc digits_value_simps(2)) simp
  qed simp
  then show "digits_value 0 (three_digits c) = uint c"
    unfolding three_digits_def Let_def digits_value_simps(3) z decimal_bytes_value by simp
qed

text \<open>What follows a control character in a quoted string.\<close>

lemma quoted_hd:
  "hd (quoted_bytes s @ 34 # rest) \<noteq> 13 \<and> hd (quoted_bytes s @ 34 # rest) \<noteq> 10 \<and>
   (c_isdigit (hd (quoted_bytes s @ 34 # rest)) \<longrightarrow> c_isdigit (byte_at s 0))"
  by (cases s) (auto simp: c_isdigit_def c_iscntrl_def byte_at_def)

lemma not_newline_plain: "\<not> (c = 34 \<or> c = 92 \<or> c = 10) \<Longrightarrow> \<not> (c = 0 \<or> c_iscntrl c) \<Longrightarrow> c \<noteq> 13"
  by (auto simp: c_iscntrl_def)

lemma exact_string_loop:
  assumes "inp ls = quoted_bytes s @ 34 # rest" "length (buff ls) + length s < 2 ^ 60"
    and "linenumber ls + int (count_list s 10) < int INT_MAX"
    and "\<And>t. after ls (34 # rest) (buff ls @ s) (linenumber ls + int (count_list s 10)) t \<Longrightarrow> Q () t"
  shows "agree False ls (string_loop 34) Q"
  using assms
proof (induction s arbitrary: ls)
  case Nil
  show ?case
  proof (subst string_loop_look, rule agree_lok, rule agree_look, goal_cases)
    case 2
    then show ?case
      using Nil(4) [of ls] Nil(1) by (auto intro!: agree_ret simp: current_inp after_def)
  qed (simp add: currIsNewline_def)
next
  case (Cons c s)
  let ?tail = "quoted_bytes s @ 34 # rest"
  have rec: "agree False t (string_loop 34) Q"
    if "after ls ?tail (buff ls @ [c]) (linenumber ls + (if c = 10 then 1 else 0)) t" for t
    using that Cons.prems(2,3)
    by (intro Cons.IH Cons.prems(4)) (auto simp: after_def split: if_splits)
  have esc: "agree False ls escape (\<lambda>_ t. agree False t (string_loop 34) Q)"
    if "c = 34 \<or> c = 92 \<or> c = 10 \<or> c = 0 \<or> c_iscntrl c"
  proof -
    from that consider (self) "c = 34 \<or> c = 92" | (line) "c = 10"
      | (digits) "\<not> (c = 34 \<or> c = 92 \<or> c = 10)" "c = 0 \<or> c_iscntrl c" by argo
    then show ?thesis
    proof cases
      case self
      then show ?thesis using Cons.prems(1,2)
        by (intro exact_escape_char [of ls c ?tail] rec) auto
    next
      case line
      have "linenumber ls + 1 < int INT_MAX" using Cons.prems(3) line by simp
      with line show ?thesis using Cons.prems(1,2) quoted_hd [of s rest]
        by (intro exact_escape_newline [of ls ?tail] rec) auto
    next
      case digits
      let ?ds = "if \<not> c_isdigit (byte_at s 0) then decimal_bytes (unat c) else three_digits c"
      have "unat c < 1000" using unat_lt_256 [of c] by simp
      note len = decimal_bytes_length [OF this]
      have val: "digits_value 0 ?ds = uint c"
        by (simp add: three_digits_props decimal_bytes_value)
      show ?thesis
      proof (rule exact_escape_digits [of ls ?ds ?tail c])
        show "inp ls = 92 # ?ds @ ?tail" using Cons.prems(1) digits by simp
        show "?ds \<noteq> []" "length ?ds \<le> 3" using len three_digits_props(1) [of c] by auto
        show "length ?ds = 3 \<or> ?tail = [] \<or> \<not> c_isdigit (hd ?tail)"
          using three_digits_props(1) [of c] quoted_hd [of s rest] by auto
        show "c_isdigit d" if "d \<in> set ?ds" for d
          using that c_isdigit_decimal three_digits_props(2) by (auto split: if_splits)
        show "agree False t (string_loop 34) Q" if "after ls ?tail (buff ls @ [c]) (linenumber ls) t" for t
          using that digits by (intro rec) simp
      qed (use Cons.prems(2) val in auto)
    qed
  qed
  have plain: "agree False ls save_and_next (\<lambda>_ t. agree False t (string_loop 34) Q)"
    if "\<not> (c = 34 \<or> c = 92 \<or> c = 10)" "\<not> (c = 0 \<or> c_iscntrl c)"
    using Cons.prems(1,2) that by (intro exact_save_next [of ls c ?tail] rec) auto
  show ?case
  proof (subst string_loop_look, rule agree_lok, rule agree_look, goal_cases)
    case 2
    have cur: "current ls = uint (hd (inp ls))" "inp ls \<noteq> []"
      using Cons.prems(1) 2 by (auto simp: current_inp)
    show ?case
    proof (cases "c = 34 \<or> c = 92 \<or> c = 10 \<or> c = 0 \<or> c_iscntrl c")
      case True
      then have "hd (inp ls) = 92" using Cons.prems(1) by auto
      with cur have "current ls = 92" by simp
      then show ?thesis using esc [OF True] by (simp add: EOZ_def currIsNewline_def agree_thenDo)
    next
      case False
      then have h: "hd (inp ls) = c" using Cons.prems(1) by auto
      have "uint c \<noteq> 34" "uint c \<noteq> 92" "uint c \<noteq> 10" "uint c \<noteq> 13" "uint c \<noteq> EOZ"
        using False not_newline_plain [of c] uint_EOZ(1) [of c] byte_is by auto
      with cur h plain False show ?thesis
        by (simp add: currIsNewline_def agree_thenDo)
    qed
  qed (simp add: currIsNewline_def)
qed

lemma exact_read_string:
  assumes "inp ls = addquoted s @ rest" "buff ls = []" "length s < 2 ^ 59"
    and "linenumber ls + int (count_list s 10) < int INT_MAX"
    and "\<And>t. lok t \<Longrightarrow> inp t = rest \<Longrightarrow> linenumber t = linenumber ls + int (count_list s 10) \<Longrightarrow>
      fixed t = fixed ls \<Longrightarrow> decpoint t = decpoint ls \<Longrightarrow> Q s t"
  shows "agree False ls (read_string 34) Q"
  unfolding read_string_def
proof (rule agree_thenDo, rule exact_save_next [of ls 34 "quoted_bytes s @ 34 # rest"], goal_cases)
  case (3 t)
  show ?case
  proof (rule agree_thenDo, rule exact_string_loop [of t s rest], goal_cases)
    case (4 u)
    have "agree False v (luaX_newstring 1 (int (length (buff v)) - 2)) Q"
      if "after u rest (34 # s @ [34]) (linenumber u) v" for v
      using that 3 4 assms
      by (auto intro!: exact_newstring assms(5) simp: after_def)
    then show ?case using 3 4 assms
      by (auto intro!: agree_thenDo exact_save_next agree_look simp: after_def)
  qed (use 3 assms in \<open>auto simp: after_def\<close>)
qed (use assms in \<open>auto simp: addquoted_def\<close>)

section \<open>Tokens and their spelling\<close>

definition lisalnum_byte :: "byte \<Rightarrow> bool" where
  "lisalnum_byte c \<longleftrightarrow> lislalnum (uint c)"

datatype lexeme = L_fixed RESERVED | L_char byte | L_name bytes | L_int lua_Integer | L_str bytes

definition fixed_spelling :: "RESERVED \<Rightarrow> bytes" where
  "fixed_spelling r = bytes_of (luaX_tokens ! nat (tk r - FIRST_RESERVED))"

fun spell :: "lexeme \<Rightarrow> bytes" where
  "spell (L_fixed r) = fixed_spelling r"
| "spell (L_char c) = [c]"
| "spell (L_name s) = s"
| "spell (L_int i) = lua_integer2str i"
| "spell (L_str s) = addquoted s"

text \<open>
  A lexeme that stands for one token when it is followed by a space: a symbol is no letter, digit,
  quote or space; a name is not reserved; a numeral has no sign.
\<close>

fun printable :: "lexeme \<Rightarrow> bool" where
  "printable (L_fixed r) = (tk r < tk TK_EOS)"
| "printable (L_char c) =
     (\<not> lisalnum_byte c \<and> c \<notin> {34, 39} \<and> \<not> (9 \<le> c \<and> c \<le> 13) \<and> c \<noteq> 32)"
| "printable (L_name s) =
     (s \<noteq> [] \<and> lislalpha (uint (hd s)) \<and> list_all lisalnum_byte s \<and> extra_of s = 0)"
| "printable (L_int i) = (0 \<le> sint i)"
| "printable (L_str s) = True"

text \<open>The semantic value that the scanner stores: names and reserved words store their string.\<close>

fun lexeme_token :: "lexeme \<Rightarrow> int \<times> SemInfo option" where
  "lexeme_token (L_fixed r) =
     (tk r, if tk r \<le> tk TK_WHILE then Some (Sem_ts (fixed_spelling r)) else None)"
| "lexeme_token (L_char c) = (uint c, None)"
| "lexeme_token (L_name s) = (tk TK_NAME, Some (Sem_ts s))"
| "lexeme_token (L_int i) = (tk TK_INT, Some (Sem_i i))"
| "lexeme_token (L_str s) = (tk TK_STRING, Some (Sem_ts s))"

definition stops :: "bytes \<Rightarrow> bool" where
  "stops cs \<longleftrightarrow> cs = [] \<or> hd cs = 32"

text \<open>What is left and which line it is on after a token.\<close>

definition scanned :: "LexState \<Rightarrow> bytes \<Rightarrow> int \<Rightarrow> LexState \<Rightarrow> bool" where
  "scanned ls cs l t \<longleftrightarrow> lok t \<and> inp t = cs \<and> linenumber t = l \<and> fixed t = fixed ls"

lemma after_scanned: "after ls cs b l t \<Longrightarrow> scanned ls cs l t"
  by (simp add: after_def scanned_def)

section \<open>Scanning one token\<close>

lemma exact_check_next1_yes:
  assumes "inp ls = d # cs" "uint d = c" "\<And>t. after ls cs (buff ls) (linenumber ls) t \<Longrightarrow> Q True t"
  shows "agree False ls (check_next1 c) Q"
  unfolding check_next1_def
proof (rule agree_lok, rule agree_look)
  assume "lok ls"
  then show "agree False ls (if current ls = c then thenDo lnext (ret True) else ret False) Q"
    using assms by (auto intro!: exact_rules simp: current_inp)
qed simp

lemma exact_check_next1_no:
  assumes "inp ls = [] \<or> uint (hd (inp ls)) \<noteq> c" "0 \<le> c" "lok ls \<Longrightarrow> Q False ls"
  shows "agree False ls (check_next1 c) Q"
  unfolding check_next1_def
proof (rule agree_lok, rule agree_look)
  assume "lok ls"
  then show "agree False ls (if current ls = c then thenDo lnext (ret True) else ret False) Q"
    using assms by (auto intro!: agree_ret simp: current_inp EOZ_def split: list.splits)
qed simp

lemma exact_alts_hit:
  assumes "inp ls = d # cs" "map_of alts (uint d) = Some r"
    and "\<forall>x \<in> set alts. 0 \<le> fst x"
    and "\<And>t. after ls cs (buff ls) (linenumber ls) t \<Longrightarrow> Q (tk r, None) t"
  shows "agree False ls
     (foldr (\<lambda>(d, t) other. andThen (check_next1 d) (\<lambda>b. if b then ret (tk t, None) else other))
        alts (ret (c, None))) Q"
  using assms(2,3)
proof (induction alts)
  case (Cons x alts)
  obtain d' r' where x: "x = (d', r')" by fastforce
  show ?case
  proof (cases "d' = uint d")
    case True
    then show ?thesis using Cons.prems x assms(1)
      by (auto intro!: agree_andThen exact_check_next1_yes agree_ret assms(4))
  next
    case False
    moreover have "0 \<le> d'" using Cons.prems(2) x by simp
    ultimately show ?thesis using Cons x assms(1)
      by (auto intro!: agree_andThen exact_check_next1_no)
  qed
qed simp

lemma exact_alts_miss:
  assumes "inp ls = [] \<or> uint (hd (inp ls)) \<notin> fst ` set alts"
    and "\<forall>x \<in> set alts. 0 \<le> fst x" "lok ls \<Longrightarrow> Q (c, None) ls"
  shows "agree False ls
     (foldr (\<lambda>(d, t) other. andThen (check_next1 d) (\<lambda>b. if b then ret (tk t, None) else other))
        alts (ret (c, None))) Q"
  using assms(1,2)
proof (induction alts)
  case Nil
  show ?case by (rule agree_lok) (use assms(3) in \<open>simp add: agree_ret\<close>)
next
  case (Cons x alts)
  obtain d' r' where x: "x = (d', r')" by fastforce
  have "0 \<le> d'" using Cons.prems(2) x by simp
  then show ?case using Cons x
    by (auto intro!: agree_andThen exact_check_next1_no)
qed

lemma exact_operator_hit:
  assumes "inp ls = c # d # cs" "map_of alts (uint d) = Some r"
    and "\<forall>x \<in> set alts. 0 \<le> fst x"
    and "\<And>t. after ls cs (buff ls) (linenumber ls) t \<Longrightarrow> Q (tk r, None) t"
  shows "agree False ls (llex_operator n alts) Q"
  unfolding llex_operator_def
proof (rule agree_thenDo, rule exact_next [OF assms(1)])
  fix t
  assume t: "after ls (d # cs) (buff ls) (linenumber ls) t"
  show "agree False t (foldr (\<lambda>(d, t) other. andThen (check_next1 d) (\<lambda>b. if b then ret (tk t, None) else other))
        alts (ret (n, None))) Q"
    by (rule exact_alts_hit [OF _ assms(2,3)]) (use t in \<open>auto simp: after_def intro!: assms(4)\<close>)
qed

lemma exact_operator_miss:
  assumes "inp ls = c # cs" "cs = [] \<or> uint (hd cs) \<notin> fst ` set alts"
    and "\<forall>x \<in> set alts. 0 \<le> fst x"
    and "\<And>t. after ls cs (buff ls) (linenumber ls) t \<Longrightarrow> Q (n, None) t"
  shows "agree False ls (llex_operator n alts) Q"
  unfolding llex_operator_def
proof (rule agree_thenDo, rule exact_next [OF assms(1)])
  fix t
  assume t: "after ls cs (buff ls) (linenumber ls) t"
  show "agree False t (foldr (\<lambda>(d, t) other. andThen (check_next1 d) (\<lambda>b. if b then ret (tk t, None) else other))
        alts (ret (n, None))) Q"
    by (rule exact_alts_miss) (use t assms(2,3) in \<open>auto simp: after_def intro!: assms(4)\<close>)
qed

lemma exact_name_loop:
  assumes "inp ls = s @ cs" "s \<noteq> []" "list_all lisalnum_byte (tl s)" "cs = [] \<or> \<not> lisalnum_byte (hd cs)"
    and "length (buff ls) + length s < 2 ^ 61"
    and "\<And>t. after ls cs (buff ls @ s) (linenumber ls) t \<Longrightarrow> Q () t"
  shows "agree False ls name_loop Q"
  using assms
proof (induction s arbitrary: ls)
  case (Cons c s)
  show ?case
  proof (subst name_loop_look, rule agree_thenDo, rule exact_save_next [of ls c "s @ cs"])
    fix t
    assume t: "after ls (s @ cs) (buff ls @ [c]) (linenumber ls) t"
    then have l: "lok t" by (simp add: after_def)
    show "agree False t (look (\<lambda>ls. if lislalnum (current ls) then name_loop else ret ())) Q"
    proof (rule agree_look)
      show "agree False t (if lislalnum (current t) then name_loop else ret ()) Q"
      proof (cases s)
        case Nil
        then have "\<not> lislalnum (current t)"
          using t Cons.prems(4) EOZ_class(4)
          by (auto simp: current_inp [OF l] after_def lisalnum_byte_def split: list.splits)
        then show ?thesis using t Nil Cons.prems(6) [of t] by (auto intro!: agree_ret)
      next
        case (Cons d es)
        then have "lislalnum (current t)"
          using t Cons.prems(3) by (auto simp: current_inp [OF l] after_def lisalnum_byte_def)
        moreover have "agree False t name_loop Q"
          using t Cons Cons.prems by (intro Cons.IH) (auto simp: after_def)
        ultimately show ?thesis by simp
      qed
    qed simp
  qed (use Cons.prems in simp_all)
qed simp

lemma exact_llex_name:
  assumes "inp ls = s @ cs" "s \<noteq> []" "list_all lisalnum_byte (tl s)" "cs = [] \<or> \<not> lisalnum_byte (hd cs)"
    and "buff ls = []" "length s < 2 ^ 60"
    and "\<And>t. scanned ls cs (linenumber ls) t \<Longrightarrow>
      Q (if extra_of s > 0 then int (extra_of s) - 1 + FIRST_RESERVED else tk TK_NAME, Some (Sem_ts s)) t"
  shows "agree False ls llex_name Q"
  unfolding llex_name_def
proof (rule agree_thenDo, rule exact_name_loop [OF assms(1-4)])
  fix t
  assume t: "after ls cs (buff ls @ s) (linenumber ls) t"
  show "agree False t (look (\<lambda>ls. andThen (luaX_newstring 0 (int (length (buff ls)))) (\<lambda>ts.
        ret (if extra_of ts > 0 then int (extra_of ts) - 1 + FIRST_RESERVED else tk TK_NAME,
             Some (Sem_ts ts))))) Q"
    using t assms(5,6) assms(7)
    by (auto intro!: exact_rules simp: after_def scanned_def)
qed (use assms in simp)

text \<open>Numerals.\<close>

lemma exact_check_next2_no:
  assumes "inp ls = [] \<or> uint (hd (inp ls)) \<notin> {ch (fst cs), ch (snd cs)}" "lok ls \<Longrightarrow> Q False ls"
  shows "agree False ls (check_next2 cs) Q"
  unfolding check_next2_def
proof (rule agree_lok, rule agree_look)
  assume "lok ls"
  then show "agree False ls (if current ls = ch (fst cs) \<or> current ls = ch (snd cs)
      then thenDo save_and_next (ret True) else ret False) Q"
    using assms ch_bounds(1) [of "fst cs"] ch_bounds(1) [of "snd cs"]
    by (auto intro!: agree_ret simp: current_inp EOZ_def split: list.splits)
qed simp

lemma not_E:
  assumes "cs = [] \<or> c_isdigit (hd cs) \<or> hd cs = 32"
  shows "cs = [] \<or> uint (hd cs) \<notin> {ch (fst (CHR ''E'', CHR ''e'')), ch (snd (CHR ''E'', CHR ''e''))}"
    "cs = [] \<or> uint (hd cs) \<notin> {ch (fst (CHR ''x'', CHR ''X'')), ch (snd (CHR ''x'', CHR ''X''))}"
  using assms by (auto simp: c_isdigit_def simp flip: uint_le_iff)

lemma lisxdigit_uint: "c_isdigit b \<Longrightarrow> lisxdigit (uint b)" "\<not> lisxdigit 32"
  using ctype_classes(4) [of "uint b"] ctype_classes(4) [of 32] uint_EOZ(2) [of b]
  by (auto simp: c_isdigit_def simp flip: uint_le_iff)

lemma exact_numeral_loop:
  assumes "inp ls = ds @ cs" "\<And>d. d \<in> set ds \<Longrightarrow> c_isdigit d" "stops cs"
    and "length (buff ls) + length ds < 2 ^ 61"
    and "\<And>t. after ls cs (buff ls @ ds) (linenumber ls) t \<Longrightarrow> Q () t"
  shows "agree False ls (numeral_loop (CHR ''E'', CHR ''e'')) Q"
  using assms
proof (induction ds arbitrary: ls)
  case Nil
  have "agree False ls (look (\<lambda>ls. if lisxdigit (current ls) \<or> current ls = ch CHR ''.''
      then thenDo save_and_next (numeral_loop (CHR ''E'', CHR ''e'')) else ret ())) Q" if l: "lok ls"
  proof (rule agree_look)
    have "\<not> (lisxdigit (current ls) \<or> current ls = ch CHR ''.'')"
      using Nil(1,3) EOZ_class(1) lisxdigit_uint(2)
      by (auto simp: current_inp [OF l] stops_def EOZ_def split: list.splits)
    then show "agree False ls (if lisxdigit (current ls) \<or> current ls = ch CHR ''.''
      then thenDo save_and_next (numeral_loop (CHR ''E'', CHR ''e'')) else ret ()) Q"
      using Nil(5) [of ls] Nil(1) l by (simp add: agree_ret after_def)
  qed simp
  moreover have "inp ls = [] \<or> uint (hd (inp ls)) \<notin> {ch (fst (CHR ''E'', CHR ''e'')), ch (snd (CHR ''E'', CHR ''e''))}"
    using not_E(1) [of cs] Nil(1,3) by (auto simp: stops_def)
  ultimately show ?case
    by (subst numeral_loop_look) (auto intro!: agree_andThen exact_check_next2_no agree_thenDo agree_ret)
next
  case (Cons d ds)
  have d: "c_isdigit d" using Cons.prems(2) by simp
  have "agree False ls (look (\<lambda>ls. if lisxdigit (current ls) \<or> current ls = ch CHR ''.''
      then thenDo save_and_next (numeral_loop (CHR ''E'', CHR ''e'')) else ret ())) Q" if l: "lok ls"
  proof (rule agree_look)
    have "agree False t (numeral_loop (CHR ''E'', CHR ''e'')) Q"
      if "after ls (ds @ cs) (buff ls @ [d]) (linenumber ls) t" for t
      using that Cons.prems by (intro Cons.IH) (auto simp: after_def)
    then show "agree False ls (if lisxdigit (current ls) \<or> current ls = ch CHR ''.''
      then thenDo save_and_next (numeral_loop (CHR ''E'', CHR ''e'')) else ret ()) Q"
      using Cons.prems(1,4) lisxdigit_uint(1) [OF d] l
      by (auto intro!: agree_thenDo exact_save_next simp: current_inp)
  qed simp
  moreover have "inp ls = [] \<or> uint (hd (inp ls)) \<notin> {ch (fst (CHR ''E'', CHR ''e'')), ch (snd (CHR ''E'', CHR ''e''))}"
    using not_E(1) [of "inp ls"] Cons.prems(1) d by simp
  ultimately show ?case
    by (subst numeral_loop_look) (auto intro!: agree_andThen exact_check_next2_no agree_thenDo agree_ret)
qed

lemma exact_buffreplace:
  assumes "c \<notin> set (buff ls)" "lok ls \<Longrightarrow> Q () ls"
  shows "agree False ls (buffreplace c d) Q"
proof -
  have "map (\<lambda>b. if b = c then d else b) (buff ls) = buff ls"
    using assms(1) by (intro map_idI) auto
  then have "agree False ls (when_p (c \<noteq> d) (modify (\<lambda>ls. ls\<lparr>buff := map (\<lambda>b. if b = c then d else b) (buff ls)\<rparr>))) Q"
    if "lok ls"
    using assms(2) that unfolding when_p_def by (auto intro!: agree_modify agree_ret simp: lok_buff)
  then show ?thesis unfolding buffreplace_def by (rule agree_lok)
qed

lemma str2num_decimal: "luaO_str2num E (decimal_bytes n @ [0]) = Some (Sem_i (word_of_nat n))"
proof -
  have "b \<noteq> 0" if "b \<in> set (decimal_bytes n)" for b
    using c_isdigit_decimal [OF that] by (auto simp: c_isdigit_def)
  then have "c_str (decimal_bytes n @ [0]) = decimal_bytes n"
    by (simp add: c_str_def takeWhile_append)
  moreover have "l_str2int (decimal_bytes n) = Some (word_of_nat n)"
    using str2int_decimal [of "[]" "[]" False n] by simp
  ultimately show ?thesis by (simp add: luaO_str2num_def)
qed

lemma exact_llex_numeral:
  assumes "inp ls = decimal_bytes n @ cs" "stops cs" "buff ls = []" "length (decimal_bytes n) < 2 ^ 60"
    and "\<And>t. scanned ls cs (linenumber ls) t \<Longrightarrow> Q (tk TK_INT, Some (Sem_i (word_of_nat n))) t"
  shows "agree False ls (llex_numeral E) Q"
proof -
  obtain d ds where d: "decimal_bytes n = d # ds"
    using decimal_digits [of n] by (cases "decimal_bytes n") auto
  have dig: "c_isdigit b" if "b \<in> set (d # ds)" for b using that c_isdigit_decimal d by metis
  have hex: "ds @ cs = [] \<or> uint (hd (ds @ cs)) \<notin> {ch (fst (CHR ''x'', CHR ''X'')), ch (snd (CHR ''x'', CHR ''X''))}"
    using not_E(2) [of "ds @ cs"] dig assms(2) by (cases ds) (auto simp: stops_def)
  have last: "agree False t (thenDo (look (\<lambda>ls. buffreplace 46 (decpoint ls)))
     (andThen (look (\<lambda>ls. case luaO_str2num E (buff ls) of Some obj \<Rightarrow> ret obj | None \<Rightarrow> trydecpoint E))
     (\<lambda>obj. ret (case obj of Sem_i i \<Rightarrow> tk TK_INT | _ \<Rightarrow> tk TK_FLT, obj))))
     (\<lambda>a t. agree False t (case a of (t, s) \<Rightarrow> ret (t, Some s)) Q)"
    if t: "after ls cs (decimal_bytes n @ [0]) (linenumber ls) t" for t
  proof (intro agree_thenDo agree_look exact_buffreplace agree_andThen, goal_cases)
    case 2
    have "46 \<notin> set (decimal_bytes n)" using c_isdigit_decimal [of 46 n] by (auto simp: c_isdigit_def)
    then show ?case using t by (simp add: after_def)
  next
    case 4
    then show ?case
      using t assms(5) str2num_decimal [of E n] by (auto intro!: agree_ret simp: after_def scanned_def)
  qed simp_all
  let ?rest = "thenDo (numeral_loop (CHR ''E'', CHR ''e''))
     (thenDo (save 0)
     (thenDo (look (\<lambda>ls. buffreplace 46 (decpoint ls)))
     (andThen (look (\<lambda>ls. case luaO_str2num E (buff ls) of Some obj \<Rightarrow> ret obj | None \<Rightarrow> trydecpoint E))
     (\<lambda>obj. ret (case obj of Sem_i i \<Rightarrow> tk TK_INT | _ \<Rightarrow> tk TK_FLT, obj)))))"
  let ?P = "\<lambda>a t. agree False t (case a of (t, s) \<Rightarrow> ret (t, Some s)) Q"
  have rest: "agree False t ?rest ?P" if t: "after ls (ds @ cs) [d] (linenumber ls) t" for t
  proof (rule agree_thenDo, rule exact_numeral_loop [of t ds cs])
    show "agree False u (thenDo (save 0)
     (thenDo (look (\<lambda>ls. buffreplace 46 (decpoint ls)))
     (andThen (look (\<lambda>ls. case luaO_str2num E (buff ls) of Some obj \<Rightarrow> ret obj | None \<Rightarrow> trydecpoint E))
     (\<lambda>obj. ret (case obj of Sem_i i \<Rightarrow> tk TK_INT | _ \<Rightarrow> tk TK_FLT, obj))))) ?P"
      if "after t cs (buff t @ ds) (linenumber t) u" for u
      by (rule agree_thenDo, rule exact_save, use that t assms(4) d in \<open>simp add: after_def\<close>, rule last)
        (use that t d in \<open>simp add: after_def\<close>)
  qed (use t assms(2,4) dig d in \<open>auto simp: after_def\<close>)
  show ?thesis
    unfolding llex_numeral_def read_numeral_def Let_def
  proof (rule agree_andThen, rule agree_look, goal_cases)
    case 2
    show ?case
    proof (rule agree_thenDo, rule exact_save_next [of ls d "ds @ cs"])
      fix t
      assume t: "after ls (ds @ cs) (buff ls @ [d]) (linenumber ls) t"
      have "agree False t (if current ls = ch CHR ''0'' then check_next2 (CHR ''x'', CHR ''X'') else ret False)
         (\<lambda>hex t. \<not> hex \<and> after ls (ds @ cs) [d] (linenumber ls) t)"
        using t hex assms(3) by (auto intro!: exact_check_next2_no agree_ret simp: after_def)
      then show "agree False t (andThen (if current ls = ch CHR ''0'' then check_next2 (CHR ''x'', CHR ''X'') else ret False) (\<lambda>hex.
     thenDo (numeral_loop (if hex then (CHR ''P'', CHR ''p'') else (CHR ''E'', CHR ''e'')))
     (thenDo (save 0)
     (thenDo (look (\<lambda>ls. buffreplace 46 (decpoint ls)))
     (andThen (look (\<lambda>ls. case luaO_str2num E (buff ls) of Some obj \<Rightarrow> ret obj | None \<Rightarrow> trydecpoint E))
     (\<lambda>obj. ret (case obj of Sem_i i \<Rightarrow> tk TK_INT | _ \<Rightarrow> tk TK_FLT, obj))))))) ?P"
        by (intro agree_andThen) (erule agree_weaken, use rest in simp)
    qed (use assms d in simp_all)
  qed simp
qed

text \<open>Which branch of \<open>llex\<close> the first character selects.\<close>

lemma exact_loop_token:
  assumes "inp ls = c # cs" "c \<notin> {10, 13, 32, 12, 9, 11, 45}" "agree False ls (llex_token E) Q"
  shows "agree False ls (llex_loop E) Q"
proof (subst llex_loop_look, rule agree_lok, rule agree_look, goal_cases)
  case 2
  have "uint c \<noteq> 10" "uint c \<noteq> 13" "uint c \<noteq> 32" "uint c \<noteq> 12" "uint c \<noteq> 9" "uint c \<noteq> 11" "uint c \<noteq> 45"
    using assms(2) byte_is by auto
  then show ?case using assms(1,3) 2 by (simp add: current_inp currIsNewline_def)
qed (simp add: currIsNewline_def)

lemma exact_loop_space:
  assumes "inp ls = 32 # cs" "\<And>t. after ls cs (buff ls) (linenumber ls) t \<Longrightarrow> agree False t (llex_loop E) Q"
  shows "agree False ls (llex_loop E) Q"
proof (subst llex_loop_look, rule agree_lok, rule agree_look, goal_cases)
  case 2
  then show ?case using assms
    by (auto intro!: agree_thenDo exact_next simp: current_inp currIsNewline_def)
qed (simp add: currIsNewline_def)

lemma exact_loop_minus:
  assumes "inp ls = 45 # cs" "stops cs" "\<And>t. after ls cs (buff ls) (linenumber ls) t \<Longrightarrow> Q (45, None) t"
  shows "agree False ls (llex_loop E) Q"
proof (subst llex_loop_look, rule agree_lok, rule agree_look, goal_cases)
  case 2
  have "agree False t (look (\<lambda>ls. if current ls \<noteq> ch CHR ''-'' then ret (ch CHR ''-'', None)
         else thenDo lnext (thenDo comment (llex_loop E)))) Q"
    if t: "after ls cs (buff ls) (linenumber ls) t" for t
  proof (rule agree_look)
    have "current t \<noteq> ch CHR ''-''"
      using t assms(2) by (auto simp: after_def current_inp stops_def EOZ_def split: list.splits)
    then show "agree False t (if current t \<noteq> ch CHR ''-'' then ret (ch CHR ''-'', None)
         else thenDo lnext (thenDo comment (llex_loop E))) Q"
      using assms(3) [OF t] by (simp add: agree_ret)
  qed simp
  then show ?case using assms(1) 2
    by (auto intro!: agree_thenDo exact_next simp: current_inp currIsNewline_def)
qed (simp add: currIsNewline_def)

lemma exact_loop_end:
  assumes "inp ls = []" "lok ls \<Longrightarrow> Q (tk TK_EOS, None) ls"
  shows "agree False ls (llex_loop E) Q"
proof (subst llex_loop_look, rule agree_lok, rule agree_look, goal_cases)
  case 2
  then have "current ls = EOZ" using assms(1) by (simp add: current_inp)
  moreover from this have "agree False ls (llex_token E) Q"
    unfolding llex_token_def using assms(2) 2
    by (intro agree_look) (auto simp: EOZ_def intro!: agree_ret)
  ultimately show ?case by (simp add: currIsNewline_def EOZ_def)
qed (simp add: currIsNewline_def)

definition operators :: "(byte \<times> (int \<times> RESERVED) list) list" where
  "operators =
     [(61, [(61, TK_EQ)]), (60, [(61, TK_LE), (60, TK_SHL)]), (62, [(61, TK_GE), (62, TK_SHR)]),
      (47, [(47, TK_IDIV)]), (126, [(61, TK_NE)]), (58, [(58, TK_DBCOLON)])]"

lemma agree_eq:
  assumes "\<And>s. lok s \<Longrightarrow> current s = current ls \<Longrightarrow> m s = m' s" "agree err ls m' Q"
  shows "agree err ls m Q"
proof (rule agreeI)
  fix ls'
  assume s: "same ls ls'"
  then have "lok ls" "lok ls'" by (simp_all add: same_def)
  moreover from s have "current ls' = current ls" by (auto elim!: sameE)
  ultimately show "agrees err Q (m ls) (m ls')"
    using agreeD [OF assms(2) s] assms(1) by simp
qed

lemma exact_token:
  assumes "inp ls = c # cs" "\<And>s. current s = uint c \<Longrightarrow> llex_token E s = m s" "agree False ls m Q"
  shows "agree False ls (llex_token E) Q"
  by (rule agree_lok, rule agree_eq [OF _ assms(3)]) (use assms(1,2) in \<open>simp add: current_inp\<close>)

lemma token_operator:
  "(c, alts) \<in> set operators \<Longrightarrow> current s = uint c \<Longrightarrow> llex_token E s = llex_operator (uint c) alts s"
  by (auto simp: operators_def llex_token_def look_run)

lemma token_string:
  "current s = 34 \<Longrightarrow> llex_token E s = andThen (read_string 34) (\<lambda>s. ret (tk TK_STRING, Some (Sem_ts s))) s"
  by (simp add: llex_token_def look_run)

lemma token_digit: "c_isdigit c \<Longrightarrow> current s = uint c \<Longrightarrow> llex_token E s = llex_numeral E s"
  by (auto simp: llex_token_def look_run c_isdigit_def simp flip: uint_le_iff)

lemma lislalpha_uint:
  "lislalpha (uint (c :: byte)) \<longleftrightarrow> 65 \<le> uint c \<and> uint c \<le> 90 \<or> 97 \<le> uint c \<and> uint c \<le> 122 \<or> uint c = 95"
  using ctype_classes(2) [of "uint c"] uint_EOZ(2) [of c] by simp

lemma token_name:
  assumes "lislalpha (uint (c :: byte))" "current s = uint c"
  shows "llex_token E s = llex_name s"
proof -
  have "uint c \<notin> {91, 61, 60, 62, 47, 126, 58, 34, 39, 46}" "uint c \<notin> {48..57}"
    using assms(1) unfolding lislalpha_uint by auto
  then show ?thesis using assms uint_EOZ(1) [of c] by (auto simp: llex_token_def look_run Let_def)
qed

lemma token_other:
  assumes "c \<notin> fst ` set operators" "c \<notin> {91, 34, 39, 46}" "\<not> lislalpha (uint c)" "\<not> c_isdigit c"
    "current s = uint c"
  shows "llex_token E s = thenDo lnext (ret (uint c, None)) s"
proof -
  have "uint c \<noteq> 91" "uint c \<noteq> 34" "uint c \<noteq> 39" "uint c \<noteq> 46" using assms(2) byte_is by auto
  moreover have "uint c \<noteq> 61" "uint c \<noteq> 60" "uint c \<noteq> 62" "uint c \<noteq> 47" "uint c \<noteq> 126" "uint c \<noteq> 58"
    using assms(1) byte_is by (auto simp: operators_def)
  moreover have "uint c \<notin> {48..57}" using assms(4) by (auto simp: c_isdigit_def simp flip: uint_le_iff)
  ultimately show ?thesis using assms(3,5) uint_EOZ(1) [of c] by (auto simp: llex_token_def look_run)
qed

lemma exact_dot:
  assumes "inp ls = 46 # ds @ cs" "ds \<in> {[], [46], [46, 46]}" "stops cs" "length (buff ls) < 2 ^ 60"
    and "\<And>t. scanned ls cs (linenumber ls) t \<Longrightarrow>
      Q (if ds = [] then 46 else if ds = [46] then tk TK_CONCAT else tk TK_DOTS, None) t"
  shows "agree False ls (llex_token E) Q"
proof (rule exact_token [OF assms(1)])
  let ?three = "andThen (check_next1 46) (\<lambda>three. ret (if three then tk TK_DOTS else tk TK_CONCAT, None))"
  let ?one = "look (\<lambda>ls. if \<not> lisdigit (current ls) then ret (46, None) else llex_numeral E)"
  let ?m = "thenDo save_and_next (andThen (check_next1 46) (\<lambda>two. if two then ?three else ?one))"
  show "llex_token E s = ?m s" if "current s = uint (46 :: byte)" for s
    using that by (simp add: llex_token_def look_run cong: if_cong)
  have no: "inp u = [] \<or> uint (hd (inp u)) \<noteq> 46" if "inp u = cs" for u
    using that assms(3) by (auto simp: stops_def)
  have three: "agree False u ?three Q"
    if u: "after ls (es @ cs) (buff ls @ [46]) (linenumber ls) u" and ds: "ds = 46 # es" for u es
  proof (cases es)
    case Nil
    have "lok u \<Longrightarrow> agree False u (ret (if False then tk TK_DOTS else tk TK_CONCAT, None)) Q"
      using u assms(5) [of u] Nil ds by (intro agree_ret) (simp add: after_def scanned_def)
    then show ?thesis
      using no [of u] u Nil by (intro agree_andThen exact_check_next1_no) (auto simp: after_def)
  next
    case (Cons d fs)
    then have d: "d = 46" "fs = []" using assms(2) ds by auto
    have "agree False v (ret (if True then tk TK_DOTS else tk TK_CONCAT, None)) Q"
      if "after u cs (buff u) (linenumber u) v" for v
      using that u assms(5) [of v] Cons ds d by (intro agree_ret) (auto simp: after_def scanned_def)
    then show ?thesis
      using u Cons d by (intro agree_andThen exact_check_next1_yes [of u 46 cs]) (auto simp: after_def)
  qed
  show "agree False ls ?m Q"
  proof (rule agree_thenDo, rule exact_save_next [OF assms(1)])
    fix t
    assume t: "after ls (ds @ cs) (buff ls @ [46]) (linenumber ls) t"
    show "agree False t (andThen (check_next1 46) (\<lambda>two. if two then ?three else ?one)) Q"
    proof (cases ds)
      case Nil
      have one: "agree False t ?one Q" if l: "lok t"
      proof (rule agree_look)
        have "\<not> lisdigit (current t)"
          using t Nil assms(3) EOZ_class(2) lisdigit_uint [of 32]
          by (auto simp: after_def current_inp [OF l] stops_def c_isdigit_def split: list.splits)
        then show "agree False t (if \<not> lisdigit (current t) then ret (46, None) else llex_numeral E) Q"
          using t Nil assms(5) [of t] by (auto intro!: agree_ret simp: after_def scanned_def)
      qed simp
      show ?thesis
        by (rule agree_andThen, rule exact_check_next1_no)
          (use t Nil no [of t] one in \<open>auto simp: after_def\<close>)
    next
      case (Cons d es)
      then have d: "d = 46" using assms(2) by auto
      have "agree False u (if True then ?three else ?one) Q"
        if "after t (es @ cs) (buff t) (linenumber t) u" for u
        using that t Cons d three [of es u] by (simp add: after_def)
      then show ?thesis
        using t Cons d by (intro agree_andThen exact_check_next1_yes [of t 46 "es @ cs"]) (auto simp: after_def)
    qed
  qed (use assms(4) in simp)
qed

lemma exact_bracket:
  assumes "inp ls = 91 # cs" "stops cs" "length (buff ls) < 2 ^ 60"
    and "\<And>t. scanned ls cs (linenumber ls) t \<Longrightarrow> Q (91, None) t"
  shows "agree False ls (llex_token E) Q"
proof (rule exact_token [OF assms(1)])
  let ?rest = "\<lambda>sep. if sep \<ge> 0 then
        andThen (read_long_string True sep) (\<lambda>s. ret (tk TK_STRING, map_option Sem_ts s))
      else if sep \<noteq> - 1 then lexerror (bytes_of ''invalid long string delimiter'') (tk TK_STRING)
      else ret (91, None)"
  show "llex_token E s = andThen skip_sep ?rest s" if "current s = uint (91 :: byte)" for s
    using that by (simp add: llex_token_def look_run cong: if_cong)
  have fin: "agree False t (gets (\<lambda>ls. if current ls = 91 then 0 else - 0 - 1)) (\<lambda>sep t. agree False t (?rest sep) Q)"
    if "after ls cs (buff ls @ [91]) (linenumber ls) t" for t
  proof (rule agree_gets)
    have "current t \<noteq> 91"
      using that assms(2) by (auto simp: after_def current_inp stops_def EOZ_def split: list.splits)
    moreover have "Q (91, None) t" using that by (intro assms(4)) (simp add: after_def scanned_def)
    ultimately show "agree False t (?rest (if current t = 91 then 0 else - 0 - 1)) Q" by (simp add: agree_ret)
  qed simp
  have sep: "agree False t (andThen (sep_loop 0) (\<lambda>count. gets (\<lambda>ls. if current ls = 91 then count else - count - 1)))
      (\<lambda>sep t. agree False t (?rest sep) Q)"
    if t: "after ls cs (buff ls @ [91]) (linenumber ls) t" for t
  proof (rule agree_andThen, subst sep_loop_look, rule agree_look)
    have "current t \<noteq> ch CHR ''=''"
      using t assms(2) by (auto simp: after_def current_inp stops_def EOZ_def split: list.splits)
    then show "agree False t (if current t = ch CHR ''='' then
         if (0 :: int) = int INT_MAX then stop (Undefined ''count overflows'')
         else thenDo save_and_next (sep_loop (0 + 1))
       else ret 0)
      (\<lambda>a t. agree False t (gets (\<lambda>ls. if current ls = 91 then a else - a - 1)) (\<lambda>sep t. agree False t (?rest sep) Q))"
      using fin [OF t] by (simp add: agree_ret)
  qed simp
  have skip: "skip_sep s = thenDo save_and_next
      (andThen (sep_loop 0) (\<lambda>count. gets (\<lambda>ls. if current ls = 91 then count else - count - 1))) s"
    if "current s = 91" for s
    using that by (simp add: skip_sep_def look_run)
  show "agree False ls (andThen skip_sep ?rest) Q"
  proof (rule agree_andThen, rule agree_lok, rule agree_eq [OF skip])
    assume "lok ls"
    then show "current s = 91" if "current s = current ls" for s
      using that assms(1) by (simp add: current_inp)
    show "agree False ls (thenDo save_and_next
      (andThen (sep_loop 0) (\<lambda>count. gets (\<lambda>ls. if current ls = 91 then count else - count - 1))))
      (\<lambda>sep t. agree False t (?rest sep) Q)"
      using assms(1,3) sep by (auto intro!: agree_thenDo exact_save_next)
  qed
qed

lemma alnum_not:
  "lisalnum_byte c \<longleftrightarrow> lislalpha (uint c) \<or> c_isdigit c"
  "\<not> lisalnum_byte 32" "c_isdigit c \<Longrightarrow> \<not> lislalpha (uint c)"
  using ctype_classes(3) [of "uint c"] ctype_classes(3) [of 32] uint_EOZ(2) [of c]
  by (auto simp: lisalnum_byte_def lislalpha_uint c_isdigit_def simp flip: uint_le_iff)

lemma reserved_words:
  assumes "tk r \<le> tk TK_WHILE"
  shows "fixed_spelling r \<noteq> [] \<and> lislalpha (uint (hd (fixed_spelling r))) \<and>
     list_all lisalnum_byte (fixed_spelling r) \<and> int (extra_of (fixed_spelling r)) - 1 + FIRST_RESERVED = tk r \<and>
     0 < extra_of (fixed_spelling r)"
proof -
  have "list_all (\<lambda>i. let w = bytes_of (luaX_tokens ! i) in w \<noteq> [] \<and>
      list_all (\<lambda>c. 97 \<le> uint c \<and> uint c \<le> 122) w \<and> extra_of w = Suc i) [0..<22]" by code_simp
  moreover have "257 \<le> tk r" by (cases r) simp_all
  then have "nat (tk r - 257) \<in> set [0..<22]" unfolding set_upt using assms by simp
  ultimately have w: "fixed_spelling r \<noteq> []" "\<And>c. c \<in> set (fixed_spelling r) \<Longrightarrow> 97 \<le> uint c \<and> uint c \<le> 122"
     "extra_of (fixed_spelling r) = Suc (nat (tk r - 257))"
    unfolding list_all_iff fixed_spelling_def FIRST_RESERVED_def Let_def by blast+
  then have "\<And>c. c \<in> set (fixed_spelling r) \<Longrightarrow> lislalpha (uint c)" by (simp add: lislalpha_uint)
  with w show ?thesis
    using \<open>257 \<le> tk r\<close> by (auto simp: FIRST_RESERVED_def list_all_iff alnum_not)
qed

definition lexeme_lines :: "lexeme \<Rightarrow> int" where
  "lexeme_lines l = (case l of L_str s \<Rightarrow> int (count_list s 10) | _ \<Rightarrow> 0)"

lemma quoted_length: "length s \<le> length (quoted_bytes s)"
  by (induction s) (auto simp: three_digits_def Let_def)

lemma exact_word:
  assumes "inp ls = s @ cs" "s \<noteq> []" "lislalpha (uint (hd s))" "list_all lisalnum_byte s" "stops cs"
    and "buff ls = []" "length s < 2 ^ 60"
    and "\<And>t. scanned ls cs (linenumber ls) t \<Longrightarrow>
      Q (if extra_of s > 0 then int (extra_of s) - 1 + FIRST_RESERVED else tk TK_NAME, Some (Sem_ts s)) t"
  shows "agree False ls (llex_loop E) Q"
proof -
  obtain c s' where s: "s = c # s'" using assms(2) by (cases s) auto
  have c: "lislalpha (uint c)" using assms(3) s by simp
  then have n: "c \<notin> {10, 13, 32, 12, 9, 11, 45}" by (auto simp: lislalpha_uint)
  have "agree False ls llex_name Q"
    by (rule exact_llex_name [of ls s cs])
      (use assms s alnum_not(2) in \<open>auto simp: stops_def\<close>)
  then show ?thesis
    using assms(1) s n c
    by (intro exact_loop_token [of ls c "s' @ cs"] exact_token [of ls c "s' @ cs"]) (auto intro: token_name)
qed

lemma exact_symbol2:
  assumes "inp ls = c # d # cs" "(c, alts) \<in> set operators" "map_of alts (uint d) = Some r"
    and "\<And>t. scanned ls cs (linenumber ls) t \<Longrightarrow> Q (tk r, None) t"
  shows "agree False ls (llex_loop E) Q"
proof -
  have n: "c \<notin> {10, 13, 32, 12, 9, 11, 45}" "\<forall>x \<in> set alts. 0 \<le> fst x"
    using assms(2) by (auto simp: operators_def)
  have "agree False ls (llex_operator (uint c) alts) Q"
    by (rule exact_operator_hit [OF assms(1,3) n(2)]) (auto intro!: assms(4) after_scanned)
  then show ?thesis
    using assms(1,2) n(1)
    by (intro exact_loop_token [of ls c "d # cs"] exact_token [of ls c "d # cs"]) (auto intro: token_operator)
qed

lemma exact_symbol1:
  assumes "inp ls = c # cs" "stops cs" "printable (L_char c)" "buff ls = []"
    and "\<And>t. scanned ls cs (linenumber ls) t \<Longrightarrow> Q (uint c, None) t"
  shows "agree False ls (llex_loop E) Q"
proof (cases "c = 45")
  case True
  then show ?thesis using assms(1,2,5)
    by (intro exact_loop_minus [of ls cs]) (auto intro!: after_scanned)
next
  case False
  from assms(3) have p: "\<not> lislalpha (uint c)" "\<not> c_isdigit c" "c \<notin> {34, 39}" "\<not> (9 \<le> c \<and> c \<le> 13)" "c \<noteq> 32"
    by (auto simp: alnum_not)
  then have n: "c \<notin> {10, 13, 32, 12, 9, 11, 45}" using False by auto
  have "agree False ls (llex_token E) Q"
  proof (cases "c = 46 \<or> c = 91")
    case True
    then show ?thesis
    proof
      assume "c = 46"
      then show ?thesis using assms(1,2,4,5) by (intro exact_dot [of ls "[]" cs]) auto
    next
      assume "c = 91"
      then show ?thesis using assms(1,2,4,5) by (intro exact_bracket [of ls cs]) auto
    qed
  next
    case dot: False
    show ?thesis
    proof (cases "c \<in> fst ` set operators")
      case True
      then obtain alts where o: "(c, alts) \<in> set operators" by auto
      then have "\<forall>x \<in> set alts. 0 \<le> fst x" "\<And>r. (32, r) \<notin> set alts" by (auto simp: operators_def)
      then have "agree False ls (llex_operator (uint c) alts) Q"
        using assms(1,2,5)
        by (intro exact_operator_miss [of ls c cs]) (auto simp: stops_def intro!: after_scanned)
      then show ?thesis
        using assms(1) o by (intro exact_token [of ls c cs]) (auto intro: token_operator)
    next
      case False
      then show ?thesis
        using assms(1,5) dot p
        by (intro exact_token [OF assms(1) token_other])
          (auto intro!: agree_thenDo exact_next agree_ret after_scanned)
    qed
  qed
  then show ?thesis by (rule exact_loop_token [OF assms(1) n])
qed

lemma exact_lexeme:
  assumes "inp ls = spell l @ cs" "stops cs" "printable l" "buff ls = []" "length (spell l) < 2 ^ 59"
    and "linenumber ls + lexeme_lines l < int INT_MAX"
    and "\<And>t. scanned ls cs (linenumber ls + lexeme_lines l) t \<Longrightarrow> Q (lexeme_token l) t"
  shows "agree False ls (llex_loop E) Q"
proof (cases l)
  case (L_fixed r)
  have q: "scanned ls cs (linenumber ls) t \<Longrightarrow> Q (lexeme_token (L_fixed r)) t" for t
    using assms(7) L_fixed by (simp add: lexeme_lines_def)
  show ?thesis
  proof (cases "tk r \<le> tk TK_WHILE")
    case True
    from reserved_words [OF True] True assms(1,2,4,5) L_fixed q show ?thesis
      by (intro exact_word [of ls "fixed_spelling r" cs]) (auto simp del: tk.simps)
  next
    case False
    then consider (pair) c d alts where "fixed_spelling r = [c, d]" "(c, alts) \<in> set operators" "map_of alts (uint d) = Some r"
      | (dots) ds where "fixed_spelling r = 46 # ds" "ds \<in> {[46], [46, 46]}"
          "tk r = (if ds = [46] then tk TK_CONCAT else tk TK_DOTS)"
      using assms(3) L_fixed
      by (cases r) (auto simp: fixed_spelling_def luaX_tokens_def bytes_of_def FIRST_RESERVED_def operators_def)
    then show ?thesis
    proof cases
      case pair
      then show ?thesis using assms(1) L_fixed False q
        by (intro exact_symbol2 [of ls c d cs alts r]) auto
    next
      case dots
      have "agree False ls (llex_token E) Q"
        using assms(1,2,4) L_fixed dots False q
        by (intro exact_dot [of ls ds cs]) (auto simp del: tk.simps split: if_splits)
      then show ?thesis using assms(1) L_fixed dots by (intro exact_loop_token [of ls 46 "ds @ cs"]) auto
    qed
  qed
next
  case (L_char c)
  then show ?thesis using assms(1-4,7) by (intro exact_symbol1 [of ls c cs]) (auto simp: lexeme_lines_def)
next
  case (L_name s)
  then show ?thesis using assms by (intro exact_word [of ls s cs]) (auto simp: lexeme_lines_def)
next
  case (L_int i)
  then have sp: "spell l = decimal_bytes (nat (sint i))" using assms(3) by (simp add: lua_integer2str_def)
  obtain d ds where d: "decimal_bytes (nat (sint i)) = d # ds"
    using decimal_digits [of "nat (sint i)"] by (cases "decimal_bytes (nat (sint i))") auto
  then have dig: "c_isdigit d" using c_isdigit_decimal [of d "nat (sint i)"] by simp
  have "(word_of_nat (nat (sint i)) :: lua_Integer) = i"
    using L_int assms(3) by (simp add: word_of_nat_of_int)
  then have "agree False ls (llex_numeral E) Q"
    using assms sp L_int by (intro exact_llex_numeral [of ls "nat (sint i)" cs]) (auto simp: lexeme_lines_def)
  moreover have "d \<notin> {10, 13, 32, 12, 9, 11, 45}" using dig by (auto simp: c_isdigit_def)
  ultimately show ?thesis
    using assms(1) sp d dig
    by (intro exact_loop_token [of ls d "ds @ cs"] exact_token [of ls d "ds @ cs"]) (auto intro: token_digit)
next
  case (L_str s)
  have "length s < 2 ^ 59" using assms(5) L_str quoted_length [of s] by (simp add: addquoted_def)
  then have "agree False ls (andThen (read_string 34) (\<lambda>s. ret (tk TK_STRING, Some (Sem_ts s)))) Q"
    using assms L_str
    by (intro agree_andThen exact_read_string [of ls s cs] agree_ret) (auto simp: lexeme_lines_def scanned_def)
  then show ?thesis
    using assms(1) L_str
    by (intro exact_loop_token [of ls 34 "quoted_bytes s @ 34 # cs"] exact_token [of ls 34 "quoted_bytes s @ 34 # cs"])
      (auto simp: addquoted_def simp del: tk.simps intro: token_string)
qed

section \<open>Scanning a printed list of tokens\<close>

definition print_tokens :: "lexeme list \<Rightarrow> bytes" where
  "print_tokens ls = concat (map (\<lambda>l. 32 # spell l) ls)"

text \<open>The tokens that the parser gets; one without a semantic value keeps the last one stored.\<close>

definition make_token :: "SemInfo \<Rightarrow> int \<times> SemInfo option \<Rightarrow> Token" where
  "make_token sem a =
     \<lparr>token = fst a, seminfo = (case snd a of None \<Rightarrow> sem | Some v \<Rightarrow> v)\<rparr>"

primrec token_list :: "SemInfo \<Rightarrow> lexeme list \<Rightarrow> Token list" where
  "token_list sem [] = [make_token sem (tk TK_EOS, None)]"
| "token_list sem (l # ls) =
     make_token sem (lexeme_token l) #
     token_list (seminfo (make_token sem (lexeme_token l))) ls"

lemma stops_print: "stops (print_tokens ls)"
  by (cases ls) (simp_all add: stops_def print_tokens_def)

lemma lexeme_lines_le: "lexeme_lines l \<le> int (length (spell l))"
proof (cases l)
  case (L_str s)
  have "count_list s 10 \<le> length s" by (rule count_le_length)
  then show ?thesis using quoted_length [of s] L_str by (simp add: lexeme_lines_def addquoted_def)
qed (simp_all add: lexeme_lines_def)

lemma agrees_total: "agrees False (\<lambda>a t. a = b) x y \<Longrightarrow> fst x = Inr b"
  by (cases x) (auto simp: agrees_def split: sum.splits)

lemma exact_luaX_next:
  assumes "token (lookahead ls) = tk TK_EOS"
    and "agree False (ls\<lparr>lastline := linenumber ls\<rparr>) (llex E)
      (\<lambda>a t. agree False t (modify (\<lambda>ls. ls\<lparr>tok := make_token (seminfo (tok ls0)) a\<rparr>)) Q)"
    and "tok ls0 = tok ls"
  shows "agree False ls (luaX_next E) Q"
  unfolding luaX_next_def llex_into_def
proof (intro agree_thenDo agree_modify agree_look, goal_cases)
  case 6
  let ?ls = "ls\<lparr>lastline := linenumber ls\<rparr>"
  have "agree False ?ls (andThen (andThen (llex E) (\<lambda>(n, s).
       ret \<lparr>token = n, seminfo = (case s of None \<Rightarrow> seminfo (tok ?ls) | Some v \<Rightarrow> v)\<rparr>))
     (\<lambda>t. modify (\<lambda>ls. ls\<lparr>tok := t\<rparr>))) Q"
    by (intro agree_andThen agree_weaken [OF assms(2)])
      (auto simp: make_token_def assms(3) cong: option.case_cong intro!: agree_ret)
  then show ?case using assms(1) by simp
qed (simp_all cong: if_cong option.case_cong)

lemma exact_llex_print:
  assumes "inp ls = print_tokens (l # lx)" "printable l" "linenumber ls + int (length (inp ls)) < int INT_MAX"
    and "0 \<le> linenumber ls"
    and "\<And>t. scanned ls (print_tokens lx) (linenumber ls + lexeme_lines l) t \<Longrightarrow> Q (lexeme_token l) t"
  shows "agree False ls (llex E) Q"
  unfolding llex_def
proof (rule agree_thenDo, rule exact_reset, rule exact_loop_space)
  fix t u
  assume t: "after ls (inp ls) [] (linenumber ls) t"
    and u: "after t (spell l @ print_tokens lx) (buff t) (linenumber t) u"
  have len: "length (inp ls) = 1 + length (spell l) + length (print_tokens lx)"
    using assms(1) by (simp add: print_tokens_def)
  then have "length (spell l) < 2 ^ 59" using assms(3,4) by (simp add: INT_MAX_def)
  moreover have "linenumber ls + lexeme_lines l < int INT_MAX"
    using lexeme_lines_le [of l] len assms(3) by simp
  ultimately show "agree False u (llex_loop E) Q"
    using t u assms(2) stops_print
    by (intro exact_lexeme [of u l "print_tokens lx"]) (auto simp: after_def scanned_def intro!: assms(5))
next
  fix t
  assume "after ls (inp ls) [] (linenumber ls) t"
  then show "inp t = 32 # (spell l @ print_tokens lx)" using assms(1) by (simp add: after_def print_tokens_def)
qed

lemma exact_tokens:
  assumes "inp ls = print_tokens lx" "list_all printable lx" "token (lookahead ls) = tk TK_EOS"
    and "linenumber ls + int (length (inp ls)) < int INT_MAX" "0 \<le> linenumber ls"
  shows "agree False ls (lex_tokens E (length lx + 1)) (\<lambda>ts t. ts = token_list (seminfo (tok ls)) lx)"
  using assms
proof (induction lx arbitrary: ls)
  case Nil
  let ?t = "make_token (seminfo (tok ls)) (tk TK_EOS, None)" and ?ls = "ls\<lparr>lastline := linenumber ls\<rparr>"
  have "agree False ?ls (llex E) (\<lambda>a t. a = (tk TK_EOS, None))"
    unfolding llex_def using Nil.prems(1)
    by (intro agree_thenDo exact_reset exact_loop_end) (auto simp: after_def print_tokens_def)
  then have "agree False ls (luaX_next E) (\<lambda>_ t. tok t = ?t)"
    using Nil.prems(3)
    by (intro exact_luaX_next [where ls0 = ls]) (auto intro!: agree_modify elim!: agree_weaken)
  then show ?case
    by (auto intro!: agree_thenDo agree_andThen agree_gets agree_ret elim!: agree_weaken)
next
  case (Cons l lx)
  let ?t = "make_token (seminfo (tok ls)) (lexeme_token l)"
  have nx: "agree False ls (luaX_next E) (\<lambda>_ t. tok t = ?t \<and> inp t = print_tokens lx \<and>
      lookahead t = lookahead ls \<and> linenumber t = linenumber ls + lexeme_lines l)"
    using Cons.prems
    by (intro exact_luaX_next exact_llex_print [of _ l lx])
      (auto intro!: agree_modify simp: scanned_def fixed_def)
  show ?case
    unfolding length_Cons add_Suc lex_tokens.simps
  proof (rule agree_thenDo, rule agree_weaken [OF nx], intro agree_andThen agree_gets)
    fix a t
    assume t: "tok t = ?t \<and> inp t = print_tokens lx \<and> lookahead t = lookahead ls \<and>
      linenumber t = linenumber ls + lexeme_lines l"
    have "length (inp ls) = 1 + length (spell l) + length (print_tokens lx)"
      using Cons.prems(1) by (simp add: print_tokens_def)
    then have "agree False t (lex_tokens E (length lx + 1)) (\<lambda>ts u. ts = token_list (seminfo (tok t)) lx)"
      using t Cons.prems lexeme_lines_le [of l]
      by (intro Cons.IH) (auto simp: lexeme_lines_def split: lexeme.splits)
    then show "agree False t (lex_tokens E (length lx + 1))
        (\<lambda>ts u. agree False u (ret (tok t # ts)) (\<lambda>ts t. ts = token_list (seminfo (tok ls)) (l # lx)))"
      by (rule agree_weaken) (use t in \<open>auto intro!: agree_ret\<close>)
  qed simp
qed

text \<open>C34: The scanner reads back what it is given in print: a chunk that lists tokens with a space
  before each, in any blocks, gives exactly those tokens and then \<open>TK_EOS\<close>. Reserved words and
  operators are written as \<open>luaX_tokens\<close> has them, integers by \<open>lua_integer2str\<close> and strings of any
  bytes by the \<open>%q\<close> option of \<open>string.format\<close>: every string, with quotes, line breaks, zeros and
  control characters before digits, is read back as it was.\<close>

theorem lex_reads_print:
  assumes "list_all printable lx" "[] \<notin> set bs" "concat bs = print_tokens lx"
    and "length (print_tokens lx) + 1 < INT_MAX"
  shows "fst (lex_tokens E (length lx + 1) (lex_open bs source sem)) = Inr (token_list sem lx)"
proof -
  have o: "lok (lex_open bs source sem)" "inp (lex_open bs source sem) = print_tokens lx"
    "token (lookahead (lex_open bs source sem)) = tk TK_EOS"
    using lex_open_ok assms by simp_all
  have f: "linenumber (lex_open bs source sem) = 1" "tok (lex_open bs source sem) = \<lparr>token = 0, seminfo = sem\<rparr>"
    by (simp_all add: lex_open_def luaX_setinput_def split: prod.splits sum.splits)
  have "agree False (lex_open bs source sem) (lex_tokens E (length lx + 1)) (\<lambda>ts t. ts = token_list sem lx)"
    using exact_tokens [of "lex_open bs source sem" lx E] o f assms by simp
  from agreeD [OF this lex_same_refl [OF o(1)]] show ?thesis
    by (rule agrees_total)
qed

definition example_lexemes :: "lexeme list" where
  "example_lexemes = [L_fixed TK_WHILE, L_name [120, 49], L_fixed TK_NE, L_str [34, 0, 49, 10, 200], L_char 59]"

theorem lex_reads_print_witness:
  "fst (lex_tokens example_lex 6 (lex_open [take 3 (print_tokens example_lexemes), drop 3 (print_tokens example_lexemes)]
      [] (Sem_i 0))) =
   Inr [\<lparr>token = 278, seminfo = Sem_ts (bytes_of ''while'')\<rparr>, \<lparr>token = 292, seminfo = Sem_ts [120, 49]\<rparr>,
        \<lparr>token = 285, seminfo = Sem_ts [120, 49]\<rparr>, \<lparr>token = 293, seminfo = Sem_ts [34, 0, 49, 10, 200]\<rparr>,
        \<lparr>token = 59, seminfo = Sem_ts [34, 0, 49, 10, 200]\<rparr>, \<lparr>token = 289, seminfo = Sem_ts [34, 0, 49, 10, 200]\<rparr>]"
proof -
  let ?bs = "[take 3 (print_tokens example_lexemes), drop 3 (print_tokens example_lexemes)]"
  have p: "list_all printable example_lexemes" by code_simp
  have l: "length (print_tokens example_lexemes) = 27" by code_simp
  then have "take 3 (print_tokens example_lexemes) \<noteq> []" "drop 3 (print_tokens example_lexemes) \<noteq> []"
    by (metis length_0_conv length_take min_def zero_neq_numeral) (use l in simp)
  then have "[] \<notin> set ?bs" "concat ?bs = print_tokens example_lexemes" by auto
  moreover have "length (print_tokens example_lexemes) + 1 < INT_MAX" using l by (simp add: INT_MAX_def)
  ultimately have "fst (lex_tokens example_lex (length example_lexemes + 1) (lex_open ?bs [] (Sem_i 0))) =
      Inr (token_list (Sem_i 0) example_lexemes)"
    by (rule lex_reads_print [OF p])
  moreover have "length example_lexemes + 1 = 6" by (simp add: example_lexemes_def)
  moreover have "token_list (Sem_i 0) example_lexemes =
       [\<lparr>token = 278, seminfo = Sem_ts (bytes_of ''while'')\<rparr>, \<lparr>token = 292, seminfo = Sem_ts [120, 49]\<rparr>,
        \<lparr>token = 285, seminfo = Sem_ts [120, 49]\<rparr>, \<lparr>token = 293, seminfo = Sem_ts [34, 0, 49, 10, 200]\<rparr>,
        \<lparr>token = 59, seminfo = Sem_ts [34, 0, 49, 10, 200]\<rparr>, \<lparr>token = 289, seminfo = Sem_ts [34, 0, 49, 10, 200]\<rparr>]"
    by (simp add: example_lexemes_def make_token_def fixed_spelling_def luaX_tokens_def FIRST_RESERVED_def)
  ultimately show ?thesis by (simp only:)
qed

end
