(* ===== verification/Spec2Isabelle.thy ===== *)
theory Spec2Isabelle
  imports SshAuth2Props LuaUtf8Props LuaTableWalk LuaStrLibProps LuaOpcodes LuaDumpProps LuaHeapReach LuaPackBounds LuaLexRound
begin

text \<open>
  The C code of the gexcloud repository has two parts. Nothing in one calls the other; they share
  only the theory \<open>Prelude\<close> of this library.

  \<^item> \<open>base/ssh\<close>: the three files that the platform replaces in OpenSSH, so that a device is
    authenticated by a PAM stack of its own (\<open>auth-pam_next.c\<close>) under protocol 1 (\<open>12/auth1.c\<close>)
    and protocol 2 (\<open>12/auth2.c\<close>).
  \<^item> \<open>webproxy_aws/temp/lua-5.3.2/src\<close>: the Lua 5.3.2 interpreter that the web proxy builds to run its
    modules.

  The rest of the repository (Ansible roles, Ruby and shell scripts, the Lua modules of the proxy)
  is not C and not modelled.

  \<^bold>\<open>Conventions.\<close> A C function that works on a state and may not return is a \<open>prog\<close> of \<open>Prelude\<close>: a
  function from the state to an exit value or a result, and the state reached. Functions without a
  state return a sum. Sizes and pointers into a buffer are natural numbers, or words where the code
  relies on wrap-around; characters are bytes. Where C leaves the behaviour undefined the model has
  an error value of its own (\<open>Undefined\<close>, \<open>Overread\<close>, \<open>Out_of_bounds\<close>), so that its absence is a
  theorem. Loops are functions with a termination proof. Code outside the repository (the PAM and
  packet libraries, the C library, the caller's reader and writer) is a parameter: a field of an
  environment record, or an argument.

  \<^bold>\<open>The SSH server.\<close>

  \<^item> \<open>SshBase\<close>: the state \<open>sshd\<close> that the three files share: \<open>Authctxt\<close>, the server options, the static
    variables of \<open>auth-pam_next.c\<close>, the registered dispatch handlers, what was sent and logged, and the
    world of the parameters.
  \<^item> \<open>SshPam\<close>, \<open>SshPamOps\<close>: \<open>auth-pam_next.c\<close>. The conversation functions, the PAM process with its
    messages (\<open>sshpam_thread\<close>, \<open>import_environments\<close>), \<open>start_pam\<close> to \<open>finish_pam\<close>, the keyboard-interactive device
    (\<open>sshpam_init_ctx\<close>, \<open>sshpam_query\<close>, \<open>sshpam_respond\<close>, \<open>sshpam_free_ctx\<close>) and \<open>sshpam_auth_passwd\<close>.
    \<open>SshPamFrame\<close> has the locale \<open>conversation\<close>, the contract of every conversation function, interpreted on
    all five. \<open>SshPamProps\<close>: password authentication succeeds on PAM's word only, the environment survives
    its way between the processes, the device collects the messages of PAM before a prompt, succeeds
    under its conditions only, and leaves no context behind when it cannot start.
  \<^item> \<open>SshAuth1\<close>: \<open>12/auth1.c\<close>, with \<open>do_authloop\<close> as the loop over packets. The loop ends after
    \<open>max_authtries\<close> failures; \<open>fuel\<close> is the number of packets, and \<open>auth1_loop_returns\<close> shows how many are
    enough. \<open>SshAuthFrame\<close> says what the calls of a loop leave alone; for the methods outside the
    repository this is the hypothesis \<open>outside_ok\<close>. \<open>SshAuth1Props\<close>: at most one success message and never a
    failure after it, admission only with a credential, the account check and the root rule, the
    bound on attempts.
  \<^item> \<open>SshAuth2\<close>: \<open>12/auth2.c\<close>. The dispatcher is the inductive relation of the states it can reach by
    delivering packets to the registered handlers. \<open>SshAuth2Props\<close>: invariants of all reachable states.

  \<^bold>\<open>Lua: values, text and numbers.\<close>

  \<^item> \<open>LuaBase\<close>, \<open>LuaObject\<close>, \<open>LuaObjectProps\<close>: \<open>lctype.c\<close>, \<open>lctype.h\<close>, the routines of \<open>lobject.c\<close> and the integer
    operations of \<open>lvm.c\<close>, against arithmetic. \<open>LuaBase\<close> also has \<open>luaL_checkstack\<close> (\<open>lapi.c\<close>, \<open>lauxlib.c\<close>) on the three
    numbers of a \<open>lua_State\<close> that it depends on, for the functions that push a value per byte.
  \<^item> \<open>LuaValue\<close>: the values of \<open>lobject.h\<close>, raw equality, string hashes. A double is its 64 bits.
  \<^item> \<open>LuaUtf8\<close>, \<open>LuaUtf8Props\<close>: \<open>lutf8lib.c\<close>. \<open>luaO_utf8esc\<close> and \<open>utf8_decode\<close> interpret the locale \<open>codec\<close>.
  \<^item> \<open>LuaMatch\<close>, \<open>LuaMatchProps\<close>, \<open>LuaStrLib\<close>, \<open>LuaStrLibProps\<close>: \<open>lstrlib.c\<close>, the pattern matcher and the functions
    on it. The reference is the list of all successes of a pattern, in order of preference. The
    nesting of the C function \<open>match\<close> is the code's own counter \<open>MAXCCALLS\<close>.
  \<^item> \<open>LuaPack\<close>, \<open>LuaPackProps\<close>, \<open>LuaPackBounds\<close>: \<open>string.pack\<close>, \<open>packsize\<close> and \<open>unpack\<close>: round trip for every format;
    \<open>unpack\<close> stays within its data.
  \<^item> \<open>LuaFormat\<close>: \<open>string.format\<close>; the buffer of a format item never overflows.

  \<^bold>\<open>Lua: tables.\<close>

  \<^item> \<open>LuaTable\<close>: \<open>ltable.c\<close>, an array part and a hash part whose collision chains are relative links.
    \<open>luaH_newkey\<close> calls itself after a rehash; the model closes the recursion at depth 2, and
    \<open>LuaTableRehash\<close> shows that the rehash leaves room for the key, so that the depth is never used up.
  \<^item> \<open>LuaChain\<close>, \<open>LuaTableInv\<close>, \<open>LuaTableMap\<close>, \<open>LuaTableRehash\<close>, \<open>LuaTableSet\<close>, \<open>LuaTableWalk\<close>, \<open>LuaTableGrow\<close>: the
    invariant of the hash part; tables as finite maps, which every operation refines; the sizes of a
    rehash; traversal and length; how many assignments a table takes before it reaches its limit.
  \<^item> \<open>LuaTabLib\<close>, \<open>LuaSort\<close>: \<open>ltablib.c\<close> over the record \<open>lua_api\<close> of the calls it makes. Its theorems are proved in
    the locale \<open>lua_tables\<close> (\<open>LuaTabLibProps\<close>, \<open>LuaSortProps\<close>, \<open>LuaSortAux\<close>), which says that those calls behave
    like an array. \<open>LuaHeap\<close> models the calls on a heap of tables of \<open>ltable.c\<close> (\<open>lapi.c\<close>, \<open>lvm.c\<close>, \<open>lauxlib.c\<close>);
    \<open>LuaHeapProps\<close> interprets the locale on it, and \<open>LuaTabRefine\<close> states the results for real tables as
    operations on lists. \<open>LuaHeapReach\<close>: every heap that can be built is well formed. The loops of the
    sort end because the scans are bounded by the array and the recursion by its length.

  \<^bold>\<open>Lua: from text and from precompiled chunks.\<close>

  \<^item> \<open>LuaZio\<close>: \<open>lzio.c\<close>; the reader is the list of blocks that it returns. \<open>zgetc\<close> after the end of the stream
    reads past the last block, which is \<open>Undefined\<close>; its clients are shown not to call it there.
  \<^item> \<open>LuaLex\<close>, \<open>LuaLexProps\<close>, \<open>LuaLexRound\<close>: \<open>llex.c\<close>, its error messages included. \<open>LuaLexProps\<close> proves rules in the
    style of weakest preconditions for every step, which give the same result on any two states with
    the same bytes to come: the tokens do not depend on the blocks, scanning ends, and nothing
    undefined happens below \<open>INT_MAX\<close> bytes (\<open>skip_sep\<close> counts in an \<open>int\<close>). \<open>LuaLexRound\<close>: printed tokens are
    scanned back, with strings through \<open>%q\<close>.
  \<^item> \<open>LuaDump\<close>, \<open>LuaUndump\<close>, \<open>LuaDumpProps\<close>: \<open>ldump.c\<close>, \<open>lundump.c\<close> and \<open>f_parser\<close> of \<open>ldo.c\<close>. \<open>depth\<close> is the room of the C
    stack for nested functions; a chunk loads if it is at least \<open>proto_depth\<close>. Dump and load are
    inverse, and a truncated chunk is refused.
  \<^item> \<open>LuaOpcodes\<close>: \<open>lopcodes.h\<close>, \<open>lopcodes.c\<close>; fields of instructions do not overlap.

  \<^bold>\<open>Not modelled.\<close> The compiler (\<open>lparser.c\<close>, \<open>lcode.c\<close>), the interpreter loop (\<open>luaV_execute\<close>), calls, coroutines
  and errors (\<open>ldo.c\<close>), the garbage collector (\<open>lgc.c\<close>, \<open>lmem.c\<close>), the Lua stack, but for its size, and the registry (\<open>lapi.c\<close>,
  \<open>lauxlib.c\<close>, \<open>lstate.c\<close>), the debug interface and the libraries that wrap the C library are left out: they
  share the pointer structure of \<open>lua_State\<close>, which this library does not model. Metamethods are left
  out with them: tables have none, and a collection has no effect on what can be reached. Memory
  errors are modelled only where the code decides on a size itself. Floating-point arithmetic and
  conversions belong to the C library. Of the SSH files the sections for other operating systems
  and for build options that are off are left out.
\<close>

end
